(* ===== verification/Prelude.thy ===== *)
theory Prelude
  imports Main "HOL-Library.Word" "HOL-Library.Monad_Syntax"
begin

text \<open>
  Shared vocabulary of the Arcline development.

  \<^item> machine integers: \<open>u8\<close>, \<open>u16\<close>, \<open>u32\<close>, \<open>u64\<close>;
  \<^item> undefined behaviour: an operation that the C code could only perform by leaving an array or
    following a null pointer is \<open>None\<close> in the option monad, so "the code is memory safe here" is
    the theorem that the model returns \<open>Some\<close>;
  \<^item> C arrays of a fixed size: a function from indices, read and written through \<open>arr_get\<close> and
    \<open>arr_set\<close>, which check the index;
  \<^item> C \<open>for\<close> loops: \<open>for_upto\<close> (runs to the end) and \<open>for_ret\<close> (may \<open>return\<close> from the body),
    each with an invariant rule that the component proofs use;
  \<^item> word arithmetic on page alignment and single bits;
  \<^item> the contract of a bitmap (locale \<open>bitmap\<close>), which the physical memory manager and the PID
    allocator implement with words of different widths, and that of a page allocator (locale
    \<open>page_allocator\<close>), which the physical memory manager implements for its clients.
\<close>

unbundle bit_operations_syntax

type_synonym u8 = "8 word"
type_synonym u16 = "16 word"
type_synonym u32 = "32 word"
type_synonym u64 = "64 word"

text \<open>Facts that evaluate bounds-checked reads and word masks in the component proofs.\<close>

named_theorems c_simps

section \<open>Definitions\<close>

subsection \<open>Checked C arrays\<close>

definition arr_get :: "nat \<Rightarrow> (nat \<Rightarrow> 'a) \<Rightarrow> nat \<Rightarrow> 'a option" where
  "arr_get n a i = (if i < n then Some (a i) else None)"

definition arr_set :: "nat \<Rightarrow> (nat \<Rightarrow> 'a) \<Rightarrow> nat \<Rightarrow> 'a \<Rightarrow> (nat \<Rightarrow> 'a) option" where
  "arr_set n a i v = (if i < n then Some (a(i := v)) else None)"

subsection \<open>Counting loops\<close>

text \<open>\<open>for (i = i; i < n; i++) s = f(i, s);\<close>\<close>

function for_upto :: "nat \<Rightarrow> nat \<Rightarrow> (nat \<Rightarrow> 's \<Rightarrow> 's option) \<Rightarrow> 's \<Rightarrow> 's option" where
  "for_upto i n f s =
     (if i < n then Option.bind (f i s) (for_upto (Suc i) n f) else Some s)"
  by pat_completeness auto
termination
  by (relation "measure (\<lambda>(i, n, f, s). n - i)") auto

text \<open>The same loop whose body may return from the function (\<open>Inl\<close>) or go on (\<open>Inr\<close>).\<close>

function for_ret ::
  "nat \<Rightarrow> nat \<Rightarrow> (nat \<Rightarrow> 's \<Rightarrow> ('r + 's) option) \<Rightarrow> 's \<Rightarrow> ('r + 's) option" where
  "for_ret i n f s =
     (if i < n then
        Option.bind (f i s) (case_sum (\<lambda>r. Some (Inl r)) (for_ret (Suc i) n f))
      else Some (Inr s))"
  by pat_completeness auto
termination
  by (relation "measure (\<lambda>(i, n, f, s). n - i)") auto

declare for_upto.simps [simp del] for_ret.simps [simp del]

text \<open>
  \<open>for (uint64_t x = x; x < lim; x += step)\<close>: the counter wraps at 2 ^ 64, so the loop need not end
  (then it is \<open>None\<close>). The first form has a body that may return from the function.
\<close>

partial_function (option) while_ret_u64 ::
  "u64 \<Rightarrow> u64 \<Rightarrow> u64 \<Rightarrow> (u64 \<Rightarrow> 's \<Rightarrow> ('r + 's) option) \<Rightarrow> 's \<Rightarrow> ('r + 's) option" where
  "while_ret_u64 x lim step f s =
     (if x < lim then
        Option.bind (f x s) (\<lambda>r. case r of Inl r \<Rightarrow> Some (Inl r) | Inr s \<Rightarrow> while_ret_u64 (x + step) lim step f s)
      else Some (Inr s))"

partial_function (option) while_u64 ::
  "u64 \<Rightarrow> u64 \<Rightarrow> u64 \<Rightarrow> (u64 \<Rightarrow> 's \<Rightarrow> 's option) \<Rightarrow> 's \<Rightarrow> 's option" where
  "while_u64 x lim step f s =
     (if x < lim then Option.bind (f x s) (\<lambda>s. while_u64 (x + step) lim step f s) else Some s)"

subsection \<open>Page alignment\<close>

definition page_aligned :: "u64 \<Rightarrow> bool" where
  "page_aligned a \<longleftrightarrow> a AND 4095 = 0"

subsection \<open>Bitmaps, abstractly\<close>

text \<open>Bit \<open>i\<close> of an array of words, \<open>(b[i / w] >> (i % w)) & 1\<close> for words of \<open>w\<close> bits.\<close>

definition arr_bit :: "(nat \<Rightarrow> 'a::len word) \<Rightarrow> nat \<Rightarrow> bool" where
  "arr_bit b i \<longleftrightarrow> bit (b (i div LENGTH('a))) (i mod LENGTH('a))"

text \<open>A bitmap stands for a predicate on indices; the free entries below \<open>n\<close> are counted.\<close>

definition clear_count :: "(nat \<Rightarrow> bool) \<Rightarrow> nat \<Rightarrow> nat" where
  "clear_count m n = card {i. i < n \<and> \<not> m i}"

section \<open>Lemmas\<close>

subsection \<open>Arrays\<close>

lemma arr_get_Some [simp, c_simps]: "i < n \<Longrightarrow> arr_get n a i = Some (a i)"
  by (simp add: arr_get_def)

lemma arr_get_None [simp, c_simps]: "\<not> i < n \<Longrightarrow> arr_get n a i = None"
  by (simp add: arr_get_def)

lemma arr_set_Some [simp, c_simps]: "i < n \<Longrightarrow> arr_set n a i v = Some (a(i := v))"
  by (simp add: arr_set_def)

lemma arr_set_None [simp, c_simps]: "\<not> i < n \<Longrightarrow> arr_set n a i v = None"
  by (simp add: arr_set_def)

subsection \<open>Options\<close>

lemma bind_Some_map: "Option.bind x (\<lambda>y. Some (f y)) = map_option f x"
  by (cases x) simp_all

subsection \<open>Loops\<close>

lemma for_upto_done [simp]: "\<not> i < n \<Longrightarrow> for_upto i n f s = Some s"
  by (simp add: for_upto.simps [of i])

lemma for_upto_step: "i < n \<Longrightarrow> for_upto i n f s = Option.bind (f i s) (for_upto (Suc i) n f)"
  by (simp add: for_upto.simps [of i])

lemma for_ret_done [simp]: "\<not> i < n \<Longrightarrow> for_ret i n f s = Some (Inr s)"
  by (simp add: for_ret.simps [of i])

lemma for_ret_step:
  "i < n \<Longrightarrow>
   for_ret i n f s = Option.bind (f i s) (case_sum (\<lambda>r. Some (Inl r)) (for_ret (Suc i) n f))"
  by (simp add: for_ret.simps [of i])

text \<open>Total correctness by an invariant indexed by the loop counter.\<close>

lemma for_upto_inv:
  assumes "i \<le> n" and "P i s"
    and "\<And>k t. i \<le> k \<Longrightarrow> k < n \<Longrightarrow> P k t \<Longrightarrow> \<exists>t'. f k t = Some t' \<and> P (Suc k) t'"
  shows "\<exists>t. for_upto i n f s = Some t \<and> P n t"
  using assms
proof (induction i n f s rule: for_upto.induct)
  case (1 i n f s)
  show ?case
  proof (cases "i < n")
    case True
    from "1.prems"(3) [OF order.refl True "1.prems"(2)]
    obtain s' where s': "f i s = Some s'" "P (Suc i) s'" by blast
    have "\<exists>t. for_upto (Suc i) n f s' = Some t \<and> P n t"
      using "1.IH" [OF True s'(1)] s'(2) True "1.prems"(3) by (simp add: Suc_leI)
    with True s'(1) show ?thesis by (simp add: for_upto_step)
  next
    case False
    with "1.prems"(1,2) show ?thesis by simp
  qed
qed

text \<open>
  The rule for a loop that may return: the invariant \<open>P\<close> holds while it runs, \<open>Q\<close> of a value
  it returns.
\<close>

lemma for_ret_inv:
  assumes "i \<le> n" and "P i s"
    and "\<And>k t. i \<le> k \<Longrightarrow> k < n \<Longrightarrow> P k t \<Longrightarrow>
           (\<exists>r. f k t = Some (Inl r) \<and> Q r) \<or> (\<exists>t'. f k t = Some (Inr t') \<and> P (Suc k) t')"
  shows "(\<exists>r. for_ret i n f s = Some (Inl r) \<and> Q r) \<or> (\<exists>t. for_ret i n f s = Some (Inr t) \<and> P n t)"
  using assms
proof (induction i n f s rule: for_ret.induct)
  case (1 i n f s)
  show ?case
  proof (cases "i < n")
    case True
    from "1.prems"(3) [OF order.refl True "1.prems"(2)] consider
      (ret) r where "f i s = Some (Inl r)" "Q r" |
      (go) s' where "f i s = Some (Inr s')" "P (Suc i) s'" by blast
    then show ?thesis
    proof cases
      case ret
      with True show ?thesis by (simp add: for_ret_step)
    next
      case go
      have "(\<exists>r. for_ret (Suc i) n f s' = Some (Inl r) \<and> Q r) \<or>
            (\<exists>t. for_ret (Suc i) n f s' = Some (Inr t) \<and> P n t)"
        using "1.IH" [OF True go(1) refl] go(2) True "1.prems"(3) by (simp add: Suc_leI)
      with True go(1) show ?thesis by (simp add: for_ret_step)
    qed
  next
    case False
    with "1.prems"(1,2) show ?thesis by simp
  qed
qed

subsection \<open>Words\<close>

lemma and_not_mask_push_drop: "(x::'a::len word) AND NOT (mask n) = push_bit n (drop_bit n x)"
  by (rule bit_word_eqI) (auto simp: bit_simps)

lemma unat_lt64: "unat (x::u64) < 2 ^ 64"
proof -
  have "unat x < 2 ^ LENGTH(64)" by (rule unsigned_less)
  then show ?thesis by simp
qed

lemma unat_and_not_4095: "unat (x AND NOT (4095::u64)) = unat x - unat x mod 4096"
proof -
  have m: "(4095::u64) = mask 12" by (simp add: mask_eq_exp_minus_1)
  have "unat (push_bit 12 (drop_bit 12 x)) = unat (drop_bit 12 x) * 2 ^ 12 mod 2 ^ 64"
    by (simp add: push_bit_eq_mult unat_word_ariths)
  moreover have "unat (drop_bit 12 x) = unat x div 2 ^ 12"
    by (simp only: unat_drop_bit_eq drop_bit_nat_def)
  moreover have "unat x div 2 ^ 12 * 2 ^ 12 < 2 ^ 64"
    by (rule order.strict_trans1 [OF div_times_less_eq_dividend unat_lt64])
  ultimately show ?thesis
    by (simp add: m and_not_mask_push_drop minus_mod_eq_div_mult [symmetric])
qed

lemma aligned_add: "(B::nat) mod 4096 = 0 \<Longrightarrow> M mod 4096 = 0 \<Longrightarrow> (B + M) mod 4096 = 0"
  using mod_add_eq [of B 4096 M] by simp

lemma aligned_room: "(x::nat) mod 4096 = 0 \<Longrightarrow> x < 2 ^ 64 \<Longrightarrow> x + 4095 < 2 ^ 64"
proof -
  assume "x mod 4096 = 0" and lt: "x < 2 ^ 64"
  then obtain q where x: "x = q * 4096" by (metis add.right_neutral div_mult_mod_eq)
  with lt have "q < 2 ^ 52" by simp
  then show ?thesis by (simp add: x)
qed

lemma aligned_le_down: "(B::nat) mod 4096 = 0 \<Longrightarrow> B \<le> x \<Longrightarrow> B \<le> x - x mod 4096"
proof -
  assume "B mod 4096 = 0" and le: "B \<le> x"
  then obtain q where B: "B = q * 4096" by (metis add.right_neutral div_mult_mod_eq)
  with le have "q \<le> x div 4096" by (simp add: less_eq_div_iff_mult_less_eq)
  then show ?thesis by (simp add: B minus_mod_eq_div_mult)
qed

lemma unat_align_up:
  assumes "unat x + 4095 < 2 ^ 64"
  shows "unat ((x + 4095) AND NOT (4095::u64)) = unat x + 4095 - (unat x + 4095) mod 4096"
proof -
  have "unat (x + 4095) = unat x + 4095"
    using assms by (simp add: unat_word_ariths)
  then show ?thesis by (simp only: unat_and_not_4095)
qed

lemma unat_add_nowrap: "unat (x::u64) + unat y < 2 ^ 64 \<Longrightarrow> unat (x + y) = unat x + unat y"
  by (simp add: unat_word_ariths)

lemma unat_and_4095: "unat (x AND (4095::u64)) = unat x mod 4096"
proof -
  have "(4095::u64) = mask 12" by (simp add: mask_eq_exp_minus_1)
  then have "x AND 4095 = take_bit 12 x" by (simp add: take_bit_eq_mask)
  then show ?thesis by (simp only: unsigned_take_bit_eq take_bit_nat_def) simp
qed

lemma page_aligned_unat: "page_aligned a \<longleftrightarrow> unat a mod 4096 = 0"
  by (simp add: page_aligned_def unat_and_4095 [symmetric] unat_eq_0)

lemma div_mod_eq_iff: "j div w = i div w \<Longrightarrow> (j mod w = i mod w) = (j = (i::nat))"
  by (metis div_mult_mod_eq)

lemma arr_bit_set:
  fixes b :: "nat \<Rightarrow> 'a::len word"
  assumes "w = LENGTH('a)"
  shows "arr_bit (b(i div w := b (i div w) OR 2 ^ (i mod w))) = (arr_bit b)(i := True)"
proof (rule ext)
  fix j
  show "arr_bit (b(i div w := b (i div w) OR 2 ^ (i mod w))) j = ((arr_bit b)(i := True)) j"
    using div_mod_eq_iff [of j w i] assms
    by (cases "j div w = i div w") (auto simp: arr_bit_def bit_simps)
qed

lemma arr_bit_clear:
  fixes b :: "nat \<Rightarrow> 'a::len word"
  assumes "w = LENGTH('a)"
  shows "arr_bit (b(i div w := b (i div w) AND NOT (2 ^ (i mod w)))) = (arr_bit b)(i := False)"
proof (rule ext)
  fix j
  show "arr_bit (b(i div w := b (i div w) AND NOT (2 ^ (i mod w)))) j = ((arr_bit b)(i := False)) j"
    using div_mod_eq_iff [of j w i] assms
    by (cases "j div w = i div w") (auto simp: arr_bit_def bit_simps)
qed

subsection \<open>Loops over addresses\<close>

text \<open>An address loop that does not wrap is a counting loop.\<close>

lemma unat_step:
  assumes "unat (x::u64) + k * unat step < 2 ^ 64" "i \<le> k"
  shows "unat (x + of_nat i * step) = unat x + i * unat step"
proof -
  have le: "i * unat step \<le> k * unat step" using assms(2) by simp
  then have lt: "unat x + i * unat step < 2 ^ 64" using assms(1) by linarith
  have "unat (of_nat i * step) = i * unat step"
  proof (cases "unat step = 0")
    case False
    then have "i * 1 \<le> i * unat step" by (intro mult_le_mono2) simp
    then have "i < 2 ^ 64" using lt by linarith
    with lt show ?thesis by (simp add: unat_word_ariths unat_of_nat)
  qed (simp add: unat_word_ariths)
  then show ?thesis using lt by (subst unat_add_nowrap) simp_all
qed

lemma while_ret_u64_count:
  assumes bound: "unat x + k * unat step < 2 ^ 64" "unat lim \<le> unat x + k * unat step"
    and inside: "\<And>i. i < k \<Longrightarrow> unat x + i * unat step < unat lim"
  shows "while_ret_u64 x lim step f s = for_ret 0 k (\<lambda>i. f (x + of_nat i * step)) s"
proof -
  have "while_ret_u64 (x + of_nat j * step) lim step f s = for_ret j k (\<lambda>i. f (x + of_nat i * step)) s"
    if "j \<le> k" for j
    using that
  proof (induction "k - j" arbitrary: j s)
    case 0
    then have "\<not> x + of_nat j * step < lim"
      using unat_step [OF bound(1), of j] bound(2) by (simp add: word_less_nat_alt)
    with 0 show ?case by (subst while_ret_u64.simps) simp
  next
    case (Suc n)
    then have lt: "x + of_nat j * step < lim"
      using unat_step [OF bound(1), of j] inside [of j] by (simp add: word_less_nat_alt)
    have nxt: "x + of_nat j * step + step = x + of_nat (Suc j) * step" by (simp add: algebra_simps)
    have IH: "(\<lambda>r. case r of Inl r \<Rightarrow> Some (Inl r) | Inr s \<Rightarrow> while_ret_u64 (x + of_nat j * step + step) lim step f s)
        = case_sum (\<lambda>r. Some (Inl r)) (for_ret (Suc j) k (\<lambda>i. f (x + of_nat i * step)))"
      unfolding nxt using Suc(1) [of "Suc j"] Suc(2,3)
      by (auto simp: fun_eq_iff simp del: of_nat_Suc split: sum.splits)
    have "while_ret_u64 (x + of_nat j * step) lim step f s
        = Option.bind (f (x + of_nat j * step) s) (case_sum (\<lambda>r. Some (Inl r)) (for_ret (Suc j) k (\<lambda>i. f (x + of_nat i * step))))"
      using lt by (subst while_ret_u64.simps) (simp only: if_True IH)
    with Suc show ?case by (subst for_ret_step) simp_all
  qed
  from this [of 0] show ?thesis by simp
qed

lemma while_u64_count:
  assumes bound: "unat x + k * unat step < 2 ^ 64" "unat lim \<le> unat x + k * unat step"
    and inside: "\<And>i. i < k \<Longrightarrow> unat x + i * unat step < unat lim"
  shows "while_u64 x lim step f s = for_upto 0 k (\<lambda>i. f (x + of_nat i * step)) s"
proof -
  have "while_u64 (x + of_nat j * step) lim step f s = for_upto j k (\<lambda>i. f (x + of_nat i * step)) s"
    if "j \<le> k" for j
    using that
  proof (induction "k - j" arbitrary: j s)
    case 0
    then have "\<not> x + of_nat j * step < lim"
      using unat_step [OF bound(1), of j] bound(2) by (simp add: word_less_nat_alt)
    with 0 show ?case by (subst while_u64.simps) simp
  next
    case (Suc n)
    then have lt: "x + of_nat j * step < lim"
      using unat_step [OF bound(1), of j] inside [of j] by (simp add: word_less_nat_alt)
    have nxt: "x + of_nat j * step + step = x + of_nat (Suc j) * step" by (simp add: algebra_simps)
    have IH: "while_u64 (x + of_nat j * step + step) lim step f = for_upto (Suc j) k (\<lambda>i. f (x + of_nat i * step))"
      unfolding nxt using Suc(1) [of "Suc j"] Suc(2,3) by (auto simp: fun_eq_iff simp del: of_nat_Suc)
    have "while_u64 (x + of_nat j * step) lim step f s
        = Option.bind (f (x + of_nat j * step) s) (for_upto (Suc j) k (\<lambda>i. f (x + of_nat i * step)))"
      using lt by (subst while_u64.simps) (simp only: if_True IH)
    with Suc show ?case by (subst for_upto_step) simp_all
  qed
  from this [of 0] show ?thesis by simp
qed

text \<open>... in particular one that runs over the pages of an aligned range.\<close>

lemma page_loop_bounds:
  assumes "page_aligned x" "page_aligned lim" "x \<le> lim" and k: "k = (unat lim - unat x) div 4096"
  shows "unat x + k * unat (4096::u64) < 2 ^ 64" "unat lim \<le> unat x + k * unat (4096::u64)"
    "\<And>i. i < k \<Longrightarrow> unat x + i * unat (4096::u64) < unat lim"
proof -
  have le: "unat x \<le> unat lim" using assms(3) by (simp add: word_le_nat_alt)
  have "(unat lim - unat x) mod 4096 = 0"
    using assms(1,2) mod_eq_dvd_iff_nat [OF le, of 4096] by (simp add: page_aligned_unat)
  then have "k * 4096 = unat lim - unat x" using k div_mult_mod_eq [of "unat lim - unat x" 4096] by simp
  then have eq: "unat lim = unat x + k * 4096" using le by simp
  then show "unat x + k * unat (4096::u64) < 2 ^ 64" "unat lim \<le> unat x + k * unat (4096::u64)"
    using unat_lt64 [of lim] by simp_all
  show "unat x + i * unat (4096::u64) < unat lim" if "i < k" for i using that eq by simp
qed

lemma while_u64_pages:
  assumes "page_aligned x" "page_aligned lim" "x \<le> lim" "k = (unat lim - unat x) div 4096"
  shows "while_u64 x lim 4096 f s = for_upto 0 k (\<lambda>i. f (x + of_nat i * 4096)) s"
  using page_loop_bounds [OF assms] by (rule while_u64_count)

lemma while_ret_u64_pages:
  assumes "page_aligned x" "page_aligned lim" "x \<le> lim" "k = (unat lim - unat x) div 4096"
  shows "while_ret_u64 x lim 4096 f s = for_ret 0 k (\<lambda>i. f (x + of_nat i * 4096)) s"
  using page_loop_bounds [OF assms] by (rule while_ret_u64_count)

subsection \<open>Counting the clear entries\<close>

lemma clear_count_le: "clear_count m n \<le> n"
proof -
  have "clear_count m n \<le> card {..<n}"
    unfolding clear_count_def by (rule card_mono) auto
  then show ?thesis by simp
qed

lemma clear_count_0 [simp]: "clear_count m 0 = 0"
  by (simp add: clear_count_def)

lemma clear_count_Suc: "clear_count m (Suc n) = clear_count m n + (if m n then 0 else 1)"
proof -
  have "{i. i < Suc n \<and> \<not> m i} = (if m n then {i. i < n \<and> \<not> m i} else insert n {i. i < n \<and> \<not> m i})"
    by (auto simp: less_Suc_eq)
  then show ?thesis by (simp add: clear_count_def)
qed

lemma clear_count_all: "(\<And>i. i < n \<Longrightarrow> \<not> m i) \<Longrightarrow> clear_count m n = n"
  by (induction n) (simp_all add: clear_count_Suc)

lemma clear_count_cong: "(\<And>i. i < n \<Longrightarrow> m i = m' i) \<Longrightarrow> clear_count m n = clear_count m' n"
  by (induction n) (simp_all add: clear_count_Suc)

lemma clear_count_mark:
  assumes "i < n" "\<not> m i"
  shows "clear_count m n = Suc (clear_count (m(i := True)) n)"
proof -
  have "{j. j < n \<and> \<not> m j} = insert i {j. j < n \<and> \<not> (m(i := True)) j}"
    using assms by auto
  then show ?thesis by (simp add: clear_count_def)
qed

lemma clear_count_clear:
  assumes "i < n" "m i"
  shows "clear_count (m(i := False)) n = Suc (clear_count m n)"
  using clear_count_mark [OF assms(1), of "m(i := False)"] assms(2)
  by (simp add: fun_upd_idem)

lemma clear_count_run:
  assumes "k + c \<le> n" "\<And>i. k \<le> i \<Longrightarrow> i < k + c \<Longrightarrow> \<not> m i"
  shows "clear_count m n = c + clear_count (\<lambda>i. m i \<or> k \<le> i \<and> i < k + c) n"
  using assms
proof (induction c)
  case 0
  then show ?case by (simp add: not_less cong: conj_cong)
next
  case (Suc c)
  let ?m = "\<lambda>i. m i \<or> k \<le> i \<and> i < k + c"
  have eq: "(\<lambda>i. m i \<or> k \<le> i \<and> i < k + Suc c) = ?m(k + c := True)"
    by (auto simp: fun_eq_iff)
  have "clear_count ?m n = Suc (clear_count (?m(k + c := True)) n)"
    by (rule clear_count_mark) (use Suc.prems in auto)
  with Suc show ?case unfolding eq by simp
qed

section \<open>The bitmap contract\<close>

text \<open>
  A bitmap of capacity \<open>cap\<close>: \<open>tst\<close>, \<open>mk\<close> and \<open>cl\<close> read, set and clear one entry of the
  predicate \<open>mem b\<close>, and are defined on every index below the capacity.
\<close>

locale bitmap =
  fixes cap :: nat
    and mem :: "'b \<Rightarrow> nat \<Rightarrow> bool"
    and tst :: "'b \<Rightarrow> nat \<Rightarrow> bool option"
    and mk :: "'b \<Rightarrow> nat \<Rightarrow> 'b option"
    and cl :: "'b \<Rightarrow> nat \<Rightarrow> 'b option"
  assumes tst: "i < cap \<Longrightarrow> tst b i = Some (mem b i)"
    and mk: "i < cap \<Longrightarrow> \<exists>b'. mk b i = Some b' \<and> mem b' = (mem b)(i := True)"
    and cl: "i < cap \<Longrightarrow> \<exists>b'. cl b i = Some b' \<and> mem b' = (mem b)(i := False)"
begin

lemma mk_run:
  assumes "k + c \<le> cap"
  shows "\<exists>b'. for_upto 0 c (\<lambda>j b. mk b (k + j)) b = Some b' \<and>
    mem b' = (\<lambda>i. mem b i \<or> k \<le> i \<and> i < k + c)"
proof (rule for_upto_inv [where P = "\<lambda>j b'. mem b' = (\<lambda>i. mem b i \<or> k \<le> i \<and> i < k + j)"])
  fix j b'
  assume j: "j < c" and b': "mem b' = (\<lambda>i. mem b i \<or> k \<le> i \<and> i < k + j)"
  obtain b'' where "mk b' (k + j) = Some b''" "mem b'' = (mem b')(k + j := True)"
    using mk [of "k + j" b'] j assms by auto
  then show "\<exists>b''. mk b' (k + j) = Some b'' \<and> mem b'' = (\<lambda>i. mem b i \<or> k \<le> i \<and> i < k + Suc j)"
    using b' by (auto simp: fun_eq_iff)
qed auto

text \<open>The search loop "take the first clear entry": it finds the least one or changes nothing.\<close>

lemma first_clear:
  assumes "i \<le> n" "n \<le> cap"
  shows "(\<exists>k b'. for_ret i n (\<lambda>k b. do {
             t \<leftarrow> tst b k;
             if \<not> t then do { b' \<leftarrow> mk b k; Some (Inl (f k, b')) } else Some (Inr b) }) b
             = Some (Inl (f k, b')) \<and>
           i \<le> k \<and> k < n \<and> \<not> mem b k \<and> (\<forall>j. i \<le> j \<and> j < k \<longrightarrow> mem b j) \<and>
           mem b' = (mem b)(k := True))
       \<or> (for_ret i n (\<lambda>k b. do {
             t \<leftarrow> tst b k;
             if \<not> t then do { b' \<leftarrow> mk b k; Some (Inl (f k, b')) } else Some (Inr b) }) b
             = Some (Inr b) \<and> (\<forall>j. i \<le> j \<and> j < n \<longrightarrow> mem b j))"
    (is "(\<exists>k b'. ?loop = Some (Inl (f k, b')) \<and> ?found k b') \<or> _")
proof -
  have "(\<exists>r. ?loop = Some (Inl r) \<and> (\<exists>k b'. r = (f k, b') \<and> ?found k b')) \<or>
        (\<exists>t. ?loop = Some (Inr t) \<and> t = b \<and> (\<forall>j. i \<le> j \<and> j < n \<longrightarrow> mem b j))"
  proof (rule for_ret_inv, goal_cases)
    case (3 k t)
    then have "k < cap" using assms by simp
    then obtain b' where "mk b k = Some b'" "mem b' = (mem b)(k := True)"
      using mk by blast
    with 3 \<open>k < cap\<close> show ?case by (cases "mem b k") (auto simp: tst less_Suc_eq)
  qed (use assms in auto)
  then show ?thesis by auto
qed

lemma cl_upto:
  assumes "n \<le> cap"
  shows "\<exists>b'. for_upto 0 n (\<lambda>i b. cl b i) b = Some b' \<and> mem b' = (\<lambda>i. mem b i \<and> n \<le> i)"
proof (rule for_upto_inv [where P = "\<lambda>j b'. mem b' = (\<lambda>i. mem b i \<and> j \<le> i)"])
  fix j b'
  assume j: "j < n" and b': "mem b' = (\<lambda>i. mem b i \<and> j \<le> i)"
  obtain b'' where "cl b' j = Some b''" "mem b'' = (mem b')(j := False)"
    using cl [of j b'] j assms by auto
  then show "\<exists>b''. cl b' j = Some b'' \<and> mem b'' = (\<lambda>i. mem b i \<and> Suc j \<le> i)"
    using b' by (auto simp: fun_eq_iff)
qed auto

end

section \<open>The page allocator contract\<close>

text \<open>
  What the page-table code and \<open>vmalloc\<close> rely on: \<open>live s\<close> is the set of addresses of the pages in
  use; an allocation answers null and changes nothing, or answers an aligned page that was not in
  use; freeing a page in use releases exactly that page.
\<close>

fun alloc_many :: "('s \<Rightarrow> (u64 \<times> 's) option) \<Rightarrow> nat \<Rightarrow> 's \<Rightarrow> (u64 list \<times> 's) option" where
  "alloc_many alloc 0 s = Some ([], s)"
| "alloc_many alloc (Suc n) s = do {
     (a, t) \<leftarrow> alloc s;
     (as, u) \<leftarrow> alloc_many alloc n t;
     Some (if a = 0 then as else a # as, u) }"

locale page_allocator =
  fixes ok :: "'s \<Rightarrow> bool"
    and live :: "'s \<Rightarrow> u64 set"
    and alloc :: "'s \<Rightarrow> (u64 \<times> 's) option"
    and free :: "u64 \<Rightarrow> 's \<Rightarrow> 's option"
  assumes alloc: "ok s \<Longrightarrow> \<exists>a t. alloc s = Some (a, t) \<and> ok t \<and>
      (a = 0 \<and> t = s \<or> a \<noteq> 0 \<and> page_aligned a \<and> a \<notin> live s \<and> live t = insert a (live s))"
    and free: "ok s \<Longrightarrow> a \<in> live s \<Longrightarrow> a \<noteq> 0 \<Longrightarrow> \<exists>t. free a s = Some t \<and> ok t \<and> live t = live s - {a}"
begin

lemma alloc_many_fresh:
  "ok s \<Longrightarrow> \<exists>as t. alloc_many alloc n s = Some (as, t) \<and> ok t \<and> distinct as \<and>
     (\<forall>a\<in>set as. page_aligned a \<and> a \<noteq> 0) \<and> set as \<inter> live s = {} \<and> live t = live s \<union> set as"
proof (induction n arbitrary: s)
  case 0
  then show ?case by simp
next
  case (Suc n)
  from alloc [OF Suc.prems] obtain a t where a: "alloc s = Some (a, t)" "ok t"
    "a = 0 \<and> t = s \<or> a \<noteq> 0 \<and> page_aligned a \<and> a \<notin> live s \<and> live t = insert a (live s)" by blast
  from Suc.IH [OF a(2)] obtain as u where "alloc_many alloc n t = Some (as, u)" "ok u" "distinct as"
    "\<forall>a\<in>set as. page_aligned a \<and> a \<noteq> 0" "set as \<inter> live t = {}" "live u = live t \<union> set as" by blast
  with a show ?case by auto
qed

lemma alloc_free_restores:
  assumes "ok s" "alloc s = Some (a, t)" "a \<noteq> 0"
  shows "\<exists>u. free a t = Some u \<and> ok u \<and> live u = live s"
proof -
  from alloc [OF assms(1)] assms(2,3) have "ok t" "a \<notin> live s" "live t = insert a (live s)" by auto
  with free [of t a] assms(3) show ?thesis by auto
qed

end

end
