(* ===== verification/RBTree.thy ===== *)
theory RBTree
  imports Prelude
begin

text \<open>
  The red-black tree of \<open>src/mm/vmm.c\<close> (lines 15-255, and the lookups of lines 309-331), at the
  level of the C code: nodes live in an array and are named by their index, \<open>left\<close>, \<open>right\<close> and
  \<open>parent\<close> are pointers (\<open>None\<close> is \<open>NULL\<close>), and every function updates the node array and the
  root pointer. Following a null pointer is undefined in C and \<open>None\<close> here; a loop that does not
  end is \<open>None\<close> as well, so a theorem that a function returns \<open>Some\<close> shows both that it is memory
  safe and that it terminates.

  The node record is extensible: \<open>vma_node\<close> of \<open>Vmm\<close> adds the mapping itself.

  The second half relates the node array to a mathematical tree of addresses: \<open>rep h root t\<close> says
  that the pointers reachable from \<open>root\<close> form the tree \<open>t\<close>, parent pointers included; a context
  (list of frames) is a tree with a hole, so that a local pointer update is a local change of \<open>t\<close>.
\<close>

section \<open>Definitions\<close>

subsection \<open>Nodes and pointers\<close>

datatype rb_color_t = RB_RED | RB_BLACK

record rb_node =
  left :: "nat option"
  right :: "nat option"
  parent :: "nat option"
  color :: rb_color_t

type_synonym 'a rb_heap = "nat \<Rightarrow> 'a rb_node_scheme"

text \<open>\<open>p->f\<close> and \<open>p->f = v\<close>.\<close>

definition ld :: "('n \<Rightarrow> 'f) \<Rightarrow> ('p \<Rightarrow> 'n) \<Rightarrow> 'p option \<Rightarrow> 'f option" where
  "ld f h p = (case p of None \<Rightarrow> None | Some a \<Rightarrow> Some (f (h a)))"

definition st :: "('n \<Rightarrow> 'n) \<Rightarrow> ('p \<Rightarrow> 'n) \<Rightarrow> 'p option \<Rightarrow> ('p \<Rightarrow> 'n) option" where
  "st u h p = (case p of None \<Rightarrow> None | Some a \<Rightarrow> Some (h(a := u (h a))))"

abbreviation set_left :: "nat option \<Rightarrow> 'a rb_node_scheme \<Rightarrow> 'a rb_node_scheme" where
  "set_left v \<equiv> left_update (\<lambda>_. v)"

abbreviation set_right :: "nat option \<Rightarrow> 'a rb_node_scheme \<Rightarrow> 'a rb_node_scheme" where
  "set_right v \<equiv> right_update (\<lambda>_. v)"

abbreviation set_parent :: "nat option \<Rightarrow> 'a rb_node_scheme \<Rightarrow> 'a rb_node_scheme" where
  "set_parent v \<equiv> parent_update (\<lambda>_. v)"

abbreviation set_color :: "rb_color_t \<Rightarrow> 'a rb_node_scheme \<Rightarrow> 'a rb_node_scheme" where
  "set_color v \<equiv> color_update (\<lambda>_. v)"

definition is_red :: "'a rb_heap \<Rightarrow> nat option \<Rightarrow> bool" where
  "is_red h n = (case n of None \<Rightarrow> False | Some a \<Rightarrow> color (h a) = RB_RED)"

definition is_black :: "'a rb_heap \<Rightarrow> nat option \<Rightarrow> bool" where
  "is_black h n = (case n of None \<Rightarrow> True | Some a \<Rightarrow> color (h a) = RB_BLACK)"

subsection \<open>Rotations\<close>

text \<open>\<open>if (!u->parent) *root = v; else if (u == u->parent->left) ... else ...\<close>\<close>

definition replace_child ::
  "'a rb_heap \<Rightarrow> nat option \<Rightarrow> nat option \<Rightarrow> nat option \<Rightarrow> ('a rb_heap \<times> nat option) option" where
  "replace_child h root u v = do {
     up \<leftarrow> ld parent h u;
     if up = None then Some (h, v)
     else do {
       upl \<leftarrow> ld left h up;
       h \<leftarrow> (if u = upl then st (set_left v) h up else st (set_right v) h up);
       Some (h, root) } }"

definition rotate_left ::
  "'a rb_heap \<Rightarrow> nat option \<Rightarrow> nat option \<Rightarrow> ('a rb_heap \<times> nat option) option" where
  "rotate_left h root x = do {
     y \<leftarrow> ld right h x;
     yl \<leftarrow> ld left h y;
     h \<leftarrow> st (set_right yl) h x;
     yl \<leftarrow> ld left h y;
     h \<leftarrow> (if yl \<noteq> None then st (set_parent x) h yl else Some h);
     xp \<leftarrow> ld parent h x;
     h \<leftarrow> st (set_parent xp) h y;
     (h, root) \<leftarrow> replace_child h root x y;
     h \<leftarrow> st (set_left x) h y;
     h \<leftarrow> st (set_parent y) h x;
     Some (h, root) }"

definition rotate_right ::
  "'a rb_heap \<Rightarrow> nat option \<Rightarrow> nat option \<Rightarrow> ('a rb_heap \<times> nat option) option" where
  "rotate_right h root y = do {
     x \<leftarrow> ld left h y;
     xr \<leftarrow> ld right h x;
     h \<leftarrow> st (set_left xr) h y;
     xr \<leftarrow> ld right h x;
     h \<leftarrow> (if xr \<noteq> None then st (set_parent y) h xr else Some h);
     yp \<leftarrow> ld parent h y;
     h \<leftarrow> st (set_parent yp) h x;
     (h, root) \<leftarrow> replace_child h root y x;
     h \<leftarrow> st (set_right y) h x;
     h \<leftarrow> st (set_parent x) h y;
     Some (h, root) }"

subsection \<open>Insertion\<close>

text \<open>One iteration of the loop of \<open>insert_fixup\<close>, from node \<open>z\<close>; it returns the next \<open>z\<close>.\<close>

definition insert_fixup_step ::
  "'a rb_heap \<Rightarrow> nat option \<Rightarrow> nat option \<Rightarrow> ('a rb_heap \<times> nat option \<times> nat option) option" where
  "insert_fixup_step h root z = do {
     p \<leftarrow> ld parent h z;
     g \<leftarrow> ld parent h p;
     gl \<leftarrow> ld left h g;
     if p = gl then do {
       u \<leftarrow> ld right h g;
       if is_red h u then do {
         h \<leftarrow> st (set_color RB_BLACK) h p;
         h \<leftarrow> st (set_color RB_BLACK) h u;
         h \<leftarrow> st (set_color RB_RED) h g;
         Some (h, root, g)
       } else do {
         pr \<leftarrow> ld right h p;
         (h, root, z, p, g) \<leftarrow> (if z = pr then do {
             z \<leftarrow> Some p;
             (h, root) \<leftarrow> rotate_left h root z;
             p \<leftarrow> ld parent h z;
             g \<leftarrow> ld parent h p;
             Some (h, root, z, p, g)
           } else Some (h, root, z, p, g));
         h \<leftarrow> st (set_color RB_BLACK) h p;
         h \<leftarrow> st (set_color RB_RED) h g;
         (h, root) \<leftarrow> rotate_right h root g;
         Some (h, root, z)
       }
     } else do {
       u \<leftarrow> ld left h g;
       if is_red h u then do {
         h \<leftarrow> st (set_color RB_BLACK) h p;
         h \<leftarrow> st (set_color RB_BLACK) h u;
         h \<leftarrow> st (set_color RB_RED) h g;
         Some (h, root, g)
       } else do {
         pl \<leftarrow> ld left h p;
         (h, root, z, p, g) \<leftarrow> (if z = pl then do {
             z \<leftarrow> Some p;
             (h, root) \<leftarrow> rotate_right h root z;
             p \<leftarrow> ld parent h z;
             g \<leftarrow> ld parent h p;
             Some (h, root, z, p, g)
           } else Some (h, root, z, p, g));
         h \<leftarrow> st (set_color RB_BLACK) h p;
         h \<leftarrow> st (set_color RB_RED) h g;
         (h, root) \<leftarrow> rotate_left h root g;
         Some (h, root, z)
       }
     } }"

partial_function (option) insert_fixup_loop ::
  "'a rb_heap \<Rightarrow> nat option \<Rightarrow> nat option \<Rightarrow> ('a rb_heap \<times> nat option) option" where
  "insert_fixup_loop h root z =
     Option.bind (ld parent h z) (\<lambda>p.
       if is_red h p then
         Option.bind (insert_fixup_step h root z) (\<lambda>(h, root, z). insert_fixup_loop h root z)
       else Some (h, root))"

definition insert_fixup ::
  "'a rb_heap \<Rightarrow> nat option \<Rightarrow> nat option \<Rightarrow> ('a rb_heap \<times> nat option) option" where
  "insert_fixup h root z = do {
     (h, root) \<leftarrow> insert_fixup_loop h root z;
     h \<leftarrow> st (set_color RB_BLACK) h root;
     Some (h, root) }"

subsection \<open>Links\<close>

text \<open>A pointer to the root pointer or to a child pointer of a node, the \<open>link\<close> of a descent.\<close>

datatype rb_link = Link_root | Link_left nat | Link_right nat

fun rd_link :: "'a rb_heap \<Rightarrow> nat option \<Rightarrow> rb_link \<Rightarrow> nat option" where
  "rd_link h root Link_root = root"
| "rd_link h root (Link_left n) = left (h n)"
| "rd_link h root (Link_right n) = right (h n)"

fun wr_link :: "rb_link \<Rightarrow> nat option \<Rightarrow> 'a rb_heap \<Rightarrow> nat option \<Rightarrow> 'a rb_heap \<times> nat option" where
  "wr_link Link_root v h root = (h, v)"
| "wr_link (Link_left n) v h root = (h(n := set_left v (h n)), root)"
| "wr_link (Link_right n) v h root = (h(n := set_right v (h n)), root)"

subsection \<open>Deletion\<close>

text \<open>\<open>p ? p->f : d\<close> and \<open>if (p) p->f = v;\<close>\<close>

definition ld_or :: "'f \<Rightarrow> ('n \<Rightarrow> 'f) \<Rightarrow> (nat \<Rightarrow> 'n) \<Rightarrow> nat option \<Rightarrow> 'f" where
  "ld_or d f h p = (case p of None \<Rightarrow> d | Some a \<Rightarrow> f (h a))"

definition st_if :: "('n \<Rightarrow> 'n) \<Rightarrow> (nat \<Rightarrow> 'n) \<Rightarrow> nat option \<Rightarrow> (nat \<Rightarrow> 'n)" where
  "st_if u h p = (case p of None \<Rightarrow> h | Some a \<Rightarrow> h(a := u (h a)))"

partial_function (option) tree_min :: "'a rb_heap \<Rightarrow> nat option \<Rightarrow> nat option option" where
  "tree_min h n =
     (if n \<noteq> None \<and> ld_or None left h n \<noteq> None then tree_min h (ld_or None left h n) else Some n)"

definition transplant ::
  "'a rb_heap \<Rightarrow> nat option \<Rightarrow> nat option \<Rightarrow> nat option \<Rightarrow> ('a rb_heap \<times> nat option) option" where
  "transplant h root u v = do {
     (h, root) \<leftarrow> replace_child h root u v;
     up \<leftarrow> ld parent h u;
     Some (st_if (set_parent up) h v, root) }"

text \<open>
  The two branches of the loop of \<open>delete_fixup\<close> are the same text with left and right exchanged.
  They are one definition here, in which \<open>near\<close> is the side of \<open>x\<close>, \<open>far\<close> the other side and
  \<open>rot_near\<close>, \<open>rot_far\<close> the rotations towards them. The loop body takes \<open>x_parent\<close> and answers the
  next \<open>x\<close> and \<open>x_parent\<close>, and whether it left the loop by \<open>break\<close>.
\<close>

type_synonym 'a rb_rot = "'a rb_heap \<Rightarrow> nat option \<Rightarrow> nat option \<Rightarrow> ('a rb_heap \<times> nat option) option"

definition fix_red_sibling ::
  "('a rb_node_scheme \<Rightarrow> nat option) \<Rightarrow> 'a rb_rot \<Rightarrow> 'a rb_heap \<Rightarrow> nat option \<Rightarrow> nat option \<Rightarrow>
   ('a rb_heap \<times> nat option \<times> nat option) option" where
  "fix_red_sibling far rot_near h root x_parent = do {
     let w = ld_or None far h x_parent;
     if is_red h w then do {
       h \<leftarrow> st (set_color RB_BLACK) h w;
       let h = st_if (set_color RB_RED) h x_parent;
       (h, root) \<leftarrow> rot_near h root x_parent;
       Some (h, root, ld_or None far h x_parent)
     } else Some (h, root, w) }"

definition fix_far_child ::
  "('a rb_node_scheme \<Rightarrow> nat option) \<Rightarrow> ('a rb_node_scheme \<Rightarrow> nat option) \<Rightarrow> 'a rb_rot \<Rightarrow>
   'a rb_heap \<Rightarrow> nat option \<Rightarrow> nat option \<Rightarrow> nat option \<Rightarrow> ('a rb_heap \<times> nat option \<times> nat option) option" where
  "fix_far_child near far rot_far h root x_parent w =
     (if is_black h (ld_or None far h w) then do {
        let h = st_if (set_color RB_BLACK) h (ld_or None near h w);
        let h = st_if (set_color RB_RED) h w;
        (h, root) \<leftarrow> rot_far h root w;
        Some (h, root, ld_or None far h x_parent)
      } else Some (h, root, w))"

definition fix_black_sibling ::
  "('a rb_node_scheme \<Rightarrow> nat option) \<Rightarrow> ('a rb_node_scheme \<Rightarrow> nat option) \<Rightarrow> 'a rb_rot \<Rightarrow> 'a rb_rot \<Rightarrow>
   'a rb_heap \<Rightarrow> nat option \<Rightarrow> nat option \<Rightarrow> nat option \<Rightarrow>
   ('a rb_heap \<times> nat option \<times> nat option \<times> nat option \<times> bool) option" where
  "fix_black_sibling near far rot_near rot_far h root x_parent w =
     (if is_black h (ld_or None near h w) \<and> is_black h (ld_or None far h w) then do {
        let h = st_if (set_color RB_RED) h w;
        Some (h, root, x_parent, ld_or None parent h x_parent, False)
      } else do {
        (h, root, w) \<leftarrow> fix_far_child near far rot_far h root x_parent w;
        let h = st_if (set_color (ld_or RB_BLACK color h x_parent)) h w;
        let h = st_if (set_color RB_BLACK) h x_parent;
        let h = st_if (set_color RB_BLACK) h (ld_or None far h w);
        (h, root) \<leftarrow> rot_near h root x_parent;
        Some (h, root, root, x_parent, True) })"

definition delete_fixup_side ::
  "('a rb_node_scheme \<Rightarrow> nat option) \<Rightarrow> ('a rb_node_scheme \<Rightarrow> nat option) \<Rightarrow> 'a rb_rot \<Rightarrow> 'a rb_rot \<Rightarrow>
   'a rb_heap \<Rightarrow> nat option \<Rightarrow> nat option \<Rightarrow>
   ('a rb_heap \<times> nat option \<times> nat option \<times> nat option \<times> bool) option" where
  "delete_fixup_side near far rot_near rot_far h root x_parent = do {
     (h, root, w) \<leftarrow> fix_red_sibling far rot_near h root x_parent;
     fix_black_sibling near far rot_near rot_far h root x_parent w }"

definition delete_fixup_step ::
  "'a rb_heap \<Rightarrow> nat option \<Rightarrow> nat option \<Rightarrow> nat option \<Rightarrow>
   ('a rb_heap \<times> nat option \<times> nat option \<times> nat option \<times> bool) option" where
  "delete_fixup_step h root x x_parent =
     (if x = ld_or None left h x_parent
      then delete_fixup_side left right rotate_left rotate_right h root x_parent
      else delete_fixup_side right left rotate_right rotate_left h root x_parent)"

partial_function (option) delete_fixup_loop ::
  "'a rb_heap \<Rightarrow> nat option \<Rightarrow> nat option \<Rightarrow> nat option \<Rightarrow> ('a rb_heap \<times> nat option \<times> nat option) option" where
  "delete_fixup_loop h root x x_parent =
     (if x \<noteq> root \<and> is_black h x then
        Option.bind (delete_fixup_step h root x x_parent) (\<lambda>(h, root, x, x_parent, stop).
          if stop then Some (h, root, x) else delete_fixup_loop h root x x_parent)
      else Some (h, root, x))"

definition delete_fixup ::
  "'a rb_heap \<Rightarrow> nat option \<Rightarrow> nat option \<Rightarrow> nat option \<Rightarrow> ('a rb_heap \<times> nat option) option" where
  "delete_fixup h root x x_parent = do {
     (h, root, x) \<leftarrow> delete_fixup_loop h root x x_parent;
     Some (st_if (set_color RB_BLACK) h x, root) }"

text \<open>
  The two-children case of \<open>rb_delete\<close>, for \<open>y\<close> the successor of \<open>z\<close>: \<open>y\<close> is taken out of the right
  subtree, then it takes the place of \<open>z\<close>.
\<close>

definition succ_splice ::
  "'a rb_heap \<Rightarrow> nat option \<Rightarrow> nat option \<Rightarrow> nat option \<Rightarrow> ('a rb_heap \<times> nat option \<times> nat option) option" where
  "succ_splice h root z y = do {
     x \<leftarrow> ld right h y;
     x_parent \<leftarrow> ld parent h y;
     yp \<leftarrow> ld parent h y;
     if yp = z then Some (st_if (set_parent y) h x, root, y)
     else do {
       yr \<leftarrow> ld right h y;
       (h, root) \<leftarrow> transplant h root y yr;
       zr \<leftarrow> ld right h z;
       h \<leftarrow> st (set_right zr) h y;
       yr \<leftarrow> ld right h y;
       Some (st_if (set_parent y) h yr, root, x_parent) } }"

definition succ_place ::
  "'a rb_heap \<Rightarrow> nat option \<Rightarrow> nat option \<Rightarrow> nat option \<Rightarrow> ('a rb_heap \<times> nat option) option" where
  "succ_place h root z y = do {
     (h, root) \<leftarrow> transplant h root z y;
     zl \<leftarrow> ld left h z;
     h \<leftarrow> st (set_left zl) h y;
     yl \<leftarrow> ld left h y;
     let h = st_if (set_parent y) h yl;
     zc \<leftarrow> ld color h z;
     h \<leftarrow> st (set_color zc) h y;
     Some (h, root) }"

text \<open>
  The unlinking part of \<open>rb_delete\<close>, up to the call of \<open>delete_fixup\<close>: it answers \<open>x\<close>, \<open>x_parent\<close>
  and \<open>y_orig\<close>.
\<close>

definition rb_unlink ::
  "'a rb_heap \<Rightarrow> nat option \<Rightarrow> nat option \<Rightarrow>
   ('a rb_heap \<times> nat option \<times> nat option \<times> nat option \<times> rb_color_t) option" where
  "rb_unlink h root z = do {
     y_orig \<leftarrow> ld color h z;
     zl \<leftarrow> ld left h z;
     zr \<leftarrow> ld right h z;
     if zl = None then do {
       x_parent \<leftarrow> ld parent h z;
       (h, root) \<leftarrow> transplant h root z zr;
       Some (h, root, zr, x_parent, y_orig)
     } else if zr = None then do {
       x_parent \<leftarrow> ld parent h z;
       (h, root) \<leftarrow> transplant h root z zl;
       Some (h, root, zl, x_parent, y_orig)
     } else do {
       y \<leftarrow> tree_min h zr;
       y_orig \<leftarrow> ld color h y;
       x \<leftarrow> ld right h y;
       (h, root, x_parent) \<leftarrow> succ_splice h root z y;
       (h, root) \<leftarrow> succ_place h root z y;
       Some (h, root, x, x_parent, y_orig) } }"

definition rb_delete ::
  "'a rb_heap \<Rightarrow> nat option \<Rightarrow> nat option \<Rightarrow> ('a rb_heap \<times> nat option) option" where
  "rb_delete h root z = do {
     (h, root, x, x_parent, y_orig) \<leftarrow> rb_unlink h root z;
     if y_orig = RB_BLACK then delete_fixup h root x x_parent else Some (h, root) }"

subsection \<open>The tree behind the pointers\<close>

datatype atree = Lf | Nd atree nat atree

text \<open>A frame says which child of the node is the hole and what the other child is.\<close>

datatype frame = HoleL nat atree | HoleR atree nat

fun ptr :: "atree \<Rightarrow> nat option" where
  "ptr Lf = None"
| "ptr (Nd l a r) = Some a"

fun inord :: "atree \<Rightarrow> nat list" where
  "inord Lf = []"
| "inord (Nd l a r) = inord l @ a # inord r"

fun plug :: "frame list \<Rightarrow> atree \<Rightarrow> atree" where
  "plug [] t = t"
| "plug (HoleL a s # cs) t = plug cs (Nd t a s)"
| "plug (HoleR s a # cs) t = plug cs (Nd s a t)"

fun cpar :: "frame list \<Rightarrow> nat option" where
  "cpar [] = None"
| "cpar (HoleL a s # cs) = Some a"
| "cpar (HoleR s a # cs) = Some a"

fun cbefore :: "frame list \<Rightarrow> nat list" where
  "cbefore [] = []"
| "cbefore (HoleL a s # cs) = cbefore cs"
| "cbefore (HoleR s a # cs) = cbefore cs @ inord s @ [a]"

fun cafter :: "frame list \<Rightarrow> nat list" where
  "cafter [] = []"
| "cafter (HoleL a s # cs) = a # inord s @ cafter cs"
| "cafter (HoleR s a # cs) = cafter cs"

text \<open>The link that leads to the hole of a context.\<close>

definition link_of :: "frame list \<Rightarrow> rb_link" where
  "link_of cs = (case cs of [] \<Rightarrow> Link_root | HoleL a s # _ \<Rightarrow> Link_left a | HoleR s a # _ \<Rightarrow> Link_right a)"

text \<open>The pointers of the nodes of a tree, and of a context whose hole holds pointer \<open>p\<close>.\<close>

fun tree_ok :: "'a rb_heap \<Rightarrow> nat option \<Rightarrow> atree \<Rightarrow> bool" where
  "tree_ok h par Lf = True"
| "tree_ok h par (Nd l a r) \<longleftrightarrow>
     left (h a) = ptr l \<and> right (h a) = ptr r \<and> parent (h a) = par \<and>
     tree_ok h (Some a) l \<and> tree_ok h (Some a) r"

fun ctx_ok :: "'a rb_heap \<Rightarrow> nat option \<Rightarrow> frame list \<Rightarrow> bool" where
  "ctx_ok h p [] = True"
| "ctx_ok h p (HoleL a s # cs) \<longleftrightarrow>
     left (h a) = p \<and> right (h a) = ptr s \<and> parent (h a) = cpar cs \<and>
     tree_ok h (Some a) s \<and> ctx_ok h (Some a) cs"
| "ctx_ok h p (HoleR s a # cs) \<longleftrightarrow>
     left (h a) = ptr s \<and> right (h a) = p \<and> parent (h a) = cpar cs \<and>
     tree_ok h (Some a) s \<and> ctx_ok h (Some a) cs"

definition rep :: "'a rb_heap \<Rightarrow> nat option \<Rightarrow> atree \<Rightarrow> bool" where
  "rep h root t \<longleftrightarrow> root = ptr t \<and> distinct (inord t) \<and> tree_ok h None t"

text \<open>Two heaps that differ in the pointers only.\<close>

definition only_links :: "'a rb_heap \<Rightarrow> 'a rb_heap \<Rightarrow> bool" where
  "only_links h h' \<longleftrightarrow>
     (\<forall>a. color (h' a) = color (h a) \<and> rb_node.more (h' a) = rb_node.more (h a))"

text \<open>... and in nothing outside the set \<open>S\<close> of nodes.\<close>

definition relinked :: "nat set \<Rightarrow> 'a rb_heap \<Rightarrow> 'a rb_heap \<Rightarrow> bool" where
  "relinked S h h' \<longleftrightarrow> only_links h h' \<and> (\<forall>a. a \<notin> S \<longrightarrow> h' a = h a)"

text \<open>
  Both rotations do the same: the inner subtree \<open>b\<close> changes its parent from \<open>y\<close> to \<open>x\<close>, \<open>y\<close> takes
  the place of \<open>x\<close>, and \<open>x\<close> becomes a child of \<open>y\<close>. They differ in the child fields, which \<open>u1\<close>
  and \<open>u2\<close> write.
\<close>

definition link_update :: "('a rb_node_scheme \<Rightarrow> 'a rb_node_scheme) \<Rightarrow> bool" where
  "link_update u \<longleftrightarrow> (\<forall>n. parent (u n) = parent n \<and> color (u n) = color n \<and>
     rb_node.more (u n) = rb_node.more n)"

definition rotated ::
  "'a rb_heap \<Rightarrow> frame list \<Rightarrow> nat \<Rightarrow> nat \<Rightarrow> atree \<Rightarrow> ('a rb_node_scheme \<Rightarrow> 'a rb_node_scheme) \<Rightarrow>
   ('a rb_node_scheme \<Rightarrow> 'a rb_node_scheme) \<Rightarrow> 'a rb_heap \<Rightarrow> bool" where
  "rotated h cs x y b u1 u2 h' \<longleftrightarrow>
     ctx_ok h' (Some y) cs \<and> tree_ok h' (Some x) b \<and> only_links h h' \<and>
     h' x = set_parent (Some y) (u1 (h x)) \<and> h' y = u2 (set_parent (cpar cs) (h y)) \<and>
     (\<forall>k. k \<noteq> x \<longrightarrow> k \<noteq> y \<longrightarrow> k \<notin> set (cbefore cs @ inord b @ cafter cs) \<longrightarrow> h' k = h k)"

section \<open>Lemmas\<close>

subsection \<open>Pointers\<close>

lemma ld_Some [simp]: "ld f h (Some a) = Some (f (h a))"
  and ld_None [simp]: "ld f h None = None"
  by (simp_all add: ld_def)

lemma st_Some [simp]: "st u h (Some a) = Some (h(a := u (h a)))"
  and st_None [simp]: "st u h None = None"
  by (simp_all add: st_def)

lemma is_red_simps [simp]: "is_red h None = False" "is_red h (Some a) = (color (h a) = RB_RED)"
  by (simp_all add: is_red_def)

lemma is_black_simps [simp]: "is_black h None = True" "is_black h (Some a) = (color (h a) = RB_BLACK)"
  by (simp_all add: is_black_def)

lemma color_neq [simp]: "c \<noteq> RB_RED \<longleftrightarrow> c = RB_BLACK" "c \<noteq> RB_BLACK \<longleftrightarrow> c = RB_RED"
  by (cases c; simp)+

subsection \<open>Contexts\<close>

lemma inord_plug [simp]: "inord (plug cs t) = cbefore cs @ inord t @ cafter cs"
  by (induction cs t rule: plug.induct) auto

lemma cbefore_append: "cbefore (ds @ cs) = cbefore cs @ cbefore ds"
  and cafter_append: "cafter (ds @ cs) = cafter ds @ cafter cs"
  by (induction ds rule: cbefore.induct) auto

lemma plug_append: "plug (ds @ es) t = plug es (plug ds t)"
  by (induction ds t rule: plug.induct) auto

lemma plug_at: "n \<in> set (inord t) \<Longrightarrow> \<exists>cs l r. t = plug cs (Nd l n r)"
proof (induction t)
  case (Nd l a r)
  consider "n = a" | "n \<in> set (inord l)" | "n \<in> set (inord r)" using Nd.prems by auto
  then show ?case
  proof cases
    case 1
    then show ?thesis by (intro exI [of _ "[]"]) auto
  next
    case 2
    with Nd.IH(1) obtain cs u v where "l = plug cs (Nd u n v)" by blast
    then show ?thesis by (intro exI [of _ "cs @ [HoleL a r]"]) (auto simp: plug_append)
  next
    case 3
    with Nd.IH(2) obtain cs u v where "r = plug cs (Nd u n v)" by blast
    then show ?thesis by (intro exI [of _ "cs @ [HoleR l a]"]) (auto simp: plug_append)
  qed
qed simp

lemma ptr_plug: "ptr t = ptr t' \<Longrightarrow> ptr (plug cs t) = ptr (plug cs t')"
  by (induction cs t arbitrary: t' rule: plug.induct) auto

lemma ptr_plug_Cons: "cs \<noteq> [] \<Longrightarrow> ptr (plug cs t) = ptr (plug cs t')"
  by (cases cs rule: cpar.cases) (auto intro: ptr_plug)

lemma tree_ok_plug: "tree_ok h None (plug cs t) \<longleftrightarrow> tree_ok h (cpar cs) t \<and> ctx_ok h (ptr t) cs"
  by (induction cs t rule: plug.induct) auto

lemma cpar_None: "cpar cs = None \<longleftrightarrow> cs = []"
  by (cases cs rule: cpar.cases) auto

text \<open>Frame rules: a node outside the tree does not matter, nor does a colour or a payload.\<close>

lemma tree_ok_cong:
  "(\<And>a. a \<in> set (inord t) \<Longrightarrow> left (h' a) = left (h a) \<and> right (h' a) = right (h a) \<and> parent (h' a) = parent (h a))
   \<Longrightarrow> tree_ok h' par t = tree_ok h par t"
  by (induction t arbitrary: par) auto

lemma ctx_ok_cong:
  "(\<And>a. a \<in> set (cbefore cs) \<union> set (cafter cs) \<Longrightarrow>
      left (h' a) = left (h a) \<and> right (h' a) = right (h a) \<and> parent (h' a) = parent (h a))
   \<Longrightarrow> ctx_ok h' p cs = ctx_ok h p cs"
proof (induction cs arbitrary: p rule: cafter.induct)
  case (2 a s cs)
  have "tree_ok h' (Some a) s = tree_ok h (Some a) s"
    by (rule tree_ok_cong) (use 2 in auto)
  moreover have "ctx_ok h' (Some a) cs = ctx_ok h (Some a) cs" using 2 by auto
  ultimately show ?case using 2 by auto
next
  case (3 s a cs)
  have "tree_ok h' (Some a) s = tree_ok h (Some a) s"
    by (rule tree_ok_cong) (use 3 in auto)
  moreover have "ctx_ok h' (Some a) cs = ctx_ok h (Some a) cs" using 3 by auto
  ultimately show ?case using 3 by auto
qed simp

lemma tree_ok_upd [simp]: "x \<notin> set (inord t) \<Longrightarrow> tree_ok (h(x := n)) par t = tree_ok h par t"
  by (rule tree_ok_cong) auto

lemma ctx_ok_upd [simp]:
  "x \<notin> set (cbefore cs) \<Longrightarrow> x \<notin> set (cafter cs) \<Longrightarrow> ctx_ok (h(x := n)) p cs = ctx_ok h p cs"
  by (rule ctx_ok_cong) auto

lemma rep_color [simp]: "rep (h(x := set_color c (h x))) root t = rep h root t"
proof -
  have "tree_ok (h(x := set_color c (h x))) None t = tree_ok h None t"
    by (rule tree_ok_cong) simp
  then show ?thesis by (simp add: rep_def)
qed

text \<open>What the representation says of a node and of its place in the tree.\<close>

lemma rep_node:
  assumes "rep h root (plug cs (Nd l a r))"
  shows "left (h a) = ptr l" "right (h a) = ptr r" "parent (h a) = cpar cs"
  using assms by (simp_all add: rep_def tree_ok_plug)

lemma rep_root: "rep h root t \<Longrightarrow> root = ptr t"
  by (simp add: rep_def)

subsection \<open>Rotations\<close>

lemma only_links_refl [simp]: "only_links h h"
  and only_links_trans: "only_links h h' \<Longrightarrow> only_links h' h'' \<Longrightarrow> only_links h h''"
  by (simp_all add: only_links_def)

lemma tree_ok_reparent:
  assumes "tree_ok h par t" "distinct (inord t)"
    and "\<And>a. a \<in> set (inord t) \<Longrightarrow> left (h' a) = left (h a) \<and> right (h' a) = right (h a) \<and>
      parent (h' a) = (if ptr t = Some a then par' else parent (h a))"
  shows "tree_ok h' par' t"
proof (cases t)
  case (Nd l a r)
  have "tree_ok h' (Some a) l = tree_ok h (Some a) l" "tree_ok h' (Some a) r = tree_ok h (Some a) r"
    by (rule tree_ok_cong; use assms(2,3) Nd in force)+
  then show ?thesis using assms(1,3) Nd by simp
qed simp

lemma replace_child_ctx:
  assumes "ctx_ok h (Some u) cs" "parent (h u) = cpar cs" "distinct (cbefore cs @ u # cafter cs)"
  shows "\<exists>h'. replace_child h root (Some u) v = Some (h', if cs = [] then v else root) \<and>
    ctx_ok h' v cs \<and> only_links h h' \<and>
    (\<forall>a. a \<notin> set (cbefore cs) \<longrightarrow> a \<notin> set (cafter cs) \<longrightarrow> h' a = h a)"
proof (cases cs rule: cpar.cases)
  case 1
  with assms show ?thesis by (simp add: replace_child_def)
next
  case (2 a s cs')
  with assms show ?thesis by (simp add: replace_child_def only_links_def)
next
  case (3 s a cs')
  moreover from this assms have "ptr s \<noteq> Some u" by (cases s) auto
  ultimately show ?thesis using assms by (simp add: replace_child_def only_links_def)
qed

lemma ptr_plug_if: "ptr (plug cs t) = (if cs = [] then ptr t else ptr (plug cs t'))"
  using ptr_plug_Cons [of cs t t'] by simp

lemma rotate_inner:
  assumes "distinct (x # y # inord b)" "tree_ok h (Some y) b" "link_update u"
  shows "\<exists>h1. (if ptr b \<noteq> None then st (set_parent (Some x)) (h(x := u (h x))) (ptr b)
       else Some (h(x := u (h x)))) = Some h1 \<and>
     h1 x = u (h x) \<and> h1 y = h y \<and> only_links h h1 \<and> tree_ok h1 (Some x) b \<and>
     (\<forall>k. k \<noteq> x \<longrightarrow> k \<notin> set (inord b) \<longrightarrow> h1 k = h k)"
proof -
  define h1 where "h1 = (case ptr b of None \<Rightarrow> h(x := u (h x))
                     | Some k \<Rightarrow> h(x := u (h x), k := set_parent (Some x) (h k)))"
  have b: "ptr b = Some k \<Longrightarrow> k \<in> set (inord b)" for k by (cases b) auto
  then have nb: "ptr b \<noteq> Some x" "ptr b \<noteq> Some y" using assms(1) by auto
  then have "h1 x = u (h x)" "h1 y = h y"
    using assms(1) by (auto simp: h1_def split: option.splits)
  moreover have "(if ptr b \<noteq> None then st (set_parent (Some x)) (h(x := u (h x))) (ptr b)
      else Some (h(x := u (h x)))) = Some h1"
    using nb by (auto simp: h1_def split: option.splits)
  moreover have "only_links h h1"
    using assms(3) by (auto simp: only_links_def h1_def link_update_def split: option.splits)
  moreover have "h1 k = h k" if "k \<noteq> x" "k \<notin> set (inord b)" for k
    using that b by (auto simp: h1_def split: option.splits)
  moreover have "tree_ok h1 (Some x) b"
  proof (rule tree_ok_reparent [OF assms(2)])
    fix k
    assume "k \<in> set (inord b)"
    then show "left (h1 k) = left (h k) \<and> right (h1 k) = right (h k) \<and>
        parent (h1 k) = (if ptr b = Some k then Some x else parent (h k))"
      using assms(1) by (auto simp: h1_def split: option.splits)
  qed (use assms(1) in simp)
  ultimately show ?thesis by blast
qed

lemma rotate_outer:
  assumes d: "distinct (cbefore cs @ x # y # inord b @ cafter cs)"
    and ctx: "ctx_ok h (Some x) cs" and par: "parent (h x) = cpar cs"
    and b: "tree_ok h (Some y) b" and u: "link_update u1" "link_update u2"
  shows "\<exists>h1 h3 h4.
    (if ptr b \<noteq> None then st (set_parent (Some x)) (h(x := u1 (h x))) (ptr b) else Some (h(x := u1 (h x))))
      = Some h1 \<and> parent (h1 x) = cpar cs \<and>
    replace_child (h1(y := set_parent (cpar cs) (h1 y))) root (Some x) (Some y)
      = Some (h3, if cs = [] then Some y else root) \<and>
    h4 = h3(y := u2 (h3 y), x := set_parent (Some y) ((h3(y := u2 (h3 y))) x)) \<and>
    rotated h cs x y b u1 u2 h4"
proof -
  from d have dxy: "distinct (x # y # inord b)" by auto
  from rotate_inner [OF dxy b u(1)] obtain h1 where
    h1: "(if ptr b \<noteq> None then st (set_parent (Some x)) (h(x := u1 (h x))) (ptr b) else Some (h(x := u1 (h x))))
      = Some h1" "h1 x = u1 (h x)" "h1 y = h y" "only_links h h1" "tree_ok h1 (Some x) b"
    "\<And>k. k \<noteq> x \<Longrightarrow> k \<notin> set (inord b) \<Longrightarrow> h1 k = h k" by blast
  define h2 where "h2 = h1(y := set_parent (cpar cs) (h1 y))"
  have "h2 k = h k" if "k \<in> set (cbefore cs) \<union> set (cafter cs)" for k
    using that d h1(6) [of k] by (auto simp: h2_def)
  then have "ctx_ok h2 (Some x) cs = ctx_ok h (Some x) cs"
    by (intro ctx_ok_cong) simp
  then obtain h3 where h3: "replace_child h2 root (Some x) (Some y) = Some (h3, if cs = [] then Some y else root)"
    "ctx_ok h3 (Some y) cs" "only_links h2 h3"
    "\<And>a. a \<notin> set (cbefore cs) \<Longrightarrow> a \<notin> set (cafter cs) \<Longrightarrow> h3 a = h2 a"
    using replace_child_ctx [of h2 x cs root "Some y"] h1(2) ctx par d u(1)
    by (auto simp: h2_def link_update_def)
  define h4 where "h4 = h3(y := u2 (h3 y), x := set_parent (Some y) ((h3(y := u2 (h3 y))) x))"
  have "h4 x = set_parent (Some y) (u1 (h x))" "h4 y = u2 (set_parent (cpar cs) (h y))"
    using d h1(2,3) by (auto simp: h4_def h3(4) h2_def)
  moreover have "h4 k = h1 k" if "k \<in> set (inord b)" for k
  proof -
    have "k \<noteq> x" "k \<noteq> y" "k \<notin> set (cbefore cs)" "k \<notin> set (cafter cs)" using that d by auto
    with h3(4) [of k] show ?thesis by (simp add: h4_def h2_def)
  qed
  then have "tree_ok h4 (Some x) b = tree_ok h1 (Some x) b"
    by (intro tree_ok_cong) simp
  moreover have "ctx_ok h4 (Some y) cs" using h3(2) d by (simp add: h4_def)
  moreover have "only_links h h4"
    using h1(4) h3(3) u by (simp add: only_links_def h4_def h2_def link_update_def)
  moreover have "h4 k = h k" if "k \<noteq> x" "k \<noteq> y" "k \<notin> set (cbefore cs @ inord b @ cafter cs)" for k
    using that h3(4) [of k] h1(6) [of k] by (simp add: h4_def h2_def)
  ultimately have "rotated h cs x y b u1 u2 h4" using h1(5) by (simp add: rotated_def)
  moreover have "parent (h1 x) = cpar cs" using h1(2) par u(1) by (simp add: link_update_def)
  ultimately show ?thesis using h1(1) h3(1) h4_def unfolding h2_def by blast
qed

lemma rotate_left_rep:
  assumes "rep h root (plug cs (Nd a x (Nd b y c)))"
  shows "\<exists>h' root'. rotate_left h root (Some x) = Some (h', root') \<and>
    rep h' root' (plug cs (Nd (Nd a x b) y c)) \<and>
    relinked (set (inord (plug cs (Nd a x (Nd b y c))))) h h'"
proof -
  have d: "distinct (cbefore cs @ inord a @ x # inord b @ y # inord c @ cafter cs)"
    and ok: "tree_ok h (cpar cs) (Nd a x (Nd b y c))" "ctx_ok h (Some x) cs"
    and root: "root = ptr (plug cs (Nd a x (Nd b y c)))"
    using assms by (auto simp: rep_def tree_ok_plug)
  have d': "distinct (cbefore cs @ x # y # inord b @ cafter cs)" using d by auto
  have u: "link_update (set_right (ptr b) :: 'a rb_node_scheme \<Rightarrow> _)"
    "link_update (set_left (Some x) :: 'a rb_node_scheme \<Rightarrow> _)" by (simp_all add: link_update_def)
  have xb: "parent (h x) = cpar cs" "tree_ok h (Some y) b" using ok(1) by simp_all
  from rotate_outer [OF d' ok(2) xb u, of root] obtain h1 h3 h4 where
    run: "(if ptr b \<noteq> None then st (set_parent (Some x)) (h(x := set_right (ptr b) (h x))) (ptr b)
        else Some (h(x := set_right (ptr b) (h x)))) = Some h1" "parent (h1 x) = cpar cs"
      "replace_child (h1(y := set_parent (cpar cs) (h1 y))) root (Some x) (Some y)
        = Some (h3, if cs = [] then Some y else root)"
      "h4 = h3(y := set_left (Some x) (h3 y), x := set_parent (Some y) ((h3(y := set_left (Some x) (h3 y))) x))"
    and rot: "rotated h cs x y b (set_right (ptr b)) (set_left (Some x)) h4" by blast
  have "x \<noteq> y" using d by auto
  with ok(1) run have "rotate_left h root (Some x) = Some (h4, if cs = [] then Some y else root)"
    by (simp add: rotate_left_def)
  moreover have "h4 k = h k" if "k \<in> set (inord a) \<union> set (inord c)" for k
  proof -
    have "k \<noteq> x" "k \<noteq> y" "k \<notin> set (cbefore cs @ inord b @ cafter cs)" using that d by auto
    with rot show ?thesis by (simp add: rotated_def)
  qed
  then have "tree_ok h4 (Some x) a = tree_ok h (Some x) a" "tree_ok h4 (Some y) c = tree_ok h (Some y) c"
    by (intro tree_ok_cong; simp)+
  then have "rep h4 (if cs = [] then Some y else root) (plug cs (Nd (Nd a x b) y c))"
    using ok(1) d rot root ptr_plug_if [of cs "Nd (Nd a x b) y c" "Nd a x (Nd b y c)"]
    by (simp add: rep_def tree_ok_plug rotated_def)
  moreover have "relinked (set (inord (plug cs (Nd a x (Nd b y c))))) h h4"
    using rot by (auto simp: rotated_def relinked_def)
  ultimately show ?thesis by blast
qed

lemma rotate_right_rep:
  assumes "rep h root (plug cs (Nd (Nd c y b) x a))"
  shows "\<exists>h' root'. rotate_right h root (Some x) = Some (h', root') \<and>
    rep h' root' (plug cs (Nd c y (Nd b x a))) \<and>
    relinked (set (inord (plug cs (Nd (Nd c y b) x a)))) h h'"
proof -
  have d: "distinct (cbefore cs @ inord c @ y # inord b @ x # inord a @ cafter cs)"
    and ok: "tree_ok h (cpar cs) (Nd (Nd c y b) x a)" "ctx_ok h (Some x) cs"
    and root: "root = ptr (plug cs (Nd (Nd c y b) x a))"
    using assms by (auto simp: rep_def tree_ok_plug)
  have d': "distinct (cbefore cs @ x # y # inord b @ cafter cs)" using d by auto
  have u: "link_update (set_left (ptr b) :: 'a rb_node_scheme \<Rightarrow> _)"
    "link_update (set_right (Some x) :: 'a rb_node_scheme \<Rightarrow> _)" by (simp_all add: link_update_def)
  have xb: "parent (h x) = cpar cs" "tree_ok h (Some y) b" using ok(1) by simp_all
  from rotate_outer [OF d' ok(2) xb u, of root] obtain h1 h3 h4 where
    run: "(if ptr b \<noteq> None then st (set_parent (Some x)) (h(x := set_left (ptr b) (h x))) (ptr b)
        else Some (h(x := set_left (ptr b) (h x)))) = Some h1" "parent (h1 x) = cpar cs"
      "replace_child (h1(y := set_parent (cpar cs) (h1 y))) root (Some x) (Some y)
        = Some (h3, if cs = [] then Some y else root)"
      "h4 = h3(y := set_right (Some x) (h3 y), x := set_parent (Some y) ((h3(y := set_right (Some x) (h3 y))) x))"
    and rot: "rotated h cs x y b (set_left (ptr b)) (set_right (Some x)) h4" by blast
  have "x \<noteq> y" using d by auto
  with ok(1) run have "rotate_right h root (Some x) = Some (h4, if cs = [] then Some y else root)"
    by (simp add: rotate_right_def)
  moreover have "h4 k = h k" if "k \<in> set (inord a) \<union> set (inord c)" for k
  proof -
    have "k \<noteq> x" "k \<noteq> y" "k \<notin> set (cbefore cs @ inord b @ cafter cs)" using that d by auto
    with rot show ?thesis by (simp add: rotated_def)
  qed
  then have "tree_ok h4 (Some x) a = tree_ok h (Some x) a" "tree_ok h4 (Some y) c = tree_ok h (Some y) c"
    by (intro tree_ok_cong; simp)+
  then have "rep h4 (if cs = [] then Some y else root) (plug cs (Nd c y (Nd b x a)))"
    using ok(1) d rot root ptr_plug_if [of cs "Nd c y (Nd b x a)" "Nd (Nd c y b) x a"]
    by (simp add: rep_def tree_ok_plug rotated_def)
  moreover have "relinked (set (inord (plug cs (Nd (Nd c y b) x a)))) h h4"
    using rot by (auto simp: rotated_def relinked_def)
  ultimately show ?thesis by blast
qed

end
