(* ===== verification/RBTree_Insert.thy ===== *)
theory RBTree_Insert
  imports RBTree
begin

text \<open>
  Insertion into the red-black tree of \<open>src/mm/vmm.c\<close>: \<open>insert_fixup\<close> ends, follows no null pointer
  and turns a red-black tree with one fresh red leaf into a red-black tree with the same nodes in
  the same order.
\<close>

section \<open>Definitions\<close>

text \<open>
  \<open>rbt c t n\<close>: with the colours \<open>c\<close>, no red node of \<open>t\<close> has a red child and every path to a leaf has
  \<open>n\<close> black nodes. \<open>rbc c cs n\<close> is the same of a context whose hole holds a tree of black height \<open>n\<close>.
\<close>

fun blk :: "(nat \<Rightarrow> rb_color_t) \<Rightarrow> atree \<Rightarrow> bool" where
  "blk c Lf = True"
| "blk c (Nd l a r) = (c a = RB_BLACK)"

fun rbt :: "(nat \<Rightarrow> rb_color_t) \<Rightarrow> atree \<Rightarrow> nat \<Rightarrow> bool" where
  "rbt c Lf n = (n = 0)"
| "rbt c (Nd l a r) n =
     (if c a = RB_BLACK then n \<noteq> 0 \<and> rbt c l (n - 1) \<and> rbt c r (n - 1)
      else blk c l \<and> blk c r \<and> rbt c l n \<and> rbt c r n)"

definition cblk :: "(nat \<Rightarrow> rb_color_t) \<Rightarrow> frame list \<Rightarrow> bool" where
  "cblk c cs = (case cpar cs of None \<Rightarrow> True | Some a \<Rightarrow> c a = RB_BLACK)"

fun rbc :: "(nat \<Rightarrow> rb_color_t) \<Rightarrow> frame list \<Rightarrow> nat \<Rightarrow> bool" where
  "rbc c [] n = True"
| "rbc c (HoleL a s # cs) n \<longleftrightarrow> rbt c s n \<and>
     (if c a = RB_BLACK then rbc c cs (Suc n) else blk c s \<and> cblk c cs \<and> rbc c cs n)"
| "rbc c (HoleR s a # cs) n \<longleftrightarrow> rbt c s n \<and>
     (if c a = RB_BLACK then rbc c cs (Suc n) else blk c s \<and> cblk c cs \<and> rbc c cs n)"

text \<open>The root of a context is black.\<close>

fun ctop :: "(nat \<Rightarrow> rb_color_t) \<Rightarrow> frame list \<Rightarrow> bool" where
  "ctop c [] = True"
| "ctop c (HoleL a s # cs) = (if cs = [] then c a = RB_BLACK else ctop c cs)"
| "ctop c (HoleR s a # cs) = (if cs = [] then c a = RB_BLACK else ctop c cs)"

text \<open>A red-black tree: balanced, with a black root.\<close>

definition rb_tree :: "(nat \<Rightarrow> rb_color_t) \<Rightarrow> atree \<Rightarrow> bool" where
  "rb_tree c t \<longleftrightarrow> blk c t \<and> (\<exists>n. rbt c t n)"

text \<open>
  The payload (everything but pointers and colour) of every node is unchanged, and so is all of
  every node outside \<open>S\<close>.
\<close>

definition same_data :: "nat set \<Rightarrow> 'a rb_heap \<Rightarrow> 'a rb_heap \<Rightarrow> bool" where
  "same_data S h h' \<longleftrightarrow> (\<forall>a. rb_node.more (h' a) = rb_node.more (h a)) \<and> (\<forall>a. a \<notin> S \<longrightarrow> h' a = h a)"

text \<open>The loop invariant of \<open>insert_fixup\<close>: the only defect is the red node \<open>z\<close> under a red parent.\<close>

definition ins_inv ::
  "'a rb_heap \<Rightarrow> nat option \<Rightarrow> frame list \<Rightarrow> atree \<Rightarrow> nat \<Rightarrow> atree \<Rightarrow> bool" where
  "ins_inv h root cs l z r \<longleftrightarrow>
     rep h root (plug cs (Nd l z r)) \<and> color (h z) = RB_RED \<and> ctop (color \<circ> h) cs \<and>
     (\<exists>n. rbt (color \<circ> h) (Nd l z r) n \<and> rbc (color \<circ> h) cs n)"

text \<open>Three nodes in a row, the lower two red: node 0 has just been inserted.\<close>

definition rb_demo :: "unit rb_heap" where
  "rb_demo = (\<lambda>_. \<lparr>left = None, right = None, parent = None, color = RB_RED\<rparr>)(
     0 := \<lparr>left = None, right = None, parent = Some 1, color = RB_RED\<rparr>,
     1 := \<lparr>left = Some 0, right = None, parent = Some 2, color = RB_RED\<rparr>,
     2 := \<lparr>left = Some 1, right = None, parent = None, color = RB_BLACK\<rparr>)"

subsection \<open>Used in the proofs\<close>

text \<open>Each iteration restores the invariant in a smaller context.\<close>

definition ins_next ::
  "'a rb_heap \<Rightarrow> nat option \<Rightarrow> frame list \<Rightarrow> atree \<Rightarrow> nat \<Rightarrow> atree \<Rightarrow> bool" where
  "ins_next h root cs l z r \<longleftrightarrow> (\<exists>h' root' cs' l' z' r'.
     insert_fixup_step h root (Some z) = Some (h', root', Some z') \<and> same_data (set (inord (plug cs (Nd l z r)))) h h' \<and>
     length cs' < length cs \<and> ins_inv h' root' cs' l' z' r' \<and>
     inord (plug cs' (Nd l' z' r')) = inord (plug cs (Nd l z r)))"

section \<open>Lemmas\<close>

lemma same_data_refl [simp]: "same_data S h h"
  and same_data_trans: "same_data S h h' \<Longrightarrow> same_data S h' h'' \<Longrightarrow> same_data S h h''"
  by (simp_all add: same_data_def)

lemma only_links_data: "relinked S h h' \<Longrightarrow> same_data S h h'"
  and only_links_color: "relinked S h h' \<Longrightarrow> color \<circ> h' = color \<circ> h"
  by (auto simp: only_links_def relinked_def same_data_def)

lemma rep_links_cong:
  assumes "\<And>a. left (h' a) = left (h a) \<and> right (h' a) = right (h a) \<and> parent (h' a) = parent (h a)"
  shows "rep h' root t = rep h root t"
  using tree_ok_cong [of t h' h None] assms by (simp add: rep_def)

subsection \<open>Balance\<close>

lemma blk_cong: "(\<And>a. a \<in> set (inord t) \<Longrightarrow> c' a = c a) \<Longrightarrow> blk c' t = blk c t"
  by (cases t) auto

lemma rbt_cong: "(\<And>a. a \<in> set (inord t) \<Longrightarrow> c' a = c a) \<Longrightarrow> rbt c' t n = rbt c t n"
proof (induction t arbitrary: n)
  case (Nd l a r)
  moreover from Nd.prems have "blk c' l = blk c l" "blk c' r = blk c r"
    by (simp_all cong: blk_cong)
  ultimately show ?case by simp
qed simp

lemma cpar_mem: "cpar cs = Some a \<Longrightarrow> a \<in> set (cbefore cs) \<union> set (cafter cs)"
  by (cases cs rule: cpar.cases) auto

lemma cblk_cong:
  "(\<And>a. a \<in> set (cbefore cs) \<union> set (cafter cs) \<Longrightarrow> c' a = c a) \<Longrightarrow> cblk c' cs = cblk c cs"
  using cpar_mem [of cs] by (auto simp: cblk_def split: option.splits)

lemma rbc_cong:
  "(\<And>a. a \<in> set (cbefore cs) \<union> set (cafter cs) \<Longrightarrow> c' a = c a) \<Longrightarrow> rbc c' cs n = rbc c cs n"
proof (induction c cs n rule: rbc.induct)
  case (2 c a s cs n)
  then have "rbt c' s n = rbt c s n" "blk c' s = blk c s" by (simp_all cong: rbt_cong blk_cong)
  moreover have "cblk c' cs = cblk c cs" by (rule cblk_cong) (use 2 in auto)
  ultimately show ?case using 2 by auto
next
  case (3 c s a cs n)
  then have "rbt c' s n = rbt c s n" "blk c' s = blk c s" by (simp_all cong: rbt_cong blk_cong)
  moreover have "cblk c' cs = cblk c cs" by (rule cblk_cong) (use 3 in auto)
  ultimately show ?case using 3 by auto
qed simp

lemma ctop_cong:
  "(\<And>a. a \<in> set (cbefore cs) \<union> set (cafter cs) \<Longrightarrow> c' a = c a) \<Longrightarrow> ctop c' cs = ctop c cs"
  by (induction c cs rule: ctop.induct) auto

lemma rbt_plug:
  "rbt c t n \<Longrightarrow> rbc c cs n \<Longrightarrow> cblk c cs \<or> blk c t \<Longrightarrow> \<exists>k. rbt c (plug cs t) k"
proof (induction cs t arbitrary: n rule: plug.induct)
  case (2 a s cs t)
  show ?case
    using 2(1) [of "if c a = RB_BLACK then Suc n else n"] 2(2-) by (auto simp: cblk_def split: if_splits)
next
  case (3 s a cs t)
  show ?case
    using 3(1) [of "if c a = RB_BLACK then Suc n else n"] 3(2-) by (auto simp: cblk_def split: if_splits)
qed auto

text \<open>Taking a red-black tree apart at a position.\<close>

lemma rbt_unplug:
  "rbt c (plug cs t) k \<Longrightarrow> \<exists>n. rbt c t n \<and> rbc c cs n \<and> (cblk c cs \<or> blk c t)"
proof (induction cs t arbitrary: k rule: plug.induct)
  case (2 a s cs t)
  from 2(1) [of k] 2(2) obtain n where "rbt c (Nd t a s) n" "rbc c cs n" "cblk c cs \<or> c a = RB_BLACK"
    by auto
  then show ?case
    by (intro exI [of _ "if c a = RB_BLACK then n - 1 else n"]) (auto simp: cblk_def split: if_splits)
next
  case (3 s a cs t)
  from 3(1) [of k] 3(2) obtain n where "rbt c (Nd s a t) n" "rbc c cs n" "cblk c cs \<or> c a = RB_BLACK"
    by auto
  then show ?case
    by (intro exI [of _ "if c a = RB_BLACK then n - 1 else n"]) (auto simp: cblk_def split: if_splits)
qed (auto simp: cblk_def)

lemma ctop_blk: "cs \<noteq> [] \<Longrightarrow> ctop c cs = blk c (plug cs t)"
  by (induction c cs arbitrary: t rule: ctop.induct) auto

lemma blk_upd [simp]: "x \<notin> set (inord t) \<Longrightarrow> blk (c(x := k)) t = blk c t"
  by (rule blk_cong) auto

lemma rbt_upd [simp]: "x \<notin> set (inord t) \<Longrightarrow> rbt (c(x := k)) t n = rbt c t n"
  by (rule rbt_cong) auto

lemma rbc_upd [simp]:
  "x \<notin> set (cbefore cs) \<Longrightarrow> x \<notin> set (cafter cs) \<Longrightarrow> rbc (c(x := k)) cs n = rbc c cs n"
  by (rule rbc_cong) auto

lemma cblk_upd [simp]:
  "x \<notin> set (cbefore cs) \<Longrightarrow> x \<notin> set (cafter cs) \<Longrightarrow> cblk (c(x := k)) cs = cblk c cs"
  by (rule cblk_cong) auto

lemma ctop_upd [simp]:
  "x \<notin> set (cbefore cs) \<Longrightarrow> x \<notin> set (cafter cs) \<Longrightarrow> ctop (c(x := k)) cs = ctop c cs"
  by (rule ctop_cong) auto

lemma color_comp_upd [simp]: "color \<circ> h(x := n) = (color \<circ> h)(x := color n)"
  by (rule fun_upd_comp)

subsection \<open>One iteration\<close>

text \<open>The uncle is red: recolour and go on from the grandparent.\<close>

abbreviation recolor :: "'a rb_heap \<Rightarrow> nat \<Rightarrow> nat \<Rightarrow> nat \<Rightarrow> 'a rb_heap" where
  "recolor h p u g \<equiv> h(p := set_color RB_BLACK (h p), u := set_color RB_BLACK (h u), g := set_color RB_RED (h g))"

lemma recolor_rep [simp]: "distinct [p, u, g] \<Longrightarrow> rep (recolor h p u g) root t = rep h root t"
  by (rule rep_links_cong) auto

lemma step_recolor_L:
  assumes "parent (h z) = Some p" "rep h root (plug (HoleL g (Nd ul u ur) # cs) (Nd pl p pr))"
    "color (h u) = RB_RED"
  shows "insert_fixup_step h root (Some z) = Some (recolor h p u g, root, Some g)"
proof -
  from assms(2) have "distinct [p, u, g]" by (auto simp: rep_def)
  with assms rep_node [OF assms(2)] rep_node [of h root cs "Nd pl p pr" g "Nd ul u ur"] show ?thesis
    by (simp add: insert_fixup_step_def)
qed

lemma step_recolor_R:
  assumes "parent (h z) = Some p" "rep h root (plug (HoleR (Nd ul u ur) g # cs) (Nd pl p pr))"
    "color (h u) = RB_RED"
  shows "insert_fixup_step h root (Some z) = Some (recolor h p u g, root, Some g)"
proof -
  from assms(2) have "distinct [p, u, g]" by (auto simp: rep_def)
  with assms rep_node [OF assms(2)] rep_node [of h root cs "Nd ul u ur" g "Nd pl p pr"] show ?thesis
    by (simp add: insert_fixup_step_def)
qed

text \<open>The uncle is black and \<open>z\<close> is an outer grandchild: one rotation.\<close>

lemma step_outer_L:
  assumes rep: "rep h root (plug (HoleL p s # HoleL g u # cs) (Nd l z r))" and u: "blk (color \<circ> h) u"
  shows "\<exists>h' root'. insert_fixup_step h root (Some z) = Some (h', root', Some z) \<and>
    rep h' root' (plug cs (Nd (Nd l z r) p (Nd s g u))) \<and>
    color \<circ> h' = (color \<circ> h)(p := RB_BLACK, g := RB_RED) \<and> same_data (set (inord (plug (HoleL p s # HoleL g u # cs) (Nd l z r)))) h h'"
proof -
  let ?h = "h(p := set_color RB_BLACK (h p), g := set_color RB_RED (h g))"
  from rep have "distinct [z, p, g]" and sz: "ptr s \<noteq> Some z" by (auto simp: rep_def, cases s, auto)
  then have rep': "rep ?h root (plug cs (Nd (Nd (Nd l z r) p s) g u))"
    using rep by (subst rep_links_cong [of _ h]) auto
  from rotate_right_rep [OF rep'] obtain h' root' where
    rot: "rotate_right ?h root (Some g) = Some (h', root')" "rep h' root' (plug cs (Nd (Nd l z r) p (Nd s g u)))"
      "relinked (set (inord (plug cs (Nd (Nd (Nd l z r) p s) g u)))) ?h h'" by blast
  have "\<not> is_red h (ptr u)" using u by (cases u) auto
  then have "insert_fixup_step h root (Some z) = Some (h', root', Some z)"
    using rep_node [OF rep] rep_node [of h root "HoleL g u # cs" "Nd l z r" p s]
      rep_node [of h root cs "Nd (Nd l z r) p s" g u] rep rot(1) sz \<open>distinct [z, p, g]\<close>
    by (simp add: insert_fixup_step_def)
  moreover have "color \<circ> h' = (color \<circ> h)(p := RB_BLACK, g := RB_RED)" "same_data (set (inord (plug (HoleL p s # HoleL g u # cs) (Nd l z r)))) h h'"
    using only_links_color [OF rot(3)] only_links_data [OF rot(3)] by (auto simp: same_data_def)
  ultimately show ?thesis using rot(2) by blast
qed

text \<open>The uncle is black and \<open>z\<close> is an inner grandchild: two rotations.\<close>

lemma step_inner_L:
  assumes rep: "rep h root (plug (HoleR s p # HoleL g u # cs) (Nd l z r))" and u: "blk (color \<circ> h) u"
  shows "\<exists>h' root'. insert_fixup_step h root (Some z) = Some (h', root', Some p) \<and>
    rep h' root' (plug cs (Nd (Nd s p l) z (Nd r g u))) \<and>
    color \<circ> h' = (color \<circ> h)(z := RB_BLACK, g := RB_RED) \<and> same_data (set (inord (plug (HoleR s p # HoleL g u # cs) (Nd l z r)))) h h'"
proof -
  from rep have d: "distinct [z, p, g]" by (auto simp: rep_def)
  from rep have "rep h root (plug (HoleL g u # cs) (Nd s p (Nd l z r)))" by simp
  from rotate_left_rep [OF this] obtain h1 root1 where
    rot1: "rotate_left h root (Some p) = Some (h1, root1)" "rep h1 root1 (plug (HoleL g u # cs) (Nd (Nd s p l) z r))"
      "relinked (set (inord (plug (HoleL g u # cs) (Nd s p (Nd l z r))))) h h1" by blast
  let ?h = "h1(z := set_color RB_BLACK (h1 z), g := set_color RB_RED (h1 g))"
  have rep': "rep ?h root1 (plug cs (Nd (Nd (Nd s p l) z r) g u))"
    using rot1(2) d by (subst rep_links_cong [of _ h1]) auto
  from rotate_right_rep [OF rep'] obtain h' root' where
    rot: "rotate_right ?h root1 (Some g) = Some (h', root')" "rep h' root' (plug cs (Nd (Nd s p l) z (Nd r g u)))"
      "relinked (set (inord (plug cs (Nd (Nd (Nd s p l) z r) g u)))) ?h h'" by blast
  have "\<not> is_red h (ptr u)" using u by (cases u) auto
  then have "insert_fixup_step h root (Some z) = Some (h', root', Some p)"
    using rep_node [OF rep] rep_node [of h root "HoleL g u # cs" s p "Nd l z r"]
      rep_node [of h root cs "Nd s p (Nd l z r)" g u] rep rot1(1) rot(1) d
      rep_node [of h1 root1 "HoleL z r # HoleL g u # cs" s p l] rep_node [OF rot1(2)] rot1(2)
    by (simp add: insert_fixup_step_def)
  moreover have "color \<circ> h' = (color \<circ> h)(z := RB_BLACK, g := RB_RED)" "same_data (set (inord (plug (HoleR s p # HoleL g u # cs) (Nd l z r)))) h h'"
    using only_links_color [OF rot(3)] only_links_color [OF rot1(3)]
      only_links_data [OF rot(3)] only_links_data [OF rot1(3)] by (auto simp: same_data_def)
  ultimately show ?thesis using rot(2) by blast
qed
lemma step_outer_R:
  assumes rep: "rep h root (plug (HoleR s p # HoleR u g # cs) (Nd l z r))" and u: "blk (color \<circ> h) u"
  shows "\<exists>h' root'. insert_fixup_step h root (Some z) = Some (h', root', Some z) \<and>
    rep h' root' (plug cs (Nd (Nd u g s) p (Nd l z r))) \<and>
    color \<circ> h' = (color \<circ> h)(p := RB_BLACK, g := RB_RED) \<and> same_data (set (inord (plug (HoleR s p # HoleR u g # cs) (Nd l z r)))) h h'"
proof -
  let ?h = "h(p := set_color RB_BLACK (h p), g := set_color RB_RED (h g))"
  from rep have "distinct [z, p, g]" and sz: "ptr s \<noteq> Some z" "ptr u \<noteq> Some p"
    by (auto simp: rep_def, cases s, auto, cases u, auto)
  then have rep': "rep ?h root (plug cs (Nd u g (Nd s p (Nd l z r))))"
    using rep by (subst rep_links_cong [of _ h]) auto
  from rotate_left_rep [OF rep'] obtain h' root' where
    rot: "rotate_left ?h root (Some g) = Some (h', root')" "rep h' root' (plug cs (Nd (Nd u g s) p (Nd l z r)))"
      "relinked (set (inord (plug cs (Nd u g (Nd s p (Nd l z r)))))) ?h h'" by blast
  have "\<not> is_red h (ptr u)" using u by (cases u) auto
  then have "insert_fixup_step h root (Some z) = Some (h', root', Some z)"
    using rep_node [OF rep] rep_node [of h root "HoleR u g # cs" s p "Nd l z r"]
      rep_node [of h root cs u g "Nd s p (Nd l z r)"] rep rot(1) sz \<open>distinct [z, p, g]\<close>
    by (simp add: insert_fixup_step_def)
  moreover have "color \<circ> h' = (color \<circ> h)(p := RB_BLACK, g := RB_RED)" "same_data (set (inord (plug (HoleR s p # HoleR u g # cs) (Nd l z r)))) h h'"
    using only_links_color [OF rot(3)] only_links_data [OF rot(3)] by (auto simp: same_data_def)
  ultimately show ?thesis using rot(2) by blast
qed

lemma step_inner_R:
  assumes rep: "rep h root (plug (HoleL p s # HoleR u g # cs) (Nd l z r))" and u: "blk (color \<circ> h) u"
  shows "\<exists>h' root'. insert_fixup_step h root (Some z) = Some (h', root', Some p) \<and>
    rep h' root' (plug cs (Nd (Nd u g l) z (Nd r p s))) \<and>
    color \<circ> h' = (color \<circ> h)(z := RB_BLACK, g := RB_RED) \<and> same_data (set (inord (plug (HoleL p s # HoleR u g # cs) (Nd l z r)))) h h'"
proof -
  from rep have d: "distinct [z, p, g]" and up: "ptr u \<noteq> Some p" by (auto simp: rep_def, cases u, auto)
  from rep have "rep h root (plug (HoleR u g # cs) (Nd (Nd l z r) p s))" by simp
  from rotate_right_rep [OF this] obtain h1 root1 where
    rot1: "rotate_right h root (Some p) = Some (h1, root1)" "rep h1 root1 (plug (HoleR u g # cs) (Nd l z (Nd r p s)))"
      "relinked (set (inord (plug (HoleR u g # cs) (Nd (Nd l z r) p s)))) h h1" by blast
  let ?h = "h1(z := set_color RB_BLACK (h1 z), g := set_color RB_RED (h1 g))"
  have rep': "rep ?h root1 (plug cs (Nd u g (Nd l z (Nd r p s))))"
    using rot1(2) d by (subst rep_links_cong [of _ h1]) auto
  from rotate_left_rep [OF rep'] obtain h' root' where
    rot: "rotate_left ?h root1 (Some g) = Some (h', root')" "rep h' root' (plug cs (Nd (Nd u g l) z (Nd r p s)))"
      "relinked (set (inord (plug cs (Nd u g (Nd l z (Nd r p s)))))) ?h h'" by blast
  have "\<not> is_red h (ptr u)" using u by (cases u) auto
  then have "insert_fixup_step h root (Some z) = Some (h', root', Some p)"
    using rep_node [OF rep] rep_node [of h root "HoleR u g # cs" "Nd l z r" p s]
      rep_node [of h root cs u g "Nd (Nd l z r) p s"] rep rot1(1) rot(1) d up
      rep_node [of h1 root1 "HoleR l z # HoleR u g # cs" r p s] rep_node [OF rot1(2)] rot1(2)
    by (simp add: insert_fixup_step_def)
  moreover have "color \<circ> h' = (color \<circ> h)(z := RB_BLACK, g := RB_RED)" "same_data (set (inord (plug (HoleL p s # HoleR u g # cs) (Nd l z r)))) h h'"
    using only_links_color [OF rot(3)] only_links_color [OF rot1(3)]
      only_links_data [OF rot(3)] only_links_data [OF rot1(3)] by (auto simp: same_data_def)
  ultimately show ?thesis using rot(2) by blast
qed

subsection \<open>The loop\<close>

lemma ins_inv_dist:
  "ins_inv h root cs l z r \<Longrightarrow> distinct (cbefore cs @ inord l @ z # inord r @ cafter cs)"
  by (auto simp: ins_inv_def rep_def)

lemma blacken_parent:
  assumes "rbt c t n" "rbc c (f # cs) n" "cpar (f # cs) = Some p" "c p = RB_RED"
    "distinct (inord (plug [f] t))"
  shows "rbt (c(p := RB_BLACK)) (plug [f] t) (Suc n) \<and> rbc c cs n \<and> cblk c cs"
  using assms by (cases f) auto

lemma blk_ptr: "blk c t = (case ptr t of None \<Rightarrow> True | Some a \<Rightarrow> c a = RB_BLACK)"
  by (cases t) auto

lemma recolor_bal:
  assumes T: "rbt (c(p := RB_BLACK)) T (Suc n)" "ptr T = Some p"
    and U: "rbt c (Nd ul u ur) n" "c u = RB_RED"
    and d: "distinct (g # inord T @ inord ul @ u # inord ur)"
  shows "rbt (c(p := RB_BLACK, u := RB_BLACK, g := RB_RED)) (Nd T g (Nd ul u ur)) (Suc n)"
    "rbt (c(p := RB_BLACK, u := RB_BLACK, g := RB_RED)) (Nd (Nd ul u ur) g T) (Suc n)"
proof -
  let ?c = "c(p := RB_BLACK, u := RB_BLACK, g := RB_RED)"
  have "p \<in> set (inord T)" using T(2) by (cases T) auto
  then have p: "p \<notin> set (inord ul)" "p \<notin> set (inord ur)" "p \<noteq> u" "p \<noteq> g" using d by auto
  have "rbt ?c T (Suc n)" using T(1) d by simp
  moreover have "blk ?c T" using T(2) p by (simp add: blk_ptr)
  moreover have "rbt ?c (Nd ul u ur) (Suc n)" using U d p by simp
  moreover have "?c u = RB_BLACK" "?c g = RB_RED" using d by auto
  ultimately show "rbt ?c (Nd T g (Nd ul u ur)) (Suc n)" "rbt ?c (Nd (Nd ul u ur) g T) (Suc n)"
    by simp_all
qed

lemma ins_next_recolor_L:
  assumes inv: "ins_inv h root (f # HoleL g (Nd ul u ur) # cs) l z r"
    and red: "is_red h (cpar (f # HoleL g (Nd ul u ur) # cs))" "color (h u) = RB_RED"
  shows "ins_next h root (f # HoleL g (Nd ul u ur) # cs) l z r"
proof -
  define c where "c = color \<circ> h"
  let ?U = "Nd ul u ur" and ?c' = "\<lambda>p. c(p := RB_BLACK, u := RB_BLACK, g := RB_RED)"
  obtain pl p pr where t: "plug [f] (Nd l z r) = Nd pl p pr" "cpar (f # HoleL g ?U # cs) = Some p"
    by (cases f) auto
  then have t': "plug (f # cs') (Nd l z r) = plug cs' (Nd pl p pr)" for cs' by (cases f) auto
  have rep: "rep h root (plug (HoleL g ?U # cs) (Nd pl p pr))" "parent (h z) = Some p"
    using inv rep_node [of h root "f # HoleL g ?U # cs" l z r] t(2) by (auto simp: ins_inv_def t')
  then have d: "distinct (cbefore cs @ (inord pl @ p # inord pr) @ g # inord ?U @ cafter cs)"
    by (simp add: rep_def)
  then have out: "x \<notin> set (cbefore cs)" "x \<notin> set (cafter cs)" if "x \<in> {p, u, g}" for x
    using that by auto
  have du: "distinct [p, u, g]" "distinct (g # inord (Nd pl p pr) @ inord ul @ u # inord ur)"
    "distinct (inord (plug [f] (Nd l z r)))" unfolding t(1) using d by auto
  have cc: "c p = RB_RED" "c u = RB_RED" using red t(2) by (simp_all add: c_def)
  from inv obtain n where n: "rbt c (Nd l z r) n" "rbc c (f # HoleL g ?U # cs) n"
    by (auto simp: ins_inv_def c_def)
  from blacken_parent [OF n t(2) cc(1) du(3)]
  have bal: "rbt (c(p := RB_BLACK)) (Nd pl p pr) (Suc n)" "rbt c ?U n" "rbc c cs (Suc n)"
    unfolding t(1) using cc(2) by (simp_all add: cblk_def)
  have "rbt (?c' p) (Nd (Nd pl p pr) g ?U) (Suc n)"
    by (rule recolor_bal(1) [OF bal(1) _ bal(2) cc(2) du(2)]) simp
  moreover have "ctop c cs" using inv by (cases f) (simp_all add: ins_inv_def c_def split: if_splits)
  then have "rbc (?c' p) cs (Suc n)" "ctop (?c' p) cs" using bal(3) out by simp_all
  moreover have "rep (recolor h p u g) root (plug cs (Nd (Nd pl p pr) g ?U))"
    using rep(1) du(1) by simp
  ultimately have "ins_inv (recolor h p u g) root cs (Nd pl p pr) g ?U"
    unfolding ins_inv_def by (auto simp: c_def)
  moreover have "inord (plug cs (Nd (Nd pl p pr) g ?U)) = inord (plug (f # HoleL g ?U # cs) (Nd l z r))"
    by (simp add: t')
  moreover have "same_data (set (inord (plug (f # HoleL g (Nd ul u ur) # cs) (Nd l z r)))) h (recolor h p u g)"
    unfolding t' by (auto simp: same_data_def)
  moreover have "length cs < length (f # HoleL g ?U # cs)" by simp
  ultimately show ?thesis
    using step_recolor_L [OF rep(2,1) red(2)] unfolding ins_next_def by blast
qed

lemma ins_next_recolor_R:
  assumes inv: "ins_inv h root (f # HoleR (Nd ul u ur) g # cs) l z r"
    and red: "is_red h (cpar (f # HoleR (Nd ul u ur) g # cs))" "color (h u) = RB_RED"
  shows "ins_next h root (f # HoleR (Nd ul u ur) g # cs) l z r"
proof -
  define c where "c = color \<circ> h"
  let ?U = "Nd ul u ur" and ?c' = "\<lambda>p. c(p := RB_BLACK, u := RB_BLACK, g := RB_RED)"
  obtain pl p pr where t: "plug [f] (Nd l z r) = Nd pl p pr" "cpar (f # HoleR ?U g # cs) = Some p"
    by (cases f) auto
  then have t': "plug (f # cs') (Nd l z r) = plug cs' (Nd pl p pr)" for cs' by (cases f) auto
  have rep: "rep h root (plug (HoleR ?U g # cs) (Nd pl p pr))" "parent (h z) = Some p"
    using inv rep_node [of h root "f # HoleR ?U g # cs" l z r] t(2) by (auto simp: ins_inv_def t')
  then have d: "distinct (cbefore cs @ inord ?U @ g # (inord pl @ p # inord pr) @ cafter cs)"
    by (simp add: rep_def)
  then have out: "x \<notin> set (cbefore cs)" "x \<notin> set (cafter cs)" if "x \<in> {p, u, g}" for x
    using that by auto
  have du: "distinct [p, u, g]" "distinct (g # inord (Nd pl p pr) @ inord ul @ u # inord ur)"
    "distinct (inord (plug [f] (Nd l z r)))" unfolding t(1) using d by auto
  have cc: "c p = RB_RED" "c u = RB_RED" using red t(2) by (simp_all add: c_def)
  from inv obtain n where n: "rbt c (Nd l z r) n" "rbc c (f # HoleR ?U g # cs) n"
    by (auto simp: ins_inv_def c_def)
  from blacken_parent [OF n t(2) cc(1) du(3)]
  have bal: "rbt (c(p := RB_BLACK)) (Nd pl p pr) (Suc n)" "rbt c ?U n" "rbc c cs (Suc n)"
    unfolding t(1) using cc(2) by (simp_all add: cblk_def)
  have "rbt (?c' p) (Nd ?U g (Nd pl p pr)) (Suc n)"
    by (rule recolor_bal(2) [OF bal(1) _ bal(2) cc(2) du(2)]) simp
  moreover have "ctop c cs" using inv by (cases f) (simp_all add: ins_inv_def c_def split: if_splits)
  then have "rbc (?c' p) cs (Suc n)" "ctop (?c' p) cs" using bal(3) out by simp_all
  moreover have "rep (recolor h p u g) root (plug cs (Nd ?U g (Nd pl p pr)))"
    using rep(1) du(1) by simp
  ultimately have "ins_inv (recolor h p u g) root cs ?U g (Nd pl p pr)"
    unfolding ins_inv_def by (auto simp: c_def)
  moreover have "inord (plug cs (Nd ?U g (Nd pl p pr))) = inord (plug (f # HoleR ?U g # cs) (Nd l z r))"
    by (simp add: t')
  moreover have "same_data (set (inord (plug (f # HoleR (Nd ul u ur) g # cs) (Nd l z r)))) h (recolor h p u g)"
    unfolding t' by (auto simp: same_data_def)
  moreover have "length cs < length (f # HoleR ?U g # cs)" by simp
  ultimately show ?thesis
    using step_recolor_R [OF rep(2,1) red(2)] unfolding ins_next_def by blast
qed

text \<open>After the rotations the parent is black and the invariant holds one level higher.\<close>

lemma ins_next_outer_L:
  assumes inv: "ins_inv h root (HoleL p s # HoleL g u # cs) l z r" and p: "color (h p) = RB_RED"
    and u: "blk (color \<circ> h) u"
  shows "ins_next h root (HoleL p s # HoleL g u # cs) l z r"
proof -
  define c where "c = color \<circ> h"
  let ?c' = "c(p := RB_BLACK, g := RB_RED)"
  from inv have rep: "rep h root (plug (HoleL p s # HoleL g u # cs) (Nd l z r))" by (simp add: ins_inv_def)
  from step_outer_L [OF rep u] obtain h' root' where
    h': "insert_fixup_step h root (Some z) = Some (h', root', Some z)"
      "rep h' root' (plug cs (Nd (Nd l z r) p (Nd s g u)))" "color \<circ> h' = ?c'" "same_data (set (inord (plug (HoleL p s # HoleL g u # cs) (Nd l z r)))) h h'"
    unfolding c_def by blast
  from ins_inv_dist [OF inv]
  have d: "distinct (inord l @ z # inord r @ p # inord s @ g # inord u)"
    and out: "p \<notin> set (cbefore cs)" "p \<notin> set (cafter cs)" "g \<notin> set (cbefore cs)" "g \<notin> set (cafter cs)"
    by auto
  from inv p obtain n where n: "rbt c (Nd l z r) n" "c z = RB_RED" "rbt c s n" "blk c s" "c g = RB_BLACK"
    "rbt c u n" "rbc c cs (Suc n)" "ctop c (HoleL g u # cs)"
    by (auto simp: ins_inv_def cblk_def c_def)
  with u have "rbt ?c' (Nd l z r) n" "rbc ?c' (HoleL p (Nd s g u) # cs) n" "ctop ?c' (HoleL p (Nd s g u) # cs)"
    "?c' z = RB_RED" using d out by (auto simp: c_def [symmetric] split: if_splits)
  then have "ins_inv h' root' (HoleL p (Nd s g u) # cs) l z r"
    using h'(2) comp_apply [of color h' z] unfolding ins_inv_def h'(3) by auto
  with h' show ?thesis unfolding ins_next_def
    by (intro exI [of _ h'] exI [of _ root'] exI [of _ "HoleL p (Nd s g u) # cs"] exI [of _ l] exI [of _ z]
        exI [of _ r]) simp
qed

lemma ins_next_outer_R:
  assumes inv: "ins_inv h root (HoleR s p # HoleR u g # cs) l z r" and p: "color (h p) = RB_RED"
    and u: "blk (color \<circ> h) u"
  shows "ins_next h root (HoleR s p # HoleR u g # cs) l z r"
proof -
  define c where "c = color \<circ> h"
  let ?c' = "c(p := RB_BLACK, g := RB_RED)"
  from inv have rep: "rep h root (plug (HoleR s p # HoleR u g # cs) (Nd l z r))" by (simp add: ins_inv_def)
  from step_outer_R [OF rep u] obtain h' root' where
    h': "insert_fixup_step h root (Some z) = Some (h', root', Some z)"
      "rep h' root' (plug cs (Nd (Nd u g s) p (Nd l z r)))" "color \<circ> h' = ?c'" "same_data (set (inord (plug (HoleR s p # HoleR u g # cs) (Nd l z r)))) h h'"
    unfolding c_def by blast
  from ins_inv_dist [OF inv]
  have d: "distinct (inord u @ g # inord s @ p # inord l @ z # inord r)"
    and out: "p \<notin> set (cbefore cs)" "p \<notin> set (cafter cs)" "g \<notin> set (cbefore cs)" "g \<notin> set (cafter cs)"
    by auto
  from inv p obtain n where n: "rbt c (Nd l z r) n" "c z = RB_RED" "rbt c s n" "blk c s" "c g = RB_BLACK"
    "rbt c u n" "rbc c cs (Suc n)" "ctop c (HoleR u g # cs)"
    by (auto simp: ins_inv_def cblk_def c_def)
  with u have "rbt ?c' (Nd l z r) n" "rbc ?c' (HoleR (Nd u g s) p # cs) n" "ctop ?c' (HoleR (Nd u g s) p # cs)"
    "?c' z = RB_RED" using d out by (auto simp: c_def [symmetric] split: if_splits)
  then have "ins_inv h' root' (HoleR (Nd u g s) p # cs) l z r"
    using h'(2) comp_apply [of color h' z] unfolding ins_inv_def h'(3) by auto
  with h' show ?thesis unfolding ins_next_def
    by (intro exI [of _ h'] exI [of _ root'] exI [of _ "HoleR (Nd u g s) p # cs"] exI [of _ l] exI [of _ z]
        exI [of _ r]) simp
qed

lemma ins_next_inner_L:
  assumes inv: "ins_inv h root (HoleR s p # HoleL g u # cs) l z r" and p: "color (h p) = RB_RED"
    and u: "blk (color \<circ> h) u"
  shows "ins_next h root (HoleR s p # HoleL g u # cs) l z r"
proof -
  define c where "c = color \<circ> h"
  let ?c' = "c(z := RB_BLACK, g := RB_RED)"
  from inv have rep: "rep h root (plug (HoleR s p # HoleL g u # cs) (Nd l z r))" by (simp add: ins_inv_def)
  from step_inner_L [OF rep u] obtain h' root' where
    h': "insert_fixup_step h root (Some z) = Some (h', root', Some p)"
      "rep h' root' (plug cs (Nd (Nd s p l) z (Nd r g u)))" "color \<circ> h' = ?c'" "same_data (set (inord (plug (HoleR s p # HoleL g u # cs) (Nd l z r)))) h h'"
    unfolding c_def by blast
  from ins_inv_dist [OF inv]
  have d: "distinct (inord s @ p # inord l @ z # inord r @ g # inord u)"
    and out: "z \<notin> set (cbefore cs)" "z \<notin> set (cafter cs)" "g \<notin> set (cbefore cs)" "g \<notin> set (cafter cs)"
    by auto
  from inv p obtain n where n: "rbt c (Nd l z r) n" "c z = RB_RED" "c p = RB_RED" "rbt c s n" "blk c s" "c g = RB_BLACK"
    "rbt c u n" "rbc c cs (Suc n)" "ctop c (HoleL g u # cs)"
    by (auto simp: ins_inv_def cblk_def c_def)
  with u have "rbt ?c' (Nd s p l) n" "rbc ?c' (HoleL z (Nd r g u) # cs) n" "ctop ?c' (HoleL z (Nd r g u) # cs)"
    "?c' p = RB_RED" using d out by (auto simp: c_def [symmetric] split: if_splits)
  then have "ins_inv h' root' (HoleL z (Nd r g u) # cs) s p l"
    using h'(2) comp_apply [of color h' p] unfolding ins_inv_def h'(3) by auto
  with h' show ?thesis unfolding ins_next_def
    by (intro exI [of _ h'] exI [of _ root'] exI [of _ "HoleL z (Nd r g u) # cs"] exI [of _ s] exI [of _ p]
        exI [of _ l]) simp
qed

lemma ins_next_inner_R:
  assumes inv: "ins_inv h root (HoleL p s # HoleR u g # cs) l z r" and p: "color (h p) = RB_RED"
    and u: "blk (color \<circ> h) u"
  shows "ins_next h root (HoleL p s # HoleR u g # cs) l z r"
proof -
  define c where "c = color \<circ> h"
  let ?c' = "c(z := RB_BLACK, g := RB_RED)"
  from inv have rep: "rep h root (plug (HoleL p s # HoleR u g # cs) (Nd l z r))" by (simp add: ins_inv_def)
  from step_inner_R [OF rep u] obtain h' root' where
    h': "insert_fixup_step h root (Some z) = Some (h', root', Some p)"
      "rep h' root' (plug cs (Nd (Nd u g l) z (Nd r p s)))" "color \<circ> h' = ?c'" "same_data (set (inord (plug (HoleL p s # HoleR u g # cs) (Nd l z r)))) h h'"
    unfolding c_def by blast
  from ins_inv_dist [OF inv]
  have d: "distinct (inord u @ g # inord l @ z # inord r @ p # inord s)"
    and out: "z \<notin> set (cbefore cs)" "z \<notin> set (cafter cs)" "g \<notin> set (cbefore cs)" "g \<notin> set (cafter cs)"
    by auto
  from inv p obtain n where n: "rbt c (Nd l z r) n" "c z = RB_RED" "c p = RB_RED" "rbt c s n" "blk c s" "c g = RB_BLACK"
    "rbt c u n" "rbc c cs (Suc n)" "ctop c (HoleR u g # cs)"
    by (auto simp: ins_inv_def cblk_def c_def)
  with u have "rbt ?c' (Nd r p s) n" "rbc ?c' (HoleR (Nd u g l) z # cs) n" "ctop ?c' (HoleR (Nd u g l) z # cs)"
    "?c' p = RB_RED" using d out by (auto simp: c_def [symmetric] split: if_splits)
  then have "ins_inv h' root' (HoleR (Nd u g l) z # cs) r p s"
    using h'(2) comp_apply [of color h' p] unfolding ins_inv_def h'(3) by auto
  with h' show ?thesis unfolding ins_next_def
    by (intro exI [of _ h'] exI [of _ root'] exI [of _ "HoleR (Nd u g l) z # cs"] exI [of _ r] exI [of _ p]
        exI [of _ s]) simp
qed

lemma ins_next:
  assumes inv: "ins_inv h root cs l z r" and red: "is_red h (cpar cs)"
  shows "ins_next h root cs l z r"
proof -
  obtain f cs1 where cs: "cs = f # cs1" using red by (cases cs) auto
  from inv red have "cs1 \<noteq> []" unfolding cs by (cases f) (auto simp: ins_inv_def)
  then obtain f2 cs2 where cs1: "cs1 = f2 # cs2" by (cases cs1) auto
  have blk_or_red: "blk (color \<circ> h) u \<or> (\<exists>ul x ur. u = Nd ul x ur \<and> color (h x) = RB_RED)" for u
    by (cases u) auto
  show ?thesis
  proof (cases f2)
    case (HoleL g u)
    with inv red blk_or_red [of u] show ?thesis unfolding cs cs1
      by (cases f) (auto intro: ins_next_recolor_L ins_next_outer_L ins_next_inner_L)
  next
    case (HoleR u g)
    with inv red blk_or_red [of u] show ?thesis unfolding cs cs1
      by (cases f) (auto intro: ins_next_recolor_R ins_next_outer_R ins_next_inner_R)
  qed
qed

text \<open>The loop ends in a tree whose only possible defect is a red root.\<close>

lemma insert_fixup_loop_spec:
  "ins_inv h root cs l z r \<Longrightarrow> \<exists>h' root' t. insert_fixup_loop h root (Some z) = Some (h', root') \<and>
     rep h' root' t \<and> inord t = inord (plug cs (Nd l z r)) \<and> (\<exists>n. rbt (color \<circ> h') t n) \<and> same_data (set (inord (plug cs (Nd l z r)))) h h'"
proof (induction "length cs" arbitrary: h root cs l z r rule: less_induct)
  case less
  have par: "parent (h z) = cpar cs"
    using less.prems rep_node [of h root cs l z r] by (simp add: ins_inv_def)
  show ?case
  proof (cases "is_red h (cpar cs)")
    case True
    from ins_next [OF less.prems True] obtain h1 root1 cs1 l1 z1 r1 where
      step: "insert_fixup_step h root (Some z) = Some (h1, root1, Some z1)" "same_data (set (inord (plug cs (Nd l z r)))) h h1"
        "length cs1 < length cs" "ins_inv h1 root1 cs1 l1 z1 r1"
        "inord (plug cs1 (Nd l1 z1 r1)) = inord (plug cs (Nd l z r))"
      unfolding ins_next_def by blast
    have "insert_fixup_loop h root (Some z) = insert_fixup_loop h1 root1 (Some z1)"
      using step(1) True par by (subst insert_fixup_loop.simps) simp
    with less.hyps [OF step(3,4)] step(2) show ?thesis
      unfolding step(5) by (metis same_data_trans)
  next
    case False
    then have "cblk (color \<circ> h) cs" by (auto simp: cblk_def split: option.splits)
    with less.prems have "\<exists>n. rbt (color \<circ> h) (plug cs (Nd l z r)) n"
      unfolding ins_inv_def by (blast intro: rbt_plug)
    with less.prems False par show ?thesis
      by (subst insert_fixup_loop.simps) (auto simp: ins_inv_def)
  qed
qed

lemma rbt_paint:
  assumes "rbt c (Nd l a r) n" "distinct (inord (Nd l a r))"
  shows "rb_tree (c(a := RB_BLACK)) (Nd l a r)"
  using assms by (auto simp: rb_tree_def split: if_splits)

text \<open>\<open>insert_fixup\<close> restores a red-black tree, in the same order.\<close>

lemma insert_fixup_spec:
  assumes "ins_inv h root cs l z r"
  shows "\<exists>h' root' t. insert_fixup h root (Some z) = Some (h', root') \<and> rep h' root' t \<and>
    inord t = inord (plug cs (Nd l z r)) \<and> rb_tree (color \<circ> h') t \<and> same_data (set (inord (plug cs (Nd l z r)))) h h'"
proof -
  from insert_fixup_loop_spec [OF assms] obtain h1 root1 t n where
    loop: "insert_fixup_loop h root (Some z) = Some (h1, root1)" "rep h1 root1 t"
      "inord t = inord (plug cs (Nd l z r))" "rbt (color \<circ> h1) t n" "same_data (set (inord (plug cs (Nd l z r)))) h h1" by blast
  from loop(3) obtain tl a tr where t: "t = Nd tl a tr" by (cases t) auto
  let ?h = "h1(a := set_color RB_BLACK (h1 a))"
  have "rep ?h root1 t" using loop(2) by simp
  moreover have "rb_tree (color \<circ> ?h) t"
    using rbt_paint [of "color \<circ> h1" tl a tr n] loop(2,4) by (simp add: t rep_def)
  moreover have "same_data (set (inord (plug cs (Nd l z r)))) h ?h" 
  proof -
    have "a \<in> set (inord (plug cs (Nd l z r)))" unfolding loop(3) [symmetric] t by simp
    with loop(5) show ?thesis by (auto simp: same_data_def)
  qed
  moreover have "insert_fixup h root (Some z) = Some (?h, root1)"
    using loop(1,2) by (simp add: insert_fixup_def rep_def t)
  ultimately show ?thesis using loop(3) by blast
qed

lemma link_write:
  assumes "ctx_ok h None ds" "distinct (cbefore ds @ n # cafter ds)" "root = ptr (plug ds Lf)"
  shows "\<exists>h1. wr_link (link_of ds) (Some n) h root = (h1, ptr (plug ds (Nd Lf n Lf))) \<and> ctx_ok h1 (Some n) ds \<and>
    only_links h h1 \<and> (\<forall>k. k \<notin> set (cbefore ds @ cafter ds) \<longrightarrow> h1 k = h k)"
proof (cases ds rule: cpar.cases)
  case (2 a s cs)
  moreover have "ptr (plug cs (Nd Lf a s)) = ptr (plug cs (Nd (Nd Lf n Lf) a s))" by (rule ptr_plug) simp
  ultimately show ?thesis using assms by (simp add: link_of_def only_links_def)
next
  case (3 s a cs)
  moreover have "ptr (plug cs (Nd s a Lf)) = ptr (plug cs (Nd s a (Nd Lf n Lf)))" by (rule ptr_plug) simp
  ultimately show ?thesis using assms by (simp add: link_of_def only_links_def)
qed (simp add: link_of_def)

subsection \<open>A new leaf\<close>

text \<open>Hanging a fresh red leaf into a red-black tree is the start of \<open>insert_fixup\<close>.\<close>

lemma new_leaf:
  assumes rep: "rep h root (plug ds Lf)" and bal: "rb_tree (color \<circ> h) (plug ds Lf)"
    and n: "n \<notin> set (inord (plug ds Lf))"
  shows "\<exists>h1. wr_link (link_of ds) (Some n) h root = (h1, ptr (plug ds (Nd Lf n Lf))) \<and> only_links h h1 \<and>
    (\<forall>k. k \<notin> set (cbefore ds @ cafter ds) \<longrightarrow> h1 k = h k) \<and>
    (\<forall>x. left x = None \<and> right x = None \<and> parent x = cpar ds \<and> color x = RB_RED \<longrightarrow>
      ins_inv (h1(n := x)) (ptr (plug ds (Nd Lf n Lf))) ds Lf n Lf)"
proof -
  have d: "distinct (cbefore ds @ n # cafter ds)" using rep n by (auto simp: rep_def)
  then have out: "n \<notin> set (cbefore ds)" "n \<notin> set (cafter ds)" by auto
  have "ctx_ok h None ds" "root = ptr (plug ds Lf)" using rep by (simp_all add: rep_def tree_ok_plug)
  from link_write [OF this(1) d this(2)] obtain h1 where
    h1: "wr_link (link_of ds) (Some n) h root = (h1, ptr (plug ds (Nd Lf n Lf)))" "ctx_ok h1 (Some n) ds"
      "only_links h h1" "\<And>k. k \<notin> set (cbefore ds @ cafter ds) \<Longrightarrow> h1 k = h k" by blast
  from bal obtain k where "rbt (color \<circ> h) (plug ds Lf) k" and root: "blk (color \<circ> h) (plug ds Lf)"
    by (auto simp: rb_tree_def)
  from rbt_unplug [OF this(1)] have rbc: "rbc (color \<circ> h) ds 0" by auto
  have top: "ctop (color \<circ> h) ds" using root ctop_blk [of ds "color \<circ> h" Lf] by (cases "ds = []") auto
  have "ins_inv (h1(n := x)) (ptr (plug ds (Nd Lf n Lf))) ds Lf n Lf"
    if "left x = None" "right x = None" "parent x = cpar ds" "color x = RB_RED" for x
  proof -
    have "color \<circ> h1(n := x) = (color \<circ> h)(n := RB_RED)"
      using h1(3) that(4) by (auto simp: only_links_def)
    moreover have "rep (h1(n := x)) (ptr (plug ds (Nd Lf n Lf))) (plug ds (Nd Lf n Lf))"
      using h1(2) d out that by (simp add: rep_def tree_ok_plug)
    ultimately show ?thesis using rbc top out that unfolding ins_inv_def by simp
  qed
  with h1 show ?thesis by blast
qed

section \<open>Properties\<close>

text \<open>
  C25 \<open>insert_fixup\<close> ends, follows no null pointer and restores the red-black tree: started on a tree
  whose only possible defect is the fresh red node \<open>z\<close> under a red parent, it returns a tree with a
  black root, no red node under a red one and equal black heights, with the same nodes in the same
  order. No payload changes, and no node outside the tree does.
\<close>

theorem insert_fixup_restores:
  assumes "ins_inv h root cs l z r"
  shows "\<exists>h' root' t. insert_fixup h root (Some z) = Some (h', root') \<and> rep h' root' t \<and>
    inord t = inord (plug cs (Nd l z r)) \<and> rb_tree (color \<circ> h') t \<and>
    same_data (set (inord (plug cs (Nd l z r)))) h h'"
  using assms by (rule insert_fixup_spec)

theorem insert_fixup_restores_witness:
  "\<exists>h' root' t. insert_fixup rb_demo (Some 2) (Some 0) = Some (h', root') \<and> rep h' root' t \<and>
    inord t = [0, 1, 2] \<and> rb_tree (color \<circ> h') t"
proof -
  have "ins_inv rb_demo (Some 2) [HoleL 1 Lf, HoleL 2 Lf] Lf 0 Lf"
    by (simp add: ins_inv_def rep_def rb_demo_def cblk_def)
  from insert_fixup_restores [OF this] show ?thesis by auto
qed

end
