(* ===== verification/RBTree_Delete.thy ===== *)
theory RBTree_Delete
  imports RBTree_Insert
begin

text \<open>
  Deletion from the red-black tree of \<open>src/mm/vmm.c\<close>: \<open>rb_delete\<close> ends, follows no null pointer and
  takes exactly the given node out of a red-black tree, which stays one, with the other nodes in
  the same order. The loop of \<open>delete_fixup\<close> is verified once for both of its branches, in the
  locale \<open>rb_side\<close>, whose two interpretations are the left and the right branch.
\<close>

section \<open>Definitions\<close>

text \<open>The mirror image of a tree and of a context.\<close>

fun mtree :: "atree \<Rightarrow> atree" where
  "mtree Lf = Lf"
| "mtree (Nd l a r) = Nd (mtree r) a (mtree l)"

fun mframe :: "frame \<Rightarrow> frame" where
  "mframe (HoleL a s) = HoleR (mtree s) a"
| "mframe (HoleR s a) = HoleL a (mtree s)"

text \<open>
  \<open>owed c t n\<close>: the tree \<open>t\<close> has black height \<open>n\<close> but stands where \<open>n + 1\<close> is due; a red root may
  have red children, since it is about to be painted black.
\<close>

fun owed :: "(nat \<Rightarrow> rb_color_t) \<Rightarrow> atree \<Rightarrow> nat \<Rightarrow> bool" where
  "owed c Lf n = (n = 0)"
| "owed c (Nd l a r) n =
     (if c a = RB_BLACK then n \<noteq> 0 \<and> rbt c l (n - 1) \<and> rbt c r (n - 1) else rbt c l n \<and> rbt c r n)"

text \<open>The balance part of the loop invariant of \<open>delete_fixup\<close>.\<close>

definition del_bal :: "(nat \<Rightarrow> rb_color_t) \<Rightarrow> frame list \<Rightarrow> atree \<Rightarrow> bool" where
  "del_bal c cs t \<longleftrightarrow> ctop c cs \<and> (\<exists>n. owed c t n \<and> rbc c cs (Suc n))"

text \<open>
  What one iteration achieves: it leaves the loop with a red-black tree, or goes on with the
  invariant and a smaller measure. \<open>tr\<close> is the tree before the iteration.
\<close>

definition side_res ::
  "('a rb_heap \<Rightarrow> nat option \<Rightarrow> atree \<Rightarrow> bool) \<Rightarrow> 'a rb_heap \<Rightarrow> atree \<Rightarrow> nat \<Rightarrow>
   ('a rb_heap \<times> nat option \<times> nat option \<times> nat option \<times> bool) option \<Rightarrow> bool" where
  "side_res tree h tr k r \<longleftrightarrow> (\<exists>h' root' x xp stop cs t. r = Some (h', root', x, xp, stop) \<and>
     tree h' root' (plug cs t) \<and> same_data (set (inord tr)) h h' \<and> inord (plug cs t) = inord tr \<and>
     (if stop then x = root' \<and> rb_tree (color \<circ> h') (plug cs t)
      else x = ptr t \<and> xp = cpar cs \<and> del_bal (color \<circ> h') cs t \<and>
        length cs + (if blk (color \<circ> h') t then 1 else 0) < k))"

text \<open>The balance after a node with one child \<open>b\<close> and colour \<open>k\<close> has been taken out.\<close>

definition spliced :: "(nat \<Rightarrow> rb_color_t) \<Rightarrow> frame list \<Rightarrow> atree \<Rightarrow> rb_color_t \<Rightarrow> bool" where
  "spliced c es b k \<longleftrightarrow> ctop c es \<and>
     (if k = RB_BLACK then \<exists>n. owed c b n \<and> rbc c es (Suc n)
      else es \<noteq> [] \<and> blk c b \<and> (\<exists>n. rbt c b n \<and> rbc c es n))"

section \<open>Lemmas\<close>

lemma side_res_stop:
  assumes "r = Some (h', root', root', xp, True)" "tree h' root' t" "same_data (set (inord tr)) h h'"
    "inord t = inord tr" "rb_tree (color \<circ> h') t"
  shows "side_res tree h tr k r"
  unfolding side_res_def using assms
  by (intro exI [of _ h'] exI [of _ root'] exI [of _ xp] exI [of _ True] exI [of _ "[]"] exI [of _ t]) simp

lemma side_res_trans:
  assumes "same_data (set (inord tr)) h h1" "side_res tree h1 tr1 k r" "inord tr1 = inord tr"
  shows "side_res tree h tr k r"
  using assms same_data_trans [OF assms(1)] unfolding side_res_def by metis

lemma ld_or_simps [simp]: "ld_or d f h None = d" "ld_or d f h (Some a) = f (h a)"
  by (simp_all add: ld_or_def)

lemma st_if_simps [simp]: "st_if u h None = h" "st_if u h (Some a) = h(a := u (h a))"
  by (simp_all add: st_if_def)

lemma owed_black: "blk c t \<Longrightarrow> owed c t n = rbt c t n"
  by (cases t) auto

lemma rbt_owed: "rbt c t n \<Longrightarrow> owed c t n"
  by (cases t) (auto split: if_splits)

lemma relinked_refl [simp]: "relinked S h h"
  by (simp add: relinked_def)

lemma ptr_plug_mem:
  assumes "cs \<noteq> []"
  shows "\<exists>a. ptr (plug cs t) = Some a \<and> a \<in> set (cbefore cs) \<union> set (cafter cs)"
  using assms
proof (induction cs t rule: plug.induct)
  case (2 a s cs t)
  then show ?case by (cases "cs = []") auto
next
  case (3 s a cs t)
  then show ?case by (cases "cs = []") auto
qed simp

subsection \<open>Mirror images\<close>

lemma inord_mtree [simp]: "inord (mtree t) = rev (inord t)"
  by (induction t) auto

lemma mtree_mtree [simp]: "mtree (mtree t) = t"
  by (induction t) auto

lemma mframe_mframe [simp]: "mframe (mframe f) = f"
  by (cases f) auto

lemma mframes_mframes [simp]: "map mframe (map mframe cs) = cs" "map (mframe \<circ> mframe) cs = cs"
  by (induction cs) auto

lemma ptr_mtree [simp]: "ptr (mtree t) = ptr t"
  by (cases t) auto

lemma plug_mirror: "plug (map mframe cs) (mtree t) = mtree (plug cs t)"
  by (induction cs t rule: plug.induct) auto

lemma cpar_mirror [simp]: "cpar (map mframe cs) = cpar cs"
  by (cases cs rule: cpar.cases) auto

lemma blk_mirror [simp]: "blk c (mtree t) = blk c t"
  by (cases t) auto

lemma rbt_mirror [simp]: "rbt c (mtree t) n = rbt c t n"
  by (induction t arbitrary: n) auto

lemma owed_mirror [simp]: "owed c (mtree t) n = owed c t n"
  by (cases t) auto

lemma cblk_mirror [simp]: "cblk c (map mframe cs) = cblk c cs"
  by (simp add: cblk_def)

lemma rbc_mirror [simp]: "rbc c (map mframe cs) n = rbc c cs n"
  by (induction c cs n rule: rbc.induct) auto

lemma ctop_mirror [simp]: "ctop c (map mframe cs) = ctop c cs"
  by (induction c cs rule: ctop.induct) auto

lemma del_bal_mirror [simp]: "del_bal c (map mframe cs) (mtree t) = del_bal c cs t"
  by (simp add: del_bal_def)

lemma rb_tree_mirror [simp]: "rb_tree c (mtree t) = rb_tree c t"
  by (simp add: rb_tree_def)

subsection \<open>The balance after each case\<close>

lemma bal_far_red:
  assumes bal: "del_bal c (HoleL p (Nd s w (Nd a y b)) # cs) t" and t: "blk c t"
    and col: "c w = RB_BLACK" "c y = RB_RED"
    and d: "distinct (inord (plug (HoleL p (Nd s w (Nd a y b)) # cs) t))"
  shows "rb_tree (c(w := c p, p := RB_BLACK, y := RB_BLACK)) (plug cs (Nd (Nd t p s) w (Nd a y b)))"
    (is "rb_tree ?c (plug cs ?t)")
proof -
  have out: "x \<notin> set (cbefore cs)" "x \<notin> set (cafter cs)" if "x \<in> {w, p, y}" for x
    using that d by auto
  have sub: "x \<notin> set (inord t)" "x \<notin> set (inord s)" "x \<notin> set (inord a)" "x \<notin> set (inord b)"
    if "x \<in> {w, p, y}" for x
    using that d by auto
  have ne: "p \<noteq> w" "p \<noteq> y" "w \<noteq> y" using d by auto
  from bal obtain n where n: "owed c t n" "rbc c (HoleL p (Nd s w (Nd a y b)) # cs) (Suc n)"
    and top: "ctop c (HoleL p (Nd s w (Nd a y b)) # cs)" by (auto simp: del_bal_def)
  have "rbt c t n" using n(1) t by (simp add: owed_black)
  then have "rbt ?c ?t (if c p = RB_BLACK then Suc (Suc n) else Suc n)"
    using n(2) col ne sub by (auto split: if_splits)
  moreover have "rbc ?c cs (if c p = RB_BLACK then Suc (Suc n) else Suc n)" "cblk ?c cs \<or> blk ?c ?t"
    using n(2) ne out by (auto split: if_splits)
  ultimately have "\<exists>k. rbt ?c (plug cs ?t) k" by (rule rbt_plug)
  moreover have "blk ?c (plug cs ?t)"
    using top ctop_blk [of cs ?c ?t] out ne by (cases "cs = []") auto
  ultimately show ?thesis by (simp add: rb_tree_def)
qed

lemma bal_near_red:
  assumes bal: "del_bal c (HoleL p (Nd (Nd a y b) w s) # cs) t"
    and col: "c w = RB_BLACK" "c y = RB_RED" "blk c s"
    and d: "distinct (inord (plug (HoleL p (Nd (Nd a y b) w s) # cs) t))"
  shows "del_bal (c(y := RB_BLACK, w := RB_RED)) (HoleL p (Nd a y (Nd b w s)) # cs) t"
    (is "del_bal ?c _ _")
proof -
  have out: "x \<notin> set (cbefore cs)" "x \<notin> set (cafter cs)" if "x \<in> {w, p, y}" for x
    using that d by auto
  have sub: "x \<notin> set (inord t)" "x \<notin> set (inord s)" "x \<notin> set (inord a)" "x \<notin> set (inord b)"
    if "x \<in> {w, p, y}" for x
    using that d by auto
  have ne: "p \<noteq> w" "p \<noteq> y" "w \<noteq> y" using d by auto
  have "owed ?c t n = owed c t n" for n using sub by (cases t) auto
  then show ?thesis using bal col ne sub out by (auto simp: del_bal_def)
qed

lemma bal_both_black:
  assumes bal: "del_bal c (HoleL p (Nd a w b) # cs) t" and t: "blk c t"
    and col: "c w = RB_BLACK" "blk c a" "blk c b"
    and d: "distinct (inord (plug (HoleL p (Nd a w b) # cs) t))"
  shows "del_bal (c(w := RB_RED)) cs (Nd t p (Nd a w b))"
proof -
  have sub: "w \<notin> set (cbefore cs)" "w \<notin> set (cafter cs)" "w \<notin> set (inord t)" "w \<notin> set (inord a)"
    "w \<notin> set (inord b)" "p \<noteq> w" using d by auto
  from bal obtain n where n: "rbt c t n" "rbc c (HoleL p (Nd a w b) # cs) (Suc n)"
    and top: "ctop c (HoleL p (Nd a w b) # cs)" using t by (auto simp: del_bal_def owed_black)
  have "ctop c cs" using top by (simp split: if_splits)
  moreover have "owed (c(w := RB_RED)) (Nd t p (Nd a w b)) (if c p = RB_BLACK then Suc n else n)"
    using n col sub by (auto split: if_splits)
  moreover have "rbc c cs (Suc (if c p = RB_BLACK then Suc n else n))"
    using n(2) by (auto split: if_splits)
  then have "rbc (c(w := RB_RED)) cs (Suc (if c p = RB_BLACK then Suc n else n))" using sub by simp
  ultimately show ?thesis unfolding del_bal_def using sub by (blast intro: ctop_upd [THEN iffD2])
qed

lemma bal_sibling_red:
  assumes bal: "del_bal c (HoleL p (Nd l w s) # cs) t" and col: "c w = RB_RED"
    and d: "distinct (inord (plug (HoleL p (Nd l w s) # cs) t))"
  shows "\<exists>a v b. l = Nd a v b \<and> c v = RB_BLACK \<and> c p = RB_BLACK \<and>
    del_bal (c(w := RB_BLACK, p := RB_RED)) (HoleL p l # HoleL w s # cs) t"
proof -
  let ?c = "c(w := RB_BLACK, p := RB_RED)"
  have out: "x \<notin> set (cbefore cs)" "x \<notin> set (cafter cs)" if "x \<in> {w, p}" for x
    using that d by auto
  have sub: "x \<notin> set (inord t)" "x \<notin> set (inord s)" "x \<notin> set (inord l)" if "x \<in> {w, p}" for x
    using that d by auto
  have ne: "p \<noteq> w" using d by auto
  from bal obtain n where n: "owed c t n" "rbc c (HoleL p (Nd l w s) # cs) (Suc n)"
    and top: "ctop c (HoleL p (Nd l w s) # cs)" by (auto simp: del_bal_def)
  have pb: "c p = RB_BLACK" "rbc c cs (Suc (Suc n))" "rbt c l (Suc n)" "rbt c s (Suc n)" "blk c l" "blk c s"
    using n(2) col by (auto split: if_splits)
  obtain a v b where l: "l = Nd a v b" using pb(3) by (cases l) auto
  have "owed ?c t n" using n(1) sub by (cases t) auto
  moreover have "rbc ?c (HoleL p l # HoleL w s # cs) (Suc n)"
    using pb ne sub out by (simp add: cblk_def)
  moreover have "ctop ?c (HoleL p l # HoleL w s # cs)" using top ne out by (auto split: if_splits)
  ultimately show ?thesis using l pb(1,5) by (auto simp: del_bal_def)
qed

subsection \<open>One side of the loop body\<close>

text \<open>
  What the loop body relies on: the fields \<open>near\<close> and \<open>far\<close> are the two children in the tree that
  \<open>tree\<close> relates to the heap, and the rotations rotate that tree.
\<close>

locale rb_side =
  fixes tree :: "'a rb_heap \<Rightarrow> nat option \<Rightarrow> atree \<Rightarrow> bool"
    and near far :: "'a rb_node_scheme \<Rightarrow> nat option"
    and rot_near rot_far :: "'a rb_rot"
  assumes node: "tree h root (plug cs (Nd l v r)) \<Longrightarrow>
      near (h v) = ptr l \<and> far (h v) = ptr r \<and> parent (h v) = cpar cs"
    and wf: "tree h root t \<Longrightarrow> root = ptr t \<and> distinct (inord t)"
    and paint: "tree (h(x := set_color k (h x))) root t = tree h root t"
    and fields: "near (set_color k n) = near n \<and> far (set_color k n) = far n"
    and rot_near: "tree h root (plug cs (Nd a x (Nd b y c))) \<Longrightarrow>
      \<exists>h' root'. rot_near h root (Some x) = Some (h', root') \<and> tree h' root' (plug cs (Nd (Nd a x b) y c)) \<and>
        relinked (set (inord (plug cs (Nd a x (Nd b y c))))) h h'"
    and rot_far: "tree h root (plug cs (Nd (Nd c y b) x a)) \<Longrightarrow>
      \<exists>h' root'. rot_far h root (Some x) = Some (h', root') \<and> tree h' root' (plug cs (Nd c y (Nd b x a))) \<and>
        relinked (set (inord (plug cs (Nd (Nd c y b) x a)))) h h'"
begin

abbreviation body where
  "body \<equiv> fix_black_sibling near far rot_near rot_far"

text \<open>The far nephew is red: recolour, rotate, done.\<close>

lemma far_red:
  assumes t: "tree h root (plug (HoleL p (Nd s w (Nd a y b)) # cs) t)"
    and c: "color (h w) = RB_BLACK" "color (h y) = RB_RED"
  shows "\<exists>h' root'. body h root (Some p) (Some w) = Some (h', root', root', Some p, True) \<and>
    tree h' root' (plug cs (Nd (Nd t p s) w (Nd a y b))) \<and>
    color \<circ> h' = (color \<circ> h)(w := color (h p), p := RB_BLACK, y := RB_BLACK) \<and>
    same_data (set (inord (plug (HoleL p (Nd s w (Nd a y b)) # cs) t))) h h'"
proof -
  let ?h1 = "h(w := set_color (color (h p)) (h w))"
  let ?h2 = "?h1(p := set_color RB_BLACK (?h1 p))"
  let ?h3 = "?h2(y := set_color RB_BLACK (?h2 y))"
  from t have d: "p \<noteq> w" "p \<noteq> y" "w \<noteq> y" using wf [OF t] by auto
  have nw: "near (h w) = ptr s" "far (h w) = Some y"
    using node [of h root "HoleR t p # cs" s w "Nd a y b"] t by auto
  have "tree ?h3 root (plug cs (Nd t p (Nd s w (Nd a y b))))"
    using t by (simp only: paint) simp
  from rot_near [OF this] obtain h' root' where
    rot: "rot_near ?h3 root (Some p) = Some (h', root')" "tree h' root' (plug cs (Nd (Nd t p s) w (Nd a y b)))"
      "relinked (set (inord (plug cs (Nd t p (Nd s w (Nd a y b)))))) ?h3 h'" by blast
  have "body h root (Some p) (Some w) = Some (h', root', root', Some p, True)"
    using c d nw rot(1) by (simp add: fix_black_sibling_def fix_far_child_def fields)
  moreover have "color \<circ> h' = (color \<circ> h)(w := color (h p), p := RB_BLACK, y := RB_BLACK)"
    using only_links_color [OF rot(3)] d by (simp add: fun_eq_iff)
  moreover have "same_data (set (inord (plug (HoleL p (Nd s w (Nd a y b)) # cs) t))) h h'"
    using only_links_data [OF rot(3)] by (auto simp: same_data_def)
  ultimately show ?thesis using rot(2) by blast
qed

text \<open>Only the near nephew is red: a rotation makes the far one red.\<close>

lemma near_red:
  assumes t: "tree h root (plug (HoleL p (Nd (Nd a y b) w s) # cs) t)"
    and c: "color (h w) = RB_BLACK" "color (h y) = RB_RED" "blk (color \<circ> h) s"
  shows "\<exists>h' root'. body h root (Some p) (Some w) = body h' root' (Some p) (Some y) \<and>
    tree h' root' (plug (HoleL p (Nd a y (Nd b w s)) # cs) t) \<and>
    color \<circ> h' = (color \<circ> h)(y := RB_BLACK, w := RB_RED) \<and>
    same_data (set (inord (plug (HoleL p (Nd (Nd a y b) w s) # cs) t))) h h'"
proof -
  let ?h1 = "h(y := set_color RB_BLACK (h y))"
  let ?h2 = "?h1(w := set_color RB_RED (?h1 w))"
  from t have d: "p \<noteq> w" "p \<noteq> y" "w \<noteq> y" using wf [OF t] by auto
  have nw: "near (h w) = Some y" "far (h w) = ptr s"
    using node [of h root "HoleR t p # cs" "Nd a y b" w s] t by auto
  have sb: "is_black h (ptr s)" using c(3) by (cases s) auto
  have "tree ?h2 root (plug (HoleR t p # cs) (Nd (Nd a y b) w s))"
    using t by (simp only: paint) simp
  from rot_far [OF this] obtain h' root' where
    rot: "rot_far ?h2 root (Some w) = Some (h', root')" "tree h' root' (plug (HoleR t p # cs) (Nd a y (Nd b w s)))"
      "relinked (set (inord (plug (HoleR t p # cs) (Nd (Nd a y b) w s)))) ?h2 h'" by blast
  have col: "color \<circ> h' = (color \<circ> h)(y := RB_BLACK, w := RB_RED)"
    using only_links_color [OF rot(3)] d by (simp add: fun_eq_iff)
  have cw: "color (h' w) = RB_RED" using fun_cong [OF col, of w] by simp
  have ny: "near (h' y) = ptr a" "far (h' y) = Some w" "far (h' p) = Some y"
    using node [OF rot(2)] node [of h' root' cs t p "Nd a y (Nd b w s)"] rot(2) by auto
  have "fix_far_child near far rot_far h root (Some p) (Some w) = Some (h', root', Some y)"
    using d nw rot(1) sb ny by (simp add: fix_far_child_def fields)
  moreover have "fix_far_child near far rot_far h' root' (Some p) (Some y) = Some (h', root', Some y)"
    using ny cw by (simp add: fix_far_child_def)
  ultimately have "body h root (Some p) (Some w) = body h' root' (Some p) (Some y)"
    using nw c ny cw by (simp add: fix_black_sibling_def)
  moreover have "same_data (set (inord (plug (HoleL p (Nd (Nd a y b) w s) # cs) t))) h h'"
    using only_links_data [OF rot(3)] by (auto simp: same_data_def)
  ultimately show ?thesis using rot(2) col by auto
qed

text \<open>Both nephews are black: the sibling is painted red and the parent is next.\<close>

lemma both_black:
  assumes t: "tree h root (plug (HoleL p (Nd a w b) # cs) t)"
    and c: "blk (color \<circ> h) a" "blk (color \<circ> h) b"
  shows "body h root (Some p) (Some w) = Some (h(w := set_color RB_RED (h w)), root, Some p, cpar cs, False)"
proof -
  have "is_black h (ptr a)" "is_black h (ptr b)" using c by (cases a; cases b; auto)+
  moreover have "near (h w) = ptr a" "far (h w) = ptr b" "parent (h p) = cpar cs" "p \<noteq> w"
    using node [of h root "HoleR t p # cs" a w b] node [of h root cs t p "Nd a w b"] wf [OF t] t by auto
  ultimately show ?thesis by (simp add: fix_black_sibling_def)
qed

text \<open>The sibling is red: a rotation gives a black sibling and a red parent.\<close>

lemma sibling_red:
  assumes t: "tree h root (plug (HoleL p (Nd (Nd a v b) w s) # cs) t)" and c: "color (h w) = RB_RED"
  shows "\<exists>h' root'. fix_red_sibling far rot_near h root (Some p) = Some (h', root', Some v) \<and>
    tree h' root' (plug (HoleL p (Nd a v b) # HoleL w s # cs) t) \<and>
    color \<circ> h' = (color \<circ> h)(w := RB_BLACK, p := RB_RED) \<and>
    same_data (set (inord (plug (HoleL p (Nd (Nd a v b) w s) # cs) t))) h h'"
proof -
  let ?h1 = "h(w := set_color RB_BLACK (h w))"
  let ?h2 = "?h1(p := set_color RB_RED (?h1 p))"
  from t have d: "p \<noteq> w" using wf [OF t] by auto
  have np: "far (h p) = Some w" using node [of h root cs t p "Nd (Nd a v b) w s"] t by auto
  have "tree ?h2 root (plug cs (Nd t p (Nd (Nd a v b) w s)))"
    using t by (simp only: paint) simp
  from rot_near [OF this] obtain h' root' where
    rot: "rot_near ?h2 root (Some p) = Some (h', root')" "tree h' root' (plug cs (Nd (Nd t p (Nd a v b)) w s))"
      "relinked (set (inord (plug cs (Nd t p (Nd (Nd a v b) w s))))) ?h2 h'" by blast
  have "far (h' p) = Some v"
    using node [of h' root' "HoleL w s # cs" t p "Nd a v b"] rot(2) by simp
  then have "fix_red_sibling far rot_near h root (Some p) = Some (h', root', Some v)"
    using c d np rot(1) by (simp add: fix_red_sibling_def)
  moreover have "color \<circ> h' = (color \<circ> h)(w := RB_BLACK, p := RB_RED)"
    using only_links_color [OF rot(3)] d by (simp add: fun_eq_iff)
  moreover have "same_data (set (inord (plug (HoleL p (Nd (Nd a v b) w s) # cs) t))) h h'"
    using only_links_data [OF rot(3)] by (auto simp: same_data_def)
  ultimately show ?thesis using rot(2) by auto
qed

text \<open>The loop body makes progress, whatever the sibling.\<close>

lemma black_sibling:
  assumes t: "tree h root (plug (HoleL p (Nd a w b) # cs) t)"
    and bal: "del_bal (color \<circ> h) (HoleL p (Nd a w b) # cs) t" "blk (color \<circ> h) t"
    and c: "color (h w) = RB_BLACK"
    and k: "length cs + (if color (h p) = RB_BLACK then 1 else 0) < k"
  shows "side_res tree h (plug (HoleL p (Nd a w b) # cs) t) k (body h root (Some p) (Some w))"
proof -
  note d = conjunct2 [OF wf [OF t]]
  show ?thesis
  proof (cases "blk (color \<circ> h) b")
    case False
    then obtain bl y br where b: "b = Nd bl y br" "color (h y) = RB_RED" by (cases b) auto
    from far_red [OF t [unfolded b(1)] c b(2)] obtain h' root' where
      r: "body h root (Some p) (Some w) = Some (h', root', root', Some p, True)"
      "tree h' root' (plug cs (Nd (Nd t p a) w b))"
      "color \<circ> h' = (color \<circ> h)(w := (color \<circ> h) p, p := RB_BLACK, y := RB_BLACK)"
      "same_data (set (inord (plug (HoleL p (Nd a w b) # cs) t))) h h'" by (auto simp: b(1))
    have "rb_tree (color \<circ> h') (plug cs (Nd (Nd t p a) w b))"
      unfolding r(3) b(1) by (rule bal_far_red [OF bal [unfolded b(1)]]) (use c b d in simp_all)
    with r(1,2,4) show ?thesis by (intro side_res_stop) auto
  next
    case b: True
    show ?thesis
    proof (cases "blk (color \<circ> h) a")
      case False
      then obtain al y ar where a: "a = Nd al y ar" "color (h y) = RB_RED" by (cases a) auto
      from near_red [OF t [unfolded a(1)] c a(2) b] obtain h1 root1 where
        r1: "body h root (Some p) (Some w) = body h1 root1 (Some p) (Some y)"
        "tree h1 root1 (plug (HoleL p (Nd al y (Nd ar w b)) # cs) t)"
        "color \<circ> h1 = (color \<circ> h)(y := RB_BLACK, w := RB_RED)"
        "same_data (set (inord (plug (HoleL p (Nd a w b) # cs) t))) h h1" by (auto simp: a(1))
      have bal1: "del_bal (color \<circ> h1) (HoleL p (Nd al y (Nd ar w b)) # cs) t"
        unfolding r1(3) by (rule bal_near_red [OF bal(1) [unfolded a(1)]]) (use c a b d in simp_all)
      have c1: "color (h1 y) = RB_BLACK" "color (h1 w) = RB_RED"
        using fun_cong [OF r1(3), of y] fun_cong [OF r1(3), of w] d a by auto
      from far_red [OF r1(2) c1] obtain h' root' where
        r: "body h1 root1 (Some p) (Some y) = Some (h', root', root', Some p, True)"
        "tree h' root' (plug cs (Nd (Nd t p al) y (Nd ar w b)))"
        "color \<circ> h' = (color \<circ> h1)(y := (color \<circ> h1) p, p := RB_BLACK, w := RB_BLACK)"
        "same_data (set (inord (plug (HoleL p (Nd al y (Nd ar w b)) # cs) t))) h1 h'" by auto
      have "blk (color \<circ> h1) t" unfolding r1(3) using bal(2) d a by auto
      then have "rb_tree (color \<circ> h') (plug cs (Nd (Nd t p al) y (Nd ar w b)))"
        unfolding r(3) by (rule bal_far_red [OF bal1]) (use c1 d a in auto)
      moreover have "same_data (set (inord (plug (HoleL p (Nd a w b) # cs) t))) h h'"
        using r1(4) r(4) by (auto simp: same_data_def a(1))
      moreover have "inord (plug cs (Nd (Nd t p al) y (Nd ar w b))) = inord (plug (HoleL p (Nd a w b) # cs) t)"
        by (simp add: a(1))
      ultimately show ?thesis using r(1,2) r1(1) by (intro side_res_stop) simp_all
    next
      case a: True
      let ?h = "h(w := set_color RB_RED (h w))"
      have "del_bal (color \<circ> ?h) cs (Nd t p (Nd a w b))"
        using bal_both_black [OF bal] c a b d by simp
      moreover have "p \<noteq> w" using d by auto
      moreover have "tree ?h root (plug cs (Nd t p (Nd a w b)))" using t by (simp add: paint)
      moreover have "same_data (set (inord (plug (HoleL p (Nd a w b) # cs) t))) h ?h"
        by (auto simp: same_data_def)
      ultimately show ?thesis using both_black [OF t a b] k unfolding side_res_def
        by (intro exI [of _ ?h] exI [of _ root] exI [of _ "Some p"] exI [of _ "cpar cs"] exI [of _ False]
            exI [of _ cs] exI [of _ "Nd t p (Nd a w b)"]) simp
    qed
  qed
qed

lemma side_step:
  assumes t: "tree h root (plug (HoleL p s # cs) t)"
    and bal: "del_bal (color \<circ> h) (HoleL p s # cs) t" "blk (color \<circ> h) t"
  shows "side_res tree h (plug (HoleL p s # cs) t) (length cs + 2)
    (delete_fixup_side near far rot_near rot_far h root (Some p))"
proof -
  note d = conjunct2 [OF wf [OF t]]
  obtain a w b where s: "s = Nd a w b" using bal(1) by (cases s) (auto simp: del_bal_def)
  have far: "far (h p) = Some w" using node [of h root cs t p s] t s by simp
  show ?thesis
  proof (cases "color (h w) = RB_BLACK")
    case True
    then have "fix_red_sibling far rot_near h root (Some p) = Some (h, root, Some w)"
      using far by (simp add: fix_red_sibling_def)
    with black_sibling [of h root p a w b cs t "length cs + 2"] t bal True show ?thesis
      by (simp add: delete_fixup_side_def s)
  next
    case False
    then obtain al v ar where v: "a = Nd al v ar" "color (h v) = RB_BLACK"
      and bal1: "del_bal ((color \<circ> h)(w := RB_BLACK, p := RB_RED)) (HoleL p a # HoleL w b # cs) t"
      using bal_sibling_red [OF bal(1) [unfolded s]] d s by auto
    from sibling_red [OF t [unfolded s v(1)]] False obtain h1 root1 where
      r1: "fix_red_sibling far rot_near h root (Some p) = Some (h1, root1, Some v)"
      "tree h1 root1 (plug (HoleL p (Nd al v ar) # HoleL w b # cs) t)"
      "color \<circ> h1 = (color \<circ> h)(w := RB_BLACK, p := RB_RED)"
      "same_data (set (inord (plug (HoleL p s # cs) t))) h h1" by (auto simp: s v(1))
    have "p \<noteq> w" "v \<noteq> w" "v \<noteq> p" "w \<notin> set (inord t)" "p \<notin> set (inord t)" using d s v by auto
    then have "(color \<circ> h1) v = RB_BLACK" "(color \<circ> h1) p = RB_RED" "blk (color \<circ> h1) t"
      unfolding r1(3) using v bal(2) by simp_all
    then have c1: "color (h1 v) = RB_BLACK" "color (h1 p) = RB_RED" "blk (color \<circ> h1) t" by simp_all
    have "side_res tree h1 (plug (HoleL p (Nd al v ar) # HoleL w b # cs) t) (length cs + 2)
        (body h1 root1 (Some p) (Some v))"
      by (rule black_sibling [OF r1(2)]) (use bal1 c1 in \<open>auto simp: r1(3) v(1)\<close>)
    moreover have "inord (plug (HoleL p (Nd al v ar) # HoleL w b # cs) t) = inord (plug (HoleL p s # cs) t)"
      by (simp add: s v(1))
    ultimately show ?thesis
      using side_res_trans [OF r1(4)] r1(1) by (simp add: delete_fixup_side_def)
  qed
qed

end

interpretation left_side: rb_side rep left right rotate_left rotate_right
proof (unfold_locales, goal_cases)
  case (1 h root cs l v r)
  then show ?case by (blast intro: rep_node)
next
  case (5 h root cs a x b y c)
  then show ?case by (rule rotate_left_rep)
next
  case (6 h root cs c y b x a)
  then show ?case by (rule rotate_right_rep)
qed (simp_all add: rep_root, simp_all add: rep_def)

text \<open>The right branch works on the mirror image of the tree.\<close>

lemma plug_mtree: "mtree (plug cs t) = plug (map mframe cs) (mtree t)"
  by (simp add: plug_mirror)

interpretation right_side: rb_side "\<lambda>h root t. rep h root (mtree t)" right left rotate_right rotate_left
proof (unfold_locales, goal_cases)
  case (1 h root cs l v r)
  then show ?case
    using rep_node [of h root "map mframe cs" "mtree r" v "mtree l"] by (simp add: plug_mtree)
next
  case (5 h root cs a x b y c)
  have "plug (map mframe cs) (Nd (Nd (mtree c) y (mtree b)) x (mtree a)) = mtree (plug cs (Nd a x (Nd b y c)))"
    "plug (map mframe cs) (Nd (mtree c) y (Nd (mtree b) x (mtree a))) = mtree (plug cs (Nd (Nd a x b) y c))"
    by (simp_all add: plug_mtree)
  with 5 show ?case
    using rotate_right_rep [of h root "map mframe cs" "mtree c" y "mtree b" x "mtree a"]
    by (simp only: inord_mtree set_rev)
next
  case (6 h root cs c y b x a)
  have "plug (map mframe cs) (Nd (mtree a) x (Nd (mtree b) y (mtree c))) = mtree (plug cs (Nd (Nd c y b) x a))"
    "plug (map mframe cs) (Nd (Nd (mtree a) x (mtree b)) y (mtree c)) = mtree (plug cs (Nd c y (Nd b x a)))"
    by (simp_all add: plug_mtree)
  with 6 show ?case
    using rotate_left_rep [of h root "map mframe cs" "mtree a" x "mtree b" y "mtree c"]
    by (simp only: inord_mtree set_rev)
qed (simp_all add: rep_root, simp_all add: rep_def)

subsection \<open>The loop\<close>

lemma side_res_mirror:
  assumes "side_res (\<lambda>h root t. rep h root (mtree t)) h (mtree tr) k r"
  shows "side_res rep h tr k r"
proof -
  from assms obtain h' root' x xp stop cs t where
    r: "r = Some (h', root', x, xp, stop)" "rep h' root' (plug (map mframe cs) (mtree t))"
      "same_data (set (inord tr)) h h'" "inord (plug (map mframe cs) (mtree t)) = inord tr"
      "if stop then x = root' \<and> rb_tree (color \<circ> h') (plug (map mframe cs) (mtree t))
       else x = ptr t \<and> xp = cpar cs \<and> del_bal (color \<circ> h') cs t \<and>
         length cs + (if blk (color \<circ> h') t then 1 else 0) < k"
    unfolding side_res_def plug_mirror inord_mtree set_rev rb_tree_mirror by (metis rev_rev_ident)
  show ?thesis
    unfolding side_res_def using r(1-4) r(5)
    by (intro exI [of _ h'] exI [of _ root'] exI [of _ x] exI [of _ xp] exI [of _ stop]
        exI [of _ "map mframe cs"] exI [of _ "mtree t"]) simp
qed

lemma delete_fixup_step_res:
  assumes rep: "rep h root (plug (f # cs) t)" and bal: "del_bal (color \<circ> h) (f # cs) t" "blk (color \<circ> h) t"
  shows "side_res rep h (plug (f # cs) t) (length cs + 2)
    (delete_fixup_step h root (ptr t) (cpar (f # cs)))"
proof (cases f)
  case (HoleL p s)
  with left_side.side_step [of h root p s cs t] rep_node [of h root cs t p s] rep bal show ?thesis
    by (simp add: delete_fixup_step_def)
next
  case (HoleR s p)
  let ?m = "plug (HoleL p (mtree s) # map mframe cs) (mtree t)"
  have m: "mtree ?m = plug (f # cs) t" by (simp add: HoleR plug_mtree del: plug.simps)
  obtain a w b where s: "s = Nd a w b" using bal(1) HoleR by (cases s) (auto simp: del_bal_def)
  have "ptr t \<noteq> ptr s" using rep HoleR s by (cases t) (auto simp: rep_def)
  then have step: "delete_fixup_step h root (ptr t) (cpar (f # cs))
      = delete_fixup_side right left rotate_right rotate_left h root (Some p)"
    using rep_node [of h root cs s p t] rep HoleR by (simp add: delete_fixup_step_def)
  have "side_res (\<lambda>h root t. rep h root (mtree t)) h ?m (length (map mframe cs) + 2)
      (delete_fixup_side right left rotate_right rotate_left h root (Some p))"
    by (rule right_side.side_step) (use rep bal m HoleR del_bal_mirror [of _ "f # cs" t] in simp_all)
  then show ?thesis
    unfolding step m [symmetric] using side_res_mirror [of h "mtree ?m"] by simp
qed

lemma owed_paint:
  assumes "del_bal c cs (Nd l a r)" "cs = [] \<or> c a = RB_RED" "distinct (inord (plug cs (Nd l a r)))"
  shows "rb_tree (c(a := RB_BLACK)) (plug cs (Nd l a r))" (is "rb_tree ?c _")
proof -
  have out: "a \<notin> set (cbefore cs)" "a \<notin> set (cafter cs)" "a \<notin> set (inord l)" "a \<notin> set (inord r)"
    using assms(3) by auto
  from assms(1) obtain n where n: "owed c (Nd l a r) n" "rbc c cs (Suc n)" "ctop c cs"
    by (auto simp: del_bal_def)
  have "\<exists>k. rbt ?c (plug cs (Nd l a r)) k"
    by (rule rbt_plug [of _ _ "if c a = RB_RED then Suc n else n"])
       (use n assms(2) out in \<open>auto split: if_splits\<close>)
  moreover have "blk ?c (plug cs (Nd l a r))"
    using n(3) ctop_blk [of cs ?c "Nd l a r"] out by (cases "cs = []") auto
  ultimately show ?thesis by (simp add: rb_tree_def)
qed

lemma paint_root:
  assumes "rep h root t" "rb_tree (color \<circ> h) t"
  shows "rb_tree (color \<circ> st_if (set_color RB_BLACK) h root) t"
    "same_data (set (inord t)) h (st_if (set_color RB_BLACK) h root)"
  using assms by (cases t; auto simp: rep_def rb_tree_def same_data_def)+

lemma rep_st_if [simp]: "rep (st_if (set_color k) h x) root t = rep h root t"
  by (cases x) simp_all

lemma delete_fixup_loop_spec:
  "rep h root (plug cs t) \<Longrightarrow> del_bal (color \<circ> h) cs t \<Longrightarrow>
   \<exists>h' root' x T. delete_fixup_loop h root (ptr t) (cpar cs) = Some (h', root', x) \<and>
     rep h' root' T \<and> inord T = inord (plug cs t) \<and> rb_tree (color \<circ> st_if (set_color RB_BLACK) h' x) T \<and>
     same_data (set (inord (plug cs t))) h (st_if (set_color RB_BLACK) h' x)"
proof (induction "length cs + (if blk (color \<circ> h) t then 1 else 0)" arbitrary: h root cs t rule: less_induct)
  case less
  note rep = less.prems(1) and bal = less.prems(2)
  show ?case
  proof (cases "ptr t \<noteq> root \<and> is_black h (ptr t)")
    case True
    then obtain f cs0 where cs: "cs = f # cs0" using rep by (cases cs) (auto simp: rep_def)
    have b: "blk (color \<circ> h) t" using True by (cases t) auto
    from delete_fixup_step_res [OF rep [unfolded cs] bal [unfolded cs] b] obtain h1 root1 x xp stop cs1 t1 where
      step: "delete_fixup_step h root (ptr t) (cpar cs) = Some (h1, root1, x, xp, stop)"
      and r: "rep h1 root1 (plug cs1 t1)" "same_data (set (inord (plug cs t))) h h1"
        "inord (plug cs1 t1) = inord (plug cs t)"
      and go: "if stop then x = root1 \<and> rb_tree (color \<circ> h1) (plug cs1 t1)
        else x = ptr t1 \<and> xp = cpar cs1 \<and> del_bal (color \<circ> h1) cs1 t1 \<and>
          length cs1 + (if blk (color \<circ> h1) t1 then 1 else 0) < length cs0 + 2"
      unfolding side_res_def cs by blast
    show ?thesis
    proof (cases stop)
      case stop: True
      then have "delete_fixup_loop h root (ptr t) (cpar cs) = Some (h1, root1, root1)"
        using True step go by (subst delete_fixup_loop.simps) simp
      with stop r go paint_root [OF r(1)] show ?thesis
        by (metis same_data_trans)
    next
      case False
      then have "delete_fixup_loop h root (ptr t) (cpar cs) = delete_fixup_loop h1 root1 (ptr t1) (cpar cs1)"
        using True step go by (subst delete_fixup_loop.simps) simp
      moreover have "length cs1 + (if blk (color \<circ> h1) t1 then 1 else 0)
          < length cs + (if blk (color \<circ> h) t then 1 else 0)"
        using False go b by (simp add: cs)
      ultimately show ?thesis
        using less.hyps [of cs1 h1 t1 root1] False go r by (metis same_data_trans)
    qed
  next
    case False
    then have run: "delete_fixup_loop h root (ptr t) (cpar cs) = Some (h, root, ptr t)"
      by (subst delete_fixup_loop.simps) (simp only: if_False)
    have "rb_tree (color \<circ> st_if (set_color RB_BLACK) h (ptr t)) (plug cs t)"
    proof (cases t)
      case Lf
      with False rep have "cs = []" using ptr_plug_mem [of cs t] by (auto simp: rep_def)
      with Lf show ?thesis by (simp add: rb_tree_def)
    next
      case (Nd l a r)
      have "cs = [] \<or> color (h a) = RB_RED"
        using False rep Nd ptr_plug_mem [of cs t] by (cases "cs = []") (auto simp: rep_def)
      with owed_paint [of "color \<circ> h" cs l a r] bal rep Nd show ?thesis by (simp add: rep_def)
    qed
    moreover have "same_data (set (inord (plug cs t))) h (st_if (set_color RB_BLACK) h (ptr t))"
      by (cases t) (auto simp: same_data_def)
    ultimately show ?thesis using run rep by blast
  qed
qed

lemma delete_fixup_spec:
  assumes "rep h root (plug cs t)" "del_bal (color \<circ> h) cs t"
  shows "\<exists>h' root' T. delete_fixup h root (ptr t) (cpar cs) = Some (h', root') \<and> rep h' root' T \<and>
    inord T = inord (plug cs t) \<and> rb_tree (color \<circ> h') T \<and> same_data (set (inord (plug cs t))) h h'"
  using delete_fixup_loop_spec [OF assms] by (fastforce simp: delete_fixup_def)

subsection \<open>Taking the node out\<close>

lemma transplant_ctx:
  assumes "ctx_ok h (Some u) cs" "parent (h u) = cpar cs" "distinct (cbefore cs @ u # cafter cs)"
    "case v of None \<Rightarrow> True | Some a \<Rightarrow> a \<noteq> u \<and> a \<notin> set (cbefore cs) \<and> a \<notin> set (cafter cs)"
  shows "\<exists>h'. transplant h root (Some u) v = Some (h', if cs = [] then v else root) \<and>
    ctx_ok h' v cs \<and> only_links h h' \<and>
    (\<forall>a. a \<notin> set (cbefore cs) \<longrightarrow> a \<notin> set (cafter cs) \<longrightarrow>
       h' a = (if v = Some a then set_parent (cpar cs) (h a) else h a))"
proof -
  from replace_child_ctx [OF assms(1-3)] obtain h1 where
    h1: "replace_child h root (Some u) v = Some (h1, if cs = [] then v else root)" "ctx_ok h1 v cs"
      "only_links h h1" "\<And>a. a \<notin> set (cbefore cs) \<Longrightarrow> a \<notin> set (cafter cs) \<Longrightarrow> h1 a = h a" by blast
  have "parent (h1 u) = cpar cs" using h1(4) [of u] assms(2,3) by auto
  then have run: "transplant h root (Some u) v
      = Some (st_if (set_parent (cpar cs)) h1 v, if cs = [] then v else root)"
    using h1(1) by (simp add: transplant_def)
  have "only_links h (st_if (set_parent (cpar cs)) h1 v)"
    using h1(3) by (cases v) (auto simp: only_links_def)
  moreover have "ctx_ok (st_if (set_parent (cpar cs)) h1 v) v cs"
    using h1(2) assms(4) by (cases v) auto
  ultimately show ?thesis using run h1(4) by (cases v) auto
qed

lemma transplant_child:
  assumes rep: "rep h root (plug cs (Nd l z r))" and v: "v = l \<and> r = Lf \<or> v = r \<and> l = Lf"
  shows "\<exists>h' root'. transplant h root (Some z) (ptr v) = Some (h', root') \<and> rep h' root' (plug cs v) \<and>
    only_links h h' \<and> (\<forall>a. a \<notin> set (inord (plug cs v)) \<longrightarrow> h' a = h a)"
proof -
  have d: "distinct (cbefore cs @ z # cafter cs)" "distinct (cbefore cs @ inord v @ cafter cs)"
    and ok: "tree_ok h (Some z) v" "ctx_ok h (Some z) cs" "parent (h z) = cpar cs"
    and root: "root = ptr (plug cs (Nd l z r))" and zv: "z \<notin> set (inord v)"
    using rep v by (auto simp: rep_def tree_ok_plug)
  have pv: "case ptr v of None \<Rightarrow> True | Some a \<Rightarrow> a \<noteq> z \<and> a \<notin> set (cbefore cs) \<and> a \<notin> set (cafter cs)"
    using d zv by (cases v) auto
  from transplant_ctx [OF ok(2,3) d(1) pv, of root] obtain h' where
    h': "transplant h root (Some z) (ptr v) = Some (h', if cs = [] then ptr v else root)"
      "ctx_ok h' (ptr v) cs" "only_links h h'"
      "\<And>a. a \<notin> set (cbefore cs) \<Longrightarrow> a \<notin> set (cafter cs) \<Longrightarrow>
         h' a = (if ptr v = Some a then set_parent (cpar cs) (h a) else h a)" by blast
  have "tree_ok h' (cpar cs) v"
  proof (rule tree_ok_reparent [OF ok(1)])
    fix a assume "a \<in> set (inord v)"
    with d(2) have "a \<notin> set (cbefore cs)" "a \<notin> set (cafter cs)" by auto
    from h'(4) [OF this] show "left (h' a) = left (h a) \<and> right (h' a) = right (h a) \<and>
        parent (h' a) = (if ptr v = Some a then cpar cs else parent (h a))" by simp
  qed (use d(2) in simp)
  then have "rep h' (if cs = [] then ptr v else root) (plug cs v)"
    using h'(2) d(2) root ptr_plug_if [of cs v "Nd l z r"] by (simp add: rep_def tree_ok_plug)
  moreover have "h' a = h a" if "a \<notin> set (inord (plug cs v))" for a
    using that h'(4) [of a] by (cases v) auto
  ultimately show ?thesis using h'(1,3) by blast
qed

text \<open>The successor of \<open>z\<close> is the leftmost node of its right subtree.\<close>

lemma tree_min_spec:
  "tree_ok h par (Nd l a r) \<Longrightarrow>
   \<exists>ds y b. Nd l a r = plug ds (Nd Lf y b) \<and> cbefore ds = [] \<and> tree_min h (Some a) = Some (Some y)"
proof (induction l arbitrary: par a r)
  case Lf
  then show ?case
    by (intro exI [of _ "[]"] exI [of _ a] exI [of _ r]) (simp add: tree_min.simps)
next
  case (Nd ll v lr)
  from Nd.prems have "tree_ok h (Some a) (Nd ll v lr)" "left (h a) = Some v" by simp_all
  moreover from Nd.IH(1) [OF this(1)] obtain ds y b where
    "Nd ll v lr = plug ds (Nd Lf y b)" "cbefore ds = []" "tree_min h (Some v) = Some (Some y)" by blast
  moreover have "cbefore (ds @ [HoleL a r]) = cbefore ds" by (induction ds rule: cbefore.induct) simp_all
  ultimately show ?case
    by (intro exI [of _ "ds @ [HoleL a r]"] exI [of _ y] exI [of _ b]) (simp add: plug_append tree_min.simps [of h "Some a"])
qed

lemma succ_place_rep:
  assumes d: "distinct (cbefore cs @ inord l @ z # y # inord R @ cafter cs)"
    and z: "ctx_ok h (Some z) cs" "parent (h z) = cpar cs" "left (h z) = ptr l" "tree_ok h (Some z) l"
    and y: "right (h y) = ptr R" "tree_ok h (Some y) R"
    and root: "cs \<noteq> [] \<Longrightarrow> root = ptr (plug cs t0)"
  shows "\<exists>h' root'. succ_place h root (Some z) (Some y) = Some (h', root') \<and>
    rep h' root' (plug cs (Nd l y R)) \<and> color \<circ> h' = (color \<circ> h)(y := color (h z)) \<and>
    same_data (set (inord (plug cs (Nd l y R)))) h h'"
proof -
  have d1: "distinct (cbefore cs @ z # cafter cs)" "case Some y of None \<Rightarrow> True
      | Some a \<Rightarrow> a \<noteq> z \<and> a \<notin> set (cbefore cs) \<and> a \<notin> set (cafter cs)" using d by auto
  from transplant_ctx [OF z(1,2) d1, of root] obtain h1 where
    h1: "transplant h root (Some z) (Some y) = Some (h1, if cs = [] then Some y else root)"
      "ctx_ok h1 (Some y) cs" "only_links h h1"
    and h1_out: "\<And>a. a \<notin> set (cbefore cs) \<Longrightarrow> a \<notin> set (cafter cs) \<Longrightarrow>
         h1 a = (if a = y then set_parent (cpar cs) (h a) else h a)" by auto
  define h2 where "h2 = h1(y := set_left (ptr l) (h1 y))"
  define h3 where "h3 = st_if (set_parent (Some y)) h2 (ptr l)"
  define h' where "h' = h3(y := set_color (color (h z)) (h3 y))"
  have yl: "y \<notin> set (inord l)" "y \<notin> set (inord R)" "y \<notin> set (cbefore cs)" "y \<notin> set (cafter cs)"
    "y \<noteq> z" "z \<notin> set (inord l)" using d by auto
  have h3_out: "h3 a = h1 a" if "a \<noteq> y" "a \<notin> set (inord l)" for a
    using that by (cases l) (auto simp: h3_def h2_def)
  have h1_z: "h1 z = h z" using h1_out [of z] d1 by auto
  have "h3 z = h z" using h3_out [of z] h1_z yl by simp
  then have run: "succ_place h root (Some z) (Some y) = Some (h', if cs = [] then Some y else root)"
    using h1(1) z(3) h1_z yl by (simp add: succ_place_def h'_def h3_def h2_def Let_def)
  have "h1 y = set_parent (cpar cs) (h y)" using h1_out yl by simp
  then have hy: "left (h' y) = ptr l" "right (h' y) = ptr R" "parent (h' y) = cpar cs"
    using y yl by (cases l; auto simp: h'_def h3_def h2_def)+
  have tl: "tree_ok h' (Some y) l"
  proof (rule tree_ok_reparent [OF z(4)])
    fix a assume a: "a \<in> set (inord l)"
    then have "a \<noteq> y" "a \<notin> set (cbefore cs)" "a \<notin> set (cafter cs)" using d by auto
    then show "left (h' a) = left (h a) \<and> right (h' a) = right (h a) \<and>
        parent (h' a) = (if ptr l = Some a then Some y else parent (h a))"
      using h1_out [of a] by (cases l) (auto simp: h'_def h3_def h2_def)
  qed (use d in simp)
  have "h' a = h a" if "a \<in> set (inord R)" for a
  proof -
    have "a \<noteq> y" "a \<notin> set (inord l)" "a \<notin> set (cbefore cs)" "a \<notin> set (cafter cs)" using that d by auto
    then show ?thesis using h1_out [of a] h3_out [of a] by (simp add: h'_def)
  qed
  then have tR: "tree_ok h' (Some y) R" using y(2) tree_ok_cong [of R h' h] by simp
  have "h' a = h1 a" if "a \<in> set (cbefore cs) \<union> set (cafter cs)" for a
  proof -
    have "a \<noteq> y" "a \<notin> set (inord l)" using that d by auto
    then show ?thesis using h3_out [of a] by (simp add: h'_def)
  qed
  then have "ctx_ok h' (Some y) cs" using h1(2) ctx_ok_cong [of cs h' h1] by simp
  then have rep: "rep h' (if cs = [] then Some y else root) (plug cs (Nd l y R))"
    using d hy tl tR root ptr_plug_Cons [of cs t0 "Nd l y R"] by (simp add: rep_def tree_ok_plug)
  have "only_links h h3" using h1(3) by (cases l) (auto simp: only_links_def h3_def h2_def)
  then have "color \<circ> h' = (color \<circ> h)(y := color (h z))"
    and more: "rb_node.more (h' a) = rb_node.more (h a)" for a
    by (auto simp: only_links_def h'_def)
  moreover have "h' a = h a" if "a \<notin> set (inord (plug cs (Nd l y R)))" for a
    using that h1_out [of a] h3_out [of a] by (simp add: h'_def)
  with more have "same_data (set (inord (plug cs (Nd l y R)))) h h'" by (simp add: same_data_def)
  ultimately show ?thesis using run rep by blast
qed

lemma cpar_append: "cpar (ds @ es) = (if ds = [] then cpar es else cpar ds)"
  by (cases ds rule: cpar.cases) auto

lemma reparent_same: "tree_ok h (Some y) t \<Longrightarrow> st_if (set_parent (Some y)) h (ptr t) = h"
  by (cases t) auto

lemma succ_splice_rep:
  assumes rep: "rep h root (plug cs (Nd l z (plug ds (Nd Lf y b))))"
  shows "\<exists>h' root'. succ_splice h root (Some z) (Some y) = Some (h', root', cpar (ds @ [HoleR l y])) \<and>
    ctx_ok h' (Some z) cs \<and> parent (h' z) = cpar cs \<and> left (h' z) = ptr l \<and> tree_ok h' (Some z) l \<and>
    right (h' y) = ptr (plug ds b) \<and> tree_ok h' (Some y) (plug ds b) \<and>
    (cs \<noteq> [] \<longrightarrow> root' = ptr (plug cs (Nd l z (plug ds b)))) \<and> only_links h h' \<and>
    (\<forall>a. a \<notin> set (inord (plug cs (Nd l z (plug ds (Nd Lf y b))))) \<longrightarrow> h' a = h a)"
proof (cases "ds = []")
  case True
  then have ok: "ctx_ok h (Some z) cs" "parent (h z) = cpar cs" "left (h z) = ptr l" "tree_ok h (Some z) l"
    "right (h y) = ptr b" "tree_ok h (Some y) b" "parent (h y) = Some z"
    and root: "root = ptr (plug cs (Nd l z (Nd Lf y b)))"
    using rep by (simp_all add: rep_def tree_ok_plug)
  moreover have "cs \<noteq> [] \<Longrightarrow> root = ptr (plug cs (Nd l z b))"
    using root ptr_plug_Cons by metis
  ultimately show ?thesis using True by (simp add: succ_splice_def reparent_same)
next
  case False
  let ?R = "plug ds b" and ?es = "ds @ HoleR l z # cs"
  have rep': "rep h root (plug ?es (Nd Lf y b))" using rep by (simp add: plug_append)
  have yb: "right (h y) = ptr b" "parent (h y) = cpar ds"
    using rep_node [OF rep'] False by (simp_all add: cpar_append)
  have dist: "distinct (cbefore cs @ inord l @ z # (cbefore ds @ y # inord b @ cafter ds) @ cafter cs)"
    using rep by (simp add: rep_def)
  then have yz: "cpar ds \<noteq> Some z" using cpar_mem [of ds z] by auto
  from transplant_child [OF rep', of b] obtain h1 root1 where
    h1: "transplant h root (Some y) (ptr b) = Some (h1, root1)" "rep h1 root1 (plug cs (Nd l z ?R))"
      "only_links h h1" "\<And>a. a \<notin> set (inord (plug ?es b)) \<Longrightarrow> h1 a = h a" by (auto simp: plug_append)
  define h2 where "h2 = h1(y := set_right (ptr ?R) (h1 y))"
  define h' where "h' = st_if (set_parent (Some y)) h2 (ptr ?R)"
  have R: "set (inord ?R) = set (cbefore ds) \<union> set (inord b) \<union> set (cafter ds)" "y \<notin> set (inord ?R)"
    using dist by auto
  have out: "h' a = h1 a" if "a \<noteq> y" "a \<notin> set (inord ?R)" for a
    using that by (cases ?R) (auto simp: h'_def h2_def)
  have zR: "right (h1 z) = ptr ?R" "y \<noteq> z" using rep_node [OF h1(2)] dist by auto
  then have "succ_splice h root (Some z) (Some y) = Some (h', root1, cpar (ds @ [HoleR l y]))"
    using h1(1) yb yz False by (simp add: succ_splice_def h'_def h2_def cpar_append)
  moreover have ok1: "ctx_ok h1 (Some z) cs" "tree_ok h1 (Some z) l" "tree_ok h1 (Some z) ?R"
    "parent (h1 z) = cpar cs" "left (h1 z) = ptr l" "root1 = ptr (plug cs (Nd l z ?R))"
    using h1(2) by (simp_all add: rep_def tree_ok_plug)
  moreover have same: "h' a = h1 a" if "a \<in> set (cbefore cs) \<union> set (cafter cs) \<union> set (inord l) \<union> {z}" for a
    by (rule out) (use that dist in auto)
  then have "ctx_ok h' (Some z) cs = ctx_ok h1 (Some z) cs" "tree_ok h' (Some z) l = tree_ok h1 (Some z) l" "h' z = h1 z"
    by (auto intro!: ctx_ok_cong tree_ok_cong)
  moreover have "tree_ok h' (Some y) ?R"
  proof (rule tree_ok_reparent [OF ok1(3)])
    fix a assume "a \<in> set (inord ?R)"
    moreover from this R(2) have "a \<noteq> y" by blast
    ultimately show "left (h' a) = left (h1 a) \<and> right (h' a) = right (h1 a) \<and>
        parent (h' a) = (if ptr ?R = Some a then Some y else parent (h1 a))"
      by (cases ?R) (auto simp: h'_def h2_def)
  qed (use dist in auto)
  moreover have "right (h' y) = ptr ?R" using R(2) by (cases ?R) (auto simp: h'_def h2_def)
  moreover have "only_links h h'"
    using h1(3) by (cases ?R) (auto simp: only_links_def h'_def h2_def)
  moreover have "h' a = h a" if "a \<notin> set (inord (plug cs (Nd l z (plug ds (Nd Lf y b)))))" for a
    using that out [of a] h1(4) [of a] R(1) by (auto simp: plug_append)
  ultimately show ?thesis by auto
qed

subsection \<open>Deletion\<close>

lemma splice_bal:
  assumes "rb_tree c (plug es (Nd l y r))" "b = l \<and> r = Lf \<or> b = r \<and> l = Lf"
  shows "spliced c es b (c y)"
proof -
  from assms(1) obtain k where "rbt c (plug es (Nd l y r)) k" and root: "blk c (plug es (Nd l y r))"
    by (auto simp: rb_tree_def)
  from rbt_unplug [OF this(1)] obtain n where n: "rbt c (Nd l y r) n" "rbc c es n" by blast
  have top: "ctop c es" using root ctop_blk [of es c "Nd l y r"] by (cases "es = []") auto
  show ?thesis
  proof (cases "c y = RB_BLACK")
    case True
    with n assms(2) have "rbt c b (n - 1) \<and> Suc (n - 1) = n" by auto
    with True n(2) top show ?thesis by (auto simp: spliced_def intro: rbt_owed)
  next
    case False
    with root have "es \<noteq> []" by auto
    with False n top assms(2) show ?thesis by (auto simp: spliced_def)
  qed
qed

lemma spliced_done: "spliced c es b k \<Longrightarrow> if k = RB_BLACK then del_bal c es b else rb_tree c (plug es b)"
  using ctop_blk [of es c b] rbt_plug [of c b _ es]
  by (auto simp: spliced_def del_bal_def rb_tree_def)

text \<open>The successor takes over the place and the colour of \<open>z\<close>.\<close>

lemma rbc_take_over:
  assumes "c' y = c z" "\<And>a. a \<in> set (cbefore ds @ cafter ds @ inord l @ cbefore cs @ cafter cs) \<Longrightarrow> c' a = c a"
  shows "rbc c' (ds @ HoleR l y # cs) n = rbc c (ds @ HoleR l z # cs) n"
    and "ctop c' (ds @ HoleR l y # cs) = ctop c (ds @ HoleR l z # cs)"
proof -
  have sub: "rbt c' l m = rbt c l m" "blk c' l = blk c l" "rbc c' cs m = rbc c cs m" "cblk c' cs = cblk c cs"
    "ctop c' cs = ctop c cs" for m
    using assms(2) by (auto intro!: rbt_cong blk_cong rbc_cong cblk_cong ctop_cong)
  have "cblk c' (ds @ HoleR l y # cs) = cblk c (ds @ HoleR l z # cs)"
    if "set (cbefore ds @ cafter ds) \<subseteq> {a. c' a = c a}" for ds
  proof (cases "cpar ds")
    case None
    with assms(1) show ?thesis by (simp add: cblk_def cpar_append cpar_None)
  next
    case (Some x)
    moreover from that cpar_mem [OF this] have "c' x = c x" by auto
    ultimately show ?thesis by (auto simp: cblk_def cpar_append)
  qed
  moreover have "rbt c' s m = rbt c s m" "blk c' s = blk c s" if "set (inord s) \<subseteq> {a. c' a = c a}" for s m
    using that by (auto intro!: rbt_cong blk_cong)
  ultimately have "set (cbefore ds @ cafter ds) \<subseteq> {a. c' a = c a} \<Longrightarrow>
      rbc c' (ds @ HoleR l y # cs) n = rbc c (ds @ HoleR l z # cs) n"
    using sub assms(1) by (induction ds arbitrary: n rule: cafter.induct) simp_all
  then show "rbc c' (ds @ HoleR l y # cs) n = rbc c (ds @ HoleR l z # cs) n" using assms(2) by auto
  have "set (cbefore ds @ cafter ds) \<subseteq> {a. c' a = c a} \<Longrightarrow>
      ctop c' (ds @ HoleR l y # cs) = ctop c (ds @ HoleR l z # cs)"
    using sub assms(1) by (induction ds rule: cafter.induct) auto
  then show "ctop c' (ds @ HoleR l y # cs) = ctop c (ds @ HoleR l z # cs)" using assms(2) by auto
qed

lemma spliced_take_over:
  assumes "spliced c (ds @ HoleR l z # cs) b k"
    "distinct (cbefore cs @ inord l @ z # (cbefore ds @ y # inord b @ cafter ds) @ cafter cs)"
  shows "spliced (c(y := c z)) (ds @ HoleR l y # cs) b k"
proof -
  have y: "y \<notin> set (inord b)" using assms(2) by auto
  have "rbc (c(y := c z)) (ds @ HoleR l y # cs) n = rbc c (ds @ HoleR l z # cs) n"
    "ctop (c(y := c z)) (ds @ HoleR l y # cs) = ctop c (ds @ HoleR l z # cs)" for n
    by (rule rbc_take_over; use assms(2) in auto)+
  moreover have "owed (c(y := c z)) b n = owed c b n" for n using y by (cases b) auto
  ultimately show ?thesis using assms(1) y by (simp add: spliced_def)
qed

lemma rb_unlink_spec:
  assumes rep: "rep h root (plug cs (Nd l z r))" and bal: "rb_tree (color \<circ> h) (plug cs (Nd l z r))"
  shows "\<exists>h' root' es t k. rb_unlink h root (Some z) = Some (h', root', ptr t, cpar es, k) \<and>
    rep h' root' (plug es t) \<and> inord (plug es t) = cbefore cs @ inord l @ inord r @ cafter cs \<and>
    spliced (color \<circ> h') es t k \<and> same_data (set (inord (plug cs (Nd l z r)))) h h'"
proof (cases "l = Lf \<or> r = Lf")
  case True
  define t where "t = (if l = Lf then r else l)"
  with True have t: "t = l \<and> r = Lf \<or> t = r \<and> l = Lf" by auto
  from transplant_child [OF rep this] obtain h' root' where
    h': "transplant h root (Some z) (ptr t) = Some (h', root')" "rep h' root' (plug cs t)" "only_links h h'"
      "\<And>a. a \<notin> set (inord (plug cs t)) \<Longrightarrow> h' a = h a" by blast
  have "rb_unlink h root (Some z) = Some (h', root', ptr t, cpar cs, color (h z))"
    using rep_node [OF rep] h'(1) t by (cases l; cases r) (auto simp: rb_unlink_def)
  moreover have "color \<circ> h' = color \<circ> h" using h'(3) by (auto simp: only_links_def)
  moreover have "spliced (color \<circ> h) cs t ((color \<circ> h) z)" by (rule splice_bal [OF bal t])
  moreover have "same_data (set (inord (plug cs (Nd l z r)))) h h'"
    using h'(3,4) t by (auto simp: only_links_def same_data_def)
  moreover have "inord (plug cs t) = cbefore cs @ inord l @ inord r @ cafter cs" using t by auto
  ultimately show ?thesis using h'(2) comp_apply [of color h z] by metis
next
  case False
  then obtain rl a rr where r: "r = Nd rl a rr" by (cases r) auto
  have "tree_ok h (Some z) r" using rep by (simp add: rep_def tree_ok_plug)
  from tree_min_spec [OF this [unfolded r]] obtain ds y b where
    y: "r = plug ds (Nd Lf y b)" "tree_min h (ptr r) = Some (Some y)" and min: "cbefore ds = []"
    unfolding r by (metis ptr.simps(2))
  have dist: "distinct (cbefore cs @ inord l @ z # (cbefore ds @ y # inord b @ cafter ds) @ cafter cs)"
    using rep by (simp add: rep_def y(1))
  from succ_splice_rep [OF rep [unfolded y(1)]] obtain h1 root1 where
    sp: "succ_splice h root (Some z) (Some y) = Some (h1, root1, cpar (ds @ [HoleR l y]))"
    and ok: "ctx_ok h1 (Some z) cs" "parent (h1 z) = cpar cs" "left (h1 z) = ptr l" "tree_ok h1 (Some z) l"
      "right (h1 y) = ptr (plug ds b)" "tree_ok h1 (Some y) (plug ds b)"
      "cs \<noteq> [] \<Longrightarrow> root1 = ptr (plug cs (Nd l z (plug ds b)))"
    and h1: "only_links h h1" "\<And>a. a \<notin> set (inord (plug cs (Nd l z r))) \<Longrightarrow> h1 a = h a"
    unfolding y(1) by blast
  have "distinct (cbefore cs @ inord l @ z # y # inord (plug ds b) @ cafter cs)" using dist by auto
  from succ_place_rep [OF this ok] obtain h' root' where
    pl: "succ_place h1 root1 (Some z) (Some y) = Some (h', root')" "rep h' root' (plug cs (Nd l y (plug ds b)))"
      "color \<circ> h' = (color \<circ> h1)(y := (color \<circ> h1) z)"
      "same_data (set (inord (plug cs (Nd l y (plug ds b))))) h1 h'" by auto
  let ?es = "ds @ HoleR l y # cs"
  have "plug (ds @ HoleR l z # cs) (Nd Lf y b) = plug cs (Nd l z r)" by (simp add: y(1) plug_append)
  then have "rb_tree (color \<circ> h) (plug (ds @ HoleR l z # cs) (Nd Lf y b))" using bal by simp
  from splice_bal [OF this, of b] have "spliced (color \<circ> h) (ds @ HoleR l z # cs) b ((color \<circ> h) y)" by simp
  moreover have c1: "color \<circ> h1 = color \<circ> h" using h1(1) by (auto simp: only_links_def)
  ultimately have "spliced (color \<circ> h') ?es b (color (h y))"
    unfolding pl(3) c1 using spliced_take_over [OF _ dist, of "color \<circ> h" "color (h y)"] by simp
  moreover have "rb_unlink h root (Some z) = Some (h', root', ptr b, cpar ?es, color (h y))"
    using rep_node [OF rep] False y(2) sp pl(1) r
      rep_node [of h root "ds @ HoleR l z # cs" Lf y b] rep
    by (cases l) (auto simp: rb_unlink_def y(1) plug_append cpar_append)
  moreover have "same_data (set (inord (plug cs (Nd l z r)))) h h'"
    using h1 pl(4) by (auto simp: only_links_def same_data_def y(1))
  moreover have "rep h' root' (plug ?es b)"
    "inord (plug ?es b) = cbefore cs @ inord l @ inord r @ cafter cs"
    using pl(2) min by (simp_all add: plug_append y(1))
  ultimately show ?thesis by blast
qed

text \<open>\<open>rb_delete\<close> takes out exactly the given node.\<close>

lemma rb_delete_spec:
  assumes rep: "rep h root (plug cs (Nd l z r))" and bal: "rb_tree (color \<circ> h) (plug cs (Nd l z r))"
  shows "\<exists>h' root' t. rb_delete h root (Some z) = Some (h', root') \<and> rep h' root' t \<and>
    inord t = cbefore cs @ inord l @ inord r @ cafter cs \<and> rb_tree (color \<circ> h') t \<and>
    same_data (set (inord (plug cs (Nd l z r)))) h h'"
proof -
  from rb_unlink_spec [OF assms] obtain h1 root1 es t k where
    u: "rb_unlink h root (Some z) = Some (h1, root1, ptr t, cpar es, k)" "rep h1 root1 (plug es t)"
      "inord (plug es t) = cbefore cs @ inord l @ inord r @ cafter cs" "spliced (color \<circ> h1) es t k"
      "same_data (set (inord (plug cs (Nd l z r)))) h h1" by blast
  note fin = spliced_done [OF u(4)]
  show ?thesis
  proof (cases "k = RB_BLACK")
    case True
    with fin have "del_bal (color \<circ> h1) es t" by simp
    from delete_fixup_spec [OF u(2) this] obtain h' root' T where
      f: "delete_fixup h1 root1 (ptr t) (cpar es) = Some (h', root')" "rep h' root' T"
        "inord T = inord (plug es t)" "rb_tree (color \<circ> h') T" "same_data (set (inord (plug es t))) h1 h'" by blast
    have "same_data (set (inord (plug cs (Nd l z r)))) h1 h'"
      using f(5) unfolding u(3) by (auto simp: same_data_def)
    with same_data_trans [OF u(5)] f(1-4) u(1,3) True show ?thesis by (auto simp: rb_delete_def)
  next
    case False
    with fin u show ?thesis by (auto simp: rb_delete_def)
  qed
qed

section \<open>Properties\<close>

text \<open>
  C24 \<open>rb_delete\<close> ends, follows no null pointer and takes exactly the node \<open>z\<close> out of the tree: the
  other nodes keep their order, the tree is a red-black tree again, no payload changes and no
  node outside the tree is touched.
\<close>

theorem rb_delete_exact:
  assumes "rep h root (plug cs (Nd l z r))" "rb_tree (color \<circ> h) (plug cs (Nd l z r))"
  shows "\<exists>h' root' t. rb_delete h root (Some z) = Some (h', root') \<and> rep h' root' t \<and>
    inord t = cbefore cs @ inord l @ inord r @ cafter cs \<and> rb_tree (color \<circ> h') t \<and>
    same_data (set (inord (plug cs (Nd l z r)))) h h'"
  using assms by (rule rb_delete_spec)

theorem rb_delete_exact_witness:
  "\<exists>h' root' t. rb_delete (rb_demo(2 := set_left None (rb_demo 2))) (Some 2) (Some 2) = Some (h', root') \<and>
    rep h' root' t \<and> inord t = []"
proof -
  let ?h = "rb_demo(2 := set_left None (rb_demo 2))"
  have "rep ?h (Some 2) (plug [] (Nd Lf 2 Lf))" "rb_tree (color \<circ> ?h) (plug [] (Nd Lf 2 Lf))"
    by (auto simp: rep_def rb_demo_def rb_tree_def intro!: exI [of _ 1])
  from rb_delete_exact [OF this] show ?thesis by auto
qed

end
