(* ===== verification/Eevdf_Tree.thy ===== *)
theory Eevdf_Tree
  imports RBTree_Delete
begin

text \<open>
  The red-black tree of the run queue, \<open>src/kernel/sched/eevdf.c\<close> lines 51-199 and the unlinking part
  of \<open>eevdf_dequeue\<close>. It is a second implementation of the tree of \<open>src/mm/vmm.c\<close>: it tests children
  in another order, reads parents again instead of keeping them, guards fewer pointers against null
  and leaves its loops by reaching the root instead of by \<open>break\<close>. Every routine is shown to do
  exactly what the one of \<open>RBTree\<close> does on every red-black tree, so that the theorems about that tree
  hold of this one. A colour of 0 in the code is \<open>RB_BLACK\<close>, 1 is \<open>RB_RED\<close>.
\<close>

section \<open>Definitions\<close>

subsection \<open>Rotations\<close>

definition eevdf_rotate_left ::
  "'a rb_heap \<Rightarrow> nat option \<Rightarrow> nat option \<Rightarrow> ('a rb_heap \<times> nat option) option" where
  "eevdf_rotate_left h root x = do {
     y \<leftarrow> ld right h x;
     yl \<leftarrow> ld left h y;
     h \<leftarrow> st (set_right yl) h x;
     yl \<leftarrow> ld left h y;
     h \<leftarrow> (if yl \<noteq> None then st (set_parent x) h yl else Some h);
     xp \<leftarrow> ld parent h x;
     h \<leftarrow> st (set_parent xp) h y;
     (h, root) \<leftarrow> replace_child h root x y;
     h \<leftarrow> st (set_left x) h y;
     h \<leftarrow> st (set_parent y) h x;
     Some (h, root) }"

text \<open>\<open>if (!y->parent) *root = x; else if (y == y->parent->right) ... else ...\<close>\<close>

definition replace_child_right ::
  "'a rb_heap \<Rightarrow> nat option \<Rightarrow> nat option \<Rightarrow> nat option \<Rightarrow> ('a rb_heap \<times> nat option) option" where
  "replace_child_right h root u v = do {
     up \<leftarrow> ld parent h u;
     if up = None then Some (h, v)
     else do {
       upr \<leftarrow> ld right h up;
       h \<leftarrow> (if u = upr then st (set_right v) h up else st (set_left v) h up);
       Some (h, root) } }"

definition eevdf_rotate_right ::
  "'a rb_heap \<Rightarrow> nat option \<Rightarrow> nat option \<Rightarrow> ('a rb_heap \<times> nat option) option" where
  "eevdf_rotate_right h root y = do {
     x \<leftarrow> ld left h y;
     xr \<leftarrow> ld right h x;
     h \<leftarrow> st (set_left xr) h y;
     xr \<leftarrow> ld right h x;
     h \<leftarrow> (if xr \<noteq> None then st (set_parent y) h xr else Some h);
     yp \<leftarrow> ld parent h y;
     h \<leftarrow> st (set_parent yp) h x;
     (h, root) \<leftarrow> replace_child_right h root y x;
     h \<leftarrow> st (set_right y) h x;
     h \<leftarrow> st (set_parent x) h y;
     Some (h, root) }"

subsection \<open>Insertion\<close>

text \<open>
  One iteration of the loop of \<open>insert_fixup\<close>. The two branches are the same text with left and right
  exchanged: \<open>far\<close> is the side of the uncle, \<open>rot_in\<close> and \<open>rot_out\<close> the two rotations.
\<close>

definition eevdf_insert_side ::
  "('a rb_node_scheme \<Rightarrow> nat option) \<Rightarrow> 'a rb_rot \<Rightarrow> 'a rb_rot \<Rightarrow> 'a rb_heap \<Rightarrow> nat option \<Rightarrow> nat option \<Rightarrow>
   ('a rb_heap \<times> nat option \<times> nat option) option" where
  "eevdf_insert_side far rot_in rot_out h root z = do {
     p \<leftarrow> ld parent h z;
     g \<leftarrow> ld parent h p;
     y \<leftarrow> ld far h g;
     if is_red h y then do {
       h \<leftarrow> st (set_color RB_BLACK) h p;
       h \<leftarrow> st (set_color RB_BLACK) h y;
       p \<leftarrow> ld parent h z;
       g \<leftarrow> ld parent h p;
       h \<leftarrow> st (set_color RB_RED) h g;
       p \<leftarrow> ld parent h z;
       g \<leftarrow> ld parent h p;
       Some (h, root, g)
     } else do {
       pf \<leftarrow> ld far h p;
       (h, root, z) \<leftarrow> (if z = pf then do {
           (h, root) \<leftarrow> rot_in h root p;
           Some (h, root, p)
         } else Some (h, root, z));
       p \<leftarrow> ld parent h z;
       h \<leftarrow> st (set_color RB_BLACK) h p;
       p \<leftarrow> ld parent h z;
       g \<leftarrow> ld parent h p;
       h \<leftarrow> st (set_color RB_RED) h g;
       p \<leftarrow> ld parent h z;
       g \<leftarrow> ld parent h p;
       (h, root) \<leftarrow> rot_out h root g;
       Some (h, root, z)
     } }"

definition eevdf_insert_step ::
  "'a rb_heap \<Rightarrow> nat option \<Rightarrow> nat option \<Rightarrow> ('a rb_heap \<times> nat option \<times> nat option) option" where
  "eevdf_insert_step h root z = do {
     p \<leftarrow> ld parent h z;
     g \<leftarrow> ld parent h p;
     gl \<leftarrow> ld left h g;
     if p = gl then eevdf_insert_side right eevdf_rotate_left eevdf_rotate_right h root z
     else eevdf_insert_side left eevdf_rotate_right eevdf_rotate_left h root z }"

partial_function (option) eevdf_insert_loop ::
  "'a rb_heap \<Rightarrow> nat option \<Rightarrow> nat option \<Rightarrow> ('a rb_heap \<times> nat option) option" where
  "eevdf_insert_loop h root z =
     Option.bind (ld parent h z) (\<lambda>p.
       if is_red h p then
         Option.bind (eevdf_insert_step h root z) (\<lambda>(h, root, z). eevdf_insert_loop h root z)
       else Some (h, root))"

definition eevdf_insert_fixup ::
  "'a rb_heap \<Rightarrow> nat option \<Rightarrow> nat option \<Rightarrow> ('a rb_heap \<times> nat option) option" where
  "eevdf_insert_fixup h root z = do {
     (h, root) \<leftarrow> eevdf_insert_loop h root z;
     h \<leftarrow> st (set_color RB_BLACK) h root;
     Some (h, root) }"

subsection \<open>Deletion\<close>

text \<open>\<open>rb_first\<close>\<close>

partial_function (option) rb_first_from :: "'a rb_heap \<Rightarrow> nat option \<Rightarrow> nat option option" where
  "rb_first_from h n = Option.bind (ld left h n) (\<lambda>l. if l \<noteq> None then rb_first_from h l else Some n)"

definition rb_first :: "'a rb_heap \<Rightarrow> nat option \<Rightarrow> nat option option" where
  "rb_first h root = (if root = None then Some None else rb_first_from h root)"

text \<open>
  One iteration of the loop of \<open>delete_fixup\<close> for \<open>x\<close> on the side \<open>near\<close> of \<open>parent\<close>: the next \<open>x\<close> and
  \<open>parent\<close>.
\<close>

definition eevdf_red_sibling ::
  "('a rb_node_scheme \<Rightarrow> nat option) \<Rightarrow> 'a rb_rot \<Rightarrow> 'a rb_heap \<Rightarrow> nat option \<Rightarrow> nat option \<Rightarrow>
   ('a rb_heap \<times> nat option \<times> nat option) option" where
  "eevdf_red_sibling far rot_near h root par = do {
     w \<leftarrow> ld far h par;
     if is_red h w then do {
       h \<leftarrow> st (set_color RB_BLACK) h w;
       h \<leftarrow> st (set_color RB_RED) h par;
       (h, root) \<leftarrow> rot_near h root par;
       w \<leftarrow> ld far h par;
       Some (h, root, w)
     } else Some (h, root, w) }"

definition eevdf_black_sibling ::
  "('a rb_node_scheme \<Rightarrow> nat option) \<Rightarrow> ('a rb_node_scheme \<Rightarrow> nat option) \<Rightarrow> 'a rb_rot \<Rightarrow> 'a rb_rot \<Rightarrow>
   'a rb_heap \<Rightarrow> nat option \<Rightarrow> nat option \<Rightarrow> nat option \<Rightarrow>
   ('a rb_heap \<times> nat option \<times> nat option \<times> nat option) option" where
  "eevdf_black_sibling near far rot_near rot_far h root par w =
     (if w \<noteq> None \<and> is_black h (ld_or None near h w) \<and> is_black h (ld_or None far h w) then do {
        h \<leftarrow> st (set_color RB_RED) h w;
        pp \<leftarrow> ld parent h par;
        Some (h, root, par, pp)
      } else do {
        (h, root, w) \<leftarrow> (if w \<noteq> None \<and> is_black h (ld_or None far h w) then do {
            let h = st_if (set_color RB_BLACK) h (ld_or None near h w);
            h \<leftarrow> st (set_color RB_RED) h w;
            (h, root) \<leftarrow> rot_far h root w;
            w \<leftarrow> ld far h par;
            Some (h, root, w)
          } else Some (h, root, w));
        h \<leftarrow> (if w \<noteq> None then do {
            c \<leftarrow> ld color h par;
            h \<leftarrow> st (set_color c) h w;
            h \<leftarrow> st (set_color RB_BLACK) h par;
            Some (st_if (set_color RB_BLACK) h (ld_or None far h w))
          } else Some h);
        (h, root) \<leftarrow> rot_near h root par;
        Some (h, root, root, par) })"

definition eevdf_delete_side ::
  "('a rb_node_scheme \<Rightarrow> nat option) \<Rightarrow> ('a rb_node_scheme \<Rightarrow> nat option) \<Rightarrow> 'a rb_rot \<Rightarrow> 'a rb_rot \<Rightarrow>
   'a rb_heap \<Rightarrow> nat option \<Rightarrow> nat option \<Rightarrow> ('a rb_heap \<times> nat option \<times> nat option \<times> nat option) option" where
  "eevdf_delete_side near far rot_near rot_far h root par = do {
     (h, root, w) \<leftarrow> eevdf_red_sibling far rot_near h root par;
     eevdf_black_sibling near far rot_near rot_far h root par w }"

partial_function (option) eevdf_delete_loop ::
  "'a rb_heap \<Rightarrow> nat option \<Rightarrow> nat option \<Rightarrow> nat option \<Rightarrow> ('a rb_heap \<times> nat option \<times> nat option) option" where
  "eevdf_delete_loop h root x par =
     (if x \<noteq> root \<and> is_black h x then
        Option.bind (ld left h par) (\<lambda>pl.
          Option.bind (if x = pl then eevdf_delete_side left right eevdf_rotate_left eevdf_rotate_right h root par
                       else eevdf_delete_side right left eevdf_rotate_right eevdf_rotate_left h root par)
            (\<lambda>(h, root, x, par). eevdf_delete_loop h root x par))
      else Some (h, root, x))"

definition eevdf_delete_fixup ::
  "'a rb_heap \<Rightarrow> nat option \<Rightarrow> nat option \<Rightarrow> nat option \<Rightarrow> ('a rb_heap \<times> nat option) option" where
  "eevdf_delete_fixup h root x par = do {
     (h, root, x) \<leftarrow> eevdf_delete_loop h root x par;
     Some (st_if (set_color RB_BLACK) h x, root) }"

text \<open>
  The unlinking part of \<open>eevdf_dequeue\<close>: the new tree, \<open>x\<close>, \<open>x_parent\<close> and \<open>y_color\<close>. The successor
  \<open>y\<close> of a node with two children is found by going left from its right child.
\<close>

definition eevdf_splice ::
  "'a rb_heap \<Rightarrow> nat option \<Rightarrow> nat option \<Rightarrow> ('a rb_heap \<times> nat option) option" where
  "eevdf_splice h node y = do {
     yp \<leftarrow> ld parent h y;
     if yp = node then Some (h, y)
     else do {
       yr \<leftarrow> ld right h y;
       let h = st_if (set_parent yp) h yr;
       h \<leftarrow> st (set_left yr) h yp;
       nr \<leftarrow> ld right h node;
       h \<leftarrow> st (set_right nr) h y;
       yr \<leftarrow> ld right h y;
       h \<leftarrow> st (set_parent y) h yr;
       yp \<leftarrow> ld parent h y;
       Some (h, yp) } }"

definition eevdf_place ::
  "'a rb_heap \<Rightarrow> nat option \<Rightarrow> nat option \<Rightarrow> nat option \<Rightarrow> ('a rb_heap \<times> nat option) option" where
  "eevdf_place h root node y = do {
     (h, root) \<leftarrow> replace_child h root node y;
     np \<leftarrow> ld parent h node;
     h \<leftarrow> st (set_parent np) h y;
     nc \<leftarrow> ld color h node;
     h \<leftarrow> st (set_color nc) h y;
     nl \<leftarrow> ld left h node;
     h \<leftarrow> st (set_left nl) h y;
     yl \<leftarrow> ld left h y;
     h \<leftarrow> st (set_parent y) h yl;
     Some (h, root) }"

definition eevdf_unlink ::
  "'a rb_heap \<Rightarrow> nat option \<Rightarrow> nat option \<Rightarrow>
   ('a rb_heap \<times> nat option \<times> nat option \<times> nat option \<times> rb_color_t) option" where
  "eevdf_unlink h root node = do {
     y_color \<leftarrow> ld color h node;
     nl \<leftarrow> ld left h node;
     nr \<leftarrow> ld right h node;
     np \<leftarrow> ld parent h node;
     if nl = None then do {
       (h, root) \<leftarrow> replace_child h root node nr;
       Some (st_if (set_parent np) h nr, root, nr, np, y_color)
     } else if nr = None then do {
       (h, root) \<leftarrow> replace_child h root node nl;
       h \<leftarrow> st (set_parent np) h nl;
       Some (h, root, nl, np, y_color)
     } else do {
       y \<leftarrow> rb_first_from h nr;
       y_color \<leftarrow> ld color h y;
       x \<leftarrow> ld right h y;
       (h, x_parent) \<leftarrow> eevdf_splice h node y;
       (h, root) \<leftarrow> eevdf_place h root node y;
       Some (h, root, x, x_parent, y_color) } }"

definition eevdf_remove ::
  "'a rb_heap \<Rightarrow> nat option \<Rightarrow> nat option \<Rightarrow> ('a rb_heap \<times> nat option) option" where
  "eevdf_remove h root node = do {
     (h, root, x, x_parent, y_color) \<leftarrow> eevdf_unlink h root node;
     if y_color = RB_BLACK then eevdf_delete_fixup h root x x_parent else Some (h, root) }"

subsection \<open>Used in the proofs\<close>

text \<open>The result of a loop body without the flag that leaves the loop.\<close>

abbreviation drop_stop :: "('a rb_heap \<times> nat option \<times> nat option \<times> nat option \<times> bool) option \<Rightarrow>
    ('a rb_heap \<times> nat option \<times> nat option \<times> nat option) option" where
  "drop_stop \<equiv> map_option (\<lambda>(h, root, x, xp, stop). (h, root, x, xp))"

text \<open>Rotations that agree with those of the side on its trees.\<close>

definition same_rot :: "('a rb_heap \<Rightarrow> nat option \<Rightarrow> atree \<Rightarrow> bool) \<Rightarrow> 'a rb_rot \<Rightarrow> 'a rb_rot \<Rightarrow> bool" where
  "same_rot tree f g \<longleftrightarrow> (\<forall>h root t x. tree h root t \<longrightarrow> x \<in> set (inord t) \<longrightarrow> f h root (Some x) = g h root (Some x))"

section \<open>Lemmas\<close>

subsection \<open>Rotations\<close>

lemma eevdf_rotate_left_eq: "eevdf_rotate_left = rotate_left"
  by (simp add: fun_eq_iff eevdf_rotate_left_def rotate_left_def)

lemma rep_sides:
  assumes "rep h root t" "x \<in> set (inord t)" "parent (h x) = Some a"
  shows "a \<noteq> x" "left (h a) = Some x \<longleftrightarrow> right (h a) \<noteq> Some x"
proof -
  obtain cs l r where t: "t = plug cs (Nd l x r)" using plug_at [OF assms(2)] by blast
  note rep = assms(1) [unfolded t]
  have "parent (h x) = cpar cs" using rep_node [OF rep] by simp
  with assms(3) have "cpar cs = Some a" by simp
  then consider (L) s cs' where "cs = HoleL a s # cs'" | (R) s cs' where "cs = HoleR s a # cs'"
    by (cases cs rule: cpar.cases) auto
  then have "a \<noteq> x \<and> (left (h a) = Some x \<longleftrightarrow> right (h a) \<noteq> Some x)"
  proof cases
    case L
    then have "left (h a) = Some x" "right (h a) = ptr s" "a \<noteq> x" "x \<notin> set (inord s)"
      using rep rep_node [of h root cs' "Nd l x r" a s] by (auto simp: rep_def)
    then show ?thesis by (cases s) auto
  next
    case R
    then have "left (h a) = ptr s" "right (h a) = Some x" "a \<noteq> x" "x \<notin> set (inord s)"
      using rep rep_node [of h root cs' s a "Nd l x r"] by (auto simp: rep_def)
    then show ?thesis by (cases s) auto
  qed
  then show "a \<noteq> x" "left (h a) = Some x \<longleftrightarrow> right (h a) \<noteq> Some x" by auto
qed

lemma replace_child_eq:
  assumes "rep h root t" "x \<in> set (inord t)" "parent (h' x) = parent (h x)"
    and "\<forall>a. a \<noteq> x \<longrightarrow> left (h' a) = left (h a) \<and> right (h' a) = right (h a)"
  shows "replace_child_right h' root (Some x) v = replace_child h' root (Some x) v"
proof (cases "parent (h x)")
  case None
  with assms(3) show ?thesis by (simp add: replace_child_right_def replace_child_def)
next
  case (Some a)
  from rep_sides [OF assms(1,2) this] assms(4) have "left (h' a) = Some x \<longleftrightarrow> right (h' a) \<noteq> Some x" by simp
  then show ?thesis using Some assms(3)
    by (cases "left (h' a) = Some x") (simp_all add: replace_child_right_def replace_child_def eq_commute [of "Some x"])
qed

lemma eevdf_rotate_right_eq:
  assumes "rep h root t" "x \<in> set (inord t)"
  shows "eevdf_rotate_right h root (Some x) = rotate_right h root (Some x)"
proof -
  obtain cs l r where t: "t = plug cs (Nd l x r)" using plug_at [OF assms(2)] by blast
  note eq = replace_child_eq [OF assms]
  show ?thesis
  proof (cases l)
    case Lf
    then show ?thesis using rep_node [OF assms(1) [unfolded t]] by (simp add: eevdf_rotate_right_def rotate_right_def)
  next
    case (Nd a y b)
    have y: "left (h x) = Some y" "right (h y) = ptr b" "y \<noteq> x" "ptr b \<noteq> Some x" "ptr b \<noteq> Some y"
      using rep_node [OF assms(1) [unfolded t]] rep_node [of h root "HoleL x r # cs" a y b] assms(1)
      by (auto simp: t Nd rep_def) (cases b; auto)+
    then show ?thesis
      by (cases "ptr b") (auto simp: eevdf_rotate_right_def rotate_right_def eq)
  qed
qed

subsection \<open>Insertion\<close>

lemma eevdf_step_LL:
  assumes rep: "rep h root (plug (HoleL p s # HoleL g u # cs) (Nd l z r))"
  shows "eevdf_insert_step h root (Some z) = insert_fixup_step h root (Some z)"
proof -
  let ?h = "h(p := set_color RB_BLACK (h p), g := set_color RB_RED (h g))"
  from rep have d: "distinct [z, p, g]" and sz: "ptr s \<noteq> Some z" by (auto simp: rep_def, cases s, auto)
  have n: "parent (h z) = Some p" "parent (h p) = Some g" "left (h g) = Some p" "right (h g) = ptr u" "right (h p) = ptr s"
    using rep_node [OF rep] rep_node [of h root "HoleL g u # cs" "Nd l z r" p s] rep_node [of h root cs "Nd (Nd l z r) p s" g u] rep by auto
  have u: "ptr u \<noteq> Some z" "ptr u \<noteq> Some p" "ptr u \<noteq> Some g" using rep by (cases u; auto simp: rep_def)+
  have "rep ?h root (plug cs (Nd (Nd (Nd l z r) p s) g u))"
    using rep d by (subst rep_links_cong [of _ h]) auto
  from eevdf_rotate_right_eq [OF this, of g] d n sz u show ?thesis
    by (cases "ptr u") (auto simp: eevdf_insert_step_def eevdf_insert_side_def insert_fixup_step_def eevdf_rotate_left_eq eq_commute [of "Some z"])
qed

lemma eevdf_step_RL:
  assumes rep: "rep h root (plug (HoleR s p # HoleL g u # cs) (Nd l z r))"
  shows "eevdf_insert_step h root (Some z) = insert_fixup_step h root (Some z)"
proof -
  from rep have d: "distinct [z, p, g]" by (auto simp: rep_def)
  from rep have "rep h root (plug (HoleL g u # cs) (Nd s p (Nd l z r)))" by simp
  from rotate_left_rep [OF this] obtain h1 root1 where
    rot1: "rotate_left h root (Some p) = Some (h1, root1)" "rep h1 root1 (plug (HoleL g u # cs) (Nd (Nd s p l) z r))" by blast
  let ?h = "h1(z := set_color RB_BLACK (h1 z), g := set_color RB_RED (h1 g))"
  have rep': "rep ?h root1 (plug cs (Nd (Nd (Nd s p l) z r) g u))"
    using rot1(2) d by (subst rep_links_cong [of _ h1]) auto
  have n: "parent (h z) = Some p" "parent (h p) = Some g" "left (h g) = Some p" "right (h g) = ptr u" "right (h p) = Some z"
    using rep_node [OF rep] rep_node [of h root "HoleL g u # cs" s p "Nd l z r"] rep_node [of h root cs "Nd s p (Nd l z r)" g u] rep by auto
  have n1: "parent (h1 p) = Some z" "parent (h1 z) = Some g"
    using rep_node [OF rot1(2)] rep_node [of h1 root1 "HoleL z r # HoleL g u # cs" s p l] rot1(2) by auto
  have u: "ptr u \<noteq> Some z" "ptr u \<noteq> Some p" "ptr u \<noteq> Some g" using rep by (cases u; auto simp: rep_def)+
  from eevdf_rotate_right_eq [OF rep', of g] d n n1 rot1(1) u show ?thesis
    by (cases "ptr u") (auto simp: eevdf_insert_step_def eevdf_insert_side_def insert_fixup_step_def eevdf_rotate_left_eq)
qed

lemma eevdf_step_RR:
  assumes rep: "rep h root (plug (HoleR s p # HoleR u g # cs) (Nd l z r))"
  shows "eevdf_insert_step h root (Some z) = insert_fixup_step h root (Some z)"
proof -
  from rep have d: "distinct [z, p, g]" and sz: "ptr s \<noteq> Some z" by (auto simp: rep_def, cases s, auto)
  have n: "parent (h z) = Some p" "parent (h p) = Some g" "right (h g) = Some p" "left (h g) = ptr u" "left (h p) = ptr s"
    using rep_node [OF rep] rep_node [of h root "HoleR u g # cs" s p "Nd l z r"] rep_node [of h root cs u g "Nd s p (Nd l z r)"] rep by auto
  have u: "ptr u \<noteq> Some z" "ptr u \<noteq> Some p" "ptr u \<noteq> Some g" using rep by (cases u; auto simp: rep_def)+
  from d n sz u show ?thesis
    by (cases "ptr u") (auto simp: eevdf_insert_step_def eevdf_insert_side_def insert_fixup_step_def eevdf_rotate_left_eq eq_commute [of "Some z"])
qed

lemma eevdf_step_LR:
  assumes rep: "rep h root (plug (HoleL p s # HoleR u g # cs) (Nd l z r))"
  shows "eevdf_insert_step h root (Some z) = insert_fixup_step h root (Some z)"
proof -
  from rep have d: "distinct [z, p, g]" by (auto simp: rep_def)
  have rep1: "rep h root (plug (HoleR u g # cs) (Nd (Nd l z r) p s))" using rep by simp
  from rotate_right_rep [OF rep1] obtain h1 root1 where
    rot1: "rotate_right h root (Some p) = Some (h1, root1)" "rep h1 root1 (plug (HoleR u g # cs) (Nd l z (Nd r p s)))" by blast
  have n: "parent (h z) = Some p" "parent (h p) = Some g" "right (h g) = Some p" "left (h g) = ptr u" "left (h p) = Some z"
    using rep_node [OF rep] rep_node [of h root "HoleR u g # cs" "Nd l z r" p s] rep_node [of h root cs u g "Nd (Nd l z r) p s"] rep by auto
  have n1: "parent (h1 p) = Some z" "parent (h1 z) = Some g"
    using rep_node [OF rot1(2)] rep_node [of h1 root1 "HoleR l z # HoleR u g # cs" r p s] rot1(2) by auto
  have u: "ptr u \<noteq> Some z" "ptr u \<noteq> Some p" "ptr u \<noteq> Some g" using rep by (cases u; auto simp: rep_def)+
  from eevdf_rotate_right_eq [OF rep1, of p] d n n1 rot1(1) u show ?thesis
    by (cases "ptr u") (auto simp: eevdf_insert_step_def eevdf_insert_side_def insert_fixup_step_def eevdf_rotate_left_eq)
qed

lemma eevdf_insert_step_eq:
  assumes "ins_inv h root cs l z r" "is_red h (cpar cs)"
  shows "eevdf_insert_step h root (Some z) = insert_fixup_step h root (Some z)"
proof -
  have rep: "rep h root (plug cs (Nd l z r))" and top: "ctop (color \<circ> h) cs" using assms(1) by (simp_all add: ins_inv_def)
  obtain f f' cs' where "cs = f # f' # cs'"
    using assms(2) top by (cases cs rule: cpar.cases) (auto split: if_splits simp: neq_Nil_conv)
  with rep show ?thesis
    by (cases f; cases f') (auto intro: eevdf_step_LL eevdf_step_RL eevdf_step_RR eevdf_step_LR)
qed

lemma eevdf_insert_loop_eq:
  "ins_inv h root cs l z r \<Longrightarrow> eevdf_insert_loop h root (Some z) = insert_fixup_loop h root (Some z)"
proof (induction "length cs" arbitrary: h root cs l z r rule: less_induct)
  case less
  have par: "parent (h z) = cpar cs" using less.prems rep_node [of h root cs l z r] by (simp add: ins_inv_def)
  show ?case
  proof (cases "is_red h (cpar cs)")
    case True
    from ins_next [OF less.prems True] obtain h1 root1 cs1 l1 z1 r1 where
      step: "insert_fixup_step h root (Some z) = Some (h1, root1, Some z1)" "length cs1 < length cs" "ins_inv h1 root1 cs1 l1 z1 r1"
      unfolding ins_next_def by blast
    with eevdf_insert_step_eq [OF less.prems True] less.hyps [OF step(2,3)] True par show ?thesis
      by (subst eevdf_insert_loop.simps, subst insert_fixup_loop.simps) simp
  next
    case False
    with par show ?thesis by (subst eevdf_insert_loop.simps, subst insert_fixup_loop.simps) simp
  qed
qed

lemma eevdf_insert_fixup_eq: "ins_inv h root cs l z r \<Longrightarrow> eevdf_insert_fixup h root (Some z) = insert_fixup h root (Some z)"
  by (simp add: eevdf_insert_fixup_def insert_fixup_def eevdf_insert_loop_eq)

subsection \<open>The repair after a deletion\<close>

lemma drop_stop_bind: "drop_stop (Option.bind x (\<lambda>(h, r). Some (h, r, r, q, True))) = Option.bind x (\<lambda>(h, r). Some (h, r, r, q))"
  by (cases x) auto

context rb_side
begin

lemma paint_if: "tree (st_if (set_color k) h x) root t = tree h root t"
  by (cases x) (simp_all add: paint)

lemma eevdf_final_eq:
  assumes "tree h root T" "p \<in> set (inord T)" "same_rot tree rn rot_near" "p \<noteq> w"
  shows "rn (st_if (set_color k1) (h(w := set_color k2 (h w), p := set_color k3 (h p))) x) root (Some p) =
    rot_near (st_if (set_color k1) (h(w := set_color k2 (h w), p := set_color k3 (h p))) x) root (Some p)"
proof -
  let ?h = "h(w := set_color k2 (h w))"
  have "tree (st_if (set_color k1) (?h(p := set_color k3 (?h p))) x) root T"
    using assms(1) by (simp only: paint_if paint)
  with assms(2-4) show ?thesis by (simp add: same_rot_def)
qed

lemma eevdf_body_eq:
  assumes t: "tree h root (plug (HoleL p (Nd a w b) # cs) t)"
    and rots: "same_rot tree rn rot_near" "same_rot tree rf rot_far"
  shows "eevdf_black_sibling near far rn rf h root (Some p) (Some w) =
    drop_stop (fix_black_sibling near far rot_near rot_far h root (Some p) (Some w))"
proof -
  from t have d: "p \<noteq> w" using wf [OF t] by auto
  have nw: "near (h w) = ptr a" "far (h w) = ptr b"
    using node [of h root "HoleR t p # cs" a w b] t by auto
  show ?thesis
  proof (cases "is_black h (ptr a) \<or> \<not> is_black h (ptr b)")
    case True
    then show ?thesis using nw d eevdf_final_eq [OF t _ rots(1) d]
      by (auto simp: eevdf_black_sibling_def fix_black_sibling_def fix_far_child_def drop_stop_bind)
  next
    case False
    then obtain al y ar where a: "a = Nd al y ar" by (cases a) auto
    let ?h1 = "h(y := set_color RB_BLACK (h y))"
    let ?h2 = "?h1(w := set_color RB_RED (?h1 w))"
    have h2: "tree ?h2 root (plug (HoleR t p # cs) (Nd (Nd al y ar) w b))"
      using t by (simp only: paint) (simp add: a)
    from rot_far [OF this] obtain h' root' where
      rot: "rot_far ?h2 root (Some w) = Some (h', root')" "tree h' root' (plug (HoleR t p # cs) (Nd al y (Nd ar w b)))" by blast
    have "rf ?h2 root (Some w) = Some (h', root')"
    proof -
      have "w \<in> set (inord (plug (HoleR t p # cs) (Nd (Nd al y ar) w b)))" by simp
      with rots(2) h2 rot(1) show ?thesis unfolding same_rot_def by metis
    qed
    moreover have "far (h' p) = Some y" "p \<noteq> y" using node [of h' root' cs t p "Nd al y (Nd ar w b)"] rot(2) wf [OF rot(2)] by auto
    ultimately show ?thesis using False nw rot(1) a d eevdf_final_eq [OF rot(2) _ rots(1), of p y]
      by (auto simp: eevdf_black_sibling_def fix_black_sibling_def fix_far_child_def drop_stop_bind)
  qed
qed

lemma eevdf_side_eq:
  assumes t: "tree h root (plug (HoleL p s # cs) t)" and bal: "del_bal (color \<circ> h) (HoleL p s # cs) t"
    and rots: "same_rot tree rn rot_near" "same_rot tree rf rot_far"
  shows "eevdf_delete_side near far rn rf h root (Some p) =
    drop_stop (delete_fixup_side near far rot_near rot_far h root (Some p))"
proof -
  note d = conjunct2 [OF wf [OF t]]
  obtain a w b where s: "s = Nd a w b" using bal by (cases s) (auto simp: del_bal_def)
  have far: "far (h p) = Some w" using node [of h root cs t p s] t s by simp
  show ?thesis
  proof (cases "color (h w) = RB_BLACK")
    case True
    then show ?thesis using far eevdf_body_eq [of h root p a w b cs t, OF _ rots] t
      by (simp add: eevdf_delete_side_def delete_fixup_side_def eevdf_red_sibling_def fix_red_sibling_def s)
  next
    case False
    then obtain al v ar where v: "a = Nd al v ar"
      using bal_sibling_red [OF bal [unfolded s]] d s by auto
    from sibling_red [OF t [unfolded s v]] False obtain h1 root1 where
      r1: "fix_red_sibling far rot_near h root (Some p) = Some (h1, root1, Some v)"
      "tree h1 root1 (plug (HoleL p (Nd al v ar) # HoleL w b # cs) t)" by auto
    let ?h = "h(w := set_color RB_BLACK (h w), p := set_color RB_RED ((h(w := set_color RB_BLACK (h w))) p))"
    have "tree ?h root (plug (HoleL p s # cs) t)" using t by (simp only: paint)
    moreover have "p \<in> set (inord (plug (HoleL p s # cs) t))" by simp
    ultimately have "rn ?h root (Some p) = rot_near ?h root (Some p)" using rots(1) unfolding same_rot_def by metis
    then have "eevdf_red_sibling far rn h root (Some p) = fix_red_sibling far rot_near h root (Some p)"
      using far by (simp add: eevdf_red_sibling_def fix_red_sibling_def)
    with r1 eevdf_body_eq [OF r1(2) rots] show ?thesis
      by (simp add: eevdf_delete_side_def delete_fixup_side_def)
  qed
qed

end

lemma same_rots:
  "same_rot rep eevdf_rotate_left rotate_left" "same_rot rep eevdf_rotate_right rotate_right"
  "same_rot (\<lambda>h root t. rep h root (mtree t)) eevdf_rotate_left rotate_left"
  "same_rot (\<lambda>h root t. rep h root (mtree t)) eevdf_rotate_right rotate_right"
proof -
  show "same_rot (\<lambda>h root t. rep h root (mtree t)) eevdf_rotate_right rotate_right"
    unfolding same_rot_def by (metis eevdf_rotate_right_eq inord_mtree set_rev)
qed (use eevdf_rotate_right_eq in \<open>auto simp: same_rot_def eevdf_rotate_left_eq\<close>)

lemma eevdf_delete_step_eq:
  assumes rep: "rep h root (plug (f # cs) t)" and bal: "del_bal (color \<circ> h) (f # cs) t"
  shows "Option.bind (ld left h (cpar (f # cs))) (\<lambda>pl.
      if ptr t = pl then eevdf_delete_side left right eevdf_rotate_left eevdf_rotate_right h root (cpar (f # cs))
      else eevdf_delete_side right left eevdf_rotate_right eevdf_rotate_left h root (cpar (f # cs))) =
    drop_stop (delete_fixup_step h root (ptr t) (cpar (f # cs)))"
proof (cases f)
  case (HoleL p s)
  with left_side.eevdf_side_eq [of h root p s cs t, OF _ _ same_rots(1,2)] rep_node [of h root cs t p s] rep bal show ?thesis
    by (simp add: delete_fixup_step_def)
next
  case (HoleR s p)
  let ?m = "plug (HoleL p (mtree s) # map mframe cs) (mtree t)"
  have m: "mtree ?m = plug (f # cs) t" by (simp add: HoleR plug_mtree del: plug.simps)
  obtain a w b where s: "s = Nd a w b" using bal HoleR by (cases s) (auto simp: del_bal_def)
  have ne: "ptr t \<noteq> ptr s" using rep HoleR s by (cases t) (auto simp: rep_def)
  have "eevdf_delete_side right left eevdf_rotate_right eevdf_rotate_left h root (Some p) =
      drop_stop (delete_fixup_side right left rotate_right rotate_left h root (Some p))"
    by (rule right_side.eevdf_side_eq [where s = "mtree s" and cs = "map mframe cs" and t = "mtree t", OF _ _ same_rots(4,3)])
       (use rep bal m HoleR del_bal_mirror [of _ "f # cs" t] in simp_all)
  then show ?thesis
    using ne rep_node [of h root cs s p t] rep HoleR by (simp add: delete_fixup_step_def)
qed

lemma eevdf_delete_loop_eq:
  "rep h root (plug cs t) \<Longrightarrow> del_bal (color \<circ> h) cs t \<Longrightarrow>
   eevdf_delete_loop h root (ptr t) (cpar cs) = delete_fixup_loop h root (ptr t) (cpar cs)"
proof (induction "length cs + (if blk (color \<circ> h) t then 1 else 0)" arbitrary: h root cs t rule: less_induct)
  case less
  note rep = less.prems(1) and bal = less.prems(2)
  show ?case
  proof (cases "ptr t \<noteq> root \<and> is_black h (ptr t)")
    case True
    then obtain f cs0 where cs: "cs = f # cs0" using rep by (cases cs) (auto simp: rep_def)
    have b: "blk (color \<circ> h) t" using True by (cases t) auto
    from delete_fixup_step_res [OF rep [unfolded cs] bal [unfolded cs] b] obtain h1 root1 x xp stop cs1 t1 where
      step: "delete_fixup_step h root (ptr t) (cpar cs) = Some (h1, root1, x, xp, stop)"
      and r: "rep h1 root1 (plug cs1 t1)"
      and go: "if stop then x = root1 \<and> rb_tree (color \<circ> h1) (plug cs1 t1)
        else x = ptr t1 \<and> xp = cpar cs1 \<and> del_bal (color \<circ> h1) cs1 t1 \<and>
          length cs1 + (if blk (color \<circ> h1) t1 then 1 else 0) < length cs0 + 2"
      unfolding side_res_def cs by blast
    obtain p where p: "cpar cs = Some p" using cs by (cases f) auto
    have estep: "(if ptr t = left (h p) then eevdf_delete_side left right eevdf_rotate_left eevdf_rotate_right h root (Some p)
        else eevdf_delete_side right left eevdf_rotate_right eevdf_rotate_left h root (Some p)) = Some (h1, root1, x, xp)"
      using eevdf_delete_step_eq [OF rep [unfolded cs] bal [unfolded cs], folded cs, unfolded p] step [unfolded p] by simp
    have e: "eevdf_delete_loop h root (ptr t) (cpar cs) = eevdf_delete_loop h1 root1 x xp"
      using True estep p by (subst eevdf_delete_loop.simps) (simp split: if_splits)
    show ?thesis
    proof (cases stop)
      case True
      with go have "x = root1" by simp
      then have "eevdf_delete_loop h1 root1 x xp = Some (h1, root1, x)" by (subst eevdf_delete_loop.simps) simp
      with e True step \<open>ptr t \<noteq> root \<and> is_black h (ptr t)\<close> show ?thesis by (subst delete_fixup_loop.simps) simp
    next
      case False
      then have "length cs1 + (if blk (color \<circ> h1) t1 then 1 else 0) < length cs + (if blk (color \<circ> h) t then 1 else 0)"
        using go b by (simp add: cs)
      with less.hyps [of cs1 h1 t1 root1] False go r e step \<open>ptr t \<noteq> root \<and> is_black h (ptr t)\<close> show ?thesis
        by (subst delete_fixup_loop.simps) simp
    qed
  next
    case False
    then show ?thesis by (subst eevdf_delete_loop.simps, subst delete_fixup_loop.simps) (simp only: if_False)
  qed
qed

subsection \<open>Taking the node out\<close>

lemma rb_first_eq:
  "tree_ok h par (Nd l a r) \<Longrightarrow> rb_first_from h (Some a) = tree_min h (Some a)"
proof (induction l arbitrary: par a r)
  case Lf
  then show ?case by (subst rb_first_from.simps, subst tree_min.simps) simp
next
  case (Nd ll v lr)
  then have "rb_first_from h (Some v) = tree_min h (Some v)" "left (h a) = Some v" by auto
  then show ?case by (subst rb_first_from.simps, subst tree_min.simps) simp
qed

lemma left_color: "left_update f (color_update g n) = color_update g (left_update f n)"
  by (cases n) simp

lemma eevdf_place_eq:
  assumes "left (h z) = Some a" "a \<noteq> y" "a \<noteq> z" "y \<noteq> z" "parent (h z) \<noteq> Some z" "parent (h z) \<noteq> Some y"
  shows "eevdf_place h root (Some z) (Some y) = succ_place h root (Some z) (Some y)"
proof -
  have "\<exists>h1 root1. replace_child h root (Some z) (Some y) = Some (h1, root1)"
    by (cases "parent (h z)") (auto simp: replace_child_def)
  then obtain h1 root1 where r: "replace_child h root (Some z) (Some y) = Some (h1, root1)" by blast
  have "left (h1 z) = Some a"
    using r assms by (cases "parent (h z)") (auto simp: replace_child_def split: if_splits)
  with assms(2-4) r show ?thesis
    by (simp add: eevdf_place_def succ_place_def transplant_def Let_def fun_upd_twist left_color)
qed

lemma eevdf_splice_eq:
  assumes rep: "rep h root (plug cs (Nd l z (plug ds (Nd Lf y b))))" and min: "cbefore ds = []"
  shows "\<exists>h' root' xp. succ_splice h root (Some z) (Some y) = Some (h', root', xp) \<and>
    eevdf_splice h (Some z) (Some y) = Some (h', xp) \<and> root' = root"
proof (cases "ds = []")
  case True
  then have "parent (h y) = Some z" "tree_ok h (Some y) b" "right (h y) = ptr b"
    using rep by (simp_all add: rep_def tree_ok_plug)
  then show ?thesis by (simp add: succ_splice_def eevdf_splice_def reparent_same)
next
  case False
  have rep': "rep h root (plug (ds @ HoleR l z # cs) (Nd Lf y b))" using rep by (simp add: plug_append)
  obtain a s ds' where ds: "ds = HoleL a s # ds'" using False min by (cases ds rule: cpar.cases) auto
  have d: "distinct (cbefore cs @ inord l @ z # (cbefore ds @ y # inord b @ cafter ds) @ cafter cs)"
    using rep by (simp add: rep_def)
  then have ne: "a \<noteq> z" "a \<noteq> y" "y \<noteq> z" "ptr b \<noteq> Some a" "ptr b \<noteq> Some y" "ptr b \<noteq> Some z"
    by (auto simp: ds) (cases b; auto)+
  have n: "right (h y) = ptr b" "parent (h y) = Some a" "left (h a) = Some y" "right (h z) = ptr (plug ds (Nd Lf y b))"
    using rep_node [OF rep'] rep_node [of h root "ds' @ HoleR l z # cs" "Nd Lf y b" a s] rep_node [OF rep] rep' by (auto simp: ds)
  obtain c where c: "ptr (plug ds (Nd Lf y b)) = Some c"
    by (cases "plug ds (Nd Lf y b)") (auto dest: arg_cong [of _ _ inord])
  then have "ptr (plug ds Lf) = Some c" using ptr_plug_Cons [OF False] by metis
  then have "c \<in> set (inord (plug ds Lf))" by (cases "plug ds Lf") auto
  then have cy: "c \<noteq> y" using d by auto
  show ?thesis
    using ne n c cy
    by (cases "ptr b") (auto simp: succ_splice_def eevdf_splice_def transplant_def replace_child_def Let_def fun_upd_twist)
qed

lemma eevdf_unlink_eq:
  assumes rep: "rep h root (plug cs (Nd l z r))"
  shows "eevdf_unlink h root (Some z) = rb_unlink h root (Some z)"
proof (cases "l = Lf \<or> r = Lf")
  case True
  have n: "left (h z) = ptr l" "right (h z) = ptr r" "parent (h z) = cpar cs" using rep_node [OF rep] by auto
  have ne: "cpar cs \<noteq> Some z" using rep cpar_mem [of cs z] by (auto simp: rep_def)
  have up: "parent (h1 z) = cpar cs" if "replace_child h root (Some z) v = Some (h1, root1)" for h1 root1 v
    using that n(3) ne by (cases "cpar cs") (auto simp: replace_child_def split: if_splits)
  have "Option.bind (replace_child h root (Some z) v) (\<lambda>(h, root). Some (st_if (set_parent (cpar cs)) h v, root)) =
      transplant h root (Some z) v" for v
    using up by (cases "replace_child h root (Some z) v") (auto simp: transplant_def)
  then show ?thesis
    using True n by (cases l; cases r) (auto simp: eevdf_unlink_def rb_unlink_def transplant_def up split: option.splits bind_splits)
next
  case False
  then obtain ll a lr rl c rr where lr: "l = Nd ll a lr" "r = Nd rl c rr" by (cases l; cases r) auto
  have ok: "tree_ok h (Some z) r" using rep by (simp add: rep_def tree_ok_plug)
  from tree_min_spec [OF this [unfolded lr(2)]] obtain ds y b where
    y: "r = plug ds (Nd Lf y b)" "tree_min h (ptr r) = Some (Some y)" and min: "cbefore ds = []"
    unfolding lr(2) by (metis ptr.simps(2))
  have n: "left (h z) = Some a" "right (h z) = ptr r" using rep_node [OF rep] lr by auto
  have first: "rb_first_from h (ptr r) = Some (Some y)" using rb_first_eq ok y(2) lr(2) by fastforce
  from eevdf_splice_eq [OF rep [unfolded y(1)] min] succ_splice_rep [OF rep [unfolded y(1)]] obtain h1 xp where
    sp: "succ_splice h root (Some z) (Some y) = Some (h1, root, xp)" "eevdf_splice h (Some z) (Some y) = Some (h1, xp)"
      "parent (h1 z) = cpar cs" "left (h1 z) = ptr l" by fastforce
  have d: "distinct (cbefore cs @ inord l @ z # (cbefore ds @ y # inord b @ cafter ds) @ cafter cs)"
    using rep by (simp add: rep_def y(1))
  then have "cpar cs \<noteq> Some z" "cpar cs \<noteq> Some y" using cpar_mem [of cs z] cpar_mem [of cs y] by auto
  moreover have "a \<noteq> y" "a \<noteq> z" "y \<noteq> z" using d lr by auto
  ultimately have "eevdf_place h1 root (Some z) (Some y) = succ_place h1 root (Some z) (Some y)"
    using sp(3,4) lr(1) by (intro eevdf_place_eq) auto
  then show ?thesis using n first y(2) sp(1,2) lr(2)
    by (cases "parent (h z)") (simp_all add: eevdf_unlink_def rb_unlink_def)
qed

text \<open>Taking a node out of a red-black tree is what \<open>rb_delete\<close> does.\<close>

lemma eevdf_remove_eq:
  assumes rep: "rep h root (plug cs (Nd l z r))" and bal: "rb_tree (color \<circ> h) (plug cs (Nd l z r))"
  shows "eevdf_remove h root (Some z) = rb_delete h root (Some z)"
proof -
  from rb_unlink_spec [OF assms] obtain h1 root1 es t k where
    u: "rb_unlink h root (Some z) = Some (h1, root1, ptr t, cpar es, k)" "rep h1 root1 (plug es t)" "spliced (color \<circ> h1) es t k" by blast
  have "eevdf_delete_fixup h1 root1 (ptr t) (cpar es) = delete_fixup h1 root1 (ptr t) (cpar es)" if "k = RB_BLACK"
    using spliced_done [OF u(3)] that eevdf_delete_loop_eq [OF u(2)] by (simp add: eevdf_delete_fixup_def delete_fixup_def)
  with eevdf_unlink_eq [OF rep] u(1) show ?thesis by (simp add: eevdf_remove_def rb_delete_def)
qed

section \<open>Properties\<close>

text \<open>
  C9 The two red-black trees of the kernel are the same: on every red-black tree the removal of a node
  by the run queue and the one by the memory manager give the same nodes, pointers and colours, and so
  do their repairs after an insertion.
\<close>

theorem eevdf_tree_same:
  assumes "rep h root (plug cs (Nd l z r))"
  shows "(rb_tree (color \<circ> h) (plug cs (Nd l z r)) \<longrightarrow> eevdf_remove h root (Some z) = rb_delete h root (Some z)) \<and>
    (ins_inv h root cs l z r \<longrightarrow> eevdf_insert_fixup h root (Some z) = insert_fixup h root (Some z))"
  using eevdf_remove_eq [OF assms] eevdf_insert_fixup_eq by blast

theorem eevdf_tree_same_witness:
  "eevdf_insert_fixup rb_demo (Some 2) (Some 0) = insert_fixup rb_demo (Some 2) (Some 0)"
proof -
  have inv: "ins_inv rb_demo (Some 2) [HoleL 1 Lf, HoleL 2 Lf] Lf 0 Lf"
    by (simp add: ins_inv_def rep_def rb_demo_def cblk_def)
  then have "rep rb_demo (Some 2) (plug [HoleL 1 Lf, HoleL 2 Lf] (Nd Lf 0 Lf))" unfolding ins_inv_def by blast
  from eevdf_tree_same [OF this] inv show ?thesis by blast
qed

end
