(* ===== verification/Eevdf.thy ===== *)
theory Eevdf
  imports Eevdf_Tree
begin

text \<open>
  The run queue, \<open>src/kernel/sched/eevdf.c\<close>: the tasks that are ready to run, in a red-black tree
  ordered by virtual run time, with a pointer to the leftmost node. Tree nodes come from a static
  pool of 64, a bitmap says which are in use.

  Task structures (\<open>src/include/kernel/sched/task.h\<close>) live in a memory of their own, \<open>tasks\<close>, and are
  named by their address; \<open>None\<close> is \<open>NULL\<close>. Tree nodes are named by their index in \<open>node_pool\<close>, as in
  \<open>RBTree\<close>. An index outside \<open>eevdf_nice_to_weight\<close> is \<open>None\<close>. The messages of \<open>printk\<close> are left out.

  The second half shows that the run queue is a priority queue: it stands for a list of tasks in
  order of virtual run time, first in first out among equals, and each operation is the operation
  on that list.
\<close>

section \<open>Definitions\<close>

subsection \<open>Tasks\<close>

datatype task_state = TASK_RUNNING | TASK_READY | TASK_BLOCKED | TASK_ZOMBIE

text \<open>\<open>x0\<close> to \<open>x30\<close> are one field, by number.\<close>

record cpu_context =
  ctx_x :: "nat \<Rightarrow> u64"
  ctx_sp :: u64
  ctx_pc :: u64
  ctx_pstate :: u64

type_synonym task_ptr = "u64 option"

record task =
  t_pid :: int
  t_state :: task_state
  t_priority :: int
  t_time_slice :: u64
  t_vruntime :: u64
  t_context :: cpu_context
  t_kernel_stack :: u64
  t_pgd :: u64
  t_next :: task_ptr
  t_prev :: task_ptr

type_synonym task_mem = "u64 \<Rightarrow> task"

abbreviation ctx_x23 :: "cpu_context \<Rightarrow> u64" where
  "ctx_x23 c \<equiv> ctx_x c 23"

abbreviation set_ctx_x :: "nat \<Rightarrow> u64 \<Rightarrow> cpu_context \<Rightarrow> cpu_context" where
  "set_ctx_x i v \<equiv> ctx_x_update (\<lambda>x. x(i := v))"

subsection \<open>Constants and the weight table\<close>

definition EEVDF_MIN_GRANULARITY :: u64 where "EEVDF_MIN_GRANULARITY = 750000"
definition EEVDF_TARGET_LATENCY :: u32 where "EEVDF_TARGET_LATENCY = 6000000"
definition EEVDF_NICE_0_LOAD :: u32 where "EEVDF_NICE_0_LOAD = 1024"
definition EEVDF_MIN_NICE :: int where "EEVDF_MIN_NICE = -20"
definition EEVDF_MAX_NICE :: int where "EEVDF_MAX_NICE = 19"
definition EEVDF_TIME_SLICE_NS :: u64 where "EEVDF_TIME_SLICE_NS = 4 * 1000000"
definition EEVDF_MAX_TIME_SLICE_NS :: u64 where "EEVDF_MAX_TIME_SLICE_NS = 100 * 1000000"

definition eevdf_nice_to_weight :: "u32 list" where
  "eevdf_nice_to_weight =
    [88761, 71755, 56483, 46273, 36291, 29154, 23254, 18705, 14949, 11916,
     9548,  7620,  6100,  4904,  3906,  3121,  2501,  1991,  1586,  1277,
     1024,  820,   655,   526,   423,   335,   272,   215,   172,   137,
     110,   87,    70,    56,    45,    36,    29,    23,    18,    15]"

text \<open>\<open>eevdf_nice_to_weight[priority + 20]\<close>\<close>

definition weight_of :: "int \<Rightarrow> u32 option" where
  "weight_of prio =
     (if 0 \<le> prio + 20 \<and> prio + 20 < 40 then Some (eevdf_nice_to_weight ! nat (prio + 20)) else None)"

subsection \<open>State\<close>

record eevdf_node = rb_node +
  node_task :: task_ptr

type_synonym eevdf_heap = "nat \<Rightarrow> eevdf_node"
type_synonym node_bits = "nat \<Rightarrow> u64"

text \<open>\<open>runqueue\<close> (the fields \<open>rq_...\<close>), \<open>node_pool\<close> and \<open>node_bitmap\<close>, and the task structures.\<close>

record eevdf_state =
  rq_root :: "nat option"
  rq_leftmost :: "nat option"
  rq_min_vruntime :: u64
  rq_load_weight :: u32
  rq_nr_running :: u32
  node_pool :: eevdf_heap
  node_bitmap :: node_bits
  tasks :: task_mem

subsection \<open>The node pool\<close>

definition node_test :: "node_bits \<Rightarrow> nat \<Rightarrow> bool option" where
  "node_test b i = do {
     w \<leftarrow> arr_get 2 b (i div 64);
     Some (w AND push_bit (i mod 64) 1 \<noteq> 0) }"

definition node_mark :: "node_bits \<Rightarrow> nat \<Rightarrow> node_bits option" where
  "node_mark b i = do {
     w \<leftarrow> arr_get 2 b (i div 64);
     arr_set 2 b (i div 64) (w OR push_bit (i mod 64) 1) }"

definition node_clear :: "node_bits \<Rightarrow> nat \<Rightarrow> node_bits option" where
  "node_clear b i = do {
     w \<leftarrow> arr_get 2 b (i div 64);
     arr_set 2 b (i div 64) (w AND NOT (push_bit (i mod 64) 1)) }"

definition alloc_node :: "node_bits \<Rightarrow> (nat option \<times> node_bits) option" where
  "alloc_node b = do {
     r \<leftarrow> for_ret 0 64 (\<lambda>i b. do {
       t \<leftarrow> node_test b i;
       if \<not> t then do { b' \<leftarrow> node_mark b i; Some (Inl (Some i, b')) } else Some (Inr b) }) b;
     case r of Inl res \<Rightarrow> Some res | Inr b' \<Rightarrow> Some (None, b') }"

definition free_node :: "nat option \<Rightarrow> node_bits \<Rightarrow> node_bits option" where
  "free_node node b = (case node of None \<Rightarrow> Some b
   | Some idx \<Rightarrow> if idx \<ge> 64 then Some b else node_clear b idx)"

text \<open>The search for the node of a task, in \<open>eevdf_dequeue\<close> and \<open>eevdf_is_queued\<close>.\<close>

definition node_of_task :: "eevdf_state \<Rightarrow> u64 \<Rightarrow> nat option option" where
  "node_of_task s p = do {
     r \<leftarrow> for_ret 0 64 (\<lambda>i u. do {
       t \<leftarrow> node_test (node_bitmap s) i;
       Some (if t \<and> node_task (node_pool s i) = Some p then Inl i else Inr u) }) ();
     case r of Inl i \<Rightarrow> Some (Some i) | Inr u \<Rightarrow> Some None }"

subsection \<open>Operations\<close>

definition eevdf_init :: "eevdf_state \<Rightarrow> eevdf_state" where
  "eevdf_init s = s\<lparr>rq_root := None, rq_leftmost := None, rq_min_vruntime := 0, rq_load_weight := 0,
     rq_nr_running := 0,
     node_pool := (\<lambda>_. \<lparr>left = None, right = None, parent = None, color = RB_BLACK, node_task = None\<rparr>),
     node_bitmap := (\<lambda>_. 0)\<rparr>"

text \<open>The descent of \<open>eevdf_enqueue\<close>: the link to write, the parent, and whether it only went left.\<close>

partial_function (option) eevdf_descend ::
  "eevdf_heap \<Rightarrow> task_mem \<Rightarrow> nat option \<Rightarrow> u64 \<Rightarrow> rb_link \<Rightarrow> nat option \<Rightarrow> bool \<Rightarrow>
   (rb_link \<times> nat option \<times> bool) option" where
  "eevdf_descend h tm root v link par leftmost = (case rd_link h root link of
     None \<Rightarrow> Some (link, par, leftmost)
   | Some n \<Rightarrow> Option.bind (ld t_vruntime tm (node_task (h n))) (\<lambda>pv.
       if v < pv then eevdf_descend h tm root v (Link_left n) (Some n) leftmost
       else eevdf_descend h tm root v (Link_right n) (Some n) False))"

definition eevdf_enqueue :: "task_ptr \<Rightarrow> eevdf_state \<Rightarrow> eevdf_state option" where
  "eevdf_enqueue task s = (case task of None \<Rightarrow> Some s
   | Some p \<Rightarrow>
     if t_state (tasks s p) \<noteq> TASK_READY then Some s
     else do {
       let s = (if t_vruntime (tasks s p) < rq_min_vruntime s
                then s\<lparr>tasks := (tasks s)(p := (tasks s p)\<lparr>t_vruntime := rq_min_vruntime s\<rparr>)\<rparr> else s);
       (node, b) \<leftarrow> alloc_node (node_bitmap s);
       let s = s\<lparr>node_bitmap := b\<rparr>;
       case node of None \<Rightarrow> Some s
       | Some n \<Rightarrow> do {
           let h = node_pool s;
           let h = h(n := (h n)\<lparr>node_task := Some p\<rparr>);
           let h = h(n := set_left None (set_right None (set_parent None (h n))));
           let h = h(n := set_color RB_RED (h n));
           (link, par, leftmost) \<leftarrow> eevdf_descend h (tasks s) (rq_root s) (t_vruntime (tasks s p)) Link_root None True;
           let s = (if leftmost then s\<lparr>rq_leftmost := Some n\<rparr> else s);
           let h = h(n := set_parent par (h n));
           let (h, root) = wr_link link (Some n) h (rq_root s);
           (h, root) \<leftarrow> eevdf_insert_fixup h root (Some n);
           weight \<leftarrow> weight_of (t_priority (tasks s p));
           Some (s\<lparr>node_pool := h, rq_root := root, rq_load_weight := rq_load_weight s + weight,
             rq_nr_running := rq_nr_running s + 1\<rparr>) } })"

text \<open>The next node in order, when the leftmost node goes.\<close>

partial_function (option) eevdf_climb :: "eevdf_heap \<Rightarrow> nat option \<Rightarrow> nat option \<Rightarrow> nat option option" where
  "eevdf_climb h cur par = (case par of None \<Rightarrow> Some None
   | Some q \<Rightarrow> if cur = right (h q) then eevdf_climb h (Some q) (parent (h q)) else Some (Some q))"

definition eevdf_next :: "eevdf_heap \<Rightarrow> nat \<Rightarrow> nat option option" where
  "eevdf_next h n = (if right (h n) \<noteq> None then rb_first h (right (h n))
     else eevdf_climb h (Some n) (parent (h n)))"

definition eevdf_dequeue :: "task_ptr \<Rightarrow> eevdf_state \<Rightarrow> eevdf_state option" where
  "eevdf_dequeue task s = (case task of None \<Rightarrow> Some s
   | Some p \<Rightarrow> do {
       node \<leftarrow> node_of_task s p;
       case node of None \<Rightarrow> Some s
       | Some n \<Rightarrow> do {
           s \<leftarrow> (if rq_leftmost s = Some n then do {
                    l \<leftarrow> eevdf_next (node_pool s) n;
                    Some (s\<lparr>rq_leftmost := l\<rparr>) } else Some s);
           (h, root) \<leftarrow> eevdf_remove (node_pool s) (rq_root s) (Some n);
           let s = s\<lparr>node_pool := h, rq_root := root\<rparr>;
           weight \<leftarrow> weight_of (t_priority (tasks s p));
           let s = s\<lparr>rq_load_weight := (if rq_load_weight s \<ge> weight then rq_load_weight s - weight else 0)\<rparr>;
           let s = (if rq_nr_running s > 0 then s\<lparr>rq_nr_running := rq_nr_running s - 1\<rparr> else s);
           b \<leftarrow> free_node (Some n) (node_bitmap s);
           Some (s\<lparr>node_bitmap := b\<rparr>) } })"

definition eevdf_pick_next :: "eevdf_state \<Rightarrow> task_ptr" where
  "eevdf_pick_next s = (case rq_leftmost s of None \<Rightarrow> None | Some n \<Rightarrow> node_task (node_pool s n))"

text \<open>Products and sums wrap at 2 ^ 64.\<close>

definition load_or_default :: "eevdf_state \<Rightarrow> u32" where
  "load_or_default s = (if rq_load_weight s \<noteq> 0 then rq_load_weight s else EEVDF_NICE_0_LOAD)"

definition eevdf_update_curr :: "task_ptr \<Rightarrow> u64 \<Rightarrow> eevdf_state \<Rightarrow> eevdf_state option" where
  "eevdf_update_curr task now s = (case task of None \<Rightarrow> Some s
   | Some p \<Rightarrow> do {
       let delta = now - ctx_x23 (t_context (tasks s p));
       if delta = 0 then Some s
       else do {
         let s = s\<lparr>tasks := (tasks s)(p := (tasks s p)\<lparr>t_context := set_ctx_x 23 now (t_context (tasks s p))\<rparr>)\<rparr>;
         let delta_fair = (delta * ucast EEVDF_NICE_0_LOAD) div ucast (load_or_default s);
         let s = s\<lparr>tasks := (tasks s)(p := (tasks s p)\<lparr>t_vruntime := t_vruntime (tasks s p) + delta_fair\<rparr>)\<rparr>;
         case rq_leftmost s of
           Some n \<Rightarrow> do {
             v \<leftarrow> ld t_vruntime (tasks s) (node_task (node_pool s n));
             Some (s\<lparr>rq_min_vruntime := v\<rparr>) }
         | None \<Rightarrow> Some (s\<lparr>rq_min_vruntime := t_vruntime (tasks s p)\<rparr>) } })"

text \<open>The product is one of two 32-bit numbers and wraps at 2 ^ 32.\<close>

definition eevdf_calc_slice :: "task_ptr \<Rightarrow> eevdf_state \<Rightarrow> u64 option" where
  "eevdf_calc_slice task s =
     (if rq_nr_running s = 0 then Some EEVDF_TIME_SLICE_NS
      else do {
        prio \<leftarrow> ld t_priority (tasks s) task;
        weight \<leftarrow> weight_of prio;
        let slice = ucast ((EEVDF_TARGET_LATENCY * weight) div load_or_default s);
        let slice = (if slice < EEVDF_MIN_GRANULARITY then EEVDF_MIN_GRANULARITY else slice);
        let slice = (if slice > EEVDF_MAX_TIME_SLICE_NS then EEVDF_MAX_TIME_SLICE_NS else slice);
        Some slice })"

definition eevdf_set_nice :: "task_ptr \<Rightarrow> int \<Rightarrow> eevdf_state \<Rightarrow> eevdf_state" where
  "eevdf_set_nice task nice s = (case task of None \<Rightarrow> s
   | Some p \<Rightarrow>
       let nice = (if nice < EEVDF_MIN_NICE then EEVDF_MIN_NICE else nice);
           nice = (if nice > EEVDF_MAX_NICE then EEVDF_MAX_NICE else nice)
       in s\<lparr>tasks := (tasks s)(p := (tasks s p)\<lparr>t_priority := nice\<rparr>)\<rparr>)"

definition eevdf_is_queued :: "task_ptr \<Rightarrow> eevdf_state \<Rightarrow> bool option" where
  "eevdf_is_queued task s = (case task of None \<Rightarrow> Some False
   | Some p \<Rightarrow> map_option (\<lambda>n. n \<noteq> None) (node_of_task s p))"

subsection \<open>The queue behind the tree\<close>

definition node_used :: "node_bits \<Rightarrow> nat \<Rightarrow> bool" where
  "node_used b = arr_bit b"

definition head_opt :: "'a list \<Rightarrow> 'a option" where
  "head_opt xs = (case xs of [] \<Rightarrow> None | x # _ \<Rightarrow> Some x)"

text \<open>The tree is a red-black tree, \<open>ns\<close> are its nodes in order and exactly the nodes in use.\<close>

definition rq_nodes :: "eevdf_state \<Rightarrow> nat list \<Rightarrow> bool" where
  "rq_nodes s ns \<longleftrightarrow>
     (\<exists>t. rep (node_pool s) (rq_root s) t \<and> rb_tree (color \<circ> node_pool s) t \<and> inord t = ns) \<and>
     set ns = {i. i < 64 \<and> node_used (node_bitmap s) i} \<and> rq_leftmost s = head_opt ns"

abbreviation vr :: "eevdf_state \<Rightarrow> u64 \<Rightarrow> u64" where
  "vr s p \<equiv> t_vruntime (tasks s p)"

definition task_weight :: "task_mem \<Rightarrow> u64 \<Rightarrow> nat" where
  "task_weight tm p = (case weight_of (t_priority (tm p)) of None \<Rightarrow> 0 | Some w \<Rightarrow> unat w)"

text \<open>
  \<open>rq_queue s q\<close>: the run queue holds the tasks \<open>q\<close>, in order of virtual run time. No task is in it
  twice, the priorities are in range, the two counters are exact, and \<open>min_vruntime\<close> is a lower bound.
\<close>

definition rq_queue :: "eevdf_state \<Rightarrow> u64 list \<Rightarrow> bool" where
  "rq_queue s q \<longleftrightarrow>
     (\<exists>ns. rq_nodes s ns \<and> map (\<lambda>n. node_task (node_pool s n)) ns = map Some q) \<and>
     distinct q \<and> sorted (map (vr s) q) \<and>
     (\<forall>p\<in>set q. weight_of (t_priority (tasks s p)) \<noteq> None \<and> rq_min_vruntime s \<le> vr s p) \<and>
     rq_nr_running s = of_nat (length q) \<and>
     unat (rq_load_weight s) = sum_list (map (task_weight (tasks s)) q)"

text \<open>The state with the virtual run time of \<open>p\<close> raised to \<open>min_vruntime\<close>.\<close>

definition raised :: "u64 \<Rightarrow> eevdf_state \<Rightarrow> eevdf_state" where
  "raised p s = s\<lparr>tasks := (tasks s)(p := (tasks s p)\<lparr>t_vruntime := max (vr s p) (rq_min_vruntime s)\<rparr>)\<rparr>"

text \<open>Adding a task behind all tasks that have not run longer.\<close>

definition queue_add :: "('p \<Rightarrow> u64) \<Rightarrow> 'p \<Rightarrow> 'p list \<Rightarrow> 'p list" where
  "queue_add v p q = filter (\<lambda>x. v x \<le> v p) q @ p # filter (\<lambda>x. v p < v x) q"

text \<open>An empty run queue and tasks that are all ready, of nice value 0.\<close>

definition demo_task :: task where
  "demo_task = \<lparr>t_pid = 1, t_state = TASK_READY, t_priority = 0, t_time_slice = 0, t_vruntime = 0,
     t_context = \<lparr>ctx_x = (\<lambda>_. 0), ctx_sp = 0, ctx_pc = 0, ctx_pstate = 0\<rparr>, t_kernel_stack = 0, t_pgd = 0,
     t_next = None, t_prev = None\<rparr>"

definition demo_rq :: eevdf_state where
  "demo_rq = eevdf_init \<lparr>rq_root = None, rq_leftmost = None, rq_min_vruntime = 0, rq_load_weight = 0, rq_nr_running = 0,
     node_pool = (\<lambda>_. \<lparr>left = None, right = None, parent = None, color = RB_BLACK, node_task = None\<rparr>),
     node_bitmap = (\<lambda>_. 0), tasks = (\<lambda>_. demo_task)\<rparr>"

text \<open>Taking the first task out of the queue, again and again.\<close>

fun drain :: "('s \<Rightarrow> 'p option) \<Rightarrow> ('p option \<Rightarrow> 's \<Rightarrow> 's option) \<Rightarrow> nat \<Rightarrow> 's \<Rightarrow> ('p list \<times> 's) option" where
  "drain pick deq 0 s = Some ([], s)"
| "drain pick deq (Suc k) s = (case pick s of None \<Rightarrow> Some ([], s)
   | Some p \<Rightarrow> do {
       s \<leftarrow> deq (Some p) s;
       (ps, s) \<leftarrow> drain pick deq k s;
       Some (p # ps, s) })"

section \<open>Lemmas\<close>

subsection \<open>The pool\<close>

interpretation nb: bitmap 64 node_used node_test node_mark node_clear
proof unfold_locales
  fix i b
  assume "i < (64::nat)"
  then have w: "i div 64 < 2" by simp
  show "node_test b i = Some (node_used b i)"
    by (simp add: node_test_def w node_used_def arr_bit_def and_exp_eq_0_iff_not_bit)
  show "\<exists>b'. node_mark b i = Some b' \<and> node_used b' = (node_used b)(i := True)"
    using arr_bit_set [of 64 b i] by (simp add: node_mark_def w node_used_def del: One_nat_def)
  show "\<exists>b'. node_clear b i = Some b' \<and> node_used b' = (node_used b)(i := False)"
    using arr_bit_clear [of 64 b i] by (simp add: node_clear_def w node_used_def)
qed

lemma alloc_node_spec:
  "(\<exists>n b'. alloc_node b = Some (Some n, b') \<and> n < 64 \<and> \<not> node_used b n \<and> node_used b' = (node_used b)(n := True)) \<or>
   (alloc_node b = Some (None, b) \<and> (\<forall>j<64. node_used b j))"
  using nb.first_clear [of 0 64 Some b] by (fastforce simp: alloc_node_def)

lemma free_node_spec:
  "n < 64 \<Longrightarrow> \<exists>b'. free_node (Some n) b = Some b' \<and> node_used b' = (node_used b)(n := False)"
  using nb.cl [of n b] by (simp add: free_node_def)

lemma node_of_task_find:
  "(\<exists>i. node_of_task s p = Some (Some i) \<and> i < 64 \<and> node_used (node_bitmap s) i \<and> node_task (node_pool s i) = Some p) \<or>
   (node_of_task s p = Some None \<and>
     (\<forall>i<64. node_used (node_bitmap s) i \<longrightarrow> node_task (node_pool s i) \<noteq> Some p))"
proof -
  let ?f = "\<lambda>i u. do { t \<leftarrow> node_test (node_bitmap s) i;
    Some (if t \<and> node_task (node_pool s i) = Some p then Inl i else Inr u) }"
  have "(\<exists>r. for_ret 0 64 ?f () = Some (Inl r) \<and>
      (r < 64 \<and> node_used (node_bitmap s) r \<and> node_task (node_pool s r) = Some p)) \<or>
    (\<exists>t. for_ret 0 64 ?f () = Some (Inr t) \<and>
      (\<forall>i<64. node_used (node_bitmap s) i \<longrightarrow> node_task (node_pool s i) \<noteq> Some p))"
    by (rule for_ret_inv [where P = "\<lambda>k _. \<forall>i<k. node_used (node_bitmap s) i \<longrightarrow> node_task (node_pool s i) \<noteq> Some p"])
      (auto simp: nb.tst less_Suc_eq)
  then show ?thesis by (auto simp: node_of_task_def)
qed

lemma node_task_more: "rb_node.more (x::eevdf_node) = rb_node.more y \<Longrightarrow> node_task x = node_task y"
  by (cases x; cases y; simp)

subsection \<open>Looking up the node of a task\<close>

lemma rq_queue_node:
  assumes "rq_nodes s ns" "map (\<lambda>n. node_task (node_pool s n)) ns = map Some q" "distinct q"
  shows "p \<in> set q \<Longrightarrow> \<exists>n. node_of_task s p = Some (Some n) \<and> n < 64 \<and> n \<in> set ns \<and> node_task (node_pool s n) = Some p"
    "p \<notin> set q \<Longrightarrow> node_of_task s p = Some None"
proof -
  have mem: "Some p \<in> (\<lambda>n. node_task (node_pool s n)) ` set ns \<longleftrightarrow> p \<in> set q"
    using arg_cong [OF assms(2), of set] by auto
  have used: "n \<in> set ns \<longleftrightarrow> n < 64 \<and> node_used (node_bitmap s) n" for n
    using assms(1) by (auto simp: rq_nodes_def)
  show "p \<in> set q \<Longrightarrow> \<exists>n. node_of_task s p = Some (Some n) \<and> n < 64 \<and> n \<in> set ns \<and> node_task (node_pool s n) = Some p"
    using node_of_task_find [of s p] mem used by fastforce
  show "p \<notin> set q \<Longrightarrow> node_of_task s p = Some None"
    using node_of_task_find [of s p] mem used by (force simp: image_iff)
qed

lemma is_queued_spec: "rq_queue s q \<Longrightarrow> eevdf_is_queued (Some p) s = Some (p \<in> set q)"
  using rq_queue_node [of s _ q p] by (cases "p \<in> set q") (fastforce simp: rq_queue_def eevdf_is_queued_def)+


subsection \<open>Adding a node\<close>

text \<open>The virtual run time of the task of a node.\<close>

abbreviation nvr :: "eevdf_heap \<Rightarrow> task_mem \<Rightarrow> nat \<Rightarrow> u64" where
  "nvr h tm n \<equiv> t_vruntime (tm (the (node_task (h n))))"

lemma eevdf_descend_spec:
  "rep h root (plug cs t) \<Longrightarrow> sorted (map (nvr h tm) (inord t)) \<Longrightarrow> \<forall>n\<in>set (inord t). node_task (h n) \<noteq> None \<Longrightarrow>
   \<exists>ds. eevdf_descend h tm root v (link_of cs) (cpar cs) lm =
       Some (link_of (ds @ cs), cpar (ds @ cs), lm \<and> cbefore ds = []) \<and>
     plug ds Lf = t \<and> (\<forall>a\<in>set (cbefore ds). nvr h tm a \<le> v) \<and> (\<forall>a\<in>set (cafter ds). v < nvr h tm a)"
proof (induction t arbitrary: cs lm)
  case Lf
  have "rd_link h root (link_of cs) = None"
    using Lf(1) by (cases cs rule: cpar.cases) (auto simp: link_of_def rep_def tree_ok_plug)
  then show ?case by (intro exI [of _ "[]"]) (simp add: eevdf_descend.simps)
next
  case (Nd l n r)
  have here: "rd_link h root (link_of cs) = Some n"
    using Nd.prems(1) by (cases cs rule: cpar.cases) (auto simp: link_of_def rep_def tree_ok_plug)
  obtain p where p: "node_task (h n) = Some p" using Nd.prems(3) by auto
  have ord: "sorted (map (nvr h tm) (inord l))" "sorted (map (nvr h tm) (inord r))"
    "\<forall>a\<in>set (inord l). nvr h tm a \<le> nvr h tm n" "\<forall>b\<in>set (inord r). nvr h tm n \<le> nvr h tm b"
    using Nd.prems(2) by (auto simp: sorted_append)
  show ?case
  proof (cases "v < nvr h tm n")
    case True
    have "rep h root (plug (HoleL n r # cs) l)" using Nd.prems(1) by simp
    from Nd.IH(1) [OF this ord(1), of lm] Nd.prems(3) obtain ds where
      ds: "eevdf_descend h tm root v (Link_left n) (Some n) lm =
          Some (link_of (ds @ HoleL n r # cs), cpar (ds @ HoleL n r # cs), lm \<and> cbefore ds = [])"
        "plug ds Lf = l" "\<forall>a\<in>set (cbefore ds). nvr h tm a \<le> v" "\<forall>a\<in>set (cafter ds). v < nvr h tm a"
      by (auto simp: link_of_def)
    have "\<forall>a\<in>set (inord r). v < nvr h tm a" using True ord(4) by force
    with ds True here p show ?thesis
      by (intro exI [of _ "ds @ [HoleL n r]"], subst eevdf_descend.simps)
         (auto simp: plug_append cbefore_append cafter_append)
  next
    case False
    have "rep h root (plug (HoleR l n # cs) r)" using Nd.prems(1) by simp
    from Nd.IH(2) [OF this ord(2), of False] Nd.prems(3) obtain ds where
      ds: "eevdf_descend h tm root v (Link_right n) (Some n) False =
          Some (link_of (ds @ HoleR l n # cs), cpar (ds @ HoleR l n # cs), False)"
        "plug ds Lf = r" "\<forall>a\<in>set (cbefore ds). nvr h tm a \<le> v" "\<forall>a\<in>set (cafter ds). v < nvr h tm a"
      by (auto simp: link_of_def)
    have "\<forall>a\<in>set (inord l). nvr h tm a \<le> v" using False ord(3) by force
    with ds False here p show ?thesis
      by (intro exI [of _ "ds @ [HoleR l n]"], subst eevdf_descend.simps)
         (auto simp: plug_append cbefore_append cafter_append)
  qed
qed

text \<open>The tree part of \<open>eevdf_enqueue\<close>, from the descent to the repair.\<close>

lemma eevdf_insert_spec:
  assumes rep: "rep h root t" and bal: "rb_tree (color \<circ> h) t" and n: "n \<notin> set (inord t)"
    and sorted: "sorted (map (nvr h tm) (inord t))" "\<forall>a\<in>set (inord t). node_task (h a) \<noteq> None"
    and new: "left (h n) = None" "right (h n) = None" "color (h n) = RB_RED"
  shows "\<exists>link par h1 root1 h' root' t' xs ys. eevdf_descend h tm root v Link_root None True = Some (link, par, xs = []) \<and>
    wr_link link (Some n) (h(n := set_parent par (h n))) root = (h1, root1) \<and>
    eevdf_insert_fixup h1 root1 (Some n) = Some (h', root') \<and> rep h' root' t' \<and> rb_tree (color \<circ> h') t' \<and>
    inord t = xs @ ys \<and> inord t' = xs @ n # ys \<and> (\<forall>a\<in>set xs. nvr h tm a \<le> v) \<and> (\<forall>a\<in>set ys. v < nvr h tm a) \<and>
    (\<forall>a. rb_node.more (h' a) = rb_node.more (h a))"
proof -
  from eevdf_descend_spec [of h root "[]" t tm v True] rep sorted obtain ds where
    ds: "eevdf_descend h tm root v Link_root None True = Some (link_of ds, cpar ds, cbefore ds = [])" "plug ds Lf = t"
      "\<forall>a\<in>set (cbefore ds). nvr h tm a \<le> v" "\<forall>a\<in>set (cafter ds). v < nvr h tm a"
    by (auto simp: link_of_def)
  define h0 where "h0 = h(n := set_parent (cpar ds) (h n))"
  have "rep h0 root t" using rep n by (simp add: h0_def rep_def)
  moreover have "color \<circ> h0 = color \<circ> h" by (auto simp: h0_def)
  ultimately obtain h1 where h1: "wr_link (link_of ds) (Some n) h0 root = (h1, ptr (plug ds (Nd Lf n Lf)))" "only_links h0 h1"
      "\<And>k. k \<notin> set (cbefore ds @ cafter ds) \<Longrightarrow> h1 k = h0 k"
      "\<And>x. left x = None \<Longrightarrow> right x = None \<Longrightarrow> parent x = cpar ds \<Longrightarrow> color x = RB_RED \<Longrightarrow>
        ins_inv (h1(n := x)) (ptr (plug ds (Nd Lf n Lf))) ds Lf n Lf"
    using new_leaf [of h0 root ds n] bal n ds(2) by auto
  have "h1 n = h0 n" using h1(3) [of n] n ds(2) by auto
  then have "ins_inv (h1(n := h1 n)) (ptr (plug ds (Nd Lf n Lf))) ds Lf n Lf"
    using new by (intro h1(4)) (simp_all add: h0_def)
  then have inv: "ins_inv h1 (ptr (plug ds (Nd Lf n Lf))) ds Lf n Lf" by simp
  from insert_fixup_spec [OF inv] obtain h' root' t' where
    f: "insert_fixup h1 (ptr (plug ds (Nd Lf n Lf))) (Some n) = Some (h', root')" "rep h' root' t'"
      "inord t' = cbefore ds @ n # cafter ds" "rb_tree (color \<circ> h') t'"
      "same_data (set (cbefore ds @ n # cafter ds)) h1 h'" by auto
  have "rb_node.more (h' a) = rb_node.more (h a)" for a
    using f(5) h1(2) by (simp add: same_data_def only_links_def h0_def)
  moreover have "inord t = cbefore ds @ cafter ds" using ds(2) by auto
  ultimately show ?thesis
    using ds(1,3,4) h1(1) f eevdf_insert_fixup_eq [OF inv] unfolding h0_def
    by (intro exI [of _ "link_of ds"] exI [of _ "cpar ds"] exI [of _ h1] exI [of _ "ptr (plug ds (Nd Lf n Lf))"]
      exI [of _ h'] exI [of _ root'] exI [of _ t'] exI [of _ "cbefore ds"] exI [of _ "cafter ds"]) simp
qed


subsection \<open>Counting\<close>

lemma weight_of_bounds: "weight_of prio = Some w \<Longrightarrow> 0 < unat w \<and> unat w \<le> 88761"
proof -
  assume "weight_of prio = Some w"
  then have "w = eevdf_nice_to_weight ! nat (prio + 20)" "nat (prio + 20) < 40"
    by (auto simp: weight_of_def split: if_splits)
  moreover have "length eevdf_nice_to_weight = 40" by (simp add: eevdf_nice_to_weight_def)
  ultimately have "w \<in> set eevdf_nice_to_weight" by simp
  moreover have "\<forall>w\<in>set eevdf_nice_to_weight. 0 < unat w \<and> unat w \<le> 88761"
    by (simp add: eevdf_nice_to_weight_def)
  ultimately show ?thesis by blast
qed

lemma task_weight_le: "task_weight tm p \<le> 88761"
  using weight_of_bounds by (auto simp: task_weight_def split: option.splits)

lemma sum_weights_le: "sum_list (map (task_weight tm) q) \<le> length q * 88761"
  using task_weight_le [of tm] by (induction q) (auto intro: add_mono)

lemma unat_add_u32: "unat (x::u32) + unat y < 2 ^ 32 \<Longrightarrow> unat (x + y) = unat x + unat y"
  by (simp add: unat_word_ariths)

lemma rq_nodes_length:
  assumes "rq_nodes s ns"
  shows "length ns \<le> 64" "length ns < 64 \<longleftrightarrow> (\<exists>i<64. \<not> node_used (node_bitmap s) i)"
proof -
  have ns: "set ns = {i. i < 64 \<and> node_used (node_bitmap s) i}" "distinct ns"
    using assms by (auto simp: rq_nodes_def rep_def)
  then have len: "length ns = card {i. i < 64 \<and> node_used (node_bitmap s) i}" using distinct_card [of ns] by simp
  have sub: "{i. i < 64 \<and> node_used (node_bitmap s) i} \<subseteq> {..<64}" by auto
  show "length ns \<le> 64" using card_mono [OF _ sub] len by simp
  show "length ns < 64 \<longleftrightarrow> (\<exists>i<64. \<not> node_used (node_bitmap s) i)"
  proof
    assume "length ns < 64"
    then have "{i. i < 64 \<and> node_used (node_bitmap s) i} \<noteq> {..<64}"
      unfolding len by (metis card_lessThan less_irrefl)
    then show "\<exists>i<64. \<not> node_used (node_bitmap s) i" by auto
  next
    assume "\<exists>i<64. \<not> node_used (node_bitmap s) i"
    then have "{i. i < 64 \<and> node_used (node_bitmap s) i} \<subset> {..<64}" by auto
    from psubset_card_mono [OF _ this] len show "length ns < 64" by simp
  qed
qed

lemma rq_queue_length: "rq_queue s q \<Longrightarrow> length q \<le> 64"
  using rq_nodes_length(1) [of s] by (fastforce simp: rq_queue_def dest: map_eq_imp_length_eq)

text \<open>What the queue says does not depend on the other tasks.\<close>

lemma rq_queue_cong:
  assumes "rq_queue s q" and "\<And>p. p \<in> set q \<Longrightarrow> t_vruntime (tm p) = vr s p \<and> t_priority (tm p) = t_priority (tasks s p)"
  shows "rq_queue (s\<lparr>tasks := tm\<rparr>) q"
proof -
  have "sorted (map (vr (s\<lparr>tasks := tm\<rparr>)) q) = sorted (map (vr s) q)" using assms(2) by (simp cong: map_cong)
  moreover have "sum_list (map (task_weight tm) q) = sum_list (map (task_weight (tasks s)) q)"
    using assms(2) by (simp add: task_weight_def cong: map_cong)
  moreover have "rq_nodes (s\<lparr>tasks := tm\<rparr>) ns = rq_nodes s ns" for ns by (simp add: rq_nodes_def)
  ultimately show ?thesis using assms by (simp add: rq_queue_def)
qed

lemma filter_head: "(\<forall>a\<in>set xs. P a) \<Longrightarrow> (\<forall>a\<in>set ys. \<not> P a) \<Longrightarrow> filter P (xs @ ys) = xs \<and> filter (\<lambda>x. \<not> P x) (xs @ ys) = ys"
  by (simp add: filter_empty_conv filter_id_conv)

lemma queue_add_split:
  "(\<forall>a\<in>set xs. v a \<le> v p) \<Longrightarrow> (\<forall>a\<in>set ys. v p < v a) \<Longrightarrow> queue_add v p (xs @ ys) = xs @ p # ys"
  using filter_head [of xs "\<lambda>x. v x \<le> v p" ys] by (simp add: queue_add_def not_le)

lemma queue_parts:
  assumes "map f (xs @ ys) = map Some q" "\<forall>a\<in>set xs. v (the (f a)) \<le> k" "\<forall>a\<in>set ys. k < v (the (f a))"
  shows "\<exists>qx qy. q = qx @ qy \<and> map f xs = map Some qx \<and> map f ys = map Some qy \<and>
    (\<forall>a\<in>set qx. v a \<le> k) \<and> (\<forall>a\<in>set qy. k < v a)"
proof -
  from assms(1) obtain qx qy where q: "q = qx @ qy" "map f xs = map Some qx" "map f ys = map Some qy"
    by (metis append_eq_map_conv map_append)
  have "v a \<le> k" if "a \<in> set qx" for a
  proof -
    have "Some a \<in> f ` set xs" using that arg_cong [OF q(2), of set] by simp
    then show ?thesis using assms(2) by (metis imageE option.sel)
  qed
  moreover have "k < v a" if "a \<in> set qy" for a
  proof -
    have "Some a \<in> f ` set ys" using that arg_cong [OF q(3), of set] by simp
    then show ?thesis using assms(3) by (metis imageE option.sel)
  qed
  ultimately show ?thesis using q by blast
qed

lemma load_add:
  assumes "rq_queue s q" "weight_of prio = Some w"
  shows "unat (rq_load_weight s + w) = sum_list (map (task_weight (tasks s)) q) + unat w"
proof -
  have "length q * 88761 \<le> 64 * 88761" using rq_queue_length [OF assms(1)] by simp
  moreover have load: "unat (rq_load_weight s) = sum_list (map (task_weight (tasks s)) q)" using assms(1) by (simp add: rq_queue_def)
  ultimately have "unat (rq_load_weight s) \<le> 64 * 88761" using sum_weights_le [of "tasks s" q] by linarith
  then show ?thesis using weight_of_bounds [OF assms(2)] load by (subst unat_add_u32) simp_all
qed

subsection \<open>Enqueue\<close>

text \<open>\<open>eevdf_enqueue\<close> once the virtual run time has been raised and a node taken.\<close>

lemma enqueue_node:
  assumes q: "rq_queue s q" and p: "p \<notin> set q" "weight_of (t_priority (tasks s p)) = Some w" "rq_min_vruntime s \<le> vr s p"
    and n: "n < 64" "\<not> node_used (node_bitmap s) n" "node_used b = (node_used (node_bitmap s))(n := True)"
    and h: "h = (node_pool s)(n := \<lparr>left = None, right = None, parent = None, color = RB_RED, node_task = Some p\<rparr>)"
  shows "\<exists>link par lm h1 root1 h' root'. eevdf_descend h (tasks s) (rq_root s) (vr s p) Link_root None True = Some (link, par, lm) \<and>
    wr_link link (Some n) (h(n := set_parent par (h n))) (rq_root s) = (h1, root1) \<and>
    eevdf_insert_fixup h1 root1 (Some n) = Some (h', root') \<and>
    rq_queue (s\<lparr>node_bitmap := b, node_pool := h', rq_root := root', rq_leftmost := if lm then Some n else rq_leftmost s,
      rq_load_weight := rq_load_weight s + w, rq_nr_running := rq_nr_running s + 1\<rparr>) (queue_add (vr s) p q)"
proof -
  from q obtain ns where ns: "rq_nodes s ns" "map (\<lambda>n. node_task (node_pool s n)) ns = map Some q"
    and wf: "distinct q" "sorted (map (vr s) q)"
      "\<And>p. p \<in> set q \<Longrightarrow> weight_of (t_priority (tasks s p)) \<noteq> None \<and> rq_min_vruntime s \<le> vr s p"
      "rq_nr_running s = of_nat (length q)" "unat (rq_load_weight s) = sum_list (map (task_weight (tasks s)) q)"
    by (auto simp: rq_queue_def)
  from ns(1) obtain t where t: "rep (node_pool s) (rq_root s) t" "rb_tree (color \<circ> node_pool s) t" "inord t = ns"
    and used: "set ns = {i. i < 64 \<and> node_used (node_bitmap s) i}" and lm: "rq_leftmost s = head_opt ns"
    by (auto simp: rq_nodes_def)
  have fresh: "n \<notin> set ns" using n(2) used by auto
  have old: "map (\<lambda>n. node_task (h n)) ns = map Some q" 
  proof -
    have "map (\<lambda>n. node_task (h n)) ns = map (\<lambda>n. node_task (node_pool s n)) ns"
      by (rule map_cong) (use fresh in \<open>auto simp: h\<close>)
    with ns(2) show ?thesis by simp
  qed
  have rep: "rep h (rq_root s) t" using t(1,3) fresh by (simp add: rep_def h)
  have "rb_tree (color \<circ> h) t" using t(2,3) fresh unfolding h by (simp add: rb_tree_def)
  moreover have "sorted (map (nvr h (tasks s)) (inord t))"
  proof -
    have "map (nvr h (tasks s)) ns = map (\<lambda>x. t_vruntime (tasks s (the x))) (map (\<lambda>n. node_task (h n)) ns)" by simp
    also have "\<dots> = map (vr s) q" unfolding old by simp
    finally show ?thesis using wf(2) t(3) by (simp only:)
  qed
  moreover have "\<forall>a\<in>set (inord t). node_task (h a) \<noteq> None"
    using arg_cong [OF old, of set] t(3) by (metis (mono_tags, lifting) image_iff list.set_map option.distinct(1))
  ultimately obtain link par h1 root1 h' root' t' xs ys where
    run: "eevdf_descend h (tasks s) (rq_root s) (vr s p) Link_root None True = Some (link, par, xs = [])"
      "wr_link link (Some n) (h(n := set_parent par (h n))) (rq_root s) = (h1, root1)"
      "eevdf_insert_fixup h1 root1 (Some n) = Some (h', root')"
    and t': "rep h' root' t'" "rb_tree (color \<circ> h') t'" "inord t = xs @ ys" "inord t' = xs @ n # ys"
    and ord: "\<forall>a\<in>set xs. nvr h (tasks s) a \<le> vr s p" "\<forall>a\<in>set ys. vr s p < nvr h (tasks s) a"
    and more: "\<And>a. rb_node.more (h' a) = rb_node.more (h a)"
    using eevdf_insert_spec [OF rep, of n "tasks s" "vr s p"] fresh t(3) by (auto simp: h)
  have nt: "node_task (h' a) = node_task (h a)" for a using more by (rule node_task_more)
  from queue_parts [OF _ ord] old obtain qx qy where qq: "q = qx @ qy" "map (\<lambda>n. node_task (h n)) xs = map Some qx"
      "map (\<lambda>n. node_task (h n)) ys = map Some qy"
    and le: "\<forall>a\<in>set qx. vr s a \<le> vr s p" and gt: "\<forall>a\<in>set qy. vr s p < vr s a"
    unfolding t(3) [symmetric] t'(3) by blast
  have add: "queue_add (vr s) p q = qx @ p # qy" unfolding qq(1) by (rule queue_add_split) (use le gt in auto)
  let ?s = "s\<lparr>node_bitmap := b, node_pool := h', rq_root := root', rq_leftmost := if xs = [] then Some n else rq_leftmost s,
      rq_load_weight := rq_load_weight s + w, rq_nr_running := rq_nr_running s + 1\<rparr>"
  have "head_opt (xs @ n # ys) = (if xs = [] then Some n else head_opt ns)"
    using t(3) t'(3) by (cases xs) (auto simp: head_opt_def)
  moreover have "set (xs @ n # ys) = {i. i < 64 \<and> node_used b i}"
    using used n unfolding t(3) [symmetric] t'(3) by auto
  ultimately have nodes: "rq_nodes ?s (xs @ n # ys)"
    using t'(1,2,4) lm by (auto simp: rq_nodes_def)
  have "map (\<lambda>n. node_task (h' n)) (xs @ n # ys) = map Some (qx @ p # qy)"
    using qq(2,3) by (simp add: nt h)
  moreover have "distinct (qx @ p # qy)" using wf(1) p(1) by (auto simp: qq(1))
  moreover have "sorted (map (vr s) (qx @ p # qy))" using wf(2) le gt by (auto simp: qq(1) sorted_append)
  moreover have "\<forall>a\<in>set (qx @ p # qy). weight_of (t_priority (tasks s a)) \<noteq> None \<and> rq_min_vruntime s \<le> vr s a"
    using wf(3) p(2,3) by (auto simp: qq(1))
  moreover have "unat (rq_load_weight s + w) = sum_list (map (task_weight (tasks s)) (qx @ p # qy))"
    using load_add [OF q p(2)] p(2) by (simp add: qq(1) task_weight_def)
  moreover have "rq_nr_running s + 1 = of_nat (length (qx @ p # qy))" using wf(4) by (simp add: qq(1))
  ultimately have "rq_queue ?s (queue_add (vr s) p q)"
    unfolding rq_queue_def add by (intro conjI exI [of _ "xs @ n # ys"] nodes) simp_all
  with run show ?thesis by blast
qed


lemma raised_queue: "rq_queue s q \<Longrightarrow> p \<notin> set q \<Longrightarrow> rq_queue (raised p s) q"
  unfolding raised_def by (rule rq_queue_cong) auto

lemma raised_if:
  "(if vr s p < rq_min_vruntime s then s\<lparr>tasks := (tasks s)(p := (tasks s p)\<lparr>t_vruntime := rq_min_vruntime s\<rparr>)\<rparr> else s) = raised p s"
  by (auto simp: raised_def max_def not_less)

lemmas eevdf_enqueue_raised = eevdf_enqueue_def [of "Some p" for p, unfolded option.case raised_if]

lemma enqueue_spec:
  assumes q: "rq_queue s q" and p: "p \<notin> set q" "t_state (tasks s p) = TASK_READY" "weight_of (t_priority (tasks s p)) \<noteq> None"
    and room: "length q < 64"
  shows "\<exists>s'. eevdf_enqueue (Some p) s = Some s' \<and> rq_queue s' (queue_add (vr s') p q) \<and>
    tasks s' = (tasks s)(p := (tasks s p)\<lparr>t_vruntime := max (vr s p) (rq_min_vruntime s)\<rparr>) \<and>
    rq_min_vruntime s' = rq_min_vruntime s"
proof -
  define s1 where "s1 = raised p s"
  note q1 = raised_queue [OF q p(1), folded s1_def]
  then obtain ns where ns: "rq_nodes s1 ns" "length ns = length q"
    by (auto simp: rq_queue_def dest: map_eq_imp_length_eq)
  with rq_nodes_length(2) [OF ns(1)] room obtain n b where
    b: "alloc_node (node_bitmap s1) = Some (Some n, b)" "n < 64" "\<not> node_used (node_bitmap s1) n"
      "node_used b = (node_used (node_bitmap s1))(n := True)"
    using alloc_node_spec [of "node_bitmap s1"] by auto
  from p(3) obtain w where w: "weight_of (t_priority (tasks s1 p)) = Some w" by (auto simp: s1_def raised_def)
  have min: "rq_min_vruntime s1 \<le> vr s1 p" by (simp add: s1_def raised_def)
  have node: "set_color RB_RED (set_left None (set_right None (set_parent None (x\<lparr>node_task := Some p\<rparr>)))) =
      \<lparr>left = None, right = None, parent = None, color = RB_RED, node_task = Some p\<rparr>"
    "set_parent q (set_color RB_RED (set_left None (set_right None (x\<lparr>node_task := Some p\<rparr>)))) =
      \<lparr>left = None, right = None, parent = q, color = RB_RED, node_task = Some p\<rparr>" for x :: eevdf_node and q
    by (cases x; simp)+
  from enqueue_node [OF q1 p(1) w min b(2,3,4) refl] obtain link par lm h1 root1 h' root' where
    run: "eevdf_descend ((node_pool s1)(n := \<lparr>left = None, right = None, parent = None, color = RB_RED, node_task = Some p\<rparr>))
        (tasks s1) (rq_root s1) (vr s1 p) Link_root None True = Some (link, par, lm)"
      "wr_link link (Some n) ((node_pool s1)(n := \<lparr>left = None, right = None, parent = par, color = RB_RED, node_task = Some p\<rparr>))
        (rq_root s1) = (h1, root1)"
      "eevdf_insert_fixup h1 root1 (Some n) = Some (h', root')"
    and fin: "rq_queue (s1\<lparr>node_bitmap := b, node_pool := h', rq_root := root', rq_leftmost := if lm then Some n else rq_leftmost s1,
      rq_load_weight := rq_load_weight s1 + w, rq_nr_running := rq_nr_running s1 + 1\<rparr>) (queue_add (vr s1) p q)" by auto
  have "eevdf_enqueue (Some p) s = Some (s1\<lparr>node_bitmap := b, node_pool := h', rq_root := root',
      rq_leftmost := if lm then Some n else rq_leftmost s1,
      rq_load_weight := rq_load_weight s1 + w, rq_nr_running := rq_nr_running s1 + 1\<rparr>)"
    using p(2) b(1) run w unfolding eevdf_enqueue_raised s1_def [symmetric] by (simp add: Let_def node)
  with fin show ?thesis by (intro exI conjI) (assumption, simp_all add: s1_def raised_def)
qed

text \<open>With all 64 nodes in use nothing is queued; only the virtual run time is raised.\<close>

lemma enqueue_full:
  assumes q: "rq_queue s q" and p: "p \<notin> set q" "t_state (tasks s p) = TASK_READY" and full: "length q = 64"
  shows "\<exists>s'. eevdf_enqueue (Some p) s = Some s' \<and> rq_queue s' q \<and>
    tasks s' = (tasks s)(p := (tasks s p)\<lparr>t_vruntime := max (vr s p) (rq_min_vruntime s)\<rparr>) \<and>
    rq_min_vruntime s' = rq_min_vruntime s"
proof -
  define s1 where "s1 = raised p s"
  note q1 = raised_queue [OF q p(1), folded s1_def]
  then obtain ns where ns: "rq_nodes s1 ns" "length ns = length q"
    by (auto simp: rq_queue_def dest: map_eq_imp_length_eq)
  with rq_nodes_length(2) [OF ns(1)] full have "alloc_node (node_bitmap s1) = Some (None, node_bitmap s1)"
    using alloc_node_spec [of "node_bitmap s1"] by auto
  then have "eevdf_enqueue (Some p) s = Some s1"
    using p(2) unfolding eevdf_enqueue_raised s1_def [symmetric] by (simp add: Let_def)
  with q1 show ?thesis by (simp add: s1_def raised_def)
qed


subsection \<open>Dequeue\<close>

text \<open>The climb ends at the node after the subtree, if there is one.\<close>

lemma eevdf_climb_spec:
  "rep h root (plug cs (Nd l c r)) \<Longrightarrow> eevdf_climb h (Some c) (cpar cs) = Some (head_opt (cafter cs))"
proof (induction cs arbitrary: l c r rule: cafter.induct)
  case 1
  then show ?case by (simp add: eevdf_climb.simps head_opt_def)
next
  case (2 a s cs)
  have "right (h a) \<noteq> Some c"
  proof
    assume "right (h a) = Some c"
    then have "ptr s = Some c" using 2(2) by (simp add: rep_def tree_ok_plug)
    then have "c \<in> set (inord s)" by (cases s) auto
    then show False using 2(2) by (simp add: rep_def)
  qed
  then show ?case by (simp add: eevdf_climb.simps head_opt_def)
next
  case (3 s a cs)
  then have "rep h root (plug cs (Nd s a (Nd l c r)))" by simp
  moreover have "right (h a) = Some c" "parent (h a) = cpar cs" using 3(2) by (simp_all add: rep_def tree_ok_plug)
  ultimately show ?case using 3(1) by (subst eevdf_climb.simps) simp
qed

lemma head_opt_append: "xs \<noteq> [] \<Longrightarrow> head_opt (xs @ ys) = head_opt xs"
  by (cases xs) (simp_all add: head_opt_def)

lemma tree_min_first: "tree_ok h par (Nd l a r) \<Longrightarrow> tree_min h (Some a) = Some (head_opt (inord (Nd l a r)))"
proof (induction l arbitrary: a r par)
  case Lf
  then show ?case by (subst tree_min.simps) (simp add: head_opt_def)
next
  case (Nd l1 b l2)
  then have "tree_min h (Some b) = Some (head_opt (inord (Nd l1 b l2)))" by (intro Nd.IH(1)) auto
  moreover have "head_opt (inord (Nd (Nd l1 b l2) a r)) = head_opt (inord (Nd l1 b l2))"
    using head_opt_append [of "inord (Nd l1 b l2)" "a # inord r"] by simp
  ultimately show ?case using Nd.prems by (subst tree_min.simps) simp
qed

text \<open>For a node without a left subtree, \<open>eevdf_next\<close> is the next node in order.\<close>

lemma eevdf_next_spec:
  assumes rep: "rep h root (plug cs (Nd l n r))"
  shows "eevdf_next h n = Some (head_opt (inord r @ cafter cs))"
proof (cases r)
  case Lf
  then show ?thesis using eevdf_climb_spec [OF rep] rep_node [OF rep] by (simp add: eevdf_next_def)
next
  case (Nd rl a rr)
  have "tree_ok h (Some n) r" using rep by (simp add: rep_def tree_ok_plug)
  with Nd rb_first_eq [of h "Some n" rl a rr] tree_min_first [of h "Some n" rl a rr]
  have "rb_first h (Some a) = Some (head_opt (inord r))" by (simp add: rb_first_def)
  moreover have "right (h n) = Some a" using rep_node [OF rep] Nd by simp
  moreover have "head_opt (inord r @ cafter cs) = head_opt (inord r)"
    using Nd by (intro head_opt_append) simp
  ultimately show ?thesis by (simp add: eevdf_next_def)
qed

text \<open>The tree part of \<open>eevdf_dequeue\<close>: the new leftmost node and the removal.\<close>

lemma eevdf_remove_node:
  assumes nodes: "rq_nodes s ns" and n: "n \<in> set ns"
    and b: "node_used b = (node_used (node_bitmap s))(n := False)"
  shows "\<exists>lm h root. (if rq_leftmost s = Some n then eevdf_next (node_pool s) n else Some (rq_leftmost s)) = Some lm \<and>
    eevdf_remove (node_pool s) (rq_root s) (Some n) = Some (h, root) \<and>
    rq_nodes (s\<lparr>rq_leftmost := lm, node_pool := h, rq_root := root, node_bitmap := b\<rparr>) (remove1 n ns) \<and>
    (\<forall>a. rb_node.more (h a) = rb_node.more (node_pool s a))"
proof -
  from nodes obtain t where t: "rep (node_pool s) (rq_root s) t" "rb_tree (color \<circ> node_pool s) t" "inord t = ns"
    and used: "set ns = {i. i < 64 \<and> node_used (node_bitmap s) i}" and lm: "rq_leftmost s = head_opt ns"
    by (auto simp: rq_nodes_def)
  from plug_at [of n t] n t(3) obtain cs l r where pl: "t = plug cs (Nd l n r)" by auto
  note rep = t(1) [unfolded pl] and bal = t(2) [unfolded pl]
  from rb_delete_spec [OF rep bal] eevdf_remove_eq [OF rep bal] obtain h root t' where
    d: "eevdf_remove (node_pool s) (rq_root s) (Some n) = Some (h, root)" "rep h root t'"
      "inord t' = cbefore cs @ inord l @ inord r @ cafter cs" "rb_tree (color \<circ> h) t'" "same_data (set (inord t)) (node_pool s) h"
    unfolding pl by auto
  have dist: "distinct ns" using t(1,3) by (auto simp: rep_def)
  have ns: "ns = cbefore cs @ inord l @ n # inord r @ cafter cs" using t(3) pl by auto
  have rm: "inord t' = remove1 n ns" using dist unfolding ns d(3) by (simp add: remove1_append)
  have "(if rq_leftmost s = Some n then eevdf_next (node_pool s) n else Some (rq_leftmost s)) = Some (head_opt (remove1 n ns))"
  proof (cases "cbefore cs @ inord l")
    case Nil
    then have "remove1 n ns = inord r @ cafter cs" "rq_leftmost s = Some n"
      using lm ns by (auto simp: head_opt_def)
    then show ?thesis using eevdf_next_spec [OF rep] by simp
  next
    case (Cons a xs)
    then have "ns = a # xs @ n # inord r @ cafter cs" using ns by simp
    then have "remove1 n ns = a # xs @ inord r @ cafter cs" "rq_leftmost s = Some a" "a \<noteq> n"
      using lm dist by (auto simp: head_opt_def remove1_append)
    then show ?thesis by (simp add: head_opt_def)
  qed
  moreover have "set (remove1 n ns) = {i. i < 64 \<and> node_used b i}" using used b dist by auto
  moreover have "rb_node.more (h a) = rb_node.more (node_pool s a)" for a using d(5) by (simp add: same_data_def)
  ultimately show ?thesis using d(1,2,4) rm by (auto simp: rq_nodes_def)
qed

lemma map_remove1: "map f xs = map Some ys \<Longrightarrow> distinct ys \<Longrightarrow> f x = Some y \<Longrightarrow> x \<in> set xs \<Longrightarrow>
  map f (remove1 x xs) = map Some (remove1 y ys)"
proof (induction xs arbitrary: ys)
  case (Cons a xs)
  then obtain z zs where ys: "ys = z # zs" by (cases ys) auto
  show ?case
  proof (cases "a = x")
    case False
    then have "Some y \<in> f ` set xs" using Cons.prems(3,4) by (auto intro: rev_image_eqI)
    moreover have "map f xs = map Some zs" using Cons.prems(1) ys by simp
    then have "f ` set xs = Some ` set zs" using list.set_map by metis
    ultimately have "y \<in> set zs" by auto
    with False Cons ys show ?thesis by auto
  qed (use Cons.prems ys in auto)
qed simp

lemma sum_list_remove1: "x \<in> set xs \<Longrightarrow> sum_list (map f (remove1 x xs)) + f x = (sum_list (map f xs) :: nat)"
  by (induction xs) auto

lemma dequeue_spec:
  assumes q: "rq_queue s q" and p: "p \<in> set q"
  shows "\<exists>s'. eevdf_dequeue (Some p) s = Some s' \<and> rq_queue s' (remove1 p q) \<and> tasks s' = tasks s \<and>
    rq_min_vruntime s' = rq_min_vruntime s"
proof -
  from q obtain ns where ns: "rq_nodes s ns" "map (\<lambda>n. node_task (node_pool s n)) ns = map Some q"
    and wf: "distinct q" "sorted (map (vr s) q)"
      "\<And>p. p \<in> set q \<Longrightarrow> weight_of (t_priority (tasks s p)) \<noteq> None \<and> rq_min_vruntime s \<le> vr s p"
      "rq_nr_running s = of_nat (length q)" "unat (rq_load_weight s) = sum_list (map (task_weight (tasks s)) q)"
    by (auto simp: rq_queue_def)
  from rq_queue_node(1) [OF ns wf(1) p] obtain n where
    n: "node_of_task s p = Some (Some n)" "n < 64" "n \<in> set ns" "node_task (node_pool s n) = Some p" by blast
  from free_node_spec [OF n(2), of "node_bitmap s"] obtain b where
    b: "free_node (Some n) (node_bitmap s) = Some b" "node_used b = (node_used (node_bitmap s))(n := False)" by blast
  from eevdf_remove_node [OF ns(1) n(3) b(2)] obtain lm h root where
    r: "(if rq_leftmost s = Some n then eevdf_next (node_pool s) n else Some (rq_leftmost s)) = Some lm"
      "eevdf_remove (node_pool s) (rq_root s) (Some n) = Some (h, root)"
      "rq_nodes (s\<lparr>rq_leftmost := lm, node_pool := h, rq_root := root, node_bitmap := b\<rparr>) (remove1 n ns)"
      "\<And>a. rb_node.more (h a) = rb_node.more (node_pool s a)" by blast
  from wf(3) [OF p] obtain w where w: "weight_of (t_priority (tasks s p)) = Some w" by auto
  let ?s = "s\<lparr>rq_leftmost := lm, node_pool := h, rq_root := root, rq_load_weight := rq_load_weight s - w,
      rq_nr_running := rq_nr_running s - 1, node_bitmap := b\<rparr>"
  have sum: "sum_list (map (task_weight (tasks s)) (remove1 p q)) + unat w = unat (rq_load_weight s)"
    using sum_list_remove1 [OF p, of "task_weight (tasks s)"] wf(5) w by (simp add: task_weight_def)
  then have le: "w \<le> rq_load_weight s" by (simp add: word_le_nat_alt)
  have "0 < length q" "length q \<le> 64" using p rq_queue_length [OF q] by (auto intro: length_pos_if_in_set)
  then have run: "0 < rq_nr_running s" by (simp add: wf(4) word_less_nat_alt unat_of_nat)
  have "eevdf_dequeue (Some p) s = Some ?s"
    using n(1) r(1,2) w le run b(1) unfolding eevdf_dequeue_def by (cases "rq_leftmost s = Some n") simp_all
  moreover have "rq_queue ?s (remove1 p q)"
  proof -
    have "rq_nodes ?s (remove1 n ns)" using r(3) by (simp add: rq_nodes_def)
    moreover have "map (\<lambda>n. node_task (h n)) (remove1 n ns) = map Some (remove1 p q)"
      using map_remove1 [OF ns(2) wf(1) n(4,3)] node_task_more [OF r(4)] by simp
    moreover have "sorted (map (vr s) (remove1 p q))" using wf(2) by (simp add: sorted_map_remove1)
    moreover have "unat (rq_load_weight s - w) = sum_list (map (task_weight (tasks s)) (remove1 p q))"
      using le sum by (simp add: unat_sub)
    moreover have "rq_nr_running s - 1 = of_nat (length (remove1 p q))"
      using wf(4) p \<open>0 < length q\<close> by (simp add: length_remove1 of_nat_diff Suc_leI)
    ultimately show ?thesis using wf(1,3) unfolding rq_queue_def
      by (intro conjI exI [of _ "remove1 n ns"]) (auto dest: notin_set_remove1 [THEN contrapos_nn])
  qed
  ultimately show ?thesis by simp
qed

lemma dequeue_absent: "rq_queue s q \<Longrightarrow> p \<notin> set q \<Longrightarrow> eevdf_dequeue (Some p) s = Some s"
  using rq_queue_node(2) [of s _ q p] by (auto simp: rq_queue_def eevdf_dequeue_def)

lemma pick_next_spec: "rq_queue s q \<Longrightarrow> eevdf_pick_next s = head_opt q"
proof -
  assume "rq_queue s q"
  then obtain ns where "rq_leftmost s = head_opt ns" "map (\<lambda>n. node_task (node_pool s n)) ns = map Some q"
    by (auto simp: rq_queue_def rq_nodes_def)
  then show ?thesis by (cases ns; cases q) (auto simp: eevdf_pick_next_def head_opt_def)
qed


subsection \<open>Time\<close>

text \<open>The share of a period \<open>delta\<close> that is charged to the running task.\<close>

lemma set_ctx_x_same: "set_ctx_x i (ctx_x c i) c = c"
  by (cases c) simp

lemma update_curr_spec:
  assumes q: "rq_queue s q" and p: "p \<notin> set q" and delta: "delta = now - ctx_x23 (t_context (tasks s p))"
    and fair: "fair = (delta * 1024) div ucast (load_or_default s)"
  shows "\<exists>s'. eevdf_update_curr (Some p) now s = Some s' \<and> rq_queue s' q \<and>
    tasks s' = (tasks s)(p := (tasks s p)\<lparr>
        t_context := set_ctx_x 23 now (t_context (tasks s p)), t_vruntime := vr s p + fair\<rparr>) \<and>
    rq_min_vruntime s' = (if delta = 0 then rq_min_vruntime s else case q of [] \<Rightarrow> vr s p + fair | x # _ \<Rightarrow> vr s x)"
proof (cases "delta = 0")
  case True
  then have "now = ctx_x23 (t_context (tasks s p))" by (simp add: delta)
  with True q show ?thesis by (simp add: eevdf_update_curr_def Let_def fair set_ctx_x_same)
next
  case False
  define tm where "tm = (tasks s)(p := (tasks s p)\<lparr>t_context := set_ctx_x 23 now (t_context (tasks s p)), t_vruntime := vr s p + fair\<rparr>)"
  have fair': "fair = (now - ctx_x23 (t_context (tasks s p))) * ucast EEVDF_NICE_0_LOAD div ucast (load_or_default s)"
    by (simp add: fair delta EEVDF_NICE_0_LOAD_def)
  define m where "m = (case q of [] \<Rightarrow> vr s p + fair | x # _ \<Rightarrow> vr s x)"
  have q1: "rq_queue (s\<lparr>tasks := tm\<rparr>) q" by (rule rq_queue_cong [OF q]) (use p in \<open>auto simp: tm_def\<close>)
  have "eevdf_update_curr (Some p) now s = Some (s\<lparr>tasks := tm, rq_min_vruntime := m\<rparr>)"
  proof -
    from q obtain ns where ns: "rq_leftmost s = head_opt ns" "map (\<lambda>n. node_task (node_pool s n)) ns = map Some q"
      by (auto simp: rq_queue_def rq_nodes_def)
    have "load_or_default (s\<lparr>tasks := x\<rparr>) = load_or_default s" for x by (simp add: load_or_default_def)
    then have "eevdf_update_curr (Some p) now s = (case rq_leftmost s of
        Some n \<Rightarrow> Option.bind (ld t_vruntime tm (node_task (node_pool s n))) (\<lambda>v. Some (s\<lparr>tasks := tm, rq_min_vruntime := v\<rparr>))
      | None \<Rightarrow> Some (s\<lparr>tasks := tm, rq_min_vruntime := vr s p + fair\<rparr>))"
      using False by (simp add: eevdf_update_curr_def Let_def delta tm_def fair' cong: option.case_cong)
    then show ?thesis using ns p by (cases ns; cases q) (auto simp: m_def tm_def head_opt_def)
  qed
  moreover have "rq_queue (s\<lparr>tasks := tm, rq_min_vruntime := m\<rparr>) q"
    using q1 p by (cases q) (auto simp: rq_queue_def rq_nodes_def m_def tm_def)
  ultimately show ?thesis using False by (simp add: tm_def m_def)
qed

lemma calc_slice_bounds:
  assumes "weight_of (t_priority (tasks s p)) \<noteq> None"
  shows "\<exists>n. eevdf_calc_slice (Some p) s = Some n \<and> EEVDF_MIN_GRANULARITY \<le> n \<and> n \<le> EEVDF_MAX_TIME_SLICE_NS"
  using assms by (auto simp: eevdf_calc_slice_def Let_def EEVDF_MIN_GRANULARITY_def EEVDF_MAX_TIME_SLICE_NS_def
    EEVDF_TIME_SLICE_NS_def)

lemma set_nice_spec:
  "weight_of (t_priority (tasks (eevdf_set_nice (Some p) nice s) p)) \<noteq> None"
  "p \<notin> set q \<Longrightarrow> rq_queue s q \<Longrightarrow> rq_queue (eevdf_set_nice (Some p) nice s) q"
proof -
  show "weight_of (t_priority (tasks (eevdf_set_nice (Some p) nice s) p)) \<noteq> None"
    by (simp add: eevdf_set_nice_def Let_def weight_of_def EEVDF_MIN_NICE_def EEVDF_MAX_NICE_def)
  show "rq_queue (eevdf_set_nice (Some p) nice s) q" if "p \<notin> set q" "rq_queue s q"
    unfolding eevdf_set_nice_def option.case Let_def by (rule rq_queue_cong [OF that(2)]) (use that(1) in auto)
qed

text \<open>Dequeueing looks at the task structures for the weight only.\<close>

lemma dequeue_other_tasks:
  assumes "eevdf_dequeue (Some p) s = Some s1" "node_of_task s p = Some (Some n)" "weight_of (t_priority (tm p)) = Some w"
  shows "eevdf_dequeue (Some p) (s\<lparr>tasks := tm\<rparr>) = Some (s1\<lparr>tasks := tm,
    rq_load_weight := if rq_load_weight s \<ge> w then rq_load_weight s - w else 0\<rparr>)"
proof -
  have "node_of_task (s\<lparr>tasks := tm\<rparr>) p = node_of_task s p" by (simp add: node_of_task_def)
  then show ?thesis using assms
    by (cases "rq_leftmost s = Some n"; cases "rq_nr_running s > 0")
      (auto simp: eevdf_dequeue_def Let_def split: Option.bind_splits)
qed

lemma set_nice_dequeue:
  assumes q: "rq_queue s q" and p: "p \<in> set q"
  shows "\<exists>s'. eevdf_dequeue (Some p) (eevdf_set_nice (Some p) nice s) = Some s' \<and>
    tasks s' = (tasks s)(p := (tasks s p)\<lparr>t_priority := max (-20) (min 19 nice)\<rparr>) \<and>
    unat (rq_load_weight s') = sum_list (map (task_weight (tasks s)) (remove1 p q)) +
      task_weight (tasks s) p - task_weight (tasks s') p \<and>
    rq_queue (s'\<lparr>rq_load_weight := of_nat (sum_list (map (task_weight (tasks s)) (remove1 p q)))\<rparr>) (remove1 p q)"
proof -
  obtain ns where "rq_nodes s ns" "map (\<lambda>n. node_task (node_pool s n)) ns = map Some q" "distinct q"
    and load: "unat (rq_load_weight s) = sum_list (map (task_weight (tasks s)) q)" using q by (auto simp: rq_queue_def)
  then obtain n where n: "node_of_task s p = Some (Some n)" using rq_queue_node(1) p by blast
  obtain s1 where s1: "eevdf_dequeue (Some p) s = Some s1" "rq_queue s1 (remove1 p q)" "tasks s1 = tasks s"
    using dequeue_spec [OF assms] by blast
  let ?tm = "(tasks s)(p := (tasks s p)\<lparr>t_priority := max (-20) (min 19 nice)\<rparr>)"
  have nice: "eevdf_set_nice (Some p) nice s = s\<lparr>tasks := ?tm\<rparr>"
    by (simp add: eevdf_set_nice_def Let_def EEVDF_MIN_NICE_def EEVDF_MAX_NICE_def max_def min_def)
  obtain w where w: "weight_of (t_priority (?tm p)) = Some w" using set_nice_spec(1) [of p nice s] nice by auto
  let ?load = "if rq_load_weight s \<ge> w then rq_load_weight s - w else 0"
  define s2 where "s2 = s1\<lparr>tasks := ?tm, rq_load_weight := ?load\<rparr>"
  have run: "eevdf_dequeue (Some p) (eevdf_set_nice (Some p) nice s) = Some s2"
    unfolding nice s2_def by (rule dequeue_other_tasks [where tm = ?tm, OF s1(1) n w])
  have "unat ?load = unat (rq_load_weight s) - unat w" by (auto simp: unat_sub word_le_nat_alt)
  moreover have "task_weight ?tm p = unat w" using w by (simp add: task_weight_def)
  moreover have "sum_list (map (task_weight (tasks s)) q) = sum_list (map (task_weight (tasks s)) (remove1 p q)) + task_weight (tasks s) p"
    using sum_list_remove1 [OF p, of "task_weight (tasks s)"] by simp
  ultimately have l: "unat (rq_load_weight s2) = sum_list (map (task_weight (tasks s)) (remove1 p q)) +
      task_weight (tasks s) p - task_weight (tasks s2) p" using load by (simp add: s2_def del: fun_upd_apply)
  have "rq_load_weight s1 = of_nat (sum_list (map (task_weight (tasks s)) (remove1 p q)))"
    using s1(2,3) unfolding rq_queue_def by (metis of_nat_unat ucast_id)
  then have "s2\<lparr>rq_load_weight := of_nat (sum_list (map (task_weight (tasks s)) (remove1 p q)))\<rparr> = s1\<lparr>tasks := ?tm\<rparr>"
    by (simp add: s2_def)
  moreover have "rq_queue (s1\<lparr>tasks := ?tm\<rparr>) (remove1 p q)"
    by (rule rq_queue_cong [OF s1(2)]) (use \<open>distinct q\<close> s1(3) in auto)
  ultimately show ?thesis using run l by (intro exI [of _ s2]) (simp add: s2_def)
qed

lemma eevdf_init_queue: "rq_queue (eevdf_init s) []"
  by (auto simp: rq_queue_def rq_nodes_def eevdf_init_def head_opt_def rep_def rb_tree_def node_used_def arr_bit_def
    intro!: exI [of _ Lf])


subsection \<open>The contract of a run queue\<close>

lemma queue_add_mem [simp]: "set (queue_add v p q) = insert p (set q)"
  by (auto simp: queue_add_def not_le)

lemma remove_added: "p \<notin> set q \<Longrightarrow> sorted (map v q) \<Longrightarrow> remove1 p (queue_add v p q) = q"
proof (induction q)
  case (Cons a q)
  then show ?case
  proof (cases "v a \<le> v p")
    case False
    then have "\<forall>x\<in>set q. v p < v x" using Cons.prems(2) by fastforce
    then have "filter (\<lambda>x. v x \<le> v p) q = []" "filter (\<lambda>x. v p < v x) q = q"
      by (auto simp: filter_empty_conv filter_id_conv not_le)
    with False Cons.prems(1) show ?thesis by (auto simp: queue_add_def not_le)
  qed (auto simp: queue_add_def remove1_append)
qed (simp add: queue_add_def)

lemma queue_add_length [simp]: "length (queue_add v p q) = Suc (length q)"
proof -
  have "length (filter (\<lambda>x. v x \<le> v p) q) + length (filter (\<lambda>x. v p < v x) q) = length q"
    by (induction q) (auto simp: not_le)
  then show ?thesis by (simp add: queue_add_def)
qed

text \<open>
  What the scheduler relies on. \<open>holds s q\<close>: the queue holds the tasks \<open>q\<close> in order of \<open>key\<close>, at most \<open>cap\<close>
  of them and none below \<open>low\<close>. A task added is raised to \<open>low\<close> first and stands behind its equals.
\<close>

locale run_queue =
  fixes holds :: "'s \<Rightarrow> 'p list \<Rightarrow> bool"
    and key :: "'s \<Rightarrow> 'p \<Rightarrow> u64"
    and low :: "'s \<Rightarrow> u64"
    and ready :: "'s \<Rightarrow> 'p \<Rightarrow> bool"
    and cap :: nat
    and enq :: "'p option \<Rightarrow> 's \<Rightarrow> 's option"
    and deq :: "'p option \<Rightarrow> 's \<Rightarrow> 's option"
    and pick :: "'s \<Rightarrow> 'p option"
    and queued :: "'p option \<Rightarrow> 's \<Rightarrow> bool option"
  assumes wf: "holds s q \<Longrightarrow> distinct q \<and> sorted (map (key s) q) \<and> length q \<le> cap \<and> (\<forall>p\<in>set q. low s \<le> key s p)"
    and pick: "holds s q \<Longrightarrow> pick s = head_opt q"
    and queued: "holds s q \<Longrightarrow> queued (Some p) s = Some (p \<in> set q)"
    and enq: "holds s q \<Longrightarrow> p \<notin> set q \<Longrightarrow> ready s p \<Longrightarrow> length q < cap \<Longrightarrow>
      \<exists>s'. enq (Some p) s = Some s' \<and> holds s' (queue_add (key s') p q) \<and>
        key s' = (key s)(p := max (key s p) (low s)) \<and> low s' = low s"
    and deq: "holds s q \<Longrightarrow> p \<in> set q \<Longrightarrow>
      \<exists>s'. deq (Some p) s = Some s' \<and> holds s' (remove1 p q) \<and> key s' = key s \<and> low s' = low s"
    and deq_absent: "holds s q \<Longrightarrow> p \<notin> set q \<Longrightarrow> deq (Some p) s = Some s"
begin

lemma pick_least:
  assumes "holds s q" "q \<noteq> []"
  shows "\<exists>p. pick s = Some p \<and> p \<in> set q \<and> (\<forall>x\<in>set q. key s p \<le> key s x)"
  using pick [OF assms(1)] wf [OF assms(1)] assms(2) by (cases q) (auto simp: head_opt_def)

lemma pick_empty: "holds s q \<Longrightarrow> pick s = None \<longleftrightarrow> q = []"
  using pick [of s q] by (cases q) (auto simp: head_opt_def)

lemma deq_first:
  assumes "holds s (p # q)"
  shows "\<exists>s'. deq (Some p) s = Some s' \<and> holds s' q \<and> key s' = key s \<and> low s' = low s"
  using deq [OF assms, of p] by simp

text \<open>The queue comes out in order.\<close>

lemma drain_all: "holds s q \<Longrightarrow> length q \<le> k \<Longrightarrow> \<exists>s'. drain pick deq k s = Some (q, s') \<and> holds s' []"
proof (induction k arbitrary: s q)
  case (Suc k)
  show ?case
  proof (cases q)
    case (Cons p q')
    with deq_first [of s p q'] Suc.prems obtain s' where "deq (Some p) s = Some s'" "holds s' q'" by auto
    with Suc.IH [of s' q'] Suc.prems Cons pick [OF Suc.prems(1)] show ?thesis by (auto simp: head_opt_def)
  qed (use Suc.prems pick [OF Suc.prems(1)] in \<open>auto simp: head_opt_def\<close>)
qed simp

text \<open>Adding a task and taking it out again leaves the queue as it was.\<close>

lemma enq_deq:
  assumes "holds s q" "p \<notin> set q" "ready s p" "length q < cap"
  shows "\<exists>s1 s2. enq (Some p) s = Some s1 \<and> queued (Some p) s1 = Some True \<and> deq (Some p) s1 = Some s2 \<and> holds s2 q"
proof -
  from enq [OF assms] obtain s1 where
    s1: "enq (Some p) s = Some s1" "holds s1 (queue_add (key s1) p q)" "key s1 = (key s)(p := max (key s p) (low s))" by blast
  from deq [OF s1(2), of p] obtain s2 where s2: "deq (Some p) s1 = Some s2" "holds s2 (remove1 p (queue_add (key s1) p q))"
    by auto
  have "sorted (map (key s1) q)" using assms(2) wf [OF assms(1)] by (simp add: s1(3))
  then have "remove1 p (queue_add (key s1) p q) = q" using assms(2) by (intro remove_added) auto
  with s1 s2 queued [OF s1(2)] show ?thesis by auto
qed

text \<open>A task that joins a queue whose first task is at \<open>low\<close> does not become the first.\<close>

lemma enq_keeps_first:
  assumes "holds s (x # q)" "key s x \<le> low s" "p \<notin> set (x # q)" "ready s p" "length (x # q) < cap"
  shows "\<exists>s'. enq (Some p) s = Some s' \<and> holds s' (x # queue_add (key s') p q) \<and> pick s' = Some x \<and>
    key s' = (key s)(p := max (key s p) (low s)) \<and> low s' = low s"
proof -
  from enq [OF assms(1,3,4,5)] obtain s' where
    s': "enq (Some p) s = Some s'" "holds s' (queue_add (key s') p (x # q))"
      "key s' = (key s)(p := max (key s p) (low s))" "low s' = low s" by blast
  have "key s' x \<le> key s' p" using assms(2,3) by (auto simp: s'(3) max_def)
  then have "queue_add (key s') p (x # q) = x # queue_add (key s') p q"
    by (simp add: queue_add_def not_less)
  with s' pick [OF s'(2)] show ?thesis by (simp add: head_opt_def)
qed

end

interpretation rq: run_queue rq_queue vr rq_min_vruntime
  "\<lambda>s p. t_state (tasks s p) = TASK_READY \<and> weight_of (t_priority (tasks s p)) \<noteq> None" 64
  eevdf_enqueue eevdf_dequeue eevdf_pick_next eevdf_is_queued
proof (unfold_locales, goal_cases)
  case (1 s q)
  then show ?case using rq_queue_length [of s q] by (auto simp: rq_queue_def)
next
  case (4 s q p)
  with enqueue_spec [of s q p] show ?case by (auto simp: fun_eq_iff)
next
  case (5 s q p)
  with dequeue_spec [of s q p] show ?case by auto
qed (simp_all add: pick_next_spec is_queued_spec dequeue_absent)


lemma demo_rq_queue: "rq_queue demo_rq []" "tasks demo_rq = (\<lambda>_. demo_task)" "weight_of 0 = Some 1024"
  "rq_min_vruntime demo_rq = 0"
  unfolding demo_rq_def by (rule eevdf_init_queue)
    (simp_all add: eevdf_init_def weight_of_def eevdf_nice_to_weight_def)

lemma demo_rq_one:
  "\<exists>s. eevdf_enqueue (Some 4096) demo_rq = Some s \<and> rq_queue s [4096] \<and> tasks s = (\<lambda>_. demo_task) \<and> rq_min_vruntime s = 0"
  using enqueue_spec [OF demo_rq_queue(1), of 4096]
  by (auto simp: demo_rq_queue demo_task_def queue_add_def fun_eq_iff)

lemma load_one:
  assumes "rq_queue s [x]" "weight_of (t_priority (tasks s x)) = Some w"
  shows "rq_nr_running s = 1" "rq_load_weight s = w"
  using assms by (auto simp: rq_queue_def task_weight_def dest: word_unat_eq_iff [THEN iffD2])

section \<open>Properties\<close>

text \<open>
  C5 Enqueueing is stable insertion: a READY task that is not queued is raised to \<open>min_vruntime\<close> and
  stands behind every task that has not run longer and before every task that has; the
  tree stays a red-black tree, the leftmost pointer and both counters stay exact. Any other task
  changes nothing, and with all 64 nodes in use only the virtual run time is raised.
\<close>

theorem eevdf_enqueue_refines:
  assumes "rq_queue s q" "p \<notin> set q" "weight_of (t_priority (tasks s p)) \<noteq> None"
  shows "\<exists>s'. eevdf_enqueue (Some p) s = Some s' \<and>
    (if t_state (tasks s p) \<noteq> TASK_READY then s' = s
     else rq_queue s' (if length q < 64 then queue_add (vr s') p q else q) \<and>
       tasks s' = (tasks s)(p := (tasks s p)\<lparr>t_vruntime := max (vr s p) (rq_min_vruntime s)\<rparr>))"
proof (cases "t_state (tasks s p) = TASK_READY")
  case True
  show ?thesis
  proof (cases "length q < 64")
    case False
    then have "length q = 64" using rq_queue_length [OF assms(1)] by simp
    with enqueue_full [OF assms(1,2) True] True show ?thesis by auto
  qed (use enqueue_spec [OF assms(1,2) True assms(3)] True in auto)
qed (simp add: eevdf_enqueue_def)

theorem eevdf_enqueue_refines_witness:
  "\<exists>s'. eevdf_enqueue (Some 4096) demo_rq = Some s' \<and> rq_queue s' [4096]"
  using eevdf_enqueue_refines [OF demo_rq_queue(1), of 4096]
  by (auto simp: demo_rq_queue demo_task_def queue_add_def)

text \<open>
  C6 Dequeueing takes exactly the task out, the others keep their order and the tree, the leftmost
  pointer and the counters stay exact; a task that is not queued changes nothing. No task
  structure is written.
\<close>

theorem eevdf_dequeue_refines:
  assumes "rq_queue s q"
  shows "\<exists>s'. eevdf_dequeue (Some p) s = Some s' \<and> rq_queue s' (remove1 p q) \<and> tasks s' = tasks s \<and>
    (p \<notin> set q \<longrightarrow> s' = s)"
  using dequeue_spec [OF assms, of p] dequeue_absent [OF assms, of p] assms
  by (cases "p \<in> set q") (auto simp: remove1_idem)

theorem eevdf_dequeue_refines_witness:
  "\<exists>s s'. eevdf_enqueue (Some 4096) demo_rq = Some s \<and> eevdf_dequeue (Some 4096) s = Some s' \<and> rq_queue s' []"
proof -
  from demo_rq_one obtain s where s: "eevdf_enqueue (Some 4096) demo_rq = Some s" "rq_queue s [4096]" by blast
  from eevdf_dequeue_refines [OF s(2), of 4096] s(1) show ?thesis by auto
qed

text \<open>
  Picking and dequeueing until the queue is empty hands out every queued task exactly once, in
  order of virtual run time and first in first out among equals: each step takes a task of
  least virtual run time.
\<close>

theorem eevdf_drains_in_order:
  assumes "rq_queue s q"
  shows "\<exists>s'. drain eevdf_pick_next eevdf_dequeue 64 s = Some (q, s') \<and> rq_queue s' [] \<and> sorted (map (vr s) q)"
  using rq.drain_all [OF assms, of 64] rq_queue_length [OF assms] rq.wf [OF assms] by blast

theorem eevdf_drains_in_order_witness:
  "\<exists>s s'. eevdf_enqueue (Some 4096) demo_rq = Some s \<and> drain eevdf_pick_next eevdf_dequeue 64 s = Some ([4096], s')"
proof -
  from demo_rq_one obtain s where s: "eevdf_enqueue (Some 4096) demo_rq = Some s" "rq_queue s [4096]" by blast
  from eevdf_drains_in_order [OF s(2)] s(1) show ?thesis by blast
qed

text \<open>
  C7 A time slice is never shorter than \<open>EEVDF_MIN_GRANULARITY\<close> nor longer than
  \<open>EEVDF_MAX_TIME_SLICE_NS\<close>, for every queue and load. But the product of the target latency and the
  weight is a 32-bit one: two tasks of nice value 0, one of them queued, ask for 6000000 ns and get
  1805696 ns.
\<close>

theorem eevdf_calc_slice_range:
  assumes "weight_of (t_priority (tasks s p)) \<noteq> None"
  shows "\<exists>n. eevdf_calc_slice (Some p) s = Some n \<and> EEVDF_MIN_GRANULARITY \<le> n \<and> n \<le> EEVDF_MAX_TIME_SLICE_NS \<and>
    (rq_nr_running s = 1 \<and> rq_load_weight s = 1024 \<and> t_priority (tasks s p) = 0 \<longrightarrow> n = 1805696)"
proof -
  have "eevdf_calc_slice (Some p) s = Some 1805696"
    if "rq_nr_running s = 1" "rq_load_weight s = 1024" "t_priority (tasks s p) = 0"
    using that by (simp add: eevdf_calc_slice_def demo_rq_queue(3) load_or_default_def EEVDF_TARGET_LATENCY_def
        EEVDF_MIN_GRANULARITY_def EEVDF_MAX_TIME_SLICE_NS_def)
  with calc_slice_bounds [OF assms] show ?thesis by auto
qed

theorem eevdf_calc_slice_range_witness:
  "\<exists>s. eevdf_enqueue (Some 4096) demo_rq = Some s \<and> eevdf_calc_slice (Some 8192) s = Some 1805696"
proof -
  from demo_rq_one obtain s where s: "eevdf_enqueue (Some 4096) demo_rq = Some s" "rq_queue s [4096]" "tasks s = (\<lambda>_. demo_task)"
    by blast
  have "rq_nr_running s = 1" "rq_load_weight s = 1024" "t_priority (tasks s 8192) = 0"
    using load_one [OF s(2)] s(3) by (simp_all add: demo_task_def demo_rq_queue(3))
  with eevdf_calc_slice_range [of s 8192] s(1) show ?thesis by (auto simp: demo_rq_queue(3))
qed

text \<open>
  The virtual run time charged to a running task is its time scaled by the load of the queue; the
  nice value of the task does not enter, so two tasks that differ in it only are charged alike.
  The queue stays as it is and \<open>min_vruntime\<close> becomes that of its first task, or of the
  running task when nothing is queued.
\<close>

theorem eevdf_update_curr_charges:
  assumes "rq_queue s q" "p \<notin> set q" "now \<noteq> ctx_x23 (t_context (tasks s p))"
  shows "\<exists>s'. eevdf_update_curr (Some p) now s = Some s' \<and> rq_queue s' q \<and>
    vr s' p = vr s p + (now - ctx_x23 (t_context (tasks s p))) * 1024 div ucast (load_or_default s) \<and>
    rq_min_vruntime s' = (case q of [] \<Rightarrow> vr s' p | x # _ \<Rightarrow> vr s x) \<and> (\<forall>x. x \<noteq> p \<longrightarrow> tasks s' x = tasks s x)"
proof -
  define delta where "delta = now - ctx_x23 (t_context (tasks s p))"
  define fair where "fair = delta * 1024 div ucast (load_or_default s)"
  have "delta \<noteq> 0" using assms(3) by (simp add: delta_def)
  with update_curr_spec [OF assms(1,2) delta_def fair_def] obtain s' where
    s': "eevdf_update_curr (Some p) now s = Some s'" "rq_queue s' q"
      "tasks s' = (tasks s)(p := (tasks s p)\<lparr>t_context := set_ctx_x 23 now (t_context (tasks s p)), t_vruntime := vr s p + fair\<rparr>)"
      "rq_min_vruntime s' = (case q of [] \<Rightarrow> vr s p + fair | x # _ \<Rightarrow> vr s x)" by auto
  then show ?thesis unfolding delta_def [symmetric] fair_def [symmetric]
    by (intro exI [of _ s'] conjI) (simp_all split: list.splits)
qed

theorem eevdf_update_curr_charges_witness:
  "\<exists>s'. eevdf_update_curr (Some 4096) 5000 demo_rq = Some s' \<and> vr s' 4096 = 5000 \<and> rq_min_vruntime s' = 5000"
proof -
  have load: "load_or_default demo_rq = 1024"
    by (simp add: load_or_default_def demo_rq_def eevdf_init_def EEVDF_NICE_0_LOAD_def)
  show ?thesis
    using eevdf_update_curr_charges [OF demo_rq_queue(1), of 4096 5000]
    by (auto simp: demo_rq_queue(2) demo_task_def load)
qed

text \<open>
  C8 Changing the nice value of a queued task stores the value clamped to -20 .. 19 and touches no other task, but
  the load of the queue keeps the old weight. When the task is dequeued its new weight is taken off: the tree, the order
  of the others, the leftmost pointer and the number of tasks are exact, and the load is wrong by the difference of the
  two weights (and cut off at 0).
\<close>

theorem eevdf_set_nice_load_drifts:
  assumes "rq_queue s q" "p \<in> set q"
  shows "\<exists>s'. eevdf_dequeue (Some p) (eevdf_set_nice (Some p) nice s) = Some s' \<and>
    tasks s' = (tasks s)(p := (tasks s p)\<lparr>t_priority := max (-20) (min 19 nice)\<rparr>) \<and>
    unat (rq_load_weight s') = sum_list (map (task_weight (tasks s)) (remove1 p q)) +
      task_weight (tasks s) p - task_weight (tasks s') p \<and>
    rq_queue (s'\<lparr>rq_load_weight := of_nat (sum_list (map (task_weight (tasks s)) (remove1 p q)))\<rparr>) (remove1 p q)"
  using assms by (rule set_nice_dequeue)

text \<open>One task of weight 1024 is queued, set to nice value 19 (weight 15) and dequeued: the empty queue has a load of 1009.\<close>

theorem eevdf_set_nice_load_drifts_witness:
  "\<exists>s s'. eevdf_enqueue (Some 4096) demo_rq = Some s \<and>
     eevdf_dequeue (Some 4096) (eevdf_set_nice (Some 4096) 100 s) = Some s' \<and> unat (rq_load_weight s') = 1009 \<and>
     rq_queue (s'\<lparr>rq_load_weight := 0\<rparr>) []"
proof -
  from demo_rq_one obtain s where s: "eevdf_enqueue (Some 4096) demo_rq = Some s" "rq_queue s [4096]" "tasks s = (\<lambda>_. demo_task)" by blast
  from eevdf_set_nice_load_drifts [OF s(2), of 4096 100] s(1,3) show ?thesis
    by (auto simp: task_weight_def demo_task_def weight_of_def eevdf_nice_to_weight_def)
qed

end
