(* ===== verification/Pid.thy ===== *)
theory Pid
  imports Prelude
begin

text \<open>
  The PID allocator, \<open>src/kernel/pid.c\<close>: a bitmap of \<open>MAX_PID\<close> bits in 32-bit words, the first
  clear bit from 1 on is handed out. The bitmap is the whole state; the spinlock around each
  operation makes the operations atomic and is not part of it.
\<close>

section \<open>Definitions\<close>

definition MAX_PID :: nat where
  "MAX_PID = 32768"

type_synonym pid_bitmap = "nat \<Rightarrow> u32"

definition pid_test :: "pid_bitmap \<Rightarrow> nat \<Rightarrow> bool option" where
  "pid_test b i = do {
     w \<leftarrow> arr_get (MAX_PID div 32) b (i div 32);
     Some (w AND push_bit (i mod 32) 1 \<noteq> 0) }"

definition pid_set :: "pid_bitmap \<Rightarrow> nat \<Rightarrow> pid_bitmap option" where
  "pid_set b i = do {
     w \<leftarrow> arr_get (MAX_PID div 32) b (i div 32);
     arr_set (MAX_PID div 32) b (i div 32) (w OR push_bit (i mod 32) 1) }"

definition pid_clear :: "pid_bitmap \<Rightarrow> nat \<Rightarrow> pid_bitmap option" where
  "pid_clear b i = do {
     w \<leftarrow> arr_get (MAX_PID div 32) b (i div 32);
     arr_set (MAX_PID div 32) b (i div 32) (w AND NOT (push_bit (i mod 32) 1)) }"

text \<open>\<open>memset\<close> to 0, then \<open>pid_bitmap[0] |= 1\<close>: PID 0 belongs to the idle task.\<close>

definition pid_init :: pid_bitmap where
  "pid_init = (\<lambda>_. 0)(0 := 0 OR 1)"

definition pid_alloc :: "pid_bitmap \<Rightarrow> (int \<times> pid_bitmap) option" where
  "pid_alloc b = do {
     r \<leftarrow> for_ret 1 MAX_PID (\<lambda>i b. do {
       t \<leftarrow> pid_test b i;
       if \<not> t then do { b' \<leftarrow> pid_set b i; Some (Inl (int i, b')) } else Some (Inr b) }) b;
     case r of Inl res \<Rightarrow> Some res | Inr b' \<Rightarrow> Some (-1, b') }"

definition pid_free :: "int \<Rightarrow> pid_bitmap \<Rightarrow> pid_bitmap option" where
  "pid_free pid b =
     (if pid \<le> 0 \<or> pid \<ge> int MAX_PID then Some b else pid_clear b (nat pid))"

text \<open>The PIDs a bitmap marks as taken.\<close>

definition pid_taken :: "pid_bitmap \<Rightarrow> nat \<Rightarrow> bool" where
  "pid_taken b = arr_bit b"

section \<open>Lemmas\<close>

interpretation pb: bitmap MAX_PID pid_taken pid_test pid_set pid_clear
proof unfold_locales
  fix i b
  assume "i < MAX_PID"
  then have w: "i div 32 < MAX_PID div 32" by (simp add: MAX_PID_def)
  show "pid_test b i = Some (pid_taken b i)"
    by (simp add: pid_test_def w pid_taken_def arr_bit_def and_exp_eq_0_iff_not_bit)
  show "\<exists>b'. pid_set b i = Some b' \<and> pid_taken b' = (pid_taken b)(i := True)"
    by (simp add: pid_set_def w pid_taken_def arr_bit_set)
  show "\<exists>b'. pid_clear b i = Some b' \<and> pid_taken b' = (pid_taken b)(i := False)"
    by (simp add: pid_clear_def w pid_taken_def arr_bit_clear)
qed

lemma pid_taken_init: "pid_taken pid_init j \<longleftrightarrow> j = 0"
proof -
  have "j div 32 = 0 \<and> j mod 32 = 0 \<longleftrightarrow> j = 0" by auto
  then show ?thesis by (auto simp: pid_taken_def arr_bit_def pid_init_def bit_1_iff)
qed

lemma pid_free_clears:
  "\<exists>b'. pid_free p b = Some b' \<and>
     pid_taken b' = (if 0 < p \<and> p < int MAX_PID then (pid_taken b)(nat p := False) else pid_taken b)"
  using pb.cl [of "nat p" b] by (auto simp: pid_free_def)

section \<open>Properties\<close>

text \<open>
  The allocator hands out the least PID of 1 .. \<open>MAX_PID - 1\<close> that is not taken and marks
  exactly that one; when all are taken it returns -1 and changes nothing. It never leaves the
  bitmap array.
\<close>

theorem pid_alloc_least_free:
  "(\<exists>k b'. pid_alloc b = Some (int k, b') \<and> 0 < k \<and> k < MAX_PID \<and> \<not> pid_taken b k \<and>
      (\<forall>j. 0 < j \<and> j < k \<longrightarrow> pid_taken b j) \<and> pid_taken b' = (pid_taken b)(k := True)) \<or>
   (pid_alloc b = Some (-1, b) \<and> (\<forall>j. 0 < j \<and> j < MAX_PID \<longrightarrow> pid_taken b j))"
  using pb.first_clear [of 1 MAX_PID int b]
  by (fastforce simp: pid_alloc_def MAX_PID_def Suc_le_eq)

theorem pid_alloc_least_free_witness:
  "\<exists>b'. pid_alloc pid_init = Some (1, b') \<and> pid_taken b' = (pid_taken pid_init)(1 := True)"
proof -
  from pid_alloc_least_free [of pid_init] show ?thesis
  proof (elim disjE exE conjE, goal_cases)
    case (1 k b')
    then have "k = 1" using pid_taken_init [of 1] by (cases "k = 1") auto
    with 1 show ?case by auto
  next
    case 2
    then have "pid_taken pid_init 1" by (simp add: MAX_PID_def)
    then show ?case by (simp add: pid_taken_init)
  qed
qed

text \<open>
  Freeing clears exactly the freed PID, ignores 0 and everything out of range, and after it the
  same PID can be allocated again.
\<close>

theorem pid_free_spec:
  "\<exists>b'. pid_free p b = Some b' \<and>
     pid_taken b' = (if 0 < p \<and> p < int MAX_PID then (pid_taken b)(nat p := False) else pid_taken b)"
  by (rule pid_free_clears)

end
