(* ===== verification/Sched.thy ===== *)
theory Sched
  imports Eevdf Pid
begin

text \<open>
  The scheduler, \<open>src/kernel/sched/sched.c\<close>, and the part of \<open>src/kernel/sched/task.c\<close> that works on existing
  tasks: the current task, the task list, \<open>task_exit\<close> and \<open>task_kill\<close>.

  A call of \<open>panic\<close> ends the run and is \<open>Inl\<close>. A call of \<open>switch_to\<close>, or the jump to the next task when
  there is no previous one, is the outcome \<open>Switched prev next\<close>: the state is the one in which the
  registers of \<open>next\<close> are loaded. Code after a call of \<open>schedule\<close> that is marked unreachable is \<open>None\<close>.
  The readings of the timer (\<open>get_ns\<close>) are arguments, in the order the code takes them.

  The invariant \<open>sched_ok\<close> is the one the code itself checks by \<open>panic\<close>: a task is in the run queue
  exactly when it is READY and not the idle task, and exactly the current task is RUNNING.
\<close>

section \<open>Definitions\<close>

subsection \<open>State\<close>

record sched_state =
  rqs :: eevdf_state
  current_task :: task_ptr
  task_list :: task_ptr
  pids :: pid_bitmap

datatype sched_panic =
  Ready_not_queued | Zombie_queued | No_idle_task | Running_still_queued | Still_queued | Running_queued

datatype sched_exit = Returned | Switched task_ptr u64

text \<open>A computation that may panic, and the rest of the function.\<close>

definition and_then :: "('e + 'a) option \<Rightarrow> ('a \<Rightarrow> ('e + 'b) option) \<Rightarrow> ('e + 'b) option" where
  "and_then m f = Option.bind m (case_sum (\<lambda>e. Some (Inl e)) f)"

abbreviation tk :: "sched_state \<Rightarrow> u64 \<Rightarrow> task" where
  "tk s \<equiv> tasks (rqs s)"

definition set_task :: "u64 \<Rightarrow> (task \<Rightarrow> task) \<Rightarrow> sched_state \<Rightarrow> sched_state" where
  "set_task p f s = s\<lparr>rqs := (rqs s)\<lparr>tasks := (tasks (rqs s))(p := f (tasks (rqs s) p))\<rparr>\<rparr>"

subsection \<open>Tasks\<close>

definition task_current :: "sched_state \<Rightarrow> task_ptr" where
  "task_current s = current_task s"

definition task_set_current :: "task_ptr \<Rightarrow> sched_state \<Rightarrow> sched_state" where
  "task_set_current p s = s\<lparr>current_task := p\<rparr>"

partial_function (option) find_pid_from :: "task_mem \<Rightarrow> task_ptr \<Rightarrow> int \<Rightarrow> task_ptr option" where
  "find_pid_from tm p pid = (case p of None \<Rightarrow> Some None
   | Some a \<Rightarrow> if t_pid (tm a) = pid then Some (Some a) else find_pid_from tm (t_next (tm a)) pid)"

definition task_find_by_pid :: "int \<Rightarrow> sched_state \<Rightarrow> task_ptr option" where
  "task_find_by_pid pid s = find_pid_from (tasks (rqs s)) (task_list s) pid"

subsection \<open>schedule\<close>

text \<open>
  The previous task is charged, becomes READY and joins the queue unless it is the idle task; the same
  text in \<open>schedule\<close> and \<open>schedule_preempt\<close>.
\<close>

definition give_back :: "u64 \<Rightarrow> u64 \<Rightarrow> sched_state \<Rightarrow> (sched_panic + sched_state) option" where
  "give_back now prev s = do {
     rq \<leftarrow> eevdf_update_curr (Some prev) now (rqs s);
     let s = set_task prev (t_state_update (\<lambda>_. TASK_READY)) (s\<lparr>rqs := rq\<rparr>);
     if t_pid (tk s prev) \<noteq> 0 then do {
       rq \<leftarrow> eevdf_enqueue (Some prev) (rqs s);
       queued \<leftarrow> eevdf_is_queued (Some prev) rq;
       Some (if \<not> queued then Inl Ready_not_queued else Inr (s\<lparr>rqs := rq\<rparr>))
     } else Some (Inr s) }"

definition schedule_put_prev :: "u64 \<Rightarrow> u64 \<Rightarrow> sched_state \<Rightarrow> (sched_panic + sched_state) option" where
  "schedule_put_prev now prev s =
     and_then (if t_state (tk s prev) = TASK_RUNNING then give_back now prev s else Some (Inr s))
       (\<lambda>s. if t_state (tk s prev) = TASK_ZOMBIE then do {
              queued \<leftarrow> eevdf_is_queued (Some prev) (rqs s);
              Some (if queued then Inl Zombie_queued else Inr s)
            } else Some (Inr s))"

definition schedule_pick :: "sched_state \<Rightarrow> (sched_panic + u64) option" where
  "schedule_pick s = (case eevdf_pick_next (rqs s) of Some next \<Rightarrow> Some (Inr next)
   | None \<Rightarrow> do {
       next \<leftarrow> task_find_by_pid 0 s;
       Some (case next of None \<Rightarrow> Inl No_idle_task | Some next \<Rightarrow> Inr next) })"

text \<open>The early return, when the next task is the previous one.\<close>

definition schedule_stay :: "u64 \<Rightarrow> sched_state \<Rightarrow> (sched_panic + sched_state) option" where
  "schedule_stay prev s =
     (if t_state (tk s prev) = TASK_READY then do {
        let s = set_task prev (t_state_update (\<lambda>_. TASK_RUNNING)) s;
        rq \<leftarrow> eevdf_dequeue (Some prev) (rqs s);
        queued \<leftarrow> eevdf_is_queued (Some prev) rq;
        Some (if queued then Inl Running_still_queued else Inr (s\<lparr>rqs := rq\<rparr>))
      } else Some (Inr s))"

text \<open>The next task becomes the current one; the same text in \<open>schedule\<close> and \<open>schedule_preempt\<close>.\<close>

definition schedule_take :: "u64 \<Rightarrow> u64 \<Rightarrow> sched_state \<Rightarrow> (sched_panic + sched_state) option" where
  "schedule_take next now s = and_then
     (if t_pid (tk s next) \<noteq> 0 then do {
        rq \<leftarrow> eevdf_dequeue (Some next) (rqs s);
        queued \<leftarrow> eevdf_is_queued (Some next) rq;
        Some (if queued then Inl Still_queued else Inr (s\<lparr>rqs := rq\<rparr>))
      } else Some (Inr s))
     (\<lambda>s. do {
        let s = set_task next (t_state_update (\<lambda>_. TASK_RUNNING)) s;
        queued \<leftarrow> eevdf_is_queued (Some next) (rqs s);
        if queued then Some (Inl Running_queued)
        else do {
          let s = set_task next (t_context_update (set_ctx_x 23 now)) s;
          slice \<leftarrow> eevdf_calc_slice (Some next) (rqs s);
          let s = set_task next (t_time_slice_update (\<lambda>_. slice)) s;
          Some (Inr (task_set_current (Some next) s)) } })"

definition schedule :: "u64 \<Rightarrow> sched_state \<Rightarrow> (sched_panic + sched_exit \<times> sched_state) option" where
  "schedule now s =
     (let prev = task_current s
      in and_then (case prev of None \<Rightarrow> Some (Inr s) | Some p \<Rightarrow> schedule_put_prev now p s) (\<lambda>s.
         and_then (schedule_pick s) (\<lambda>next.
           if Some next = prev then and_then (schedule_stay next s) (\<lambda>s. Some (Inr (Returned, s)))
           else and_then (schedule_take next now s) (\<lambda>s. Some (Inr (Switched prev next, s))))))"

subsection \<open>schedule_preempt\<close>

definition preempt_put_prev ::
  "cpu_context \<Rightarrow> u64 \<Rightarrow> u64 \<Rightarrow> sched_state \<Rightarrow> (sched_panic + sched_state) option" where
  "preempt_put_prev regs now prev s =
     (if t_state (tk s prev) = TASK_RUNNING then give_back now prev (set_task prev (t_context_update (\<lambda>_. regs)) s)
      else if t_state (tk s prev) = TASK_ZOMBIE then do {
        queued \<leftarrow> eevdf_is_queued (Some prev) (rqs s);
        Some (if queued then Inl Zombie_queued else Inr s)
      } else Some (Inr s))"

definition preempt_pick :: "u64 \<Rightarrow> sched_state \<Rightarrow> (sched_panic + u64) option" where
  "preempt_pick prev s = (case eevdf_pick_next (rqs s) of Some next \<Rightarrow> Some (Inr next)
   | None \<Rightarrow> if t_state (tk s prev) = TASK_READY then Some (Inr prev)
     else do {
       next \<leftarrow> task_find_by_pid 0 s;
       Some (case next of None \<Rightarrow> Inl No_idle_task | Some next \<Rightarrow> Inr next) })"

definition preempt_stay :: "u64 \<Rightarrow> sched_state \<Rightarrow> (sched_panic + sched_state) option" where
  "preempt_stay prev s =
     (if t_state (tk s prev) = TASK_READY then do {
        rq \<leftarrow> eevdf_dequeue (Some prev) (rqs s);
        queued \<leftarrow> eevdf_is_queued (Some prev) rq;
        if queued then Some (Inl Still_queued)
        else do {
          let s = set_task prev (t_state_update (\<lambda>_. TASK_RUNNING)) (s\<lparr>rqs := rq\<rparr>);
          queued \<leftarrow> eevdf_is_queued (Some prev) (rqs s);
          Some (if queued then Inl Running_queued else Inr s) }
      } else Some (Inr s))"

text \<open>The answer is the register file that the interrupt returns with, \<open>*regs\<close> after the call.\<close>

definition schedule_preempt ::
  "cpu_context \<Rightarrow> u64 \<Rightarrow> u64 \<Rightarrow> sched_state \<Rightarrow> (sched_panic + cpu_context \<times> sched_state) option" where
  "schedule_preempt regs now1 now2 s = (case task_current s of None \<Rightarrow> Some (Inr (regs, s))
   | Some prev \<Rightarrow>
       and_then (preempt_put_prev regs now1 prev s) (\<lambda>s.
       and_then (preempt_pick prev s) (\<lambda>next.
         if next = prev then and_then (preempt_stay prev s) (\<lambda>s. Some (Inr (regs, s)))
         else and_then (schedule_take next now2 s) (\<lambda>s. Some (Inr (t_context (tk s next), s))))))"

subsection \<open>task_exit and task_kill\<close>

definition task_exit :: "u64 \<Rightarrow> sched_state \<Rightarrow> (sched_panic + sched_exit \<times> sched_state) option" where
  "task_exit now s = (case current_task s of None \<Rightarrow> Some (Inr (Returned, s))
   | Some c \<Rightarrow> do {
       let s = set_task c (t_state_update (\<lambda>_. TASK_ZOMBIE)) s;
       b \<leftarrow> pid_free (t_pid (tk s c)) (pids s);
       let s = task_set_current None (s\<lparr>pids := b\<rparr>);
       and_then (schedule now s) (\<lambda>(e, s). case e of Returned \<Rightarrow> None | Switched p n \<Rightarrow> Some (Inr (Switched p n, s))) })"

definition task_unlink :: "u64 \<Rightarrow> sched_state \<Rightarrow> sched_state" where
  "task_unlink task s =
     (let s = (case t_prev (tk s task) of None \<Rightarrow> s | Some q \<Rightarrow> set_task q (t_next_update (\<lambda>_. t_next (tk s task))) s);
          s = (case t_next (tk s task) of None \<Rightarrow> s | Some n \<Rightarrow> set_task n (t_prev_update (\<lambda>_. t_prev (tk s task))) s)
      in if Some task = task_list s then s\<lparr>task_list := t_next (tk s task)\<rparr> else s)"

datatype kill_exit = Kill_returned int | Kill_switched u64

definition task_kill :: "task_ptr \<Rightarrow> u64 \<Rightarrow> sched_state \<Rightarrow> (sched_panic + kill_exit \<times> sched_state) option" where
  "task_kill task now s = (case task of None \<Rightarrow> Some (Inr (Kill_returned (-1), s))
   | Some p \<Rightarrow>
     if t_pid (tk s p) = 0 then Some (Inr (Kill_returned (-1), s))
     else if t_state (tk s p) = TASK_ZOMBIE then Some (Inr (Kill_returned 0, s))
     else do {
       s \<leftarrow> (if t_state (tk s p) = TASK_READY then do {
               rq \<leftarrow> eevdf_dequeue (Some p) (rqs s); Some (s\<lparr>rqs := rq\<rparr>) } else Some s);
       let s = set_task p (t_state_update (\<lambda>_. TASK_ZOMBIE)) s;
       b \<leftarrow> pid_free (t_pid (tk s p)) (pids s);
       let s = task_unlink p (s\<lparr>pids := b\<rparr>);
       if Some p = task_current s then
         and_then (schedule now (task_set_current None s)) (\<lambda>(e, s).
           case e of Returned \<Rightarrow> None | Switched _ n \<Rightarrow> Some (Inr (Kill_switched n, s)))
       else Some (Inr (Kill_returned 0, s)) })"

subsection \<open>The invariant\<close>

text \<open>
  A segment of the doubly linked task list: \<open>ps\<close> are its tasks from \<open>p\<close> on, \<open>q\<close> is the one before and \<open>e\<close>
  what the last one points to.
\<close>

fun dseg :: "task_mem \<Rightarrow> task_ptr \<Rightarrow> task_ptr \<Rightarrow> u64 list \<Rightarrow> task_ptr \<Rightarrow> bool" where
  "dseg tm q p [] e = (p = e)"
| "dseg tm q p (a # ps) e = (p = Some a \<and> t_prev (tm a) = q \<and> dseg tm (Some a) (t_next (tm a)) ps e)"

abbreviation dlist :: "task_mem \<Rightarrow> task_ptr \<Rightarrow> task_ptr \<Rightarrow> u64 list \<Rightarrow> bool" where
  "dlist tm q p ps \<equiv> dseg tm q p ps None"

text \<open>
  The books of the scheduler, \<open>sched_wf\<close>: \<open>q\<close> is the run queue, \<open>ts\<close> the task list and \<open>r\<close> the task that is RUNNING; the
  READY tasks other than the idle task are queued, and there is one idle task. \<open>runnable\<close> is the number of tasks other
  than the idle task that are ready or running. The run queue has 64 nodes and nothing in the code bounds the number of tasks, so
  that there is a node for each of them is a condition of its own, which \<open>sched_inv\<close> adds.
\<close>

definition sched_wf :: "sched_state \<Rightarrow> u64 list \<Rightarrow> u64 list \<Rightarrow> task_ptr \<Rightarrow> bool" where
  "sched_wf s q ts r \<longleftrightarrow>
     rq_queue (rqs s) q \<and> dlist (tasks (rqs s)) None (task_list s) ts \<and> distinct ts \<and>
     set q = {p \<in> set ts. t_state (tk s p) = TASK_READY \<and> t_pid (tk s p) \<noteq> 0} \<and>
     (\<forall>p\<in>set ts. weight_of (t_priority (tk s p)) \<noteq> None \<and> (t_state (tk s p) = TASK_RUNNING \<longleftrightarrow> r = Some p)) \<and>
     set_option r \<subseteq> set ts \<and> (\<exists>i. {p \<in> set ts. t_pid (tk s p) = 0} = {i})"

definition runnable :: "sched_state \<Rightarrow> u64 list \<Rightarrow> task_ptr \<Rightarrow> nat" where
  "runnable s q r = length q + (case r of None \<Rightarrow> 0 | Some c \<Rightarrow> if t_pid (tk s c) = 0 then 0 else 1)"

definition sched_inv :: "sched_state \<Rightarrow> u64 list \<Rightarrow> u64 list \<Rightarrow> task_ptr \<Rightarrow> bool" where
  "sched_inv s q ts r \<longleftrightarrow> sched_wf s q ts r \<and> runnable s q r \<le> 64"

lemmas sched_inv_defs = sched_inv_def sched_wf_def runnable_def

definition sched_ok :: "sched_state \<Rightarrow> u64 list \<Rightarrow> u64 list \<Rightarrow> bool" where
  "sched_ok s q ts = sched_inv s q ts (current_task s)"

text \<open>What \<open>eevdf_update_curr\<close> adds to the virtual run time of the running task \<open>c\<close>.\<close>

definition charge :: "u64 \<Rightarrow> eevdf_state \<Rightarrow> u64 \<Rightarrow> u64" where
  "charge now r c = (now - ctx_x23 (t_context (tasks r c))) * 1024 div ucast (load_or_default r)"

text \<open>The first task of the queue, or the first idle task of the list when nothing is queued.\<close>

definition next_task :: "sched_state \<Rightarrow> u64 list \<Rightarrow> u64 list \<Rightarrow> u64" where
  "next_task s q ts = (case q of [] \<Rightarrow> the (find (\<lambda>p. t_pid (tk s p) = 0) ts) | p # _ \<Rightarrow> p)"

text \<open>
  How far a queued task \<open>w\<close> is from the processor: the virtual run time by which the tasks before it, and
  the running one, are behind it, and the number of the tasks before it.
\<close>

definition behind :: "(u64 \<Rightarrow> u64) \<Rightarrow> u64 \<Rightarrow> u64 \<Rightarrow> nat" where
  "behind v w x = unat (v w) - unat (v x)"

definition wait_bound :: "sched_state \<Rightarrow> u64 list \<Rightarrow> u64 \<Rightarrow> nat" where
  "wait_bound s q w =
     sum_list (map (\<lambda>x. Suc (behind (vr (rqs s)) w x)) (takeWhile (\<lambda>x. x \<noteq> w) q)) +
     (case current_task s of None \<Rightarrow> 0 | Some c \<Rightarrow> if t_pid (tk s c) = 0 then 0 else behind (vr (rqs s)) w c)"

text \<open>
  One call of \<open>schedule\<close> in which the running task is charged for some time, without wrapping around.
\<close>

definition sched_step :: "sched_state \<Rightarrow> sched_state \<Rightarrow> bool" where
  "sched_step s s' \<longleftrightarrow> (\<exists>now e. schedule now s = Some (Inr (e, s')) \<and>
     (\<forall>c. current_task s = Some c \<longrightarrow> vr (rqs s) c < vr (rqs s) c + charge now (rqs s) c))"

text \<open>Two tasks, one of them running, and the idle task.\<close>

definition demo_tasks :: task_mem where
  "demo_tasks = (\<lambda>_. demo_task)(4096 := demo_task\<lparr>t_next := Some 12288\<rparr>,
     12288 := demo_task\<lparr>t_pid := 2, t_state := TASK_RUNNING, t_prev := Some 4096, t_next := Some 8192\<rparr>,
     8192 := demo_task\<lparr>t_pid := 0, t_prev := Some 12288\<rparr>)"

section \<open>Lemmas\<close>

lemma and_then_simps [simp]:
  "and_then (Some (Inr x)) f = f x" "and_then (Some (Inl e)) f = Some (Inl e)" "and_then None f = None"
  by (simp_all add: and_then_def)

lemma set_task_simps [simp]:
  "rqs (set_task p f s) = (rqs s)\<lparr>tasks := (tasks (rqs s))(p := f (tasks (rqs s) p))\<rparr>"
  "current_task (set_task p f s) = current_task s" "task_list (set_task p f s) = task_list s"
  "pids (set_task p f s) = pids s"
  by (simp_all add: set_task_def)

lemma task_set_current_simps [simp]:
  "rqs (task_set_current p s) = rqs s" "current_task (task_set_current p s) = p"
  "task_list (task_set_current p s) = task_list s" "pids (task_set_current p s) = pids s"
  by (simp_all add: task_set_current_def)

subsection \<open>The task list\<close>

lemma dlist_cong:
  "(\<And>a. a \<in> set ps \<Longrightarrow> t_next (tm' a) = t_next (tm a) \<and> t_prev (tm' a) = t_prev (tm a)) \<Longrightarrow> dseg tm' q p ps e = dseg tm q p ps e"
  by (induction ps arbitrary: q p) auto

lemma dseg_upd [simp]: "a \<notin> set ps \<Longrightarrow> dseg (tm(a := x)) q p ps e = dseg tm q p ps e"
  by (rule dlist_cong) auto

lemma dseg_append:
  "dseg tm q p (xs @ ys) e \<longleftrightarrow> (\<exists>m. dseg tm q p xs m \<and> dseg tm (if xs = [] then q else Some (last xs)) m ys e)"
  by (induction xs arbitrary: q p) auto

lemma dseg_end:
  assumes "dseg tm q p (xs @ [a]) m" "a \<notin> set xs"
  shows "dseg (tm(a := (tm a)\<lparr>t_next := m'\<rparr>)) q p (xs @ [a]) m'"
  using assms by (auto simp: dseg_append)

lemma dseg_start:
  assumes "dseg tm q p (b # ys) e" "b \<notin> set ys"
  shows "dseg (tm(b := (tm b)\<lparr>t_prev := q'\<rparr>)) q' p (b # ys) e"
  using assms by auto

lemma find_pid_from_spec: "dlist tm q p ps \<Longrightarrow> find_pid_from tm p pid = Some (find (\<lambda>a. t_pid (tm a) = pid) ps)"
  by (induction ps arbitrary: q p) (simp_all add: find_pid_from.simps)

text \<open>Operations that leave the links, PIDs and priorities alone.\<close>

lemma sched_inv_step:
  assumes inv: "sched_inv s q ts r" and q': "rq_queue (rqs s') q'" and list: "task_list s' = task_list s"
    and same: "\<And>p. t_next (tk s' p) = t_next (tk s p) \<and> t_prev (tk s' p) = t_prev (tk s p) \<and>
      t_pid (tk s' p) = t_pid (tk s p) \<and> t_priority (tk s' p) = t_priority (tk s p)"
    and mem: "set q' = {p \<in> set ts. t_state (tk s' p) = TASK_READY \<and> t_pid (tk s p) \<noteq> 0}"
    and run: "\<And>p. p \<in> set ts \<Longrightarrow> t_state (tk s' p) = TASK_RUNNING \<longleftrightarrow> r' = Some p" "set_option r' \<subseteq> set ts"
    and room: "length q' + (case r' of None \<Rightarrow> 0 | Some c \<Rightarrow> if t_pid (tk s c) = 0 then 0 else 1) \<le> 64"
  shows "sched_inv s' q' ts r'"
proof -
  have "dlist (tasks (rqs s')) None (task_list s') ts" using inv dlist_cong [of ts "tasks (rqs s')" "tasks (rqs s)"] same list
    by (simp add: sched_inv_defs)
  moreover have "set q' = {p \<in> set ts. t_state (tk s' p) = TASK_READY \<and> t_pid (tk s' p) \<noteq> 0}" using mem same by simp
  moreover have "length q' + (case r' of None \<Rightarrow> 0 | Some c \<Rightarrow> if t_pid (tk s' c) = 0 then 0 else 1) \<le> 64"
    using room same by (simp cong: option.case_cong)
  ultimately show ?thesis using inv q' run same unfolding sched_inv_defs by simp
qed

lemma sched_inv_mem:
  assumes "sched_inv s q ts r"
  shows "p \<in> set q \<longleftrightarrow> p \<in> set ts \<and> t_state (tk s p) = TASK_READY \<and> t_pid (tk s p) \<noteq> 0"
    "r = Some c \<Longrightarrow> c \<in> set ts \<and> t_state (tk s c) = TASK_RUNNING \<and> c \<notin> set q \<and> weight_of (t_priority (tk s c)) \<noteq> None"
    "rq_queue (rqs s) q"
  using assms by (auto simp: sched_inv_defs)

lemma idle_task:
  assumes "sched_inv s q ts r"
  shows "\<exists>i\<in>set ts. t_pid (tk s i) = 0 \<and> (\<forall>p\<in>set ts. t_pid (tk s p) = 0 \<longrightarrow> p = i)"
proof -
  from assms obtain i where "{p \<in> set ts. t_pid (tk s p) = 0} = {i}" by (auto simp: sched_inv_defs)
  then show ?thesis by blast
qed

subsection \<open>Putting the previous task back\<close>

text \<open>The charge, the change of state and the enqueueing, which both schedulers share.\<close>

lemma put_back:
  assumes inv: "sched_inv s q ts (Some c)" and pid: "t_pid (tk s c) \<noteq> 0"
    and delta: "delta = now - ctx_x23 (t_context (tk s c))" and fair: "fair = (delta * 1024) div ucast (load_or_default (rqs s))"
  shows "\<exists>rq1 rq2. eevdf_update_curr (Some c) now (rqs s) = Some rq1 \<and>
    eevdf_enqueue (Some c) (rq1\<lparr>tasks := (tasks rq1)(c := (tasks rq1 c)\<lparr>t_state := TASK_READY\<rparr>)\<rparr>) = Some rq2 \<and>
    eevdf_is_queued (Some c) rq2 = Some True \<and> t_pid (tasks rq1 c) = t_pid (tk s c) \<and>
    sched_inv (s\<lparr>rqs := rq2\<rparr>) (queue_add (vr rq2) c q) ts None \<and>
    tasks rq2 = (tk s)(c := (tk s c)\<lparr>t_context := set_ctx_x 23 now (t_context (tk s c)), t_state := TASK_READY,
      t_vruntime := max (vr (rqs s) c + fair) (rq_min_vruntime rq1)\<rparr>) \<and> rq_min_vruntime rq2 = rq_min_vruntime rq1 \<and>
    rq_min_vruntime rq1 = (if delta = 0 then rq_min_vruntime (rqs s) else case q of [] \<Rightarrow> vr (rqs s) c + fair | x # _ \<Rightarrow> vr (rqs s) x)"
proof -
  note c = sched_inv_mem(2) [OF inv refl] and q = sched_inv_mem(3) [OF inv]
  from update_curr_spec [OF q _ delta fair] c obtain rq1 where
    u: "eevdf_update_curr (Some c) now (rqs s) = Some rq1" "rq_queue rq1 q"
      "tasks rq1 = (tk s)(c := (tk s c)\<lparr>t_context := set_ctx_x 23 now (t_context (tk s c)), t_vruntime := vr (rqs s) c + fair\<rparr>)"
      "rq_min_vruntime rq1 = (if delta = 0 then rq_min_vruntime (rqs s) else case q of [] \<Rightarrow> vr (rqs s) c + fair | x # _ \<Rightarrow> vr (rqs s) x)"
    by blast
  define rq where "rq = rq1\<lparr>tasks := (tasks rq1)(c := (tasks rq1 c)\<lparr>t_state := TASK_READY\<rparr>)\<rparr>"
  have "rq_queue rq q" unfolding rq_def by (rule rq_queue_cong [OF u(2)]) auto
  moreover have "t_state (tasks rq c) = TASK_READY" "weight_of (t_priority (tasks rq c)) \<noteq> None"
    using c by (simp_all add: rq_def u(3))
  moreover have "length q < 64" using inv pid by (simp add: sched_inv_defs)
  ultimately obtain rq2 where
    e: "eevdf_enqueue (Some c) rq = Some rq2" "rq_queue rq2 (queue_add (vr rq2) c q)"
      "tasks rq2 = (tasks rq)(c := (tasks rq c)\<lparr>t_vruntime := max (vr rq c) (rq_min_vruntime rq)\<rparr>)"
      "rq_min_vruntime rq2 = rq_min_vruntime rq"
    using enqueue_spec [of rq q c] c by auto
  have tm: "tasks rq2 = (tk s)(c := (tk s c)\<lparr>t_context := set_ctx_x 23 now (t_context (tk s c)), t_state := TASK_READY,
      t_vruntime := max (vr (rqs s) c + fair) (rq_min_vruntime rq1)\<rparr>)"
    by (simp add: e(3) rq_def u(3) fun_eq_iff)
  have "sched_inv (s\<lparr>rqs := rq2\<rparr>) (queue_add (vr rq2) c q) ts None"
    by (rule sched_inv_step [OF inv])
      (use e(2) c pid inv sched_inv_mem(1) [OF inv] in \<open>auto simp: tm sched_inv_defs\<close>)
  then show ?thesis using u e tm rq.queued [OF e(2), of c] by (simp add: rq_def)
qed


lemma put_back_idle:
  assumes inv: "sched_inv s q ts (Some c)" and pid: "t_pid (tk s c) = 0"
  shows "\<exists>rq1. eevdf_update_curr (Some c) now (rqs s) = Some rq1 \<and> t_pid (tasks rq1 c) = 0 \<and>
    sched_inv (s\<lparr>rqs := rq1\<lparr>tasks := (tasks rq1)(c := (tasks rq1 c)\<lparr>t_state := TASK_READY\<rparr>)\<rparr>\<rparr>) q ts None \<and>
    t_context (tasks rq1 c) = set_ctx_x 23 now (t_context (tk s c)) \<and> (\<forall>p. p \<noteq> c \<longrightarrow> tasks rq1 p = tk s p)"
proof -
  note c = sched_inv_mem(2) [OF inv refl] and q = sched_inv_mem(3) [OF inv]
  from update_curr_spec [OF q _ refl refl] c obtain rq1 fair where
    u: "eevdf_update_curr (Some c) now (rqs s) = Some rq1" "rq_queue rq1 q"
      "tasks rq1 = (tk s)(c := (tk s c)\<lparr>t_context := set_ctx_x 23 now (t_context (tk s c)), t_vruntime := vr (rqs s) c + fair\<rparr>)"
    by blast
  have "rq_queue (rq1\<lparr>tasks := (tasks rq1)(c := (tasks rq1 c)\<lparr>t_state := TASK_READY\<rparr>)\<rparr>) q"
    by (rule rq_queue_cong [OF u(2)]) auto
  then have "sched_inv (s\<lparr>rqs := rq1\<lparr>tasks := (tasks rq1)(c := (tasks rq1 c)\<lparr>t_state := TASK_READY\<rparr>)\<rparr>\<rparr>) q ts None"
    by (intro sched_inv_step [OF inv]) (use c pid inv sched_inv_mem(1) [OF inv] in \<open>auto simp: u(3) sched_inv_defs\<close>)
  then show ?thesis using u pid by (simp add: u(3))
qed

text \<open>
  What giving back the processor does. When time has passed, a waiting first task stays first.
\<close>

lemma give_back_spec:
  assumes inv: "sched_inv s q ts (Some c)"
  shows "\<exists>s'. give_back now c s = Some (Inr s') \<and> current_task s' = current_task s \<and>
    sched_inv s' (if t_pid (tk s c) = 0 then q else queue_add (vr (rqs s')) c q) ts None \<and>
    t_state (tk s' c) = TASK_READY \<and> t_pid (tk s' c) = t_pid (tk s c) \<and>
    t_context (tk s' c) = set_ctx_x 23 now (t_context (tk s c)) \<and> (\<forall>p. p \<noteq> c \<longrightarrow> tk s' p = tk s p) \<and>
    (t_pid (tk s c) \<noteq> 0 \<and> q \<noteq> [] \<and> now \<noteq> ctx_x23 (t_context (tk s c)) \<longrightarrow> vr (rqs s) (hd q) \<le> vr (rqs s') c) \<and>
    (t_pid (tk s c) \<noteq> 0 \<longrightarrow> vr (rqs s) c + charge now (rqs s) c \<le> vr (rqs s') c)"
proof (cases "t_pid (tk s c) = 0")
  case True
  from put_back_idle [OF inv True, of now] obtain rq1 where
    "eevdf_update_curr (Some c) now (rqs s) = Some rq1" "t_pid (tasks rq1 c) = 0"
    "sched_inv (s\<lparr>rqs := rq1\<lparr>tasks := (tasks rq1)(c := (tasks rq1 c)\<lparr>t_state := TASK_READY\<rparr>)\<rparr>\<rparr>) q ts None"
    "t_context (tasks rq1 c) = set_ctx_x 23 now (t_context (tk s c))" "\<forall>p. p \<noteq> c \<longrightarrow> tasks rq1 p = tk s p" by blast
  with True show ?thesis
    by (intro exI [of _ "s\<lparr>rqs := rq1\<lparr>tasks := (tasks rq1)(c := (tasks rq1 c)\<lparr>t_state := TASK_READY\<rparr>)\<rparr>\<rparr>"])
      (simp add: give_back_def set_task_def)
next
  case False
  from put_back [OF inv False refl charge_def, of now] obtain rq1 rq2 where
    b: "eevdf_update_curr (Some c) now (rqs s) = Some rq1"
    "eevdf_enqueue (Some c) (rq1\<lparr>tasks := (tasks rq1)(c := (tasks rq1 c)\<lparr>t_state := TASK_READY\<rparr>)\<rparr>) = Some rq2"
    "eevdf_is_queued (Some c) rq2 = Some True" "t_pid (tasks rq1 c) = t_pid (tk s c)"
    "sched_inv (s\<lparr>rqs := rq2\<rparr>) (queue_add (vr rq2) c q) ts None"
    and tm: "tasks rq2 = (tk s)(c := (tk s c)\<lparr>t_context := set_ctx_x 23 now (t_context (tk s c)), t_state := TASK_READY,
      t_vruntime := max (vr (rqs s) c + charge now (rqs s) c) (rq_min_vruntime rq1)\<rparr>)"
    and min: "now \<noteq> ctx_x23 (t_context (tk s c)) \<Longrightarrow> q \<noteq> [] \<Longrightarrow> rq_min_vruntime rq1 = vr (rqs s) (hd q)"
    by (fastforce split: list.splits)
  then show ?thesis using False
    by (intro exI [of _ "s\<lparr>rqs := rq2\<rparr>"]) (auto simp: give_back_def set_task_def)
qed

lemma schedule_put_prev_spec:
  assumes inv: "sched_inv s q ts (Some c)"
  shows "\<exists>s'. give_back now c s = Some (Inr s') \<and> schedule_put_prev now c s = Some (Inr s')"
  using give_back_spec [OF inv, of now] sched_inv_mem(2) [OF inv refl]
  by (auto simp: schedule_put_prev_def)

subsection \<open>Taking the next task\<close>

lemma next_task_mem:
  assumes "sched_inv s q ts r"
  shows "next_task s q ts \<in> set ts" "q = [] \<Longrightarrow> t_pid (tk s (next_task s q ts)) = 0"
    "q \<noteq> [] \<Longrightarrow> next_task s q ts \<in> set q"
proof -
  show "q \<noteq> [] \<Longrightarrow> next_task s q ts \<in> set q" by (cases q) (auto simp: next_task_def)
  obtain i where "i \<in> set ts" "t_pid (tk s i) = 0" using idle_task [OF assms] by blast
  then obtain j where j: "find (\<lambda>p. t_pid (tk s p) = 0) ts = Some j"
    by (cases "find (\<lambda>p. t_pid (tk s p) = 0) ts") (auto simp: find_None_iff)
  then have "j \<in> set ts \<and> t_pid (tk s j) = 0" by (auto simp: find_Some_iff)
  then show "q = [] \<Longrightarrow> t_pid (tk s (next_task s q ts)) = 0" using j by (simp add: next_task_def)
  show "next_task s q ts \<in> set ts"
  proof (cases q)
    case (Cons p q')
    then show ?thesis using sched_inv_mem(1) [OF assms, of p] by (simp add: next_task_def)
  qed (use j \<open>j \<in> set ts \<and> _\<close> in \<open>simp add: next_task_def\<close>)
qed

lemma find_idle:
  assumes "sched_inv s [] ts r"
  shows "task_find_by_pid 0 s = Some (Some (next_task s [] ts))"
proof -
  obtain i where "i \<in> set ts" "t_pid (tk s i) = 0" using idle_task [OF assms] by blast
  then obtain j where "find (\<lambda>p. t_pid (tk s p) = 0) ts = Some j"
    by (cases "find (\<lambda>p. t_pid (tk s p) = 0) ts") (auto simp: find_None_iff)
  then show ?thesis using assms find_pid_from_spec [of "tasks (rqs s)" None "task_list s" ts 0]
    by (simp add: task_find_by_pid_def next_task_def sched_inv_defs)
qed

lemma schedule_pick_spec: "sched_inv s q ts r \<Longrightarrow> schedule_pick s = Some (Inr (next_task s q ts))"
  using rq.pick [OF sched_inv_mem(3)] find_idle [of s ts r]
  by (cases q) (auto simp: schedule_pick_def head_opt_def next_task_def)

lemma schedule_take_spec:
  assumes inv: "sched_inv s q ts None" and n: "n = next_task s q ts"
  shows "\<exists>s'. schedule_take n now s = Some (Inr s') \<and> sched_inv s' (remove1 n q) ts (Some n) \<and> current_task s' = Some n \<and>
    t_context (tk s' n) = set_ctx_x 23 now (t_context (tk s n)) \<and> t_vruntime (tk s' n) = t_vruntime (tk s n) \<and>
    (\<forall>p. p \<noteq> n \<longrightarrow> tk s' p = tk s p)"
proof -
  note q = sched_inv_mem(3) [OF inv] and mem = next_task_mem [OF inv, folded n]
  have iff: "n \<in> set q \<longleftrightarrow> t_pid (tk s n) \<noteq> 0" using mem sched_inv_mem(1) [OF inv, of n] by (cases "q = []") auto
  have "\<exists>rq'. (if t_pid (tk s n) \<noteq> 0 then eevdf_dequeue (Some n) (rqs s) else Some (rqs s)) = Some rq' \<and>
      rq_queue rq' (remove1 n q) \<and> tasks rq' = tasks (rqs s)"
    using dequeue_spec [OF q, of n] q iff by (auto simp: remove1_idem)
  then obtain rq' where d: "(if t_pid (tk s n) \<noteq> 0 then eevdf_dequeue (Some n) (rqs s) else Some (rqs s)) = Some rq'"
    "rq_queue rq' (remove1 n q)" "tasks rq' = tasks (rqs s)" by blast
  have out: "n \<notin> set (remove1 n q)" using rq.wf [OF q] by auto
  define s1 where "s1 = set_task n (t_context_update (set_ctx_x 23 now)) (set_task n (t_state_update (\<lambda>_. TASK_RUNNING)) (s\<lparr>rqs := rq'\<rparr>))"
  have q1: "rq_queue (rqs (set_task n (t_state_update (\<lambda>_. TASK_RUNNING)) (s\<lparr>rqs := rq'\<rparr>))) (remove1 n q)"
    unfolding set_task_simps by (rule rq_queue_cong) (use d(2) in auto)
  have w: "weight_of (t_priority (tk s1 n)) \<noteq> None" using inv mem(1) by (auto simp: s1_def d(3) sched_inv_defs)
  from calc_slice_bounds [of "rqs s1" n] w obtain sl where sl: "eevdf_calc_slice (Some n) (rqs s1) = Some sl" by auto
  define s2 where "s2 = task_set_current (Some n) (set_task n (t_time_slice_update (\<lambda>_. sl)) s1)"
  have "schedule_take n now s = Some (Inr s2)"
    using d(1) rq.queued [OF d(2), of n] rq.queued [OF q1, of n] out sl
    by (auto simp: schedule_take_def s1_def s2_def split: if_splits)
  moreover have q2: "rq_queue (rqs s2) (remove1 n q)"
    unfolding s2_def s1_def set_task_simps task_set_current_simps by (intro rq_queue_cong) (use d(2) in auto)
  have "sched_inv s2 (remove1 n q) ts (Some n)"
  proof (rule sched_inv_step [OF inv q2])
    have "length q \<le> 64" using rq.wf [OF q] by simp
    then show "length (remove1 n q) + (case Some n of None \<Rightarrow> 0 | Some c \<Rightarrow> if t_pid (tk s c) = 0 then 0 else 1) \<le> 64"
      using iff length_pos_if_in_set [of n q] by (auto simp: length_remove1)
  qed (use inv mem(1) sched_inv_mem(1) [OF inv] rq.wf [OF q] in \<open>auto simp: s2_def s1_def d(3) sched_inv_defs\<close>)
  ultimately show ?thesis by (auto simp: s2_def s1_def d(3))
qed


subsection \<open>Staying with the previous task\<close>

lemma run_again:
  assumes inv: "sched_inv s q ts None" and c: "c = next_task s q ts" "t_state (tk s c) = TASK_READY"
    and rq': "rq_queue rq' (remove1 c q)" "tasks rq' = (tk s)(c := (tk s c)\<lparr>t_state := TASK_RUNNING\<rparr>)"
  shows "sched_inv (s\<lparr>rqs := rq'\<rparr>) (remove1 c q) ts (Some c)"
proof -
  note q = sched_inv_mem(3) [OF inv] and mem = next_task_mem [OF inv, folded c(1)]
  have iff: "c \<in> set q \<longleftrightarrow> t_pid (tk s c) \<noteq> 0" using mem sched_inv_mem(1) [OF inv, of c] by (cases "q = []") auto
  show ?thesis
  proof (rule sched_inv_step [OF inv])
    have "length q \<le> 64" using rq.wf [OF q] by simp
    then show "length (remove1 c q) + (case Some c of None \<Rightarrow> 0 | Some c \<Rightarrow> if t_pid (tk s c) = 0 then 0 else 1) \<le> 64"
      using iff length_pos_if_in_set [of c q] by (auto simp: length_remove1)
  qed (use inv mem(1) rq' sched_inv_mem(1) [OF inv] rq.wf [OF q] in \<open>auto simp: sched_inv_defs\<close>)
qed

lemma dequeue_any:
  assumes "rq_queue r q"
  shows "\<exists>r'. eevdf_dequeue (Some p) r = Some r' \<and> rq_queue r' (remove1 p q) \<and> tasks r' = tasks r \<and>
    eevdf_is_queued (Some p) r' = Some False"
proof -
  obtain r' where r': "eevdf_dequeue (Some p) r = Some r'" "rq_queue r' (remove1 p q)" "tasks r' = tasks r"
    using dequeue_spec [OF assms, of p] dequeue_absent [OF assms, of p] assms
    by (cases "p \<in> set q") (auto simp: remove1_idem)
  moreover have "p \<notin> set (remove1 p q)" using rq.wf [OF assms] by auto
  ultimately show ?thesis using rq.queued [OF r'(2), of p] by auto
qed

lemma schedule_stay_spec:
  assumes inv: "sched_inv s q ts None" and c: "c = next_task s q ts" "t_state (tk s c) = TASK_READY"
  shows "\<exists>s'. schedule_stay c s = Some (Inr s') \<and> sched_inv s' (remove1 c q) ts (Some c) \<and> current_task s' = current_task s \<and>
    t_vruntime (tk s' c) = t_vruntime (tk s c) \<and> (\<forall>p. p \<noteq> c \<longrightarrow> tk s' p = tk s p)"
proof -
  have "rq_queue (rqs (set_task c (t_state_update (\<lambda>_. TASK_RUNNING)) s)) q"
    unfolding set_task_simps by (rule rq_queue_cong) (use sched_inv_mem(3) [OF inv] in auto)
  from dequeue_any [OF this, of c] obtain rq' where
    d: "eevdf_dequeue (Some c) (rqs (set_task c (t_state_update (\<lambda>_. TASK_RUNNING)) s)) = Some rq'"
      "rq_queue rq' (remove1 c q)" "tasks rq' = (tk s)(c := (tk s c)\<lparr>t_state := TASK_RUNNING\<rparr>)"
      "eevdf_is_queued (Some c) rq' = Some False" by auto
  from run_again [OF inv c d(2,3)] show ?thesis
    using d c(2) by (intro exI [of _ "s\<lparr>rqs := rq'\<rparr>"]) (simp add: schedule_stay_def set_task_def)
qed

lemma preempt_stay_spec:
  assumes inv: "sched_inv s q ts None" and c: "c = next_task s q ts" "t_state (tk s c) = TASK_READY"
  shows "\<exists>s'. preempt_stay c s = Some (Inr s') \<and> sched_inv s' (remove1 c q) ts (Some c) \<and> current_task s' = current_task s \<and>
    t_vruntime (tk s' c) = t_vruntime (tk s c) \<and> (\<forall>p. p \<noteq> c \<longrightarrow> tk s' p = tk s p)"
proof -
  from dequeue_any [OF sched_inv_mem(3) [OF inv], of c] obtain rq' where
    d: "eevdf_dequeue (Some c) (rqs s) = Some rq'" "rq_queue rq' (remove1 c q)" "tasks rq' = tk s"
      "eevdf_is_queued (Some c) rq' = Some False" by auto
  define rq2 where "rq2 = rq'\<lparr>tasks := (tasks rq')(c := (tasks rq' c)\<lparr>t_state := TASK_RUNNING\<rparr>)\<rparr>"
  have q2: "rq_queue rq2 (remove1 c q)" unfolding rq2_def by (rule rq_queue_cong [OF d(2)]) auto
  have "c \<notin> set (remove1 c q)" using rq.wf [OF sched_inv_mem(3) [OF inv]] by auto
  with run_again [OF inv c q2] rq.queued [OF q2, of c] show ?thesis
    using d c(2) by (intro exI [of _ "s\<lparr>rqs := rq2\<rparr>"]) (simp add: preempt_stay_def set_task_def rq2_def)
qed

subsection \<open>The schedulers\<close>

text \<open>The queue that \<open>schedule\<close> chooses from: the previous task has joined it, unless it is the idle task.\<close>

lemma schedule_spec:
  assumes ok: "sched_ok s q ts"
  shows "\<exists>s' s1 q1 n. schedule now s = Some (Inr (if current_task s = Some n then Returned else Switched (current_task s) n, s')) \<and>
    sched_ok s' (remove1 n q1) ts \<and> current_task s' = Some n \<and> n = next_task s1 q1 ts \<and> sched_inv s1 q1 ts None \<and>
    q1 = (case current_task s of None \<Rightarrow> q | Some c \<Rightarrow> if t_pid (tk s c) = 0 then q else queue_add (vr (rqs s1)) c q) \<and>
    (case current_task s of None \<Rightarrow> s1 = s | Some c \<Rightarrow> give_back now c s = Some (Inr s1)) \<and>
    (\<forall>p. p \<noteq> n \<longrightarrow> tk s' p = tk s1 p) \<and> t_vruntime (tk s' n) = t_vruntime (tk s1 n)"
proof (cases "current_task s")
  case None
  with ok have inv: "sched_inv s q ts None" by (simp add: sched_ok_def)
  define n where "n = next_task s q ts"
  from schedule_take_spec [OF inv n_def, of now] obtain s' where
    s': "schedule_take n now s = Some (Inr s')" "sched_inv s' (remove1 n q) ts (Some n)" "current_task s' = Some n"
      "t_vruntime (tk s' n) = t_vruntime (tk s n)" "\<forall>p. p \<noteq> n \<longrightarrow> tk s' p = tk s p" by blast
  then have "schedule now s = Some (Inr (Switched None n, s'))"
    using schedule_pick_spec [OF inv] None by (simp add: schedule_def task_current_def n_def)
  with s' None inv n_def show ?thesis
    by (intro exI [of _ s'] exI [of _ s] exI [of _ q] exI [of _ n]) (simp add: sched_ok_def)
next
  case (Some c)
  with ok have inv: "sched_inv s q ts (Some c)" by (simp add: sched_ok_def)
  from give_back_spec [OF inv, of now] schedule_put_prev_spec [OF inv, of now] obtain s1 where
    p: "schedule_put_prev now c s = Some (Inr s1)" "give_back now c s = Some (Inr s1)" "current_task s1 = Some c"
      "t_state (tk s1 c) = TASK_READY"
      and inv1: "sched_inv s1 (if t_pid (tk s c) = 0 then q else queue_add (vr (rqs s1)) c q) ts None" using Some by auto
  define q1 where "q1 = (if t_pid (tk s c) = 0 then q else queue_add (vr (rqs s1)) c q)"
  define n where "n = next_task s1 q1 ts"
  note inv1 = inv1 [folded q1_def]
  show ?thesis
  proof (cases "n = c")
    case True
    with schedule_stay_spec [OF inv1 n_def] p(4) obtain s' where
      "schedule_stay c s1 = Some (Inr s')" "sched_inv s' (remove1 c q1) ts (Some c)" "current_task s' = Some c"
      "t_vruntime (tk s' c) = t_vruntime (tk s1 c)" "\<forall>p. p \<noteq> c \<longrightarrow> tk s' p = tk s1 p"
      using p(3) by auto
    with True p Some inv1 schedule_pick_spec [OF inv1] show ?thesis
      by (intro exI [of _ s'] exI [of _ s1] exI [of _ q1] exI [of _ n])
        (auto simp: schedule_def task_current_def sched_ok_def n_def q1_def)
  next
    case False
    from schedule_take_spec [OF inv1 n_def, of now] obtain s' where
      "schedule_take n now s1 = Some (Inr s')" "sched_inv s' (remove1 n q1) ts (Some n)" "current_task s' = Some n"
      "t_vruntime (tk s' n) = t_vruntime (tk s1 n)" "\<forall>p. p \<noteq> n \<longrightarrow> tk s' p = tk s1 p" by blast
    with False p Some inv1 schedule_pick_spec [OF inv1] show ?thesis
      by (intro exI [of _ s'] exI [of _ s1] exI [of _ q1] exI [of _ n])
        (auto simp: schedule_def task_current_def sched_ok_def n_def q1_def)
  qed
qed

lemma preempt_pick_spec:
  assumes inv: "sched_inv s q ts None" and c: "c \<in> set ts" "t_state (tk s c) = TASK_READY"
  shows "preempt_pick c s = Some (Inr (next_task s q ts))"
proof (cases q)
  case Nil
  then have "t_pid (tk s c) = 0" using sched_inv_mem(1) [OF inv, of c] c by auto
  moreover have "next_task s q ts \<in> set ts" "t_pid (tk s (next_task s q ts)) = 0" using next_task_mem(1,2) [OF inv] Nil by auto
  ultimately have "next_task s q ts = c" using idle_task [OF inv] c(1) by metis
  with Nil c(2) rq.pick [OF sched_inv_mem(3) [OF inv]] show ?thesis by (simp add: preempt_pick_def head_opt_def)
next
  case (Cons x q')
  with rq.pick [OF sched_inv_mem(3) [OF inv]] show ?thesis by (simp add: preempt_pick_def head_opt_def next_task_def)
qed

lemma schedule_preempt_spec:
  assumes ok: "sched_ok s q ts" and cur: "current_task s = Some c"
  shows "\<exists>s' s1 q1 n. schedule_preempt regs now1 now2 s =
      Some (Inr (if n = c then regs else set_ctx_x 23 now2 (t_context (tk s1 n)), s')) \<and>
    sched_ok s' (remove1 n q1) ts \<and> current_task s' = Some n \<and> n = next_task s1 q1 ts \<and> sched_inv s1 q1 ts None \<and>
    q1 = (if t_pid (tk s c) = 0 then q else queue_add (vr (rqs s1)) c q) \<and>
    t_context (tk s1 c) = set_ctx_x 23 now1 regs \<and> (\<forall>p. p \<noteq> c \<longrightarrow> tk s1 p = tk s p) \<and>
    (\<forall>p. p \<noteq> n \<longrightarrow> tk s' p = tk s1 p) \<and>
    (t_pid (tk s c) \<noteq> 0 \<and> q \<noteq> [] \<and> now1 \<noteq> ctx_x23 regs \<longrightarrow> vr (rqs s) (hd q) \<le> vr (rqs s1) c)"
proof -
  from ok cur have inv: "sched_inv s q ts (Some c)" by (simp add: sched_ok_def)
  note c = sched_inv_mem(2) [OF inv refl]
  define s0 where "s0 = set_task c (t_context_update (\<lambda>_. regs)) s"
  have "rq_queue (rqs s0) q" unfolding s0_def set_task_simps by (rule rq_queue_cong) (use sched_inv_mem(3) [OF inv] in auto)
  then have inv0: "sched_inv s0 q ts (Some c)"
    by (rule sched_inv_step [OF inv]) (use inv in \<open>auto simp: s0_def sched_inv_defs\<close>)
  have s0: "current_task s0 = Some c" "t_pid (tk s0 c) = t_pid (tk s c)" "t_context (tk s0 c) = regs" "\<And>p. vr (rqs s0) p = vr (rqs s) p"
    "\<And>p. p \<noteq> c \<Longrightarrow> tk s0 p = tk s p" using cur by (auto simp: s0_def)
  from give_back_spec [OF inv0, of now1] obtain s1 where
    p: "give_back now1 c s0 = Some (Inr s1)" "current_task s1 = Some c" "t_state (tk s1 c) = TASK_READY"
      "t_context (tk s1 c) = set_ctx_x 23 now1 regs" "\<forall>p. p \<noteq> c \<longrightarrow> tk s1 p = tk s p"
      "t_pid (tk s c) \<noteq> 0 \<and> q \<noteq> [] \<and> now1 \<noteq> ctx_x23 regs \<longrightarrow> vr (rqs s) (hd q) \<le> vr (rqs s1) c"
    and inv1: "sched_inv s1 (if t_pid (tk s c) = 0 then q else queue_add (vr (rqs s1)) c q) ts None"
    using s0 by auto
  define q1 where "q1 = (if t_pid (tk s c) = 0 then q else queue_add (vr (rqs s1)) c q)"
  define n where "n = next_task s1 q1 ts"
  note inv1 = inv1 [folded q1_def]
  have put: "preempt_put_prev regs now1 c s = Some (Inr s1)" using p(1) c by (simp add: preempt_put_prev_def s0_def)
  have pick: "preempt_pick c s1 = Some (Inr n)" using preempt_pick_spec [OF inv1 _ p(3)] c n_def by simp
  show ?thesis
  proof (cases "n = c")
    case True
    with preempt_stay_spec [OF inv1 n_def] p(2,3) obtain s' where
      "preempt_stay c s1 = Some (Inr s')" "sched_inv s' (remove1 c q1) ts (Some c)" "current_task s' = Some c"
      "\<forall>p. p \<noteq> c \<longrightarrow> tk s' p = tk s1 p" by auto
    with True p cur put pick inv1 show ?thesis
      by (intro exI [of _ s'] exI [of _ s1] exI [of _ q1] exI [of _ n])
        (simp add: schedule_preempt_def task_current_def sched_ok_def q1_def n_def)
  next
    case False
    from schedule_take_spec [OF inv1 n_def, of now2] obtain s' where
      "schedule_take n now2 s1 = Some (Inr s')" "sched_inv s' (remove1 n q1) ts (Some n)" "current_task s' = Some n"
      "t_context (tk s' n) = set_ctx_x 23 now2 (t_context (tk s1 n))" "\<forall>p. p \<noteq> n \<longrightarrow> tk s' p = tk s1 p" by blast
    with False p cur put pick inv1 show ?thesis
      by (intro exI [of _ s'] exI [of _ s1] exI [of _ q1] exI [of _ n])
        (simp add: schedule_preempt_def task_current_def sched_ok_def q1_def n_def)
  qed
qed


subsection \<open>Ending a task\<close>

text \<open>Taking a task out of the list touches the links of its neighbours only.\<close>

lemma task_unlink_spec:
  assumes l: "dlist (tk s) None (task_list s) ts" and d: "distinct ts" and p: "p \<in> set ts"
  shows "\<exists>tm l. task_unlink p s = s\<lparr>rqs := (rqs s)\<lparr>tasks := tm\<rparr>, task_list := l\<rparr> \<and> dlist tm None l (remove1 p ts) \<and>
    (\<forall>x. \<exists>nx pv. tm x = (tk s x)\<lparr>t_next := nx, t_prev := pv\<rparr>)"
proof -
  from p obtain xs ys where ts: "ts = xs @ p # ys" by (auto simp: in_set_conv_decomp)
  have dist: "distinct xs" "distinct ys" "p \<notin> set xs" "p \<notin> set ys" "set xs \<inter> set ys = {}" using d by (auto simp: ts)
  have rm: "remove1 p ts = xs @ ys" using dist by (simp add: ts remove1_append)
  define pv where "pv = (if xs = [] then None else Some (last xs))"
  define nx where "nx = t_next (tk s p)"
  have seg: "dseg (tk s) None (task_list s) xs (Some p)" "t_prev (tk s p) = pv" "dseg (tk s) (Some p) nx ys None"
    using l by (auto simp: ts dseg_append pv_def nx_def)
  have hd: "nx = (if ys = [] then None else Some (hd ys))" using seg(3) by (cases ys) auto
  have first: "Some p = task_list s \<longleftrightarrow> xs = []" using seg(1) dist(3) by (cases xs) auto
  define tm1 where "tm1 = (if xs = [] then tk s else (tk s)(last xs := (tk s (last xs))\<lparr>t_next := nx\<rparr>))"
  define tm2 where "tm2 = (if ys = [] then tm1 else tm1(hd ys := (tm1 (hd ys))\<lparr>t_prev := pv\<rparr>))"
  have keep: "xs \<noteq> [] \<Longrightarrow> last xs \<noteq> p \<and> last xs \<notin> set ys" "ys \<noteq> [] \<Longrightarrow> hd ys \<noteq> p \<and> hd ys \<notin> set xs"
    using dist last_in_set [of xs] hd_in_set [of ys] by blast+
  have e1: "(case pv of None \<Rightarrow> s | Some q \<Rightarrow> set_task q (t_next_update (\<lambda>_. nx)) s) = s\<lparr>rqs := (rqs s)\<lparr>tasks := tm1\<rparr>\<rparr>"
    by (simp add: pv_def tm1_def set_task_def)
  have e2: "(case nx of None \<Rightarrow> s\<lparr>rqs := (rqs s)\<lparr>tasks := tm1\<rparr>\<rparr>
      | Some q \<Rightarrow> set_task q (t_prev_update (\<lambda>_. pv)) (s\<lparr>rqs := (rqs s)\<lparr>tasks := tm1\<rparr>\<rparr>)) = s\<lparr>rqs := (rqs s)\<lparr>tasks := tm2\<rparr>\<rparr>"
    by (simp add: hd tm2_def set_task_def)
  have tp: "t_next (tm1 p) = nx" "t_prev (tm1 p) = pv" "t_next (tm2 p) = nx"
    using keep seg(2) by (auto simp: tm1_def tm2_def nx_def)
  have "tk (s\<lparr>rqs := (rqs s)\<lparr>tasks := tm\<rparr>\<rparr>) p = tm p" for tm by simp
  then have "task_unlink p s = s\<lparr>rqs := (rqs s)\<lparr>tasks := tm2\<rparr>, task_list := if xs = [] then nx else task_list s\<rparr>"
    unfolding task_unlink_def Let_def seg(2) nx_def [symmetric] e1 by (simp only: tp e2) (simp add: first)
  moreover have "dlist tm2 None (if xs = [] then nx else task_list s) (xs @ ys)"
  proof -
    have one: "dseg tm1 None (if xs = [] then nx else task_list s) xs nx"
      using seg(1) dist(1) dseg_end [of "tk s" None "task_list s" _ _ "Some p" nx]
      by (cases xs rule: rev_cases) (simp_all add: tm1_def)
    have "dseg tm1 (Some p) nx ys None" using seg(3) keep(1) dlist_cong [of ys tm1 "tk s"] by (auto simp: tm1_def)
    then have two: "dseg tm2 pv nx ys None"
      using dist(2) dseg_start [of tm1 "Some p" nx "hd ys" "tl ys" None pv] hd by (cases ys) (auto simp: tm2_def)
    have "dseg tm2 None (if xs = [] then nx else task_list s) xs nx"
      using one keep(2) dlist_cong [of xs tm2 tm1] by (auto simp: tm2_def)
    with two show ?thesis by (auto simp: dseg_append pv_def)
  qed
  moreover have "\<exists>nx pv. tm2 x = (tk s x)\<lparr>t_next := nx, t_prev := pv\<rparr>" for x
  proof -
    have eta: "t = t\<lparr>t_next := t_next t, t_prev := t_prev t\<rparr>" for t :: task by simp
    show ?thesis unfolding tm2_def tm1_def
      by (rule exI [of _ "if xs \<noteq> [] \<and> x = last xs then nx else t_next (tk s x)"],
        rule exI [of _ "if ys \<noteq> [] \<and> x = hd ys then pv else t_prev (tk s x)"]) auto
  qed
  ultimately show ?thesis unfolding rm by blast
qed


text \<open>A task that is neither queued nor the one that goes on running is taken out of the books.\<close>

lemma unlink_inv:
  assumes inv: "sched_inv s q ts r" and p: "p \<in> set ts" "t_state (tk s p) = TASK_ZOMBIE" "t_pid (tk s p) \<noteq> 0"
  shows "sched_inv (task_unlink p s) q (remove1 p ts) r"
    and "current_task (task_unlink p s) = current_task s" "pids (task_unlink p s) = pids s"
    and "t_state (tk (task_unlink p s) x) = t_state (tk s x)"
proof -
  from inv have l: "dlist (tk s) None (task_list s) ts" "distinct ts" by (auto simp: sched_inv_defs)
  from task_unlink_spec [OF l p(1)] obtain tm l where
    u: "task_unlink p s = s\<lparr>rqs := (rqs s)\<lparr>tasks := tm\<rparr>, task_list := l\<rparr>" "dlist tm None l (remove1 p ts)"
    and same: "\<And>x. \<exists>nx pv. tm x = (tk s x)\<lparr>t_next := nx, t_prev := pv\<rparr>" by blast
  have f: "t_state (tm x) = t_state (tk s x)" "t_pid (tm x) = t_pid (tk s x)" "t_priority (tm x) = t_priority (tk s x)"
    "t_vruntime (tm x) = t_vruntime (tk s x)" for x using same [of x] by auto
  have "rq_queue ((rqs s)\<lparr>tasks := tm\<rparr>) q" by (rule rq_queue_cong [OF sched_inv_mem(3) [OF inv]]) (simp add: f)
  moreover have "set (remove1 p ts) = set ts - {p}" using l(2) by simp
  moreover have "{x \<in> set ts - {p}. t_pid (tk s x) = 0} = {x \<in> set ts. t_pid (tk s x) = 0}" using p(3) by auto
  ultimately show "sched_inv (task_unlink p s) q (remove1 p ts) r"
    using inv u p unfolding sched_inv_defs by (auto simp: f cong: option.case_cong)
  show "current_task (task_unlink p s) = current_task s" "pids (task_unlink p s) = pids s"
    "t_state (tk (task_unlink p s) x) = t_state (tk s x)" using u(1) by (simp_all add: f)
qed


lemma zombie_inv:
  assumes inv: "sched_inv s q ts r" and p: "p \<in> set ts" "t_state (tk s p) \<noteq> TASK_READY \<or> t_pid (tk s p) = 0"
    and r': "r' = (if r = Some p then None else r)"
  shows "sched_inv (set_task p (t_state_update (\<lambda>_. TASK_ZOMBIE)) s) q ts r'"
proof -
  have "rq_queue (rqs (set_task p (t_state_update (\<lambda>_. TASK_ZOMBIE)) s)) q"
    unfolding set_task_simps by (rule rq_queue_cong) (use sched_inv_mem(3) [OF inv] in auto)
  then show ?thesis
    by (rule sched_inv_step [OF inv]) (use inv p sched_inv_mem(1) [OF inv] in \<open>auto simp: r' sched_inv_defs split: option.splits\<close>)
qed

lemma dequeue_zombie_inv:
  assumes inv: "sched_inv s q ts r" and p: "p \<in> set ts" "t_state (tk s p) = TASK_READY" "t_pid (tk s p) \<noteq> 0"
  shows "\<exists>rq. eevdf_dequeue (Some p) (rqs s) = Some rq \<and> tasks rq = tk s \<and>
    sched_inv (set_task p (t_state_update (\<lambda>_. TASK_ZOMBIE)) (s\<lparr>rqs := rq\<rparr>)) (remove1 p q) ts r"
proof -
  note q = sched_inv_mem(3) [OF inv]
  from dequeue_any [OF q, of p] obtain rq where
    rq: "eevdf_dequeue (Some p) (rqs s) = Some rq" "rq_queue rq (remove1 p q)" "tasks rq = tk s" by blast
  have "rq_queue (rqs (set_task p (t_state_update (\<lambda>_. TASK_ZOMBIE)) (s\<lparr>rqs := rq\<rparr>))) (remove1 p q)"
    unfolding set_task_simps by (rule rq_queue_cong) (use rq(2) in auto)
  then have "sched_inv (set_task p (t_state_update (\<lambda>_. TASK_ZOMBIE)) (s\<lparr>rqs := rq\<rparr>)) (remove1 p q) ts r"
    by (rule sched_inv_step [OF inv])
      (use inv p rq(3) sched_inv_mem(1) [OF inv] rq.wf [OF q] in \<open>auto simp: sched_inv_defs length_remove1\<close>)
  with rq show ?thesis by blast
qed

lemma schedule_after_end:
  assumes inv: "sched_inv s q ts None" and c: "current_task s = None"
  shows "\<exists>n s'. schedule now s = Some (Inr (Switched None n, s')) \<and> sched_ok s' (remove1 n q) ts \<and> current_task s' = Some n \<and>
    n = next_task s q ts \<and> n \<in> set ts \<and> (\<forall>p. p \<noteq> n \<longrightarrow> tk s' p = tk s p)"
proof -
  have "sched_ok s q ts" using inv c by (simp add: sched_ok_def)
  from schedule_spec [OF this, of now] c obtain s' n where
    "schedule now s = Some (Inr (Switched None n, s'))" "sched_ok s' (remove1 n q) ts" "current_task s' = Some n"
    "n = next_task s q ts" "\<forall>p. p \<noteq> n \<longrightarrow> tk s' p = tk s p" by auto
  moreover have "n \<in> set ts" using next_task_mem(1) [OF inv] calculation(4) by simp
  ultimately show ?thesis by blast
qed

text \<open>The states that differ in the current task or the PID bitmap only.\<close>

lemma sched_inv_frame [simp]:
  "sched_inv (s\<lparr>pids := b\<rparr>) q ts r = sched_inv s q ts r" "sched_inv (task_set_current c s) q ts r = sched_inv s q ts r"
  by (simp_all add: sched_inv_defs cong: option.case_cong)

lemma next_task_frame [simp]:
  "next_task (s\<lparr>pids := b\<rparr>) q ts = next_task s q ts" "next_task (task_set_current c s) q ts = next_task s q ts"
  by (simp_all add: next_task_def cong: list.case_cong)

lemma task_exit_spec:
  assumes ok: "sched_ok s q ts" and c: "current_task s = Some c" "t_pid (tk s c) \<noteq> 0"
  shows "\<exists>n s'. task_exit now s = Some (Inr (Switched None n, s')) \<and> sched_ok s' (remove1 n q) ts \<and> current_task s' = Some n \<and>
    n = next_task s q ts \<and> t_state (tk s' c) = TASK_ZOMBIE"
proof -
  from ok c have inv: "sched_inv s q ts (Some c)" by (simp add: sched_ok_def)
  note m = sched_inv_mem(2) [OF inv refl]
  define s1 where "s1 = set_task c (t_state_update (\<lambda>_. TASK_ZOMBIE)) s"
  obtain b where b: "pid_free (t_pid (tk s1 c)) (pids s1) = Some b" using pid_free_clears by blast
  have inv1: "sched_inv s1 q ts None" unfolding s1_def by (rule zombie_inv [OF inv]) (use m in auto)
  define s2 where "s2 = task_set_current None (s1\<lparr>pids := b\<rparr>)"
  have inv2: "sched_inv s2 q ts None" "current_task s2 = None" using inv1 by (simp_all add: s2_def)
  from schedule_after_end [OF inv2, of now] obtain n s' where
    r: "schedule now s2 = Some (Inr (Switched None n, s'))" "sched_ok s' (remove1 n q) ts" "current_task s' = Some n"
      "n = next_task s2 q ts" "n \<in> set ts" "\<forall>p. p \<noteq> n \<longrightarrow> tk s' p = tk s2 p" by blast
  have "t_pid (tk s2 p) = t_pid (tk s p)" for p by (simp add: s2_def s1_def)
  then have n: "n = next_task s q ts" using r(4) by (simp add: next_task_def cong: list.case_cong)
  have "n \<noteq> c" using next_task_mem(2,3) [OF inv] n m c(2) by (cases "q = []") auto
  then have "t_state (tk s' c) = TASK_ZOMBIE" using r(6) by (simp add: s2_def s1_def)
  moreover have "task_exit now s = Some (Inr (Switched None n, s'))"
    using c b r(1) by (simp add: task_exit_def s1_def s2_def)
  ultimately show ?thesis using r(2,3) n by blast
qed


lemma task_kill_spec:
  assumes ok: "sched_ok s q ts" and p: "p \<in> set ts" "t_pid (tk s p) \<noteq> 0" "t_state (tk s p) \<noteq> TASK_ZOMBIE"
  shows "\<exists>k s' q'. task_kill (Some p) now s = Some (Inr (k, s')) \<and> sched_ok s' q' (remove1 p ts) \<and>
    t_state (tk s' p) = TASK_ZOMBIE \<and> p \<notin> set q' \<and>
    (if current_task s = Some p then \<exists>n. k = Kill_switched n \<and> current_task s' = Some n \<and> q' = remove1 n q
     else k = Kill_returned 0 \<and> current_task s' = current_task s \<and> q' = remove1 p q)"
proof -
  from ok have inv: "sched_inv s q ts (current_task s)" by (simp add: sched_ok_def)
  let ?r = "if current_task s = Some p then None else current_task s"
  have "\<exists>s1. (if t_state (tk s p) = TASK_READY then do {
        rq \<leftarrow> eevdf_dequeue (Some p) (rqs s); Some (s\<lparr>rqs := rq\<rparr>) } else Some s) = Some s1 \<and>
      sched_inv (set_task p (t_state_update (\<lambda>_. TASK_ZOMBIE)) s1) (remove1 p q) ts ?r \<and>
      tk s1 = tk s \<and> current_task s1 = current_task s"
  proof (cases "t_state (tk s p) = TASK_READY")
    case True
    then have "current_task s \<noteq> Some p" using sched_inv_mem(2) [OF inv, of p] by auto
    with dequeue_zombie_inv [OF inv p(1) True p(2)] True show ?thesis by auto
  next
    case False
    then have "p \<notin> set q" using sched_inv_mem(1) [OF inv, of p] by auto
    with zombie_inv [OF inv p(1)] False show ?thesis by (auto simp: remove1_idem)
  qed
  then obtain s1 where s1: "(if t_state (tk s p) = TASK_READY then do {
        rq \<leftarrow> eevdf_dequeue (Some p) (rqs s); Some (s\<lparr>rqs := rq\<rparr>) } else Some s) = Some s1"
      "sched_inv (set_task p (t_state_update (\<lambda>_. TASK_ZOMBIE)) s1) (remove1 p q) ts ?r"
      "tk s1 = tk s" "current_task s1 = current_task s" by blast
  define s2 where "s2 = set_task p (t_state_update (\<lambda>_. TASK_ZOMBIE)) s1"
  obtain b where b: "pid_free (t_pid (tk s2 p)) (pids s2) = Some b" using pid_free_clears by blast
  define s3 where "s3 = task_unlink p (s2\<lparr>pids := b\<rparr>)"
  have inv2: "sched_inv (s2\<lparr>pids := b\<rparr>) (remove1 p q) ts ?r" using s1(2) by (simp add: s2_def)
  have z: "t_state (tk (s2\<lparr>pids := b\<rparr>) p) = TASK_ZOMBIE" "t_pid (tk (s2\<lparr>pids := b\<rparr>) p) \<noteq> 0"
    using p(2) s1(3) by (simp_all add: s2_def)
  note u = unlink_inv [OF inv2 p(1) z, folded s3_def]
  have cur: "current_task s3 = current_task s" using u(2) s1(4) by (simp add: s2_def)
  have zom: "t_state (tk s3 p) = TASK_ZOMBIE" using u(4) [of p] z(1) by simp
  have run: "task_kill (Some p) now s = (if Some p = current_task s then
      and_then (schedule now (task_set_current None s3)) (\<lambda>(e, s).
        case e of Returned \<Rightarrow> None | Switched _ n \<Rightarrow> Some (Inr (Kill_switched n, s)))
    else Some (Inr (Kill_returned 0, s3)))"
    using p(2,3) s1(1) b cur unfolding task_kill_def by (simp add: s2_def s3_def task_current_def)
  have d: "distinct q" "distinct ts" using rq.wf [OF sched_inv_mem(3) [OF inv]] inv by (auto simp: sched_inv_defs)
  show ?thesis
  proof (cases "current_task s = Some p")
    case True
    have "p \<notin> set q" using sched_inv_mem(2) [OF inv] True by simp
    have "sched_inv (task_set_current None s3) q (remove1 p ts) None"
      using u(1) True \<open>p \<notin> set q\<close> by (simp add: remove1_idem)
    from schedule_after_end [OF this, of now] obtain n s' where
      r: "schedule now (task_set_current None s3) = Some (Inr (Switched None n, s'))" "sched_ok s' (remove1 n q) (remove1 p ts)"
        "current_task s' = Some n" "n \<in> set (remove1 p ts)" "\<forall>x. x \<noteq> n \<longrightarrow> tk s' x = tk (task_set_current None s3) x" by auto
    have "n \<noteq> p" using r(4) d(2) by auto
    then have "t_state (tk s' p) = TASK_ZOMBIE" using r(5) zom by simp
    with r run True \<open>p \<notin> set q\<close> show ?thesis by (auto dest: notin_set_remove1)
  next
    case False
    then have "sched_ok s3 (remove1 p q) (remove1 p ts)" using u(1) cur by (simp add: sched_ok_def)
    with False run zom cur d(1) show ?thesis by auto
  qed
qed


subsection \<open>Waiting\<close>

lemma takeWhile_queue_add:
  assumes "sorted (map v q)" "w \<in> set q" "c \<noteq> w"
  shows "sum_list (map f (takeWhile (\<lambda>x. x \<noteq> w) (queue_add v c q))) =
    sum_list (map f (takeWhile (\<lambda>x. x \<noteq> w) q)) + (if v c < v w then f c else (0::nat))"
  using assms
proof (induction q)
  case (Cons a q)
  show ?case
  proof (cases "v a \<le> v c")
    case True
    then have "queue_add v c (a # q) = a # queue_add v c q" by (simp add: queue_add_def not_less)
    then show ?thesis using Cons True by (cases "a = w") (auto simp: not_less)
  next
    case False
    then have "v c < v a" "\<forall>x\<in>set q. v a \<le> v x" using Cons.prems(1) by auto
    then have gt: "\<forall>x\<in>set (a # q). v c < v x" by fastforce
    then have "queue_add v c (a # q) = c # a # q"
      using queue_add_split [of "[]" v c "a # q"] by simp
    moreover have "v c < v w" using gt Cons.prems(2) by blast
    ultimately show ?thesis using Cons.prems(3) by simp
  qed
qed simp

lemma behind_charged:
  assumes "v c < v c + (d::u64)" "v c + d \<le> v' c" "v' w = v w"
  shows "(if v' c < v' w then Suc (behind v' w c) else 0) \<le> behind v w c"
  using assms by (auto simp: behind_def word_less_nat_alt word_le_nat_alt)

text \<open>When time has passed, \<open>schedule\<close> takes the first task that waits.\<close>

lemma schedule_first:
  assumes ok: "sched_ok s (h # q) ts" and run: "schedule now s = Some (Inr (e, s'))"
    and ch: "\<And>c. current_task s = Some c \<Longrightarrow> now \<noteq> ctx_x23 (t_context (tk s c))"
  shows "current_task s' = Some h \<and> (\<forall>x\<in>set (h # q). vr (rqs s') x = vr (rqs s) x) \<and>
    (if \<exists>c. current_task s = Some c \<and> t_pid (tk s c) \<noteq> 0
     then \<exists>c. current_task s = Some c \<and> sched_ok s' (queue_add (vr (rqs s')) c q) ts \<and> c \<notin> set (h # q) \<and>
       vr (rqs s) c + charge now (rqs s) c \<le> vr (rqs s') c
     else sched_ok s' q ts)"
proof -
  have inv: "sched_inv s (h # q) ts (current_task s)" using ok by (simp add: sched_ok_def)
  from schedule_spec [OF ok, of now] run obtain s1 q1 n where
    r: "sched_ok s' (remove1 n q1) ts" "current_task s' = Some n" "n = next_task s1 q1 ts"
      "q1 = (case current_task s of None \<Rightarrow> h # q | Some c \<Rightarrow> if t_pid (tk s c) = 0 then h # q else queue_add (vr (rqs s1)) c (h # q))"
      "case current_task s of None \<Rightarrow> s1 = s | Some c \<Rightarrow> give_back now c s = Some (Inr s1)"
      and same: "\<forall>p. p \<noteq> n \<longrightarrow> tk s' p = tk s1 p" "t_vruntime (tk s' n) = t_vruntime (tk s1 n)" by auto
  have v': "vr (rqs s') x = vr (rqs s1) x" for x using same by (cases "x = n") auto
  show ?thesis
  proof (cases "current_task s")
    case None
    then have "n = h" "s1 = s" "q1 = h # q" using r(3,4,5) by (simp_all add: next_task_def)
    with r v' None show ?thesis by simp
  next
    case (Some c)
    then have invc: "sched_inv s (h # q) ts (Some c)" using inv by simp
    from sched_inv_mem(2) [OF invc refl] have c: "c \<notin> set (h # q)" by simp
    from give_back_spec [OF invc, of now] r(5) Some ch [OF Some] have
      g: "\<forall>p. p \<noteq> c \<longrightarrow> tk s1 p = tk s p" "t_pid (tk s c) \<noteq> 0 \<longrightarrow> vr (rqs s) h \<le> vr (rqs s1) c"
        "t_pid (tk s c) \<noteq> 0 \<longrightarrow> vr (rqs s) c + charge now (rqs s) c \<le> vr (rqs s1) c" by auto
    have keep: "\<forall>x\<in>set (h # q). vr (rqs s') x = vr (rqs s) x"
    proof
      fix x assume "x \<in> set (h # q)"
      then have "x \<noteq> c" using c by blast
      then show "vr (rqs s') x = vr (rqs s) x" using v' g(1) by simp
    qed
    show ?thesis
    proof (cases "t_pid (tk s c) = 0")
      case True
      then have "q1 = h # q" "n = h" using r(3,4) Some by (simp_all add: next_task_def)
      with r(1,2) keep Some True show ?thesis by simp
    next
      case False
      have "h \<noteq> c" using c by auto
      then have "vr (rqs s1) h \<le> vr (rqs s1) c" using g(1,2) False by simp
      then have "q1 = h # queue_add (vr (rqs s1)) c q" using r(4) Some False by (simp add: queue_add_def not_less)
      moreover from this have "n = h" using r(3) by (simp add: next_task_def)
      moreover have "vr (rqs s') = vr (rqs s1)" using v' by (rule ext)
      ultimately show ?thesis using r(1,2) keep Some False c g(3) v' [of c] by simp
    qed
  qed
qed

text \<open>... and the others come closer to the processor.\<close>

lemma schedule_progress:
  assumes ok: "sched_ok s q ts" and w: "w \<in> set q" and step: "sched_step s s'"
  shows "current_task s' = Some w \<or> (\<exists>q'. sched_ok s' q' ts \<and> w \<in> set q' \<and> wait_bound s' q' w < wait_bound s q w)"
proof -
  from step obtain now e where run: "schedule now s = Some (Inr (e, s'))"
    and ch: "\<And>c. current_task s = Some c \<Longrightarrow> vr (rqs s) c < vr (rqs s) c + charge now (rqs s) c"
    by (auto simp: sched_step_def)
  have late: "now \<noteq> ctx_x23 (t_context (tk s c))" if "current_task s = Some c" for c
    using ch [OF that] by (auto simp: charge_def)
  obtain h q0 where q: "q = h # q0" using w by (cases q) auto
  note first = schedule_first [OF ok [unfolded q] run late]
  show ?thesis
  proof (cases "h = w")
    case False
    then have w0: "w \<in> set q0" using w q by simp
    have keep: "behind (vr (rqs s')) w x = behind (vr (rqs s)) w x" if "x \<in> set (h # q0)" for x
      using first that w0 by (auto simp: behind_def)
    have old: "sum_list (map (\<lambda>x. Suc (behind (vr (rqs s')) w x)) (takeWhile (\<lambda>x. x \<noteq> w) q0)) =
        sum_list (map (\<lambda>x. Suc (behind (vr (rqs s)) w x)) (takeWhile (\<lambda>x. x \<noteq> w) q0))"
      by (rule arg_cong [where f = sum_list], rule map_cong [OF refl]) (auto simp: keep dest: set_takeWhileD)
    have one: "(case current_task s' of None \<Rightarrow> 0 | Some c \<Rightarrow> if t_pid (tk s' c) = 0 then 0 else behind (vr (rqs s')) w c)
        \<le> behind (vr (rqs s)) w h"
      using first keep [of h] by simp
    have here: "wait_bound s q w = Suc (behind (vr (rqs s)) w h) +
        sum_list (map (\<lambda>x. Suc (behind (vr (rqs s)) w x)) (takeWhile (\<lambda>x. x \<noteq> w) q0)) +
        (case current_task s of None \<Rightarrow> 0 | Some c \<Rightarrow> if t_pid (tk s c) = 0 then 0 else behind (vr (rqs s)) w c)"
      using False by (simp add: wait_bound_def q)
    show ?thesis
    proof (cases "\<exists>c. current_task s = Some c \<and> t_pid (tk s c) \<noteq> 0")
      case True
      with first obtain c where c: "current_task s = Some c" "t_pid (tk s c) \<noteq> 0" "c \<notin> set (h # q0)"
        "sched_ok s' (queue_add (vr (rqs s')) c q0) ts" "vr (rqs s) c + charge now (rqs s) c \<le> vr (rqs s') c" by auto
      have "map (vr (rqs s')) q0 = map (vr (rqs s)) q0" using first by simp
      moreover have "sorted (map (vr (rqs s)) q0)" using rq.wf [of "rqs s" q] ok q by (simp add: sched_ok_def sched_inv_defs)
      ultimately have sorted: "sorted (map (vr (rqs s')) q0)" by (simp only:)
      have "c \<noteq> w" using w0 c(3) by auto
      from takeWhile_queue_add [OF sorted w0 this, of "\<lambda>x. Suc (behind (vr (rqs s')) w x)"] old one
      have "wait_bound s' (queue_add (vr (rqs s')) c q0) w \<le>
          sum_list (map (\<lambda>x. Suc (behind (vr (rqs s)) w x)) (takeWhile (\<lambda>x. x \<noteq> w) q0)) +
          (if vr (rqs s') c < vr (rqs s') w then Suc (behind (vr (rqs s')) w c) else 0) + behind (vr (rqs s)) w h"
        unfolding wait_bound_def by linarith
      moreover have "(if vr (rqs s') c < vr (rqs s') w then Suc (behind (vr (rqs s')) w c) else 0) \<le> behind (vr (rqs s)) w c"
        using ch [OF c(1)] c(5) first w0 by (intro behind_charged) auto
      ultimately have "wait_bound s' (queue_add (vr (rqs s')) c q0) w < wait_bound s q w" using here c(1,2) by simp
      with c(4) w0 show ?thesis by auto
    next
      case False
      with first have "sched_ok s' q0 ts" by simp
      moreover have "wait_bound s' q0 w < wait_bound s q w" using here old one unfolding wait_bound_def by linarith
      ultimately show ?thesis using w0 by blast
    qed
  qed (use first in simp)
qed

lemma demo_sched:
  "\<exists>s. sched_ok s [4096] [4096, 12288, 8192] \<and> current_task s = Some 12288 \<and> tk s = demo_tasks \<and> rq_min_vruntime (rqs s) = 0"
proof -
  have "rq_queue (demo_rq\<lparr>tasks := demo_tasks\<rparr>) []" by (rule rq_queue_cong [OF demo_rq_queue(1)]) simp
  from enqueue_spec [OF this, of 4096] obtain r where
    r: "rq_queue r [4096]" "tasks r = demo_tasks(4096 := (demo_tasks 4096)\<lparr>t_vruntime := 0\<rparr>)" "rq_min_vruntime r = 0"
    by (auto simp: demo_rq_queue demo_tasks_def demo_task_def queue_add_def)
  have "demo_tasks(4096 := (demo_tasks 4096)\<lparr>t_vruntime := 0\<rparr>) = demo_tasks"
    by (simp add: demo_tasks_def demo_task_def fun_eq_iff)
  with r(2) have "tasks r = demo_tasks" by simp
  moreover have "{p \<in> set [4096, 12288, 8192]. t_pid (demo_tasks p) = 0} = {8192}"
    by (auto simp: demo_tasks_def demo_task_def)
  ultimately have "sched_ok \<lparr>rqs = r, current_task = Some 12288, task_list = Some 4096, pids = pid_init\<rparr> [4096] [4096, 12288, 8192]"
    using r(1) by (auto simp: sched_ok_def sched_inv_defs demo_tasks_def demo_task_def demo_rq_queue(3))
  then show ?thesis using \<open>tasks r = demo_tasks\<close> r(3) by (intro exI conjI) (assumption, simp_all)
qed

lemma rq_fill: "k \<le> 64 \<Longrightarrow> \<exists>r. rq_queue r (map of_nat [1..<Suc k]) \<and> tasks r = (\<lambda>_. demo_task) \<and> rq_min_vruntime r = 0"
proof (induction k)
  case 0
  then show ?case using demo_rq_queue by auto
next
  case (Suc k)
  then obtain r where r: "rq_queue r (map of_nat [1..<Suc k])" "tasks r = (\<lambda>_. demo_task)" "rq_min_vruntime r = 0" by auto
  have "(of_nat (Suc k) :: u64) \<noteq> of_nat i" if "i \<le> k" for i
  proof
    assume "(of_nat (Suc k) :: u64) = of_nat i"
    then have "unat (of_nat (Suc k) :: u64) = unat (of_nat i :: u64)" by (simp only:)
    then show False using that Suc.prems by (simp add: unat_of_nat del: of_nat_Suc)
  qed
  then have new: "(of_nat (Suc k) :: u64) \<notin> set (map of_nat [1..<Suc k])"
    unfolding set_map set_upt image_iff by (meson atLeastLessThan_iff less_Suc_eq_le)
  define q where "q = (map of_nat [1..<Suc k] :: u64 list)"
  have q: "length q < 64" "map of_nat [1..<Suc (Suc k)] = q @ [of_nat (Suc k)]" using Suc.prems by (simp_all add: q_def)
  from enqueue_spec [OF r(1) [folded q_def] new [folded q_def] _ _ q(1)] obtain r' where
    r': "rq_queue r' (queue_add (vr r') (of_nat (Suc k)) q)" "rq_min_vruntime r' = 0"
      "tasks r' = (\<lambda>_. demo_task)(of_nat (Suc k) := demo_task\<lparr>t_vruntime := 0\<rparr>)"
    using r(2,3) by (auto simp: demo_task_def demo_rq_queue(3) simp del: of_nat_Suc)
  have tm: "tasks r' = (\<lambda>_. demo_task)" using r'(3) by (simp add: demo_task_def fun_eq_iff)
  then have "queue_add (vr r') (of_nat (Suc k)) q = q @ [of_nat (Suc k)]"
    using queue_add_split [of q "vr r'" "of_nat (Suc k)" "[]"] by (simp del: of_nat_Suc)
  with r'(1,2) tm q(2) show ?case by (auto simp del: of_nat_Suc upt_Suc)
qed

text \<open>Sixty-four tasks that are ready, one that runs, and the idle task.\<close>

definition full_tasks :: task_mem where
  "full_tasks a = demo_task\<lparr>t_pid := (if a = 66 then 0 else 1), t_state := (if a = 65 then TASK_RUNNING else TASK_READY),
     t_prev := (if a = 1 then None else Some (a - 1)), t_next := (if a = 66 then None else Some (a + 1))\<rparr>"

lemma of_nat_small [simp]: "i < 100 \<Longrightarrow> j < 100 \<Longrightarrow> (of_nat i = (of_nat j :: u64)) = (i = j)"
  by (auto simp: word_unat_eq_iff unat_of_nat)

lemma full_dlist:
  assumes "1 \<le> i" "i \<le> 66"
  shows "dlist full_tasks (if i = 1 then None else Some (of_nat (i - 1))) (Some (of_nat i)) (map of_nat [i..<67])"
  using assms
proof (induction "66 - i" arbitrary: i)
  case 0
  then have "i = 66" by simp
  then show ?case by (simp add: upt_rec full_tasks_def)
next
  case (Suc n)
  then have IH: "dlist full_tasks (Some (of_nat i)) (Some (of_nat (Suc i))) (map of_nat [Suc i..<67])" using Suc.hyps(1) [of "Suc i"] by simp
  have "(of_nat i :: u64) = 66 \<longleftrightarrow> i = 66" "(of_nat i :: u64) = 1 \<longleftrightarrow> i = 1"
    using of_nat_small [of i 66] of_nat_small [of i 1] Suc.prems by simp_all
  then show ?case using Suc IH by (auto simp: upt_conv_Cons full_tasks_def of_nat_diff add.commute)
qed

lemma full_sched:
  "\<exists>s. tk s = full_tasks \<and> sched_wf s (map of_nat [1..<65]) (map of_nat [1..<67]) (current_task s) \<and>
     64 < runnable s (map of_nat [1..<65]) (current_task s)"
proof -
  from rq_fill [of 64] obtain r where r: "rq_queue r (map of_nat [1..<65])" "tasks r = (\<lambda>_. demo_task)" by auto
  let ?s = "\<lparr>rqs = r\<lparr>tasks := full_tasks\<rparr>, current_task = Some 65, task_list = Some 1, pids = pid_init\<rparr>"
  have q: "rq_queue (r\<lparr>tasks := full_tasks\<rparr>) (map of_nat [1..<65])" by (rule rq_queue_cong [OF r(1)]) (simp add: r(2) full_tasks_def)
  have eq: "(of_nat i :: u64) = 65 \<longleftrightarrow> i = 65" "(of_nat i :: u64) = 66 \<longleftrightarrow> i = 66" if "i < 67" for i
    using of_nat_small [of i 65] of_nat_small [of i 66] that by simp_all
  have d: "distinct (map of_nat [1..<67] :: u64 list)" by (simp add: distinct_map inj_on_def)
  have "{p \<in> set (map of_nat [1..<67]). t_pid (full_tasks p) = 0} = {66}"
    by (auto simp: full_tasks_def demo_task_def image_iff split: if_splits intro!: bexI [of _ 66])
  moreover have "set (map of_nat [1..<65]) = {p \<in> set (map of_nat [1..<67]). t_state (full_tasks p) = TASK_READY \<and> t_pid (full_tasks p) \<noteq> 0}"
  proof -
    have "{1..<65} = {i \<in> {1..<67}. i \<noteq> 65 \<and> i \<noteq> (66 :: nat)}" by auto
    moreover have "of_nat ` {i \<in> {1..<67}. i \<noteq> 65 \<and> i \<noteq> 66} = {p \<in> of_nat ` {1..<67}. p \<noteq> 65 \<and> p \<noteq> (66 :: u64)}" using eq by auto
    moreover have "(t_state (full_tasks p) = TASK_READY \<and> t_pid (full_tasks p) \<noteq> 0) = (p \<noteq> 65 \<and> p \<noteq> 66)" for p
      by (simp add: full_tasks_def)
    ultimately show ?thesis by (simp only: set_map set_upt)
  qed
  moreover have "\<forall>p \<in> set (map of_nat [1..<67]). weight_of (t_priority (full_tasks p)) \<noteq> None \<and> (t_state (full_tasks p) = TASK_RUNNING \<longleftrightarrow> Some 65 = Some p)"
    by (auto simp: full_tasks_def demo_task_def demo_rq_queue(3))
  moreover have "65 \<in> set (map of_nat [1..<67] :: u64 list)" by (auto simp: image_iff intro!: bexI [of _ 65])
  moreover have "runnable ?s (map of_nat [1..<65]) (Some 65) = 65" by (simp add: runnable_def full_tasks_def demo_task_def)
  ultimately show ?thesis using q d full_dlist [of 1] by (intro exI [of _ ?s]) (auto simp: sched_wf_def)
qed

text \<open>The choice of \<open>schedule\<close>.\<close>

lemma schedule_least:
  assumes "sched_ok s q ts"
  shows "\<exists>e n s' q'. schedule now s = Some (Inr (e, s')) \<and> sched_ok s' q' ts \<and> current_task s' = Some n \<and>
    e = (if current_task s = Some n then Returned else Switched (current_task s) n) \<and>
    (\<forall>x\<in>set q'. t_pid (tk s n) \<noteq> 0 \<and> vr (rqs s') n \<le> vr (rqs s') x)"
proof -
  from schedule_spec [OF assms, of now] obtain s' s1 q1 n where
    r: "schedule now s = Some (Inr (if current_task s = Some n then Returned else Switched (current_task s) n, s'))"
      "sched_ok s' (remove1 n q1) ts" "current_task s' = Some n" "n = next_task s1 q1 ts" "sched_inv s1 q1 ts None"
      "case current_task s of None \<Rightarrow> s1 = s | Some c \<Rightarrow> give_back now c s = Some (Inr s1)"
      "\<forall>p. p \<noteq> n \<longrightarrow> tk s' p = tk s1 p" "t_vruntime (tk s' n) = t_vruntime (tk s1 n)" by blast
  have pid: "t_pid (tk s1 x) = t_pid (tk s x)" for x
  proof (cases "current_task s")
    case (Some c)
    with assms have "sched_inv s q ts (Some c)" by (simp add: sched_ok_def)
    from give_back_spec [OF this, of now] r(6) Some show ?thesis by (cases "x = c") auto
  qed (use r(6) in simp)
  have "t_pid (tk s n) \<noteq> 0 \<and> vr (rqs s') n \<le> vr (rqs s') x" if "x \<in> set (remove1 n q1)" for x
  proof -
    from that obtain h q0 where q1: "q1 = h # q0" by (cases q1) auto
    then have n: "n = h" using r(4) by (simp add: next_task_def)
    have "t_pid (tk s1 h) \<noteq> 0" using sched_inv_mem(1) [OF r(5), of h] q1 by simp
    moreover have "x \<in> set q0" using that q1 n by simp
    then have "vr (rqs s1) h \<le> vr (rqs s1) x" "x \<noteq> h" using rq.wf [OF sched_inv_mem(3) [OF r(5)]] q1 by auto
    ultimately show ?thesis using pid n r(7,8) by simp
  qed
  with r show ?thesis by blast
qed

text \<open>
  The node pool bounds the number of tasks: with 64 tasks queued, the running task finds no node, and
  \<open>schedule\<close> panics instead of switching. Nothing keeps \<open>task_create\<close> from making that many tasks.
\<close>

lemma give_back_full:
  assumes "rq_queue (rqs s) q" "length q = 64" "c \<notin> set q" "t_pid (tk s c) \<noteq> 0"
  shows "give_back now c s = Some (Inl Ready_not_queued)"
proof -
  from update_curr_spec [OF assms(1,3) refl refl] obtain rq1 fair where
    u: "eevdf_update_curr (Some c) now (rqs s) = Some rq1" "rq_queue rq1 q"
      "tasks rq1 = (tk s)(c := (tk s c)\<lparr>t_context := set_ctx_x 23 now (t_context (tk s c)), t_vruntime := vr (rqs s) c + fair\<rparr>)"
    by blast
  define r2 where "r2 = rq1\<lparr>tasks := (tasks rq1)(c := (tasks rq1 c)\<lparr>t_state := TASK_READY\<rparr>)\<rparr>"
  have q2: "rq_queue r2 q" unfolding r2_def by (rule rq_queue_cong [OF u(2)]) auto
  from enqueue_full [OF q2 assms(3) _ assms(2)] obtain r3 where
    r3: "eevdf_enqueue (Some c) r2 = Some r3" "rq_queue r3 q" by (auto simp: r2_def)
  then show ?thesis using u r3 assms(3,4) rq.queued [OF r3(2), of c] by (simp add: give_back_def r2_def)
qed

lemma schedule_panics_when_full:
  assumes "rq_queue (rqs s) q" "length q = 64" "current_task s = Some c" "c \<notin> set q"
    and "t_state (tk s c) = TASK_RUNNING" "t_pid (tk s c) \<noteq> 0"
  shows "schedule now s = Some (Inl Ready_not_queued)"
  using give_back_full [OF assms(1,2,4,6)] assms(3,5) by (simp add: schedule_def task_current_def schedule_put_prev_def)

section \<open>Properties\<close>

text \<open>
  C1 \<open>schedule\<close> keeps the books. From a state in which exactly the READY tasks other than the idle task are queued and
  exactly the current task is RUNNING, and in which at most 64 tasks other than the idle task are ready or running, it
  reaches such a state again without a panic, whatever the timer says. The task that runs next has the least virtual run
  time of all that are queued, and the idle task runs only when nothing is queued. The call returns exactly
  when the previous task goes on. With 65 such tasks (nothing in the code bounds their number) the running one finds no
  node in the pool and \<open>schedule\<close> always panics.
\<close>

theorem schedule_keeps_invariant:
  assumes wf: "sched_wf s q ts (current_task s)"
  shows "(runnable s q (current_task s) \<le> 64 \<longrightarrow>
      (\<exists>e n s' q'. schedule now s = Some (Inr (e, s')) \<and> sched_wf s' q' ts (current_task s') \<and> runnable s' q' (current_task s') \<le> 64 \<and>
        current_task s' = Some n \<and> e = (if current_task s = Some n then Returned else Switched (current_task s) n) \<and>
        (\<forall>x\<in>set q'. t_pid (tk s n) \<noteq> 0 \<and> vr (rqs s') n \<le> vr (rqs s') x))) \<and>
    (64 < runnable s q (current_task s) \<longrightarrow> schedule now s = Some (Inl Ready_not_queued))"
proof (intro conjI impI)
  assume "runnable s q (current_task s) \<le> 64"
  with wf have "sched_ok s q ts" by (simp add: sched_ok_def sched_inv_def)
  from schedule_least [OF this, of now] show "\<exists>e n s' q'. schedule now s = Some (Inr (e, s')) \<and> sched_wf s' q' ts (current_task s') \<and>
      runnable s' q' (current_task s') \<le> 64 \<and> current_task s' = Some n \<and> e = (if current_task s = Some n then Returned else Switched (current_task s) n) \<and>
      (\<forall>x\<in>set q'. t_pid (tk s n) \<noteq> 0 \<and> vr (rqs s') n \<le> vr (rqs s') x)"
    unfolding sched_ok_def sched_inv_def by blast
next
  assume full: "64 < runnable s q (current_task s)"
  have q: "rq_queue (rqs s) q" "length q \<le> 64" using wf rq_queue_length by (auto simp: sched_wf_def)
  with full obtain c where c: "current_task s = Some c" "t_pid (tk s c) \<noteq> 0" "length q = 64"
    by (auto simp: runnable_def split: option.splits if_splits)
  then have "t_state (tk s c) = TASK_RUNNING" "c \<notin> set q" using wf by (auto simp: sched_wf_def)
  with q c show "schedule now s = Some (Inl Ready_not_queued)" by (intro schedule_panics_when_full)
qed

theorem schedule_keeps_invariant_witness:
  "(\<exists>s e s' q'. tk s = demo_tasks \<and> runnable s [4096] (current_task s) = 2 \<and> schedule 5000 s = Some (Inr (e, s')) \<and>
      sched_wf s' q' [4096, 12288, 8192] (current_task s')) \<and>
   (\<exists>s. tk s = full_tasks \<and> sched_wf s (map of_nat [1..<65]) (map of_nat [1..<67]) (current_task s) \<and> schedule 5000 s = Some (Inl Ready_not_queued))"
proof
  from demo_sched obtain s where s: "sched_ok s [4096] [4096, 12288, 8192]" "current_task s = Some 12288" "tk s = demo_tasks" by blast
  then have "sched_wf s [4096] [4096, 12288, 8192] (current_task s)" "runnable s [4096] (current_task s) = 2"
    by (simp_all add: sched_ok_def sched_inv_def) (simp add: runnable_def demo_tasks_def demo_task_def)
  with schedule_keeps_invariant [of s "[4096]" "[4096, 12288, 8192]" 5000] s(3)
  show "\<exists>s e s' q'. tk s = demo_tasks \<and> runnable s [4096] (current_task s) = 2 \<and> schedule 5000 s = Some (Inr (e, s')) \<and>
      sched_wf s' q' [4096, 12288, 8192] (current_task s')" by force
  from full_sched obtain s where f: "tk s = full_tasks" "sched_wf s (map of_nat [1..<65]) (map of_nat [1..<67]) (current_task s)"
    "64 < runnable s (map of_nat [1..<65]) (current_task s)" by blast
  with schedule_keeps_invariant [OF f(2), of 5000]
  show "\<exists>s. tk s = full_tasks \<and> sched_wf s (map of_nat [1..<65]) (map of_nat [1..<67]) (current_task s) \<and> schedule 5000 s = Some (Inl Ready_not_queued)"
    by blast
qed

text \<open>
  C2 No task starves: in every sequence of calls of \<open>schedule\<close> in which the running tasks are charged for
  some time and no virtual run time wraps around, a queued task \<open>w\<close> runs after at most
  \<open>wait_bound\<close> + 1 calls.
\<close>

theorem schedule_no_starvation:
  assumes "sched_ok s q ts" "w \<in> set q"
    and "\<sigma> 0 = s" "\<forall>i\<le>wait_bound s q w. sched_step (\<sigma> i) (\<sigma> (Suc i))"
  shows "\<exists>i. 0 < i \<and> i \<le> Suc (wait_bound s q w) \<and> current_task (\<sigma> i) = Some w"
  using assms
proof (induction "wait_bound s q w" arbitrary: s q \<sigma> rule: less_induct)
  case less
  from less.prems(3,4) have "sched_step s (\<sigma> 1)" by fastforce
  from schedule_progress [OF less.prems(1,2) this] show ?case
  proof (elim disjE exE conjE)
    assume "current_task (\<sigma> 1) = Some w"
    then show ?thesis by (intro exI [of _ 1]) simp
  next
    fix q'
    assume n: "sched_ok (\<sigma> 1) q' ts" "w \<in> set q'" "wait_bound (\<sigma> 1) q' w < wait_bound s q w"
    have "\<forall>i\<le>wait_bound (\<sigma> 1) q' w. sched_step (\<sigma> (Suc i)) (\<sigma> (Suc (Suc i)))" using less.prems(4) n(3) by simp
    from less.hyps [OF n(3,1,2), of "\<lambda>i. \<sigma> (Suc i)"] this obtain i where
      "0 < i" "i \<le> Suc (wait_bound (\<sigma> 1) q' w)" "current_task (\<sigma> (Suc i)) = Some w" by auto
    then show ?thesis using n(3) by (intro exI [of _ "Suc i"]) simp
  qed
qed

theorem schedule_no_starvation_witness:
  "\<exists>s s'. tk s = demo_tasks \<and> sched_step s s' \<and> current_task s' = Some 4096"
proof -
  from demo_sched obtain s where s: "sched_ok s [4096] [4096, 12288, 8192]" "current_task s = Some 12288" "tk s = demo_tasks" by blast
  have "rq_queue (rqs s) [4096]" using s(1) by (simp add: sched_ok_def sched_inv_defs)
  then have load: "load_or_default (rqs s) = 1024"
    using load_one(2) [of "rqs s" 4096 1024] s(3) by (simp add: load_or_default_def demo_tasks_def demo_task_def demo_rq_queue(3))
  from schedule_spec [OF s(1), of 5000] obtain e s' where e: "schedule 5000 s = Some (Inr (e, s'))" by blast
  have step: "sched_step s s'"
    unfolding sched_step_def using e s(2,3)
    by (intro exI [of _ 5000] exI [of _ e]) (simp add: charge_def load demo_tasks_def demo_task_def)
  have bound: "wait_bound s [4096] 4096 = 0" using s(2,3) by (simp add: wait_bound_def behind_def demo_tasks_def demo_task_def)
  from schedule_no_starvation [OF s(1), of 4096 "\<lambda>i. if i = 0 then s else s'"] step bound
  have "current_task s' = Some 4096" by (auto simp: le_Suc_eq)
  with step s(3) show ?thesis by blast
qed


text \<open>
  What the timer interrupt does to the tasks. When another task waits and the interrupted one is the idle task or has been charged for some
  time, the first waiting task runs next, otherwise the interrupted one may go on, and it does when nothing waits. At a switch the
  registers that were interrupted are saved in the previous task and those saved in the next task are loaded, except
  \<open>x23\<close>: in both it is replaced by the time, so a preempted task does not get its own \<open>x23\<close> back.
\<close>

lemma schedule_preempt_choice:
  assumes ok: "sched_ok s q ts" and cur: "current_task s = Some c"
  shows "\<exists>regs' n s' q'. schedule_preempt regs now1 now2 s = Some (Inr (regs', s')) \<and> sched_ok s' q' ts \<and> current_task s' = Some n \<and>
    regs' = (if n = c then regs else set_ctx_x 23 now2 (t_context (tk s n))) \<and>
    (n \<noteq> c \<longrightarrow> t_context (tk s' c) = set_ctx_x 23 now1 regs \<and> (t_pid (tk s c) \<noteq> 0 \<longrightarrow> c \<in> set q')) \<and>
    (q = [] \<longrightarrow> n = c) \<and> (q \<noteq> [] \<and> (t_pid (tk s c) = 0 \<or> now1 \<noteq> ctx_x23 regs) \<longrightarrow> n = hd q)"
proof -
  from ok cur have inv: "sched_inv s q ts (Some c)" by (simp add: sched_ok_def)
  note c = sched_inv_mem(2) [OF inv refl]
  from schedule_preempt_spec [OF ok cur, of regs now1 now2] obtain s' s1 q1 n where
    r: "schedule_preempt regs now1 now2 s = Some (Inr (if n = c then regs else set_ctx_x 23 now2 (t_context (tk s1 n)), s'))"
      "sched_ok s' (remove1 n q1) ts" "current_task s' = Some n" "n = next_task s1 q1 ts" "sched_inv s1 q1 ts None"
      "q1 = (if t_pid (tk s c) = 0 then q else queue_add (vr (rqs s1)) c q)" "t_context (tk s1 c) = set_ctx_x 23 now1 regs"
      "\<forall>p. p \<noteq> c \<longrightarrow> tk s1 p = tk s p" "\<forall>p. p \<noteq> n \<longrightarrow> tk s' p = tk s1 p"
      "t_pid (tk s c) \<noteq> 0 \<and> q \<noteq> [] \<and> now1 \<noteq> ctx_x23 regs \<longrightarrow> vr (rqs s) (hd q) \<le> vr (rqs s1) c" by blast
  have "n = hd q" if "q \<noteq> []" "t_pid (tk s c) = 0 \<or> now1 \<noteq> ctx_x23 regs"
  proof -
    from that(1) obtain h q0 where q: "q = h # q0" by (cases q) auto
    have "h \<noteq> c" using c q by auto
    then have "\<exists>q2. q1 = h # q2" using r(6,8,10) that q by (auto simp: queue_add_def not_less)
    then show ?thesis using r(4) q by (auto simp: next_task_def)
  qed
  moreover have "n = c" if "q = []"
  proof (cases "t_pid (tk s c) = 0")
    case True
    then have "q1 = []" using r(6) that by simp
    then have n: "n \<in> set ts" "t_pid (tk s1 n) = 0" using next_task_mem [OF r(5)] r(4) by auto
    from idle_task [OF inv] c True n r(8) show ?thesis by (cases "n = c") auto
  next
    case False
    then show ?thesis using r(4,6) that by (simp add: queue_add_def next_task_def)
  qed
  moreover have "c \<in> set (remove1 n q1)" if "n \<noteq> c" "t_pid (tk s c) \<noteq> 0"
    using that r(6) by (auto simp: queue_add_def)
  ultimately show ?thesis using r by (intro exI [of _ "if n = c then regs else set_ctx_x 23 now2 (t_context (tk s n))"] exI [of _ n] exI [of _ s']
    exI [of _ "remove1 n q1"]) auto
qed

text \<open>With 65 tasks to run the interrupt panics, as \<open>schedule\<close> does.\<close>

lemma schedule_preempt_full:
  assumes wf: "sched_wf s q ts (Some c)" and cur: "current_task s = Some c" and full: "64 < runnable s q (Some c)"
  shows "schedule_preempt regs now1 now2 s = Some (Inl Ready_not_queued)"
proof -
  have q: "rq_queue (rqs s) q" "length q \<le> 64" using wf rq_queue_length by (auto simp: sched_wf_def)
  with full have l: "length q = 64" "t_pid (tk s c) \<noteq> 0" by (auto simp: runnable_def split: if_splits)
  have c: "t_state (tk s c) = TASK_RUNNING" "c \<notin> set q" using wf by (auto simp: sched_wf_def)
  have "rq_queue (rqs (set_task c (t_context_update (\<lambda>_. regs)) s)) q"
    unfolding set_task_simps by (rule rq_queue_cong [OF q(1)]) auto
  from give_back_full [OF this l(1) c(2)] l(2) have "give_back now1 c (set_task c (t_context_update (\<lambda>_. regs)) s) = Some (Inl Ready_not_queued)" by simp
  then show ?thesis using cur c(1) by (simp add: schedule_preempt_def task_current_def preempt_put_prev_def)
qed

text \<open>
  A task that exits never runs on: \<open>task_exit\<close> hands the processor to the first queued task, or to the
  idle task, and does not return; the task is a ZOMBIE and not queued, and the invariant holds.
\<close>

theorem task_exit_switches:
  assumes "sched_ok s q ts" "current_task s = Some c" "t_pid (tk s c) \<noteq> 0"
  shows "\<exists>n s'. task_exit now s = Some (Inr (Switched None n, s')) \<and> sched_ok s' (remove1 n q) ts \<and> n \<noteq> c \<and>
    current_task s' = Some n \<and> n = (case q of [] \<Rightarrow> next_task s [] ts | h # _ \<Rightarrow> h) \<and> t_state (tk s' c) = TASK_ZOMBIE"
proof -
  from task_exit_spec [OF assms, of now] obtain n s' where
    r: "task_exit now s = Some (Inr (Switched None n, s'))" "sched_ok s' (remove1 n q) ts" "current_task s' = Some n"
      "n = next_task s q ts" "t_state (tk s' c) = TASK_ZOMBIE" by blast
  from r(2,3) have "t_state (tk s' n) = TASK_RUNNING" using sched_inv_mem(2) [of s' _ ts "Some n" n] by (simp add: sched_ok_def)
  with r(5) have "n \<noteq> c" by auto
  with r show ?thesis by (auto simp: next_task_def split: list.splits)
qed

theorem task_exit_switches_witness:
  "\<exists>s s'. tk s = demo_tasks \<and> task_exit 10 s = Some (Inr (Switched None 4096, s')) \<and> current_task s' = Some 4096"
proof -
  from demo_sched obtain s where s: "sched_ok s [4096] [4096, 12288, 8192]" "current_task s = Some 12288" "tk s = demo_tasks" by blast
  from task_exit_switches [OF s(1,2), of 10] s(3) show ?thesis by (auto simp: demo_tasks_def demo_task_def)
qed

text \<open>
  Killing: the idle task and a null pointer are refused with -1, a task that is already a ZOMBIE is
  left alone; any other task becomes a ZOMBIE, leaves the run queue and the task list, and the
  invariant holds for the others. Killing the current task does not return, it switches to
  the next one.
\<close>

theorem task_kill_ends:
  assumes "sched_ok s q ts" "p \<in> set ts"
  shows "task_kill None now s = Some (Inr (Kill_returned (-1), s)) \<and>
    (if t_pid (tk s p) = 0 then task_kill (Some p) now s = Some (Inr (Kill_returned (-1), s))
     else if t_state (tk s p) = TASK_ZOMBIE then task_kill (Some p) now s = Some (Inr (Kill_returned 0, s))
     else \<exists>k s' q'. task_kill (Some p) now s = Some (Inr (k, s')) \<and> sched_ok s' q' (remove1 p ts) \<and>
       t_state (tk s' p) = TASK_ZOMBIE \<and> p \<notin> set q' \<and>
       (if current_task s = Some p then \<exists>n. k = Kill_switched n \<and> current_task s' = Some n
        else k = Kill_returned 0 \<and> current_task s' = current_task s \<and> q' = remove1 p q))"
proof -
  have "\<exists>k s' q'. task_kill (Some p) now s = Some (Inr (k, s')) \<and> sched_ok s' q' (remove1 p ts) \<and>
       t_state (tk s' p) = TASK_ZOMBIE \<and> p \<notin> set q' \<and>
       (if current_task s = Some p then \<exists>n. k = Kill_switched n \<and> current_task s' = Some n
        else k = Kill_returned 0 \<and> current_task s' = current_task s \<and> q' = remove1 p q)"
    if "t_pid (tk s p) \<noteq> 0" "t_state (tk s p) \<noteq> TASK_ZOMBIE"
    using task_kill_spec [OF assms that, of now] by (cases "current_task s = Some p") (simp_all, blast+)
  then show ?thesis by (simp add: task_kill_def)
qed

theorem task_kill_ends_witness:
  "\<exists>s s'. tk s = demo_tasks \<and> task_kill (Some 4096) 10 s = Some (Inr (Kill_returned 0, s')) \<and> sched_ok s' [] [12288, 8192]"
proof -
  from demo_sched obtain s where s: "sched_ok s [4096] [4096, 12288, 8192]" "current_task s = Some 12288" "tk s = demo_tasks" by blast
  from task_kill_ends [OF s(1), of 4096 10] s(2,3) show ?thesis by (auto simp: demo_tasks_def demo_task_def)
qed

end
