(* ===== verification/Vma.thy ===== *)
theory Vma
  imports RBTree_Delete
begin

text \<open>
  The set of virtual memory areas of \<open>src/mm/vmm.c\<close>: nodes from a static pool of 256, kept in a
  red-black tree ordered by start address; unused nodes are chained through \<open>left\<close>. The theory has
  the pool, the three lookups, the overlap test and the insertion of a node; \<open>rb_delete\<close> comes from
  \<open>RBTree\<close>. The lemmas relate all of them to the list of the nodes in order of their addresses.

  The locale \<open>area_store\<close> states what the callers rely on: lookups in an ordered set of disjoint
  areas. The overlap test against the two neighbours and the translation through the area below an
  address are proved correct there, and the tree is an interpretation of it.
\<close>

section \<open>Definitions\<close>

record vma_node = rb_node +
  vma_va :: u64
  vma_pa :: u64
  vma_size :: u64
  vma_attrs :: u32

type_synonym vma_heap = "nat \<Rightarrow> vma_node"

subsection \<open>Lookups\<close>

partial_function (option) find_le_loop :: "vma_heap \<Rightarrow> nat option \<Rightarrow> u64 \<Rightarrow> nat option \<Rightarrow> nat option option" where
  "find_le_loop h root va res = (case root of None \<Rightarrow> Some res
   | Some n \<Rightarrow> if va < vma_va (h n) then find_le_loop h (left (h n)) va res
               else find_le_loop h (right (h n)) va (Some n))"

definition find_le :: "vma_heap \<Rightarrow> nat option \<Rightarrow> u64 \<Rightarrow> nat option option" where
  "find_le h root va = find_le_loop h root va None"

partial_function (option) find_ge_loop :: "vma_heap \<Rightarrow> nat option \<Rightarrow> u64 \<Rightarrow> nat option \<Rightarrow> nat option option" where
  "find_ge_loop h root va res = (case root of None \<Rightarrow> Some res
   | Some n \<Rightarrow> if va \<le> vma_va (h n) then find_ge_loop h (left (h n)) va (Some n)
               else find_ge_loop h (right (h n)) va res)"

definition find_ge :: "vma_heap \<Rightarrow> nat option \<Rightarrow> u64 \<Rightarrow> nat option option" where
  "find_ge h root va = find_ge_loop h root va None"

partial_function (option) find_exact :: "vma_heap \<Rightarrow> nat option \<Rightarrow> u64 \<Rightarrow> nat option option" where
  "find_exact h root va = (case root of None \<Rightarrow> Some None
   | Some n \<Rightarrow> if va < vma_va (h n) then find_exact h (left (h n)) va
               else if va > vma_va (h n) then find_exact h (right (h n)) va
               else Some (Some n))"

text \<open>The sums wrap at 2 ^ 64.\<close>

definition overlaps :: "vma_heap \<Rightarrow> nat option \<Rightarrow> u64 \<Rightarrow> u64 \<Rightarrow> bool" where
  "overlaps h n va sz = (case n of None \<Rightarrow> False
   | Some n \<Rightarrow>
       let a0 = vma_va (h n); a1 = vma_va (h n) + vma_size (h n);
           b0 = va; b1 = va + sz
       in \<not> (b1 \<le> a0 \<or> a1 \<le> b0))"

subsection \<open>The node pool\<close>

definition VMA_POOL_CAP :: nat where "VMA_POOL_CAP = 256"

text \<open>The pool, the head of the free list and the function-local \<open>initialized\<close> of \<open>vma_alloc_node\<close>.\<close>

record vma_store =
  vma_pool :: vma_heap
  vma_free_list :: "nat option"
  vma_initialized :: bool
  vma_root :: "nat option"

definition init_vma_pool :: "vma_store \<Rightarrow> vma_store" where
  "init_vma_pool s = fold (\<lambda>i s. s\<lparr>
       vma_pool := (vma_pool s)(i := set_left (vma_free_list s) (vma_pool s i)),
       vma_free_list := Some i\<rparr>) [0..<VMA_POOL_CAP] s"

definition vma_alloc_node :: "vma_store \<Rightarrow> nat option \<times> vma_store" where
  "vma_alloc_node s =
     (let s = (if vma_free_list s = None then
                 if \<not> vma_initialized s then (init_vma_pool s)\<lparr>vma_initialized := True\<rparr> else s
               else s)
      in case vma_free_list s of
           None \<Rightarrow> (None, s)
         | Some n \<Rightarrow>
             let s = s\<lparr>vma_free_list := left (vma_pool s n)\<rparr>;
                 h = vma_pool s;
                 h = h(n := set_parent None (set_right None (set_left None (h n))));
                 h = h(n := set_color RB_RED (h n))
             in (Some n, s\<lparr>vma_pool := h\<rparr>))"

definition vma_free_node :: "nat option \<Rightarrow> vma_store \<Rightarrow> vma_store" where
  "vma_free_node n s = (case n of None \<Rightarrow> s
   | Some n \<Rightarrow> s\<lparr>vma_pool := (vma_pool s)(n := set_left (vma_free_list s) (vma_pool s n)),
       vma_free_list := Some n\<rparr>)"

subsection \<open>Inserting a node\<close>

partial_function (option) vma_descend ::
  "vma_heap \<Rightarrow> nat option \<Rightarrow> u64 \<Rightarrow> rb_link \<Rightarrow> nat option \<Rightarrow> (rb_link \<times> nat option) option" where
  "vma_descend h root va link par = (case rd_link h root link of
     None \<Rightarrow> Some (link, par)
   | Some n \<Rightarrow> vma_descend h root va (if va < vma_va (h n) then Link_left n else Link_right n) (Some n))"

text \<open>From the descent to \<open>insert_fixup\<close>: node \<open>n\<close> is hung in as a red leaf and the tree repaired.\<close>

definition vma_insert :: "vma_heap \<Rightarrow> nat option \<Rightarrow> nat \<Rightarrow> u64 \<Rightarrow> (vma_heap \<times> nat option) option" where
  "vma_insert h root n va = do {
     (link, par) \<leftarrow> vma_descend h root va Link_root None;
     let (h, root) = wr_link link (Some n) h root;
     let h = h(n := set_parent par (h n));
     let h = h(n := set_right None (set_left None (h n)));
     let h = h(n := set_color RB_RED (h n));
     insert_fixup h root (Some n) }"

subsection \<open>The areas as a list\<close>

text \<open>The nodes of a tree in strict order of their start addresses.\<close>

abbreviation by_va :: "vma_heap \<Rightarrow> nat list \<Rightarrow> bool" where
  "by_va h \<equiv> sorted_wrt (\<lambda>a b. vma_va (h a) < vma_va (h b))"

text \<open>\<open>vma_list h root ns\<close>: the tree at \<open>root\<close> is a red-black tree and \<open>ns\<close> are its nodes in order.\<close>

definition vma_list :: "vma_heap \<Rightarrow> nat option \<Rightarrow> nat list \<Rightarrow> bool" where
  "vma_list h root ns \<longleftrightarrow> (\<exists>t. rep h root t \<and> rb_tree (color \<circ> h) t \<and> inord t = ns) \<and> by_va h ns"

definition last_opt :: "'a list \<Rightarrow> 'a option" where
  "last_opt xs = (if xs = [] then None else Some (last xs))"

definition hd_opt :: "'a list \<Rightarrow> 'a option" where
  "hd_opt xs = (if xs = [] then None else Some (hd xs))"

text \<open>The free list, from the node \<open>p\<close> on.\<close>

fun flist :: "vma_heap \<Rightarrow> nat option \<Rightarrow> nat list \<Rightarrow> bool" where
  "flist h p [] = (p = None)"
| "flist h p (a # fs) = (p = Some a \<and> flist h (left (h a)) fs)"

text \<open>Successive allocations.\<close>

fun vma_allocs :: "nat \<Rightarrow> vma_store \<Rightarrow> nat option list \<times> vma_store" where
  "vma_allocs 0 s = ([], s)"
| "vma_allocs (Suc k) s = (let (n, t) = vma_alloc_node s; (ns, u) = vma_allocs k t in (n # ns, u))"

section \<open>Lemmas\<close>

subsection \<open>Lookups\<close>

lemma find_le_loop_spec:
  "tree_ok h par t \<Longrightarrow> by_va h (inord t) \<Longrightarrow>
   find_le_loop h (ptr t) va res =
     Some (case last_opt (filter (\<lambda>n. vma_va (h n) \<le> va) (inord t)) of None \<Rightarrow> res | Some n \<Rightarrow> Some n)"
proof (induction t arbitrary: par res)
  case Lf
  then show ?case by (simp add: find_le_loop.simps last_opt_def)
next
  case (Nd l n r)
  have sl: "by_va h (inord l)" "by_va h (inord r)"
    and ord: "\<forall>a\<in>set (inord l). vma_va (h a) < vma_va (h n)" "\<forall>b\<in>set (inord r). vma_va (h n) < vma_va (h b)"
    using Nd.prems(2) by (auto simp: sorted_wrt_append)
  show ?case
  proof (cases "va < vma_va (h n)")
    case True
    then have "filter (\<lambda>n. vma_va (h n) \<le> va) (inord r) = []" using ord(2) by (auto simp: filter_empty_conv)
    moreover have "\<not> vma_va (h n) \<le> va" using True by simp
    ultimately show ?thesis using True Nd.IH(1) [of "Some n" res] Nd.prems(1) sl(1)
      by (subst find_le_loop.simps) simp
  next
    case False
    with Nd.IH(2) [of "Some n" "Some n"] Nd.prems(1) sl(2) show ?thesis
      by (subst find_le_loop.simps) (auto simp: last_opt_def)
  qed
qed

lemma find_ge_loop_spec:
  "tree_ok h par t \<Longrightarrow> by_va h (inord t) \<Longrightarrow>
   find_ge_loop h (ptr t) va res =
     Some (case hd_opt (filter (\<lambda>n. va \<le> vma_va (h n)) (inord t)) of None \<Rightarrow> res | Some n \<Rightarrow> Some n)"
proof (induction t arbitrary: par res)
  case Lf
  then show ?case by (simp add: find_ge_loop.simps hd_opt_def)
next
  case (Nd l n r)
  have sl: "by_va h (inord l)" "by_va h (inord r)"
    and ord: "\<forall>a\<in>set (inord l). vma_va (h a) < vma_va (h n)" "\<forall>b\<in>set (inord r). vma_va (h n) < vma_va (h b)"
    using Nd.prems(2) by (auto simp: sorted_wrt_append)
  show ?case
  proof (cases "va \<le> vma_va (h n)")
    case True
    with Nd.IH(1) [of "Some n" "Some n"] Nd.prems(1) sl(1) show ?thesis
      by (subst find_ge_loop.simps) (auto simp: hd_opt_def)
  next
    case False
    then have "filter (\<lambda>n. va \<le> vma_va (h n)) (inord l) = []" using ord(1) by (auto simp: filter_empty_conv)
    with False Nd.IH(2) [of "Some n" res] Nd.prems(1) sl(2) show ?thesis
      by (subst find_ge_loop.simps) simp
  qed
qed

lemma find_exact_spec:
  "tree_ok h par t \<Longrightarrow> by_va h (inord t) \<Longrightarrow> find_exact h (ptr t) va = Some (find (\<lambda>n. vma_va (h n) = va) (inord t))"
proof (induction t arbitrary: par)
  case Lf
  then show ?case by (simp add: find_exact.simps)
next
  case (Nd l n r)
  have sl: "by_va h (inord l)" "by_va h (inord r)"
    and ord: "\<forall>a\<in>set (inord l). vma_va (h a) < vma_va (h n)" "\<forall>b\<in>set (inord r). vma_va (h n) < vma_va (h b)"
    using Nd.prems(2) by (auto simp: sorted_wrt_append)
  have no: "(\<And>a. a \<in> set xs \<Longrightarrow> vma_va (h a) \<noteq> va) \<Longrightarrow> find (\<lambda>n. vma_va (h n) = va) (xs @ ys) = find (\<lambda>n. vma_va (h n) = va) ys"
    for xs ys by (induction xs) auto
  have stop: "(\<And>a. a \<in> set ys \<Longrightarrow> vma_va (h a) \<noteq> va) \<Longrightarrow> find (\<lambda>n. vma_va (h n) = va) (xs @ ys) = find (\<lambda>n. vma_va (h n) = va) xs"
    for xs ys by (induction xs) (auto simp: find_None_iff)
  consider "va < vma_va (h n)" | "va > vma_va (h n)" | "va = vma_va (h n)" by fastforce
  then show ?case
  proof cases
    case 1
    with ord(2) have "vma_va (h a) \<noteq> va" if "a \<in> set (n # inord r)" for a using that by auto
    from stop [of "n # inord r" "inord l", OF this] 1 Nd.IH(1) [of "Some n"] Nd.prems(1) sl(1) show ?thesis
      by (subst find_exact.simps) simp
  next
    case 2
    with ord(1) have "vma_va (h a) \<noteq> va" if "a \<in> set (inord l @ [n])" for a using that by auto
    from no [of "inord l @ [n]" "inord r", OF this] 2 less_imp_not_less [OF 2] Nd.IH(2) [of "Some n"] Nd.prems(1) sl(2) show ?thesis
      by (subst find_exact.simps) simp
  next
    case 3
    with ord(1) have "vma_va (h a) \<noteq> va" if "a \<in> set (inord l)" for a using that by auto
    from no [of "inord l" "n # inord r", OF this] 3 show ?thesis by (subst find_exact.simps) simp
  qed
qed

lemma vma_list_lookups:
  assumes "vma_list h root ns"
  shows "find_le h root va = Some (last_opt (filter (\<lambda>n. vma_va (h n) \<le> va) ns))"
    "find_ge h root va = Some (hd_opt (filter (\<lambda>n. va \<le> vma_va (h n)) ns))"
    "find_exact h root va = Some (find (\<lambda>n. vma_va (h n) = va) ns)"
proof -
  from assms obtain t where t: "root = ptr t" "tree_ok h None t" "inord t = ns" "by_va h (inord t)"
    by (auto simp: vma_list_def rep_def)
  show "find_le h root va = Some (last_opt (filter (\<lambda>n. vma_va (h n) \<le> va) ns))"
    using find_le_loop_spec [OF t(2,4)] t(1,3) by (auto simp: find_le_def split: option.splits)
  show "find_ge h root va = Some (hd_opt (filter (\<lambda>n. va \<le> vma_va (h n)) ns))"
    using find_ge_loop_spec [OF t(2,4)] t(1,3) by (auto simp: find_ge_def split: option.splits)
  show "find_exact h root va = Some (find (\<lambda>n. vma_va (h n) = va) ns)"
    using find_exact_spec [OF t(2,4)] t(1,3) by auto
qed

subsection \<open>Insertion\<close>

text \<open>The descent finds the leaf position of \<open>va\<close> in order.\<close>

lemma vma_descend_spec:
  "rep h root (plug cs t) \<Longrightarrow> by_va h (inord t) \<Longrightarrow>
   \<exists>ds. vma_descend h root va (link_of cs) (cpar cs) = Some (link_of (ds @ cs), cpar (ds @ cs)) \<and>
     plug ds Lf = t \<and> (\<forall>a\<in>set (cbefore ds). vma_va (h a) \<le> va) \<and> (\<forall>a\<in>set (cafter ds). va < vma_va (h a))"
proof (induction t arbitrary: cs)
  case Lf
  have "rd_link h root (link_of cs) = None"
    using Lf(1) by (cases cs rule: cpar.cases) (auto simp: link_of_def rep_def tree_ok_plug)
  then show ?case by (intro exI [of _ "[]"]) (simp add: vma_descend.simps)
next
  case (Nd l n r)
  have at: "rd_link h root (link_of cs) = Some n"
    using Nd.prems(1) by (cases cs rule: cpar.cases) (auto simp: link_of_def rep_def tree_ok_plug)
  have ord: "by_va h (inord l)" "by_va h (inord r)" "\<forall>a\<in>set (inord l). vma_va (h a) < vma_va (h n)"
    "\<forall>b\<in>set (inord r). vma_va (h n) < vma_va (h b)"
    using Nd.prems(2) by (auto simp: sorted_wrt_append)
  show ?case
  proof (cases "va < vma_va (h n)")
    case True
    have "rep h root (plug (HoleL n r # cs) l)" using Nd.prems(1) by simp
    from Nd.IH(1) [OF this ord(1)] obtain ds where
      ds: "vma_descend h root va (Link_left n) (Some n) = Some (link_of (ds @ HoleL n r # cs), cpar (ds @ HoleL n r # cs))"
        "plug ds Lf = l" "\<forall>a\<in>set (cbefore ds). vma_va (h a) \<le> va" "\<forall>a\<in>set (cafter ds). va < vma_va (h a)"
      by (auto simp: link_of_def)
    have "\<forall>a\<in>set (inord r). va < vma_va (h a)" using True ord(4) by force
    with ds True at show ?thesis
      by (intro exI [of _ "ds @ [HoleL n r]"], subst vma_descend.simps)
         (auto simp: plug_append cbefore_append cafter_append)
  next
    case False
    have "rep h root (plug (HoleR l n # cs) r)" using Nd.prems(1) by simp
    from Nd.IH(2) [OF this ord(2)] obtain ds where
      ds: "vma_descend h root va (Link_right n) (Some n) = Some (link_of (ds @ HoleR l n # cs), cpar (ds @ HoleR l n # cs))"
        "plug ds Lf = r" "\<forall>a\<in>set (cbefore ds). vma_va (h a) \<le> va" "\<forall>a\<in>set (cafter ds). va < vma_va (h a)"
      by (auto simp: link_of_def)
    have "\<forall>a\<in>set (inord l). vma_va (h a) \<le> va" using False ord(3) by force
    with ds False at show ?thesis
      by (intro exI [of _ "ds @ [HoleR l n]"], subst vma_descend.simps)
         (auto simp: plug_append cbefore_append cafter_append)
  qed
qed

lemma vma_fields:
  assumes "rb_node.more (x::vma_node) = rb_node.more y"
  shows "vma_va x = vma_va y" "vma_pa x = vma_pa y" "vma_size x = vma_size y" "vma_attrs x = vma_attrs y"
  using assms by (cases x; cases y; simp)+

lemma vma_insert_spec:
  assumes list: "vma_list h root ns" and n: "n \<notin> set ns" "vma_va (h n) = va"
    and new: "\<And>a. a \<in> set ns \<Longrightarrow> vma_va (h a) \<noteq> va"
  shows "\<exists>h' root'. vma_insert h root n va = Some (h', root') \<and>
    vma_list h' root' (filter (\<lambda>a. vma_va (h a) < va) ns @ n # filter (\<lambda>a. va < vma_va (h a)) ns) \<and>
    (\<forall>a. rb_node.more (h' a) = rb_node.more (h a)) \<and> (\<forall>a. a \<notin> set ns \<union> {n} \<longrightarrow> h' a = h a)"
proof -
  from list obtain t where rep: "rep h root t" and bal: "rb_tree (color \<circ> h) t" and ns: "inord t = ns" "by_va h ns"
    by (auto simp: vma_list_def)
  from vma_descend_spec [of h root "[]" t va] rep ns obtain ds where
    ds: "vma_descend h root va Link_root None = Some (link_of ds, cpar ds)" "plug ds Lf = t"
      "\<forall>a\<in>set (cbefore ds). vma_va (h a) \<le> va" "\<forall>a\<in>set (cafter ds). va < vma_va (h a)"
    by (auto simp: link_of_def)
  have split: "ns = cbefore ds @ cafter ds" using ns(1) ds(2) by auto
  have lt: "\<forall>a\<in>set (cbefore ds). vma_va (h a) < va" using ds(3) new split by (auto simp: order_less_le)
  from new_leaf [of h root ds n] rep bal n(1) ns(1) ds(2) obtain h1 where
    h1: "wr_link (link_of ds) (Some n) h root = (h1, ptr (plug ds (Nd Lf n Lf)))"
      "only_links h h1" "\<And>k. k \<notin> set (cbefore ds @ cafter ds) \<Longrightarrow> h1 k = h k"
    and inv: "\<And>x. left x = None \<Longrightarrow> right x = None \<Longrightarrow> parent x = cpar ds \<Longrightarrow> color x = RB_RED \<Longrightarrow>
      ins_inv (h1(n := x)) (ptr (plug ds (Nd Lf n Lf))) ds Lf n Lf" by auto
  define h2 where "h2 = h1(n := set_color RB_RED (set_right None (set_left None (set_parent (cpar ds) (h1 n)))))"
  have "ins_inv h2 (ptr (plug ds (Nd Lf n Lf))) ds Lf n Lf" unfolding h2_def by (rule inv) simp_all
  from insert_fixup_spec [OF this] obtain h' root' t' where
    f: "insert_fixup h2 (ptr (plug ds (Nd Lf n Lf))) (Some n) = Some (h', root')" "rep h' root' t'"
      "inord t' = cbefore ds @ n # cafter ds" "rb_tree (color \<circ> h') t'"
      "same_data (set (cbefore ds @ n # cafter ds)) h2 h'" by auto
  have run: "vma_insert h root n va = Some (h', root')"
    using ds(1) h1(1) f(1) by (simp add: vma_insert_def h2_def)
  have more: "rb_node.more (h' a) = rb_node.more (h a)" for a
    using f(5) h1(2) by (simp add: same_data_def h2_def only_links_def)
  have "h' a = h a" if "a \<notin> set ns \<union> {n}" for a
    using that f(5) h1(3) [of a] split by (simp add: same_data_def h2_def)
  moreover have "by_va h (cbefore ds @ n # cafter ds)"
    using ns(2) lt ds(4) n(2) by (simp add: split sorted_wrt_append)
  then have "by_va h' (cbefore ds @ n # cafter ds)" using vma_fields(1) [OF more] by simp
  moreover have "filter (\<lambda>a. vma_va (h a) < va) ns = cbefore ds" "filter (\<lambda>a. va < vma_va (h a)) ns = cafter ds"
    using lt ds(4) by (auto simp: split filter_id_conv filter_empty_conv dest: less_imp_not_less)
  ultimately show ?thesis using run more f(2,3,4) by (auto simp: vma_list_def)
qed

text \<open>Deleting a node of the list.\<close>

lemma sorted_wrt_remove: "sorted_wrt P xs \<Longrightarrow> sorted_wrt P (remove1 x xs)"
  by (induction xs) (auto dest: notin_set_remove1 [THEN contrapos_nn] set_remove1_subset [THEN subsetD])

lemma vma_delete_spec:
  assumes list: "vma_list h root ns" and n: "n \<in> set ns"
  shows "\<exists>h' root'. rb_delete h root (Some n) = Some (h', root') \<and> vma_list h' root' (remove1 n ns) \<and>
    (\<forall>a. rb_node.more (h' a) = rb_node.more (h a)) \<and> (\<forall>a. a \<notin> set ns \<longrightarrow> h' a = h a)"
proof -
  from list obtain t where rep: "rep h root t" and bal: "rb_tree (color \<circ> h) t" and ns: "inord t = ns" "by_va h ns"
    by (auto simp: vma_list_def)
  from plug_at [of n t] n ns(1) obtain cs l r where t: "t = plug cs (Nd l n r)" by auto
  from rb_delete_spec [OF rep [unfolded t] bal [unfolded t]] obtain h' root' t' where
    d: "rb_delete h root (Some n) = Some (h', root')" "rep h' root' t'"
      "inord t' = cbefore cs @ inord l @ inord r @ cafter cs" "rb_tree (color \<circ> h') t'"
      "same_data (set (inord t)) h h'" unfolding t by blast
  have "distinct (inord t)" using rep by (simp add: rep_def)
  then have eq: "inord t' = remove1 n ns" unfolding d(3) ns(1) [symmetric] t by (simp add: remove1_append)
  have more: "rb_node.more (h' a) = rb_node.more (h a)" for a using d(5) by (simp add: same_data_def)
  have "by_va h (remove1 n ns)" using ns(2) by (simp add: sorted_wrt_remove)
  then have "by_va h' (inord t')" unfolding eq using vma_fields(1) [OF more] by simp
  with d eq more ns(1) show ?thesis by (auto simp: vma_list_def same_data_def)
qed

subsection \<open>The pool\<close>

lemma flist_cong: "(\<And>a. a \<in> set fs \<Longrightarrow> left (h' a) = left (h a)) \<Longrightarrow> flist h' p fs = flist h p fs"
  by (induction fs arbitrary: p) auto

lemma init_vma_pool_spec:
  assumes "vma_free_list s = None"
  shows "flist (vma_pool (init_vma_pool s)) (vma_free_list (init_vma_pool s)) (rev [0..<VMA_POOL_CAP])"
    "vma_root (init_vma_pool s) = vma_root s" "vma_initialized (init_vma_pool s) = vma_initialized s"
    "rb_node.more (vma_pool (init_vma_pool s) a) = rb_node.more (vma_pool s a)"
proof -
  define f :: "nat \<Rightarrow> vma_store \<Rightarrow> vma_store" where "f = (\<lambda>i s. s\<lparr>vma_pool := (vma_pool s)(i := set_left (vma_free_list s) (vma_pool s i)),
    vma_free_list := Some i\<rparr>)"
  have "flist (vma_pool (fold f [0..<n] s)) (vma_free_list (fold f [0..<n] s)) (rev [0..<n]) \<and>
      vma_root (fold f [0..<n] s) = vma_root s \<and> vma_initialized (fold f [0..<n] s) = vma_initialized s \<and>
      rb_node.more (vma_pool (fold f [0..<n] s) a) = rb_node.more (vma_pool s a)" for n
  proof (induction n)
    case (Suc n)
    define u where "u = fold f [0..<n] s"
    have "flist ((vma_pool u)(n := set_left (vma_free_list u) (vma_pool u n))) (vma_free_list u) (rev [0..<n])
        = flist (vma_pool u) (vma_free_list u) (rev [0..<n])"
      by (rule flist_cong) auto
    with Suc show ?case unfolding u_def [symmetric] by (simp add: u_def [symmetric]) (auto simp: f_def)
  qed (use assms in simp)
  then show "flist (vma_pool (init_vma_pool s)) (vma_free_list (init_vma_pool s)) (rev [0..<VMA_POOL_CAP])"
    "vma_root (init_vma_pool s) = vma_root s" "vma_initialized (init_vma_pool s) = vma_initialized s"
    "rb_node.more (vma_pool (init_vma_pool s) a) = rb_node.more (vma_pool s a)"
    unfolding init_vma_pool_def f_def by blast+
qed

lemma vma_alloc_node_spec:
  assumes "flist (vma_pool s) (vma_free_list s) (n # fs)" "n \<notin> set fs"
  shows "\<exists>s'. vma_alloc_node s = (Some n, s') \<and> flist (vma_pool s') (vma_free_list s') fs \<and>
    vma_root s' = vma_root s \<and> vma_initialized s' = vma_initialized s \<and>
    (\<forall>a. a \<noteq> n \<longrightarrow> vma_pool s' a = vma_pool s a) \<and>
    left (vma_pool s' n) = None \<and> right (vma_pool s' n) = None \<and> parent (vma_pool s' n) = None \<and>
    color (vma_pool s' n) = RB_RED \<and> rb_node.more (vma_pool s' n) = rb_node.more (vma_pool s n)"
proof -
  have "flist (h(n := x)) p fs = flist h p fs" for h x p
    using assms(2) by (intro flist_cong) auto
  with assms show ?thesis by (simp add: vma_alloc_node_def Let_def)
qed

lemma vma_alloc_node_empty:
  assumes "flist (vma_pool s) (vma_free_list s) []" "vma_initialized s"
  shows "vma_alloc_node s = (None, s)"
  using assms by (simp add: vma_alloc_node_def)

lemma vma_free_node_spec:
  assumes "flist (vma_pool s) (vma_free_list s) fs" "n \<notin> set fs"
  shows "flist (vma_pool (vma_free_node (Some n) s)) (vma_free_list (vma_free_node (Some n) s)) (n # fs)"
proof -
  have "flist (h(n := x)) p fs = flist h p fs" for h x p
    using assms(2) by (intro flist_cong) auto
  with assms show ?thesis by (simp add: vma_free_node_def)
qed

lemma vma_allocs_spec:
  "flist (vma_pool s) (vma_free_list s) fs \<Longrightarrow> distinct fs \<Longrightarrow> k = length fs \<Longrightarrow>
   \<exists>s'. vma_allocs k s = (map Some fs, s') \<and> vma_free_list s' = None \<and> vma_initialized s' = vma_initialized s"
proof (induction fs arbitrary: s k)
  case Nil
  then show ?case by simp
next
  case (Cons n fs)
  then obtain s1 where "vma_alloc_node s = (Some n, s1)" "flist (vma_pool s1) (vma_free_list s1) fs"
    "vma_initialized s1 = vma_initialized s" using vma_alloc_node_spec [of s n fs] by auto
  with Cons.IH [of s1 "length fs"] Cons.prems show ?case by auto
qed

lemma vma_allocs_add:
  "vma_allocs (j + k) s = (let (xs, t) = vma_allocs j s; (ys, u) = vma_allocs k t in (xs @ ys, u))"
  by (induction j arbitrary: s) (auto simp: Let_def split: prod.splits)

subsection \<open>Disjoint areas\<close>

text \<open>
  An ordered set of disjoint areas with its two neighbour lookups. \<open>start\<close> and \<open>len\<close> are those of an
  area; \<open>le\<close> and \<open>ge\<close> look up the area that starts last at or before, and first at or after, an address.
\<close>

locale area_store =
  fixes holds :: "'s \<Rightarrow> 'n list \<Rightarrow> bool"
    and start len :: "'s \<Rightarrow> 'n \<Rightarrow> u64"
    and le ge :: "'s \<Rightarrow> u64 \<Rightarrow> 'n option option"
  assumes sorted: "holds s ns \<Longrightarrow> sorted_wrt (\<lambda>a b. start s a < start s b) ns"
    and disj: "holds s ns \<Longrightarrow> sorted_wrt (\<lambda>a b. unat (start s a) + unat (len s a) \<le> unat (start s b)) ns"
    and fits: "holds s ns \<Longrightarrow> a \<in> set ns \<Longrightarrow> len s a \<noteq> 0 \<and> unat (start s a) + unat (len s a) < 2 ^ 64"
    and le: "holds s ns \<Longrightarrow> le s k = Some (last_opt (filter (\<lambda>a. start s a \<le> k) ns))"
    and ge: "holds s ns \<Longrightarrow> ge s k = Some (hd_opt (filter (\<lambda>a. k \<le> start s a) ns))"
begin

definition meets :: "'s \<Rightarrow> u64 \<Rightarrow> u64 \<Rightarrow> 'n \<Rightarrow> bool" where
  "meets s va sz a \<longleftrightarrow> unat (start s a) < unat va + unat sz \<and> unat va < unat (start s a) + unat (len s a)"

definition covers :: "'s \<Rightarrow> u64 \<Rightarrow> 'n \<Rightarrow> bool" where
  "covers s va a \<longleftrightarrow> unat (start s a) \<le> unat va \<and> unat va < unat (start s a) + unat (len s a)"

text \<open>An area that an earlier one ends before, in list order.\<close>

lemma in_order:
  assumes h: "holds s ns" and ab: "a \<in> set ns" "b \<in> set ns" "start s a < start s b"
  shows "unat (start s a) + unat (len s a) \<le> unat (start s b)"
proof -
  from ab obtain xs ys where ns: "ns = xs @ a # ys" by (meson split_list)
  show ?thesis
  proof (cases "b \<in> set ys")
    case True
    with disj [OF h] show ?thesis by (simp add: ns sorted_wrt_append)
  next
    case False
    with ab ns have "b \<in> set xs" by auto
    with sorted [OF h] have "start s b < start s a" by (simp add: ns sorted_wrt_append)
    with ab(3) show ?thesis by (simp add: less_asym)
  qed
qed

lemma below_max:
  assumes h: "holds s ns" and a: "a \<in> set ns" "start s a \<le> k"
  shows "\<exists>p. le s k = Some (Some p) \<and> p \<in> set ns \<and> start s p \<le> k \<and> (start s a < start s p \<or> a = p)"
proof -
  let ?fs = "filter (\<lambda>a. start s a \<le> k) ns"
  have ne: "a \<in> set ?fs" using a by simp
  then obtain ys where ys: "?fs = ys @ [last ?fs]" by (metis append_butlast_last_id empty_iff list.set(1))
  have "sorted_wrt (\<lambda>a b. start s a < start s b) ?fs" using sorted [OF h] by (rule sorted_wrt_filter)
  with ne have "start s a < start s (last ?fs) \<or> a = last ?fs" by (subst (asm) (1 2) ys) (auto simp: sorted_wrt_append)
  moreover have nonempty: "?fs \<noteq> []" using ne by (metis empty_iff list.set(1))
  moreover have "last ?fs \<in> set ?fs" using nonempty by (rule last_in_set)
  ultimately show ?thesis using le [OF h, of k] by (auto simp: last_opt_def)
qed

lemma above_min:
  assumes h: "holds s ns" and a: "a \<in> set ns" "k \<le> start s a"
  shows "\<exists>p. ge s k = Some (Some p) \<and> p \<in> set ns \<and> k \<le> start s p \<and> (start s p < start s a \<or> a = p)"
proof -
  let ?fs = "filter (\<lambda>a. k \<le> start s a) ns"
  have ne: "a \<in> set ?fs" using a by simp
  then obtain ys where ys: "?fs = hd ?fs # ys" by (cases ?fs) auto
  have "sorted_wrt (\<lambda>a b. start s a < start s b) ?fs" using sorted [OF h] by (rule sorted_wrt_filter)
  with ne have "start s (hd ?fs) < start s a \<or> a = hd ?fs" by (subst (asm) (1 2) ys) auto
  moreover have nonempty: "?fs \<noteq> []" using ne by (metis empty_iff list.set(1))
  moreover have "hd ?fs \<in> set ?fs" using nonempty by (rule hd_in_set)
  ultimately show ?thesis using ge [OF h, of k] by (auto simp: hd_opt_def)
qed

text \<open>Testing the two neighbours is enough.\<close>

lemma neighbours:
  assumes h: "holds s ns" and sz: "0 < unat sz"
  shows "\<exists>p q. le s va = Some p \<and> ge s va = Some q \<and> set_option p \<union> set_option q \<subseteq> set ns \<and>
    ((\<exists>a\<in>set ns. meets s va sz a) \<longleftrightarrow> (\<exists>a\<in>set_option p \<union> set_option q. meets s va sz a))"
proof -
  obtain p q where pq: "le s va = Some p" "ge s va = Some q" using le [OF h] ge [OF h] by blast
  have sub: "set_option p \<union> set_option q \<subseteq> set ns"
    using pq le [OF h, of va] ge [OF h, of va] last_in_set [of "filter (\<lambda>a. start s a \<le> va) ns"]
      hd_in_set [of "filter (\<lambda>a. va \<le> start s a) ns"]
    by (auto simp: last_opt_def hd_opt_def split: if_splits)
  have near: "\<exists>b\<in>set_option p \<union> set_option q. meets s va sz b" if a: "a \<in> set ns" "meets s va sz a" for a
  proof (cases "start s a \<le> va")
    case True
    from below_max [OF h a(1) True] pq(1) obtain b where
      b: "p = Some b" "b \<in> set ns" "start s b \<le> va" "start s a < start s b \<or> a = b" by auto
    then have "a = b" using in_order [OF h a(1) b(2)] a(2) by (auto simp: meets_def word_le_nat_alt)
    with b a show ?thesis by auto
  next
    case False
    then have "va \<le> start s a" by simp
    from above_min [OF h a(1) this] pq(2) obtain b where
      b: "q = Some b" "b \<in> set ns" "va \<le> start s b" "start s b < start s a \<or> a = b" by auto
    have "0 < unat (len s b)" using fits [OF h b(2)] by (simp add: unat_gt_0)
    with b have "meets s va sz b"
      using a(2) sz by (auto simp: meets_def word_le_nat_alt word_less_nat_alt)
    with b show ?thesis by auto
  qed
  have "(\<exists>a\<in>set ns. meets s va sz a) \<longleftrightarrow> (\<exists>a\<in>set_option p \<union> set_option q. meets s va sz a)"
    using near subsetD [OF sub] by metis
  with pq sub show ?thesis by (intro exI conjI)
qed

text \<open>The area below an address is the one that covers it, if one does.\<close>

lemma cover:
  assumes h: "holds s ns" and a: "a \<in> set ns" "covers s va a"
  shows "le s va = Some (Some a)"
proof -
  have "start s a \<le> va" using a(2) by (simp add: covers_def word_le_nat_alt)
  from below_max [OF h a(1) this] obtain p where
    p: "le s va = Some (Some p)" "p \<in> set ns" "start s p \<le> va" "start s a < start s p \<or> a = p" by blast
  with in_order [OF h a(1) p(2)] a(2) have "a = p" by (auto simp: covers_def word_le_nat_alt)
  with p show ?thesis by simp
qed

end

end
