(* ===== verification/Pmm.thy ===== *)
theory Pmm
  imports Prelude
begin

text \<open>
  The physical memory manager, \<open>src/mm/pmm.c\<close>: one bit per 4 KiB page of the managed RAM range
  (set = in use), a first-fit search for a run of clear bits, and a counter of free pages. This
  theory holds the allocator itself; \<open>Pmm_Init\<close> has the boot-time initialisation from the device
  tree. Every access to the bitmap array is bounds checked in the model, and the theorems show
  that the checks never fail.

  \<open>size_t\<close> page counts are \<open>nat\<close>: they never pass \<open>PMM_MAX_PAGES\<close> = 2 ^ 20. Addresses and the
  size of the managed range are 64-bit words. A null pointer is the address 0.
\<close>

section \<open>Definitions\<close>

definition PMM_PAGE_SIZE :: u64 where
  "PMM_PAGE_SIZE = 4096"

definition PMM_MAX_PAGES :: nat where
  "PMM_MAX_PAGES = 1048576"

record pmm_state =
  pmm_bitmap :: "nat \<Rightarrow> u8"
  pmm_mem_base :: u64
  pmm_mem_size :: u64
  pmm_pages_total :: nat
  pmm_pages_free :: nat

subsection \<open>Single bits\<close>

definition pmm_set_bit :: "(nat \<Rightarrow> u8) \<Rightarrow> nat \<Rightarrow> (nat \<Rightarrow> u8) option" where
  "pmm_set_bit bm idx = do {
     b \<leftarrow> arr_get (PMM_MAX_PAGES div 8) bm (idx div 8);
     arr_set (PMM_MAX_PAGES div 8) bm (idx div 8) (b OR push_bit (idx mod 8) 1) }"

definition pmm_clear_bit :: "(nat \<Rightarrow> u8) \<Rightarrow> nat \<Rightarrow> (nat \<Rightarrow> u8) option" where
  "pmm_clear_bit bm idx = do {
     b \<leftarrow> arr_get (PMM_MAX_PAGES div 8) bm (idx div 8);
     arr_set (PMM_MAX_PAGES div 8) bm (idx div 8) (b AND NOT (push_bit (idx mod 8) 1)) }"

definition pmm_test_bit :: "(nat \<Rightarrow> u8) \<Rightarrow> nat \<Rightarrow> bool option" where
  "pmm_test_bit bm idx = do {
     b \<leftarrow> arr_get (PMM_MAX_PAGES div 8) bm (idx div 8);
     Some (drop_bit (idx mod 8) b AND 1 \<noteq> 0) }"

definition addr_to_page :: "pmm_state \<Rightarrow> u64 \<Rightarrow> nat" where
  "addr_to_page s addr = unat ((addr - pmm_mem_base s) div PMM_PAGE_SIZE)"

definition page_to_addr :: "pmm_state \<Rightarrow> nat \<Rightarrow> u64" where
  "page_to_addr s page = pmm_mem_base s + of_nat page * PMM_PAGE_SIZE"

subsection \<open>Reserving, allocating and freeing\<close>

text \<open>The loop body of \<open>reserve_range\<close>.\<close>

definition reserve_page :: "nat \<Rightarrow> pmm_state \<Rightarrow> pmm_state option" where
  "reserve_page i s = do {
     t \<leftarrow> pmm_test_bit (pmm_bitmap s) i;
     if \<not> t then do {
       bm \<leftarrow> pmm_set_bit (pmm_bitmap s) i;
       let s' = s\<lparr>pmm_bitmap := bm\<rparr>;
       Some (if pmm_pages_free s' \<noteq> 0 then s'\<lparr>pmm_pages_free := pmm_pages_free s' - 1\<rparr> else s')
     } else Some s }"

definition reserve_range :: "u64 \<Rightarrow> u64 \<Rightarrow> pmm_state \<Rightarrow> pmm_state option" where
  "reserve_range start sz s =
     (if sz = 0 then Some s
      else if start + sz \<le> pmm_mem_base s then Some s
      else if start \<ge> pmm_mem_base s + pmm_mem_size s then Some s
      else
        let rstart = (if start < pmm_mem_base s then pmm_mem_base s else start);
            rend = start + sz;
            rlimit = pmm_mem_base s + pmm_mem_size s;
            rend = (if rend > rlimit then rlimit else rend);
            first = addr_to_page s (rstart AND NOT (PMM_PAGE_SIZE - 1));
            last = addr_to_page s ((rend + PMM_PAGE_SIZE - 1) AND NOT (PMM_PAGE_SIZE - 1));
            last = (if last > pmm_pages_total s then pmm_pages_total s else last)
        in for_upto first last reserve_page s)"

text \<open>
  One iteration of the search in \<open>pmm_alloc_run\<close>; the loop state is \<open>(run, run_start)\<close>, and
  \<open>Inl\<close> is the \<open>return\<close> once a run of \<open>count\<close> clear bits has been found and marked.
\<close>

definition alloc_scan ::
  "nat \<Rightarrow> pmm_state \<Rightarrow> nat \<Rightarrow> nat \<times> nat \<Rightarrow> ((u64 \<times> pmm_state) + (nat \<times> nat)) option" where
  "alloc_scan count s i rs = (case rs of (run, run_start) \<Rightarrow> do {
     t \<leftarrow> pmm_test_bit (pmm_bitmap s) i;
     if \<not> t then do {
       let run_start = (if run = 0 then i else run_start);
       let run = run + 1;
       if run = count then do {
         bm \<leftarrow> for_upto 0 count (\<lambda>j bm. pmm_set_bit bm (run_start + j)) (pmm_bitmap s);
         let s' = s\<lparr>pmm_bitmap := bm, pmm_pages_free := pmm_pages_free s - count\<rparr>;
         Some (Inl (page_to_addr s' run_start, s'))
       } else Some (Inr (run, run_start))
     } else Some (Inr (0, run_start)) })"

definition pmm_alloc_run :: "nat \<Rightarrow> pmm_state \<Rightarrow> (u64 \<times> pmm_state) option" where
  "pmm_alloc_run count s =
     (if count = 0 \<or> count > pmm_pages_free s then Some (0, s)
      else do {
        r \<leftarrow> for_ret 0 (pmm_pages_total s) (alloc_scan count s) (0, 0);
        case r of Inl res \<Rightarrow> Some res | Inr _ \<Rightarrow> Some (0, s) })"

definition pmm_alloc_pages :: "nat \<Rightarrow> pmm_state \<Rightarrow> (u64 \<times> pmm_state) option" where
  "pmm_alloc_pages count s = pmm_alloc_run count s"

definition pmm_alloc_page :: "pmm_state \<Rightarrow> (u64 \<times> pmm_state) option" where
  "pmm_alloc_page s = pmm_alloc_run 1 s"

text \<open>The loop body of \<open>pmm_free_pages\<close>: a page that is already free is skipped.\<close>

definition free_one :: "nat \<Rightarrow> pmm_state \<Rightarrow> pmm_state option" where
  "free_one idx s = do {
     t \<leftarrow> pmm_test_bit (pmm_bitmap s) idx;
     if \<not> t then Some s
     else do {
       bm \<leftarrow> pmm_clear_bit (pmm_bitmap s) idx;
       Some (s\<lparr>pmm_bitmap := bm, pmm_pages_free := pmm_pages_free s + 1\<rparr>) } }"

text \<open>
  The loop condition \<open>i < count && (first + i) < pmm_pages_total\<close> bounds \<open>i\<close> by the smaller of
  the two limits.
\<close>

definition pmm_free_pages :: "u64 \<Rightarrow> nat \<Rightarrow> pmm_state \<Rightarrow> pmm_state option" where
  "pmm_free_pages a count s =
     (if a = 0 \<or> count = 0 then Some s
      else if a < pmm_mem_base s \<or> a \<ge> pmm_mem_base s + pmm_mem_size s then Some s
      else if a AND (PMM_PAGE_SIZE - 1) \<noteq> 0 then Some s
      else let first = addr_to_page s a
           in for_upto 0 (min count (pmm_pages_total s - first)) (\<lambda>i. free_one (first + i)) s)"

definition pmm_free_page :: "u64 \<Rightarrow> pmm_state \<Rightarrow> pmm_state option" where
  "pmm_free_page a s = pmm_free_pages a 1 s"

definition pmm_total_pages :: "pmm_state \<Rightarrow> nat" where
  "pmm_total_pages s = pmm_pages_total s"

definition pmm_free_pages_count :: "pmm_state \<Rightarrow> nat" where
  "pmm_free_pages_count s = pmm_pages_free s"

text \<open>The subtraction of the two \<open>size_t\<close> counters wraps at 64 bits.\<close>

definition pmm_check :: "pmm_state \<Rightarrow> int option" where
  "pmm_check s = do {
     set_count \<leftarrow> for_upto 0 (pmm_pages_total s) (\<lambda>i n. do {
       t \<leftarrow> pmm_test_bit (pmm_bitmap s) i;
       Some (if t then n + 1 else n) }) (0::nat);
     let expected_set = (pmm_pages_total s + 2 ^ 64 - pmm_pages_free s) mod 2 ^ 64;
     Some (if set_count \<noteq> expected_set then -1 else 0) }"

subsection \<open>Abstraction and invariant\<close>

definition pmm_used :: "pmm_state \<Rightarrow> nat \<Rightarrow> bool" where
  "pmm_used s = arr_bit (pmm_bitmap s)"

text \<open>
  The managed range is page aligned and does not wrap, the page count fits the bitmap, and the
  free counter counts the clear bits.
\<close>

definition pmm_range_ok :: "pmm_state \<Rightarrow> bool" where
  "pmm_range_ok s \<longleftrightarrow>
     page_aligned (pmm_mem_base s) \<and> page_aligned (pmm_mem_size s) \<and>
     unat (pmm_mem_base s) + unat (pmm_mem_size s) < 2 ^ 64 \<and>
     pmm_pages_total s = min (unat (pmm_mem_size s) div 4096) PMM_MAX_PAGES"

definition pmm_inv :: "pmm_state \<Rightarrow> bool" where
  "pmm_inv s \<longleftrightarrow>
     pmm_range_ok s \<and> pmm_pages_free s = clear_count (pmm_used s) (pmm_pages_total s)"

definition run_clear :: "(nat \<Rightarrow> bool) \<Rightarrow> nat \<Rightarrow> nat \<Rightarrow> bool" where
  "run_clear m k c \<longleftrightarrow> (\<forall>i. k \<le> i \<and> i < k + c \<longrightarrow> \<not> m i)"

text \<open>No operation but initialisation changes the managed range.\<close>

definition same_range :: "pmm_state \<Rightarrow> pmm_state \<Rightarrow> bool" where
  "same_range s t \<longleftrightarrow> pmm_mem_base t = pmm_mem_base s \<and> pmm_mem_size t = pmm_mem_size s \<and>
     pmm_pages_total t = pmm_pages_total s"

text \<open>
  Null is never the address of a free page: either RAM does not start at address 0 or its first
  page is in use. \<open>pmm_live\<close> is the set of addresses of the pages in use.
\<close>

definition pmm_nonnull :: "pmm_state \<Rightarrow> bool" where
  "pmm_nonnull s \<longleftrightarrow> (pmm_mem_base s = 0 \<longrightarrow> pmm_used s 0)"

definition pmm_live :: "pmm_state \<Rightarrow> u64 set" where
  "pmm_live s = page_to_addr s ` {k. k < pmm_pages_total s \<and> pmm_used s k}"

text \<open>Any sequence of allocator calls.\<close>

datatype pmm_call = Alloc nat | Free u64 nat

fun pmm_run :: "pmm_call list \<Rightarrow> pmm_state \<Rightarrow> pmm_state option" where
  "pmm_run [] s = Some s"
| "pmm_run (Alloc n # cs) s = Option.bind (pmm_alloc_pages n s) (\<lambda>(a, t). pmm_run cs t)"
| "pmm_run (Free a n # cs) s = Option.bind (pmm_free_pages a n s) (pmm_run cs)"

text \<open>Managed page \<open>i\<close> has a byte in common with \<open>[start, start + sz)\<close>.\<close>

definition page_meets :: "pmm_state \<Rightarrow> u64 \<Rightarrow> u64 \<Rightarrow> nat \<Rightarrow> bool" where
  "page_meets s start sz i \<longleftrightarrow> sz \<noteq> 0 \<and> i < pmm_pages_total s \<and>
     unat start < unat (pmm_mem_base s) + (i + 1) * 4096 \<and>
     unat (pmm_mem_base s) + i * 4096 < unat start + unat sz"

text \<open>
  The invariant of the allocation scan: \<open>run\<close> is the length of the maximal clear run that ends
  before \<open>i\<close>, and no run of \<open>count\<close> clear bits ends there yet.
\<close>

definition scan_inv :: "(nat \<Rightarrow> bool) \<Rightarrow> nat \<Rightarrow> nat \<Rightarrow> nat \<times> nat \<Rightarrow> bool" where
  "scan_inv m count i rs \<longleftrightarrow> (case rs of (run, run_start) \<Rightarrow>
     run \<le> i \<and> run < count \<and> (0 < run \<longrightarrow> run_start = i - run) \<and> run_clear m (i - run) run \<and>
     (run < i \<longrightarrow> m (i - run - 1)) \<and> (\<forall>k. k + count \<le> i \<longrightarrow> \<not> run_clear m k count))"

text \<open>A range of four pages of which the first and the third are in use.\<close>

definition pmm_demo :: pmm_state where
  "pmm_demo = \<lparr>pmm_bitmap = (\<lambda>_. 0)(0 := 5), pmm_mem_base = 0x40000000, pmm_mem_size = 0x4000,
     pmm_pages_total = 4, pmm_pages_free = 2\<rparr>"

section \<open>Lemmas\<close>

lemma drop_bit_and_1: "drop_bit n (w::'a::len word) AND 1 \<noteq> 0 \<longleftrightarrow> bit w n"
  by (simp add: bit_iff_and_drop_bit_eq_1 and_one_eq odd_iff_mod_2_eq_one)

interpretation pm: bitmap PMM_MAX_PAGES arr_bit pmm_test_bit pmm_set_bit pmm_clear_bit
proof unfold_locales
  fix i and b :: "nat \<Rightarrow> u8"
  assume "i < PMM_MAX_PAGES"
  then have w: "i div 8 < PMM_MAX_PAGES div 8" by (simp add: PMM_MAX_PAGES_def)
  show "pmm_test_bit b i = Some (arr_bit b i)"
    by (simp add: pmm_test_bit_def w arr_bit_def drop_bit_and_1 del: One_nat_def)
  show "\<exists>b'. pmm_set_bit b i = Some b' \<and> arr_bit b' = (arr_bit b)(i := True)"
    by (simp add: pmm_set_bit_def w arr_bit_set)
  show "\<exists>b'. pmm_clear_bit b i = Some b' \<and> arr_bit b' = (arr_bit b)(i := False)"
    by (simp add: pmm_clear_bit_def w arr_bit_clear)
qed

lemma run_clear_0 [simp]: "run_clear m k 0"
  by (auto simp: run_clear_def)

lemma pmm_total_le: "pmm_range_ok s \<Longrightarrow> pmm_pages_total s \<le> PMM_MAX_PAGES"
  by (simp add: pmm_range_ok_def)

subsection \<open>The allocation scan\<close>

lemma run_clear_D: "run_clear m k c \<Longrightarrow> k \<le> i \<Longrightarrow> i < k + c \<Longrightarrow> \<not> m i"
  by (simp add: run_clear_def)

lemma run_clear_Suc: "run_clear m k (Suc c) \<longleftrightarrow> run_clear m k c \<and> \<not> m (k + c)"
  by (auto simp: run_clear_def less_Suc_eq)

lemma scan_inv_init: "0 < count \<Longrightarrow> scan_inv m count 0 (0, 0)"
  by (auto simp: scan_inv_def)

lemma scan_inv_used:
  assumes "scan_inv m count i (run, rs)" "m i"
  shows "scan_inv m count (Suc i) (0, rs)"
proof -
  have "\<not> run_clear m k count" if "k + count \<le> Suc i" for k
    using assms that run_clear_D [of m k count i]
    by (cases "k + count \<le> i") (auto simp: scan_inv_def)
  with assms show ?thesis by (auto simp: scan_inv_def)
qed

lemma scan_inv_clear:
  assumes inv: "scan_inv m count i (run, rs)" and "\<not> m i" and "Suc run \<noteq> count"
  shows "scan_inv m count (Suc i) (Suc run, if run = 0 then i else rs)"
proof -
  have "\<not> run_clear m k count" if k: "k + count \<le> Suc i" for k
  proof (cases "k + count \<le> i")
    case True
    with inv show ?thesis by (auto simp: scan_inv_def)
  next
    case False
    with k inv assms(3) have "run < i \<and> k \<le> i - run - 1 \<and> i - run - 1 < k + count"
      by (auto simp: scan_inv_def)
    moreover from this inv have "m (i - run - 1)" by (simp add: scan_inv_def)
    ultimately show ?thesis by (meson run_clear_D)
  qed
  moreover have "run_clear m (Suc i - Suc run) (Suc run)"
    using inv assms(2) by (simp add: scan_inv_def run_clear_Suc)
  ultimately show ?thesis
    using inv assms(3) by (auto simp: scan_inv_def)
qed

lemma scan_inv_found:
  assumes "scan_inv m (Suc run) i (run, rs)" and "\<not> m i"
  shows "(if run = 0 then i else rs) = i - run \<and> run_clear m (i - run) (Suc run) \<and>
    (\<forall>k < i - run. \<not> run_clear m k (Suc run))"
  using assms by (auto simp: scan_inv_def run_clear_Suc)

lemma pmm_used_bitmap [simp]: "pmm_used (s\<lparr>pmm_bitmap := bm\<rparr>) = arr_bit bm"
  and pmm_used_free [simp]: "pmm_used (s\<lparr>pmm_pages_free := n\<rparr>) = pmm_used s"
  by (simp_all add: pmm_used_def)

lemma alloc_scan_step:
  assumes "pmm_range_ok s" and i: "i < pmm_pages_total s" and inv: "scan_inv (pmm_used s) count i rs"
  shows "(\<exists>r. alloc_scan count s i rs = Some (Inl r) \<and>
      (\<exists>k bm. r = (page_to_addr s k, s\<lparr>pmm_bitmap := bm, pmm_pages_free := pmm_pages_free s - count\<rparr>) \<and>
         k + count \<le> pmm_pages_total s \<and> run_clear (pmm_used s) k count \<and>
         (\<forall>j<k. \<not> run_clear (pmm_used s) j count) \<and>
         arr_bit bm = (\<lambda>i. pmm_used s i \<or> k \<le> i \<and> i < k + count)))
    \<or> (\<exists>rs'. alloc_scan count s i rs = Some (Inr rs') \<and> scan_inv (pmm_used s) count (Suc i) rs')"
proof -
  obtain run st where rs: "rs = (run, st)" by fastforce
  have cap: "i < PMM_MAX_PAGES" using pmm_total_le [OF assms(1)] i by simp
  have t: "pmm_test_bit (pmm_bitmap s) i = Some (pmm_used s i)"
    using pm.tst [OF cap] by (simp add: pmm_used_def)
  consider (used) "pmm_used s i" | (go) "\<not> pmm_used s i" "Suc run \<noteq> count"
    | (found) "\<not> pmm_used s i" "count = Suc run" by blast
  then show ?thesis
  proof cases
    case used
    with inv show ?thesis by (simp add: rs alloc_scan_def t scan_inv_used)
  next
    case go
    with inv show ?thesis by (simp add: rs alloc_scan_def t scan_inv_clear)
  next
    case found
    from inv have run: "run \<le> i" by (simp add: rs scan_inv_def)
    then obtain bm where bm:
      "for_upto 0 count (\<lambda>j bm. pmm_set_bit bm ((i - run) + j)) (pmm_bitmap s) = Some bm"
      "arr_bit bm = (\<lambda>j. arr_bit (pmm_bitmap s) j \<or> i - run \<le> j \<and> j < i - run + count)"
      using pm.mk_run [of "i - run" count "pmm_bitmap s"] cap found by auto
    have st: "(if run = 0 then i else st) = i - run \<and> run_clear (pmm_used s) (i - run) count \<and>
        (\<forall>k < i - run. \<not> run_clear (pmm_used s) k count)"
      using scan_inv_found [of "pmm_used s" run i st] inv found by (simp add: rs)
    have "alloc_scan count s i rs = Some (Inl (page_to_addr s (i - run),
        s\<lparr>pmm_bitmap := bm, pmm_pages_free := pmm_pages_free s - count\<rparr>))"
      using found bm(1) st by (simp add: rs alloc_scan_def t page_to_addr_def Let_def)
    then show ?thesis using st bm(2) run i found
      by (intro disjI1 exI conjI) (auto simp: pmm_used_def)
  qed
qed

subsection \<open>One page\<close>

lemma pmm_inv_D:
  "pmm_inv s \<Longrightarrow> pmm_range_ok s"
  "pmm_inv s \<Longrightarrow> pmm_pages_free s = clear_count (pmm_used s) (pmm_pages_total s)"
  by (simp_all add: pmm_inv_def)

lemma same_range_refl [simp]: "same_range s s"
  and same_range_trans: "same_range s t \<Longrightarrow> same_range t u \<Longrightarrow> same_range s u"
  by (simp_all add: same_range_def)

lemma same_range_ok: "same_range s t \<Longrightarrow> pmm_range_ok t = pmm_range_ok s"
  by (simp add: same_range_def pmm_range_ok_def)

lemma reserve_page_spec:
  assumes inv: "pmm_inv s" and i: "i < pmm_pages_total s"
  shows "\<exists>t. reserve_page i s = Some t \<and> same_range s t \<and> pmm_inv t \<and>
    pmm_used t = (pmm_used s)(i := True)"
proof -
  have cap: "i < PMM_MAX_PAGES" using pmm_total_le [OF pmm_inv_D(1) [OF inv]] i by simp
  obtain bm where bm: "pmm_set_bit (pmm_bitmap s) i = Some bm" "arr_bit bm = (pmm_used s)(i := True)"
    using pm.mk [OF cap, of "pmm_bitmap s"] by (auto simp: pmm_used_def)
  show ?thesis
  proof (cases "pmm_used s i")
    case True
    then show ?thesis using inv pm.tst [OF cap]
      by (simp add: reserve_page_def pmm_used_def fun_upd_idem)
  next
    case False
    have "pmm_pages_free s = Suc (clear_count ((pmm_used s)(i := True)) (pmm_pages_total s))"
      using clear_count_mark [where m = "pmm_used s", OF i False] inv by (simp add: pmm_inv_def)
    with False show ?thesis using inv bm pm.tst [OF cap]
      by (simp add: reserve_page_def pmm_inv_def same_range_def pmm_range_ok_def flip: pmm_used_def)
  qed
qed

lemma free_one_spec:
  assumes inv: "pmm_inv s" and i: "i < pmm_pages_total s"
  shows "\<exists>t. free_one i s = Some t \<and> same_range s t \<and> pmm_inv t \<and>
    pmm_used t = (pmm_used s)(i := False)"
proof -
  have cap: "i < PMM_MAX_PAGES" using pmm_total_le [OF pmm_inv_D(1) [OF inv]] i by simp
  obtain bm where bm: "pmm_clear_bit (pmm_bitmap s) i = Some bm" "arr_bit bm = (pmm_used s)(i := False)"
    using pm.cl [OF cap, of "pmm_bitmap s"] by (auto simp: pmm_used_def)
  show ?thesis
  proof (cases "pmm_used s i")
    case True
    then show ?thesis using inv bm pm.tst [OF cap] clear_count_clear [where m = "pmm_used s", OF i True]
      by (simp add: free_one_def pmm_inv_def same_range_def pmm_range_ok_def flip: pmm_used_def)
  next
    case False
    then show ?thesis using inv pm.tst [OF cap]
      by (simp add: free_one_def pmm_used_def fun_upd_idem)
  qed
qed

subsection \<open>Ranges of pages\<close>

lemma reserve_pages_spec:
  assumes "pmm_inv s" and "m \<le> pmm_pages_total s"
  shows "\<exists>t. for_upto k m reserve_page s = Some t \<and> same_range s t \<and> pmm_inv t \<and>
    pmm_used t = (\<lambda>i. pmm_used s i \<or> k \<le> i \<and> i < m)"
proof (cases "k \<le> m")
  case True
  then show ?thesis
  proof (rule for_upto_inv [where P = "\<lambda>j t. same_range s t \<and> pmm_inv t \<and>
      pmm_used t = (\<lambda>i. pmm_used s i \<or> k \<le> i \<and> i < j)"])
    fix j t
    assume j: "k \<le> j" "j < m"
      and t: "same_range s t \<and> pmm_inv t \<and> pmm_used t = (\<lambda>i. pmm_used s i \<or> k \<le> i \<and> i < j)"
    then obtain u where "reserve_page j t = Some u" "same_range t u" "pmm_inv u"
      "pmm_used u = (pmm_used t)(j := True)"
      using reserve_page_spec [of t j] assms(2) by (auto simp: same_range_def)
    with t j show "\<exists>u. reserve_page j t = Some u \<and> same_range s u \<and> pmm_inv u \<and>
        pmm_used u = (\<lambda>i. pmm_used s i \<or> k \<le> i \<and> i < Suc j)"
      by (auto simp: fun_eq_iff intro: same_range_trans)
  qed (use assms(1) in auto)
next
  case False
  with assms(1) show ?thesis by (auto simp: fun_eq_iff)
qed

lemma free_pages_spec:
  assumes "pmm_inv s" and "k + c \<le> pmm_pages_total s"
  shows "\<exists>t. for_upto 0 c (\<lambda>i. free_one (k + i)) s = Some t \<and> same_range s t \<and> pmm_inv t \<and>
    pmm_used t = (\<lambda>i. pmm_used s i \<and> \<not> (k \<le> i \<and> i < k + c))"
proof (rule for_upto_inv [where P = "\<lambda>j t. same_range s t \<and> pmm_inv t \<and>
    pmm_used t = (\<lambda>i. pmm_used s i \<and> \<not> (k \<le> i \<and> i < k + j))"])
  fix j t
  assume j: "j < c"
    and t: "same_range s t \<and> pmm_inv t \<and> pmm_used t = (\<lambda>i. pmm_used s i \<and> \<not> (k \<le> i \<and> i < k + j))"
  then obtain u where "free_one (k + j) t = Some u" "same_range t u" "pmm_inv u"
    "pmm_used u = (pmm_used t)(k + j := False)"
    using free_one_spec [of t "k + j"] assms(2) by (auto simp: same_range_def)
  with t j show "\<exists>u. free_one (k + j) t = Some u \<and> same_range s u \<and> pmm_inv u \<and>
      pmm_used u = (\<lambda>i. pmm_used s i \<and> \<not> (k \<le> i \<and> i < k + Suc j))"
    by (auto simp: fun_eq_iff intro: same_range_trans)
qed (use assms(1) in auto)

subsection \<open>Addresses\<close>

lemma unat_base_off:
  assumes "pmm_range_ok s" "k \<le> pmm_pages_total s"
  shows "unat (page_to_addr s k) = unat (pmm_mem_base s) + k * 4096"
proof -
  have "k * 4096 \<le> unat (pmm_mem_size s)"
    using assms by (auto simp: pmm_range_ok_def)
  moreover have k: "k \<le> 1048576" using assms by (simp add: pmm_range_ok_def PMM_MAX_PAGES_def)
  then have "unat (of_nat k * 4096 :: u64) = k * 4096"
    by (simp add: unat_word_ariths unat_of_nat)
  ultimately show ?thesis using assms(1)
    by (simp add: page_to_addr_def PMM_PAGE_SIZE_def pmm_range_ok_def unat_word_ariths)
qed

lemma addr_to_page_unat:
  assumes "pmm_mem_base s \<le> a"
  shows "addr_to_page s a = (unat a - unat (pmm_mem_base s)) div 4096"
  using assms by (simp add: addr_to_page_def PMM_PAGE_SIZE_def unat_div unat_sub)

lemma addr_to_page_to_addr:
  assumes "pmm_range_ok s" "k \<le> pmm_pages_total s"
  shows "addr_to_page s (page_to_addr s k) = k"
proof -
  have "pmm_mem_base s \<le> page_to_addr s k"
    by (simp add: word_le_nat_alt unat_base_off [OF assms])
  then show ?thesis by (simp add: addr_to_page_unat unat_base_off [OF assms])
qed

lemma page_to_addr_aligned:
  "pmm_range_ok s \<Longrightarrow> k \<le> pmm_pages_total s \<Longrightarrow> page_aligned (page_to_addr s k)"
  using mod_mult_self2 [of "unat (pmm_mem_base s)" k 4096]
  by (simp add: page_aligned_unat unat_base_off pmm_range_ok_def mult.commute)

lemma page_to_addr_in_range:
  assumes "pmm_range_ok s" "k < pmm_pages_total s"
  shows "pmm_mem_base s \<le> page_to_addr s k \<and> page_to_addr s k < pmm_mem_base s + pmm_mem_size s"
proof -
  have "k * 4096 < unat (pmm_mem_size s)"
    using assms by (auto simp: pmm_range_ok_def)
  moreover have "unat (pmm_mem_base s + pmm_mem_size s) = unat (pmm_mem_base s) + unat (pmm_mem_size s)"
    using assms(1) by (simp add: pmm_range_ok_def unat_word_ariths)
  ultimately show ?thesis
    using assms by (simp add: word_le_nat_alt word_less_nat_alt unat_base_off)
qed

lemma page_to_addr_same_range: "same_range s t \<Longrightarrow> page_to_addr t k = page_to_addr s k"
  by (simp add: same_range_def page_to_addr_def)

subsection \<open>Allocation and freeing\<close>

lemma clear_run_le_count:
  assumes "run_clear m k c" "k + c \<le> n"
  shows "c \<le> clear_count m n"
  using clear_count_run [OF assms(2), of m] assms(1) by (auto simp: run_clear_def)

lemma pmm_alloc_run_spec:
  assumes inv: "pmm_inv s" and count: "0 < count"
  shows "(\<exists>k t. pmm_alloc_run count s = Some (page_to_addr s k, t) \<and>
      k + count \<le> pmm_pages_total s \<and> run_clear (pmm_used s) k count \<and>
      (\<forall>j<k. \<not> run_clear (pmm_used s) j count) \<and>
      pmm_used t = (\<lambda>i. pmm_used s i \<or> k \<le> i \<and> i < k + count) \<and>
      pmm_pages_free s = pmm_pages_free t + count \<and> same_range s t \<and> pmm_inv t)
    \<or> (pmm_alloc_run count s = Some (0, s) \<and>
        (\<forall>k. k + count \<le> pmm_pages_total s \<longrightarrow> \<not> run_clear (pmm_used s) k count))"
proof (cases "count > pmm_pages_free s")
  case True
  then show ?thesis
    using clear_run_le_count inv by (fastforce simp: pmm_alloc_run_def pmm_inv_def)
next
  case False
  note ok = pmm_inv_D(1) [OF inv]
  have "(\<exists>r. for_ret 0 (pmm_pages_total s) (alloc_scan count s) (0, 0) = Some (Inl r) \<and>
      (\<exists>k bm. r = (page_to_addr s k, s\<lparr>pmm_bitmap := bm, pmm_pages_free := pmm_pages_free s - count\<rparr>) \<and>
         k + count \<le> pmm_pages_total s \<and> run_clear (pmm_used s) k count \<and>
         (\<forall>j<k. \<not> run_clear (pmm_used s) j count) \<and>
         arr_bit bm = (\<lambda>i. pmm_used s i \<or> k \<le> i \<and> i < k + count))) \<or>
    (\<exists>rs. for_ret 0 (pmm_pages_total s) (alloc_scan count s) (0, 0) = Some (Inr rs) \<and>
      scan_inv (pmm_used s) count (pmm_pages_total s) rs)"
    by (rule for_ret_inv) (use alloc_scan_step [OF ok] scan_inv_init [OF count] in auto)
  then show ?thesis
  proof (elim disjE exE conjE, goal_cases)
    case (1 r k bm)
    let ?t = "s\<lparr>pmm_bitmap := bm, pmm_pages_free := pmm_pages_free s - count\<rparr>"
    have "pmm_pages_free s = count + clear_count (arr_bit bm) (pmm_pages_total s)"
      using 1 clear_count_run [of k count "pmm_pages_total s" "pmm_used s"] inv
      by (simp add: pmm_inv_def run_clear_def)
    then have "pmm_inv ?t" using ok by (simp add: pmm_inv_def pmm_range_ok_def)
    moreover have "pmm_alloc_run count s = Some (page_to_addr s k, ?t)"
      using 1 False count by (simp add: pmm_alloc_run_def)
    ultimately show ?case using 1 False
      by (intro disjI1 exI [of _ k] exI [of _ ?t]) (simp add: same_range_def)
  next
    case (2 rs)
    then show ?case using False count
      by (auto simp: pmm_alloc_run_def scan_inv_def)
  qed
qed

lemma pmm_free_pages_spec:
  assumes "pmm_inv s"
  shows "\<exists>t. pmm_free_pages a count s = Some t \<and> same_range s t \<and> pmm_inv t \<and>
    pmm_used t = (\<lambda>i. pmm_used s i \<and> \<not> (a \<noteq> 0 \<and> pmm_mem_base s \<le> a \<and>
      a < pmm_mem_base s + pmm_mem_size s \<and> page_aligned a \<and>
      addr_to_page s a \<le> i \<and> i < addr_to_page s a + count \<and> i < pmm_pages_total s))"
proof (cases "a = 0 \<or> count = 0 \<or> a < pmm_mem_base s \<or> a \<ge> pmm_mem_base s + pmm_mem_size s
    \<or> \<not> page_aligned a \<or> pmm_pages_total s < addr_to_page s a")
  case True
  with assms show ?thesis
    by (auto simp: pmm_free_pages_def page_aligned_def PMM_PAGE_SIZE_def)
next
  case False
  let ?k = "addr_to_page s a" and ?c = "min count (pmm_pages_total s - addr_to_page s a)"
  from False have "?k + ?c \<le> pmm_pages_total s" by (auto simp: min_def)
  from free_pages_spec [OF assms this] False show ?thesis
    by (simp add: pmm_free_pages_def page_aligned_def PMM_PAGE_SIZE_def not_less not_le)
       (auto simp: fun_eq_iff)
qed

text \<open>The page bounds \<open>reserve_range\<close> computes are those of the pages that meet the range.\<close>

lemma reserve_bounds:
  fixes B S Z M i T :: nat
  assumes "B mod 4096 = 0" "M mod 4096 = 0" "T \<le> M div 4096" "0 < Z" "B < S + Z" "S < B + M"
  shows "(max S B - max S B mod 4096 - B) div 4096 \<le> i \<and>
      i < min ((min (S + Z) (B + M) + 4095 - (min (S + Z) (B + M) + 4095) mod 4096 - B) div 4096) T
    \<longleftrightarrow> i < T \<and> S < B + (i + 1) * 4096 \<and> B + i * 4096 < S + Z"
proof -
  obtain b where B: "B = b * 4096" using assms(1) by (metis add.right_neutral div_mult_mod_eq)
  obtain m where M: "M = m * 4096" using assms(2) by (metis add.right_neutral div_mult_mod_eq)
  have T: "T \<le> m" using assms(3) by (simp add: M)
  have f: "(x - x mod 4096 - B) div 4096 = x div 4096 - b" for x :: nat
    by (simp add: B minus_mod_eq_div_mult flip: diff_mult_distrib)
  show ?thesis
    unfolding f using assms(4-6) T by (auto simp: B M max_def min_def; presburger?)
qed

lemma reserve_range_skip:
  assumes "pmm_range_ok s" "unat start + unat sz < 2 ^ 64"
    "sz = 0 \<or> start + sz \<le> pmm_mem_base s \<or> start \<ge> pmm_mem_base s + pmm_mem_size s"
  shows "reserve_range start sz s = Some s \<and> \<not> page_meets s start sz i"
proof -
  have "i < pmm_pages_total s \<Longrightarrow> (i + 1) * 4096 \<le> unat (pmm_mem_size s)"
    using assms(1) by (auto simp: pmm_range_ok_def)
  moreover have "unat (start + sz) = unat start + unat sz"
    "unat (pmm_mem_base s + pmm_mem_size s) = unat (pmm_mem_base s) + unat (pmm_mem_size s)"
    using assms(1,2) by (simp_all add: pmm_range_ok_def unat_word_ariths)
  ultimately show ?thesis
    using assms(3) by (auto simp: reserve_range_def page_meets_def word_le_nat_alt)
qed

lemma reserve_range_spec:
  assumes inv: "pmm_inv s" and nowrap: "unat start + unat sz < 2 ^ 64"
  shows "\<exists>t. reserve_range start sz s = Some t \<and> same_range s t \<and> pmm_inv t \<and>
    pmm_used t = (\<lambda>i. pmm_used s i \<or> page_meets s start sz i)"
proof (cases "sz = 0 \<or> start + sz \<le> pmm_mem_base s \<or> start \<ge> pmm_mem_base s + pmm_mem_size s")
  case True
  with reserve_range_skip [OF pmm_inv_D(1) [OF inv] nowrap True] inv show ?thesis by auto
next
  case False
  let ?B = "unat (pmm_mem_base s)" and ?M = "unat (pmm_mem_size s)"
  let ?S = "unat start" and ?Z = "unat sz" and ?T = "pmm_pages_total s"
  let ?rs = "if start < pmm_mem_base s then pmm_mem_base s else start"
  let ?re = "if start + sz > pmm_mem_base s + pmm_mem_size s then pmm_mem_base s + pmm_mem_size s
             else start + sz"
  have ok: "?B mod 4096 = 0" "?M mod 4096 = 0" "?B + ?M < 2 ^ 64" "?T \<le> ?M div 4096"
    using pmm_inv_D(1) [OF inv] by (simp_all add: pmm_range_ok_def page_aligned_unat)
  have lim: "unat (pmm_mem_base s + pmm_mem_size s) = ?B + ?M" "unat (start + sz) = ?S + ?Z"
    using ok(3) nowrap by (simp_all add: unat_word_ariths)
  have bounds: "0 < ?Z" "?B < ?S + ?Z" "?S < ?B + ?M"
    using False by (auto simp: word_le_nat_alt lim unat_gt_0 not_le)
  have rs: "unat ?rs = max ?S ?B" and re: "unat ?re = min (?S + ?Z) (?B + ?M)"
    by (auto simp: word_less_nat_alt lim)
  have "?B + ?M + 4095 < 2 ^ 64" by (rule aligned_room [OF aligned_add [OF ok(1,2)] ok(3)])
  then have room: "unat ?re + 4095 < 2 ^ 64" unfolding re by linarith
  have re_up: "unat ((?re + 4095) AND NOT 4095) =
      min (?S + ?Z) (?B + ?M) + 4095 - (min (?S + ?Z) (?B + ?M) + 4095) mod 4096"
    using unat_align_up [OF room] unfolding re .
  have rs_dn: "unat (?rs AND NOT 4095) = max ?S ?B - max ?S ?B mod 4096"
    by (simp only: unat_and_not_4095 rs)
  have ge: "?B \<le> max ?S ?B - max ?S ?B mod 4096" "?B \<le> unat ((?re + 4095) AND NOT 4095)"
    unfolding re_up using bounds by (auto intro!: aligned_le_down [OF ok(1)])
  have first: "addr_to_page s (?rs AND NOT 4095) = (max ?S ?B - max ?S ?B mod 4096 - ?B) div 4096"
    using ge(1) by (subst addr_to_page_unat) (simp_all only: word_le_nat_alt rs_dn)
  have last: "addr_to_page s ((?re + 4095) AND NOT 4095) =
      (min (?S + ?Z) (?B + ?M) + 4095 - (min (?S + ?Z) (?B + ?M) + 4095) mod 4096 - ?B) div 4096"
    using ge(2) by (subst addr_to_page_unat) (simp_all only: word_le_nat_alt re_up)
  let ?f = "addr_to_page s (?rs AND NOT 4095)" and ?l = "min (addr_to_page s ((?re + 4095) AND NOT 4095)) ?T"
  have arith: "x + 4096 - 1 = x + 4095" "(4096 - 1 :: u64) = 4095" for x :: u64
    by (simp_all add: algebra_simps)
  have cut: "(if l > ?T then ?T else l) = min l ?T" for l
    by (simp add: min_def)
  have "reserve_range start sz s = for_upto ?f ?l reserve_page s"
    unfolding reserve_range_def PMM_PAGE_SIZE_def Let_def arith cut
    using False by (simp only: de_Morgan_disj if_False)
  moreover have "?f \<le> i \<and> i < ?l \<longleftrightarrow> page_meets s start sz i" for i
    unfolding first last page_meets_def
    using reserve_bounds [OF ok(1,2,4) bounds, of i] False by (simp add: conj_commute)
  ultimately show ?thesis
    using reserve_pages_spec [OF inv, of ?l ?f] by simp
qed

subsection \<open>The consistency check\<close>

lemma pmm_check_count:
  assumes "pmm_range_ok s"
  shows "for_upto 0 (pmm_pages_total s) (\<lambda>i n. do {
       t \<leftarrow> pmm_test_bit (pmm_bitmap s) i;
       Some (if t then n + 1 else n) }) (0::nat)
     = Some (pmm_pages_total s - clear_count (pmm_used s) (pmm_pages_total s))" (is "?loop = Some _")
proof -
  have "\<exists>n. ?loop = Some n \<and> n + clear_count (pmm_used s) (pmm_pages_total s) = pmm_pages_total s"
  proof (rule for_upto_inv [where P = "\<lambda>i n. n + clear_count (pmm_used s) i = i"], goal_cases)
    case (3 k n)
    have "k < PMM_MAX_PAGES" using 3(2) pmm_total_le [OF assms] by simp
    with 3(3) show ?case by (simp add: pm.tst clear_count_Suc flip: pmm_used_def)
  qed simp_all
  then show ?thesis by auto
qed

lemma pmm_check_spec:
  assumes "pmm_range_ok s" "pmm_pages_free s < 2 ^ 64"
  shows "pmm_check s = Some (if pmm_inv s then 0 else -1)"
proof -
  let ?T = "pmm_pages_total s" and ?F = "pmm_pages_free s" and ?c = "clear_count (pmm_used s) (pmm_pages_total s)"
  have T: "?T < 2 ^ 64" using pmm_total_le [OF assms(1)] by (simp add: PMM_MAX_PAGES_def)
  have c: "?c \<le> ?T" by (rule clear_count_le)
  have "?T - ?c = (?T + 2 ^ 64 - ?F) mod 2 ^ 64 \<longleftrightarrow> ?F = ?c"
  proof (cases "?F \<le> ?T")
    case True
    then have eq: "?T + 2 ^ 64 - ?F = 2 ^ 64 + (?T - ?F)" by simp
    have "?T - ?F < 2 ^ 64" using T by simp
    then have "(?T + 2 ^ 64 - ?F) mod 2 ^ 64 = ?T - ?F"
      unfolding eq by (simp only: mod_add_self1 mod_less)
    with True c show ?thesis by auto
  next
    case False
    then have "(?T + 2 ^ 64 - ?F) mod 2 ^ 64 = ?T + 2 ^ 64 - ?F" by simp
    with False assms(2) c show ?thesis by auto
  qed
  then show ?thesis
    by (simp add: pmm_check_def pmm_check_count [OF assms(1)] pmm_inv_def assms(1))
qed

lemma pmm_free_lt: "pmm_inv s \<Longrightarrow> pmm_pages_free s < 2 ^ 64"
  using clear_count_le [of "pmm_used s" "pmm_pages_total s"] pmm_total_le [of s]
  by (simp add: pmm_inv_def PMM_MAX_PAGES_def)

lemma pmm_alloc_run_inv:
  assumes "pmm_inv s"
  shows "\<exists>a t. pmm_alloc_run n s = Some (a, t) \<and> pmm_inv t \<and> same_range s t"
proof (cases "n = 0")
  case True
  with assms show ?thesis by (simp add: pmm_alloc_run_def)
next
  case False
  with pmm_alloc_run_spec [OF assms, of n] assms show ?thesis by auto
qed

lemma pmm_run_inv: "pmm_inv s \<Longrightarrow> \<exists>t. pmm_run cs s = Some t \<and> pmm_inv t \<and> same_range s t"
proof (induction cs s rule: pmm_run.induct)
  case (1 s)
  then show ?case by simp
next
  case (2 n cs s)
  obtain a t where t: "pmm_alloc_run n s = Some (a, t)" "pmm_inv t" "same_range s t"
    using pmm_alloc_run_inv [OF 2(2)] by blast
  with 2(1) [of "(a, t)" a t] show ?case
    by (auto simp: pmm_alloc_pages_def intro: same_range_trans)
next
  case (3 a n cs s)
  obtain t where "pmm_free_pages a n s = Some t" "pmm_inv t" "same_range s t"
    using pmm_free_pages_spec [OF 3(2), of a n] by blast
  with 3(1) [of t] show ?case by (auto intro: same_range_trans)
qed

subsection \<open>The allocator as a page allocator\<close>

lemma page_to_addr_inj:
  "pmm_range_ok s \<Longrightarrow> j \<le> pmm_pages_total s \<Longrightarrow> k \<le> pmm_pages_total s \<Longrightarrow>
   page_to_addr s j = page_to_addr s k \<longleftrightarrow> j = k"
  by (metis unat_base_off add_left_cancel mult_cancel2 zero_neq_numeral)

lemma page_to_addr_live:
  "pmm_range_ok s \<Longrightarrow> k < pmm_pages_total s \<Longrightarrow> page_to_addr s k \<in> pmm_live s \<longleftrightarrow> pmm_used s k"
  by (auto simp: pmm_live_def page_to_addr_inj)

lemma pmm_live_mark:
  assumes "same_range s t" "k < pmm_pages_total s" "pmm_used t = (pmm_used s)(k := True)"
  shows "pmm_live t = insert (page_to_addr s k) (pmm_live s)"
  using assms unfolding pmm_live_def page_to_addr_same_range [OF assms(1)] same_range_def
  by auto

lemma pmm_live_clear:
  assumes "pmm_range_ok s" "same_range s t" "k < pmm_pages_total s" "pmm_used t = (pmm_used s)(k := False)"
  shows "pmm_live t = pmm_live s - {page_to_addr s k}"
proof -
  have "page_to_addr t = page_to_addr s" using page_to_addr_same_range [OF assms(2)] by blast
  then show ?thesis using assms page_to_addr_inj [OF assms(1)]
    by (auto simp: pmm_live_def same_range_def)
qed

lemma pmm_alloc_page_fresh:
  assumes inv: "pmm_inv s" and nn: "pmm_nonnull s"
  shows "\<exists>a t. pmm_alloc_page s = Some (a, t) \<and> (pmm_inv t \<and> pmm_nonnull t) \<and>
    (a = 0 \<and> t = s \<or> a \<noteq> 0 \<and> page_aligned a \<and> a \<notin> pmm_live s \<and> pmm_live t = insert a (pmm_live s))"
proof -
  note ok = pmm_inv_D(1) [OF inv]
  from pmm_alloc_run_spec [OF inv zero_less_one] show ?thesis
  proof (elim disjE exE conjE, goal_cases)
    case (1 k t)
    then have k: "k < pmm_pages_total s" "\<not> pmm_used s k" and t: "pmm_used t = (pmm_used s)(k := True)"
      by (auto simp: run_clear_def fun_eq_iff)
    have "page_to_addr s k \<noteq> 0"
      using unat_base_off [OF ok, of k] k nn by (auto simp: pmm_nonnull_def simp flip: unat_eq_0)
    moreover have "pmm_nonnull t"
      using nn t 1 by (auto simp: pmm_nonnull_def same_range_def)
    ultimately show ?case
      using 1 k t page_to_addr_aligned [OF ok] page_to_addr_live [OF ok] pmm_live_mark
      by (simp add: pmm_alloc_page_def)
  qed (use nn inv in \<open>simp_all add: pmm_alloc_page_def\<close>)
qed

text \<open>A page allocation fails only when no page is free.\<close>

lemma pmm_alloc_page_count:
  assumes inv: "pmm_inv s" and nn: "pmm_nonnull s" and a: "pmm_alloc_page s = Some (a, t)"
  shows "a = 0 \<Longrightarrow> pmm_pages_free s = 0" "pmm_pages_free t \<le> pmm_pages_free s"
    "pmm_pages_free s \<le> Suc (pmm_pages_free t)"
proof -
  from pmm_alloc_run_spec [OF inv zero_less_one]
  show "pmm_pages_free t \<le> pmm_pages_free s" "pmm_pages_free s \<le> Suc (pmm_pages_free t)"
    using a by (auto simp: pmm_alloc_page_def)
  assume "a = 0"
  from pmm_alloc_page_fresh [OF inv nn] a this have "t = s" by auto
  with pmm_alloc_run_spec [OF inv zero_less_one] a have
    "\<forall>k. k + 1 \<le> pmm_pages_total s \<longrightarrow> \<not> run_clear (pmm_used s) k 1"
    by (auto simp: pmm_alloc_page_def)
  then have "pmm_used s k" if "k < pmm_pages_total s" for k
    using that run_clear_Suc [of "pmm_used s" k 0] by auto
  then have "{k. k < pmm_pages_total s \<and> \<not> pmm_used s k} = {}" by auto
  then show "pmm_pages_free s = 0" using inv unfolding pmm_inv_def clear_count_def by simp
qed

lemma pmm_free_page_live:
  assumes inv: "pmm_inv s" and nn: "pmm_nonnull s" and a: "a \<in> pmm_live s" "a \<noteq> 0"
  shows "\<exists>t. pmm_free_page a s = Some t \<and> (pmm_inv t \<and> pmm_nonnull t) \<and> pmm_live t = pmm_live s - {a}"
proof -
  note ok = pmm_inv_D(1) [OF inv]
  from a obtain k where k: "a = page_to_addr s k" "k < pmm_pages_total s" by (auto simp: pmm_live_def)
  obtain t where t: "pmm_free_pages a 1 s = Some t" "same_range s t" "pmm_inv t"
    "pmm_used t = (pmm_used s)(k := False)"
    using pmm_free_pages_spec [OF inv, of a 1] k a page_to_addr_in_range [OF ok k(2)]
      page_to_addr_aligned [OF ok, of k] addr_to_page_to_addr [OF ok, of k]
    by (force simp: fun_eq_iff)
  have "pmm_nonnull t"
    using nn t k a by (auto simp: pmm_nonnull_def same_range_def page_to_addr_def)
  with t k pmm_live_clear [OF ok] show ?thesis by (auto simp: pmm_free_page_def)
qed

interpretation pages: page_allocator "\<lambda>s. pmm_inv s \<and> pmm_nonnull s" pmm_live pmm_alloc_page pmm_free_page
  by unfold_locales (use pmm_alloc_page_fresh pmm_free_page_live in auto)

lemma pmm_alloc_free_spec:
  assumes inv: "pmm_inv s" and nn: "pmm_nonnull s" and count: "0 < count"
    and a: "pmm_alloc_pages count s = Some (a, t)" "a \<noteq> 0"
  shows "\<exists>u. pmm_free_pages a count t = Some u \<and> pmm_used u = pmm_used s \<and>
    pmm_pages_free u = pmm_pages_free s \<and> same_range s u"
proof -
  note ok = pmm_inv_D(1) [OF inv]
  from pmm_alloc_run_spec [OF inv count] a obtain k where
    k: "a = page_to_addr s k" "k + count \<le> pmm_pages_total s" "run_clear (pmm_used s) k count"
    and t: "pmm_used t = (\<lambda>i. pmm_used s i \<or> k \<le> i \<and> i < k + count)" "same_range s t" "pmm_inv t"
    by (auto simp: pmm_alloc_pages_def)
  have total: "pmm_pages_total t = pmm_pages_total s" using t(2) by (simp add: same_range_def)
  then have r: "page_to_addr t k = a" "k < pmm_pages_total t" "pmm_range_ok t"
    using page_to_addr_same_range [OF t(2), of k] same_range_ok [OF t(2)] ok k(1,2) count by auto
  have in_range: "a \<noteq> 0 \<and> pmm_mem_base t \<le> a \<and> a < pmm_mem_base t + pmm_mem_size t \<and> page_aligned a"
    using page_to_addr_in_range [OF r(3,2)] page_to_addr_aligned [OF r(3), of k] r(1,2) a(2) by simp
  have page: "addr_to_page t a = k"
    using addr_to_page_to_addr [OF r(3), of k] r(1,2) by simp
  obtain u where u: "pmm_free_pages a count t = Some u" "same_range t u" "pmm_inv u"
    and used: "pmm_used u = (\<lambda>i. pmm_used t i \<and> \<not> (k \<le> i \<and> i < k + count \<and> i < pmm_pages_total t))"
    using pmm_free_pages_spec [OF t(3), of a count] in_range page by auto
  have "pmm_used u = pmm_used s"
    unfolding used t(1) total using k(2,3) by (auto simp: run_clear_def fun_eq_iff)
  moreover have "same_range s u" using t(2) u(2) by (rule same_range_trans)
  ultimately show ?thesis using u inv by (auto simp: pmm_inv_def same_range_def)
qed

lemma pmm_demo_ok: "pmm_inv pmm_demo" "pmm_nonnull pmm_demo"
proof -
  have "pmm_pages_total pmm_demo = Suc (Suc (Suc (Suc 0)))" by (simp add: pmm_demo_def)
  then show "pmm_inv pmm_demo"
    by (simp add: pmm_inv_def clear_count_Suc)
       (simp add: pmm_range_ok_def pmm_demo_def page_aligned_def PMM_MAX_PAGES_def pmm_used_def arr_bit_def bit_simps)
  show "pmm_nonnull pmm_demo"
    by (simp add: pmm_nonnull_def pmm_demo_def)
qed

section \<open>Properties\<close>

text \<open>
  C28 First fit. A request for \<open>count\<close> pages is answered with the address of the lowest run of
  \<open>count\<close> free pages, exactly those pages become used, and the free counter drops by \<open>count\<close>;
  when there is no such run the answer is null and nothing changes. The search never reads or
  writes outside the bitmap.
\<close>

theorem pmm_alloc_run_first_fit:
  assumes inv: "pmm_inv s" and count: "0 < count"
  shows "(\<exists>k t. pmm_alloc_run count s = Some (page_to_addr s k, t) \<and>
      k + count \<le> pmm_pages_total s \<and> run_clear (pmm_used s) k count \<and>
      (\<forall>j<k. \<not> run_clear (pmm_used s) j count) \<and>
      pmm_used t = (\<lambda>i. pmm_used s i \<or> k \<le> i \<and> i < k + count) \<and>
      pmm_pages_free s = pmm_pages_free t + count \<and> same_range s t \<and> pmm_inv t)
    \<or> (pmm_alloc_run count s = Some (0, s) \<and>
        (\<forall>k. k + count \<le> pmm_pages_total s \<longrightarrow> \<not> run_clear (pmm_used s) k count))"
  using assms by (rule pmm_alloc_run_spec)

theorem pmm_alloc_run_first_fit_witness:
  "(\<exists>k t. pmm_alloc_run 1 pmm_demo = Some (page_to_addr pmm_demo k, t) \<and>
      k + 1 \<le> pmm_pages_total pmm_demo \<and> run_clear (pmm_used pmm_demo) k 1 \<and> pmm_inv t)
   \<or> pmm_alloc_run 1 pmm_demo = Some (0, pmm_demo)"
  using pmm_alloc_run_first_fit [OF pmm_demo_ok(1), of 1] by auto

text \<open>
  Freeing clears exactly the bits of the pages in \<open>[a, a + count)\<close> that lie in the managed
  range. A null, misaligned or foreign address changes nothing, a page that is free already is
  not counted twice, and the allocator invariant is kept.
\<close>

theorem pmm_free_pages_exact:
  assumes "pmm_inv s"
  shows "\<exists>t. pmm_free_pages a count s = Some t \<and> same_range s t \<and> pmm_inv t \<and>
    pmm_used t = (\<lambda>i. pmm_used s i \<and> \<not> (a \<noteq> 0 \<and> pmm_mem_base s \<le> a \<and>
      a < pmm_mem_base s + pmm_mem_size s \<and> page_aligned a \<and>
      addr_to_page s a \<le> i \<and> i < addr_to_page s a + count \<and> i < pmm_pages_total s))"
  using assms by (rule pmm_free_pages_spec)

theorem pmm_free_pages_exact_witness:
  "\<exists>t. pmm_free_pages 0x40002000 1 pmm_demo = Some t \<and> pmm_inv t \<and>
    (\<forall>i. pmm_used t i = (pmm_used pmm_demo i \<and> i \<noteq> 2))"
proof -
  have "addr_to_page pmm_demo 0x40002000 = 2"
    by (simp add: addr_to_page_def pmm_demo_def PMM_PAGE_SIZE_def)
  moreover have "page_aligned 0x40002000" by (simp add: page_aligned_def)
  ultimately show ?thesis
    using pmm_free_pages_exact [OF pmm_demo_ok(1), of "0x40002000" 1]
    by (auto simp: pmm_demo_def)
qed

text \<open>
  Allocating \<open>count\<close> pages and freeing them again leaves the bitmap and the free counter as
  they were.
\<close>

theorem pmm_alloc_free_roundtrip:
  assumes "pmm_inv s" "pmm_nonnull s" "0 < count"
    and "pmm_alloc_pages count s = Some (a, t)" "a \<noteq> 0"
  shows "\<exists>u. pmm_free_pages a count t = Some u \<and> pmm_used u = pmm_used s \<and>
    pmm_pages_free u = pmm_pages_free s \<and> same_range s u"
  using assms by (rule pmm_alloc_free_spec)

theorem pmm_alloc_free_roundtrip_witness:
  "\<exists>a t u. pmm_alloc_pages 1 pmm_demo = Some (a, t) \<and> a = 0x40001000 \<and>
    pmm_free_pages a 1 t = Some u \<and> pmm_used u = pmm_used pmm_demo"
proof -
  have "\<exists>t. pmm_alloc_pages 1 pmm_demo = Some (0x40001000, t)"
    by (simp add: pmm_demo_def pmm_alloc_pages_def pmm_alloc_run_def for_ret_step for_upto_step alloc_scan_def
        pmm_test_bit_def pmm_set_bit_def page_to_addr_def PMM_MAX_PAGES_def PMM_PAGE_SIZE_def)
  then show ?thesis
    using pmm_alloc_free_roundtrip [OF pmm_demo_ok, of 1] by fastforce
qed

text \<open>
  \<open>reserve_range\<close> marks exactly the managed pages that share a byte with the given range
  (partial pages at both ends included), and the free counter follows.
\<close>

theorem reserve_range_exact:
  assumes "pmm_inv s" and "unat start + unat sz < 2 ^ 64"
  shows "\<exists>t. reserve_range start sz s = Some t \<and> same_range s t \<and> pmm_inv t \<and>
    pmm_used t = (\<lambda>i. pmm_used s i \<or> page_meets s start sz i)"
  using assms by (rule reserve_range_spec)

theorem reserve_range_exact_witness:
  "\<exists>t. reserve_range 0x40001800 0x100 pmm_demo = Some t \<and> pmm_inv t \<and> pmm_used t 1"
proof -
  have "page_meets pmm_demo 0x40001800 0x100 1"
    by (simp add: page_meets_def pmm_demo_def)
  then show ?thesis
    using reserve_range_exact [OF pmm_demo_ok(1), of "0x40001800" "0x100"] by auto
qed

text \<open>
  \<open>pmm_check\<close> answers 0 exactly when the free counter agrees with the bitmap, whatever value
  the counter has, and -1 otherwise.
\<close>

theorem pmm_check_detects:
  assumes "pmm_range_ok s" "pmm_pages_free s < 2 ^ 64"
  shows "pmm_check s = Some (if pmm_inv s then 0 else -1)"
  using assms by (rule pmm_check_spec)

theorem pmm_check_detects_witness:
  "pmm_check pmm_demo = Some 0 \<and> pmm_check (pmm_demo\<lparr>pmm_pages_free := 3\<rparr>) = Some (-1)"
proof -
  let ?t = "pmm_demo\<lparr>pmm_pages_free := 3\<rparr>"
  have "pmm_range_ok ?t" using pmm_demo_ok(1) by (simp add: pmm_inv_def pmm_range_ok_def)
  moreover have "\<not> pmm_inv ?t"
    using pmm_demo_ok(1) by (simp add: pmm_inv_def) (simp add: pmm_demo_def)
  ultimately show ?thesis
    using pmm_check_detects [of ?t] pmm_check_detects [OF pmm_inv_D(1) [OF pmm_demo_ok(1)]]
      pmm_free_lt [OF pmm_demo_ok(1)] pmm_demo_ok(1) by simp
qed

text \<open>
  C29 Any sequence of allocations and frees, valid or not (double frees, foreign addresses, requests
  that cannot be met), runs without leaving the bitmap, keeps the invariant and the managed range,
  and leaves a state that \<open>pmm_check\<close> accepts.
\<close>

theorem pmm_run_consistent:
  assumes "pmm_inv s"
  shows "\<exists>t. pmm_run cs s = Some t \<and> pmm_inv t \<and> same_range s t \<and> pmm_check t = Some 0"
  using pmm_run_inv [OF assms, of cs] pmm_check_spec [OF pmm_inv_D(1) pmm_free_lt] by fastforce

theorem pmm_run_consistent_witness:
  "\<exists>t. pmm_run [Alloc 1, Free 0x40000000 3, Free 0x40000000 1, Alloc 9] pmm_demo = Some t \<and> pmm_inv t \<and>
     pmm_check t = Some 0"
  using pmm_run_consistent [OF pmm_demo_ok(1)] by blast

text \<open>
  \<open>n\<close> successive page allocations give pairwise distinct, page-aligned, non-null pages none of
  which was in use before, and afterwards exactly those pages are in use in addition.
\<close>

theorem pmm_allocations_distinct:
  assumes "pmm_inv s" "pmm_nonnull s"
  shows "\<exists>as t. alloc_many pmm_alloc_page n s = Some (as, t) \<and> pmm_inv t \<and> distinct as \<and>
    (\<forall>a\<in>set as. page_aligned a \<and> a \<noteq> 0) \<and> set as \<inter> pmm_live s = {} \<and>
    pmm_live t = pmm_live s \<union> set as"
  using pages.alloc_many_fresh [of s n] assms by auto

theorem pmm_allocations_distinct_witness:
  "\<exists>as t. alloc_many pmm_alloc_page 3 pmm_demo = Some (as, t) \<and> pmm_inv t \<and> distinct as \<and>
    set as \<inter> pmm_live pmm_demo = {}"
  using pmm_allocations_distinct [OF pmm_demo_ok, of 3] by blast

end
