(* ===== verification/Mmu.thy ===== *)
theory Mmu
  imports Pmm
begin

text \<open>
  Page tables and address translation, \<open>src/mm/mmu.c\<close> and \<open>src/mm/tlb.c\<close>. Memory is a map from
  addresses to 64-bit words (every access of this code is to an aligned \<open>uint64_t\<close>), page tables
  are pages of the physical memory manager, and entry \<open>i\<close> of a table \<open>t\<close> is the word at \<open>t + 8 * i\<close>.
  The system registers are fields of the state; cache and TLB maintenance instructions and
  barriers are recorded in order in the list \<open>hw\<close>. Messages printed by the code are not part of
  the state.

  The specification is the translation itself: \<open>pte_of m pgd va\<close> walks the four levels as the
  hardware does and answers the valid level-3 entry of \<open>va\<close>, if there is one. The theorems say
  which translations an operation changes.
\<close>

section \<open>Definitions\<close>

subsection \<open>Constants and state\<close>

definition PTE_VALID :: u64 where "PTE_VALID = 1"
definition PTE_TABLE :: u64 where "PTE_TABLE = 2"
definition PTE_PAGE :: u64 where "PTE_PAGE = 2"
definition PTE_AF :: u64 where "PTE_AF = push_bit 10 1"
definition PTE_RO :: u64 where "PTE_RO = push_bit 7 1"
definition PTE_SH_INNER :: u64 where "PTE_SH_INNER = push_bit 8 3"
definition PTE_ATTR_IDX :: "u64 \<Rightarrow> u64" where "PTE_ATTR_IDX x = push_bit 2 x"
definition PTE_PXN :: u64 where "PTE_PXN = push_bit 53 1"
definition PTE_UXN :: u64 where "PTE_UXN = push_bit 54 1"

definition MAIR_DEVICE_nGnRnE :: u64 where "MAIR_DEVICE_nGnRnE = 0x00"
definition MAIR_NORMAL_NC :: u64 where "MAIR_NORMAL_NC = 0x44"
definition MAIR_NORMAL :: u64 where "MAIR_NORMAL = 0xFF"
definition MAIR_IDX_DEVICE :: nat where "MAIR_IDX_DEVICE = 0"
definition MAIR_IDX_NORMAL_NC :: nat where "MAIR_IDX_NORMAL_NC = 1"
definition MAIR_IDX_NORMAL :: nat where "MAIR_IDX_NORMAL = 2"

definition MMU_PAGE_SIZE :: u64 where "MMU_PAGE_SIZE = push_bit 12 1"
definition MMU_PAGE_MASK :: u64 where "MMU_PAGE_MASK = MMU_PAGE_SIZE - 1"

definition VMM_KERNEL_VIRT_BASE :: u64 where "VMM_KERNEL_VIRT_BASE = 0xFFFFFF8000000000"
definition vmm_kernel_base :: u64 where "vmm_kernel_base = VMM_KERNEL_VIRT_BASE"

datatype hw_op = DSB_ISHST | DSB_ISH | ISB | TLBI_VMALLE1IS | TLBI_VAAE1IS u64 | DC_CIVAC u64 | IC_IVAU u64

record mmu_state =
  mmu_pmm :: pmm_state
  mmu_mem :: "u64 \<Rightarrow> u64"
  ttbr0_pgd :: u64
  ttbr1_pgd :: u64
  mair_el1 :: u64
  tcr_el1 :: u64
  ttbr0_el1 :: u64
  ttbr1_el1 :: u64
  sctlr_el1 :: u64
  hw :: "hw_op list"

definition emit :: "hw_op list \<Rightarrow> mmu_state \<Rightarrow> mmu_state" where
  "emit ops s = s\<lparr>hw := hw s @ ops\<rparr>"

subsection \<open>Tables\<close>

text \<open>The address of entry \<open>i\<close> of table \<open>t\<close>.\<close>

definition slot :: "u64 \<Rightarrow> nat \<Rightarrow> u64" where
  "slot t i = t + of_nat i * 8"

definition rd :: "mmu_state \<Rightarrow> u64 \<Rightarrow> nat \<Rightarrow> u64" where
  "rd s t i = mmu_mem s (slot t i)"

definition wr :: "u64 \<Rightarrow> nat \<Rightarrow> u64 \<Rightarrow> mmu_state \<Rightarrow> mmu_state" where
  "wr t i v s = s\<lparr>mmu_mem := (mmu_mem s)(slot t i := v)\<rparr>"

text \<open>\<open>memset(p, 0, MMU_PAGE_SIZE)\<close>, word by word.\<close>

definition zero_page :: "u64 \<Rightarrow> (u64 \<Rightarrow> u64) \<Rightarrow> u64 \<Rightarrow> u64" where
  "zero_page p m = fold (\<lambda>i m. m(slot p i := 0)) [0..<512] m"

definition alloc_table :: "mmu_state \<Rightarrow> (u64 \<times> mmu_state) option" where
  "alloc_table s = do {
     (p, pm) \<leftarrow> pmm_alloc_page (mmu_pmm s);
     let s = s\<lparr>mmu_pmm := pm\<rparr>;
     Some (p, if p \<noteq> 0 then s\<lparr>mmu_mem := zero_page p (mmu_mem s)\<rparr> else s) }"

definition pgd_index :: "u64 \<Rightarrow> nat" where "pgd_index va = unat (drop_bit 39 va AND 0x1FF)"
definition pud_index :: "u64 \<Rightarrow> nat" where "pud_index va = unat (drop_bit 30 va AND 0x1FF)"
definition pmd_index :: "u64 \<Rightarrow> nat" where "pmd_index va = unat (drop_bit 21 va AND 0x1FF)"
definition pte_index :: "u64 \<Rightarrow> nat" where "pte_index va = unat (drop_bit 12 va AND 0x1FF)"

text \<open>
  One level down, allocating the next table when the entry is not valid. The inner \<open>None\<close> is the
  \<open>return -1\<close> of \<open>mmu_map_page\<close> when there is no page left.
\<close>

definition next_alloc :: "u64 \<Rightarrow> nat \<Rightarrow> mmu_state \<Rightarrow> (u64 option \<times> mmu_state) option" where
  "next_alloc t idx s =
     (if rd s t idx AND PTE_VALID = 0 then do {
        (n, s) \<leftarrow> alloc_table s;
        if n = 0 then Some (None, s)
        else do {
          let s = wr t idx (n OR PTE_TABLE OR PTE_VALID) s;
          Some (Some (rd s t idx AND NOT 0xFFF), s) }
      } else Some (Some (rd s t idx AND NOT 0xFFF), s))"

definition mmu_map_page :: "u64 \<Rightarrow> u64 \<Rightarrow> u64 \<Rightarrow> u64 \<Rightarrow> mmu_state \<Rightarrow> (int \<times> mmu_state) option" where
  "mmu_map_page pgd va pa attrs s = do {
     (r, s) \<leftarrow> next_alloc pgd (pgd_index va) s;
     case r of None \<Rightarrow> Some (-1, s) | Some pud \<Rightarrow> do {
       (r, s) \<leftarrow> next_alloc pud (pud_index va) s;
       case r of None \<Rightarrow> Some (-1, s) | Some pmd \<Rightarrow> do {
         (r, s) \<leftarrow> next_alloc pmd (pmd_index va) s;
         case r of None \<Rightarrow> Some (-1, s) | Some pte \<Rightarrow> do {
           let s = wr pte (pte_index va) ((pa AND NOT MMU_PAGE_MASK) OR attrs OR PTE_AF OR PTE_VALID) s;
           Some (0, emit [DSB_ISHST] s) } } } }"

text \<open>The walk that unmapping and changing attributes start with; \<open>None\<close> is their \<open>return -1\<close>.\<close>

definition next_level :: "mmu_state \<Rightarrow> u64 \<Rightarrow> nat \<Rightarrow> u64 option" where
  "next_level s t idx = (if rd s t idx AND PTE_VALID = 0 then None else Some (rd s t idx AND NOT 0xFFF))"

definition walk_pte :: "u64 \<Rightarrow> u64 \<Rightarrow> mmu_state \<Rightarrow> u64 option" where
  "walk_pte pgd va s = do {
     pud \<leftarrow> next_level s pgd (pgd_index va);
     pmd \<leftarrow> next_level s pud (pud_index va);
     pte \<leftarrow> next_level s pmd (pmd_index va);
     if rd s pte (pte_index va) AND PTE_VALID = 0 then None else Some pte }"

definition mmu_unmap_page :: "u64 \<Rightarrow> u64 \<Rightarrow> mmu_state \<Rightarrow> int \<times> mmu_state" where
  "mmu_unmap_page pgd va s = (case walk_pte pgd va s of
     None \<Rightarrow> (-1, s)
   | Some pte \<Rightarrow> (0, emit [DSB_ISHST] (wr pte (pte_index va) 0 s)))"

definition mmu_update_page_attrs :: "u64 \<Rightarrow> u64 \<Rightarrow> u64 \<Rightarrow> mmu_state \<Rightarrow> int \<times> mmu_state" where
  "mmu_update_page_attrs pgd va attrs s = (case walk_pte pgd va s of
     None \<Rightarrow> (-1, s)
   | Some pte \<Rightarrow>
       let pa = rd s pte (pte_index va) AND NOT 0xFFF
       in (0, emit [DSB_ISHST] (wr pte (pte_index va) (pa OR attrs OR PTE_AF OR PTE_VALID) s)))"

subsection \<open>TLB and caches\<close>

definition tlb_flush_all :: "mmu_state \<Rightarrow> mmu_state" where
  "tlb_flush_all s = emit [DSB_ISHST, TLBI_VMALLE1IS, DSB_ISH, ISB] s"

definition tlb_flush_page :: "u64 \<Rightarrow> mmu_state \<Rightarrow> mmu_state" where
  "tlb_flush_page va s = emit [DSB_ISHST, TLBI_VAAE1IS (drop_bit 12 va), DSB_ISH, ISB] s"

definition tlb_flush_range :: "u64 \<Rightarrow> u64 \<Rightarrow> mmu_state \<Rightarrow> mmu_state option" where
  "tlb_flush_range va sz s = do {
     let end_addr = va + sz;
     s \<leftarrow> while_u64 va end_addr MMU_PAGE_SIZE (\<lambda>addr s. Some (emit [TLBI_VAAE1IS (drop_bit 12 addr)] s)) s;
     Some (emit [DSB_ISH, ISB] s) }"

definition cache_flush_range :: "u64 \<Rightarrow> u64 \<Rightarrow> mmu_state \<Rightarrow> mmu_state option" where
  "cache_flush_range va sz s = do {
     let start = va AND NOT (64 - 1);
     let end_addr = va + sz;
     s \<leftarrow> while_u64 start end_addr 64 (\<lambda>addr s. Some (emit [DC_CIVAC addr] s)) s;
     Some (emit [DSB_ISH] s) }"

definition icache_invalidate_range :: "u64 \<Rightarrow> u64 \<Rightarrow> mmu_state \<Rightarrow> mmu_state option" where
  "icache_invalidate_range va sz s = do {
     let start = va AND NOT (64 - 1);
     let end_addr = va + sz;
     s \<leftarrow> while_u64 start end_addr 64 (\<lambda>addr s. Some (emit [IC_IVAU addr] s)) s;
     Some (emit [DSB_ISH, ISB] s) }"

subsection \<open>Setting up\<close>

text \<open>
  \<open>for (x = from; x < to; x += MMU_PAGE_SIZE) if (mmu_map_page(pgd, base + x, x, attrs) < 0) ...\<close>:
  \<open>Inl\<close> is the state in which a page could not be mapped.
\<close>

definition map_pages ::
  "u64 \<Rightarrow> u64 \<Rightarrow> u64 \<Rightarrow> u64 \<Rightarrow> u64 \<Rightarrow> mmu_state \<Rightarrow> (mmu_state + mmu_state) option" where
  "map_pages pgd base from to attrs = while_ret_u64 from to MMU_PAGE_SIZE (\<lambda>pa s. do {
     (r, s) \<leftarrow> mmu_map_page pgd (base + pa) pa attrs s;
     Some (if r < 0 then Inl s else Inr s) })"

text \<open>The linker's symbols.\<close>

record link_syms =
  kernel_start :: u64
  kernel_end :: u64
  stack_bottom :: u64
  stack_top :: u64

definition mmu_init :: "link_syms \<Rightarrow> mmu_state \<Rightarrow> mmu_state option" where
  "mmu_init ld s = do {
     (p0, s) \<leftarrow> alloc_table s;
     let s = s\<lparr>ttbr0_pgd := p0\<rparr>;
     (p1, s) \<leftarrow> alloc_table s;
     let s = s\<lparr>ttbr1_pgd := p1\<rparr>;
     if ttbr0_pgd s = 0 \<or> ttbr1_pgd s = 0 then Some s
     else do {
       let kstart = kernel_start ld AND NOT MMU_PAGE_MASK;
       let kend = (kernel_end ld + MMU_PAGE_MASK) AND NOT MMU_PAGE_MASK;
       let stack_start = stack_bottom ld AND NOT MMU_PAGE_MASK;
       let stack_end = (stack_top ld + MMU_PAGE_MASK) AND NOT MMU_PAGE_MASK;
       let attrs = PTE_PAGE OR PTE_SH_INNER OR PTE_ATTR_IDX (of_nat MAIR_IDX_NORMAL);
       r \<leftarrow> map_pages (ttbr0_pgd s) 0 0 0x80000000 attrs s;
       let s = (case r of Inl s \<Rightarrow> s | Inr s \<Rightarrow> s);
       let virt_base = vmm_kernel_base;
       r \<leftarrow> map_pages (ttbr1_pgd s) virt_base kstart kend attrs s;
       case r of Inl s \<Rightarrow> Some s | Inr s \<Rightarrow> do {
         r \<leftarrow> map_pages (ttbr1_pgd s) virt_base stack_start stack_end attrs s;
         Some (case r of Inl s \<Rightarrow> s | Inr s \<Rightarrow> s) } } }"

definition mmu_enable :: "mmu_state \<Rightarrow> mmu_state" where
  "mmu_enable s =
     (let mair = push_bit (8 * MAIR_IDX_DEVICE) MAIR_DEVICE_nGnRnE OR
            push_bit (8 * MAIR_IDX_NORMAL_NC) MAIR_NORMAL_NC OR
            push_bit (8 * MAIR_IDX_NORMAL) MAIR_NORMAL;
          tcr = push_bit 0 16 OR push_bit 16 16 OR push_bit 14 0 OR push_bit 30 2;
          s = s\<lparr>mair_el1 := mair, tcr_el1 := tcr, ttbr0_el1 := ttbr0_pgd s, ttbr1_el1 := ttbr1_pgd s\<rparr>;
          s = emit [ISB] s;
          sctlr = sctlr_el1 s OR (push_bit 0 1 OR push_bit 2 1 OR push_bit 12 1)
      in emit [ISB] (s\<lparr>sctlr_el1 := sctlr\<rparr>))"

definition mmu_get_ttbr0 :: "mmu_state \<Rightarrow> u64" where "mmu_get_ttbr0 s = ttbr0_el1 s"
definition mmu_get_ttbr1 :: "mmu_state \<Rightarrow> u64" where "mmu_get_ttbr1 s = ttbr1_el1 s"

definition mmu_map_region :: "u64 \<Rightarrow> u64 \<Rightarrow> u64 \<Rightarrow> mmu_state \<Rightarrow> (int \<times> mmu_state) option" where
  "mmu_map_region pa sz attrs s =
     (if ttbr1_pgd s = 0 then Some (-1, s)
      else do {
        let pa_aligned = pa AND NOT MMU_PAGE_MASK;
        let size_aligned = (sz + MMU_PAGE_MASK) AND NOT MMU_PAGE_MASK;
        let va_base = vmm_kernel_base;
        r \<leftarrow> while_ret_u64 0 size_aligned MMU_PAGE_SIZE (\<lambda>off s. do {
          let va = va_base + pa_aligned + off;
          (r, s) \<leftarrow> mmu_map_page (ttbr1_pgd s) va (pa_aligned + off) attrs s;
          Some (if r < 0 then Inl s else Inr s) }) s;
        case r of Inl s \<Rightarrow> Some (-1, s) | Inr s \<Rightarrow> do {
          s \<leftarrow> tlb_flush_range (va_base + pa_aligned) size_aligned s;
          Some (0, s) } })"

subsection \<open>Translation\<close>

text \<open>The table that a list of indices leads to from table \<open>t\<close>.\<close>

fun tabat :: "(u64 \<Rightarrow> u64) \<Rightarrow> u64 \<Rightarrow> nat list \<Rightarrow> u64 option" where
  "tabat m t [] = Some t"
| "tabat m t (i # p) =
     (if m (slot t i) AND 1 = 0 then None else tabat m (m (slot t i) AND NOT 0xFFF) p)"

definition va_path :: "u64 \<Rightarrow> nat list" where
  "va_path va = [pgd_index va, pud_index va, pmd_index va]"

definition pte_of :: "(u64 \<Rightarrow> u64) \<Rightarrow> u64 \<Rightarrow> u64 \<Rightarrow> u64 option" where
  "pte_of m pgd va = (case tabat m pgd (va_path va) of
     None \<Rightarrow> None
   | Some t \<Rightarrow> if m (slot t (pte_index va)) AND 1 = 0 then None else Some (m (slot t (pte_index va))))"

text \<open>Two addresses of the same page, as far as the 48 translated bits tell.\<close>

definition same_page :: "u64 \<Rightarrow> u64 \<Rightarrow> bool" where
  "same_page va vb \<longleftrightarrow> va_path va = va_path vb \<and> pte_index va = pte_index vb"

definition is_path :: "nat list \<Rightarrow> bool" where
  "is_path p \<longleftrightarrow> length p \<le> 3 \<and> (\<forall>i\<in>set p. i < 512)"

text \<open>
  A well-formed page table tree: its tables are pages in use of the page allocator, and no table is
  reached on two ways.
\<close>

definition pt_wf :: "u64 set \<Rightarrow> (u64 \<Rightarrow> u64) \<Rightarrow> u64 \<Rightarrow> bool" where
  "pt_wf live m pgd \<longleftrightarrow>
     (\<forall>p a. is_path p \<and> tabat m pgd p = Some a \<longrightarrow> page_aligned a \<and> a \<in> live) \<and>
     (\<forall>p q a. is_path p \<and> is_path q \<and> tabat m pgd p = Some a \<and> tabat m pgd q = Some a \<longrightarrow> p = q)"

definition tables :: "(u64 \<Rightarrow> u64) \<Rightarrow> u64 \<Rightarrow> u64 set" where
  "tables m pgd = {a. \<exists>p. is_path p \<and> tabat m pgd p = Some a}"

text \<open>The words outside the pages of \<open>S\<close> are the same.\<close>

definition same_outside :: "u64 set \<Rightarrow> (u64 \<Rightarrow> u64) \<Rightarrow> (u64 \<Rightarrow> u64) \<Rightarrow> bool" where
  "same_outside S m m' \<longleftrightarrow> (\<forall>x. x AND NOT 0xFFF \<notin> S \<longrightarrow> m' x = m x)"

definition mmu_inv :: "u64 \<Rightarrow> mmu_state \<Rightarrow> bool" where
  "mmu_inv pgd s \<longleftrightarrow> pmm_inv (mmu_pmm s) \<and> pmm_nonnull (mmu_pmm s) \<and>
     pt_wf (pmm_live (mmu_pmm s)) (mmu_mem s) pgd"

text \<open>
  What an operation on the tables of \<open>pgd\<close> leaves alone: pages in use stay in use (so the number of
  free pages does not grow), tables stay tables, new tables are pages that were free and are the only
  new pages in use, every word of a page in use that is no table of \<open>pgd\<close> keeps its value,
  and so do the registers and the number of physical pages.
\<close>

definition regs :: "mmu_state \<Rightarrow> u64 \<times> u64 \<times> u64 \<times> u64 \<times> u64 \<times> u64 \<times> u64 \<times> nat" where
  "regs s = (ttbr0_pgd s, ttbr1_pgd s, mair_el1 s, tcr_el1 s, ttbr0_el1 s, ttbr1_el1 s, sctlr_el1 s, pmm_pages_total (mmu_pmm s))"

definition grows :: "u64 \<Rightarrow> mmu_state \<Rightarrow> mmu_state \<Rightarrow> bool" where
  "grows pgd s s' \<longleftrightarrow>
     pmm_live (mmu_pmm s) \<subseteq> pmm_live (mmu_pmm s') \<and>
     tables (mmu_mem s') pgd \<subseteq> tables (mmu_mem s) pgd \<union> - pmm_live (mmu_pmm s) \<and>
     tables (mmu_mem s) pgd \<subseteq> tables (mmu_mem s') pgd \<and>
     pmm_live (mmu_pmm s') \<subseteq> pmm_live (mmu_pmm s) \<union> tables (mmu_mem s') pgd \<and>
     (\<forall>x. x AND - 4096 \<in> pmm_live (mmu_pmm s) \<longrightarrow> x AND - 4096 \<notin> tables (mmu_mem s) pgd \<longrightarrow>
        mmu_mem s' x = mmu_mem s x) \<and>
     pmm_pages_free (mmu_pmm s') \<le> pmm_pages_free (mmu_pmm s) \<and>
     regs s' = regs s"

section \<open>Lemmas\<close>

subsection \<open>Entries and indices\<close>

lemma unat_slot:
  assumes "page_aligned t" "i < 512"
  shows "unat (slot t i) = unat t + i * 8"
proof -
  have "unat (of_nat i * 8 :: u64) = i * 8" using assms(2) by (simp add: unat_word_ariths unat_of_nat)
  moreover have "unat t + 4095 < 2 ^ 64"
    using aligned_room [of "unat t"] unat_lt64 [of t] assms(1) by (simp add: page_aligned_unat)
  ultimately show ?thesis using assms(2) unfolding slot_def by (subst unat_add_nowrap) simp_all
qed

lemma slot_page [simp]:
  assumes "page_aligned t" "i < 512"
  shows "slot t i AND - 4096 = t"
proof -
  obtain q where "unat t = q * 4096"
    using assms(1) div_mult_mod_eq [of "unat t" 4096] by (auto simp: page_aligned_unat)
  then have "unat (slot t i AND NOT 4095) = unat t"
    unfolding unat_and_not_4095 using assms by (simp add: unat_slot)
  then show ?thesis by (simp add: word_unat_eq_iff)
qed

lemma slot_inj:
  assumes "page_aligned a" "page_aligned b" "i < 512" "j < 512"
  shows "slot a i = slot b j \<longleftrightarrow> a = b \<and> i = j"
  using assms slot_page unat_slot by (metis add_left_cancel mult_cancel2 zero_neq_numeral)

lemma page_aligned_bits: "page_aligned a \<longleftrightarrow> (\<forall>i<12. \<not> bit a i)"
proof -
  have m: "(4095 :: u64) = mask 12" by (simp add: mask_eq_exp_minus_1)
  have "bit a i = bit (a AND mask 12) i" if "i < 12" for i using that by (simp add: bit_simps)
  moreover have "a AND mask 12 = 0" if "\<forall>i<12. \<not> bit a i"
    by (rule bit_word_eqI) (use that in \<open>auto simp: bit_simps\<close>)
  ultimately show ?thesis unfolding page_aligned_def m by auto
qed

lemma page_aligned_down [simp]: "page_aligned (x AND - 4096)"
proof -
  have m: "(- 4096 :: u64) = NOT (mask 12)" by (simp add: mask_eq_exp_minus_1)
  show ?thesis unfolding m page_aligned_bits by (simp add: bit_and_iff bit_not_iff bit_mask_iff)
qed

lemma table_entry [simp]:
  assumes "page_aligned n"
  shows "(n OR PTE_TABLE OR PTE_VALID) AND - 4096 = n"
proof -
  have m: "(- 4096 :: u64) = NOT (mask 12)" "PTE_TABLE OR PTE_VALID = mask 2"
    by (simp_all add: mask_eq_exp_minus_1 PTE_TABLE_def PTE_VALID_def)
  show ?thesis unfolding m or.assoc
    by (rule bit_word_eqI) (use assms in \<open>auto simp: bit_simps page_aligned_bits not_less\<close>)
qed

lemma table_entry_valid [simp]: "(n OR PTE_TABLE OR PTE_VALID) AND 1 \<noteq> 0"
  and leaf_valid [simp]: "(x OR PTE_VALID) AND 1 \<noteq> 0"
  by (auto simp: PTE_VALID_def bit_eq_iff bit_simps intro!: exI [of _ 0])

lemma page_size [simp]: "MMU_PAGE_SIZE = 4096" "MMU_PAGE_MASK = 4095"
  by (simp_all add: MMU_PAGE_SIZE_def MMU_PAGE_MASK_def)

lemma index_lt [simp]: "pgd_index va < 512" "pud_index va < 512" "pmd_index va < 512" "pte_index va < 512"
proof -
  have "unat (x AND 0x1FF :: u64) < 512" for x
    using word_and_le1 [of x "0x1FF"] by (simp add: word_le_nat_alt)
  then show "pgd_index va < 512" "pud_index va < 512" "pmd_index va < 512" "pte_index va < 512"
    by (simp_all add: pgd_index_def pud_index_def pmd_index_def pte_index_def)
qed

subsection \<open>Fresh tables\<close>

lemma zero_page_slot:
  assumes "page_aligned p" "page_aligned a" "j < 512"
  shows "zero_page p m (slot a j) = (if a = p then 0 else m (slot a j))"
proof -
  have "fold (\<lambda>i m. m(slot p i := 0)) [0..<n] m (slot a j) = (if a = p \<and> j < n then 0 else m (slot a j))"
    if "n \<le> 512" for n
    using that by (induction n) (use assms in \<open>auto simp: slot_inj less_Suc_eq\<close>)
  then show ?thesis using assms(3) by (simp add: zero_page_def)
qed

lemma zero_page_outside:
  assumes "page_aligned p"
  shows "same_outside {p} m (zero_page p m)"
proof -
  have "fold (\<lambda>i m. m(slot p i := 0)) [0..<n] m x = m x" if "n \<le> 512" "x AND NOT 0xFFF \<noteq> p" for n x
    using that by (induction n) (use assms in \<open>auto simp: slot_page\<close>)
  then show ?thesis by (simp add: zero_page_def same_outside_def)
qed

lemma alloc_table_spec:
  assumes inv: "pmm_inv (mmu_pmm s)" "pmm_nonnull (mmu_pmm s)"
  shows "\<exists>n s'. alloc_table s = Some (n, s') \<and> pmm_inv (mmu_pmm s') \<and> pmm_nonnull (mmu_pmm s') \<and>
    (n = 0 \<and> s' = s \<and> pmm_pages_free (mmu_pmm s) = 0 \<or>
     n \<noteq> 0 \<and> page_aligned n \<and> n \<notin> pmm_live (mmu_pmm s) \<and>
       pmm_live (mmu_pmm s') = insert n (pmm_live (mmu_pmm s)) \<and>
       pmm_pages_free (mmu_pmm s') \<le> pmm_pages_free (mmu_pmm s) \<and>
       s' = s\<lparr>mmu_pmm := mmu_pmm s', mmu_mem := zero_page n (mmu_mem s)\<rparr>)"
proof -
  from pmm_alloc_page_fresh [OF assms] obtain n pm where
    a: "pmm_alloc_page (mmu_pmm s) = Some (n, pm)" "pmm_inv pm" "pmm_nonnull pm"
      "n = 0 \<and> pm = mmu_pmm s \<or> n \<noteq> 0 \<and> page_aligned n \<and> n \<notin> pmm_live (mmu_pmm s) \<and>
        pmm_live pm = insert n (pmm_live (mmu_pmm s))" by blast
  with pmm_alloc_page_count [OF assms a(1)] show ?thesis by (auto simp: alloc_table_def)
qed

lemma alloc_table_total:
  assumes "pmm_inv (mmu_pmm s)" "alloc_table s = Some (n, s')"
  shows "pmm_pages_total (mmu_pmm s') = pmm_pages_total (mmu_pmm s)"
  using pmm_alloc_run_spec [OF assms(1) zero_less_one] assms(2)
  by (auto simp: alloc_table_def pmm_alloc_page_def same_range_def Let_def split: if_splits)

subsection \<open>Paths\<close>

lemma tabat_append: "tabat m t (p @ q) = Option.bind (tabat m t p) (\<lambda>a. tabat m a q)"
  by (induction p arbitrary: t) auto

lemma tabat_frame:
  assumes "\<And>p j q a. r = p @ j # q \<Longrightarrow> tabat m t p = Some a \<Longrightarrow> m' (slot a j) = m (slot a j)"
  shows "tabat m' t r = tabat m t r"
  using assms
proof (induction r arbitrary: t)
  case (Cons i r)
  from Cons.prems [of "[]" i r t] have eq: "m' (slot t i) = m (slot t i)" by simp
  show ?case
  proof (cases "m (slot t i) AND 1 = 0")
    case False
    let ?n = "m (slot t i) AND NOT 0xFFF"
    have "tabat m' ?n r = tabat m ?n r"
    proof (rule Cons.IH)
      fix p j q a
      assume "r = p @ j # q" "tabat m ?n p = Some a"
      with False show "m' (slot a j) = m (slot a j)" using Cons.prems [of "i # p" j q a] by simp
    qed
    with eq show ?thesis by simp
  qed (simp add: eq)
qed simp

lemma is_path_prefix: "is_path (p @ q) \<Longrightarrow> is_path p"
  by (auto simp: is_path_def)

lemma is_path_va [simp]: "is_path (va_path va)"
  by (simp add: is_path_def va_path_def)

lemma pt_wf_D:
  assumes "pt_wf L m pgd"
  shows "is_path p \<Longrightarrow> tabat m pgd p = Some a \<Longrightarrow> page_aligned a \<and> a \<in> L"
    and "is_path p \<Longrightarrow> is_path q \<Longrightarrow> tabat m pgd p = Some a \<Longrightarrow> tabat m pgd q = Some a \<Longrightarrow> p = q"
  using assms unfolding pt_wf_def by blast+

text \<open>Writing one entry of the table at path \<open>p\<close> changes only what lies below that entry.\<close>

lemma tabat_write:
  assumes wf: "pt_wf L m pgd" and p: "is_path p" "tabat m pgd p = Some t" "i < 512"
    and r: "is_path r" "\<nexists>q. r = p @ i # q"
    and m': "\<And>a j. a \<in> L \<Longrightarrow> page_aligned a \<Longrightarrow> j < 512 \<Longrightarrow> (a, j) \<noteq> (t, i) \<Longrightarrow> m' (slot a j) = m (slot a j)"
  shows "tabat m' pgd r = tabat m pgd r"
proof (rule tabat_frame)
  fix p' j q a
  assume eq: "r = p' @ j # q" and a: "tabat m pgd p' = Some a"
  have path: "is_path p'" "j < 512" using r(1) eq by (auto simp: is_path_def)
  note al = pt_wf_D(1) [OF wf path(1) a]
  have "(a, j) \<noteq> (t, i)" using pt_wf_D(2) [OF wf path(1) p(1) a] p(2) eq r(2) by auto
  with m' al path(2) show "m' (slot a j) = m (slot a j)" by blast
qed

subsection \<open>One level down\<close>

lemma rd_wr [simp]: "rd (wr t i v s) t i = v"
  by (simp add: rd_def wr_def)

lemma mem_wr [simp]: "mmu_mem (wr t i v s) = (mmu_mem s)(slot t i := v)" "mmu_pmm (wr t i v s) = mmu_pmm s"
  by (simp_all add: wr_def)

text \<open>A valid entry leads to the next table and nothing changes.\<close>

lemma next_alloc_valid:
  assumes "rd s t i AND 1 \<noteq> 0"
  shows "next_alloc t i s = Some (Some (rd s t i AND - 4096), s)"
  using assms by (simp add: next_alloc_def PTE_VALID_def)

text \<open>The memory after a fresh table \<open>n\<close> has been hung into entry \<open>i\<close> of the table \<open>t\<close> at path \<open>p\<close>.\<close>

lemma hang_table:
  assumes wf: "pt_wf L m pgd" and p: "is_path (p @ [i])" "tabat m pgd p = Some t"
    and free: "m (slot t i) AND 1 = 0"
    and n: "page_aligned n" "n \<notin> L"
    and m': "m' = (zero_page n m)(slot t i := n OR PTE_TABLE OR PTE_VALID)"
  shows "pt_wf (insert n L) m' pgd" "tabat m' pgd (p @ [i]) = Some n"
    "pte_of m' pgd va = pte_of m pgd va" "same_outside (insert n (tables m pgd)) m m'"
    "tables m' pgd = insert n (tables m pgd)"
proof -
  have path: "is_path p" "i < 512" "length p \<le> 2" using p(1) by (auto simp: is_path_def)
  note t = pt_wf_D(1) [OF wf path(1) p(2)]
  have old: "m' (slot a j) = m (slot a j)" if "a \<in> L" "page_aligned a" "j < 512" "(a, j) \<noteq> (t, i)" for a j
    using that n t path(2) by (auto simp: m' zero_page_slot slot_inj)
  have new: "m' (slot n j) = 0" if "j < 512" for j
    using that n t path(2) by (auto simp: m' zero_page_slot slot_inj)
  have same: "tabat m' pgd r = tabat m pgd r" if "is_path r" "\<nexists>q. r = p @ i # q" for r
    by (rule tabat_write [OF wf path(1) p(2) path(2) that old])
  have "tabat m' pgd p = Some t" using same [OF path(1)] p(2) by auto
  then show at: "tabat m' pgd (p @ [i]) = Some n" using n by (simp add: tabat_append m')
  have below: "tabat m' pgd (p @ i # q) = (if q = [] then Some n else None)" if "is_path (p @ i # q)" for q
  proof (cases q)
    case (Cons j q')
    with that have "j < 512" by (auto simp: is_path_def)
    with at new tabat_append [of m' pgd "p @ [i]" q] Cons show ?thesis by simp
  qed (use at in simp)
  have none: "tabat m pgd (p @ i # q) = None" for q using p(2) free by (simp add: tabat_append)
  have tab: "tabat m' pgd r = (if r = p @ [i] then Some n else tabat m pgd r)" if "is_path r" for r
    using same [OF that] below none that by (cases "\<exists>q. r = p @ i # q") (auto split: if_splits)
  have ne: "tabat m pgd r \<noteq> Some n" if "is_path r" for r using pt_wf_D(1) [OF wf that] n(2) by blast
  show "pt_wf (insert n L) m' pgd"
    unfolding pt_wf_def
  proof (intro conjI allI impI; elim conjE)
    fix r a assume "is_path r" "tabat m' pgd r = Some a"
    with tab pt_wf_D(1) [OF wf, of r a] n(1) show "page_aligned a" "a \<in> insert n L"
      by (auto split: if_splits)
  next
    fix r q a assume r: "is_path r" "is_path q" "tabat m' pgd r = Some a" "tabat m' pgd q = Some a"
    then show "r = q"
      using tab [OF r(1)] tab [OF r(2)] ne [OF r(1)] ne [OF r(2)] pt_wf_D(2) [OF wf r(1,2), of a]
      by (auto split: if_splits)
  qed
  show "tables m' pgd = insert n (tables m pgd)"
  proof
    show "tables m' pgd \<subseteq> insert n (tables m pgd)" using tab by (auto simp: tables_def split: if_splits)
    have "tabat m' pgd r = Some a" if "is_path r" "tabat m pgd r = Some a" for r a
      using tab [OF that(1)] that none [of "[]"] by auto
    then show "insert n (tables m pgd) \<subseteq> tables m' pgd" using at p(1) by (auto simp: tables_def)
  qed
  have "t \<in> tables m pgd" using path(1) p(2) by (auto simp: tables_def)
  then show "same_outside (insert n (tables m pgd)) m m'"
    using zero_page_outside [OF n(1), of m] t path(2) by (auto simp: same_outside_def m')
  show "pte_of m' pgd va = pte_of m pgd va"
  proof (cases "va_path va = p @ [i]")
    case True
    then show ?thesis using at none [of "[]"] new by (simp add: pte_of_def)
  next
    case False
    then have eq: "tabat m' pgd (va_path va) = tabat m pgd (va_path va)" using tab by simp
    have "m' (slot a (pte_index va)) = m (slot a (pte_index va))" if a: "tabat m pgd (va_path va) = Some a" for a
    proof (rule old)
      have "va_path va \<noteq> p" using path(3) by (auto simp: va_path_def)
      with pt_wf_D(2) [OF wf is_path_va path(1) a] p(2) show "(a, pte_index va) \<noteq> (t, i)" by auto
    qed (use pt_wf_D(1) [OF wf is_path_va a] in auto)
    with eq show ?thesis by (auto simp: pte_of_def split: option.splits)
  qed
qed

text \<open>Writing a level-3 entry changes the translation of that page only.\<close>

lemma leaf_write:
  assumes wf: "pt_wf L m pgd" and t: "tabat m pgd (va_path va) = Some t"
    and m': "m' = m(slot t (pte_index va) := v)"
  shows "pt_wf L m' pgd" "tables m' pgd = tables m pgd" "same_outside (tables m pgd) m m'"
    "pte_of m' pgd vb = (if same_page va vb then (if v AND 1 = 0 then None else Some v) else pte_of m pgd vb)"
proof -
  note al = pt_wf_D(1) [OF wf is_path_va t]
  have old: "m' (slot a j) = m (slot a j)" if "page_aligned a" "j < 512" "(a, j) \<noteq> (t, pte_index va)" for a j
    using that al by (auto simp: m' slot_inj)
  have tab: "tabat m' pgd r = tabat m pgd r" if "is_path r" for r
    by (rule tabat_write [OF wf is_path_va t index_lt(4) that])
       (use that old in \<open>auto simp: va_path_def is_path_def\<close>)
  show "pt_wf L m' pgd" using wf unfolding pt_wf_def by (simp add: tab cong: conj_cong)
  show "tables m' pgd = tables m pgd" by (simp add: tables_def tab cong: conj_cong)
  show "same_outside (tables m pgd) m m'"
    using al t is_path_va [of va] by (auto simp: same_outside_def m' tables_def)
  show "pte_of m' pgd vb = (if same_page va vb then (if v AND 1 = 0 then None else Some v) else pte_of m pgd vb)"
  proof (cases "same_page va vb")
    case True
    have "m' (slot t (pte_index va)) = v" by (simp add: m')
    with True t show ?thesis by (auto simp: pte_of_def tab same_page_def)
  next
    case False
    have "m' (slot a (pte_index vb)) = m (slot a (pte_index vb))" if a: "tabat m pgd (va_path vb) = Some a" for a
    proof (rule old)
      show "(a, pte_index vb) \<noteq> (t, pte_index va)"
        using pt_wf_D(2) [OF wf is_path_va is_path_va a] t False by (auto simp: same_page_def)
    qed (use pt_wf_D(1) [OF wf is_path_va a] in auto)
    then show ?thesis using False by (auto simp: pte_of_def tab split: option.splits)
  qed
qed

lemma grows_refl [simp]: "grows pgd s s"
  by (simp add: grows_def)

lemma grows_trans: "grows pgd s t \<Longrightarrow> grows pgd t u \<Longrightarrow> grows pgd s u"
  unfolding grows_def by (auto simp: subset_iff)

lemma next_alloc_spec:
  assumes inv: "mmu_inv pgd s" and p: "is_path (p @ [i])" "tabat (mmu_mem s) pgd p = Some t"
  shows "\<exists>r s'. next_alloc t i s = Some (r, s') \<and> mmu_inv pgd s' \<and> grows pgd s s' \<and> hw s' = hw s \<and>
    (\<forall>va. pte_of (mmu_mem s') pgd va = pte_of (mmu_mem s) pgd va) \<and>
    (\<forall>n. r = Some n \<longrightarrow> tabat (mmu_mem s') pgd (p @ [i]) = Some n) \<and>
    (r = None \<longrightarrow> pmm_pages_free (mmu_pmm s') = 0)"
proof (cases "mmu_mem s (slot t i) AND 1 = 0")
  case False
  then have "next_alloc t i s = Some (Some (mmu_mem s (slot t i) AND - 4096), s)"
    by (simp add: next_alloc_valid rd_def)
  moreover from False p(2) have "tabat (mmu_mem s) pgd (p @ [i]) = Some (mmu_mem s (slot t i) AND - 4096)"
    by (simp add: tabat_append)
  ultimately show ?thesis using inv by simp
next
  case True
  note wf = inv [unfolded mmu_inv_def]
  from alloc_table_spec [of s] wf obtain n s1 where
    a: "alloc_table s = Some (n, s1)" "pmm_inv (mmu_pmm s1)" "pmm_nonnull (mmu_pmm s1)"
    and cases: "n = 0 \<and> s1 = s \<and> pmm_pages_free (mmu_pmm s) = 0 \<or>
       n \<noteq> 0 \<and> page_aligned n \<and> n \<notin> pmm_live (mmu_pmm s) \<and>
       pmm_live (mmu_pmm s1) = insert n (pmm_live (mmu_pmm s)) \<and>
       pmm_pages_free (mmu_pmm s1) \<le> pmm_pages_free (mmu_pmm s) \<and>
       s1 = s\<lparr>mmu_pmm := mmu_pmm s1, mmu_mem := zero_page n (mmu_mem s)\<rparr>" by blast
  show ?thesis
  proof (cases "n = 0")
    case True
    with a(1) cases \<open>mmu_mem s (slot t i) AND 1 = 0\<close> inv show ?thesis
      by (simp add: next_alloc_def rd_def PTE_VALID_def)
  next
    case False
    with cases have n: "page_aligned n" "n \<notin> pmm_live (mmu_pmm s)"
      "pmm_live (mmu_pmm s1) = insert n (pmm_live (mmu_pmm s))"
      "pmm_pages_free (mmu_pmm s1) \<le> pmm_pages_free (mmu_pmm s)"
      and s1: "s1 = s\<lparr>mmu_pmm := mmu_pmm s1, mmu_mem := zero_page n (mmu_mem s)\<rparr>" by auto
    let ?s = "wr t i (n OR PTE_TABLE OR PTE_VALID) s1"
    have "mmu_mem s1 = zero_page n (mmu_mem s)" by (subst s1) simp
    then have m: "mmu_mem ?s = (zero_page n (mmu_mem s))(slot t i := n OR PTE_TABLE OR PTE_VALID)"
      "mmu_pmm ?s = mmu_pmm s1" by simp_all
    note h = hang_table [OF conjunct2 [OF conjunct2 [OF wf]] p True n(1,2) m(1)]
    have run: "next_alloc t i s = Some (Some n, ?s)"
      using a(1) \<open>n \<noteq> 0\<close> True n(1) by (simp add: next_alloc_def rd_def PTE_VALID_def [symmetric] Let_def)
    have inv': "mmu_inv pgd ?s" unfolding mmu_inv_def m(2) n(3) using a(2,3) h(1) by simp
    have "regs ?s = regs s" "hw ?s = hw s"
      unfolding wr_def using alloc_table_total [OF _ a(1)] wf by (subst s1, simp add: regs_def)+
    moreover have "mmu_mem ?s x = mmu_mem s x"
      if "x AND - 4096 \<in> pmm_live (mmu_pmm s)" "x AND - 4096 \<notin> tables (mmu_mem s) pgd" for x
      using h(4) that n(2) by (auto simp: same_outside_def)
    ultimately have "grows pgd s ?s" "hw ?s = hw s"
      unfolding grows_def m(2) n(3) h(5) using n(2,4) by blast+
    with run inv' h(2,3) show ?thesis by blast
  qed
qed

lemma emit_simps [simp]:
  "mmu_mem (emit ops s) = mmu_mem s" "mmu_pmm (emit ops s) = mmu_pmm s" "regs (emit ops s) = regs s"
  "hw (emit ops s) = hw s @ ops"
  by (simp_all add: emit_def regs_def)

lemma regs_wr [simp]: "regs (wr t i v s) = regs s" "hw (wr t i v s) = hw s"
  by (simp_all add: wr_def regs_def)

lemma wr_leaf_spec:
  assumes inv: "mmu_inv pgd s" and t: "tabat (mmu_mem s) pgd (va_path va) = Some t"
  shows "mmu_inv pgd (emit ops (wr t (pte_index va) v s))" "grows pgd s (emit ops (wr t (pte_index va) v s))"
    "pte_of (mmu_mem (emit ops (wr t (pte_index va) v s))) pgd vb =
       (if same_page va vb then (if v AND 1 = 0 then None else Some v) else pte_of (mmu_mem s) pgd vb)"
proof -
  have wf: "pt_wf (pmm_live (mmu_pmm s)) (mmu_mem s) pgd" using inv by (simp add: mmu_inv_def)
  note w = leaf_write [OF wf t refl, of v]
  show "mmu_inv pgd (emit ops (wr t (pte_index va) v s))" using inv w(1) by (simp add: mmu_inv_def)
  show "grows pgd s (emit ops (wr t (pte_index va) v s))"
    using w(2,3) by (simp add: grows_def same_outside_def)
  show "pte_of (mmu_mem (emit ops (wr t (pte_index va) v s))) pgd vb =
      (if same_page va vb then (if v AND 1 = 0 then None else Some v) else pte_of (mmu_mem s) pgd vb)"
    using w(4) by simp
qed

subsection \<open>Mapping, unmapping, changing attributes\<close>

lemma mmu_map_page_spec:
  assumes inv: "mmu_inv pgd s"
  shows "\<exists>r s'. mmu_map_page pgd va pa attrs s = Some (r, s') \<and> mmu_inv pgd s' \<and> grows pgd s s' \<and>
    (r = -1 \<and> pmm_pages_free (mmu_pmm s') = 0 \<and>
       (\<forall>vb. pte_of (mmu_mem s') pgd vb = pte_of (mmu_mem s) pgd vb) \<or>
     r = 0 \<and> (\<forall>vb. pte_of (mmu_mem s') pgd vb =
       (if same_page va vb then Some ((pa AND - 4096) OR attrs OR PTE_AF OR PTE_VALID)
        else pte_of (mmu_mem s) pgd vb)))"
proof -
  have p1: "is_path ([] @ [pgd_index va])" "tabat (mmu_mem s) pgd [] = Some pgd" by (simp_all add: is_path_def)
  from next_alloc_spec [OF inv p1] obtain r1 s1 where
    s1: "next_alloc pgd (pgd_index va) s = Some (r1, s1)" "mmu_inv pgd s1" "grows pgd s s1"
      "r1 = None \<Longrightarrow> pmm_pages_free (mmu_pmm s1) = 0" "\<forall>va. pte_of (mmu_mem s1) pgd va = pte_of (mmu_mem s) pgd va"
      "\<And>n. r1 = Some n \<Longrightarrow> tabat (mmu_mem s1) pgd [pgd_index va] = Some n" by auto
  show ?thesis
  proof (cases r1)
    case None
    with s1 show ?thesis by (simp add: mmu_map_page_def)
  next
    case (Some pud)
    have p2: "is_path ([pgd_index va] @ [pud_index va])" by (simp add: is_path_def)
    from next_alloc_spec [OF s1(2) p2 s1(6) [OF Some]] obtain r2 s2 where
      s2: "next_alloc pud (pud_index va) s1 = Some (r2, s2)" "mmu_inv pgd s2" "grows pgd s1 s2"
        "r2 = None \<Longrightarrow> pmm_pages_free (mmu_pmm s2) = 0" "\<forall>va. pte_of (mmu_mem s2) pgd va = pte_of (mmu_mem s1) pgd va"
        "\<And>n. r2 = Some n \<Longrightarrow> tabat (mmu_mem s2) pgd [pgd_index va, pud_index va] = Some n" by auto
    note g2 = grows_trans [OF s1(3) s2(3)]
    show ?thesis
    proof (cases r2)
      case None
      with s1 s2 Some g2 show ?thesis by (simp add: mmu_map_page_def)
    next
      case Some2: (Some pmd)
      have p3: "is_path ([pgd_index va, pud_index va] @ [pmd_index va])" by (simp add: is_path_def)
      from next_alloc_spec [OF s2(2) p3 s2(6) [OF Some2]] obtain r3 s3 where
        s3: "next_alloc pmd (pmd_index va) s2 = Some (r3, s3)" "mmu_inv pgd s3" "grows pgd s2 s3"
          "r3 = None \<Longrightarrow> pmm_pages_free (mmu_pmm s3) = 0" "\<forall>va. pte_of (mmu_mem s3) pgd va = pte_of (mmu_mem s2) pgd va"
          "\<And>n. r3 = Some n \<Longrightarrow> tabat (mmu_mem s3) pgd (va_path va) = Some n"
        by (auto simp: va_path_def)
      note g3 = grows_trans [OF g2 s3(3)]
      show ?thesis
      proof (cases r3)
        case None
        with s1 s2 s3 Some Some2 g3 show ?thesis by (simp add: mmu_map_page_def)
      next
        case Some3: (Some pte)
        let ?v = "(pa AND - 4096) OR attrs OR PTE_AF OR PTE_VALID"
        let ?s = "emit [DSB_ISHST] (wr pte (pte_index va) ?v s3)"
        note w = wr_leaf_spec [OF s3(2) s3(6) [OF Some3], of "[DSB_ISHST]" ?v]
        have "mmu_map_page pgd va pa attrs s = Some (0, ?s)"
          using s1(1) s2(1) s3(1) Some Some2 Some3 by (simp add: mmu_map_page_def)
        moreover have "pte_of (mmu_mem ?s) pgd vb =
            (if same_page va vb then Some ?v else pte_of (mmu_mem s) pgd vb)" for vb
          unfolding w(3) using s1(5) s2(5) s3(5) leaf_valid [of "(pa AND - 4096) OR attrs OR PTE_AF"]
          by (simp add: or.assoc)
        ultimately show ?thesis using w(1) grows_trans [OF g3 w(2)] by blast
      qed
    qed
  qed
qed

lemma walk_pte_iff:
  "walk_pte pgd va s = (case tabat (mmu_mem s) pgd (va_path va) of None \<Rightarrow> None
     | Some t \<Rightarrow> if mmu_mem s (slot t (pte_index va)) AND 1 = 0 then None else Some t)"
  by (simp add: walk_pte_def next_level_def va_path_def rd_def PTE_VALID_def)

lemma walk_pte_SomeD:
  assumes "walk_pte pgd va s = Some t"
  shows "tabat (mmu_mem s) pgd (va_path va) = Some t" "pte_of (mmu_mem s) pgd va = Some (rd s t (pte_index va))"
  using assms by (auto simp: walk_pte_iff pte_of_def rd_def split: option.splits if_splits)

lemma walk_pte_None: "walk_pte pgd va s = None \<longleftrightarrow> pte_of (mmu_mem s) pgd va = None"
  by (auto simp: walk_pte_iff pte_of_def split: option.splits)

lemma mmu_unmap_page_spec:
  assumes inv: "mmu_inv pgd s"
  shows "\<exists>r s'. mmu_unmap_page pgd va s = (r, s') \<and> mmu_inv pgd s' \<and> grows pgd s s' \<and>
    (r = -1 \<and> s' = s \<and> pte_of (mmu_mem s) pgd va = None \<or>
     r = 0 \<and> pte_of (mmu_mem s) pgd va \<noteq> None \<and>
       (\<forall>vb. pte_of (mmu_mem s') pgd vb = (if same_page va vb then None else pte_of (mmu_mem s) pgd vb)))"
proof (cases "walk_pte pgd va s")
  case None
  with inv walk_pte_None [of pgd va s] show ?thesis by (simp add: mmu_unmap_page_def)
next
  case (Some t)
  with wr_leaf_spec [OF inv walk_pte_SomeD(1) [OF Some], of "[DSB_ISHST]" 0] walk_pte_SomeD(2) [OF Some]
  show ?thesis by (simp add: mmu_unmap_page_def)
qed

lemma mmu_update_page_attrs_spec:
  assumes inv: "mmu_inv pgd s"
  shows "\<exists>r s'. mmu_update_page_attrs pgd va attrs s = (r, s') \<and> mmu_inv pgd s' \<and> grows pgd s s' \<and>
    (r = -1 \<and> s' = s \<and> pte_of (mmu_mem s) pgd va = None \<or>
     (\<exists>e. r = 0 \<and> pte_of (mmu_mem s) pgd va = Some e \<and>
       (\<forall>vb. pte_of (mmu_mem s') pgd vb =
         (if same_page va vb then Some ((e AND - 4096) OR attrs OR PTE_AF OR PTE_VALID)
          else pte_of (mmu_mem s) pgd vb))))"
proof (cases "walk_pte pgd va s")
  case None
  with inv walk_pte_None [of pgd va s] show ?thesis by (simp add: mmu_update_page_attrs_def)
next
  case (Some t)
  let ?v = "(rd s t (pte_index va) AND - 4096) OR attrs OR PTE_AF OR PTE_VALID"
  have "?v AND 1 \<noteq> 0"
    using leaf_valid [of "(rd s t (pte_index va) AND - 4096) OR attrs OR PTE_AF"] by (simp add: or.assoc)
  with wr_leaf_spec [OF inv walk_pte_SomeD(1) [OF Some], of "[DSB_ISHST]" ?v] walk_pte_SomeD(2) [OF Some] Some
  show ?thesis by (simp add: mmu_update_page_attrs_def Let_def)
qed

subsection \<open>Pages\<close>

lemma unat_index: "unat (drop_bit k (va::u64) AND 0x1FF) = unat va div 2 ^ k mod 512"
proof -
  have "drop_bit k va AND 0x1FF = take_bit 9 (drop_bit k va)"
    by (simp add: take_bit_eq_mask mask_eq_exp_minus_1)
  moreover have "unat (take_bit 9 (drop_bit k va)) = take_bit 9 (drop_bit k (unat va))"
    by (simp only: unsigned_take_bit_eq unat_drop_bit_eq)
  ultimately show ?thesis by (simp only: take_bit_eq_mod drop_bit_eq_div) simp
qed

lemma mod_digits: "(x::nat) mod (a * b) = y mod (a * b) \<longleftrightarrow> x mod a = y mod a \<and> x div a mod b = y div a mod b"
proof (cases "a = 0")
  case False
  show ?thesis
  proof
    assume eq: "x mod (a * b) = y mod (a * b)"
    then have "x mod (a * b) mod a = y mod (a * b) mod a" "x mod (a * b) div a = y mod (a * b) div a" by simp_all
    with False show "x mod a = y mod a \<and> x div a mod b = y div a mod b"
      by (simp_all add: mod_mult2_eq)
  qed (simp add: mod_mult2_eq)
qed simp

lemma mod_offset_inj:
  assumes "(a + i) mod n = (a + j) mod n" "i < n" "j < (n::nat)"
  shows "i = j"
proof -
  have "i = j" if "i \<le> j" "(a + i) mod n = (a + j) mod n" "j < n" for i j
    using that mod_eq_dvd_iff_nat [of "a + i" "a + j" n] nat_dvd_not_less [of "j - i" n] by force
  from this [of i j] this [of j i] assms show ?thesis by (cases "i \<le> j") auto
qed

lemma same_page_unat: "same_page va vb \<longleftrightarrow> unat va div 4096 mod 2 ^ 36 = unat vb div 4096 mod 2 ^ 36"
proof -
  have i: "pte_index v = unat v div 4096 mod 512" "pmd_index v = unat v div 4096 div 512 mod 512"
    "pud_index v = unat v div 4096 div 512 div 512 mod 512"
    "pgd_index v = unat v div 4096 div 512 div 512 div 512 mod 512" for v
    by (simp_all add: pte_index_def pmd_index_def pud_index_def pgd_index_def unat_index div_mult2_eq [symmetric])
  have eq: "(2 ^ 36 :: nat) = 512 * (512 * (512 * 512))" by simp
  show ?thesis
    unfolding same_page_def va_path_def i eq mod_digits by auto
qed

lemma same_page_refl [simp]: "same_page va va"
  by (simp add: same_page_def)

lemma same_page_sym: "same_page va vb \<Longrightarrow> same_page vb va"
  by (simp add: same_page_def)

lemma pte_of_same_page: "same_page va vb \<Longrightarrow> pte_of m pgd va = pte_of m pgd vb"
  unfolding same_page_def pte_of_def by (elim conjE) (simp only:)

lemma page_step:
  assumes "page_aligned x"
  shows "unat (x + of_nat i * 4096) div 4096 mod 2 ^ 36 = (unat x div 4096 + i) mod 2 ^ 36"
proof -
  obtain q where q: "unat x = q * 4096"
    using assms div_mult_mod_eq [of "unat x" 4096] by (auto simp: page_aligned_unat)
  have "x + of_nat i * 4096 = of_nat (q * 4096 + i * 4096)"
    by (simp flip: q)
  then have "unat (x + of_nat i * 4096) = (q * 4096 + i * 4096) mod 2 ^ 64"
    by (simp only: unat_of_nat) simp
  moreover have "q * 4096 + i * 4096 = 4096 * (q + i)" "(2::nat) ^ 64 = 4096 * 2 ^ 52" by simp_all
  ultimately have "unat (x + of_nat i * 4096) = 4096 * ((q + i) mod 2 ^ 52)"
    by (simp only: mod_mult_mult1)
  then have "unat (x + of_nat i * 4096) div 4096 = (q + i) mod 2 ^ 52" by simp
  moreover have "(q + i) mod 2 ^ 52 mod 2 ^ 36 = (q + i) mod 2 ^ 36"
    by (rule mod_mod_cancel) (rule le_imp_power_dvd, simp)
  ultimately show ?thesis by (simp only: q) simp
qed

lemma same_page_step:
  assumes "page_aligned x" "i < 2 ^ 36" "j < 2 ^ 36"
  shows "same_page (x + of_nat i * 4096) (x + of_nat j * 4096) \<longleftrightarrow> i = j"
proof
  assume "same_page (x + of_nat i * 4096) (x + of_nat j * 4096)"
  then have "(unat x div 4096 + i) mod 2 ^ 36 = (unat x div 4096 + j) mod 2 ^ 36"
    unfolding same_page_unat page_step [OF assms(1)] .
  then show "i = j" using assms(2,3) by (rule mod_offset_inj)
qed simp

subsection \<open>Pages that mapping takes\<close>

lemma alloc_table_count:
  assumes "pmm_inv (mmu_pmm s)" "pmm_nonnull (mmu_pmm s)" "alloc_table s = Some (n, s')"
  shows "pmm_pages_free (mmu_pmm s) \<le> Suc (pmm_pages_free (mmu_pmm s'))"
  using pmm_alloc_page_count(3) [OF assms(1,2)] assms(3)
  by (auto simp: alloc_table_def Let_def split: Option.bind_splits if_splits)

text \<open>A table on the way to \<open>va\<close> costs one page, and only where it is missing.\<close>

lemma next_alloc_count:
  assumes inv: "mmu_inv pgd s" and run: "next_alloc t i s = Some (r, s')"
  shows "pmm_pages_free (mmu_pmm s) \<le> Suc (pmm_pages_free (mmu_pmm s'))"
    and "rd s t i AND 1 \<noteq> 0 \<Longrightarrow> s' = s \<and> r = Some (rd s t i AND - 4096)"
proof -
  have pm: "pmm_inv (mmu_pmm s)" "pmm_nonnull (mmu_pmm s)" using inv by (simp_all add: mmu_inv_def)
  show v: "rd s t i AND 1 \<noteq> 0 \<Longrightarrow> s' = s \<and> r = Some (rd s t i AND - 4096)"
    using run next_alloc_valid [of s t i] by auto
  show "pmm_pages_free (mmu_pmm s) \<le> Suc (pmm_pages_free (mmu_pmm s'))"
  proof (cases "rd s t i AND 1 = 0")
    case True
    then obtain n u where "alloc_table s = Some (n, u)" "mmu_pmm s' = mmu_pmm u"
      using run by (auto simp: next_alloc_def PTE_VALID_def Let_def split: Option.bind_splits if_splits)
    with alloc_table_count [OF pm] show ?thesis by simp
  qed (use v in simp)
qed

lemma mmu_map_page_count:
  assumes inv: "mmu_inv pgd s" and run: "mmu_map_page pgd va pa attrs s = Some (r, s')"
  shows "pmm_pages_free (mmu_pmm s) \<le> pmm_pages_free (mmu_pmm s') + 3"
    and "tabat (mmu_mem s) pgd (va_path va) \<noteq> None \<Longrightarrow>
      r = 0 \<and> pmm_pages_free (mmu_pmm s') = pmm_pages_free (mmu_pmm s)"
    and "r = 0 \<Longrightarrow> tabat (mmu_mem s') pgd (va_path va) \<noteq> None"
proof -
  have p1: "is_path ([] @ [pgd_index va])" "tabat (mmu_mem s) pgd [] = Some pgd" by (simp_all add: is_path_def)
  from next_alloc_spec [OF inv p1] obtain r1 s1 where
    s1: "next_alloc pgd (pgd_index va) s = Some (r1, s1)" "mmu_inv pgd s1"
      "\<And>n. r1 = Some n \<Longrightarrow> tabat (mmu_mem s1) pgd [pgd_index va] = Some n" by auto
  note c1 = next_alloc_count [OF inv s1(1)]
  have "pmm_pages_free (mmu_pmm s) \<le> pmm_pages_free (mmu_pmm s') + 3 \<and>
    (tabat (mmu_mem s) pgd (va_path va) \<noteq> None \<longrightarrow>
      r = 0 \<and> pmm_pages_free (mmu_pmm s') = pmm_pages_free (mmu_pmm s))"
  proof (cases r1)
    case None
    with s1 run c1 show ?thesis by (auto simp: mmu_map_page_def va_path_def rd_def)
  next
    case (Some pud)
    have p2: "is_path ([pgd_index va] @ [pud_index va])" by (simp add: is_path_def)
    from next_alloc_spec [OF s1(2) p2 s1(3) [OF Some]] obtain r2 s2 where
      s2: "next_alloc pud (pud_index va) s1 = Some (r2, s2)" "mmu_inv pgd s2" by auto
    note c2 = next_alloc_count [OF s1(2) s2(1)]
    show ?thesis
    proof (cases r2)
      case None
      with s1 s2 run c1 c2 Some show ?thesis by (auto simp: mmu_map_page_def va_path_def rd_def)
    next
      case Some2: (Some pmd)
      obtain r3 s3 where s3: "next_alloc pmd (pmd_index va) s2 = Some (r3, s3)"
        using run s1(1) s2(1) Some Some2 by (auto simp: mmu_map_page_def split: Option.bind_splits)
      note c3 = next_alloc_count [OF s2(2) s3]
      from run s1(1) s2(1) s3 Some Some2 have
        "mmu_pmm s' = mmu_pmm s3" "r = (if r3 = None then -1 else 0)"
        by (auto simp: mmu_map_page_def Let_def split: option.splits)
      with s1 s2 c1 c2 c3 Some Some2 show ?thesis by (auto simp: va_path_def rd_def)
    qed
  qed
  then show "pmm_pages_free (mmu_pmm s) \<le> pmm_pages_free (mmu_pmm s') + 3"
    "tabat (mmu_mem s) pgd (va_path va) \<noteq> None \<Longrightarrow>
      r = 0 \<and> pmm_pages_free (mmu_pmm s') = pmm_pages_free (mmu_pmm s)" by blast+
  show "tabat (mmu_mem s') pgd (va_path va) \<noteq> None" if "r = 0"
    using mmu_map_page_spec [OF inv, of va pa attrs] run that
    by (auto simp: pte_of_def split: option.splits dest: spec [of _ va])
qed

text \<open>Pages of one 2 MiB block share their tables.\<close>

lemma va_path_block:
  assumes "page_aligned va" "(unat va div 4096 + i) div 512 = (unat va div 4096 + j) div 512"
  shows "va_path (va + of_nat i * 4096) = va_path (va + of_nat j * 4096)"
proof -
  let ?b = "\<lambda>v. unat v div 4096 mod 2 ^ 36 div 512"
  have b: "x mod 2 ^ 36 div 512 = x div 512 mod 2 ^ 27" for x :: nat
    using mod_mult2_eq [of x 512 "2 ^ 27"] by simp
  have i: "pmd_index v = unat v div 4096 div 512 mod 512" "pud_index v = unat v div 4096 div 512 div 512 mod 512"
    "pgd_index v = unat v div 4096 div 512 div 512 div 512 mod 512" for v
    by (simp_all add: pmd_index_def pud_index_def pgd_index_def unat_index div_mult2_eq [symmetric])
  have eq: "(2 ^ 27 :: nat) = 512 * (512 * 512)" by simp
  have "va_path v = va_path w" if "?b v = ?b w" for v w
    using that unfolding b eq mod_digits va_path_def i by simp
  moreover have "?b (va + of_nat i * 4096) = ?b (va + of_nat j * 4096)"
    unfolding page_step [OF assms(1)] b assms(2) ..
  ultimately show ?thesis by blast
qed

subsection \<open>Two address spaces\<close>

text \<open>Working on one set of tables leaves a disjoint one alone.\<close>

lemma grows_other:
  assumes inv: "mmu_inv pgd' s" and g: "grows pgd s s'" and inv': "pmm_inv (mmu_pmm s')" "pmm_nonnull (mmu_pmm s')"
    and disj: "tables (mmu_mem s) pgd \<inter> tables (mmu_mem s) pgd' = {}"
  shows "mmu_inv pgd' s'" "pte_of (mmu_mem s') pgd' va = pte_of (mmu_mem s) pgd' va"
    "tables (mmu_mem s') pgd' = tables (mmu_mem s) pgd'"
    "tables (mmu_mem s') pgd \<inter> tables (mmu_mem s') pgd' = {}"
proof -
  have wf: "pt_wf (pmm_live (mmu_pmm s)) (mmu_mem s) pgd'" using inv by (simp add: mmu_inv_def)
  have word: "mmu_mem s' (slot a j) = mmu_mem s (slot a j)"
    if "is_path p" "tabat (mmu_mem s) pgd' p = Some a" "j < 512" for p a j
  proof -
    have "a \<in> tables (mmu_mem s) pgd'" "page_aligned a" "a \<in> pmm_live (mmu_pmm s)"
      using that pt_wf_D(1) [OF wf that(1,2)] by (auto simp: tables_def)
    moreover from this(1) disj have "a \<notin> tables (mmu_mem s) pgd" by blast
    ultimately show ?thesis using g that(3) by (simp add: grows_def)
  qed
  have tab: "tabat (mmu_mem s') pgd' r = tabat (mmu_mem s) pgd' r" if "is_path r" for r
    by (rule tabat_frame, rule word) (use that in \<open>auto simp: is_path_def\<close>)
  show t: "tables (mmu_mem s') pgd' = tables (mmu_mem s) pgd'" by (simp add: tables_def tab cong: conj_cong)
  have "pmm_live (mmu_pmm s) \<subseteq> pmm_live (mmu_pmm s')" using g by (simp add: grows_def)
  then have "pt_wf (pmm_live (mmu_pmm s')) (mmu_mem s') pgd'"
    using wf unfolding pt_wf_def by (auto simp: tab cong: conj_cong)
  then show "mmu_inv pgd' s'" using inv' by (simp add: mmu_inv_def)
  show "pte_of (mmu_mem s') pgd' va = pte_of (mmu_mem s) pgd' va"
    using word [OF is_path_va _ index_lt(4)] by (auto simp: pte_of_def tab split: option.splits)
  have "tables (mmu_mem s) pgd' \<subseteq> pmm_live (mmu_pmm s)" using pt_wf_D(1) [OF wf] by (auto simp: tables_def)
  then show "tables (mmu_mem s') pgd \<inter> tables (mmu_mem s') pgd' = {}"
    using g disj unfolding t grows_def by blast
qed

end
