(* ===== verification/Mmu_Init.thy ===== *)
theory Mmu_Init
  imports Mmu
begin

text \<open>
  The address loops of \<open>src/mm/mmu.c\<close> and \<open>src/mm/tlb.c\<close>: mapping a run of pages, building the
  boot-time address spaces in \<open>mmu_init\<close>, and TLB and cache maintenance over a range.
\<close>

section \<open>Definitions\<close>

definition pte :: "u64 \<Rightarrow> u64 \<Rightarrow> u64" where
  "pte pa attrs = (pa AND - 4096) OR attrs OR PTE_AF OR PTE_VALID"

text \<open>
  \<open>run_mapped pgd va pa attrs s j s'\<close>: from \<open>s\<close> to \<open>s'\<close>, the \<open>j\<close> pages from \<open>va\<close> on have been mapped to
  those from \<open>pa\<close> on, and no other translation has changed.
\<close>

definition run_mapped :: "u64 \<Rightarrow> u64 \<Rightarrow> u64 \<Rightarrow> u64 \<Rightarrow> mmu_state \<Rightarrow> nat \<Rightarrow> mmu_state \<Rightarrow> bool" where
  "run_mapped pgd va pa attrs s j s' \<longleftrightarrow> mmu_inv pgd s' \<and> grows pgd s s' \<and>
     (\<forall>i<j. pte_of (mmu_mem s') pgd (va + of_nat i * 4096) = Some (pte (pa + of_nat i * 4096) attrs)) \<and>
     (\<forall>vb. (\<forall>i<j. \<not> same_page (va + of_nat i * 4096) vb) \<longrightarrow>
        pte_of (mmu_mem s') pgd vb = pte_of (mmu_mem s) pgd vb)"

text \<open>
  The number of 2 MiB blocks that the \<open>k\<close> pages from \<open>va\<close> on touch. Pages of one block share all their
  tables, so mapping the run takes at most three pages of memory for each block.
\<close>

fun blocks :: "u64 \<Rightarrow> nat \<Rightarrow> nat" where
  "blocks va 0 = 0"
| "blocks va (Suc j) = Suc ((unat va div 4096 mod 512 + j) div 512)"

text \<open>The page a translated address lies in.\<close>

definition page_no :: "u64 \<Rightarrow> nat" where
  "page_no va = unat va div 4096 mod 2 ^ 36"

text \<open>
  The attributes of the boot mappings; an address space that holds higher-half mappings only; and
  one in which all pages of \<open>[lo, hi)\<close> are mapped to the higher half.
\<close>

definition boot_attrs :: u64 where
  "boot_attrs = PTE_PAGE OR PTE_SH_INNER OR PTE_ATTR_IDX (of_nat MAIR_IDX_NORMAL)"

definition high_only :: "u64 \<Rightarrow> mmu_state \<Rightarrow> bool" where
  "high_only pgd s \<longleftrightarrow> (\<forall>va e. pte_of (mmu_mem s) pgd va = Some e \<longrightarrow>
     (\<exists>pa. same_page (vmm_kernel_base + pa) va \<and> e = pte pa boot_attrs))"

definition image_mapped :: "u64 \<Rightarrow> mmu_state \<Rightarrow> u64 \<Rightarrow> u64 \<Rightarrow> bool" where
  "image_mapped pgd s lo hi \<longleftrightarrow> (\<forall>pa. page_aligned pa \<and> lo \<le> pa \<and> pa < hi \<longrightarrow>
     pte_of (mmu_mem s) pgd (vmm_kernel_base + pa) = Some (pte pa boot_attrs))"

text \<open>
  The two address spaces at boot: separate well-formed tables, the identity map of the first \<open>n\<close>
  pages (all 524288 pages of the first 2 GiB, unless memory ran out) and nothing but higher-half
  mappings in the kernel's table.
\<close>

definition boot_inv :: "nat \<Rightarrow> mmu_state \<Rightarrow> bool" where
  "boot_inv n s \<longleftrightarrow> mmu_inv (ttbr0_pgd s) s \<and> mmu_inv (ttbr1_pgd s) s \<and> ttbr1_pgd s \<noteq> 0 \<and>
     tables (mmu_mem s) (ttbr0_pgd s) \<inter> tables (mmu_mem s) (ttbr1_pgd s) = {} \<and>
     n \<le> 524288 \<and> (n = 524288 \<or> pmm_pages_free (mmu_pmm s) = 0) \<and>
     (\<forall>va. pte_of (mmu_mem s) (ttbr0_pgd s) va =
        (if page_no va < n then Some (pte (of_nat (page_no va) * 4096) boot_attrs) else None)) \<and>
     high_only (ttbr1_pgd s) s"

text \<open>Symbol addresses that make sense: below 2 ^ 48 and in order.\<close>

definition syms_ok :: "link_syms \<Rightarrow> bool" where
  "syms_ok ld \<longleftrightarrow> kernel_start ld \<le> kernel_end ld \<and> unat (kernel_end ld) + 4095 < 2 ^ 48 \<and>
     stack_bottom ld \<le> stack_top ld \<and> unat (stack_top ld) + 4095 < 2 ^ 48"

text \<open>
  The pages that \<open>mmu_init\<close> needs at most: the two root tables, the tables of the identity map of 2 GiB and
  those of the higher-half mappings of the image and of the stack.
\<close>

definition range_blocks :: "u64 \<Rightarrow> u64 \<Rightarrow> nat" where
  "range_blocks a b = blocks (vmm_kernel_base + (a AND - 4096))
     ((unat ((b + 4095) AND - 4096) - unat (a AND - 4096)) div 4096)"

definition boot_pages :: "link_syms \<Rightarrow> nat" where
  "boot_pages ld = 2 + 3 * 1024 + 3 * range_blocks (kernel_start ld) (kernel_end ld) +
     3 * range_blocks (stack_bottom ld) (stack_top ld)"

text \<open>
  A sample state: 32 MiB of memory, of which the first four pages are the tables of an address space
  that maps page 0 to physical page 5, execute-never.
\<close>

definition mmu_demo :: mmu_state where
  "mmu_demo = \<lparr>
     mmu_pmm = \<lparr>pmm_bitmap = (\<lambda>_. 0)(0 := 15), pmm_mem_base = 0x40000000, pmm_mem_size = 0x2000000,
       pmm_pages_total = 8192, pmm_pages_free = 8188\<rparr>,
     mmu_mem = (\<lambda>_. 0)(slot 0x40000000 0 := 0x40001003, slot 0x40001000 0 := 0x40002003,
       slot 0x40002000 0 := 0x40003003, slot 0x40003000 0 := 0x40000000005403),
     ttbr0_pgd = 0x40000000, ttbr1_pgd = 0, mair_el1 = 0, tcr_el1 = 0, ttbr0_el1 = 0, ttbr1_el1 = 0,
     sctlr_el1 = 0, hw = []\<rparr>"

section \<open>Lemmas\<close>

lemma run_mapped_0: "mmu_inv pgd s \<Longrightarrow> run_mapped pgd va pa attrs s 0 s"
  by (simp add: run_mapped_def)

lemma blocks_mono: "i \<le> j \<Longrightarrow> blocks va i \<le> blocks va j"
  by (cases i; cases j) (auto intro: div_le_mono)

lemma blocks_bound: "blocks va k \<le> k div 512 + 2"
proof (cases k)
  case (Suc j)
  have "(unat va div 4096 mod 512 + j) div 512 \<le> (512 + j) div 512" by (intro div_le_mono) simp
  moreover have "j div 512 \<le> k div 512" unfolding Suc by (intro div_le_mono) simp
  ultimately show ?thesis unfolding Suc blocks.simps by simp
qed simp

lemma run_mapped_step:
  assumes al: "page_aligned va" and j: "j < 2 ^ 36" and run: "run_mapped pgd va pa attrs s j s1"
  shows "\<exists>r s2. mmu_map_page pgd (va + of_nat j * 4096) (pa + of_nat j * 4096) attrs s1 = Some (r, s2) \<and>
    (r = -1 \<and> pmm_pages_free (mmu_pmm s2) = 0 \<and> run_mapped pgd va pa attrs s j s2 \<or> r = 0 \<and> run_mapped pgd va pa attrs s (Suc j) s2) \<and>
    pmm_pages_free (mmu_pmm s1) + 3 * blocks va j \<le> pmm_pages_free (mmu_pmm s2) + 3 * blocks va (Suc j)"
proof -
  let ?va = "va + of_nat j * 4096" and ?pa = "pa + of_nat j * 4096"
  have inv: "mmu_inv pgd s1" and g: "grows pgd s s1" using run by (simp_all add: run_mapped_def)
  from mmu_map_page_spec [OF inv, of ?va ?pa attrs] obtain r s2 where
    m: "mmu_map_page pgd ?va ?pa attrs s1 = Some (r, s2)" "mmu_inv pgd s2" "grows pgd s1 s2"
    and res: "r = -1 \<and> pmm_pages_free (mmu_pmm s2) = 0 \<and> (\<forall>vb. pte_of (mmu_mem s2) pgd vb = pte_of (mmu_mem s1) pgd vb) \<or>
      r = 0 \<and> (\<forall>vb. pte_of (mmu_mem s2) pgd vb =
        (if same_page ?va vb then Some (pte ?pa attrs) else pte_of (mmu_mem s1) pgd vb))"
    unfolding pte_def by blast
  note g2 = grows_trans [OF g m(3)]
  have other: "\<not> same_page ?va (va + of_nat i * 4096)" if "i < j" for i
    using same_page_step [OF al j, of i] that j by simp
  from res have "r = -1 \<and> pmm_pages_free (mmu_pmm s2) = 0 \<and> run_mapped pgd va pa attrs s j s2 \<or> r = 0 \<and> run_mapped pgd va pa attrs s (Suc j) s2"
    using run m(2) g2 other unfolding run_mapped_def by (auto simp: less_Suc_eq)
  moreover have "pmm_pages_free (mmu_pmm s1) + 3 * blocks va j \<le> pmm_pages_free (mmu_pmm s2) + 3 * blocks va (Suc j)"
  proof (cases "blocks va (Suc j) = blocks va j")
    case True
    then obtain i where i: "j = Suc i" by (cases j) auto
    have split: "(x + y) div 512 = x div 512 + (x mod 512 + y) div 512" for x y :: nat
    proof -
      have "x + y = x mod 512 + y + x div 512 * 512" by simp
      then have "(x + y) div 512 = (x mod 512 + y + x div 512 * 512) div 512" by (rule arg_cong)
      also have "\<dots> = x div 512 + (x mod 512 + y) div 512" by (rule div_mult_self1) simp
      finally show ?thesis .
    qed
    from True have "(unat va div 4096 mod 512 + j) div 512 = (unat va div 4096 mod 512 + i) div 512"
      unfolding i blocks.simps by (rule Suc_inject)
    then have "va_path (va + of_nat i * 4096) = va_path ?va"
      by (intro va_path_block [OF al]) (simp only: split [of "unat va div 4096"])
    moreover have "pte_of (mmu_mem s1) pgd (va + of_nat i * 4096) \<noteq> None"
      using run unfolding run_mapped_def i by blast
    ultimately have "tabat (mmu_mem s1) pgd (va_path ?va) \<noteq> None"
      by (auto simp: pte_of_def split: option.splits)
    with mmu_map_page_count(2) [OF inv m(1)] True show ?thesis by simp
  next
    case False
    with blocks_mono [of j "Suc j" va] have "blocks va j + 1 \<le> blocks va (Suc j)" by simp
    with mmu_map_page_count(1) [OF inv m(1)] show ?thesis by linarith
  qed
  ultimately show ?thesis using m(1) by blast
qed

text \<open>A loop that maps page after page and stops at the first failure.\<close>

lemma map_loop_spec:
  assumes inv: "mmu_inv pgd s" and al: "page_aligned va" and k: "k \<le> 2 ^ 36"
    and body: "\<And>i t. i < k \<Longrightarrow> regs t = regs s \<Longrightarrow> f i t = Option.bind (mmu_map_page pgd (va + of_nat i * 4096) (pa + of_nat i * 4096) attrs t)
      (\<lambda>(r, t). Some (if r < 0 then Inl t else Inr t))"
  shows "(\<exists>s'. for_ret 0 k f s = Some (Inl s') \<and> pmm_pages_free (mmu_pmm s') = 0 \<and> (\<exists>j<k. run_mapped pgd va pa attrs s j s') \<and>
      pmm_pages_free (mmu_pmm s) \<le> 3 * blocks va k) \<or>
    (\<exists>s'. for_ret 0 k f s = Some (Inr s') \<and> run_mapped pgd va pa attrs s k s' \<and>
      pmm_pages_free (mmu_pmm s) \<le> pmm_pages_free (mmu_pmm s') + 3 * blocks va k)"
proof (rule for_ret_inv [where P = "\<lambda>j t. run_mapped pgd va pa attrs s j t \<and>
    pmm_pages_free (mmu_pmm s) \<le> pmm_pages_free (mmu_pmm t) + 3 * blocks va j"], goal_cases)
  case (3 j t)
  then have run: "run_mapped pgd va pa attrs s j t" and j: "j < 2 ^ 36" "j < k" using k by simp_all
  from run_mapped_step [OF al j(1) run] obtain r t' where
    m: "mmu_map_page pgd (va + of_nat j * 4096) (pa + of_nat j * 4096) attrs t = Some (r, t')"
    "r = -1 \<and> pmm_pages_free (mmu_pmm t') = 0 \<and> run_mapped pgd va pa attrs s j t' \<or> r = 0 \<and> run_mapped pgd va pa attrs s (Suc j) t'"
    "pmm_pages_free (mmu_pmm t) + 3 * blocks va j \<le> pmm_pages_free (mmu_pmm t') + 3 * blocks va (Suc j)" by blast
  have "blocks va (Suc j) \<le> blocks va k" using j(2) by (intro blocks_mono) simp
  moreover have "regs t = regs s" using run by (simp add: run_mapped_def grows_def)
  ultimately show ?case using m j 3 by (auto simp: body simp del: blocks.simps)
qed (use run_mapped_0 [OF inv] in auto)

lemma map_pages_spec:
  assumes inv: "mmu_inv pgd s" and al: "page_aligned lo" "page_aligned hi" "lo \<le> hi" "page_aligned (base + lo)"
    and k: "k = (unat hi - unat lo) div 4096" "k \<le> 2 ^ 36"
  shows "(\<exists>s'. map_pages pgd base lo hi attrs s = Some (Inl s') \<and> pmm_pages_free (mmu_pmm s') = 0 \<and> (\<exists>j<k. run_mapped pgd (base + lo) lo attrs s j s') \<and>
      pmm_pages_free (mmu_pmm s) \<le> 3 * blocks (base + lo) k) \<or>
    (\<exists>s'. map_pages pgd base lo hi attrs s = Some (Inr s') \<and> run_mapped pgd (base + lo) lo attrs s k s' \<and>
      pmm_pages_free (mmu_pmm s) \<le> pmm_pages_free (mmu_pmm s') + 3 * blocks (base + lo) k)"
  unfolding map_pages_def page_size while_ret_u64_pages [OF al(1-3) k(1)]
  by (rule map_loop_spec [OF inv al(4) k(2)]) (simp add: add.assoc)

subsection \<open>The boot-time address spaces\<close>

lemma mmu_inv_ttbr [simp]:
  "mmu_inv pgd (s\<lparr>ttbr0_pgd := p\<rparr>) = mmu_inv pgd s" "mmu_inv pgd (s\<lparr>ttbr1_pgd := p\<rparr>) = mmu_inv pgd s"
  by (simp_all add: mmu_inv_def)

lemma zero_table:
  assumes "page_aligned n" "n \<in> L" "\<And>j. j < 512 \<Longrightarrow> m (slot n j) = 0"
  shows "pt_wf L m n" "tables m n = {n}" "pte_of m n va = None"
proof -
  have tab: "tabat m n p = (if p = [] then Some n else None)" if "is_path p" for p
    using that assms(3) by (cases p) (auto simp: is_path_def)
  moreover have "is_path []" by (simp add: is_path_def)
  ultimately show "tables m n = {n}" unfolding tables_def by (auto split: if_splits intro!: exI [of _ "[]"])
  show "pt_wf L m n" using tab assms(1,2) by (auto simp: pt_wf_def split: if_splits)
  show "pte_of m n va = None" using tab [OF is_path_va, of va] by (simp add: pte_of_def va_path_def)
qed

lemma alloc_table_ttbr0: "alloc_table s = Some (p, s') \<Longrightarrow> ttbr0_pgd s' = ttbr0_pgd s"
  by (auto simp: alloc_table_def Let_def split: Option.bind_splits if_splits)

text \<open>Allocating the two level-0 tables.\<close>

lemma two_tables:
  assumes inv: "pmm_inv (mmu_pmm s)" "pmm_nonnull (mmu_pmm s)"
    and a: "alloc_table s = Some (p0, s0)" "alloc_table (s0\<lparr>ttbr0_pgd := p0\<rparr>) = Some (p1, s1)" "p0 \<noteq> 0" "p1 \<noteq> 0"
  shows "mmu_inv p0 s1" "mmu_inv p1 s1" "tables (mmu_mem s1) p0 \<inter> tables (mmu_mem s1) p1 = {}"
    "pte_of (mmu_mem s1) p0 va = None" "pte_of (mmu_mem s1) p1 va = None" "ttbr0_pgd s1 = p0"
proof -
  from alloc_table_spec [OF inv] a(1,3) have
    s0: "pmm_inv (mmu_pmm s0)" "pmm_nonnull (mmu_pmm s0)" "page_aligned p0"
      "pmm_live (mmu_pmm s0) = insert p0 (pmm_live (mmu_pmm s))"
      "s0 = s\<lparr>mmu_pmm := mmu_pmm s0, mmu_mem := zero_page p0 (mmu_mem s)\<rparr>" by auto
  from alloc_table_spec [of "s0\<lparr>ttbr0_pgd := p0\<rparr>"] s0(1,2) a(2,4) have
    s1: "pmm_inv (mmu_pmm s1)" "pmm_nonnull (mmu_pmm s1)" "page_aligned p1" "p1 \<notin> pmm_live (mmu_pmm s0)"
      "pmm_live (mmu_pmm s1) = insert p1 (pmm_live (mmu_pmm s0))"
      "s1 = s0\<lparr>ttbr0_pgd := p0, mmu_pmm := mmu_pmm s1, mmu_mem := zero_page p1 (mmu_mem s0)\<rparr>" by auto
  have ne: "p1 \<noteq> p0" using s1(4) s0(4) by auto
  have m0: "mmu_mem s0 = zero_page p0 (mmu_mem s)" by (subst s0(5)) simp
  have m1: "mmu_mem s1 = zero_page p1 (mmu_mem s0)" by (subst s1(6)) simp
  have z: "mmu_mem s1 (slot p0 j) = 0" "mmu_mem s1 (slot p1 j) = 0" if "j < 512" for j
    using that s0(3) s1(3) ne by (auto simp: m0 m1 zero_page_slot)
  note t0 = zero_table [of p0 "pmm_live (mmu_pmm s1)" "mmu_mem s1", OF s0(3) _ z(1)]
  note t1 = zero_table [of p1 "pmm_live (mmu_pmm s1)" "mmu_mem s1", OF s1(3) _ z(2)]
  show "mmu_inv p0 s1" "mmu_inv p1 s1" using s1(1,2) t0(1) t1(1) s1(5) s0(4) by (simp_all add: mmu_inv_def)
  show "tables (mmu_mem s1) p0 \<inter> tables (mmu_mem s1) p1 = {}"
    using t0(2) t1(2) s1(5) s0(4) ne by simp
  show "pte_of (mmu_mem s1) p0 va = None" "pte_of (mmu_mem s1) p1 va = None"
    using t0(3) t1(3) s1(5) s0(4) by simp_all
  show "ttbr0_pgd s1 = p0" by (subst s1(6)) simp
qed

text \<open>The identity map: from an empty table, the first \<open>n\<close> pages and nothing else.\<close>

lemma run_mapped_identity:
  assumes run: "run_mapped pgd 0 0 attrs s n s'" and n: "n \<le> 2 ^ 36"
    and empty: "\<And>va. pte_of (mmu_mem s) pgd va = None"
  shows "pte_of (mmu_mem s') pgd va =
    (if page_no va < n then Some (pte (of_nat (page_no va) * 4096) attrs) else None)"
proof -
  have pg: "page_no va < 2 ^ 36" by (simp add: page_no_def)
  have same: "same_page (0 + of_nat i * 4096) va \<longleftrightarrow> i = page_no va" if "i < 2 ^ 36" for i
  proof -
    have "page_aligned 0" by (simp add: page_aligned_def)
    then have "unat (0 + of_nat i * 4096 :: u64) div 4096 mod 2 ^ 36 = (0 + i) mod 2 ^ 36"
      using page_step [of 0 i] by (simp only: unat_0 div_0)
    then show ?thesis unfolding same_page_unat page_no_def using that by (simp only: add_0 mod_less)
  qed
  show ?thesis
  proof (cases "page_no va < n")
    case True
    then have "pte_of (mmu_mem s') pgd (0 + of_nat (page_no va) * 4096) = Some (pte (0 + of_nat (page_no va) * 4096) attrs)"
      using run unfolding run_mapped_def by blast
    moreover have "same_page (0 + of_nat (page_no va) * 4096) va" using same [OF pg] by simp
    ultimately show ?thesis using True pte_of_same_page [of "0 + of_nat (page_no va) * 4096" va] by simp
  next
    case False
    then have "\<not> same_page (0 + of_nat i * 4096) va" if "i < n" for i
      using same [of i] that n by auto
    then have "pte_of (mmu_mem s') pgd va = pte_of (mmu_mem s) pgd va"
      using run unfolding run_mapped_def by blast
    with False empty show ?thesis by simp
  qed
qed

text \<open>Whatever a run of mappings adds lies in the run.\<close>

lemma run_mapped_sound:
  assumes run: "run_mapped pgd va pa attrs s n s'" and e: "pte_of (mmu_mem s') pgd vb = Some e"
  shows "pte_of (mmu_mem s) pgd vb = Some e \<or>
    (\<exists>i<n. same_page (va + of_nat i * 4096) vb \<and> e = pte (pa + of_nat i * 4096) attrs)"
proof (cases "\<exists>i<n. same_page (va + of_nat i * 4096) vb")
  case True
  then obtain i where i: "i < n" "same_page (va + of_nat i * 4096) vb" by blast
  with run have "pte_of (mmu_mem s') pgd (va + of_nat i * 4096) = Some (pte (pa + of_nat i * 4096) attrs)"
    unfolding run_mapped_def by blast
  with i e pte_of_same_page [OF i(2)] show ?thesis by (metis option.inject)
next
  case False
  with run e show ?thesis unfolding run_mapped_def by metis
qed

lemma page_aligned_add: "page_aligned a \<Longrightarrow> page_aligned b \<Longrightarrow> page_aligned (a + b)"
proof -
  assume "page_aligned a" "page_aligned b"
  then have "(unat a + unat b) mod 4096 = 0" by (simp add: page_aligned_unat aligned_add)
  moreover have "(unat a + unat b) mod 2 ^ 64 mod 4096 = (unat a + unat b) mod 4096"
    by (rule mod_mod_cancel) simp
  ultimately show ?thesis by (simp add: page_aligned_unat unat_word_ariths)
qed

lemma aligned_as_pages: "page_aligned x \<Longrightarrow> x = of_nat (unat x div 4096) * 4096"
proof -
  assume "page_aligned x"
  then have "unat x div 4096 * 4096 = unat x"
    using div_mult_mod_eq [of "unat x" 4096] by (simp add: page_aligned_unat)
  then have "of_nat (unat x div 4096 * 4096) = x" by simp
  then show ?thesis by simp
qed

lemma same_page_offset:
  assumes "page_aligned b" "page_aligned x" "page_aligned y" "unat x < 2 ^ 48" "unat y < 2 ^ 48"
    "same_page (b + x) (b + y)"
  shows "x = y"
proof -
  have lt: "unat z div 4096 < 2 ^ 36" if "unat z < 2 ^ 48" for z :: u64
    using that by (simp add: less_mult_imp_div_less)
  have "same_page (b + of_nat (unat x div 4096) * 4096) (b + of_nat (unat y div 4096) * 4096)"
    using assms(6) by (simp only: aligned_as_pages [OF assms(2), symmetric] aligned_as_pages [OF assms(3), symmetric])
  then have "unat x div 4096 = unat y div 4096"
    using same_page_step [OF assms(1) lt [OF assms(4)] lt [OF assms(5)]] by simp
  then show ?thesis using aligned_as_pages [OF assms(2)] aligned_as_pages [OF assms(3)] by metis
qed

lemma sym_range:
  assumes "unat a \<le> unat (b::u64)" "unat b + 4095 < 2 ^ 48"
  shows "page_aligned (a AND - 4096)" "page_aligned ((b + 4095) AND - 4096)"
    "a AND - 4096 \<le> (b + 4095) AND - 4096"
    "(unat ((b + 4095) AND - 4096) - unat (a AND - 4096)) div 4096 \<le> 2 ^ 36"
    "unat ((b + 4095) AND - 4096) < 2 ^ 48"
proof -
  show "page_aligned (a AND - 4096)" "page_aligned ((b + 4095) AND - 4096)" by simp_all
  have hi: "unat ((b + 4095) AND - 4096) = unat b + 4095 - (unat b + 4095) mod 4096"
    using unat_align_up [of b] assms(2) by simp
  have lo: "unat (a AND - 4096) = unat a - unat a mod 4096"
    using unat_and_not_4095 [of a] by simp
  have "unat b \<le> unat b + 4095 - (unat b + 4095) mod 4096"
    using mod_less_divisor [of 4096 "unat b + 4095"] by linarith
  then show "a AND - 4096 \<le> (b + 4095) AND - 4096"
    unfolding word_le_nat_alt lo hi using assms(1) by linarith
  show lt: "unat ((b + 4095) AND - 4096) < 2 ^ 48" unfolding hi using assms(2) by linarith
  then have "unat ((b + 4095) AND - 4096) - unat (a AND - 4096) < 2 ^ 36 * 4096" by simp
  then show "(unat ((b + 4095) AND - 4096) - unat (a AND - 4096)) div 4096 \<le> 2 ^ 36"
    by (simp add: less_mult_imp_div_less less_imp_le)
qed

lemma base_aligned [simp]: "page_aligned vmm_kernel_base"
  by (simp add: vmm_kernel_base_def VMM_KERNEL_VIRT_BASE_def page_aligned_def)

lemma map_syms:
  assumes inv: "mmu_inv pgd s" and ab: "unat a \<le> unat b" "unat b + 4095 < 2 ^ 48"
    and lo: "lo = a AND - 4096" and hi: "hi = (b + 4095) AND - 4096"
  shows "\<exists>s'. ((map_pages pgd vmm_kernel_base lo hi attrs s = Some (Inl s') \<and> pmm_pages_free (mmu_pmm s') = 0 \<and>
       (\<exists>j. run_mapped pgd (vmm_kernel_base + lo) lo attrs s j s')) \<or>
    (map_pages pgd vmm_kernel_base lo hi attrs s = Some (Inr s') \<and>
       run_mapped pgd (vmm_kernel_base + lo) lo attrs s ((unat hi - unat lo) div 4096) s')) \<and>
    pmm_pages_free (mmu_pmm s) \<le> pmm_pages_free (mmu_pmm s') + 3 * range_blocks a b"
proof -
  note r = sym_range [OF ab]
  have "page_aligned (vmm_kernel_base + lo)" by (rule page_aligned_add) (use r lo in simp_all)
  from map_pages_spec [OF inv r(1,2,3) this [unfolded lo] refl r(4), of attrs] show ?thesis
    unfolding lo hi range_blocks_def by fastforce
qed

lemma high_only_run:
  assumes "high_only pgd s" "run_mapped pgd (vmm_kernel_base + lo) lo boot_attrs s j s'"
  shows "high_only pgd s'"
  using assms(1) run_mapped_sound [OF assms(2)] unfolding high_only_def by (metis add.assoc)

text \<open>A second run keeps what a first one mapped, since both map the same way.\<close>

lemma image_mapped_keep:
  assumes im: "image_mapped pgd s lo hi" and run: "run_mapped pgd (vmm_kernel_base + lo') lo' boot_attrs s k s'"
    and al: "page_aligned lo" "page_aligned hi" "lo \<le> hi" "unat hi < 2 ^ 48"
    and al': "page_aligned lo'" "unat lo' + k * 4096 < 2 ^ 48"
  shows "image_mapped pgd s' lo hi"
  unfolding image_mapped_def
proof (intro allI impI, elim conjE)
  fix pa assume pa: "page_aligned pa" "lo \<le> pa" "pa < hi"
  then have old: "pte_of (mmu_mem s) pgd (vmm_kernel_base + pa) = Some (pte pa boot_attrs)"
    using im by (simp add: image_mapped_def)
  have pa48: "unat pa < 2 ^ 48" using pa(3) al(4) by (simp add: word_less_nat_alt)
  show "pte_of (mmu_mem s') pgd (vmm_kernel_base + pa) = Some (pte pa boot_attrs)"
  proof (cases "\<exists>i<k. same_page (vmm_kernel_base + lo' + of_nat i * 4096) (vmm_kernel_base + pa)")
    case True
    then obtain i where i: "i < k" "same_page (vmm_kernel_base + lo' + of_nat i * 4096) (vmm_kernel_base + pa)" by blast
    have u: "unat (lo' + of_nat i * 4096) = unat lo' + i * 4096"
      using unat_step [of lo' k 4096 i] al'(2) i(1) by simp
    have "i * 4096 < k * 4096" using i(1) by simp
    then have "unat (lo' + of_nat i * 4096) < 2 ^ 48" unfolding u using al'(2) by linarith
    moreover have "page_aligned (lo' + of_nat i * 4096)"
      using al'(1) u by (simp add: page_aligned_unat)
    ultimately have "lo' + of_nat i * 4096 = pa"
      using same_page_offset [OF base_aligned _ pa(1) _ pa48] i(2) by (simp add: add.assoc)
    moreover have "pte_of (mmu_mem s') pgd (vmm_kernel_base + lo' + of_nat i * 4096)
        = Some (pte (lo' + of_nat i * 4096) boot_attrs)"
      using run i(1) unfolding run_mapped_def by blast
    ultimately show ?thesis unfolding add.assoc by simp
  next
    case False
    with run old show ?thesis unfolding run_mapped_def by metis
  qed
qed

lemma run_mapped_image:
  assumes run: "run_mapped pgd (vmm_kernel_base + lo) lo boot_attrs s ((unat hi - unat lo) div 4096) s'"
    and al: "page_aligned lo" "page_aligned hi"
  shows "image_mapped pgd s' lo hi"
  unfolding image_mapped_def
proof (intro allI impI, elim conjE)
  fix pa assume pa: "page_aligned pa" "lo \<le> pa" "pa < hi"
  define i where "i = unat (pa - lo) div 4096"
  have d: "unat (pa - lo) = unat pa - unat lo" using pa(2) by (simp add: unat_sub word_le_nat_alt)
  have "unat x = unat x div 4096 * 4096" if "page_aligned x" for x
    using that div_mult_mod_eq [of "unat x" 4096] by (simp add: page_aligned_unat)
  then obtain p l h where q: "unat pa = p * 4096" "unat lo = l * 4096" "unat hi = h * 4096"
    using pa(1) al by blast
  have lt: "l \<le> p" "p < h" using pa(2,3) q by (simp_all add: word_le_nat_alt word_less_nat_alt)
  have i: "i = p - l" unfolding i_def d q by (simp flip: diff_mult_distrib)
  have k: "(unat hi - unat lo) div 4096 = h - l" unfolding q by (simp flip: diff_mult_distrib)
  have "page_aligned (pa - lo)" using lt by (simp add: page_aligned_unat d q flip: diff_mult_distrib)
  from aligned_as_pages [OF this] have eq: "lo + of_nat i * 4096 = pa" unfolding i_def by simp
  have "i < (unat hi - unat lo) div 4096" unfolding i k using lt by simp
  then have "pte_of (mmu_mem s') pgd (vmm_kernel_base + lo + of_nat i * 4096) = Some (pte (lo + of_nat i * 4096) boot_attrs)"
    using run unfolding run_mapped_def by blast
  then show "pte_of (mmu_mem s') pgd (vmm_kernel_base + pa) = Some (pte pa boot_attrs)"
    unfolding add.assoc eq .
qed

lemma boot_inv_run:
  assumes inv: "boot_inv n s" and run: "run_mapped (ttbr1_pgd s) (vmm_kernel_base + lo) lo boot_attrs s j s'"
  shows "boot_inv n s'" "ttbr1_pgd s' = ttbr1_pgd s" "pmm_pages_total (mmu_pmm s') = pmm_pages_total (mmu_pmm s)"
proof -
  let ?p0 = "ttbr0_pgd s" and ?p1 = "ttbr1_pgd s"
  have r: "mmu_inv ?p1 s'" "grows ?p1 s s'" using run by (simp_all add: run_mapped_def)
  then have same: "ttbr0_pgd s' = ?p0" "ttbr1_pgd s' = ?p1" by (simp_all add: grows_def regs_def)
  have i: "mmu_inv ?p0 s" "tables (mmu_mem s) ?p1 \<inter> tables (mmu_mem s) ?p0 = {}"
    using inv by (auto simp: boot_inv_def)
  note o = grows_other [OF i(1) r(2) _ _ i(2)]
  have pm: "pmm_inv (mmu_pmm s')" "pmm_nonnull (mmu_pmm s')" using r(1) by (simp_all add: mmu_inv_def)
  have le: "pmm_pages_free (mmu_pmm s') \<le> pmm_pages_free (mmu_pmm s)" using r(2) by (simp add: grows_def)
  show "pmm_pages_total (mmu_pmm s') = pmm_pages_total (mmu_pmm s)" using r(2) by (simp add: grows_def regs_def)
  show "boot_inv n s'" "ttbr1_pgd s' = ?p1"
    using inv r(1) o [OF pm] high_only_run [OF _ run] le same by (auto simp: boot_inv_def)
qed

lemma mmu_init_identity:
  assumes inv: "mmu_inv p0 s" "mmu_inv p1 s" "tables (mmu_mem s) p0 \<inter> tables (mmu_mem s) p1 = {}"
    and empty: "\<And>va. pte_of (mmu_mem s) p0 va = None" "\<And>va. pte_of (mmu_mem s) p1 va = None"
    and regs: "ttbr0_pgd s = p0" "ttbr1_pgd s = p1" "p1 \<noteq> 0"
  shows "\<exists>r s' n. map_pages p0 0 0 0x80000000 boot_attrs s = Some r \<and>
    (case r of Inl s \<Rightarrow> s | Inr s \<Rightarrow> s) = s' \<and> boot_inv n s' \<and> ttbr1_pgd s' = p1 \<and>
    pmm_pages_total (mmu_pmm s') = pmm_pages_total (mmu_pmm s) \<and>
    pmm_pages_free (mmu_pmm s) \<le> pmm_pages_free (mmu_pmm s') + 3 * 1024"
proof -
  have al: "page_aligned 0" "page_aligned 0x80000000" "(0::u64) \<le> 0x80000000" "page_aligned (0 + 0)"
    by (simp_all add: page_aligned_def)
  have k: "524288 = (unat (0x80000000::u64) - unat (0::u64)) div 4096" "524288 \<le> (2::nat) ^ 36" by simp_all
  obtain r s' n where run: "map_pages p0 0 0 0x80000000 boot_attrs s = Some r"
    "(case r of Inl s \<Rightarrow> s | Inr s \<Rightarrow> s) = s'" "run_mapped p0 0 0 boot_attrs s n s'"
    "n \<le> 524288" "n = 524288 \<or> pmm_pages_free (mmu_pmm s') = 0"
    "pmm_pages_free (mmu_pmm s) \<le> pmm_pages_free (mmu_pmm s') + 3 * blocks 0 524288"
    using map_pages_spec [OF inv(1) al k, of boot_attrs] by fastforce
  have "blocks 0 (Suc 524287) = 1024" unfolding blocks.simps by simp
  then have b: "blocks 0 524288 = 1024" by simp
  have r: "mmu_inv p0 s'" "grows p0 s s'" using run(3) by (simp_all add: run_mapped_def)
  have pm: "pmm_inv (mmu_pmm s')" "pmm_nonnull (mmu_pmm s')" using r(1) by (simp_all add: mmu_inv_def)
  note o = grows_other [OF inv(2) r(2) pm inv(3)]
  have "n \<le> 2 ^ 36" using run(4) k(2) by (rule order_trans)
  note id = run_mapped_identity [OF run(3) this empty(1)]
  have same: "ttbr0_pgd s' = p0" "ttbr1_pgd s' = p1" and total: "pmm_pages_total (mmu_pmm s') = pmm_pages_total (mmu_pmm s)"
    using r(2) regs by (simp_all add: grows_def regs_def)
  have "boot_inv n s'"
    unfolding boot_inv_def same high_only_def using r(1) o run(4,5) id empty(2) regs(3) by simp
  with run same total show ?thesis unfolding b by blast
qed

lemma mmu_init_spec:
  assumes inv: "pmm_inv (mmu_pmm s)" "pmm_nonnull (mmu_pmm s)" and ld: "syms_ok ld"
  shows "\<exists>s'. mmu_init ld s = Some s' \<and> pmm_pages_total (mmu_pmm s') = pmm_pages_total (mmu_pmm s) \<and>
    pmm_pages_free (mmu_pmm s) \<le> pmm_pages_free (mmu_pmm s') + boot_pages ld \<and>
    (ttbr1_pgd s' = 0 \<and> pmm_pages_free (mmu_pmm s') = 0 \<or> (\<exists>n. boot_inv n s') \<and>
      (pmm_pages_free (mmu_pmm s') = 0 \<or>
       image_mapped (ttbr1_pgd s') s' (kernel_start ld AND - 4096) ((kernel_end ld + 4095) AND - 4096) \<and>
       image_mapped (ttbr1_pgd s') s' (stack_bottom ld AND - 4096) ((stack_top ld + 4095) AND - 4096)))"
proof -
  let ?k0 = "kernel_start ld AND - 4096" and ?k1 = "(kernel_end ld + 4095) AND - 4096"
  let ?t0 = "stack_bottom ld AND - 4096" and ?t1 = "(stack_top ld + 4095) AND - 4096"
  obtain p0 s0 where a0: "alloc_table s = Some (p0, s0)" "pmm_inv (mmu_pmm s0)" "pmm_nonnull (mmu_pmm s0)"
    "p0 = 0 \<longrightarrow> s0 = s \<and> pmm_pages_free (mmu_pmm s0) = 0"
    using alloc_table_spec [OF inv] by blast
  from alloc_table_spec [of "s0\<lparr>ttbr0_pgd := p0\<rparr>"] a0(2,3) obtain p1 s1 where
    al: "alloc_table (s0\<lparr>ttbr0_pgd := p0\<rparr>) = Some (p1, s1)" and none: "p1 = 0 \<longrightarrow> pmm_pages_free (mmu_pmm s0) = 0"
    "pmm_pages_free (mmu_pmm s1) \<le> pmm_pages_free (mmu_pmm s0)" by auto
  note a1 = al alloc_table_ttbr0 [OF al, simplified]
  have total: "pmm_pages_total (mmu_pmm s1) = pmm_pages_total (mmu_pmm s)"
    using alloc_table_total [OF inv(1) a0(1)] alloc_table_total [OF _ al] a0(2) by simp
  have free: "pmm_pages_free (mmu_pmm s) \<le> pmm_pages_free (mmu_pmm s1) + 2"
    using alloc_table_count [OF inv a0(1)] alloc_table_count [OF _ _ al] a0(2,3) by simp
  show ?thesis
  proof (cases "p0 = 0 \<or> p1 = 0")
    case True
    have "p1 = 0" if "p0 = 0"
      using that a0(1,4) al by (auto simp: alloc_table_def Let_def split: Option.bind_splits if_splits)
    with True a0(1,4) a1 none total free show ?thesis by (auto simp: mmu_init_def boot_pages_def)
  next
    case False
    let ?s = "s1\<lparr>ttbr1_pgd := p1\<rparr>"
    note t = two_tables [OF inv a0(1) a1(1)]
    obtain r s2 n where id: "map_pages p0 0 0 0x80000000 boot_attrs ?s = Some r"
      "(case r of Inl s \<Rightarrow> s | Inr s \<Rightarrow> s) = s2" "boot_inv n s2" "ttbr1_pgd s2 = p1"
      "pmm_pages_total (mmu_pmm s2) = pmm_pages_total (mmu_pmm s)"
      "pmm_pages_free (mmu_pmm s1) \<le> pmm_pages_free (mmu_pmm s2) + 3 * 1024"
      using mmu_init_identity [of p0 ?s p1] t False a1(2) total by auto
    have run: "mmu_init ld s = Option.bind (map_pages p1 vmm_kernel_base ?k0 ?k1 boot_attrs s2) (\<lambda>r.
        case r of Inl s \<Rightarrow> Some s | Inr s \<Rightarrow>
          Option.bind (map_pages (ttbr1_pgd s) vmm_kernel_base ?t0 ?t1 boot_attrs s)
            (\<lambda>r. Some (case r of Inl s \<Rightarrow> s | Inr s \<Rightarrow> s)))"
      unfolding mmu_init_def boot_attrs_def [symmetric] Let_def using False a0(1) a1 id(1,2,4) by simp
    have k: "unat (kernel_start ld) \<le> unat (kernel_end ld)" "unat (kernel_end ld) + 4095 < 2 ^ 48"
      and st: "unat (stack_bottom ld) \<le> unat (stack_top ld)" "unat (stack_top ld) + 4095 < 2 ^ 48"
      using ld by (simp_all add: syms_ok_def word_le_nat_alt)
    have inv1: "mmu_inv p1 s2" using id(3,4) by (simp add: boot_inv_def)
    from map_syms [OF inv1 k refl refl, of boot_attrs] obtain s3 where
      c3: "pmm_pages_free (mmu_pmm s2) \<le> pmm_pages_free (mmu_pmm s3) + 3 * range_blocks (kernel_start ld) (kernel_end ld)" and d3:
      "(map_pages p1 vmm_kernel_base ?k0 ?k1 boot_attrs s2 = Some (Inl s3) \<and> pmm_pages_free (mmu_pmm s3) = 0 \<and>
         (\<exists>j. run_mapped p1 (vmm_kernel_base + ?k0) ?k0 boot_attrs s2 j s3)) \<or>
       (map_pages p1 vmm_kernel_base ?k0 ?k1 boot_attrs s2 = Some (Inr s3) \<and>
         run_mapped p1 (vmm_kernel_base + ?k0) ?k0 boot_attrs s2 ((unat ?k1 - unat ?k0) div 4096) s3)" by blast
    from d3 show ?thesis
    proof (elim disjE conjE exE, goal_cases)
      case (1 j)
      have "pmm_pages_free (mmu_pmm s) \<le> pmm_pages_free (mmu_pmm s3) + boot_pages ld"
        using free id(6) c3 unfolding boot_pages_def by linarith
      moreover note b3 = boot_inv_run [OF id(3) 1(3) [folded id(4)]]
      moreover have "mmu_init ld s = Some s3" using run 1(1) by simp
      ultimately show ?case using b3(1,3) 1(2) id(5) by auto
    next
      case 2
      note b3 = boot_inv_run [OF id(3) 2(2) [folded id(4)], unfolded id(4)]
      have im: "image_mapped p1 s3 ?k0 ?k1" by (rule run_mapped_image [OF 2(2)]) simp_all
      have inv3: "mmu_inv p1 s3" using b3 by (simp add: boot_inv_def)
      from map_syms [OF inv3 st refl refl, of boot_attrs] obtain s4 where
        c4: "pmm_pages_free (mmu_pmm s3) \<le> pmm_pages_free (mmu_pmm s4) + 3 * range_blocks (stack_bottom ld) (stack_top ld)" and d4:
        "(map_pages p1 vmm_kernel_base ?t0 ?t1 boot_attrs s3 = Some (Inl s4) \<and> pmm_pages_free (mmu_pmm s4) = 0 \<and>
           (\<exists>j. run_mapped p1 (vmm_kernel_base + ?t0) ?t0 boot_attrs s3 j s4)) \<or>
         (map_pages p1 vmm_kernel_base ?t0 ?t1 boot_attrs s3 = Some (Inr s4) \<and>
           run_mapped p1 (vmm_kernel_base + ?t0) ?t0 boot_attrs s3 ((unat ?t1 - unat ?t0) div 4096) s4)" by blast
      have c: "pmm_pages_free (mmu_pmm s) \<le> pmm_pages_free (mmu_pmm s4) + boot_pages ld"
        using free id(6) c3 c4 unfolding boot_pages_def by linarith
      from d4 show ?case
      proof (elim disjE conjE exE, goal_cases)
        case (1 j)
        note b4 = boot_inv_run [OF b3(1) 1(3) [folded b3(2)]]
        have "mmu_init ld s = Some s4" using run 2(1) 1(1) b3(2) by simp
        with b4(1,3) b3(3) 1(2) id(5) c show ?case by auto
      next
        case stack: 2
        note b4 = boot_inv_run [OF b3(1) stack(2) [folded b3(2)], unfolded b3(2)]
        note r = sym_range [OF k] and r' = sym_range [OF st]
        have "unat ?t0 + (unat ?t1 - unat ?t0) div 4096 * 4096 < 2 ^ 48"
        proof -
          have "(unat ?t1 - unat ?t0) div 4096 * 4096 \<le> unat ?t1 - unat ?t0" by simp
          moreover have "unat ?t0 \<le> unat ?t1" using r'(3) by (simp add: word_le_nat_alt)
          ultimately show ?thesis using r'(5) by linarith
        qed
        then have "image_mapped p1 s4 ?k0 ?k1"
          by (rule image_mapped_keep [OF im stack(2) r(1,2,3,5) r'(1)])
        moreover have "image_mapped p1 s4 ?t0 ?t1" by (rule run_mapped_image [OF stack(2)]) simp_all
        moreover have "mmu_init ld s = Some s4" using run 2(1) stack(1) b3(2) by simp
        ultimately show ?case using b4 b3(3) id(5) c by auto
      qed
    qed
  qed
qed

subsection \<open>TLB and caches\<close>

lemma emit_emit [simp]: "emit b (emit a s) = emit (a @ b) s"
  by (simp add: emit_def)

lemma emit_Nil [simp]: "emit [] s = s"
  by (simp add: emit_def)

lemma emit_loop: "for_upto 0 k (\<lambda>i s. Some (emit [f i] s)) s = Some (emit (map f [0..<k]) s)"
proof -
  have "\<exists>t. for_upto 0 k (\<lambda>i s. Some (emit [f i] s)) s = Some t \<and> t = emit (map f [0..<k]) s"
    by (rule for_upto_inv [where P = "\<lambda>i t. t = emit (map f [0..<i]) s"]) auto
  then show ?thesis by simp
qed

lemma tlb_flush_range_spec:
  assumes al: "page_aligned va" "page_aligned sz" and nowrap: "unat va + unat sz < 2 ^ 64"
  shows "tlb_flush_range va sz s = Some (emit (map (\<lambda>i. TLBI_VAAE1IS (drop_bit 12 (va + of_nat i * 4096)))
    [0..<unat sz div 4096] @ [DSB_ISH, ISB]) s)"
proof -
  have u: "unat (va + sz) = unat va + unat sz" using nowrap by (rule unat_add_nowrap)
  then have k: "unat sz div 4096 = (unat (va + sz) - unat va) div 4096" "va \<le> va + sz"
    by (simp_all add: word_le_nat_alt)
  show ?thesis
    by (simp add: tlb_flush_range_def while_u64_pages [OF al(1) page_aligned_add [OF al] k(2,1)]
        emit_loop del: drop_bit_of_nat)
qed

subsection \<open>Mapping a physical range to the higher half\<close>

lemma boot_inv_emit [simp]: "boot_inv n (emit es s) = boot_inv n s" "image_mapped pgd (emit es s) lo hi = image_mapped pgd s lo hi"
  by (simp_all add: boot_inv_def image_mapped_def high_only_def mmu_inv_def emit_def)

text \<open>
  \<open>mmu_map_region\<close> with the attributes of the boot mappings ends; it maps every page of the range to the higher
  half and invalidates the TLB, or memory ran out. The two address spaces stay as \<open>mmu_init\<close> left them otherwise.
\<close>

lemma mmu_map_region_spec:
  assumes inv: "boot_inv n s" and nowrap: "unat pa + unat sz + 4095 < 2 ^ 39"
  shows "\<exists>r s'. mmu_map_region pa sz boot_attrs s = Some (r, s') \<and> boot_inv n s' \<and> regs s' = regs s \<and> pmm_pages_free (mmu_pmm s') \<le> pmm_pages_free (mmu_pmm s) \<and>
    (\<forall>a b. image_mapped (ttbr1_pgd s) s a b \<longrightarrow> page_aligned a \<longrightarrow> page_aligned b \<longrightarrow> a \<le> b \<longrightarrow> unat b < 2 ^ 48 \<longrightarrow> image_mapped (ttbr1_pgd s) s' a b) \<and>
    (r = -1 \<and> pmm_pages_free (mmu_pmm s') = 0 \<or>
     r = 0 \<and> image_mapped (ttbr1_pgd s') s' (pa AND - 4096) ((pa AND - 4096) + ((sz + 4095) AND - 4096)))"
proof -
  define lo where "lo = pa AND - 4096"
  define len where "len = (sz + 4095) AND - 4096"
  define k where "k = (unat len - unat (0 :: u64)) div 4096"
  have "page_aligned 0" by (simp add: page_aligned_def)
  then have al: "page_aligned 0" "page_aligned len" "0 \<le> len" "page_aligned lo" by (simp_all add: len_def lo_def)
  have len: "unat len \<le> unat sz + 4095" using unat_align_up [of sz] nowrap by (simp add: len_def)
  have lo: "unat lo \<le> unat pa" using unat_and_not_4095 [of pa] by (simp add: lo_def)
  have "k \<le> unat len" unfolding k_def by (rule order.trans [OF div_le_dividend]) simp
  then have k: "k \<le> 2 ^ 36"
    using len nowrap unfolding k_def by (simp add: div_le_mono [of _ "2 ^ 39" 4096, simplified])
  have base: "page_aligned (vmm_kernel_base + lo)" by (intro page_aligned_add) (simp_all add: al(4))
  have minv: "mmu_inv (ttbr1_pgd s) s" "ttbr1_pgd s \<noteq> 0" using inv by (simp_all add: boot_inv_def)
  have w: "while_ret_u64 0 len MMU_PAGE_SIZE (\<lambda>off s. do {
          let va = vmm_kernel_base + lo + off;
          (r, s) \<leftarrow> mmu_map_page (ttbr1_pgd s) va (lo + off) boot_attrs s;
          Some (if r < 0 then Inl s else Inr s) }) s = for_ret 0 k (\<lambda>i s. do {
          (r, s) \<leftarrow> mmu_map_page (ttbr1_pgd s) (vmm_kernel_base + lo + of_nat i * 4096) (lo + of_nat i * 4096) boot_attrs s;
          Some (if r < 0 then Inl s else Inr s) }) s" (is "?w = for_ret 0 k ?f s")
    unfolding page_size while_ret_u64_pages [OF al(1-3) k_def] by (simp add: Let_def)
  have loop: "(\<exists>s'. for_ret 0 k ?f s = Some (Inl s') \<and> pmm_pages_free (mmu_pmm s') = 0 \<and>
      (\<exists>j<k. run_mapped (ttbr1_pgd s) (vmm_kernel_base + lo) lo boot_attrs s j s') \<and>
      pmm_pages_free (mmu_pmm s) \<le> 3 * blocks (vmm_kernel_base + lo) k) \<or>
    (\<exists>s'. for_ret 0 k ?f s = Some (Inr s') \<and> run_mapped (ttbr1_pgd s) (vmm_kernel_base + lo) lo boot_attrs s k s' \<and>
      pmm_pages_free (mmu_pmm s) \<le> pmm_pages_free (mmu_pmm s') + 3 * blocks (vmm_kernel_base + lo) k)"
    by (rule map_loop_spec [OF minv(1) base k]) (simp add: regs_def)
  have run: "mmu_map_region pa sz boot_attrs s = (for_ret 0 k ?f s \<bind> (\<lambda>r. case r of Inl s \<Rightarrow> Some (-1, s) | Inr s \<Rightarrow> do {
          s \<leftarrow> tlb_flush_range (vmm_kernel_base + lo) len s;
          Some (0, s) }))"
    using minv(2) unfolding w [symmetric] unfolding mmu_map_region_def lo_def len_def Let_def by (simp add: MMU_PAGE_MASK_def MMU_PAGE_SIZE_def)
  have "k * 4096 \<le> unat len" by (simp add: k_def)
  then have room: "unat lo + k * 4096 < 2 ^ 48" using lo len nowrap by simp
  have keep: "boot_inv n s' \<and> regs s' = regs s \<and> pmm_pages_free (mmu_pmm s') \<le> pmm_pages_free (mmu_pmm s) \<and> (\<forall>a b. image_mapped (ttbr1_pgd s) s a b \<longrightarrow> page_aligned a \<longrightarrow> page_aligned b \<longrightarrow> a \<le> b \<longrightarrow>
      unat b < 2 ^ 48 \<longrightarrow> image_mapped (ttbr1_pgd s) s' a b)"
    if run: "run_mapped (ttbr1_pgd s) (vmm_kernel_base + lo) lo boot_attrs s j s'" and "j \<le> k" for j s'
  proof -
    have "unat lo + j * 4096 < 2 ^ 48" using room \<open>j \<le> k\<close> by (meson add_le_mono le_refl mult_le_mono1 order.strict_trans1)
    then have "\<forall>a b. image_mapped (ttbr1_pgd s) s a b \<longrightarrow> page_aligned a \<longrightarrow> page_aligned b \<longrightarrow> a \<le> b \<longrightarrow> unat b < 2 ^ 48 \<longrightarrow> image_mapped (ttbr1_pgd s) s' a b"
      using image_mapped_keep [OF _ run] al(4) by blast
    then show ?thesis using boot_inv_run [OF inv run] run by (simp add: run_mapped_def grows_def)
  qed
  from loop show ?thesis
  proof (elim disjE exE conjE, goal_cases)
    case (1 s' j)
    then show ?case using keep [OF 1(5) less_imp_le [OF 1(4)]] by (simp add: run)
  next
    case (2 s')
    have u: "unat (vmm_kernel_base + lo) = unat vmm_kernel_base + unat lo"
      using lo nowrap by (intro unat_add_nowrap) (simp add: vmm_kernel_base_def VMM_KERNEL_VIRT_BASE_def)
    have "unat (vmm_kernel_base + lo) + unat len < 2 ^ 64"
      unfolding u using lo len nowrap by (simp add: vmm_kernel_base_def VMM_KERNEL_VIRT_BASE_def)
    from tlb_flush_range_spec [OF base al(2) this] obtain es where "tlb_flush_range (vmm_kernel_base + lo) len s' = Some (emit es s')" by blast
    moreover have ulen: "unat (lo + len) = unat lo + unat len" using lo len nowrap by (intro unat_add_nowrap) simp
    have "k = (unat (lo + len) - unat lo) div 4096" by (simp add: k_def ulen)
    then have "image_mapped (ttbr1_pgd s) s' lo (lo + len)"
      using run_mapped_image 2(2) al(2,4) page_aligned_add by blast
    moreover have "regs (emit es s') = regs s'" by (simp add: regs_def emit_def)
    moreover have "ttbr1_pgd (emit es s') = ttbr1_pgd s" using keep [OF 2(2) order.refl] by (simp add: regs_def emit_def)
    ultimately show ?case using keep [OF 2(2) order.refl] 2(1)
      by (intro exI [of _ 0] exI [of _ "emit es s'"]) (simp add: run lo_def [symmetric] len_def [symmetric])
  qed
qed

subsection \<open>A sample address space\<close>

lemma clear_from:
  assumes "\<And>i. m i \<longleftrightarrow> i < k"
  shows "clear_count m n = n - k"
proof -
  have "{i. i < n \<and> \<not> m i} = {k..<n}" using assms by (simp add: set_eq_iff not_less conj_commute)
  then show ?thesis by (simp add: clear_count_def)
qed

lemma mmu_demo_used: "pmm_used (mmu_pmm mmu_demo) i \<longleftrightarrow> i < 4"
proof -
  have "bit (15::u8) n \<longleftrightarrow> n < 4" for n
    using bit_mask_iff [where 'a = u8, of 4 n] by (simp add: mask_eq_exp_minus_1) auto
  then show ?thesis by (cases "i < 8") (auto simp: mmu_demo_def pmm_used_def arr_bit_def)
qed

lemma mmu_demo_pmm: "pmm_inv (mmu_pmm mmu_demo)" "pmm_nonnull (mmu_pmm mmu_demo)"
proof -
  have "pmm_pages_total (mmu_pmm mmu_demo) = 8192" "pmm_pages_free (mmu_pmm mmu_demo) = 8192 - 4" by (simp_all add: mmu_demo_def)
  moreover have "pmm_range_ok (mmu_pmm mmu_demo)" by (simp add: pmm_range_ok_def mmu_demo_def page_aligned_def PMM_MAX_PAGES_def)
  ultimately show "pmm_inv (mmu_pmm mmu_demo)" unfolding pmm_inv_def by (simp only: clear_from [OF mmu_demo_used])
  show "pmm_nonnull (mmu_pmm mmu_demo)" by (simp add: pmm_nonnull_def mmu_demo_def)
qed

lemma mmu_demo_tabat:
  assumes "is_path p"
  shows "tabat (mmu_mem mmu_demo) 0x40000000 p =
    (if p = [] then Some 0x40000000 else if p = [0] then Some 0x40001000
     else if p = [0, 0] then Some 0x40002000 else if p = [0, 0, 0] then Some 0x40003000 else None)"
proof -
  have al: "page_aligned 0x40000000" "page_aligned 0x40001000" "page_aligned 0x40002000" "page_aligned 0x40003000"
    by (simp_all add: page_aligned_def)
  have m: "mmu_mem mmu_demo (slot 0x40000000 i) = (if i = 0 then 0x40001003 else 0)"
    "mmu_mem mmu_demo (slot 0x40001000 i) = (if i = 0 then 0x40002003 else 0)"
    "mmu_mem mmu_demo (slot 0x40002000 i) = (if i = 0 then 0x40003003 else 0)" if "i < 512" for i
    using that al by (simp_all add: mmu_demo_def slot_inj)
  show ?thesis
  proof (cases "length p")
    case 0
    then show ?thesis by simp
  next
    case (Suc n)
    then obtain i q where p: "p = i # q" by (cases p) auto
    then have i: "i < 512" using assms by (simp add: is_path_def)
    show ?thesis
    proof (cases q)
      case Nil
      with p i m show ?thesis by simp
    next
      case (Cons j q')
      then have j: "j < 512" using assms p by (simp add: is_path_def)
      show ?thesis
      proof (cases q')
        case Nil
        with p Cons i j m show ?thesis by simp
      next
        case Cons2: (Cons k q'')
        then have "k < 512" "q'' = []" using assms p Cons by (auto simp: is_path_def)
        with p Cons Cons2 i j m show ?thesis by simp
      qed
    qed
  qed
qed

lemma mmu_demo_ok: "mmu_inv 0x40000000 mmu_demo" "pte_of (mmu_mem mmu_demo) 0x40000000 0 = Some 0x40000000005403"
proof -
  have live: "page_to_addr (mmu_pmm mmu_demo) i \<in> pmm_live (mmu_pmm mmu_demo)" if "i < 4" for i
    using that mmu_demo_used [of i] unfolding pmm_live_def by (intro imageI) (simp add: mmu_demo_def)
  from live [of 0] live [of 1] live [of 2] live [of 3]
  have l: "0x40000000 \<in> pmm_live (mmu_pmm mmu_demo)" "0x40001000 \<in> pmm_live (mmu_pmm mmu_demo)"
    "0x40002000 \<in> pmm_live (mmu_pmm mmu_demo)" "0x40003000 \<in> pmm_live (mmu_pmm mmu_demo)"
    by (simp_all add: page_to_addr_def mmu_demo_def PMM_PAGE_SIZE_def)
  have "pt_wf (pmm_live (mmu_pmm mmu_demo)) (mmu_mem mmu_demo) 0x40000000"
    unfolding pt_wf_def using l
    by (auto simp: mmu_demo_tabat page_aligned_def split: if_splits)
  then show "mmu_inv 0x40000000 mmu_demo" using mmu_demo_pmm by (simp add: mmu_inv_def)
  have ix: "va_path 0 = [0, 0, 0]" "pte_index 0 = 0"
    by (simp_all add: va_path_def pgd_index_def pud_index_def pmd_index_def pte_index_def)
  have "is_path [0, 0, 0]" by (simp add: is_path_def)
  from mmu_demo_tabat [OF this] show "pte_of (mmu_mem mmu_demo) 0x40000000 0 = Some 0x40000000005403"
    unfolding pte_of_def ix by (simp add: mmu_demo_def)
qed

text \<open>A second, empty, address space beside the first.\<close>

lemma mmu_demo_two:
  "\<exists>s. mmu_inv 0x40000000 s \<and> mmu_inv 0x40004000 s \<and>
     tables (mmu_mem s) 0x40000000 \<inter> tables (mmu_mem s) 0x40004000 = {} \<and> pte_of (mmu_mem s) 0x40004000 0 = None"
proof -
  let ?pm = "mmu_pmm mmu_demo"
  let ?pm' = "?pm\<lparr>pmm_bitmap := (\<lambda>_. 0)(0 := 31), pmm_pages_free := 8187\<rparr>"
  let ?s = "mmu_demo\<lparr>mmu_pmm := ?pm'\<rparr>"
  have nn: "pmm_nonnull ?pm'" by (simp add: pmm_nonnull_def mmu_demo_def)
  have b: "bit (31::u8) n \<longleftrightarrow> n < 5" for n
    using bit_mask_iff [where 'a = u8, of 5 n] by (simp add: mask_eq_exp_minus_1) auto
  have u: "pmm_used ?pm' k \<longleftrightarrow> k < 5" for k using b [of k] by (cases "k < 8") (auto simp: pmm_used_def arr_bit_def)
  then have used': "pmm_used ?pm' k" if "k < 5" for k using that by simp
  have pm: "pmm_inv ?pm'"
    unfolding pmm_inv_def clear_from [OF u]
    by (simp add: pmm_range_ok_def mmu_demo_def page_aligned_def PMM_MAX_PAGES_def)
  have used: "pmm_used ?pm k \<Longrightarrow> pmm_used ?pm' k" for k using used' [of k] mmu_demo_used [of k] by simp
  have "page_to_addr ?pm' 4 \<in> pmm_live ?pm'"
    unfolding pmm_live_def by (intro imageI) (use used' [of 4] in \<open>simp add: mmu_demo_def\<close>)
  then have live: "0x40004000 \<in> pmm_live ?pm'"
    by (simp add: page_to_addr_def mmu_demo_def PMM_PAGE_SIZE_def)
  have "pmm_live ?pm \<subseteq> pmm_live ?pm'"
    using used unfolding pmm_live_def by (auto simp: page_to_addr_def)
  then have i1: "mmu_inv 0x40000000 ?s"
    using mmu_demo_ok(1) pm nn unfolding mmu_inv_def pt_wf_def by auto
  have al: "page_aligned 0x40004000" by (simp add: page_aligned_def)
  have "mmu_mem mmu_demo (slot 0x40004000 j) = 0" if "j < 512" for j
    using that al by (simp add: mmu_demo_def slot_inj page_aligned_def)
  note z = zero_table [of "0x40004000" "pmm_live ?pm'" "mmu_mem mmu_demo", OF al live this]
  have t: "tables (mmu_mem mmu_demo) 0x40000000 \<subseteq> {0x40000000, 0x40001000, 0x40002000, 0x40003000}"
    by (auto simp: tables_def mmu_demo_tabat split: if_splits)
  have "mmu_inv 0x40004000 ?s" using z(1) pm nn by (simp add: mmu_inv_def)
  moreover have "tables (mmu_mem ?s) 0x40000000 \<inter> tables (mmu_mem ?s) 0x40004000 = {}"
    using t z(2) by auto
  ultimately show ?thesis using i1 z(3) by (intro exI [of _ ?s]) simp
qed

section \<open>Properties\<close>

text \<open>
  C26 Mapping a page changes the translation of that page and of no other. When a table is missing
  and no page of memory is left the call answers -1 and no translation changes. Either way the
  tables stay well formed, every word of memory in use outside them keeps its value and so do the
  registers.
\<close>

theorem mmu_map_page_one_translation:
  assumes "mmu_inv pgd s"
  shows "\<exists>r s'. mmu_map_page pgd va pa attrs s = Some (r, s') \<and> mmu_inv pgd s' \<and> grows pgd s s' \<and>
    (r = -1 \<and> pmm_pages_free (mmu_pmm s') = 0 \<and>
       (\<forall>vb. pte_of (mmu_mem s') pgd vb = pte_of (mmu_mem s) pgd vb) \<or>
     r = 0 \<and> (\<forall>vb. pte_of (mmu_mem s') pgd vb =
       (if same_page va vb then Some ((pa AND - 4096) OR attrs OR PTE_AF OR PTE_VALID)
        else pte_of (mmu_mem s) pgd vb)))"
  using assms by (rule mmu_map_page_spec)

theorem mmu_map_page_one_translation_witness:
  "\<exists>r s'. mmu_map_page 0x40000000 0x200000 0x40007000 PTE_PAGE mmu_demo = Some (r, s') \<and>
     mmu_inv 0x40000000 s' \<and> pte_of (mmu_mem s') 0x40000000 0 = Some 0x40000000005403"
proof -
  have "\<not> same_page 0x200000 0" by (simp add: same_page_unat)
  with mmu_map_page_one_translation [OF mmu_demo_ok(1), of "0x200000" "0x40007000" PTE_PAGE] mmu_demo_ok(2)
  show ?thesis by auto
qed

text \<open>
  Unmapping answers 0 exactly when the page was mapped, and then removes that translation and no
  other; on an unmapped page it answers -1 and changes nothing.
\<close>

theorem mmu_unmap_page_exact:
  assumes "mmu_inv pgd s"
  shows "\<exists>r s'. mmu_unmap_page pgd va s = (r, s') \<and> mmu_inv pgd s' \<and> grows pgd s s' \<and>
    (r = -1 \<and> s' = s \<and> pte_of (mmu_mem s) pgd va = None \<or>
     r = 0 \<and> pte_of (mmu_mem s) pgd va \<noteq> None \<and>
       (\<forall>vb. pte_of (mmu_mem s') pgd vb = (if same_page va vb then None else pte_of (mmu_mem s) pgd vb)))"
  using assms by (rule mmu_unmap_page_spec)

theorem mmu_unmap_page_exact_witness:
  "\<exists>s'. mmu_unmap_page 0x40000000 0 mmu_demo = (0, s') \<and> pte_of (mmu_mem s') 0x40000000 0 = None"
  using mmu_unmap_page_exact [OF mmu_demo_ok(1), of 0] mmu_demo_ok(2) by auto

text \<open>
  Changing the attributes of a mapped page keeps every bit of its entry from bit 12 on, because
  the physical address is read back as \<open>pte & ~0xFFF\<close>. In particular a page that was mapped
  execute-never (bits 53 and 54) stays so, whatever attributes are asked for.
\<close>

theorem mmu_update_keeps_high_bits:
  assumes "mmu_inv pgd s" "pte_of (mmu_mem s) pgd va = Some e" "bit e n" "12 \<le> n"
  shows "\<exists>s' e'. mmu_update_page_attrs pgd va attrs s = (0, s') \<and> mmu_inv pgd s' \<and>
    pte_of (mmu_mem s') pgd va = Some e' \<and> bit e' n"
proof -
  from mmu_update_page_attrs_spec [OF assms(1), of va attrs] assms(2) obtain s' where
    u: "mmu_update_page_attrs pgd va attrs s = (0, s')" "mmu_inv pgd s'"
      "pte_of (mmu_mem s') pgd va = Some ((e AND - 4096) OR attrs OR PTE_AF OR PTE_VALID)" by auto
  have "(- 4096 :: u64) = NOT (mask 12)" by (simp add: mask_eq_exp_minus_1)
  with assms(3,4) have "bit (e AND - 4096) n"
    by (simp only: bit_and_iff bit_not_iff bit_mask_iff) (use bit_imp_le_length [OF assms(3)] in simp)
  with u show ?thesis by (auto simp: bit_or_iff)
qed

theorem mmu_update_keeps_high_bits_witness:
  "\<exists>s' e'. mmu_update_page_attrs 0x40000000 0 PTE_PAGE mmu_demo = (0, s') \<and>
    pte_of (mmu_mem s') 0x40000000 0 = Some e' \<and> bit e' 54"
proof -
  have "bit (0x40000000005403 :: u64) 54" by (simp add: bit_iff_odd_drop_bit)
  from mmu_update_keeps_high_bits [OF mmu_demo_ok this, of PTE_PAGE] show ?thesis by auto
qed

text \<open>
  Mapping a page in one address space leaves another one, with tables of its own, as it was:
  its tables stay well formed and none of its translations changes.
\<close>

theorem mmu_map_page_isolated:
  assumes "mmu_inv pgd s" "mmu_inv pgd' s" "tables (mmu_mem s) pgd \<inter> tables (mmu_mem s) pgd' = {}"
    and "mmu_map_page pgd va pa attrs s = Some (r, s')"
  shows "mmu_inv pgd' s' \<and> pte_of (mmu_mem s') pgd' vb = pte_of (mmu_mem s) pgd' vb \<and>
    tables (mmu_mem s') pgd \<inter> tables (mmu_mem s') pgd' = {}"
proof -
  from mmu_map_page_spec [OF assms(1), of va pa attrs] assms(4) have "mmu_inv pgd s'" "grows pgd s s'" by auto
  then show ?thesis
    using grows_other [OF assms(2) \<open>grows pgd s s'\<close> _ _ assms(3)] by (simp add: mmu_inv_def)
qed

theorem mmu_map_page_isolated_witness:
  "\<exists>s r s'. mmu_inv 0x40000000 s \<and> mmu_inv 0x40004000 s \<and>
    mmu_map_page 0x40000000 0 0x40007000 PTE_PAGE s = Some (r, s') \<and> pte_of (mmu_mem s') 0x40004000 0 = None"
proof -
  obtain s where s: "mmu_inv 0x40000000 s" "mmu_inv 0x40004000 s"
    "tables (mmu_mem s) 0x40000000 \<inter> tables (mmu_mem s) 0x40004000 = {}" "pte_of (mmu_mem s) 0x40004000 0 = None"
    using mmu_demo_two by blast
  obtain r s' where "mmu_map_page 0x40000000 0 0x40007000 PTE_PAGE s = Some (r, s')"
    using mmu_map_page_spec [OF s(1)] by blast
  with mmu_map_page_isolated [OF s(1-3) this, of 0] s show ?thesis by auto
qed

text \<open>
  C27 \<open>mmu_init\<close> ends (its loops follow no bad pointer, whatever memory holds). When the page allocator has
  more than \<open>boot_pages\<close> free pages, it builds two separate well-formed address spaces: the first maps
  exactly the 524288 pages of the first 2 GiB to themselves, as the comment at \<open>mmu.c\<close> line 94 says
  (\<open>mm/MMU.md\<close> says 1 GB), the second maps every page of the kernel image and of the boot stack to the
  higher half and nothing but higher-half addresses to their physical pages. With less memory it still
  ends: either there is no root table for the kernel, or the two spaces are well formed and hold only such
  mappings, the identity map being cut short where memory ran out.
\<close>

theorem mmu_init_address_spaces:
  assumes "pmm_inv (mmu_pmm s)" "pmm_nonnull (mmu_pmm s)" "syms_ok ld"
  shows "\<exists>s'. mmu_init ld s = Some s' \<and>
    (boot_pages ld < pmm_pages_free (mmu_pmm s) \<longrightarrow> boot_inv 524288 s' \<and>
       image_mapped (ttbr1_pgd s') s' (kernel_start ld AND - 4096) ((kernel_end ld + 4095) AND - 4096) \<and>
       image_mapped (ttbr1_pgd s') s' (stack_bottom ld AND - 4096) ((stack_top ld + 4095) AND - 4096)) \<and>
    (ttbr1_pgd s' = 0 \<and> pmm_pages_free (mmu_pmm s') = 0 \<or> (\<exists>n. boot_inv n s') \<and>
      (pmm_pages_free (mmu_pmm s') = 0 \<or>
       image_mapped (ttbr1_pgd s') s' (kernel_start ld AND - 4096) ((kernel_end ld + 4095) AND - 4096) \<and>
       image_mapped (ttbr1_pgd s') s' (stack_bottom ld AND - 4096) ((stack_top ld + 4095) AND - 4096)))"
proof -
  obtain s' where s': "mmu_init ld s = Some s'" "pmm_pages_free (mmu_pmm s) \<le> pmm_pages_free (mmu_pmm s') + boot_pages ld"
    and c: "ttbr1_pgd s' = 0 \<and> pmm_pages_free (mmu_pmm s') = 0 \<or> (\<exists>n. boot_inv n s') \<and>
      (pmm_pages_free (mmu_pmm s') = 0 \<or>
       image_mapped (ttbr1_pgd s') s' (kernel_start ld AND - 4096) ((kernel_end ld + 4095) AND - 4096) \<and>
       image_mapped (ttbr1_pgd s') s' (stack_bottom ld AND - 4096) ((stack_top ld + 4095) AND - 4096))"
    using mmu_init_spec [OF assms] by blast
  have "n = 524288" if "boot_inv n s'" "pmm_pages_free (mmu_pmm s') \<noteq> 0" for n using that by (simp add: boot_inv_def)
  then show ?thesis using s' c by auto
qed

theorem mmu_init_address_spaces_witness:
  "\<exists>s'. mmu_init \<lparr>kernel_start = 0x40080000, kernel_end = 0x400A1234, stack_bottom = 0x400B0000,
      stack_top = 0x400B4000\<rparr> mmu_demo = Some s' \<and> boot_inv 524288 s' \<and>
    image_mapped (ttbr1_pgd s') s' 0x40080000 0x400A2000 \<and> image_mapped (ttbr1_pgd s') s' 0x400B0000 0x400B4000"
proof -
  let ?ld = "\<lparr>kernel_start = 0x40080000, kernel_end = 0x400A1234, stack_bottom = 0x400B0000, stack_top = 0x400B4000\<rparr>"
  have ok: "syms_ok ?ld" by (simp add: syms_ok_def)
  have "boot_pages ?ld \<le> 3074 + 3 * (34 div 512 + 2) + 3 * (4 div 512 + 2)"
    using blocks_bound [of "vmm_kernel_base + 0x40080000" 34] blocks_bound [of "vmm_kernel_base + 0x400B0000" 4]
    by (simp add: boot_pages_def range_blocks_def)
  moreover have "pmm_pages_free (mmu_pmm mmu_demo) = 8188" by (simp add: mmu_demo_def)
  ultimately show ?thesis using mmu_init_address_spaces [OF mmu_demo_pmm ok] by auto
qed

text \<open>
  For a page-aligned range that does not reach the end of the address space,
  \<open>tlb_flush_range\<close> invalidates each page of the range once, in order, and then issues the barriers.
\<close>

theorem tlb_flush_range_exact:
  assumes "page_aligned va" "page_aligned sz" "unat va + unat sz < 2 ^ 64"
  shows "tlb_flush_range va sz s = Some (emit (map (\<lambda>i. TLBI_VAAE1IS (drop_bit 12 (va + of_nat i * 4096)))
    [0..<unat sz div 4096] @ [DSB_ISH, ISB]) s)"
  using assms by (rule tlb_flush_range_spec)

theorem tlb_flush_range_exact_witness:
  "tlb_flush_range 0x1000 0x2000 mmu_demo = Some (emit [TLBI_VAAE1IS 1, TLBI_VAAE1IS 2, DSB_ISH, ISB] mmu_demo)"
  using tlb_flush_range_exact [of "0x1000" "0x2000" mmu_demo]
  by (simp add: page_aligned_def upt_rec [of _ 2] numeral_2_eq_2 [symmetric])

text \<open>
  A range that ends at the very top of the address space is not flushed: \<open>va + size\<close> wraps to 0,
  the loop does not run, and only the barriers are issued.
\<close>

theorem tlb_flush_range_top_skipped:
  assumes "va + sz = 0"
  shows "tlb_flush_range va sz s = Some (emit [DSB_ISH, ISB] s)"
  using assms by (simp add: tlb_flush_range_def while_u64.simps)

theorem tlb_flush_range_top_skipped_witness:
  "tlb_flush_range 0xFFFFFFFFFFFF0000 0x10000 mmu_demo = Some (emit [DSB_ISH, ISB] mmu_demo)"
  using tlb_flush_range_top_skipped [of "0xFFFFFFFFFFFF0000" "0x10000" mmu_demo] by simp

end
