(* ===== verification/Vmm.thy ===== *)
theory Vmm
  imports Vma Mmu_Init
begin

text \<open>
  The virtual memory manager, \<open>src/mm/vmm.c\<close>: \<open>vmm_map\<close>, \<open>vmm_unmap\<close>, \<open>vmm_protect\<close> and
  \<open>vmm_virt_to_phys\<close>, each a whole handler with its checks and error codes, the change of the tree
  of areas and the page-table and TLB loops. The abstract specification is a list of disjoint areas
  in order of their addresses; the refinement lemmas show that every handler does on that list what
  the specification says, with the same answer.
\<close>

section \<open>Definitions\<close>

definition VMM_PAGE_SIZE :: u64 where "VMM_PAGE_SIZE = 4096"

definition VMM_ATTR_W :: u32 where "VMM_ATTR_W = push_bit 1 1"
definition VMM_ATTR_X :: u32 where "VMM_ATTR_X = push_bit 2 1"
definition VMM_ATTR_DEVICE :: u32 where "VMM_ATTR_DEVICE = push_bit 3 1"
definition VMM_ATTR_UXN :: u32 where "VMM_ATTR_UXN = push_bit 5 1"
definition VMM_ATTR_PXN :: u32 where "VMM_ATTR_PXN = push_bit 6 1"

record vmm_state =
  vmas :: vma_store
  vmm_mmu :: mmu_state

definition vmm_init :: "vmm_state \<Rightarrow> int \<times> vmm_state" where
  "vmm_init s = (0, s\<lparr>vmas := init_vma_pool ((vmas s)\<lparr>vma_root := None\<rparr>)\<rparr>)"

subsection \<open>Page tables\<close>

definition vmm_pte_attrs :: "u32 \<Rightarrow> u64" where
  "vmm_pte_attrs attrs =
     (let p = PTE_PAGE OR PTE_AF OR PTE_SH_INNER;
          p = (if attrs AND VMM_ATTR_DEVICE \<noteq> 0 then p OR PTE_ATTR_IDX (of_nat MAIR_IDX_DEVICE)
               else p OR PTE_ATTR_IDX (of_nat MAIR_IDX_NORMAL));
          p = (if attrs AND VMM_ATTR_W = 0 then p OR PTE_RO else p);
          p = (if attrs AND VMM_ATTR_UXN \<noteq> 0 then p OR push_bit 54 1 else p);
          p = (if attrs AND VMM_ATTR_PXN \<noteq> 0 then p OR push_bit 53 1 else p)
      in p)"

text \<open>The answer of \<open>mmu_map_page\<close> is not looked at.\<close>

definition vmm_map_pages :: "u64 \<Rightarrow> u64 \<Rightarrow> u64 \<Rightarrow> u32 \<Rightarrow> mmu_state \<Rightarrow> mmu_state option" where
  "vmm_map_pages va pa sz attrs m =
     (let ttbr1 = mmu_get_ttbr1 m
      in if ttbr1 \<noteq> 0 then do {
           let pte_attrs = vmm_pte_attrs attrs;
           m \<leftarrow> while_u64 0 sz VMM_PAGE_SIZE (\<lambda>off m. do {
             (r, m) \<leftarrow> mmu_map_page ttbr1 (va + off) (pa + off) pte_attrs m;
             Some m }) m;
           m \<leftarrow> (if attrs AND VMM_ATTR_X \<noteq> 0 then do {
                m \<leftarrow> cache_flush_range va sz m;
                icache_invalidate_range va sz m } else Some m);
           tlb_flush_range va sz m
         } else Some m)"

definition vmm_unmap_pages :: "u64 \<Rightarrow> u64 \<Rightarrow> mmu_state \<Rightarrow> mmu_state option" where
  "vmm_unmap_pages va sz m =
     (let ttbr1 = mmu_get_ttbr1 m
      in if ttbr1 \<noteq> 0 then do {
           m \<leftarrow> while_u64 0 sz VMM_PAGE_SIZE (\<lambda>off m. Some (snd (mmu_unmap_page ttbr1 (va + off) m))) m;
           tlb_flush_range va sz m
         } else Some m)"

definition vmm_protect_pages :: "u64 \<Rightarrow> u64 \<Rightarrow> u32 \<Rightarrow> mmu_state \<Rightarrow> mmu_state option" where
  "vmm_protect_pages va sz attrs m =
     (let ttbr1 = mmu_get_ttbr1 m
      in if ttbr1 \<noteq> 0 then do {
           let pte_attrs = vmm_pte_attrs attrs;
           m \<leftarrow> while_u64 0 sz VMM_PAGE_SIZE
             (\<lambda>off m. Some (snd (mmu_update_page_attrs ttbr1 (va + off) pte_attrs m))) m;
           tlb_flush_range va sz m
         } else Some m)"

subsection \<open>The handlers\<close>

definition vmm_map :: "u64 \<Rightarrow> u64 \<Rightarrow> u64 \<Rightarrow> u32 \<Rightarrow> vmm_state \<Rightarrow> (int \<times> vmm_state) option" where
  "vmm_map va pa sz attrs s =
     (if sz = 0 then Some (-1, s)
      else if va AND (VMM_PAGE_SIZE - 1) \<noteq> 0 \<or> pa AND (VMM_PAGE_SIZE - 1) \<noteq> 0 \<or> sz AND (VMM_PAGE_SIZE - 1) \<noteq> 0
      then Some (-2, s)
      else do {
        p \<leftarrow> find_le (vma_pool (vmas s)) (vma_root (vmas s)) va;
        if overlaps (vma_pool (vmas s)) p va sz then Some (-3, s)
        else do {
          q \<leftarrow> find_ge (vma_pool (vmas s)) (vma_root (vmas s)) va;
          if overlaps (vma_pool (vmas s)) q va sz then Some (-3, s)
          else case vma_alloc_node (vmas s) of
            (None, v) \<Rightarrow> Some (-4, s\<lparr>vmas := v\<rparr>)
          | (Some n, v) \<Rightarrow> do {
              let h = vma_pool v;
              let h = h(n := (h n)\<lparr>vma_va := va, vma_pa := pa, vma_size := sz, vma_attrs := attrs\<rparr>);
              let h = h(n := set_color RB_RED (h n));
              (h, root) \<leftarrow> vma_insert h (vma_root v) n va;
              let s = s\<lparr>vmas := v\<lparr>vma_pool := h, vma_root := root\<rparr>\<rparr>;
              m \<leftarrow> vmm_map_pages va pa sz attrs (vmm_mmu s);
              Some (0, s\<lparr>vmm_mmu := m\<rparr>) } } })"

definition vmm_unmap :: "u64 \<Rightarrow> u64 \<Rightarrow> vmm_state \<Rightarrow> (int \<times> vmm_state) option" where
  "vmm_unmap va sz s =
     (if sz = 0 then Some (-1, s)
      else if va AND (VMM_PAGE_SIZE - 1) \<noteq> 0 \<or> sz AND (VMM_PAGE_SIZE - 1) \<noteq> 0 then Some (-2, s)
      else do {
        cur \<leftarrow> find_exact (vma_pool (vmas s)) (vma_root (vmas s)) va;
        case cur of None \<Rightarrow> Some (-3, s)
        | Some c \<Rightarrow>
          if vma_size (vma_pool (vmas s) c) \<noteq> sz then Some (-3, s)
          else do {
            m \<leftarrow> vmm_unmap_pages va sz (vmm_mmu s);
            let s = s\<lparr>vmm_mmu := m\<rparr>;
            (h, root) \<leftarrow> rb_delete (vma_pool (vmas s)) (vma_root (vmas s)) (Some c);
            let v = (vmas s)\<lparr>vma_pool := h, vma_root := root\<rparr>;
            Some (0, s\<lparr>vmas := vma_free_node (Some c) v\<rparr>) } })"

definition vmm_protect :: "u64 \<Rightarrow> u64 \<Rightarrow> u32 \<Rightarrow> vmm_state \<Rightarrow> (int \<times> vmm_state) option" where
  "vmm_protect va sz attrs s =
     (if sz = 0 then Some (-1, s)
      else if va AND (VMM_PAGE_SIZE - 1) \<noteq> 0 \<or> sz AND (VMM_PAGE_SIZE - 1) \<noteq> 0 then Some (-2, s)
      else do {
        cur \<leftarrow> find_exact (vma_pool (vmas s)) (vma_root (vmas s)) va;
        case cur of None \<Rightarrow> Some (-3, s)
        | Some c \<Rightarrow>
          if vma_size (vma_pool (vmas s) c) \<noteq> sz then Some (-3, s)
          else do {
            let h = vma_pool (vmas s);
            let s = s\<lparr>vmas := (vmas s)\<lparr>vma_pool := h(c := (h c)\<lparr>vma_attrs := attrs\<rparr>)\<rparr>\<rparr>;
            m \<leftarrow> vmm_protect_pages va sz attrs (vmm_mmu s);
            Some (0, s\<lparr>vmm_mmu := m\<rparr>) } })"

text \<open>\<open>pa_out\<close> says whether the caller passed a pointer; the second component is what is stored there.\<close>

definition vmm_virt_to_phys :: "u64 \<Rightarrow> bool \<Rightarrow> vmm_state \<Rightarrow> (int \<times> u64 option) option" where
  "vmm_virt_to_phys va pa_out s =
     (if \<not> pa_out then Some (-1, None)
      else do {
        n \<leftarrow> find_le (vma_pool (vmas s)) (vma_root (vmas s)) va;
        case n of None \<Rightarrow> Some (0, Some va)
        | Some n \<Rightarrow>
          let v = vma_pool (vmas s) n
          in if va \<ge> vma_va v \<and> va < vma_va v + vma_size v
             then Some (0, Some (vma_pa v + (va - vma_va v)))
             else Some (0, Some va) })"

text \<open>What \<open>vmm_dump\<close> prints: one line (start, end, physical start, attributes) per area.\<close>

partial_function (option) inorder_dump :: "vma_heap \<Rightarrow> nat option \<Rightarrow> (u64 \<times> u64 \<times> u64 \<times> u32) list option" where
  "inorder_dump h n = (case n of None \<Rightarrow> Some []
   | Some n \<Rightarrow> Option.bind (inorder_dump h (left (h n))) (\<lambda>l.
       Option.bind (inorder_dump h (right (h n))) (\<lambda>r.
         Some (l @ [(vma_va (h n), vma_va (h n) + vma_size (h n), vma_pa (h n), vma_attrs (h n))] @ r))))"

definition vmm_dump :: "vmm_state \<Rightarrow> (u64 \<times> u64 \<times> u64 \<times> u32) list option" where
  "vmm_dump s = inorder_dump (vma_pool (vmas s)) (vma_root (vmas s))"

subsection \<open>Specification: a list of areas\<close>

record area =
  a_va :: u64
  a_pa :: u64
  a_size :: u64
  a_attrs :: u32

definition a_end :: "area \<Rightarrow> nat" where
  "a_end a = unat (a_va a) + unat (a_size a)"

definition a_meets :: "u64 \<Rightarrow> u64 \<Rightarrow> area \<Rightarrow> bool" where
  "a_meets va sz a \<longleftrightarrow> unat (a_va a) < unat va + unat sz \<and> unat va < a_end a"

definition spec_map :: "u64 \<Rightarrow> u64 \<Rightarrow> u64 \<Rightarrow> u32 \<Rightarrow> area list \<Rightarrow> int \<times> area list" where
  "spec_map va pa sz attrs as =
     (if sz = 0 then (-1, as)
      else if \<not> page_aligned va \<or> \<not> page_aligned pa \<or> \<not> page_aligned sz then (-2, as)
      else if \<exists>a\<in>set as. a_meets va sz a then (-3, as)
      else if VMA_POOL_CAP \<le> length as then (-4, as)
      else (0, filter (\<lambda>a. a_va a < va) as @
               \<lparr>a_va = va, a_pa = pa, a_size = sz, a_attrs = attrs\<rparr> # filter (\<lambda>a. va < a_va a) as))"

definition spec_unmap :: "u64 \<Rightarrow> u64 \<Rightarrow> area list \<Rightarrow> int \<times> area list" where
  "spec_unmap va sz as =
     (if sz = 0 then (-1, as)
      else if \<not> page_aligned va \<or> \<not> page_aligned sz then (-2, as)
      else if \<exists>a\<in>set as. a_va a = va \<and> a_size a = sz then (0, filter (\<lambda>a. a_va a \<noteq> va) as)
      else (-3, as))"

definition spec_protect :: "u64 \<Rightarrow> u64 \<Rightarrow> u32 \<Rightarrow> area list \<Rightarrow> int \<times> area list" where
  "spec_protect va sz attrs as =
     (if sz = 0 then (-1, as)
      else if \<not> page_aligned va \<or> \<not> page_aligned sz then (-2, as)
      else if \<exists>a\<in>set as. a_va a = va \<and> a_size a = sz
      then (0, map (\<lambda>a. if a_va a = va then a\<lparr>a_attrs := attrs\<rparr> else a) as)
      else (-3, as))"

definition spec_translate :: "u64 \<Rightarrow> area list \<Rightarrow> u64" where
  "spec_translate va as = (case find (\<lambda>a. a_va a \<le> va \<and> unat va < a_end a) as of
     None \<Rightarrow> va | Some a \<Rightarrow> a_pa a + (va - a_va a))"

definition area_of :: "vma_heap \<Rightarrow> nat \<Rightarrow> area" where
  "area_of h n = \<lparr>a_va = vma_va (h n), a_pa = vma_pa (h n), a_size = vma_size (h n), a_attrs = vma_attrs (h n)\<rparr>"

text \<open>Areas are not empty, do not wrap, and lie one after the other.\<close>

definition areas_ok :: "area list \<Rightarrow> bool" where
  "areas_ok as \<longleftrightarrow> (\<forall>a\<in>set as. a_size a \<noteq> 0 \<and> a_end a < 2 ^ 64) \<and>
     sorted_wrt (\<lambda>a b. a_end a \<le> unat (a_va b)) as"

text \<open>
  The invariant: the tree holds the nodes \<open>ns\<close> in order, the free list holds the nodes \<open>fs\<close>, and
  together they are the whole pool. \<open>vmm_areas\<close> is the abstraction relation.
\<close>

definition vma_inv :: "vma_store \<Rightarrow> nat list \<Rightarrow> nat list \<Rightarrow> bool" where
  "vma_inv v ns fs \<longleftrightarrow> vma_list (vma_pool v) (vma_root v) ns \<and> areas_ok (map (area_of (vma_pool v)) ns) \<and>
     flist (vma_pool v) (vma_free_list v) fs \<and> distinct (fs @ ns) \<and> set (fs @ ns) = {..<VMA_POOL_CAP}"

definition vmm_areas :: "vmm_state \<Rightarrow> area list \<Rightarrow> bool" where
  "vmm_areas s as \<longleftrightarrow> (\<exists>ns fs. vma_inv (vmas s) ns fs \<and> as = map (area_of (vma_pool (vmas s))) ns)"

text \<open>The kernel page table, once it is set, is well formed.\<close>

definition ttbr1_ok :: "mmu_state \<Rightarrow> bool" where
  "ttbr1_ok m \<longleftrightarrow> (ttbr1_el1 m \<noteq> 0 \<longrightarrow> mmu_inv (ttbr1_el1 m) m)"

text \<open>
  The outcome of trying to map \<open>k\<close> pages one after the other: each is mapped unless memory ran out,
  no other translation changes, and no more than three pages of memory became tables for each page.
\<close>

definition run_tried :: "u64 \<Rightarrow> u64 \<Rightarrow> u64 \<Rightarrow> u64 \<Rightarrow> mmu_state \<Rightarrow> nat \<Rightarrow> mmu_state \<Rightarrow> bool" where
  "run_tried pgd va pa attrs m k m' \<longleftrightarrow> mmu_inv pgd m' \<and> grows pgd m m' \<and>
     (\<forall>i<k. pte_of (mmu_mem m') pgd (va + of_nat i * 4096) = Some (pte (pa + of_nat i * 4096) attrs) \<or>
        pmm_pages_free (mmu_pmm m') = 0) \<and>
     (\<forall>vb. (\<forall>i<k. \<not> same_page (va + of_nat i * 4096) vb) \<longrightarrow>
        pte_of (mmu_mem m') pgd vb = pte_of (mmu_mem m) pgd vb) \<and>
     pmm_pages_free (mmu_pmm m) \<le> pmm_pages_free (mmu_pmm m') + 3 * k"

text \<open>
  A sequence of calls after \<open>vmm_init\<close>: the answers and the state at the end, in the code and in the specification.
\<close>

datatype vcall = CMap u64 u64 u64 u32 | CUnmap u64 u64 | CProtect u64 u64 u32

fun vmm_call :: "vcall \<Rightarrow> vmm_state \<Rightarrow> (int \<times> vmm_state) option" where
  "vmm_call (CMap va pa sz attrs) s = vmm_map va pa sz attrs s"
| "vmm_call (CUnmap va sz) s = vmm_unmap va sz s"
| "vmm_call (CProtect va sz attrs) s = vmm_protect va sz attrs s"

fun spec_call :: "vcall \<Rightarrow> area list \<Rightarrow> int \<times> area list" where
  "spec_call (CMap va pa sz attrs) as = spec_map va pa sz attrs as"
| "spec_call (CUnmap va sz) as = spec_unmap va sz as"
| "spec_call (CProtect va sz attrs) as = spec_protect va sz attrs as"

fun vmm_calls :: "vcall list \<Rightarrow> vmm_state \<Rightarrow> (int list \<times> vmm_state) option" where
  "vmm_calls [] s = Some ([], s)"
| "vmm_calls (c # cs) s = do {
     (r, s) \<leftarrow> vmm_call c s;
     (rs, s) \<leftarrow> vmm_calls cs s;
     Some (r # rs, s) }"

fun spec_calls :: "vcall list \<Rightarrow> area list \<Rightarrow> int list \<times> area list" where
  "spec_calls [] as = ([], as)"
| "spec_calls (c # cs) as =
     (let (r, as) = spec_call c as; (rs, as) = spec_calls cs as in (r # rs, as))"

text \<open>A range to be mapped that does not reach the end of the address space and is not larger than it can translate.\<close>

definition range_ok :: "u64 \<Rightarrow> u64 \<Rightarrow> bool" where
  "range_ok va sz \<longleftrightarrow> unat va + unat sz < 2 ^ 64 \<and> unat sz \<le> 2 ^ 48"

text \<open>The static data of the manager before \<open>vmm_init\<close>, and a machine whose kernel table is set.\<close>

definition vmm_boot :: vmm_state where
  "vmm_boot = \<lparr>vmas = \<lparr>vma_pool = (\<lambda>_. \<lparr>left = None, right = None, parent = None, color = RB_RED,
       vma_va = 0, vma_pa = 0, vma_size = 0, vma_attrs = 0\<rparr>),
     vma_free_list = None, vma_initialized = False, vma_root = None\<rparr>,
     vmm_mmu = mmu_demo\<lparr>ttbr1_el1 := 0x40000000\<rparr>\<rparr>"

text \<open>One area, the last page of the address space; node 1 is free.\<close>

definition vmm_top :: vmm_state where
  "vmm_top = vmm_boot\<lparr>vmas := (vmas vmm_boot)\<lparr>
     vma_pool := (vma_pool (vmas vmm_boot))(0 := \<lparr>left = None, right = None, parent = None, color = RB_BLACK,
       vma_va = 0xFFFFFFFFFFFFF000, vma_pa = 0x4000, vma_size = 0x1000, vma_attrs = 0\<rparr>),
     vma_free_list := Some 1, vma_root := Some 0\<rparr>, vmm_mmu := mmu_demo\<rparr>"

section \<open>Lemmas\<close>

subsection \<open>Areas\<close>

lemma area_of_sel [simp]:
  "a_va (area_of h n) = vma_va (h n)" "a_pa (area_of h n) = vma_pa (h n)"
  "a_size (area_of h n) = vma_size (h n)" "a_attrs (area_of h n) = vma_attrs (h n)"
  by (simp_all add: area_of_def)

lemma area_of_more: "rb_node.more (h' n) = rb_node.more (h n) \<Longrightarrow> area_of h' n = area_of h n"
  by (simp add: area_of_def vma_fields [of "h' n" "h n"])

lemma vma_list_shape:
  assumes "vma_list h root ns"
    and eq: "\<And>a. a \<in> set ns \<Longrightarrow> left (h' a) = left (h a) \<and> right (h' a) = right (h a) \<and>
      parent (h' a) = parent (h a) \<and> color (h' a) = color (h a) \<and> vma_va (h' a) = vma_va (h a)"
  shows "vma_list h' root ns"
proof -
  from assms(1) obtain t where t: "rep h root t" "rb_tree (color \<circ> h) t" "inord t = ns" "by_va h ns"
    by (auto simp: vma_list_def)
  have "tree_ok h' None t = tree_ok h None t" by (rule tree_ok_cong) (use eq t(3) in simp)
  moreover have "rbt (color \<circ> h') t k = rbt (color \<circ> h) t k" for k
    by (rule rbt_cong) (use eq t(3) in simp)
  moreover have "blk (color \<circ> h') t = blk (color \<circ> h) t"
    by (rule blk_cong) (use eq t(3) in simp)
  moreover have "by_va h' ns" by (rule sorted_wrt_mono_rel [OF _ t(4)]) (use eq in simp)
  ultimately show ?thesis using t by (auto simp: vma_list_def rep_def rb_tree_def)
qed

lemma vma_list_cong:
  assumes "vma_list h root ns" "\<And>a. a \<in> set ns \<Longrightarrow> h' a = h a"
  shows "vma_list h' root ns"
  by (rule vma_list_shape [OF assms(1)]) (simp add: assms(2))

text \<open>The tree of areas is an ordered set of disjoint areas.\<close>

interpretation tree_store: area_store
  "\<lambda>(h, root) ns. vma_list h root ns \<and> areas_ok (map (area_of h) ns)"
  "\<lambda>(h, root) n. vma_va (h n)" "\<lambda>(h, root) n. vma_size (h n)"
  "\<lambda>(h, root). find_le h root" "\<lambda>(h, root). find_ge h root"
proof (unfold_locales, goal_cases)
  case (1 s ns)
  then show ?case by (auto simp: vma_list_def)
next
  case (2 s ns)
  then show ?case by (auto simp: areas_ok_def a_end_def sorted_wrt_map)
next
  case (3 s ns a)
  then show ?case by (auto simp: areas_ok_def a_end_def)
qed (auto simp: vma_list_lookups)

lemma overlaps_iff:
  assumes "unat va + unat sz < 2 ^ 64" "a_end (area_of h n) < 2 ^ 64" "sz \<noteq> 0" "vma_size (h n) \<noteq> 0"
  shows "overlaps h (Some n) va sz \<longleftrightarrow> a_meets va sz (area_of h n)"
proof -
  have "unat (va + sz) = unat va + unat sz" "unat (vma_va (h n) + vma_size (h n)) = a_end (area_of h n)"
    using assms(1,2) by (simp_all add: a_end_def unat_add_nowrap)
  then show ?thesis by (auto simp: overlaps_def a_meets_def word_le_nat_alt)
qed

lemma conflict_iff:
  assumes inv: "vma_list h root ns" "areas_ok (map (area_of h) ns)" and nowrap: "unat va + unat sz < 2 ^ 64" "sz \<noteq> 0"
  shows "\<exists>p q. find_le h root va = Some p \<and> find_ge h root va = Some q \<and>
    (overlaps h p va sz \<or> overlaps h q va sz \<longleftrightarrow> (\<exists>n\<in>set ns. a_meets va sz (area_of h n)))"
proof -
  have "0 < unat sz" using nowrap(2) by (simp add: unat_gt_0)
  from tree_store.neighbours [of "(h, root)" ns, OF _ this, of va] inv obtain p q where
    pq: "find_le h root va = Some p" "find_ge h root va = Some q" "set_option p \<union> set_option q \<subseteq> set ns"
      "(\<exists>n\<in>set ns. a_meets va sz (area_of h n)) \<longleftrightarrow> (\<exists>n\<in>set_option p \<union> set_option q. a_meets va sz (area_of h n))"
    by (auto simp: tree_store.meets_def a_meets_def a_end_def)
  have "overlaps h (Some n) va sz \<longleftrightarrow> a_meets va sz (area_of h n)" if "n \<in> set ns" for n
    by (rule overlaps_iff) (use that inv(2) nowrap in \<open>auto simp: areas_ok_def\<close>)
  moreover have "\<not> overlaps h None va sz" by (simp add: overlaps_def)
  ultimately have "overlaps h p va sz \<or> overlaps h q va sz \<longleftrightarrow>
      (\<exists>n\<in>set_option p \<union> set_option q. a_meets va sz (area_of h n))"
    using pq(3) by (cases p; cases q) auto
  with pq show ?thesis by auto
qed

lemma areas_ok_insert:
  assumes "areas_ok (xs @ ys)" "a_size a \<noteq> 0" "a_end a < 2 ^ 64"
    and "\<And>x. x \<in> set xs \<Longrightarrow> a_end x \<le> unat (a_va a)" "\<And>y. y \<in> set ys \<Longrightarrow> a_end a \<le> unat (a_va y)"
  shows "areas_ok (xs @ a # ys)"
  using assms by (auto simp: areas_ok_def sorted_wrt_append)

text \<open>An area that meets no other fits between those below and those above.\<close>

lemma areas_fit:
  assumes ok: "areas_ok as" and new: "\<not> (\<exists>a\<in>set as. a_meets va sz a)" and sz: "sz \<noteq> 0"
    and a: "a \<in> set as"
  shows "a_va a < va \<Longrightarrow> a_end a \<le> unat va" "va < a_va a \<Longrightarrow> unat va + unat sz \<le> unat (a_va a)" "a_va a \<noteq> va"
proof -
  have "\<not> a_meets va sz a" using new a by blast
  moreover have "unat sz \<noteq> 0" "unat (a_size a) \<noteq> 0" using sz ok a by (auto simp: areas_ok_def unat_eq_0)
  ultimately show "a_va a < va \<Longrightarrow> a_end a \<le> unat va" "va < a_va a \<Longrightarrow> unat va + unat sz \<le> unat (a_va a)" "a_va a \<noteq> va"
    by (auto simp: a_meets_def a_end_def word_less_nat_alt)
qed

subsection \<open>The tree and the pool\<close>

lemma filter_areas: "map (area_of h) (filter (\<lambda>n. P (area_of h n)) ns) = filter P (map (area_of h) ns)"
  by (induction ns) auto

lemma filter_split:
  "by_va h ns \<Longrightarrow> filter (\<lambda>a. vma_va (h a) < va) ns @ filter (\<lambda>a. va < vma_va (h a)) ns
     = filter (\<lambda>a. vma_va (h a) \<noteq> va) ns"
proof (induction ns)
  case (Cons n ns)
  show ?case
  proof (cases "vma_va (h n) < va")
    case False
    then have "\<forall>a\<in>set ns. va < vma_va (h a)" using Cons.prems by force
    then have "filter (\<lambda>a. vma_va (h a) < va) ns = []" "filter (\<lambda>a. vma_va (h a) \<noteq> va) ns = ns"
      "filter (\<lambda>a. va < vma_va (h a)) ns = ns"
      by (auto simp: filter_empty_conv filter_id_conv dest: less_imp_not_less)
    with False show ?thesis by (auto simp: order_less_le)
  qed (use Cons in auto)
qed simp

lemma vma_map_store:
  assumes inv: "vma_inv v ns (n # fs)" and nowrap: "unat va + unat sz < 2 ^ 64" "sz \<noteq> 0"
    and new: "\<not> (\<exists>a\<in>set (map (area_of (vma_pool v)) ns). a_meets va sz a)"
  shows "\<exists>v1 h' root'. vma_alloc_node v = (Some n, v1) \<and>
    vma_insert ((vma_pool v1)(n := set_color RB_RED ((vma_pool v1 n)\<lparr>vma_va := va, vma_pa := pa, vma_size := sz,
      vma_attrs := attrs\<rparr>))) (vma_root v1) n va = Some (h', root') \<and>
    vma_inv (v1\<lparr>vma_pool := h', vma_root := root'\<rparr>)
      (filter (\<lambda>a. vma_va (vma_pool v a) < va) ns @ n # filter (\<lambda>a. va < vma_va (vma_pool v a)) ns) fs \<and>
    area_of h' n = \<lparr>a_va = va, a_pa = pa, a_size = sz, a_attrs = attrs\<rparr> \<and>
    (\<forall>a\<in>set ns. area_of h' a = area_of (vma_pool v) a) \<and> vma_initialized v1 = vma_initialized v"
proof -
  let ?h = "vma_pool v" and ?a = "\<lparr>a_va = va, a_pa = pa, a_size = sz, a_attrs = attrs\<rparr>"
  have i: "vma_list ?h (vma_root v) ns" "areas_ok (map (area_of ?h) ns)" "flist ?h (vma_free_list v) (n # fs)"
    "distinct (n # fs @ ns)" "set (n # fs @ ns) = {..<VMA_POOL_CAP}"
    using inv by (auto simp: vma_inv_def)
  from vma_alloc_node_spec [OF i(3)] i(4) obtain v1 where
    v1: "vma_alloc_node v = (Some n, v1)" "flist (vma_pool v1) (vma_free_list v1) fs" "vma_root v1 = vma_root v"
      "vma_initialized v1 = vma_initialized v" "\<And>a. a \<noteq> n \<Longrightarrow> vma_pool v1 a = ?h a" by auto
  define h2 where "h2 = (vma_pool v1)(n := set_color RB_RED ((vma_pool v1 n)\<lparr>vma_va := va, vma_pa := pa, vma_size := sz, vma_attrs := attrs\<rparr>))"
  have out: "n \<notin> set ns" "n \<notin> set fs" "set fs \<inter> set ns = {}" using i(4) by auto
  have h2: "h2 a = ?h a" if "a \<noteq> n" for a using that v1(5) by (simp add: h2_def)
  have h2ns: "h2 a = ?h a" if "a \<in> set ns" for a using h2 out(1) that by metis
  have h2n: "area_of h2 n = ?a" by (simp add: h2_def area_of_def)
  have list2: "vma_list h2 (vma_root v) ns" by (rule vma_list_cong [OF i(1)]) (metis h2 out(1))
  note fit = areas_fit [OF i(2) new nowrap(2)]
  have fitn: "a_end (area_of ?h a) \<le> unat va" if "a \<in> set ns" "vma_va (?h a) < va" for a
    using fit(1) [of "area_of ?h a"] that by simp
  have fitn': "unat va + unat sz \<le> unat (vma_va (?h a))" if "a \<in> set ns" "va < vma_va (?h a)" for a
    using fit(2) [of "area_of ?h a"] that by simp
  have ne: "vma_va (h2 a) \<noteq> va" if "a \<in> set ns" for a
  proof -
    have "h2 a = ?h a" using h2 that out(1) by metis
    with fit(3) [of "area_of ?h a"] that show ?thesis by simp
  qed
  have ne': "vma_va (?h a) \<noteq> va" if "a \<in> set ns" for a using ne [OF that] h2ns [OF that] by simp
  have va: "vma_va (h2 n) = va" by (simp add: h2_def)
  from vma_insert_spec [OF list2 out(1) va ne] obtain h' root' where
    ins: "vma_insert h2 (vma_root v) n va = Some (h', root')"
      "vma_list h' root' (filter (\<lambda>a. vma_va (h2 a) < va) ns @ n # filter (\<lambda>a. va < vma_va (h2 a)) ns)"
      "\<And>a. rb_node.more (h' a) = rb_node.more (h2 a)" "\<And>a. a \<notin> set ns \<union> {n} \<Longrightarrow> h' a = h2 a" by blast
  let ?lo = "filter (\<lambda>a. vma_va (?h a) < va) ns" and ?hi = "filter (\<lambda>a. va < vma_va (?h a)) ns"
  have f: "filter (\<lambda>a. vma_va (h2 a) < va) ns = ?lo" "filter (\<lambda>a. va < vma_va (h2 a)) ns = ?hi"
    by (rule filter_cong; simp add: h2ns)+
  have ar: "area_of h' a = area_of ?h a" if "a \<in> set ns" for a
    using area_of_more [of h' a h2, OF ins(3)] h2ns [OF that] by (simp add: area_of_def)
  have arn: "area_of h' n = ?a" using area_of_more [of h' n h2, OF ins(3)] h2n by simp
  have "areas_ok (map (area_of ?h) ?lo @ ?a # map (area_of ?h) ?hi)"
  proof (rule areas_ok_insert)
    have "areas_ok (map (area_of ?h) (filter (\<lambda>a. vma_va (?h a) \<noteq> va) ns))"
      using i(2) by (auto simp: areas_ok_def sorted_wrt_map intro: sorted_wrt_filter)
    moreover have "?lo @ ?hi = filter (\<lambda>a. vma_va (?h a) \<noteq> va) ns"
      using i(1) by (intro filter_split) (simp add: vma_list_def)
    ultimately show "areas_ok (map (area_of ?h) ?lo @ map (area_of ?h) ?hi)" by (simp flip: map_append)
  qed (use nowrap fitn fitn' in \<open>auto simp: a_end_def\<close>)
  moreover have "map (area_of h') ?lo = map (area_of ?h) ?lo" "map (area_of h') ?hi = map (area_of ?h) ?hi"
    using ar by simp_all
  ultimately have "areas_ok (map (area_of h') (?lo @ n # ?hi))" by (simp only: map_append list.map arn)
  moreover have "flist h' (vma_free_list v1) fs"
    using v1(2) flist_cong [of fs h' "vma_pool v1"] ins(4) h2 v1(5) out by (metis (no_types, lifting) Un_iff disjoint_iff empty_iff insertE)
  moreover have sets: "set (?lo @ n # ?hi) = insert n (set ns)" "distinct (?lo @ n # ?hi)"
    using ne' i(4) by (auto simp: order_less_le)
  ultimately have "vma_inv (v1\<lparr>vma_pool := h', vma_root := root'\<rparr>) (?lo @ n # ?hi) fs"
    unfolding vma_inv_def using ins(2) f i(4,5) out by (simp del: map_append)
  with v1(1,3,4) ins(1) ar arn show ?thesis unfolding h2_def by auto
qed

lemma vma_unmap_store:
  assumes inv: "vma_inv v ns fs" and c: "c \<in> set ns"
  shows "\<exists>h' root'. rb_delete (vma_pool v) (vma_root v) (Some c) = Some (h', root') \<and>
    vma_inv (vma_free_node (Some c) (v\<lparr>vma_pool := h', vma_root := root'\<rparr>)) (remove1 c ns) (c # fs) \<and>
    (\<forall>a. area_of (vma_pool (vma_free_node (Some c) (v\<lparr>vma_pool := h', vma_root := root'\<rparr>))) a = area_of (vma_pool v) a)"
proof -
  let ?h = "vma_pool v"
  have i: "vma_list ?h (vma_root v) ns" "areas_ok (map (area_of ?h) ns)" "flist ?h (vma_free_list v) fs"
    "distinct (fs @ ns)" "set (fs @ ns) = {..<VMA_POOL_CAP}"
    using inv by (auto simp: vma_inv_def)
  from vma_delete_spec [OF i(1) c] obtain h' root' where
    d: "rb_delete ?h (vma_root v) (Some c) = Some (h', root')" "vma_list h' root' (remove1 c ns)"
      "\<And>a. rb_node.more (h' a) = rb_node.more (?h a)" "\<And>a. a \<notin> set ns \<Longrightarrow> h' a = ?h a" by blast
  define v' where "v' = vma_free_node (Some c) (v\<lparr>vma_pool := h', vma_root := root'\<rparr>)"
  have pool: "vma_pool v' = h'(c := set_left (vma_free_list v) (h' c))" "vma_root v' = root'"
    by (simp_all add: v'_def vma_free_node_def)
  have ar: "area_of (vma_pool v') a = area_of ?h a" for a
    using area_of_more [of h' a ?h, OF d(3)] by (auto simp: pool area_of_def)
  have cr: "c \<notin> set (remove1 c ns)" using i(4) by simp
  have list: "vma_list (vma_pool v') root' (remove1 c ns)"
    by (rule vma_list_cong [OF d(2)]) (use cr in \<open>auto simp: pool\<close>)
  have "c \<notin> set fs" using i(4) c by auto
  moreover have "flist h' (vma_free_list v) fs = flist ?h (vma_free_list v) fs"
  proof (rule flist_cong)
    fix a assume "a \<in> set fs"
    then have "a \<notin> set ns" using i(4) by auto
    from d(4) [OF this] show "left (h' a) = left (?h a)" by simp
  qed
  ultimately have "flist (vma_pool v') (vma_free_list v') (c # fs)"
    unfolding v'_def by (intro vma_free_node_spec) (use i(3) in simp_all)
  moreover have "areas_ok (map (area_of ?h) (remove1 c ns))"
  proof -
    have "sorted_wrt (\<lambda>x y. a_end (area_of ?h x) \<le> unat (a_va (area_of ?h y))) (remove1 c ns)"
      by (rule sorted_wrt_remove) (use i(2) in \<open>simp add: areas_ok_def sorted_wrt_map\<close>)
    then show ?thesis using i(2) set_remove1_subset [of c ns] by (auto simp: areas_ok_def sorted_wrt_map)
  qed
  moreover have "area_of (vma_pool v') = area_of ?h" by (rule ext) (rule ar)
  ultimately have "areas_ok (map (area_of (vma_pool v')) (remove1 c ns))"
    "flist (vma_pool v') (vma_free_list v') (c # fs)" by simp_all
  moreover have "set (c # fs @ remove1 c ns) = {..<VMA_POOL_CAP}" "distinct (c # fs @ remove1 c ns)"
    using i(4,5) c by (auto simp: set_remove1_eq)
  ultimately have "vma_inv v' (remove1 c ns) (c # fs)" using list by (simp add: vma_inv_def pool(2))
  with d(1) ar show ?thesis unfolding v'_def by blast
qed

subsection \<open>The page-table loops\<close>

lemma vmm_loop:
  assumes "page_aligned sz" "k = unat sz div 4096"
  shows "while_u64 0 sz VMM_PAGE_SIZE f m = for_upto 0 k (\<lambda>i. f (of_nat i * 4096)) m"
  using while_u64_pages [of 0 sz k f m] assms by (simp add: VMM_PAGE_SIZE_def page_aligned_def)

lemma map_try_loop:
  assumes inv: "mmu_inv pgd m" and al: "page_aligned va" and k: "k \<le> 2 ^ 36"
  shows "\<exists>m'. for_upto 0 k (\<lambda>i m. do {
      (r, m) \<leftarrow> mmu_map_page pgd (va + of_nat i * 4096) (pa + of_nat i * 4096) attrs m; Some m }) m = Some m' \<and>
    run_tried pgd va pa attrs m k m'"
proof (rule for_upto_inv [where P = "run_tried pgd va pa attrs m"], goal_cases)
  case (3 j t)
  let ?va = "va + of_nat j * 4096" and ?pa = "pa + of_nat j * 4096"
  have t: "mmu_inv pgd t" "grows pgd m t" using 3 by (simp_all add: run_tried_def)
  from mmu_map_page_spec [OF t(1), of ?va ?pa attrs] obtain r u where
    u: "mmu_map_page pgd ?va ?pa attrs t = Some (r, u)" "mmu_inv pgd u" "grows pgd t u"
    and res: "r = -1 \<and> pmm_pages_free (mmu_pmm u) = 0 \<and> (\<forall>vb. pte_of (mmu_mem u) pgd vb = pte_of (mmu_mem t) pgd vb) \<or>
      r = 0 \<and> (\<forall>vb. pte_of (mmu_mem u) pgd vb = (if same_page ?va vb then Some (pte ?pa attrs) else pte_of (mmu_mem t) pgd vb))"
    unfolding pte_def by blast
  have j: "j < 2 ^ 36" using 3 k by linarith
  have other: "\<not> same_page ?va (va + of_nat i * 4096)" if "i < j" for i
    using same_page_step [OF al j, of i] that j by simp
  have free: "pmm_pages_free (mmu_pmm u) \<le> pmm_pages_free (mmu_pmm t)" using u(3) by (simp add: grows_def)
  have "run_tried pgd va pa attrs m (Suc j) u"
    using 3 res u(2) grows_trans [OF t(2) u(3)] other free mmu_map_page_count(1) [OF t(1) u(1)]
    unfolding run_tried_def by (auto simp: less_Suc_eq)
  with u(1) show ?case by simp
qed (use inv in \<open>auto simp: run_tried_def\<close>)

lemma unmap_loop:
  assumes inv: "mmu_inv pgd m"
  shows "\<exists>m'. for_upto 0 k (\<lambda>i m. Some (snd (mmu_unmap_page pgd (va + of_nat i * 4096) m))) m = Some m' \<and>
    mmu_inv pgd m' \<and> grows pgd m m' \<and>
    (\<forall>vb. pte_of (mmu_mem m') pgd vb =
       (if \<exists>i<k. same_page (va + of_nat i * 4096) vb then None else pte_of (mmu_mem m) pgd vb))"
proof (rule for_upto_inv [where P = "\<lambda>j m'. mmu_inv pgd m' \<and> grows pgd m m' \<and>
    (\<forall>vb. pte_of (mmu_mem m') pgd vb =
       (if \<exists>i<j. same_page (va + of_nat i * 4096) vb then None else pte_of (mmu_mem m) pgd vb))"], goal_cases)
  case (3 j t)
  from mmu_unmap_page_spec [of pgd t "va + of_nat j * 4096"] 3 obtain r u where
    u: "mmu_unmap_page pgd (va + of_nat j * 4096) t = (r, u)" "mmu_inv pgd u" "grows pgd t u"
    and res: "r = -1 \<and> u = t \<and> pte_of (mmu_mem t) pgd (va + of_nat j * 4096) = None \<or>
      r = 0 \<and> (\<forall>vb. pte_of (mmu_mem u) pgd vb =
        (if same_page (va + of_nat j * 4096) vb then None else pte_of (mmu_mem t) pgd vb))" by blast
  have "pte_of (mmu_mem u) pgd vb =
      (if same_page (va + of_nat j * 4096) vb then None else pte_of (mmu_mem t) pgd vb)" for vb
    using res pte_of_same_page [of "va + of_nat j * 4096" vb "mmu_mem t" pgd] by auto
  with 3 u grows_trans [of pgd m t u] show ?case by (auto simp: less_Suc_eq)
qed (use inv in auto)

lemma protect_loop:
  assumes inv: "mmu_inv pgd m"
  shows "\<exists>m'. for_upto 0 k (\<lambda>i m. Some (snd (mmu_update_page_attrs pgd (va + of_nat i * 4096) attrs m))) m = Some m' \<and>
    mmu_inv pgd m' \<and> grows pgd m m' \<and>
    (\<forall>vb. (\<forall>i<k. \<not> same_page (va + of_nat i * 4096) vb) \<longrightarrow> pte_of (mmu_mem m') pgd vb = pte_of (mmu_mem m) pgd vb)"
proof (rule for_upto_inv [where P = "\<lambda>j m'. mmu_inv pgd m' \<and> grows pgd m m' \<and>
    (\<forall>vb. (\<forall>i<j. \<not> same_page (va + of_nat i * 4096) vb) \<longrightarrow> pte_of (mmu_mem m') pgd vb = pte_of (mmu_mem m) pgd vb)"],
    goal_cases)
  case (3 j t)
  from mmu_update_page_attrs_spec [of pgd t "va + of_nat j * 4096" attrs] 3 obtain r u where
    u: "mmu_update_page_attrs pgd (va + of_nat j * 4096) attrs t = (r, u)" "mmu_inv pgd u" "grows pgd t u"
    and res: "\<And>vb. \<not> same_page (va + of_nat j * 4096) vb \<Longrightarrow> pte_of (mmu_mem u) pgd vb = pte_of (mmu_mem t) pgd vb"
    by fastforce
  with 3 grows_trans [of pgd m t u] show ?case by (auto simp: less_Suc_eq)
qed (use inv in auto)

lemma grows_emit: "grows pgd m (emit ops m') = grows pgd m m'"
  by (simp add: grows_def)

lemma mmu_inv_emit [simp]: "mmu_inv pgd (emit ops m) = mmu_inv pgd m"
  by (simp add: mmu_inv_def)

text \<open>Cache maintenance over an aligned range only adds to the instruction trace.\<close>

lemma line_loop:
  assumes "page_aligned va" "page_aligned sz" "unat va + unat sz < 2 ^ 64"
  shows "\<exists>ops. while_u64 (va AND NOT (64 - 1)) (va + sz) 64 (\<lambda>addr s. Some (emit [f addr] s)) m = Some (emit ops m)"
proof -
  obtain q where q: "unat sz = q * 4096"
    using assms(2) div_mult_mod_eq [of "unat sz" 4096] by (auto simp: page_aligned_unat)
  have m: "(64 - 1 :: u64) = mask 6" by (simp add: mask_eq_exp_minus_1)
  have start: "va AND NOT (64 - 1) = va" unfolding m
    by (rule bit_word_eqI) (use assms(1) in \<open>auto simp: bit_simps page_aligned_bits\<close>)
  have u: "unat (va + sz) = unat va + unat sz" by (rule unat_add_nowrap [OF assms(3)])
  have "while_u64 va (va + sz) 64 (\<lambda>addr s. Some (emit [f addr] s)) m
      = for_upto 0 (q * 64) (\<lambda>i s. Some (emit [f (va + of_nat i * 64)] s)) m"
    by (rule while_u64_count) (use assms(3) u q in simp_all)
  then show ?thesis unfolding start emit_loop by blast
qed

lemma grows_ttbr1: "grows pgd m m' \<Longrightarrow> ttbr1_el1 m' = ttbr1_el1 m"
  by (simp add: grows_def regs_def)

lemma emit_ttbr1 [simp]: "ttbr1_el1 (emit ops m) = ttbr1_el1 m"
  by (simp add: emit_def)

lemma vmm_map_pages_spec:
  assumes ok: "ttbr1_ok m" and al: "page_aligned va" "page_aligned sz"
    and nowrap: "unat va + unat sz < 2 ^ 64" "unat sz \<le> 2 ^ 48"
  shows "\<exists>m'. vmm_map_pages va pa sz attrs m = Some m' \<and> ttbr1_ok m' \<and> ttbr1_el1 m' = ttbr1_el1 m \<and>
    (if ttbr1_el1 m = 0 then m' = m
     else \<exists>m1 ops. run_tried (ttbr1_el1 m) va pa (vmm_pte_attrs attrs) m (unat sz div 4096) m1 \<and> m' = emit ops m1)"
proof (cases "ttbr1_el1 m = 0")
  case True
  then show ?thesis using ok by (simp add: vmm_map_pages_def mmu_get_ttbr1_def)
next
  case False
  let ?p = "ttbr1_el1 m" and ?k = "unat sz div 4096"
  have inv: "mmu_inv ?p m" using ok False by (simp add: ttbr1_ok_def)
  have "?k \<le> 2 ^ 48 div 4096" using nowrap(2) by (rule div_le_mono)
  then have "?k \<le> 2 ^ 36" by simp
  from map_try_loop [OF inv al(1) this, of pa "vmm_pte_attrs attrs"] obtain m1 where
    m1: "for_upto 0 ?k (\<lambda>i m. do {
      (r, m) \<leftarrow> mmu_map_page ?p (va + of_nat i * 4096) (pa + of_nat i * 4096) (vmm_pte_attrs attrs) m; Some m }) m = Some m1"
      "run_tried ?p va pa (vmm_pte_attrs attrs) m ?k m1" by blast
  obtain o1 where o1: "cache_flush_range va sz m1 = Some (emit o1 m1)"
    using line_loop [OF al nowrap(1), of DC_CIVAC m1] by (auto simp: cache_flush_range_def)
  obtain o2 where o2: "icache_invalidate_range va sz (emit o1 m1) = Some (emit o2 m1)"
    using line_loop [OF al nowrap(1), of IC_IVAU "emit o1 m1"] by (auto simp: icache_invalidate_range_def)
  have "\<exists>ops. vmm_map_pages va pa sz attrs m = Some (emit ops m1)"
    using False m1(1) o1 o2 tlb_flush_range_spec [OF al nowrap(1)]
    by (auto simp: vmm_map_pages_def mmu_get_ttbr1_def vmm_loop [OF al(2) refl])
  then obtain ops where run: "vmm_map_pages va pa sz attrs m = Some (emit ops m1)" by blast
  have g: "mmu_inv ?p m1" "ttbr1_el1 m1 = ?p" using m1(2) grows_ttbr1 by (auto simp: run_tried_def)
  then have "ttbr1_ok (emit ops m1)" by (simp add: ttbr1_ok_def)
  with run m1(2) g False show ?thesis by auto
qed

lemma vmm_unmap_pages_spec:
  assumes ok: "ttbr1_ok m" and al: "page_aligned va" "page_aligned sz" and nowrap: "unat va + unat sz < 2 ^ 64"
  shows "\<exists>m'. vmm_unmap_pages va sz m = Some m' \<and> ttbr1_ok m' \<and> ttbr1_el1 m' = ttbr1_el1 m \<and>
    (ttbr1_el1 m \<noteq> 0 \<longrightarrow> (\<forall>vb. pte_of (mmu_mem m') (ttbr1_el1 m) vb =
       (if \<exists>i<unat sz div 4096. same_page (va + of_nat i * 4096) vb then None else pte_of (mmu_mem m) (ttbr1_el1 m) vb)))"
proof (cases "ttbr1_el1 m = 0")
  case True
  then show ?thesis using ok by (simp add: vmm_unmap_pages_def mmu_get_ttbr1_def)
next
  case False
  have inv: "mmu_inv (ttbr1_el1 m) m" using ok False by (simp add: ttbr1_ok_def)
  from unmap_loop [OF inv, of "unat sz div 4096" va] obtain m1 where
    m1: "for_upto 0 (unat sz div 4096) (\<lambda>i m'. Some (snd (mmu_unmap_page (ttbr1_el1 m) (va + of_nat i * 4096) m'))) m = Some m1"
      "mmu_inv (ttbr1_el1 m) m1" "grows (ttbr1_el1 m) m m1"
      "\<forall>vb. pte_of (mmu_mem m1) (ttbr1_el1 m) vb =
       (if \<exists>i<unat sz div 4096. same_page (va + of_nat i * 4096) vb then None else pte_of (mmu_mem m) (ttbr1_el1 m) vb)"
    by blast
  then show ?thesis
    using False tlb_flush_range_spec [OF al nowrap, of m1] grows_ttbr1 [OF m1(3)]
    by (simp add: vmm_unmap_pages_def mmu_get_ttbr1_def vmm_loop [OF al(2) refl] ttbr1_ok_def)
qed

lemma vmm_protect_pages_spec:
  assumes ok: "ttbr1_ok m" and al: "page_aligned va" "page_aligned sz" and nowrap: "unat va + unat sz < 2 ^ 64"
  shows "\<exists>m'. vmm_protect_pages va sz attrs m = Some m' \<and> ttbr1_ok m' \<and> ttbr1_el1 m' = ttbr1_el1 m"
proof (cases "ttbr1_el1 m = 0")
  case True
  then show ?thesis using ok by (simp add: vmm_protect_pages_def mmu_get_ttbr1_def)
next
  case False
  have inv: "mmu_inv (ttbr1_el1 m) m" using ok False by (simp add: ttbr1_ok_def)
  from protect_loop [OF inv, of "unat sz div 4096" va "vmm_pte_attrs attrs"] obtain m1 where
    m1: "for_upto 0 (unat sz div 4096)
        (\<lambda>i m'. Some (snd (mmu_update_page_attrs (ttbr1_el1 m) (va + of_nat i * 4096) (vmm_pte_attrs attrs) m'))) m = Some m1"
      "mmu_inv (ttbr1_el1 m) m1" "grows (ttbr1_el1 m) m m1" by blast
  then show ?thesis
    using False tlb_flush_range_spec [OF al nowrap, of m1] grows_ttbr1 [OF m1(3)]
    by (simp add: vmm_protect_pages_def mmu_get_ttbr1_def vmm_loop [OF al(2) refl] ttbr1_ok_def)
qed

subsection \<open>The handlers refine the specification\<close>

lemma page_mask_aligned: "x AND (VMM_PAGE_SIZE - 1) \<noteq> 0 \<longleftrightarrow> \<not> page_aligned x"
  by (simp add: VMM_PAGE_SIZE_def page_aligned_def)

lemma vma_inv_length:
  assumes "vma_inv v ns fs"
  shows "length fs + length ns = VMA_POOL_CAP"
proof -
  have "card (set (fs @ ns)) = length (fs @ ns)" using assms by (intro distinct_card) (simp add: vma_inv_def)
  then show ?thesis using assms by (simp add: vma_inv_def)
qed

lemma vmm_map_refines_any:
  assumes ar: "vmm_areas s as" and ok: "ttbr1_ok (vmm_mmu s)" 
    and room: "vma_initialized (vmas s) \<or> fst (spec_map va pa sz attrs as) \<noteq> -4"
    and nowrap: "unat va + unat sz < 2 ^ 64" "unat sz \<le> 2 ^ 48"
  shows "\<exists>r s' as'. vmm_map va pa sz attrs s = Some (r, s') \<and> spec_map va pa sz attrs as = (r, as') \<and>
    vmm_areas s' as' \<and> ttbr1_ok (vmm_mmu s') \<and>
    (if r = 0 then vmm_map_pages va pa sz attrs (vmm_mmu s) = Some (vmm_mmu s') else s' = s)"
proof (cases "sz = 0 \<or> \<not> page_aligned va \<or> \<not> page_aligned pa \<or> \<not> page_aligned sz")
  case True
  then show ?thesis using ar ok by (auto simp: vmm_map_def spec_map_def page_mask_aligned)
next
  case False
  then have al: "page_aligned va" "page_aligned pa" "page_aligned sz" "sz \<noteq> 0" by auto
  from ar obtain ns fs where inv: "vma_inv (vmas s) ns fs" and as: "as = map (area_of (vma_pool (vmas s))) ns"
    by (auto simp: vmm_areas_def)
  have i: "vma_list (vma_pool (vmas s)) (vma_root (vmas s)) ns" "areas_ok as"
    using inv by (simp_all add: vma_inv_def as)
  from conflict_iff [OF i(1) i(2) [unfolded as] nowrap(1) al(4)] obtain p q where
    pq: "find_le (vma_pool (vmas s)) (vma_root (vmas s)) va = Some p"
      "find_ge (vma_pool (vmas s)) (vma_root (vmas s)) va = Some q"
      "overlaps (vma_pool (vmas s)) p va sz \<or> overlaps (vma_pool (vmas s)) q va sz \<longleftrightarrow> (\<exists>a\<in>set as. a_meets va sz a)"
    by (auto simp: as)
  show ?thesis
  proof (cases "\<exists>a\<in>set as. a_meets va sz a")
    case True
    with pq ar ok al show ?thesis by (auto simp: vmm_map_def spec_map_def page_mask_aligned)
  next
    case new: False
    show ?thesis
    proof (cases "length as < VMA_POOL_CAP")
      case False
      have "fs = []" using vma_inv_length [OF inv] False as by (cases fs) auto
      then have "vma_free_list (vmas s) = None" using inv by (simp add: vma_inv_def)
      then have "vma_alloc_node (vmas s) = (None, vmas s)" using room False al new
        by (auto simp: vma_alloc_node_def spec_map_def)
      then have "vmm_map va pa sz attrs s = Some (-4, s)"
        using al pq new by (simp add: vmm_map_def page_mask_aligned)
      then show ?thesis using ar ok al new False by (auto simp: spec_map_def)
    next
      case room: True
      obtain n fs' where fs: "fs = n # fs'" using vma_inv_length [OF inv] room as by (cases fs) auto
      from vma_map_store [OF inv [unfolded fs] nowrap(1) al(4) new [unfolded as], where pa = pa and attrs = attrs] obtain v1 h' root' where
        v1: "vma_alloc_node (vmas s) = (Some n, v1)"
          "vma_insert ((vma_pool v1)(n := set_color RB_RED ((vma_pool v1 n)\<lparr>vma_va := va, vma_pa := pa, vma_size := sz,
            vma_attrs := attrs\<rparr>))) (vma_root v1) n va = Some (h', root')"
          "vma_inv (v1\<lparr>vma_pool := h', vma_root := root'\<rparr>)
            (filter (\<lambda>a. vma_va (vma_pool (vmas s) a) < va) ns @ n # filter (\<lambda>a. va < vma_va (vma_pool (vmas s) a)) ns) fs'"
          "area_of h' n = \<lparr>a_va = va, a_pa = pa, a_size = sz, a_attrs = attrs\<rparr>"
          "\<forall>a\<in>set ns. area_of h' a = area_of (vma_pool (vmas s)) a" by blast
      from vmm_map_pages_spec [OF ok al(1,3) nowrap, of pa attrs] obtain m' where
        m': "vmm_map_pages va pa sz attrs (vmm_mmu s) = Some m'" "ttbr1_ok m'" by blast
      let ?s = "s\<lparr>vmas := v1\<lparr>vma_pool := h', vma_root := root'\<rparr>, vmm_mmu := m'\<rparr>"
      let ?as = "filter (\<lambda>a. a_va a < va) as @ \<lparr>a_va = va, a_pa = pa, a_size = sz, a_attrs = attrs\<rparr> #
        filter (\<lambda>a. va < a_va a) as"
      have "map (area_of h') (filter P ns) = map (area_of (vma_pool (vmas s))) (filter P ns)" for P
        using v1(5) by simp
      then have "?as = map (area_of h')
          (filter (\<lambda>a. vma_va (vma_pool (vmas s) a) < va) ns @ n # filter (\<lambda>a. va < vma_va (vma_pool (vmas s) a)) ns)"
        by (simp only: map_append list.map v1(4)) (simp add: as filter_map comp_def)
      with v1(3) have "vmm_areas ?s ?as" by (auto simp: vmm_areas_def)
      moreover have "vmm_map va pa sz attrs s = Some (0, ?s)"
        using al pq new v1(1,2) m'(1) by (simp add: vmm_map_def page_mask_aligned)
      ultimately show ?thesis using al new m' room by (simp add: spec_map_def)
    qed
  qed
qed

lemma vmm_map_refines:
  assumes "vmm_areas s as" "ttbr1_ok (vmm_mmu s)" "length as < VMA_POOL_CAP" "unat va + unat sz < 2 ^ 64" "unat sz \<le> 2 ^ 48"
  shows "\<exists>r s' as'. vmm_map va pa sz attrs s = Some (r, s') \<and> spec_map va pa sz attrs as = (r, as') \<and>
    vmm_areas s' as' \<and> ttbr1_ok (vmm_mmu s') \<and>
    (if r = 0 then vmm_map_pages va pa sz attrs (vmm_mmu s) = Some (vmm_mmu s') else s' = s)"
  using assms(1,2) _ assms(4,5)
proof (rule vmm_map_refines_any)
  show "vma_initialized (vmas s) \<or> fst (spec_map va pa sz attrs as) \<noteq> -4" using assms(3) by (auto simp: spec_map_def)
qed

lemma by_va_inj:
  assumes "by_va h ns" "a \<in> set ns" "b \<in> set ns" "vma_va (h a) = vma_va (h b)"
  shows "a = b"
proof (rule ccontr)
  assume ab: "a \<noteq> b"
  from assms(2) obtain xs ys where ns: "ns = xs @ a # ys" by (meson split_list)
  with assms(3) ab have "b \<in> set xs \<or> b \<in> set ys" by auto
  with assms(1,4) show False unfolding ns by (auto simp: sorted_wrt_append)
qed

text \<open>\<open>find_exact\<close> and the comparison of sizes decide whether an area has this start and size.\<close>

lemma exact_area:
  assumes inv: "vma_inv v ns fs"
  shows "\<exists>c. find_exact (vma_pool v) (vma_root v) va = Some c \<and>
    ((\<exists>a\<in>set (map (area_of (vma_pool v)) ns). a_va a = va \<and> a_size a = sz) \<longleftrightarrow>
      (\<exists>n\<in>set ns. c = Some n \<and> vma_va (vma_pool v n) = va \<and> vma_size (vma_pool v n) = sz)) \<and>
    (\<forall>n. c = Some n \<longrightarrow> n \<in> set ns \<and> vma_va (vma_pool v n) = va)"
proof -
  have i: "vma_list (vma_pool v) (vma_root v) ns" "by_va (vma_pool v) ns"
    using inv by (auto simp: vma_inv_def vma_list_def)
  let ?c = "find (\<lambda>n. vma_va (vma_pool v n) = va) ns"
  have mem: "n \<in> set ns \<and> vma_va (vma_pool v n) = va" if "?c = Some n" for n
    using that by (auto simp: find_Some_iff)
  have hit: "?c = Some n" if n: "n \<in> set ns" "vma_va (vma_pool v n) = va" for n
  proof (cases ?c)
    case None
    with n show ?thesis by (simp add: find_None_iff)
  next
    case (Some k)
    with mem [OF Some] by_va_inj [OF i(2) n(1), of k] n(2) show ?thesis by simp
  qed
  show ?thesis
  proof (intro exI conjI allI impI)
    show "find_exact (vma_pool v) (vma_root v) va = Some ?c" by (rule vma_list_lookups(3) [OF i(1)])
    show "(\<exists>a\<in>set (map (area_of (vma_pool v)) ns). a_va a = va \<and> a_size a = sz) \<longleftrightarrow>
        (\<exists>n\<in>set ns. ?c = Some n \<and> vma_va (vma_pool v n) = va \<and> vma_size (vma_pool v n) = sz)"
      using hit by auto
  qed (use mem in auto)
qed

lemma filter_remove1:
  "by_va h ns \<Longrightarrow> c \<in> set ns \<Longrightarrow> filter (\<lambda>a. vma_va (h a) \<noteq> vma_va (h c)) ns = remove1 c ns"
proof (induction ns)
  case (Cons n ns)
  show ?case
  proof (cases "n = c")
    case True
    with Cons.prems have "\<forall>a\<in>set ns. vma_va (h c) < vma_va (h a)" by auto
    then have "filter (\<lambda>a. vma_va (h a) \<noteq> vma_va (h c)) ns = ns" by (auto simp: filter_id_conv)
    with True show ?thesis by simp
  qed (use Cons in auto)
qed simp

lemma vmm_unmap_refines:
  assumes ar: "vmm_areas s as" and ok: "ttbr1_ok (vmm_mmu s)"
  shows "\<exists>r s' as'. vmm_unmap va sz s = Some (r, s') \<and> spec_unmap va sz as = (r, as') \<and>
    vmm_areas s' as' \<and> ttbr1_ok (vmm_mmu s') \<and>
    (if r = 0 then vmm_unmap_pages va sz (vmm_mmu s) = Some (vmm_mmu s') else s' = s)"
proof (cases "sz = 0 \<or> \<not> page_aligned va \<or> \<not> page_aligned sz")
  case True
  then show ?thesis using ar ok by (auto simp: vmm_unmap_def spec_unmap_def page_mask_aligned)
next
  case False
  then have al: "page_aligned va" "page_aligned sz" "sz \<noteq> 0" by auto
  from ar obtain ns fs where inv: "vma_inv (vmas s) ns fs" and as: "as = map (area_of (vma_pool (vmas s))) ns"
    by (auto simp: vmm_areas_def)
  from exact_area [OF inv, of va sz] obtain c where
    c: "find_exact (vma_pool (vmas s)) (vma_root (vmas s)) va = Some c"
      "(\<exists>a\<in>set as. a_va a = va \<and> a_size a = sz) \<longleftrightarrow>
        (\<exists>n\<in>set ns. c = Some n \<and> vma_va (vma_pool (vmas s) n) = va \<and> vma_size (vma_pool (vmas s) n) = sz)"
      "\<And>n. c = Some n \<Longrightarrow> n \<in> set ns \<and> vma_va (vma_pool (vmas s) n) = va" unfolding as by blast
  show ?thesis
  proof (cases "\<exists>a\<in>set as. a_va a = va \<and> a_size a = sz")
    case no: False
    then have "vmm_unmap va sz s = Some (-3, s)"
      using al c by (cases c) (auto simp: vmm_unmap_def page_mask_aligned)
    with no ar ok al show ?thesis by (simp add: spec_unmap_def)
  next
    case yes: True
    with c(2) obtain n where n: "c = Some n" "n \<in> set ns" "vma_va (vma_pool (vmas s) n) = va"
      "vma_size (vma_pool (vmas s) n) = sz" by blast
    have nowrap: "unat va + unat sz < 2 ^ 64" using inv n by (auto simp: vma_inv_def areas_ok_def a_end_def)
    from vmm_unmap_pages_spec [OF ok al(1,2) nowrap] obtain m' where
      m': "vmm_unmap_pages va sz (vmm_mmu s) = Some m'" "ttbr1_ok m'" by blast
    from vma_unmap_store [OF inv n(2)] obtain h' root' where
      d: "rb_delete (vma_pool (vmas s)) (vma_root (vmas s)) (Some n) = Some (h', root')"
        "vma_inv (vma_free_node (Some n) ((vmas s)\<lparr>vma_pool := h', vma_root := root'\<rparr>)) (remove1 n ns) (n # fs)"
        "\<And>a. area_of (vma_pool (vma_free_node (Some n) ((vmas s)\<lparr>vma_pool := h', vma_root := root'\<rparr>))) a
           = area_of (vma_pool (vmas s)) a" by blast
    let ?s = "s\<lparr>vmas := vma_free_node (Some n) ((vmas s)\<lparr>vma_pool := h', vma_root := root'\<rparr>), vmm_mmu := m'\<rparr>"
    have "filter (\<lambda>a. a_va a \<noteq> va) as = map (area_of (vma_pool (vmas s))) (remove1 n ns)"
      using filter_remove1 [of "vma_pool (vmas s)" ns n] inv n
      by (simp add: as filter_map comp_def vma_inv_def vma_list_def)
    with d(2,3) have "vmm_areas ?s (filter (\<lambda>a. a_va a \<noteq> va) as)" by (auto simp: vmm_areas_def)
    moreover have "vmm_unmap va sz s = Some (0, ?s)"
      using al c(1) n m'(1) d(1) by (simp add: vmm_unmap_def page_mask_aligned)
    ultimately show ?thesis using al yes m' by (simp add: spec_unmap_def)
  qed
qed

lemma vma_protect_store:
  fixes attrs :: u32
  assumes inv: "vma_inv v ns fs" and n: "n \<in> set ns" "vma_va (vma_pool v n) = va"
  defines "v' \<equiv> v\<lparr>vma_pool := (vma_pool v)(n := (vma_pool v n)\<lparr>vma_attrs := attrs\<rparr>)\<rparr>"
  shows "vma_inv v' ns fs"
    "map (area_of (vma_pool v')) ns =
       map (\<lambda>a. if a_va a = va then a\<lparr>a_attrs := attrs\<rparr> else a) (map (area_of (vma_pool v)) ns)"
proof -
  have i: "vma_list (vma_pool v) (vma_root v) ns" "areas_ok (map (area_of (vma_pool v)) ns)"
    "flist (vma_pool v) (vma_free_list v) fs" "distinct (fs @ ns)" "set (fs @ ns) = {..<VMA_POOL_CAP}"
    using inv by (auto simp: vma_inv_def)
  have uniq: "a = n" if "a \<in> set ns" "vma_va (vma_pool v a) = va" for a
    by (rule by_va_inj [of "vma_pool v" ns]) (use that n i(1) in \<open>auto simp: vma_list_def\<close>)
  have "vma_list (vma_pool v') (vma_root v) ns"
    by (rule vma_list_shape [OF i(1)]) (auto simp: v'_def)
  moreover have "flist (vma_pool v') (vma_free_list v) fs = flist (vma_pool v) (vma_free_list v) fs"
    by (rule flist_cong) (simp add: v'_def)
  moreover show ar: "map (area_of (vma_pool v')) ns =
       map (\<lambda>a. if a_va a = va then a\<lparr>a_attrs := attrs\<rparr> else a) (map (area_of (vma_pool v)) ns)"
    unfolding map_map
  proof (rule map_cong [OF refl])
    fix a assume "a \<in> set ns"
    with uniq [of a] n(2) show "area_of (vma_pool v') a =
        ((\<lambda>a. if a_va a = va then a\<lparr>a_attrs := attrs\<rparr> else a) \<circ> area_of (vma_pool v)) a"
      by (cases "a = n") (auto simp: v'_def area_of_def)
  qed
  have "areas_ok (map (\<lambda>a. if a_va a = va then a\<lparr>a_attrs := attrs\<rparr> else a) (map (area_of (vma_pool v)) ns))"
  proof -
    let ?f = "\<lambda>a. if a_va a = va then a\<lparr>a_attrs := attrs\<rparr> else a"
    have f: "a_va (?f a) = a_va a" "a_size (?f a) = a_size a" "a_end (?f a) = a_end a" for a
      by (simp_all add: a_end_def)
    show ?thesis using i(2) unfolding areas_ok_def sorted_wrt_map by (simp only: f set_map ball_simps) simp
  qed
  ultimately show "vma_inv v' ns fs"
    using i(3-5) unfolding vma_inv_def ar by (simp add: v'_def)
qed

lemma vmm_protect_refines:
  assumes ar: "vmm_areas s as" and ok: "ttbr1_ok (vmm_mmu s)"
  shows "\<exists>r s' as'. vmm_protect va sz attrs s = Some (r, s') \<and> spec_protect va sz attrs as = (r, as') \<and>
    vmm_areas s' as' \<and> ttbr1_ok (vmm_mmu s') \<and>
    (if r = 0 then vmm_protect_pages va sz attrs (vmm_mmu s) = Some (vmm_mmu s') else s' = s)"
proof (cases "sz = 0 \<or> \<not> page_aligned va \<or> \<not> page_aligned sz")
  case True
  then show ?thesis using ar ok by (auto simp: vmm_protect_def spec_protect_def page_mask_aligned)
next
  case False
  then have al: "page_aligned va" "page_aligned sz" "sz \<noteq> 0" by auto
  from ar obtain ns fs where inv: "vma_inv (vmas s) ns fs" and as: "as = map (area_of (vma_pool (vmas s))) ns"
    by (auto simp: vmm_areas_def)
  from exact_area [OF inv, of va sz] obtain c where
    c: "find_exact (vma_pool (vmas s)) (vma_root (vmas s)) va = Some c"
      "(\<exists>a\<in>set as. a_va a = va \<and> a_size a = sz) \<longleftrightarrow>
        (\<exists>n\<in>set ns. c = Some n \<and> vma_va (vma_pool (vmas s) n) = va \<and> vma_size (vma_pool (vmas s) n) = sz)"
      "\<And>n. c = Some n \<Longrightarrow> n \<in> set ns \<and> vma_va (vma_pool (vmas s) n) = va" unfolding as by blast
  show ?thesis
  proof (cases "\<exists>a\<in>set as. a_va a = va \<and> a_size a = sz")
    case no: False
    then have "vmm_protect va sz attrs s = Some (-3, s)"
      using al c by (cases c) (auto simp: vmm_protect_def page_mask_aligned)
    with no ar ok al show ?thesis by (simp add: spec_protect_def)
  next
    case yes: True
    with c(2) obtain n where n: "c = Some n" "n \<in> set ns" "vma_va (vma_pool (vmas s) n) = va"
      "vma_size (vma_pool (vmas s) n) = sz" by blast
    have nowrap: "unat va + unat sz < 2 ^ 64" using inv n by (auto simp: vma_inv_def areas_ok_def a_end_def)
    from vmm_protect_pages_spec [OF ok al(1,2) nowrap, of attrs] obtain m' where
      m': "vmm_protect_pages va sz attrs (vmm_mmu s) = Some m'" "ttbr1_ok m'" by blast
    let ?s = "s\<lparr>vmas := (vmas s)\<lparr>vma_pool := (vma_pool (vmas s))(n := (vma_pool (vmas s) n)\<lparr>vma_attrs := attrs\<rparr>)\<rparr>, vmm_mmu := m'\<rparr>"
    have "vmm_areas ?s (map (\<lambda>a. if a_va a = va then a\<lparr>a_attrs := attrs\<rparr> else a) as)"
      using vma_protect_store [OF inv n(2,3), where attrs = attrs] unfolding vmm_areas_def as by fastforce
    moreover have "vmm_protect va sz attrs s = Some (0, ?s)"
      using al c(1) n m'(1) by (simp add: vmm_protect_def page_mask_aligned Let_def)
    ultimately show ?thesis using al yes m' by (simp add: spec_protect_def)
  qed
qed

lemma vmm_translate_refines:
  assumes ar: "vmm_areas s as"
  shows "vmm_virt_to_phys va True s = Some (0, Some (spec_translate va as))"
proof -
  let ?h = "vma_pool (vmas s)" and ?r = "vma_root (vmas s)"
  from ar obtain ns fs where inv: "vma_inv (vmas s) ns fs" and as: "as = map (area_of ?h) ns"
    by (auto simp: vmm_areas_def)
  have i: "vma_list ?h ?r ns" "areas_ok (map (area_of ?h) ns)" using inv by (simp_all add: vma_inv_def)
  let ?in = "\<lambda>n. vma_va (?h n) \<le> va \<and> unat va < a_end (area_of ?h n)"
  have test: "va \<ge> vma_va (?h n) \<and> va < vma_va (?h n) + vma_size (?h n) \<longleftrightarrow> ?in n" if "n \<in> set ns" for n
  proof -
    have "unat (vma_va (?h n)) + unat (vma_size (?h n)) < 2 ^ 64"
      using i(2) that by (auto simp: areas_ok_def a_end_def)
    from unat_add_nowrap [OF this] show ?thesis by (simp add: word_less_nat_alt a_end_def)
  qed
  have cov: "find_le ?h ?r va = Some (Some n)" if "n \<in> set ns" "?in n" for n
    using tree_store.cover [of "(?h, ?r)" ns n va] i that
    by (simp add: tree_store.covers_def a_end_def word_le_nat_alt)
  have spec: "spec_translate va as = (case find ?in ns of None \<Rightarrow> va | Some n \<Rightarrow> vma_pa (?h n) + (va - vma_va (?h n)))"
    unfolding as spec_translate_def by (induction ns) auto
  show ?thesis
  proof (cases "find ?in ns")
    case (Some n)
    then have n: "n \<in> set ns" "?in n" by (auto simp: find_Some_iff)
    with cov [OF n] test [OF n(1)] Some show ?thesis unfolding spec by (simp add: vmm_virt_to_phys_def Let_def)
  next
    case None
    then have no: "\<not> ?in n" if "n \<in> set ns" for n using that by (auto simp: find_None_iff)
    let ?fs = "filter (\<lambda>n. vma_va (?h n) \<le> va) ns"
    have le: "find_le ?h ?r va = Some (last_opt ?fs)" by (rule vma_list_lookups(1) [OF i(1)])
    have "last ?fs \<in> set ns" if "?fs \<noteq> []" using last_in_set [OF that] by simp
    with le no test None show ?thesis unfolding spec
      by (auto simp: vmm_virt_to_phys_def Let_def last_opt_def)
  qed
qed

lemma inorder_dump_spec:
  "tree_ok h par t \<Longrightarrow> inorder_dump h (ptr t) =
     Some (map (\<lambda>n. (vma_va (h n), vma_va (h n) + vma_size (h n), vma_pa (h n), vma_attrs (h n))) (inord t))"
proof (induction t arbitrary: par)
  case Lf
  then show ?case by (simp add: inorder_dump.simps)
next
  case (Nd l n r)
  then show ?case by (subst inorder_dump.simps) auto
qed

lemma vmm_dump_spec:
  assumes "vmm_areas s as"
  shows "vmm_dump s = Some (map (\<lambda>a. (a_va a, a_va a + a_size a, a_pa a, a_attrs a)) as)"
proof -
  from assms obtain ns where "vma_list (vma_pool (vmas s)) (vma_root (vmas s)) ns"
    and as: "as = map (area_of (vma_pool (vmas s))) ns" by (auto simp: vmm_areas_def vma_inv_def)
  then obtain t where "vma_root (vmas s) = ptr t" "tree_ok (vma_pool (vmas s)) None t" "inord t = ns"
    by (auto simp: vma_list_def rep_def)
  with inorder_dump_spec [of "vma_pool (vmas s)" None t] show ?thesis by (simp add: vmm_dump_def as)
qed

lemma vmm_init_areas:
  assumes "vma_free_list (vmas s) = None"
  shows "\<exists>s'. vmm_init s = (0, s') \<and> vmm_areas s' [] \<and> vmm_mmu s' = vmm_mmu s"
proof -
  let ?v = "init_vma_pool ((vmas s)\<lparr>vma_root := None\<rparr>)"
  have "vma_free_list ((vmas s)\<lparr>vma_root := None\<rparr>) = None" using assms by simp
  note p = init_vma_pool_spec [OF this]
  have "rep (vma_pool ?v) None Lf \<and> rb_tree (color \<circ> vma_pool ?v) Lf \<and> inord Lf = []"
    by (auto simp: rep_def rb_tree_def)
  then have "vma_list (vma_pool ?v) (vma_root ?v) []"
    using p(2) unfolding vma_list_def by auto
  with p(1) have "vma_inv ?v [] (rev [0..<VMA_POOL_CAP])" by (auto simp: vma_inv_def areas_ok_def)
  then show ?thesis by (auto simp: vmm_init_def vmm_areas_def)
qed

lemma vmm_areas_room:
  assumes "vmm_areas s as" "vma_free_list (vmas s) \<noteq> None"
  shows "length as < VMA_POOL_CAP"
proof -
  from assms(1) obtain ns fs where inv: "vma_inv (vmas s) ns fs" and as: "length as = length ns"
    by (auto simp: vmm_areas_def)
  then have "fs \<noteq> []" using assms(2) by (cases fs) (auto simp: vma_inv_def)
  then show ?thesis using vma_inv_length [OF inv] as by (cases fs) auto
qed

text \<open>One call, and a sequence of calls.\<close>

lemma vmm_call_refines:
  assumes inv: "vmm_areas s as" "ttbr1_ok (vmm_mmu s)"
    and c: "\<forall>va pa sz attrs. c = CMap va pa sz attrs \<longrightarrow> range_ok va sz" "fst (spec_call c as) \<noteq> -4"
  shows "\<exists>s'. vmm_call c s = Some (fst (spec_call c as), s') \<and> vmm_areas s' (snd (spec_call c as)) \<and> ttbr1_ok (vmm_mmu s')"
proof (cases c)
  case (CMap va pa sz attrs)
  have nowrap: "unat va + unat sz < 2 ^ 64" "unat sz \<le> 2 ^ 48" using c(1) CMap by (simp_all add: range_ok_def)
  from vmm_map_refines_any [OF inv _ nowrap, of pa attrs] c(2) show ?thesis using CMap by auto
next
  case (CUnmap va sz)
  from vmm_unmap_refines [OF inv, of va sz] show ?thesis using CUnmap by auto
next
  case (CProtect va sz attrs)
  from vmm_protect_refines [OF inv, of va sz attrs] show ?thesis using CProtect by auto
qed

lemma vmm_calls_step:
  assumes "vmm_areas s as" "ttbr1_ok (vmm_mmu s)" "\<forall>va pa sz attrs. CMap va pa sz attrs \<in> set cs \<longrightarrow> range_ok va sz"
    "-4 \<notin> set (fst (spec_calls cs as))"
  shows "\<exists>s'. vmm_calls cs s = Some (fst (spec_calls cs as), s') \<and> vmm_areas s' (snd (spec_calls cs as)) \<and> ttbr1_ok (vmm_mmu s')"
  using assms
proof (induction cs arbitrary: s as)
  case (Cons c cs)
  have "fst (spec_call c as) \<noteq> -4" using Cons.prems(4) by (auto simp: split_beta Let_def)
  moreover have "\<forall>va pa sz attrs. c = CMap va pa sz attrs \<longrightarrow> range_ok va sz" using Cons.prems(3) by auto
  ultimately obtain s1 where s1: "vmm_call c s = Some (fst (spec_call c as), s1)" "vmm_areas s1 (snd (spec_call c as))" "ttbr1_ok (vmm_mmu s1)"
    using vmm_call_refines [OF Cons.prems(1,2)] by blast
  have "-4 \<notin> set (fst (spec_calls cs (snd (spec_call c as))))" using Cons.prems(4) by (auto simp: split_beta Let_def)
  moreover have "\<forall>va pa sz attrs. CMap va pa sz attrs \<in> set cs \<longrightarrow> range_ok va sz" using Cons.prems(3) by simp
  ultimately obtain s2 where
    "vmm_calls cs s1 = Some (fst (spec_calls cs (snd (spec_call c as))), s2)" "vmm_areas s2 (snd (spec_calls cs (snd (spec_call c as))))"
    "ttbr1_ok (vmm_mmu s2)" using Cons.IH [OF s1(2,3)] by blast
  then show ?case using s1(1) by (simp add: split_beta Let_def)
qed simp

text \<open>
  When all nodes are in the tree and \<open>initialized\<close> is not set, the pool is filled with them again and hands out node 255.
\<close>

lemma full_pool_hands_out:
  assumes "vmm_areas s as" "length as = VMA_POOL_CAP" "\<not> vma_initialized (vmas s)"
  shows "\<exists>v ns. vma_alloc_node (vmas s) = (Some 255, v) \<and> vma_inv (vmas s) ns [] \<and> 255 \<in> set ns"
proof -
  from assms(1) obtain ns fs where inv: "vma_inv (vmas s) ns fs" and as: "length as = length ns" by (auto simp: vmm_areas_def)
  then have fs: "fs = []" using vma_inv_length [OF inv] assms(2) by (cases fs) auto
  then have none: "vma_free_list (vmas s) = None" using inv by (simp add: vma_inv_def)
  define w where "w = (init_vma_pool (vmas s))\<lparr>vma_initialized := True\<rparr>"
  have cap: "rev [0..<VMA_POOL_CAP] = 255 # rev [0..<255]" by (simp add: VMA_POOL_CAP_def flip: upt_Suc_append)
  have "flist (vma_pool w) (vma_free_list w) (255 # rev [0..<255])"
    using init_vma_pool_spec(1) [OF none] unfolding cap w_def by simp
  from vma_alloc_node_spec [OF this] obtain v where "vma_alloc_node w = (Some 255, v)" by auto
  moreover have "vma_alloc_node (vmas s) = vma_alloc_node w"
    using none assms(3) init_vma_pool_spec(1) [OF none] unfolding cap w_def by (simp add: vma_alloc_node_def)
  moreover have "255 \<in> set ns" using inv fs by (simp add: vma_inv_def VMA_POOL_CAP_def)
  ultimately show ?thesis using inv fs by auto
qed

lemma vmm_map_top:
  assumes "va + sz = 0" "vmm_map va pa sz attrs s = Some (r, s')"
  shows "r \<noteq> -3"
proof -
  have "\<not> overlaps h n va sz" for h n using assms(1) by (simp add: overlaps_def split: option.split)
  with assms(2) show ?thesis
    by (auto simp: vmm_map_def bind_eq_Some_conv Let_def split: if_splits prod.splits option.splits)
qed

lemma vmm_boot_ok: "vma_free_list (vmas vmm_boot) = None" "ttbr1_ok (vmm_mmu vmm_boot)"
  "ttbr1_el1 (vmm_mmu vmm_boot) = 0x40000000"
  using mmu_demo_ok(1) by (simp_all add: vmm_boot_def ttbr1_ok_def mmu_inv_def)

lemma vmm_areas_free:
  assumes "vmm_areas s as" "length as < VMA_POOL_CAP"
  shows "vma_free_list (vmas s) \<noteq> None"
proof -
  from assms(1) obtain ns fs where inv: "vma_inv (vmas s) ns fs" and as: "length as = length ns"
    by (auto simp: vmm_areas_def)
  then obtain n fs' where "fs = n # fs'" using vma_inv_length [OF inv] assms(2) by (cases fs) auto
  with inv show ?thesis by (simp add: vma_inv_def)
qed

lemma vmm_boot_init:
  "\<exists>s. vmm_init vmm_boot = (0, s) \<and> vmm_areas s [] \<and> ttbr1_ok (vmm_mmu s) \<and> vma_free_list (vmas s) \<noteq> None \<and>
     ttbr1_el1 (vmm_mmu s) = 0x40000000"
proof -
  obtain s where s: "vmm_init vmm_boot = (0, s)" "vmm_areas s []" "vmm_mmu s = vmm_mmu vmm_boot"
    using vmm_init_areas [OF vmm_boot_ok(1)] by blast
  moreover have "vma_free_list (vmas s) \<noteq> None" by (rule vmm_areas_free [OF s(2)]) (simp add: VMA_POOL_CAP_def)
  ultimately show ?thesis using vmm_boot_ok(2,3) by simp
qed

lemma aligned_4K [simp]: "page_aligned 0x1000" "page_aligned 0x2000" "page_aligned 0x4000"
  by (simp_all add: page_aligned_def)

text \<open>A state with one area, mapped through the code.\<close>

lemma vmm_boot_map:
  "\<exists>s s'. vmm_init vmm_boot = (0, s) \<and> vmm_map 0x1000 0x4000 0x2000 VMM_ATTR_W s = Some (0, s') \<and>
    vmm_areas s' [\<lparr>a_va = 0x1000, a_pa = 0x4000, a_size = 0x2000, a_attrs = VMM_ATTR_W\<rparr>] \<and>
    ttbr1_ok (vmm_mmu s') \<and> vma_free_list (vmas s') \<noteq> None"
proof -
  let ?as = "[\<lparr>a_va = 0x1000, a_pa = 0x4000, a_size = 0x2000, a_attrs = VMM_ATTR_W\<rparr>]"
  obtain s where s: "vmm_init vmm_boot = (0, s)" "vmm_areas s []" "ttbr1_ok (vmm_mmu s)" using vmm_boot_init by blast
  have "length ([] :: area list) < VMA_POOL_CAP" "length ?as < VMA_POOL_CAP" by (simp_all add: VMA_POOL_CAP_def)
  from vmm_map_refines [OF s(2,3) this(1), of "0x1000" "0x2000" "0x4000" VMM_ATTR_W]
  obtain s' where "vmm_map 0x1000 0x4000 0x2000 VMM_ATTR_W s = Some (0, s')" "vmm_areas s' ?as" "ttbr1_ok (vmm_mmu s')"
    by (auto simp: spec_map_def VMA_POOL_CAP_def)
  with s(1) vmm_areas_free [OF this(2)] show ?thesis by (auto simp: VMA_POOL_CAP_def)
qed

lemma vmm_top_map: "\<exists>s'. vmm_map 0xFFFFFFFFFFFFF000 0x5000 0x1000 0 vmm_top = Some (0, s')"
proof -
  have t: "ttbr1_el1 mmu_demo = 0" by (simp add: mmu_demo_def)
  have al: "page_aligned 0xFFFFFFFFFFFFF000" "page_aligned 0x5000" by (simp_all add: page_aligned_def)
  show ?thesis
    by (simp add: vmm_map_def page_mask_aligned al vmm_top_def vmm_boot_def find_le_def find_le_loop.simps
        find_ge_def find_ge_loop.simps overlaps_def vma_alloc_node_def vma_insert_def vma_descend.simps Let_def
        insert_fixup_def insert_fixup_loop.simps ld_def st_def is_red_def vmm_map_pages_def mmu_get_ttbr1_def t)
qed

lemma spec_translate_new:
  assumes "areas_ok (xs @ a # ys)" "unat off < unat (a_size a)"
  shows "spec_translate (a_va a + off) (xs @ a # ys) = a_pa a + off"
proof -
  have a: "a_end a < 2 ^ 64" using assms(1) by (simp add: areas_ok_def)
  then have u: "unat (a_va a + off) = unat (a_va a) + unat off"
    using assms(2) by (intro unat_add_nowrap) (simp add: a_end_def)
  have "\<not> unat (a_va a + off) < a_end x" if "x \<in> set xs" for x
    using assms(1) that u by (auto simp: areas_ok_def sorted_wrt_append)
  then have "find (\<lambda>x. a_va x \<le> a_va a + off \<and> unat (a_va a + off) < a_end x) xs = None"
    by (auto simp: find_None_iff)
  then have "find (\<lambda>x. a_va x \<le> a_va a + off \<and> unat (a_va a + off) < a_end x) (xs @ a # ys) = Some a"
    using u assms(2) by (induction xs) (auto simp: word_le_nat_alt a_end_def split: if_splits)
  then show ?thesis by (simp add: spec_translate_def)
qed

section \<open>Properties\<close>

text \<open>
  C19 \<open>vmm_map\<close> refines the abstract map for a range that does not reach the end of the address space and is not
  larger than 2 ^ 48 bytes, as long as an area is left or \<open>initialized\<close> is set: it ends, answers what the
  specification answers (0, or -1, -2, -3, -4 for an empty, unaligned or occupied range and for 256 areas in use)
  and leaves the areas the specification says, in order and disjoint. On an error nothing changes; on success
  only the page-table loops touch the machine. Outside these conditions the code is wrong: a range that ends at
  the top of the address space is never found occupied, since \<open>va + size\<close> wraps to 0 (\<open>vmm.c\<close> line 257), and
  with all nodes in the tree but \<open>initialized\<close> not set, which is how \<open>vmm_init\<close> leaves it, node 255 is handed out
  although it is in the tree (\<open>vmm.c\<close> line 302).
\<close>

theorem vmm_map_refines_spec:
  assumes "vmm_areas s as" "ttbr1_ok (vmm_mmu s)"
  shows "(unat va + unat sz < 2 ^ 64 \<and> unat sz \<le> 2 ^ 48 \<and> (length as < VMA_POOL_CAP \<or> vma_initialized (vmas s)) \<longrightarrow>
      (\<exists>r s' as'. vmm_map va pa sz attrs s = Some (r, s') \<and> spec_map va pa sz attrs as = (r, as') \<and>
        vmm_areas s' as' \<and> ttbr1_ok (vmm_mmu s') \<and>
        (if r = 0 then vmm_map_pages va pa sz attrs (vmm_mmu s) = Some (vmm_mmu s') else s' = s))) \<and>
    (va + sz = 0 \<longrightarrow> (\<forall>r s'. vmm_map va pa sz attrs s = Some (r, s') \<longrightarrow> r \<noteq> -3)) \<and>
    (length as = VMA_POOL_CAP \<and> \<not> vma_initialized (vmas s) \<longrightarrow>
      (\<exists>v ns. vma_alloc_node (vmas s) = (Some 255, v) \<and> vma_inv (vmas s) ns [] \<and> 255 \<in> set ns))"
proof (intro conjI impI allI; (elim conjE)?)
  assume "unat va + unat sz < 2 ^ 64" "unat sz \<le> 2 ^ 48" "length as < VMA_POOL_CAP \<or> vma_initialized (vmas s)"
  then show "\<exists>r s' as'. vmm_map va pa sz attrs s = Some (r, s') \<and> spec_map va pa sz attrs as = (r, as') \<and>
        vmm_areas s' as' \<and> ttbr1_ok (vmm_mmu s') \<and>
        (if r = 0 then vmm_map_pages va pa sz attrs (vmm_mmu s) = Some (vmm_mmu s') else s' = s)"
    using vmm_map_refines [OF assms] vmm_map_refines_any [OF assms] by blast
qed (use vmm_map_top full_pool_hands_out [OF assms(1)] in blast)+

theorem vmm_map_refines_spec_witness:
  "\<exists>s s'. vmm_init vmm_boot = (0, s) \<and> vmm_map 0x1000 0x4000 0x2000 VMM_ATTR_W s = Some (0, s') \<and>
    vmm_areas s' [\<lparr>a_va = 0x1000, a_pa = 0x4000, a_size = 0x2000, a_attrs = VMM_ATTR_W\<rparr>] \<and>
    vmm_map 0x2000 0x4000 0x1000 VMM_ATTR_W s' = Some (-3, s')"
proof -
  let ?a = "\<lparr>a_va = 0x1000, a_pa = 0x4000, a_size = 0x2000, a_attrs = VMM_ATTR_W\<rparr>"
  obtain s where s: "vmm_init vmm_boot = (0, s)" "vmm_areas s []" "ttbr1_ok (vmm_mmu s)" using vmm_boot_init by blast
  have room: "unat (0x1000 :: u64) + unat (0x2000 :: u64) < 2 ^ 64 \<and> unat (0x2000 :: u64) \<le> 2 ^ 48 \<and> (length ([] :: area list) < VMA_POOL_CAP \<or> i)"
    "unat (0x2000 :: u64) + unat (0x1000 :: u64) < 2 ^ 64 \<and> unat (0x1000 :: u64) \<le> 2 ^ 48 \<and> (length [?a] < VMA_POOL_CAP \<or> i)" for i
    by (simp_all add: VMA_POOL_CAP_def)
  have sp: "spec_map 0x1000 0x4000 0x2000 VMM_ATTR_W [] = (0, [?a])" "spec_map 0x2000 0x4000 0x1000 VMM_ATTR_W [?a] = (-3, [?a])"
    by (simp_all add: spec_map_def VMA_POOL_CAP_def a_meets_def a_end_def)
  from mp [OF conjunct1 [OF vmm_map_refines_spec [OF s(2,3), of "0x1000" "0x2000" "0x4000" VMM_ATTR_W]] room(1)]
  obtain s' where s': "vmm_map 0x1000 0x4000 0x2000 VMM_ATTR_W s = Some (0, s')" "vmm_areas s' [?a]" "ttbr1_ok (vmm_mmu s')"
    unfolding sp(1) by auto
  from mp [OF conjunct1 [OF vmm_map_refines_spec [OF s'(2,3), of "0x2000" "0x1000" "0x4000" VMM_ATTR_W]] room(2)]
  have "vmm_map 0x2000 0x4000 0x1000 VMM_ATTR_W s' = Some (-3, s')" unfolding sp(2) by auto
  with s(1) s' show ?thesis by blast
qed

text \<open>
  C22 What \<open>vmm_map\<close> does to the kernel page table when it answers 0: every page of the range is mapped to
  the page of physical memory at the same offset, with the attributes asked for, or physical memory
  ran out on the way (the answer of \<open>mmu_map_page\<close> is ignored); no other translation changes.
\<close>

theorem vmm_map_page_table:
  assumes "vmm_areas s as" "ttbr1_ok (vmm_mmu s)" "vma_free_list (vmas s) \<noteq> None"
    and "unat va + unat sz < 2 ^ 64" "unat sz \<le> 2 ^ 48"
    and "vmm_map va pa sz attrs s = Some (0, s')" "ttbr1_el1 (vmm_mmu s) = pgd" "pgd \<noteq> 0"
  shows "mmu_inv pgd (vmm_mmu s') \<and>
    (\<forall>i<unat sz div 4096. pmm_pages_free (mmu_pmm (vmm_mmu s')) = 0 \<or>
       pte_of (mmu_mem (vmm_mmu s')) pgd (va + of_nat i * 4096) = Some (pte (pa + of_nat i * 4096) (vmm_pte_attrs attrs))) \<and>
    (\<forall>vb. (\<forall>i<unat sz div 4096. \<not> same_page (va + of_nat i * 4096) vb) \<longrightarrow>
       pte_of (mmu_mem (vmm_mmu s')) pgd vb = pte_of (mmu_mem (vmm_mmu s)) pgd vb)"
proof -
  from vmm_map_refines [OF assms(1,2) vmm_areas_room [OF assms(1,3)] assms(4,5), of pa attrs] assms(6)
  obtain as' where "spec_map va pa sz attrs as = (0, as')"
    and run: "vmm_map_pages va pa sz attrs (vmm_mmu s) = Some (vmm_mmu s')" by auto
  then have "page_aligned va" "page_aligned sz" by (auto simp: spec_map_def split: if_splits)
  from vmm_map_pages_spec [OF assms(2) this assms(4,5), of pa attrs] run assms(7,8) obtain m1 ops where
    "run_tried pgd va pa (vmm_pte_attrs attrs) (vmm_mmu s) (unat sz div 4096) m1" "vmm_mmu s' = emit ops m1"
    by auto
  then show ?thesis by (auto simp: run_tried_def)
qed

theorem vmm_map_page_table_witness:
  "\<exists>s s'. vmm_init vmm_boot = (0, s) \<and> vmm_map 0x1000 0x4000 0x2000 VMM_ATTR_W s = Some (0, s') \<and>
    mmu_inv 0x40000000 (vmm_mmu s')"
proof -
  obtain s s' where s: "vmm_init vmm_boot = (0, s)" "vmm_map 0x1000 0x4000 0x2000 VMM_ATTR_W s = Some (0, s')"
    using vmm_boot_map by blast
  moreover from s(1) have i: "vmm_areas s []" "ttbr1_ok (vmm_mmu s)" "vma_free_list (vmas s) \<noteq> None"
    "ttbr1_el1 (vmm_mmu s) = 0x40000000" using vmm_boot_init by auto
  ultimately show ?thesis using vmm_map_page_table [OF i(1-3) _ _ s(2) i(4)] by auto
qed

text \<open>
  C20 \<open>vmm_unmap\<close> refines the abstract unmap, whatever its arguments: an area that starts at \<open>va\<close> and has
  exactly this size is removed with answer 0, anything else is answered -1, -2 or -3 and changes
  nothing. On success every page of the range is gone from the kernel page table and no other
  translation changes.
\<close>

theorem vmm_unmap_refines_spec:
  assumes "vmm_areas s as" "ttbr1_ok (vmm_mmu s)" "ttbr1_el1 (vmm_mmu s) = pgd"
  shows "\<exists>r s' as'. vmm_unmap va sz s = Some (r, s') \<and> spec_unmap va sz as = (r, as') \<and>
    vmm_areas s' as' \<and> ttbr1_ok (vmm_mmu s') \<and> (r = 0 \<or> s' = s) \<and>
    (r = 0 \<and> pgd \<noteq> 0 \<longrightarrow> (\<forall>vb. pte_of (mmu_mem (vmm_mmu s')) pgd vb =
       (if \<exists>i<unat sz div 4096. same_page (va + of_nat i * 4096) vb then None
        else pte_of (mmu_mem (vmm_mmu s)) pgd vb)))"
proof -
  from vmm_unmap_refines [OF assms(1,2), of va sz] obtain r s' as' where
    r: "vmm_unmap va sz s = Some (r, s')" "spec_unmap va sz as = (r, as')" "vmm_areas s' as'" "ttbr1_ok (vmm_mmu s')"
      "if r = 0 then vmm_unmap_pages va sz (vmm_mmu s) = Some (vmm_mmu s') else s' = s" by blast
  have "\<forall>vb. pte_of (mmu_mem (vmm_mmu s')) pgd vb =
       (if \<exists>i<unat sz div 4096. same_page (va + of_nat i * 4096) vb then None
        else pte_of (mmu_mem (vmm_mmu s)) pgd vb)" if "r = 0" "pgd \<noteq> 0"
  proof -
    from r(2) that(1) have al: "page_aligned va" "page_aligned sz" and "\<exists>a\<in>set as. a_va a = va \<and> a_size a = sz"
      by (auto simp: spec_unmap_def split: if_splits)
    then have "unat va + unat sz < 2 ^ 64"
      using assms(1) by (auto simp: vmm_areas_def vma_inv_def areas_ok_def a_end_def)
    from vmm_unmap_pages_spec [OF assms(2) al this] r(5) that show ?thesis unfolding assms(3) [symmetric] by simp
  qed
  with r show ?thesis by (auto split: if_splits)
qed

theorem vmm_unmap_refines_spec_witness:
  "\<exists>s s'. vmm_areas s [\<lparr>a_va = 0x1000, a_pa = 0x4000, a_size = 0x2000, a_attrs = VMM_ATTR_W\<rparr>] \<and>
    vmm_unmap 0x1000 0x2000 s = Some (0, s') \<and> vmm_areas s' []"
proof -
  obtain s where s: "vmm_areas s [\<lparr>a_va = 0x1000, a_pa = 0x4000, a_size = 0x2000, a_attrs = VMM_ATTR_W\<rparr>]"
    "ttbr1_ok (vmm_mmu s)" using vmm_boot_map by blast
  from vmm_unmap_refines_spec [OF s refl, of "0x1000" "0x2000"] s(1) show ?thesis
    by (auto simp: spec_unmap_def)
qed

text \<open>
  C21 \<open>vmm_protect\<close> refines the abstract change of attributes, whatever its arguments: the attributes of
  the area that starts at \<open>va\<close> and has exactly this size are replaced, and no area moves; anything else
  is an error and changes nothing.
\<close>

theorem vmm_protect_refines_spec:
  assumes "vmm_areas s as" "ttbr1_ok (vmm_mmu s)"
  shows "\<exists>r s' as'. vmm_protect va sz attrs s = Some (r, s') \<and> spec_protect va sz attrs as = (r, as') \<and>
    vmm_areas s' as' \<and> ttbr1_ok (vmm_mmu s') \<and>
    (if r = 0 then vmm_protect_pages va sz attrs (vmm_mmu s) = Some (vmm_mmu s') else s' = s)"
  using assms by (rule vmm_protect_refines)

theorem vmm_protect_refines_spec_witness:
  "\<exists>s s'. vmm_areas s [\<lparr>a_va = 0x1000, a_pa = 0x4000, a_size = 0x2000, a_attrs = VMM_ATTR_W\<rparr>] \<and>
    vmm_protect 0x1000 0x2000 0 s = Some (0, s') \<and>
    vmm_areas s' [\<lparr>a_va = 0x1000, a_pa = 0x4000, a_size = 0x2000, a_attrs = 0\<rparr>]"
proof -
  obtain s where s: "vmm_areas s [\<lparr>a_va = 0x1000, a_pa = 0x4000, a_size = 0x2000, a_attrs = VMM_ATTR_W\<rparr>]"
    "ttbr1_ok (vmm_mmu s)" using vmm_boot_map by blast
  from vmm_protect_refines_spec [OF s, of "0x1000" "0x2000" 0] s(1) show ?thesis
    by (auto simp: spec_protect_def)
qed

text \<open>
  \<open>vmm_virt_to_phys\<close> with a place for the answer always ends with 0 and translates as the areas say:
  an address inside an area goes to the same offset of its physical range, any other to itself.
\<close>

theorem vmm_virt_to_phys_refines_spec:
  assumes "vmm_areas s as"
  shows "vmm_virt_to_phys va True s = Some (0, Some (spec_translate va as))"
  using assms by (rule vmm_translate_refines)

theorem vmm_virt_to_phys_refines_spec_witness:
  "\<exists>s. vmm_areas s [\<lparr>a_va = 0x1000, a_pa = 0x4000, a_size = 0x2000, a_attrs = VMM_ATTR_W\<rparr>] \<and>
    vmm_virt_to_phys 0x1234 True s = Some (0, Some 0x4234) \<and> vmm_virt_to_phys 0x3000 True s = Some (0, Some 0x3000)"
proof -
  obtain s where s: "vmm_areas s [\<lparr>a_va = 0x1000, a_pa = 0x4000, a_size = 0x2000, a_attrs = VMM_ATTR_W\<rparr>]"
    using vmm_boot_map by blast
  from vmm_virt_to_phys_refines_spec [OF s] s show ?thesis by (auto simp: spec_translate_def a_end_def)
qed

text \<open>
  After a successful \<open>vmm_map\<close> every address of the range translates to the physical address asked
  for, and \<open>vmm_unmap\<close> of the same range succeeds and restores the list of areas.
\<close>

theorem vmm_map_unmap_roundtrip:
  assumes "vmm_areas s as" "ttbr1_ok (vmm_mmu s)" "vma_free_list (vmas s) \<noteq> None"
    and "unat va + unat sz < 2 ^ 64" "unat sz \<le> 2 ^ 48"
    and "vmm_map va pa sz attrs s = Some (0, s')" "off < sz"
  shows "vmm_virt_to_phys (va + off) True s' = Some (0, Some (pa + off)) \<and>
    (\<exists>s''. vmm_unmap va sz s' = Some (0, s'') \<and> vmm_areas s'' as)"
proof -
  let ?a = "\<lparr>a_va = va, a_pa = pa, a_size = sz, a_attrs = attrs\<rparr>"
  let ?as = "filter (\<lambda>a. a_va a < va) as @ ?a # filter (\<lambda>a. va < a_va a) as"
  from vmm_map_refines [OF assms(1,2) vmm_areas_room [OF assms(1,3)] assms(4,5), of pa attrs] assms(6)
  obtain as' where sp: "spec_map va pa sz attrs as = (0, as')" and s': "vmm_areas s' as'" "ttbr1_ok (vmm_mmu s')" by auto
  then have as': "as' = ?as" and al: "page_aligned va" "page_aligned sz" "sz \<noteq> 0"
    and new: "\<not> (\<exists>a\<in>set as. a_meets va sz a)" by (auto simp: spec_map_def split: if_splits)
  have ok: "areas_ok ?as" "areas_ok as" using s'(1) assms(1) unfolding as' by (auto simp: vmm_areas_def vma_inv_def)
  have tr: "spec_translate (va + off) ?as = pa + off"
    using spec_translate_new [of _ ?a, OF ok(1)] assms(7) by (simp add: word_less_nat_alt)
  have ne: "a_va a \<noteq> va" if "a \<in> set as" for a using areas_fit(3) [OF ok(2) new al(3) that] .
  obtain ns fs where "vma_list (vma_pool (vmas s)) (vma_root (vmas s)) ns" and as: "as = map (area_of (vma_pool (vmas s))) ns"
    using assms(1) by (auto simp: vmm_areas_def vma_inv_def)
  then have "by_va (vma_pool (vmas s)) ns" by (simp add: vma_list_def)
  from filter_split [OF this, of va] have "filter (\<lambda>a. a_va a < va) as @ filter (\<lambda>a. va < a_va a) as = filter (\<lambda>a. a_va a \<noteq> va) as"
    unfolding as filter_map comp_def area_of_sel map_append [symmetric] by simp
  also have "\<dots> = as" using ne by (simp add: filter_id_conv)
  finally have restored: "filter (\<lambda>a. a_va a < va) as @ filter (\<lambda>a. va < a_va a) as = as" .
  have "filter (\<lambda>a. a_va a \<noteq> va) ?as = filter (\<lambda>a. a_va a < va) as @ filter (\<lambda>a. va < a_va a) as"
    by (auto intro!: arg_cong2 [of _ _ _ _ append] filter_cong)
  with restored al have "spec_unmap va sz ?as = (0, as)" by (simp add: spec_unmap_def)
  with vmm_unmap_refines [OF s', of va sz] have "\<exists>s''. vmm_unmap va sz s' = Some (0, s'') \<and> vmm_areas s'' as"
    unfolding as' by auto
  with vmm_translate_refines [OF s'(1)] tr show ?thesis unfolding as' by simp
qed

theorem vmm_map_unmap_roundtrip_witness:
  "\<exists>s s' s''. vmm_init vmm_boot = (0, s) \<and> vmm_map 0x1000 0x4000 0x2000 VMM_ATTR_W s = Some (0, s') \<and>
    vmm_virt_to_phys 0x1008 True s' = Some (0, Some 0x4008) \<and> vmm_unmap 0x1000 0x2000 s' = Some (0, s'') \<and> vmm_areas s'' []"
proof -
  obtain s s' where s: "vmm_init vmm_boot = (0, s)" "vmm_map 0x1000 0x4000 0x2000 VMM_ATTR_W s = Some (0, s')"
    using vmm_boot_map by blast
  moreover from s(1) have i: "vmm_areas s []" "ttbr1_ok (vmm_mmu s)" "vma_free_list (vmas s) \<noteq> None"
    using vmm_boot_init by auto
  ultimately show ?thesis using vmm_map_unmap_roundtrip [OF i _ _ s(2), of 8] by auto
qed

text \<open>
  C23 A whole run: after \<open>vmm_init\<close>, let the calls \<open>cs\<close> of map, unmap and protect be made one after the other. The ranges to
  map do not reach the end of the address space and are not larger than 2 ^ 48 bytes, and the 256 areas suffice, that is,
  the specification never answers -4; the other arguments are arbitrary. Then every call ends, the answers are
  those of the specification, the areas at the end are its areas, in order, disjoint and without wrapping, they and the free list
  share out the pool of nodes, and the kernel page table is well formed.
\<close>

theorem vmm_calls_refine:
  assumes "vma_free_list (vmas s0) = None" "ttbr1_ok (vmm_mmu s0)" "vmm_init s0 = (r, s)"
    and "\<forall>va pa sz attrs. CMap va pa sz attrs \<in> set cs \<longrightarrow> unat va + unat sz < 2 ^ 64 \<and> unat sz \<le> 2 ^ 48"
    and "-4 \<notin> set (fst (spec_calls cs []))"
  shows "\<exists>s'. vmm_calls cs s = Some (fst (spec_calls cs []), s') \<and> vmm_areas s' (snd (spec_calls cs [])) \<and>
    areas_ok (snd (spec_calls cs [])) \<and> ttbr1_ok (vmm_mmu s')"
proof -
  have "vmm_areas s []" "ttbr1_ok (vmm_mmu s)" using vmm_init_areas [OF assms(1)] assms(2,3) by auto
  moreover have "\<forall>va pa sz attrs. CMap va pa sz attrs \<in> set cs \<longrightarrow> range_ok va sz" using assms(4) by (auto simp: range_ok_def)
  ultimately obtain s' where s': "vmm_calls cs s = Some (fst (spec_calls cs []), s')" "vmm_areas s' (snd (spec_calls cs []))" "ttbr1_ok (vmm_mmu s')"
    using vmm_calls_step [OF _ _ _ assms(5)] by blast
  moreover have "areas_ok (snd (spec_calls cs []))" using s'(2) by (auto simp: vmm_areas_def vma_inv_def)
  ultimately show ?thesis by blast
qed

theorem vmm_calls_refine_witness:
  "\<exists>s s'. vmm_init vmm_boot = (0, s) \<and>
     vmm_calls [CMap 0x1000 0x4000 0x2000 0, CMap 0x2000 0 0x1000 0, CProtect 0x1000 0x2000 VMM_ATTR_W, CMap 0x8000 0 0x1000 0, CUnmap 0x8000 0x1000] s
       = Some ([0, -3, 0, 0, 0], s') \<and>
     vmm_areas s' [\<lparr>a_va = 0x1000, a_pa = 0x4000, a_size = 0x2000, a_attrs = VMM_ATTR_W\<rparr>]"
proof -
  let ?cs = "[CMap 0x1000 0x4000 0x2000 0, CMap 0x2000 0 0x1000 0, CProtect 0x1000 0x2000 VMM_ATTR_W, CMap 0x8000 0 0x1000 0, CUnmap 0x8000 0x1000]"
  have al: "page_aligned 0" "page_aligned 0x8000" by (simp_all add: page_aligned_def)
  have sp: "spec_calls ?cs [] = ([0, -3, 0, 0, 0], [\<lparr>a_va = 0x1000, a_pa = 0x4000, a_size = 0x2000, a_attrs = VMM_ATTR_W\<rparr>])"
    by (simp add: spec_map_def spec_unmap_def spec_protect_def a_meets_def a_end_def VMA_POOL_CAP_def al)
  obtain s where s: "vmm_init vmm_boot = (0, s)" using vmm_boot_init by blast
  from vmm_calls_refine [OF vmm_boot_ok(1,2) s, of ?cs] s show ?thesis unfolding sp by auto
qed

text \<open>
  \<open>vmm_dump\<close> ends and prints one line per area, in order of the addresses.
\<close>

theorem vmm_dump_in_order:
  assumes "vmm_areas s as"
  shows "vmm_dump s = Some (map (\<lambda>a. (a_va a, a_va a + a_size a, a_pa a, a_attrs a)) as) \<and>
    sorted_wrt (\<lambda>a b. a_va a < a_va b) as"
proof -
  have "sorted_wrt (\<lambda>a b. a_va a < a_va b) as"
    using assms by (auto simp: vmm_areas_def vma_inv_def vma_list_def sorted_wrt_map)
  with vmm_dump_spec [OF assms] show ?thesis by simp
qed

theorem vmm_dump_in_order_witness:
  "\<exists>s s'. vmm_map 0x1000 0x4000 0x2000 VMM_ATTR_W s = Some (0, s') \<and> vmm_dump s' = Some [(0x1000, 0x3000, 0x4000, VMM_ATTR_W)]"
proof -
  obtain s s' where s: "vmm_map 0x1000 0x4000 0x2000 VMM_ATTR_W s = Some (0, s')"
    "vmm_areas s' [\<lparr>a_va = 0x1000, a_pa = 0x4000, a_size = 0x2000, a_attrs = VMM_ATTR_W\<rparr>]"
    using vmm_boot_map by blast
  from vmm_dump_in_order [OF s(2)] s show ?thesis by auto
qed

text \<open>
  Once \<open>vmm_init\<close> has filled the pool, 257 allocations hand out all 256 nodes and then node 255 a
  second time, instead of answering null: \<open>vmm_init\<close> does not set \<open>initialized\<close>, so the empty free list
  is filled with the live nodes again.
\<close>

theorem vma_pool_hands_out_live_node:
  assumes "vma_free_list (vmas s) = None" "\<not> vma_initialized (vmas s)" "vmm_init s = (r, s')"
  shows "fst (vma_allocs 257 (vmas s')) = map Some (rev [0..<256]) @ [Some 255]"
proof -
  let ?v = "init_vma_pool ((vmas s)\<lparr>vma_root := None\<rparr>)"
  have "vma_free_list ((vmas s)\<lparr>vma_root := None\<rparr>) = None" using assms(1) by simp
  note p = init_vma_pool_spec [OF this]
  have v: "vmas s' = ?v" using assms(3) by (auto simp: vmm_init_def)
  have cap: "rev [0..<VMA_POOL_CAP] = 255 # rev [0..<255]" by (simp add: VMA_POOL_CAP_def flip: upt_Suc_append)
  from vma_allocs_spec [OF p(1)] obtain u where
    u: "vma_allocs 256 ?v = (map Some (rev [0..<VMA_POOL_CAP]), u)" "vma_free_list u = None" "\<not> vma_initialized u"
    using p(3) assms(2) by (auto simp: VMA_POOL_CAP_def)
  define w where "w = (init_vma_pool u)\<lparr>vma_initialized := True\<rparr>"
  have "flist (vma_pool w) (vma_free_list w) (255 # rev [0..<255])"
    using init_vma_pool_spec(1) [OF u(2)] unfolding cap w_def by simp
  from vma_alloc_node_spec [OF this] have "fst (vma_alloc_node w) = Some 255" by auto
  moreover have "vma_alloc_node u = vma_alloc_node w"
    using u(2,3) init_vma_pool_spec(1) [OF u(2)] unfolding cap w_def by (simp add: vma_alloc_node_def)
  ultimately have "fst (vma_allocs 1 u) = [Some 255]" by (auto split: prod.splits)
  with vma_allocs_add [of 256 1 ?v] u(1) show ?thesis
    unfolding v by (auto simp: VMA_POOL_CAP_def split: prod.splits)
qed

theorem vma_pool_hands_out_live_node_witness:
  "\<exists>s. vmm_init vmm_boot = (0, s) \<and> fst (vma_allocs 257 (vmas s)) = map Some (rev [0..<256]) @ [Some 255]"
proof -
  obtain s where s: "vmm_init vmm_boot = (0, s)" using vmm_boot_init by blast
  have "\<not> vma_initialized (vmas vmm_boot)" by (simp add: vmm_boot_def)
  from vma_pool_hands_out_live_node [OF vmm_boot_ok(1) this s] s show ?thesis by blast
qed

text \<open>
  A range that ends at the very top of the address space is never seen to overlap another:
  \<open>va + size\<close> wraps to 0, so \<open>overlaps\<close> is false for every area and \<open>vmm_map\<close> does not answer -3,
  even when the range is already mapped.
\<close>

theorem vmm_map_top_never_conflicts:
  assumes "va + sz = 0" "vmm_map va pa sz attrs s = Some (r, s')"
  shows "r \<noteq> -3"
  using assms by (rule vmm_map_top)

theorem vmm_map_top_never_conflicts_witness:
  "\<exists>r s'. vmm_map 0xFFFFFFFFFFFFF000 0x5000 0x1000 0 vmm_top = Some (r, s') \<and> r \<noteq> -3 \<and>
    vma_va (vma_pool (vmas vmm_top) 0) = 0xFFFFFFFFFFFFF000 \<and> vma_size (vma_pool (vmas vmm_top) 0) = 0x1000"
proof -
  obtain r s' where m: "vmm_map 0xFFFFFFFFFFFFF000 0x5000 0x1000 0 vmm_top = Some (r, s')"
    using vmm_top_map by blast
  have "(0xFFFFFFFFFFFFF000 :: u64) + 0x1000 = 0" by simp
  from vmm_map_top_never_conflicts [OF this m] m show ?thesis by (auto simp: vmm_top_def)
qed

end
