(* ===== verification/DList.thy ===== *)
theory DList
  imports Prelude
begin

text \<open>
  Linked lists in C memory: \<open>nx\<close> and \<open>pv\<close> are the \<open>next\<close> and \<open>prev\<close> fields of the cells. The free lists of
  \<open>src/mm/vmalloc.c\<close> and the task list of \<open>src/kernel/sched/task.c\<close> are both such lists.
\<close>

section \<open>Definitions\<close>

text \<open>The cells \<open>ps\<close> from \<open>p\<close> on; the last one points to \<open>e\<close>.\<close>

fun chain :: "('a \<Rightarrow> 'a option) \<Rightarrow> 'a option \<Rightarrow> 'a list \<Rightarrow> 'a option \<Rightarrow> bool" where
  "chain nx p [] e = (p = e)"
| "chain nx p (a # ps) e = (p = Some a \<and> chain nx (nx a) ps e)"

text \<open>A doubly linked list, in which \<open>q\<close> is the cell before.\<close>

fun dll :: "('a \<Rightarrow> 'a option) \<Rightarrow> ('a \<Rightarrow> 'a option) \<Rightarrow> 'a option \<Rightarrow> 'a option \<Rightarrow> 'a list \<Rightarrow> 'a option \<Rightarrow> bool" where
  "dll nx pv q p [] e = (p = e)"
| "dll nx pv q p (a # ps) e = (p = Some a \<and> pv a = q \<and> dll nx pv (Some a) (nx a) ps e)"

section \<open>Lemmas\<close>

lemma chain_cong: "(\<And>a. a \<in> set ps \<Longrightarrow> nx' a = nx a) \<Longrightarrow> chain nx' p ps e = chain nx p ps e"
  by (induction ps arbitrary: p) auto

lemma chain_upd [simp]: "a \<notin> set ps \<Longrightarrow> chain (nx(a := x)) p ps e = chain nx p ps e"
  by (rule chain_cong) auto

lemma chain_append: "chain nx p (xs @ ys) e \<longleftrightarrow> (\<exists>m. chain nx p xs m \<and> chain nx m ys e)"
  by (induction xs arbitrary: p) auto

lemma dll_cong:
  "(\<And>a. a \<in> set ps \<Longrightarrow> nx' a = nx a \<and> pv' a = pv a) \<Longrightarrow> dll nx' pv' q p ps e = dll nx pv q p ps e"
  by (induction ps arbitrary: q p) auto

lemma dll_upd [simp]:
  "a \<notin> set ps \<Longrightarrow> dll (nx(a := x)) pv q p ps e = dll nx pv q p ps e"
  "a \<notin> set ps \<Longrightarrow> dll nx (pv(a := x)) q p ps e = dll nx pv q p ps e"
  by (rule dll_cong; auto)+

lemma dll_append:
  "dll nx pv q p (xs @ ys) e \<longleftrightarrow> (\<exists>m. dll nx pv q p xs m \<and> dll nx pv (if xs = [] then q else Some (last xs)) m ys e)"
  by (induction xs arbitrary: q p) auto

lemma dll_chain: "dll nx pv q p ps e \<Longrightarrow> chain nx p ps e"
  by (induction ps arbitrary: q p) auto

lemma dll_first: "dll nx pv q p (a # ps) e \<Longrightarrow> a \<notin> set ps \<Longrightarrow> dll nx (pv(a := q')) q' p (a # ps) e"
  by simp

lemma dll_last: "dll nx pv q p (xs @ [a]) m \<Longrightarrow> a \<notin> set xs \<Longrightarrow> dll (nx(a := m')) pv q p (xs @ [a]) m'"
  by (auto simp: dll_append)

text \<open>
  Taking out a cell: the cell before it, or the head, gets its \<open>next\<close>, and the cell after it its \<open>prev\<close>.
\<close>

lemma dll_remove:
  assumes l: "dll nx pv q p (xs @ a # ys) e" and d: "distinct (xs @ a # ys)"
    and nx': "nx' = (if xs = [] then nx else nx(last xs := nx a))"
    and pv': "pv' = (if ys = [] then pv else pv(hd ys := pv a))"
  shows "dll nx' pv' q (if xs = [] then nx a else p) (xs @ ys) e"
    "pv a = (if xs = [] then q else Some (last xs))" "nx a = (if ys = [] then e else Some (hd ys))"
    "p = (if xs = [] then Some a else Some (hd xs))"
proof -
  have seg: "dll nx pv q p xs (Some a)" "pv a = (if xs = [] then q else Some (last xs))" "dll nx pv (Some a) (nx a) ys e"
    using l by (auto simp: dll_append)
  show "pv a = (if xs = [] then q else Some (last xs))" by (rule seg(2))
  show "nx a = (if ys = [] then e else Some (hd ys))" using seg(3) by (cases ys) auto
  show "p = (if xs = [] then Some a else Some (hd xs))" using seg(1) by (cases xs) auto
  have keep: "xs \<noteq> [] \<Longrightarrow> last xs \<notin> set ys" "ys \<noteq> [] \<Longrightarrow> hd ys \<notin> set xs"
    using d last_in_set [of xs] hd_in_set [of ys] by (auto dest: disjoint_iff [THEN iffD1])
  have one: "dll nx' pv' q (if xs = [] then nx a else p) xs (nx a)"
    using seg(1) d keep(2) dll_last [of nx pv q p _ _ "Some a" "nx a"]
    by (cases xs rule: rev_cases; cases "ys = []") (auto simp: nx' pv')
  have "dll nx' pv (Some a) (nx a) ys e" using seg(3) keep(1) by (simp add: nx')
  then have two: "dll nx' pv' (if xs = [] then q else Some (last xs)) (nx a) ys e"
    using d seg(2) by (cases ys) (auto simp: pv')
  from one two show "dll nx' pv' q (if xs = [] then nx a else p) (xs @ ys) e" by (auto simp: dll_append)
qed

end
