(* ===== verification/Vmalloc_List.thy ===== *)
theory Vmalloc_List
  imports DList
begin

text \<open>
  The address space of \<open>vmalloc\<close>, \<open>src/mm/vmalloc.c\<close> lines 9-182 and 271-291: the list of free ranges with
  its block pool, the search for the best fit, the return of a range and \<open>coalesce_free_list\<close>. Blocks
  are named by their index in \<open>free_pool\<close>; \<open>None\<close> is \<open>NULL\<close>. The spinlock makes each operation one
  step. A loop that does not end is \<open>None\<close>.
\<close>

section \<open>Definitions\<close>

definition VMALLOC_START :: u64 where "VMALLOC_START = 0xFFFFFF8080000000"
definition VMALLOC_END :: u64 where "VMALLOC_END = 0xFFFFFF80C0000000"
definition GUARD_SIZE :: u64 where "GUARD_SIZE = 4096"

record free_block_t =
  fb_va :: u64
  fb_size :: u64
  fb_next :: "nat option"
  fb_prev :: "nat option"

type_synonym fb_heap = "nat \<Rightarrow> free_block_t"

text \<open>The static variables, and the function-local \<open>initialized\<close> of \<open>alloc_block\<close>.\<close>

record va_space =
  free_list :: "nat option"
  vmalloc_next :: u64
  free_pool :: fb_heap
  free_pool_list :: "nat option"
  pool_initialized :: bool

definition upd_block :: "nat \<Rightarrow> (free_block_t \<Rightarrow> free_block_t) \<Rightarrow> va_space \<Rightarrow> va_space" where
  "upd_block b f s = s\<lparr>free_pool := (free_pool s)(b := f (free_pool s b))\<rparr>"

subsection \<open>The block pool\<close>

definition init_pool :: "va_space \<Rightarrow> va_space" where
  "init_pool s = fold (\<lambda>i s. (upd_block i (fb_next_update (\<lambda>_. free_pool_list s)) s)\<lparr>free_pool_list := Some i\<rparr>) [0..<512] s"

definition alloc_block :: "va_space \<Rightarrow> nat option \<times> va_space" where
  "alloc_block s =
     (let s = (if free_pool_list s = None then
                 if \<not> pool_initialized s then (init_pool s)\<lparr>pool_initialized := True\<rparr> else s
               else s)
      in case free_pool_list s of None \<Rightarrow> (None, s)
         | Some blk \<Rightarrow>
             let s = s\<lparr>free_pool_list := fb_next (free_pool s blk)\<rparr>
             in (Some blk, upd_block blk (\<lambda>b. b\<lparr>fb_prev := None, fb_next := None\<rparr>) s))"

definition free_block :: "nat \<Rightarrow> va_space \<Rightarrow> va_space" where
  "free_block blk s = (upd_block blk (fb_next_update (\<lambda>_. free_pool_list s)) s)\<lparr>free_pool_list := Some blk\<rparr>"

subsection \<open>Merging neighbours\<close>

text \<open>The four times repeated removal of a block from the list.\<close>

definition unlink_block :: "nat \<Rightarrow> va_space \<Rightarrow> va_space" where
  "unlink_block b s =
     (let s = (case fb_prev (free_pool s b) of
                 Some p \<Rightarrow> upd_block p (fb_next_update (\<lambda>_. fb_next (free_pool s b))) s
               | None \<Rightarrow> s\<lparr>free_list := fb_next (free_pool s b)\<rparr>)
      in case fb_next (free_pool s b) of
           Some n \<Rightarrow> upd_block n (fb_prev_update (\<lambda>_. fb_prev (free_pool s b))) s
         | None \<Rightarrow> s)"

text \<open>The innermost loop: the new state, \<open>cur\<close> and \<open>changed\<close>.\<close>

partial_function (option) coalesce_inner ::
  "va_space \<Rightarrow> nat \<Rightarrow> nat option \<Rightarrow> bool \<Rightarrow> (va_space \<times> nat \<times> bool) option" where
  "coalesce_inner s cur next changed = (case next of None \<Rightarrow> Some (s, cur, changed)
   | Some n \<Rightarrow>
     if fb_va (free_pool s cur) + fb_size (free_pool s cur) = fb_va (free_pool s n) then
       (let s = upd_block cur (fb_size_update (\<lambda>z. z + fb_size (free_pool s n))) s;
            s = unlink_block cur s;
            s = unlink_block n s;
            tmp = fb_next (free_pool s n);
            s = free_block n s
        in coalesce_inner s cur tmp True)
     else if fb_va (free_pool s n) + fb_size (free_pool s n) = fb_va (free_pool s cur) then
       (let s = upd_block n (fb_size_update (\<lambda>z. z + fb_size (free_pool s cur))) s;
            s = unlink_block n s;
            s = unlink_block cur s;
            tmp = fb_next (free_pool s n);
            s = free_block cur s
        in coalesce_inner s n tmp True)
     else coalesce_inner s cur (fb_next (free_pool s n)) changed)"

partial_function (option) coalesce_scan :: "va_space \<Rightarrow> nat option \<Rightarrow> bool \<Rightarrow> (va_space \<times> bool) option" where
  "coalesce_scan s cur changed = (case cur of None \<Rightarrow> Some (s, changed)
   | Some c \<Rightarrow> Option.bind (coalesce_inner s c (fb_next (free_pool s c)) changed) (\<lambda>(s, c, changed).
       coalesce_scan s (fb_next (free_pool s c)) changed))"

partial_function (option) coalesce_loop :: "va_space \<Rightarrow> va_space option" where
  "coalesce_loop s = Option.bind (coalesce_scan s (free_list s) False) (\<lambda>(s, changed).
     if changed then coalesce_loop s else Some s)"

definition coalesce_free_list :: "va_space \<Rightarrow> va_space option" where
  "coalesce_free_list s = (if free_list s = None then Some s else coalesce_loop s)"

subsection \<open>Taking and returning ranges\<close>

text \<open>
  The search for the smallest block that is large enough: it and the pointer that leads to it, which is
  \<open>&free_list\<close> (\<open>None\<close>) or the \<open>next\<close> of a block.
\<close>

partial_function (option) find_best ::
  "fb_heap \<Rightarrow> u64 \<Rightarrow> nat option \<Rightarrow> nat option \<Rightarrow> (nat \<times> nat option) option \<Rightarrow> (nat \<times> nat option) option option" where
  "find_best h sz prev cur best = (case cur of None \<Rightarrow> Some best
   | Some c \<Rightarrow> find_best h sz (Some c) (fb_next (h c))
       (if fb_size (h c) \<ge> sz \<and> (case best of None \<Rightarrow> True | Some (b, _) \<Rightarrow> fb_size (h c) < fb_size (h b))
        then Some (c, prev) else best))"

definition find_free_space :: "u64 \<Rightarrow> va_space \<Rightarrow> (u64 \<times> va_space) option" where
  "find_free_space sz s = do {
     best \<leftarrow> find_best (free_pool s) sz None (free_list s) None;
     case best of
       Some (b, best_prev) \<Rightarrow>
         (let va = fb_va (free_pool s b)
          in if fb_size (free_pool s b) = sz then
               (let s = (case best_prev of None \<Rightarrow> s\<lparr>free_list := fb_next (free_pool s b)\<rparr>
                         | Some p \<Rightarrow> upd_block p (fb_next_update (\<lambda>_. fb_next (free_pool s b))) s);
                    s = (case fb_next (free_pool s b) of None \<Rightarrow> s
                         | Some n \<Rightarrow> upd_block n (fb_prev_update (\<lambda>_. fb_prev (free_pool s b))) s)
                in Some (va, free_block b s))
             else
               (let s = upd_block b (fb_va_update (\<lambda>x. x + sz)) s;
                    s = upd_block b (fb_size_update (\<lambda>x. x - sz)) s
                in Some (va, s)))
     | None \<Rightarrow>
         if vmalloc_next s + sz > VMALLOC_END then Some (0, s)
         else Some (vmalloc_next s, s\<lparr>vmalloc_next := vmalloc_next s + sz\<rparr>) }"

definition add_free_space :: "u64 \<Rightarrow> u64 \<Rightarrow> va_space \<Rightarrow> va_space option" where
  "add_free_space va sz s = (case alloc_block s of
     (None, s) \<Rightarrow> Some s
   | (Some blk, s) \<Rightarrow>
       let s = upd_block blk (\<lambda>b. b\<lparr>fb_va := va, fb_size := sz, fb_next := free_list s, fb_prev := None\<rparr>) s;
           s = (case free_list s of None \<Rightarrow> s | Some f \<Rightarrow> upd_block f (fb_prev_update (\<lambda>_. Some blk)) s);
           s = s\<lparr>free_list := Some blk\<rparr>
       in coalesce_free_list s)"

text \<open>What \<open>vmalloc_stats\<close> prints: used and free space in KB and the number of free blocks.\<close>

partial_function (option) stats_loop :: "fb_heap \<Rightarrow> nat option \<Rightarrow> u64 \<Rightarrow> int \<Rightarrow> (u64 \<times> int) option" where
  "stats_loop h cur total_free n = (case cur of None \<Rightarrow> Some (total_free, n)
   | Some c \<Rightarrow> stats_loop h (fb_next (h c)) (total_free + fb_size (h c)) (n + 1))"

definition vmalloc_stats :: "va_space \<Rightarrow> (u64 \<times> u64 \<times> int) option" where
  "vmalloc_stats s = do {
     (total_free, block_count) \<leftarrow> stats_loop (free_pool s) (free_list s) 0 0;
     let used = vmalloc_next s - VMALLOC_START;
     Some (used div 1024, total_free div 1024, block_count) }"

section \<open>The free list as a list of ranges\<close>

abbreviation nx :: "va_space \<Rightarrow> nat \<Rightarrow> nat option" where
  "nx s \<equiv> \<lambda>b. fb_next (free_pool s b)"

abbreviation pv :: "va_space \<Rightarrow> nat \<Rightarrow> nat option" where
  "pv s \<equiv> \<lambda>b. fb_prev (free_pool s b)"

text \<open>
  \<open>bs\<close> are the blocks of the free list and \<open>ps\<close> the unused blocks, all of them different. Before the first
  allocation of a block the pool is empty, but stands for all 512 blocks.
\<close>

definition va_ok :: "va_space \<Rightarrow> nat list \<Rightarrow> nat list \<Rightarrow> bool" where
  "va_ok s bs ps \<longleftrightarrow> dll (nx s) (pv s) None (free_list s) bs None \<and> distinct (bs @ ps) \<and>
     (if pool_initialized s then chain (nx s) (free_pool_list s) ps None
      else free_pool_list s = None \<and> bs = [] \<and> ps = rev [0..<512])"

definition ranges :: "va_space \<Rightarrow> nat list \<Rightarrow> (u64 \<times> u64) list" where
  "ranges s bs = map (\<lambda>b. (fb_va (free_pool s b), fb_size (free_pool s b))) bs"

text \<open>The first of the smallest ranges that are large enough.\<close>

definition best_fit :: "u64 \<Rightarrow> (u64 \<times> u64) list \<Rightarrow> (u64 \<times> u64) option" where
  "best_fit sz L = (case filter (\<lambda>r. sz \<le> snd r) L of [] \<Rightarrow> None | rs \<Rightarrow> Some (arg_min_list snd rs))"

definition va_take :: "u64 \<Rightarrow> (u64 \<times> u64) list \<Rightarrow> u64 \<Rightarrow> u64 \<times> (u64 \<times> u64) list \<times> u64" where
  "va_take sz L nxt = (case best_fit sz L of
     Some (va, z) \<Rightarrow>
       (va, concat (map (\<lambda>r. if r = (va, z) then if z = sz then [] else [(va + sz, z - sz)] else [r]) L), nxt)
   | None \<Rightarrow> if nxt + sz > VMALLOC_END then (0, L, nxt) else (nxt, L, nxt + sz))"

subsection \<open>Blocks\<close>

lemma upd_block_simps [simp]:
  "free_list (upd_block b f s) = free_list s" "vmalloc_next (upd_block b f s) = vmalloc_next s"
  "free_pool_list (upd_block b f s) = free_pool_list s" "pool_initialized (upd_block b f s) = pool_initialized s"
  "free_pool (upd_block b f s) c = (if c = b then f (free_pool s b) else free_pool s c)"
  by (simp_all add: upd_block_def)

lemma free_block_simps [simp]:
  "free_list (free_block b s) = free_list s" "vmalloc_next (free_block b s) = vmalloc_next s"
  "free_pool_list (free_block b s) = Some b" "pool_initialized (free_block b s) = pool_initialized s"
  "fb_va (free_pool (free_block b s) c) = fb_va (free_pool s c)" "fb_size (free_pool (free_block b s) c) = fb_size (free_pool s c)"
  "pv (free_block b s) = pv s" "nx (free_block b s) = (nx s)(b := free_pool_list s)"
  by (auto simp: free_block_def fun_eq_iff)

text \<open>Filling the pool chains the blocks from the last to the first.\<close>

lemma init_pool_loop:
  fixes n :: nat
  defines "f \<equiv> \<lambda>i s. (upd_block i (fb_next_update (\<lambda>_. free_pool_list s)) s)\<lparr>free_pool_list := Some i\<rparr>"
  assumes "free_pool_list s = None"
  shows "chain (nx (fold f [0..<n] s)) (free_pool_list (fold f [0..<n] s)) (rev [0..<n]) None"
    "free_list (fold f [0..<n] s) = free_list s" "vmalloc_next (fold f [0..<n] s) = vmalloc_next s"
    "pool_initialized (fold f [0..<n] s) = pool_initialized s"
    "fb_va (free_pool (fold f [0..<n] s) b) = fb_va (free_pool s b)"
    "fb_size (free_pool (fold f [0..<n] s) b) = fb_size (free_pool s b)" "pv (fold f [0..<n] s) = pv s"
proof (induction n)
  case (Suc n)
  {
    case 1
    have "nx (f n (fold f [0..<n] s)) = (nx (fold f [0..<n] s))(n := free_pool_list (fold f [0..<n] s))"
      by (auto simp: f_def)
    then show ?case using Suc(1) by (simp add: f_def)
  }
qed (use assms(2) in \<open>auto simp: f_def fun_eq_iff\<close>)

lemmas init_pool_facts = init_pool_loop [where n = 512, folded init_pool_def]

lemma alloc_block_ok:
  assumes "va_ok s bs ps"
  shows "ps = [] \<Longrightarrow> alloc_block s = (None, s)"
    "ps = b # ps' \<Longrightarrow> \<exists>s'. alloc_block s = (Some b, s') \<and> va_ok s' bs ps' \<and> pool_initialized s' \<and>
       free_list s' = free_list s \<and> vmalloc_next s' = vmalloc_next s \<and> ranges s' = ranges s \<and>
       (\<forall>a. fb_va (free_pool s' a) = fb_va (free_pool s a) \<and> fb_size (free_pool s' a) = fb_size (free_pool s a)) \<and>
       pv s' = (pv s)(b := None)"
proof -
  define s0 where "s0 = (if free_pool_list s = None then
    if \<not> pool_initialized s then (init_pool s)\<lparr>pool_initialized := True\<rparr> else s else s)"
  have a: "alloc_block s = (case free_pool_list s0 of None \<Rightarrow> (None, s0)
     | Some blk \<Rightarrow> (Some blk, upd_block blk (\<lambda>b. b\<lparr>fb_prev := None, fb_next := None\<rparr>) (s0\<lparr>free_pool_list := nx s0 blk\<rparr>)))"
    by (simp add: alloc_block_def s0_def Let_def split: option.split)
  have s0: "chain (nx s0) (free_pool_list s0) ps None" "dll (nx s0) (pv s0) None (free_list s0) bs None"
    "free_list s0 = free_list s" "vmalloc_next s0 = vmalloc_next s" "pv s0 = pv s"
    "\<And>a. fb_va (free_pool s0 a) = fb_va (free_pool s a) \<and> fb_size (free_pool s0 a) = fb_size (free_pool s a)"
    "pool_initialized s0 \<or> ps = rev [0..<512]"
    using assms init_pool_facts [of s] by (auto simp: va_ok_def s0_def split: if_splits)
  {
    assume "ps = []"
    moreover have "pool_initialized s" using assms \<open>ps = []\<close> by (auto simp: va_ok_def split: if_splits)
    ultimately show "alloc_block s = (None, s)" using assms a by (auto simp: s0_def va_ok_def)
  }
  assume ps: "ps = b # ps'"
  have i: "pool_initialized s0" using assms ps by (auto simp: s0_def va_ok_def split: if_splits)
  define s' where "s' = upd_block b (\<lambda>b. b\<lparr>fb_prev := None, fb_next := None\<rparr>) (s0\<lparr>free_pool_list := nx s0 b\<rparr>)"
  have nxv: "nx s' = (nx s0)(b := None)" "pv s' = (pv s0)(b := None)" by (auto simp: s'_def)
  have d: "b \<notin> set bs" "b \<notin> set ps'" "distinct (bs @ ps')" using assms ps by (auto simp: va_ok_def)
  have "va_ok s' bs ps'" using s0(1,2) i ps d unfolding va_ok_def nxv by (auto simp: s'_def)
  then show "\<exists>s'. alloc_block s = (Some b, s') \<and> va_ok s' bs ps' \<and> pool_initialized s' \<and>
       free_list s' = free_list s \<and> vmalloc_next s' = vmalloc_next s \<and> ranges s' = ranges s \<and>
       (\<forall>a. fb_va (free_pool s' a) = fb_va (free_pool s a) \<and> fb_size (free_pool s' a) = fb_size (free_pool s a)) \<and>
       pv s' = (pv s)(b := None)"
    using a s0(1,3-6) ps i nxv(2)
    by (intro exI [of _ s']) (auto simp: s'_def ranges_def fun_eq_iff)
qed

subsection \<open>The best fit\<close>

lemma find_best_step [simp]:
  "find_best h sz q None best = Some best"
  "find_best h sz q (Some c) best = find_best h sz (Some c) (fb_next (h c))
     (if fb_size (h c) \<ge> sz \<and> (case best of None \<Rightarrow> True | Some (b, _) \<Rightarrow> fb_size (h c) < fb_size (h b))
      then Some (c, q) else best)"
  by (subst find_best.simps; simp)+


text \<open>What the search has found after the blocks \<open>bs\<close>.\<close>

definition best_among :: "fb_heap \<Rightarrow> u64 \<Rightarrow> nat list \<Rightarrow> (nat \<times> nat option) option \<Rightarrow> bool" where
  "best_among h sz bs best \<longleftrightarrow> (case best of None \<Rightarrow> \<forall>x \<in> set bs. fb_size (h x) < sz
   | Some (b, q) \<Rightarrow> \<exists>xs ys. bs = xs @ b # ys \<and> q = (if xs = [] then None else Some (last xs)) \<and> sz \<le> fb_size (h b) \<and>
       (\<forall>x \<in> set xs. sz \<le> fb_size (h x) \<longrightarrow> fb_size (h b) < fb_size (h x)) \<and>
       (\<forall>y \<in> set ys. sz \<le> fb_size (h y) \<longrightarrow> fb_size (h b) \<le> fb_size (h y)))"

lemma best_amongI:
  "\<lbrakk>bs = xs @ b # ys; q = (if xs = [] then None else Some (last xs)); sz \<le> fb_size (h b);
    \<forall>x \<in> set xs. sz \<le> fb_size (h x) \<longrightarrow> fb_size (h b) < fb_size (h x);
    \<forall>y \<in> set ys. sz \<le> fb_size (h y) \<longrightarrow> fb_size (h b) \<le> fb_size (h y)\<rbrakk> \<Longrightarrow> best_among h sz bs (Some (b, q))"
  by (auto simp: best_among_def)

lemma best_among_snoc:
  assumes "best_among h sz bs best"
  shows "best_among h sz (bs @ [c])
    (if sz \<le> fb_size (h c) \<and> (case best of None \<Rightarrow> True | Some (b, _) \<Rightarrow> fb_size (h c) < fb_size (h b))
     then Some (c, if bs = [] then None else Some (last bs)) else best)"
proof (cases best)
  case None
  then have lt: "\<forall>x \<in> set bs. fb_size (h x) < sz" using assms by (simp add: best_among_def)
  show ?thesis
  proof (cases "sz \<le> fb_size (h c)")
    case True
    then show ?thesis using None lt by (auto simp: not_le [symmetric] intro!: best_amongI [of _ bs _ "[]"])
  next
    case False
    then show ?thesis using None lt by (auto simp: best_among_def)
  qed
next
  case (Some bq)
  obtain b q where b: "best = Some (b, q)" using Some by (cases bq) auto
  obtain xs ys where bs: "bs = xs @ b # ys" "q = (if xs = [] then None else Some (last xs))" "sz \<le> fb_size (h b)"
    "\<forall>x \<in> set xs. sz \<le> fb_size (h x) \<longrightarrow> fb_size (h b) < fb_size (h x)"
    "\<forall>y \<in> set ys. sz \<le> fb_size (h y) \<longrightarrow> fb_size (h b) \<le> fb_size (h y)"
    using assms b by (auto simp: best_among_def)
  show ?thesis
  proof (cases "sz \<le> fb_size (h c) \<and> fb_size (h c) < fb_size (h b)")
    case True
    have "\<forall>x \<in> set bs. sz \<le> fb_size (h x) \<longrightarrow> fb_size (h c) < fb_size (h x)"
      using bs True by (auto dest: order_less_le_trans order_less_trans)
    then show ?thesis using True b by (auto intro!: best_amongI [of _ bs _ "[]"])
  next
    case False
    have "\<forall>y \<in> set (ys @ [c]). sz \<le> fb_size (h y) \<longrightarrow> fb_size (h b) \<le> fb_size (h y)" using bs(5) False by auto
    then show ?thesis using False b bs by (auto intro!: best_amongI [of _ xs _ "ys @ [c]"])
  qed
qed

lemma find_best_finds:
  "chain (\<lambda>b. fb_next (h b)) p ys None \<Longrightarrow> best_among h sz xs best \<Longrightarrow>
   \<exists>best'. find_best h sz (if xs = [] then None else Some (last xs)) p best = Some best' \<and> best_among h sz (xs @ ys) best'"
proof (induction ys arbitrary: p xs best)
  case (Cons c ys)
  show ?case using Cons.IH [of _ "xs @ [c]", OF _ best_among_snoc [OF Cons.prems(2)]] Cons.prems(1) by simp
qed simp

lemma arg_min_list_in: "xs \<noteq> [] \<Longrightarrow> arg_min_list f xs \<in> set xs"
  by (induction f xs rule: arg_min_list.induct) (auto simp: Let_def)

lemma arg_min_list_first:
  fixes f :: "'a \<Rightarrow> 'b :: linorder"
  assumes "\<forall>x \<in> set xs. f b < f x" "\<forall>y \<in> set ys. f b \<le> f y"
  shows "arg_min_list f (xs @ b # ys) = b"
proof -
  have two: "arg_min_list f (b # ys) = b" using assms(2) arg_min_list_in [of ys f]
    by (cases ys) (auto simp: Let_def)
  show ?thesis using assms(1)
  proof (induction xs)
    case (Cons x xs)
    then have "arg_min_list f (xs @ b # ys) = b" "\<not> f x \<le> f b" by auto
    then show ?case by (cases "xs @ b # ys") (auto simp: Let_def)
  qed (simp add: two)
qed

lemma best_fit_split:
  assumes "L = L1 @ r # L2" "sz \<le> snd r" "\<forall>x \<in> set L1. sz \<le> snd x \<longrightarrow> snd r < snd x" "\<forall>x \<in> set L2. sz \<le> snd x \<longrightarrow> snd r \<le> snd x"
  shows "best_fit sz L = Some r"
proof -
  have "arg_min_list snd (filter (\<lambda>r. sz \<le> snd r) L1 @ r # filter (\<lambda>r. sz \<le> snd r) L2) = r"
    by (rule arg_min_list_first) (use assms(3,4) in auto)
  then show ?thesis using assms(1,2) by (auto simp: best_fit_def split: list.split)
qed

lemma best_fit_none: "\<forall>x \<in> set L. snd x < sz \<Longrightarrow> best_fit sz L = None"
  by (auto simp: best_fit_def not_le split: list.split dest: filter_eq_ConsD)

lemma va_take_split:
  assumes d: "distinct (L1 @ (va, z) # L2)" and fit: "best_fit sz (L1 @ (va, z) # L2) = Some (va, z)"
  shows "va_take sz (L1 @ (va, z) # L2) nxt = (va, L1 @ (if z = sz then [] else [(va + sz, z - sz)]) @ L2, nxt)"
proof -
  have keep: "(va, z) \<notin> set L \<Longrightarrow> concat (map (\<lambda>r. if r = (va, z) then X else [r]) L) = L" for L :: "(u64 \<times> u64) list" and X
    by (induction L) auto
  show ?thesis using d unfolding va_take_def fit by (simp add: keep)
qed

text \<open>Unlinking a block, as the code does it through \<open>best_prev\<close>.\<close>

lemma take_out_block:
  assumes ok: "va_ok s (xs @ b # ys) ps"
    and q: "q = (if xs = [] then None else Some (last xs))"
  defines "s1 \<equiv> (case q of None \<Rightarrow> s\<lparr>free_list := nx s b\<rparr> | Some p \<Rightarrow> upd_block p (fb_next_update (\<lambda>_. nx s b)) s)"
  defines "s2 \<equiv> (case nx s1 b of None \<Rightarrow> s1 | Some n \<Rightarrow> upd_block n (fb_prev_update (\<lambda>_. pv s1 b)) s1)"
  shows "va_ok (free_block b s2) (xs @ ys) (b # ps)" "vmalloc_next (free_block b s2) = vmalloc_next s"
    "ranges (free_block b s2) = ranges s"
proof -
  have dl: "dll (nx s) (pv s) None (free_list s) (xs @ b # ys) None" and d: "distinct (xs @ b # ys)" "distinct (xs @ ys @ b # ps)"
    and i: "pool_initialized s" "chain (nx s) (free_pool_list s) ps None"
    using ok by (auto simp: va_ok_def split: if_splits)
  note r = dll_remove [OF dl d(1) refl refl]
  have b: "b \<noteq> last xs" if "xs \<noteq> []" using that d(1) by auto
  have s1: "nx s1 = (if xs = [] then nx s else (nx s)(last xs := nx s b))" "pv s1 = pv s"
    "free_list s1 = (if xs = [] then nx s b else free_list s)" "nx s1 b = nx s b" "pv s1 b = pv s b"
    using b by (auto simp: s1_def q split: option.split)
  have s2: "nx s2 = nx s1" "pv s2 = (if ys = [] then pv s else (pv s)(hd ys := pv s b))" "free_list s2 = free_list s1"
  proof -
    show "nx s2 = nx s1" "free_list s2 = free_list s1" by (auto simp: s2_def split: option.split)
    have "pv s2 = (case nx s1 b of None \<Rightarrow> pv s1 | Some n \<Rightarrow> (pv s1)(n := pv s1 b))"
      by (auto simp: s2_def split: option.split)
    then show "pv s2 = (if ys = [] then pv s else (pv s)(hd ys := pv s b))" unfolding s1(2,4,5) r(3) by simp
  qed
  have rest: "pool_initialized s2" "free_pool_list s2 = free_pool_list s" "vmalloc_next s2 = vmalloc_next s"
    using i by (auto simp: s2_def s1_def split: option.split)
  have "ranges s2 = ranges s" by (auto simp: s2_def s1_def ranges_def fun_eq_iff split: option.split)
  then show "ranges (free_block b s2) = ranges s" by (auto simp: ranges_def fun_eq_iff)
  have "chain (nx s2) (free_pool_list s) ps None"
    using i(2) d(2) last_in_set [of xs] unfolding s2(1) s1(1) by (auto simp: disjoint_iff)
  then show "va_ok (free_block b s2) (xs @ ys) (b # ps)"
    using r(1) d unfolding va_ok_def free_block_simps s2(1,2) s1(1) by (auto simp: s2(3) s1(3) rest)
  show "vmalloc_next (free_block b s2) = vmalloc_next s" by (simp add: rest)
qed

lemma find_free_space_take:
  assumes ok: "va_ok s bs ps" and d: "distinct (ranges s bs)"
  shows "\<exists>va s' bs' ps'. find_free_space sz s = Some (va, s') \<and> va_ok s' bs' ps' \<and>
    (va, ranges s' bs', vmalloc_next s') = va_take sz (ranges s bs) (vmalloc_next s)"
proof -
  have "chain (nx s) (free_list s) bs None" using ok by (auto simp: va_ok_def intro: dll_chain)
  then obtain best where best: "find_best (free_pool s) sz None (free_list s) None = Some best" "best_among (free_pool s) sz bs best"
    using find_best_finds [of "free_pool s" "free_list s" bs sz "[]" None] by (auto simp: best_among_def)
  show ?thesis
  proof (cases best)
    case None
    then have n: "best_fit sz (ranges s bs) = None" using best(2) by (auto simp: best_among_def ranges_def intro!: best_fit_none)
    have "va_ok (s\<lparr>vmalloc_next := v\<rparr>) bs ps" "ranges (s\<lparr>vmalloc_next := v\<rparr>) bs = ranges s bs" for v
      using ok by (simp_all add: va_ok_def ranges_def)
    then show ?thesis using ok best(1) None by (auto simp: find_free_space_def va_take_def n)
  next
    case (Some bq)
    obtain b q where bq: "best = Some (b, q)" using Some by (cases bq) auto
    obtain xs ys where bs: "bs = xs @ b # ys" "q = (if xs = [] then None else Some (last xs))" "sz \<le> fb_size (free_pool s b)"
      "\<forall>x \<in> set xs. sz \<le> fb_size (free_pool s x) \<longrightarrow> fb_size (free_pool s b) < fb_size (free_pool s x)"
      "\<forall>y \<in> set ys. sz \<le> fb_size (free_pool s y) \<longrightarrow> fb_size (free_pool s b) \<le> fb_size (free_pool s y)"
      using best(2) bq by (auto simp: best_among_def)
    let ?va = "fb_va (free_pool s b)" and ?z = "fb_size (free_pool s b)"
    have L: "ranges s bs = ranges s xs @ (?va, ?z) # ranges s ys" by (simp add: ranges_def bs(1))
    have fit: "best_fit sz (ranges s bs) = Some (?va, ?z)"
      by (rule best_fit_split [OF L]) (use bs(3-5) in \<open>auto simp: ranges_def\<close>)
    have take: "va_take sz (ranges s bs) (vmalloc_next s) =
        (?va, ranges s xs @ (if ?z = sz then [] else [(?va + sz, ?z - sz)]) @ ranges s ys, vmalloc_next s)"
      using va_take_split [OF d [unfolded L] fit [unfolded L]] by (simp add: L)
    show ?thesis
    proof (cases "?z = sz")
      case True
      obtain s' where s': "find_free_space sz s = Some (?va, s')" "va_ok s' (xs @ ys) (b # ps)"
        "vmalloc_next s' = vmalloc_next s" "ranges s' = ranges s"
        using best(1) bq True take_out_block [OF ok [unfolded bs(1)] bs(2)] by (simp add: find_free_space_def Let_def)
      moreover have "(?va, ranges s' (xs @ ys), vmalloc_next s') = va_take sz (ranges s bs) (vmalloc_next s)"
        using take True by (simp add: s'(3,4)) (simp add: ranges_def)
      ultimately show ?thesis by blast
    next
      case False
      define s' where "s' = upd_block b (fb_size_update (\<lambda>x. x - sz)) (upd_block b (fb_va_update (\<lambda>x. x + sz)) s)"
      have "nx s' = nx s" "pv s' = pv s" by (auto simp: s'_def)
      then have "va_ok s' bs ps" using ok by (simp add: va_ok_def s'_def)
      moreover have "b \<notin> set xs" "b \<notin> set ys" using ok bs(1) by (auto simp: va_ok_def)
      then have "ranges s' bs = ranges s xs @ [(?va + sz, ?z - sz)] @ ranges s ys" by (auto simp: ranges_def s'_def bs(1))
      moreover have "find_free_space sz s = Some (?va, s')" using best(1) bq False by (simp add: find_free_space_def s'_def)
      ultimately have "find_free_space sz s = Some (?va, s')" "va_ok s' bs ps"
        "(?va, ranges s' bs, vmalloc_next s') = va_take sz (ranges s bs) (vmalloc_next s)"
        using False take by (simp_all add: s'_def)
      then show ?thesis by blast
    qed
  qed
qed

subsection \<open>Returning a range\<close>

definition touch :: "u64 \<times> u64 \<Rightarrow> u64 \<times> u64 \<Rightarrow> bool" where
  "touch r q \<longleftrightarrow> fst r + snd r = fst q \<or> fst q + snd q = fst r"

abbreviation range_of :: "va_space \<Rightarrow> nat \<Rightarrow> u64 \<times> u64" where
  "range_of s b \<equiv> (fb_va (free_pool s b), fb_size (free_pool s b))"

lemma coalesce_inner_quiet:
  "chain (nx s) p xs None \<Longrightarrow> \<forall>x \<in> set xs. \<not> touch (range_of s c) (range_of s x) \<Longrightarrow> coalesce_inner s c p ch = Some (s, c, ch)"
proof (induction xs arbitrary: p)
  case Nil
  then show ?case by (simp add: coalesce_inner.simps)
next
  case (Cons x xs)
  then show ?case using Cons.IH [of "nx s x"] by (subst coalesce_inner.simps) (simp add: touch_def)
qed

lemma coalesce_scan_quiet:
  "chain (nx s) p xs None \<Longrightarrow> sorted_wrt (\<lambda>x y. \<not> touch (range_of s x) (range_of s y)) xs \<Longrightarrow> coalesce_scan s p ch = Some (s, ch)"
proof (induction xs arbitrary: p)
  case Nil
  then show ?case by (simp add: coalesce_scan.simps)
next
  case (Cons x xs)
  then show ?case using coalesce_inner_quiet [of s "nx s x" xs x ch] Cons.IH [of "nx s x"]
    by (subst coalesce_scan.simps) simp
qed

lemma coalesce_quiet:
  assumes "chain (nx s) (free_list s) xs None" "sorted_wrt (\<lambda>r q. \<not> touch r q) (ranges s xs)"
  shows "coalesce_free_list s = Some s"
  using coalesce_scan_quiet [OF assms(1), of False] assms(2)
  by (simp add: coalesce_free_list_def coalesce_loop.simps ranges_def sorted_wrt_map)

text \<open>The new block in front of the list, before the merging.\<close>

lemma add_free_space_push:
  assumes ok: "va_ok s bs (b # ps)"
  obtains s' where "add_free_space va sz s = coalesce_free_list s'" "va_ok s' (b # bs) ps" "pool_initialized s'"
    "ranges s' (b # bs) = (va, sz) # ranges s bs" "vmalloc_next s' = vmalloc_next s"
    "\<And>a. a \<noteq> b \<Longrightarrow> range_of s' a = range_of s a" "\<And>a. a \<notin> set (b # bs) \<Longrightarrow> pv s' a = pv s a"
proof -
  obtain s1 where s1: "alloc_block s = (Some b, s1)" "va_ok s1 bs ps" "pool_initialized s1" "free_list s1 = free_list s"
     "vmalloc_next s1 = vmalloc_next s" "ranges s1 = ranges s"
     "\<And>a. fb_va (free_pool s1 a) = fb_va (free_pool s a) \<and> fb_size (free_pool s1 a) = fb_size (free_pool s a)"
     "pv s1 = (pv s)(b := None)"
    using alloc_block_ok(2) [OF ok refl] by blast
  define s2 where "s2 = upd_block b (\<lambda>x. x\<lparr>fb_va := va, fb_size := sz, fb_next := free_list s1, fb_prev := None\<rparr>) s1"
  define s3 where "s3 = (case free_list s2 of None \<Rightarrow> s2 | Some f \<Rightarrow> upd_block f (fb_prev_update (\<lambda>_. Some b)) s2)"
  define s' where "s' = s3\<lparr>free_list := Some b\<rparr>"
  have add: "add_free_space va sz s = coalesce_free_list s'"
    unfolding s'_def s3_def s2_def by (simp add: add_free_space_def s1(1) Let_def)
  have nb: "b \<notin> set bs" "b \<notin> set ps" "distinct (bs @ ps)" using ok by (auto simp: va_ok_def)
  have dl: "dll (nx s1) (pv s1) None (free_list s1) bs None" "chain (nx s1) (free_pool_list s1) ps None"
    using s1(2,3) by (auto simp: va_ok_def)
  have fl: "free_list s1 = (if bs = [] then None else Some (hd bs))" using dl(1) by (cases bs) auto
  have nx': "nx s' = (nx s1)(b := free_list s1)" by (auto simp: s'_def s3_def s2_def split: option.split)
  have pv': "pv s' = (if bs = [] then (pv s1)(b := None) else (pv s1)(b := None, hd bs := Some b))"
    using fl by (auto simp: s'_def s3_def s2_def split: option.split)
  have "dll (nx s') (pv s') (Some b) (free_list s1) bs None" using dl(1) nb unfolding nx' pv' by (cases bs) auto
  moreover have "hd bs \<noteq> b" if "bs \<noteq> []" using that nb by auto
  moreover have "chain (nx s') (free_pool_list s1) ps None" using dl(2) nb unfolding nx' by simp
  moreover have rest: "free_list s' = Some b" "pool_initialized s'" "free_pool_list s' = free_pool_list s1" "vmalloc_next s' = vmalloc_next s"
    using s1(3,5) by (auto simp: s'_def s3_def s2_def split: option.split)
  ultimately have "va_ok s' (b # bs) ps" using nb fun_cong [OF nx', of b] fun_cong [OF pv', of b]
    by (auto simp: va_ok_def)
  moreover have "range_of s' b = (va, sz)" "\<And>a. a \<noteq> b \<Longrightarrow> range_of s' a = range_of s a"
    using s1(7) by (auto simp: s'_def s3_def s2_def split: option.split)
  moreover from this have "ranges s' (b # bs) = (va, sz) # ranges s bs" using nb(1) by (simp add: ranges_def) (metis (no_types, lifting))
  moreover have "pv s' a = pv s a" if "a \<notin> set (b # bs)" for a
    using that fun_cong [OF pv', of a] fun_cong [OF s1(8), of a] by (auto split: if_splits)
  ultimately show thesis using that [OF add] rest by blast
qed

lemma add_free_space_quiet:
  assumes "va_ok s bs (b # ps)" "sorted_wrt (\<lambda>r q. \<not> touch r q) ((va, sz) # ranges s bs)"
  obtains s' where "add_free_space va sz s = Some s'" "va_ok s' (b # bs) ps"
    "ranges s' (b # bs) = (va, sz) # ranges s bs" "vmalloc_next s' = vmalloc_next s"
proof -
  obtain s' where s': "add_free_space va sz s = coalesce_free_list s'" "va_ok s' (b # bs) ps"
    "ranges s' (b # bs) = (va, sz) # ranges s bs" "vmalloc_next s' = vmalloc_next s"
    using add_free_space_push [OF assms(1)] by metis
  have "coalesce_free_list s' = Some s'"
    by (rule coalesce_quiet [of _ "b # bs"]) (use s' assms(2) in \<open>auto simp: va_ok_def intro: dll_chain\<close>)
  then show thesis using that s' by simp
qed

lemma add_free_space_full: "va_ok s bs [] \<Longrightarrow> add_free_space va sz s = Some s"
  using alloc_block_ok(1) [of s bs "[]"] by (simp add: add_free_space_def)

subsection \<open>Free and live ranges are disjoint\<close>

definition apart :: "u64 \<times> u64 \<Rightarrow> u64 \<times> u64 \<Rightarrow> bool" where
  "apart r q \<longleftrightarrow> unat (fst r) + unat (snd r) \<le> unat (fst q) \<or> unat (fst q) + unat (snd q) \<le> unat (fst r)"

text \<open>The ranges \<open>R\<close>, free or in use, are below the bump pointer, not empty and do not overlap.\<close>

definition va_parts :: "(u64 \<times> u64) list \<Rightarrow> u64 \<Rightarrow> bool" where
  "va_parts R nxt \<longleftrightarrow> VMALLOC_START \<le> nxt \<and> nxt \<le> VMALLOC_END \<and> sorted_wrt apart R \<and>
     (\<forall>r \<in> set R. 0 < snd r \<and> VMALLOC_START \<le> fst r \<and> unat (fst r) + unat (snd r) \<le> unat nxt)"

lemma apart_sym: "apart r q \<Longrightarrow> apart q r"
  by (auto simp: apart_def)

lemma va_parts_distinct: "va_parts R nxt \<Longrightarrow> distinct R"
proof -
  assume p: "va_parts R nxt"
  have "sorted_wrt apart R \<Longrightarrow> \<forall>r \<in> set R. 0 < snd r \<Longrightarrow> distinct R"
  proof (induction R)
    case (Cons r R)
    moreover have "\<not> apart r r" using Cons.prems(2) by (simp add: apart_def word_less_nat_alt)
    ultimately show ?case by auto
  qed simp
  then show ?thesis using p by (simp add: va_parts_def)
qed

lemma best_fit_Some:
  assumes "best_fit sz L = Some (va, z)" shows "(va, z) \<in> set L" "sz \<le> z"
proof -
  have ne: "filter (\<lambda>r. sz \<le> snd r) L \<noteq> []" using assms by (auto simp: best_fit_def)
  moreover have "arg_min_list snd (filter (\<lambda>r. sz \<le> snd r) L) = (va, z)"
    using assms ne by (auto simp: best_fit_def split: list.splits)
  ultimately have "(va, z) \<in> set (filter (\<lambda>r. sz \<le> snd r) L)" using arg_min_list_in by metis
  then show "(va, z) \<in> set L" "sz \<le> z" by auto
qed

lemma va_parts_move: "va_parts (L1 @ r # L2 @ A) nxt = va_parts ((L1 @ L2) @ r # A) nxt"
  by (auto simp: va_parts_def sorted_wrt_append intro: apart_sym)

text \<open>Cutting the front of a range off.\<close>

lemma va_parts_cut:
  assumes p: "va_parts (L1 @ (va, z) # R) nxt" and sz: "0 < sz" "sz < z"
  shows "va_parts (L1 @ (va + sz, z - sz) # (va, sz) # R) nxt"
proof -
  have le: "unat va + unat z \<le> unat nxt" using p by (auto simp: va_parts_def)
  have lt: "unat nxt < 2 ^ 64" using unsigned_less [of nxt] by simp
  have s: "unat sz < unat z" "0 < unat sz" using sz by (auto simp: word_less_nat_alt)
  have va: "unat (va + sz) = unat va + unat sz" using le lt s by (intro unat_add_lem [THEN iffD1]) simp
  have z: "unat (z - sz) = unat z - unat sz" using sz by (intro unat_sub) simp
  have "apart (va + sz, z - sz) (va, sz)" "\<And>q. apart (va, z) q \<Longrightarrow> apart (va + sz, z - sz) q"
    "\<And>q. apart q (va, z) \<Longrightarrow> apart q (va + sz, z - sz)" "\<And>q. apart (va, z) q \<Longrightarrow> apart (va, sz) q"
    "\<And>q. apart q (va, z) \<Longrightarrow> apart q (va, sz)"
    using s by (auto simp: apart_def va z)
  moreover have "0 < z - sz" "VMALLOC_START \<le> va + sz" "VMALLOC_START \<le> va" "unat (va + sz) + unat (z - sz) \<le> unat nxt"
    "unat va + unat sz \<le> unat nxt"
    using p s le by (auto simp: va_parts_def word_less_nat_alt word_le_nat_alt va z)
  ultimately show ?thesis using p sz(1) unfolding va_parts_def sorted_wrt_append by (auto simp del: word_gt_0)
qed

lemma va_take_parts:
  assumes p: "va_parts (L @ A) nxt" and sz: "0 < sz" "unat nxt + unat sz < 2 ^ 64"
    and t: "va_take sz L nxt = (va, L', nxt')"
  shows "va = 0 \<and> L' = L \<and> nxt' = nxt \<or> va \<noteq> 0 \<and> va_parts (L' @ (va, sz) # A) nxt'"
proof (cases "best_fit sz L")
  case (Some r)
  obtain v z where r: "best_fit sz L = Some (v, z)" using Some by (cases r) auto
  obtain L1 L2 where L: "L = L1 @ (v, z) # L2" using best_fit_Some [OF r] by (meson split_list)
  have d: "distinct (L1 @ (v, z) # L2)" using va_parts_distinct [OF p] by (auto simp: L)
  have t': "va = v" "nxt' = nxt" "L' = L1 @ (if z = sz then [] else [(v + sz, z - sz)]) @ L2"
    using t va_take_split [OF d r [unfolded L], of nxt] by (auto simp: L)
  have p': "va_parts (L1 @ (v, z) # L2 @ A) nxt" using p by (simp add: L)
  have "v \<noteq> 0" using p' by (auto simp: va_parts_def VMALLOC_START_def)
  moreover have "va_parts (L' @ (v, sz) # A) nxt"
  proof (cases "z = sz")
    case True
    then show ?thesis using p' va_parts_move [of L1 "(v, z)" L2 A nxt] t' by simp
  next
    case False
    then have "sz < z" using best_fit_Some(2) [OF r] by simp
    then have "va_parts (L1 @ (v + sz, z - sz) # (v, sz) # L2 @ A) nxt" using va_parts_cut [OF p' sz(1)] by simp
    then show ?thesis using va_parts_move [of "L1 @ [(v + sz, z - sz)]" "(v, sz)" L2 A nxt] t' False by simp
  qed
  ultimately show ?thesis using t' by simp
next
  case None
  have u: "unat (nxt + sz) = unat nxt + unat sz" using sz(2) by (intro unat_add_lem [THEN iffD1]) simp
  have "nxt \<noteq> 0" using p by (auto simp: va_parts_def VMALLOC_START_def)
  moreover have "va_parts (L @ (nxt, sz) # A) (nxt + sz)" if "nxt + sz \<le> VMALLOC_END"
  proof -
    have below: "apart r (nxt, sz)" "apart (nxt, sz) r" "unat (fst r) + unat (snd r) \<le> unat (nxt + sz)" if "r \<in> set L \<union> set A" for r
      using that p by (auto simp: va_parts_def apart_def u intro: trans_le_add1)
    have "VMALLOC_START \<le> nxt + sz" using p u by (auto simp: va_parts_def word_le_nat_alt)
    then show ?thesis using p below sz(1) that u unfolding va_parts_def sorted_wrt_append by (auto simp del: word_gt_0)
  qed
  ultimately show ?thesis using t None by (auto simp: va_take_def split: if_splits)
qed

subsection \<open>Merging loses ranges, or does not end\<close>

lemma unlink_block_None:
  "pv s b = None \<Longrightarrow> nx s b = None \<Longrightarrow> unlink_block b s = s\<lparr>free_list := None\<rparr>"
  by (simp add: unlink_block_def)

lemma dll_two: "va_ok s [b, c] ps \<Longrightarrow> free_list s = Some b \<and> nx s b = Some c \<and> pv s b = None \<and> nx s c = None \<and> pv s c = Some b \<and> b \<noteq> c"
  by (auto simp: va_ok_def)

text \<open>The block behind the first one ends where the first one starts: both leave the list.\<close>

lemma coalesce_loses:
  assumes ok: "va_ok s [b, c] ps" and m: "fb_va (free_pool s c) + fb_size (free_pool s c) = fb_va (free_pool s b)"
    and n: "fb_va (free_pool s b) + fb_size (free_pool s b) \<noteq> fb_va (free_pool s c)"
  shows "\<exists>s'. coalesce_free_list s = Some s' \<and> free_list s' = None \<and> vmalloc_next s' = vmalloc_next s"
proof -
  note d = dll_two [OF ok]
  define s1 where "s1 = upd_block c (fb_size_update (\<lambda>z. z + fb_size (free_pool s b))) s"
  define s2 where "s2 = upd_block b (fb_next_update (\<lambda>_. None)) s1"
  define s3 where "s3 = free_block b (s2\<lparr>free_list := None\<rparr>)"
  have u1: "unlink_block c s1 = s2" using d by (simp add: unlink_block_def s1_def s2_def)
  have u2: "unlink_block b s2 = s2\<lparr>free_list := None\<rparr>" using d by (intro unlink_block_None) (auto simp: s1_def s2_def)
  have nc: "nx s2 c = None" "nx s3 c = None" using d by (auto simp: s1_def s2_def s3_def free_block_def)
  have "coalesce_inner s b (Some c) False = coalesce_inner s3 c None True"
    using m n u2 nc by (subst coalesce_inner.simps) (simp add: u1 u2 s3_def Let_def flip: s1_def)
  then have "coalesce_inner s b (Some c) False = Some (s3, c, True)" by (simp add: coalesce_inner.simps)
  then have "coalesce_scan s (Some b) False = Some (s3, True)" using d nc by (simp add: coalesce_scan.simps)
  moreover have "coalesce_scan s3 (free_list s3) False = Some (s3, False)" by (simp add: coalesce_scan.simps s3_def)
  then have "coalesce_loop s3 = Some s3" by (simp add: coalesce_loop.simps [of s3])
  ultimately have "coalesce_free_list s = Some s3" using d by (simp add: coalesce_free_list_def coalesce_loop.simps [of s])
  then show ?thesis by (auto simp: s3_def s2_def s1_def)
qed

text \<open>
  When every cell that can be met points to one that can be met, the inner loop does not end, whatever
  the ranges are: merging keeps it so.
\<close>

definition trapped :: "nat set \<Rightarrow> va_space \<Rightarrow> bool" where
  "trapped S s \<longleftrightarrow> (\<forall>a \<in> S. nx s a \<in> Some ` S \<and> pv s a = None) \<and> free_pool_list s \<in> Some ` S"

lemma trapped_upd_size: "trapped S s \<Longrightarrow> trapped S (upd_block b (fb_size_update f) s)"
  by (auto simp: trapped_def)

lemma trapped_unlink: "trapped S s \<Longrightarrow> b \<in> S \<Longrightarrow> trapped S (unlink_block b s)"
  by (auto simp: trapped_def unlink_block_def Let_def image_iff split: option.split)

lemma trapped_free: "trapped S s \<Longrightarrow> b \<in> S \<Longrightarrow> trapped S (free_block b s)"
  by (auto simp: trapped_def free_block_def)

lemma trapped_next: "trapped S s \<Longrightarrow> b \<in> S \<Longrightarrow> \<exists>c \<in> S. nx s b = Some c"
  by (auto simp: trapped_def)

lemma trapped_inner:
  assumes "trapped S s" "c \<in> S" "n \<in> Some ` S"
  shows "coalesce_inner s c n ch = None"
proof -
  have "trapped S s \<and> c \<in> S \<and> n \<in> Some ` S \<longrightarrow> False" if "coalesce_inner s c n ch = Some r" for r
  proof (rule coalesce_inner.raw_induct [where P = "\<lambda>s c n ch r. trapped S s \<and> c \<in> S \<and> n \<in> Some ` S \<longrightarrow> False", OF _ that], intro impI)
    fix f s c n ch r
    assume IH: "\<And>s c n ch r. f s c n ch = Some r \<Longrightarrow> trapped S s \<and> c \<in> S \<and> n \<in> Some ` S \<longrightarrow> False"
      and e: "(case n of None \<Rightarrow> Some (s, c, ch)
        | Some n \<Rightarrow>
          if fb_va (free_pool s c) + fb_size (free_pool s c) = fb_va (free_pool s n) then
            (let s = upd_block c (fb_size_update (\<lambda>z. z + fb_size (free_pool s n))) s;
                 s = unlink_block c s;
                 s = unlink_block n s;
                 tmp = fb_next (free_pool s n);
                 s = free_block n s
             in f s c tmp True)
          else if fb_va (free_pool s n) + fb_size (free_pool s n) = fb_va (free_pool s c) then
            (let s = upd_block n (fb_size_update (\<lambda>z. z + fb_size (free_pool s c))) s;
                 s = unlink_block n s;
                 s = unlink_block c s;
                 tmp = fb_next (free_pool s n);
                 s = free_block c s
             in f s n tmp True)
          else f s c (fb_next (free_pool s n)) ch) = Some r"
      and t: "trapped S s \<and> c \<in> S \<and> n \<in> Some ` S"
    obtain m where m: "n = Some m" "m \<in> S" using t by auto
    have step: "trapped S s' \<Longrightarrow> a \<in> S \<Longrightarrow> b \<in> S \<Longrightarrow> f (free_block a s') c' (nx s' b) True \<noteq> Some r" if "c' \<in> S" for s' a b c'
      using IH [of "free_block a s'" c' "nx s' b" True r] trapped_free [of S s' a] trapped_next [of S s' b] that by fastforce
    have "f s c (nx s m) ch \<noteq> Some r" using IH [of s c "nx s m" ch r] t trapped_next [of S s m] m(2) by fastforce
    with e show False unfolding m(1) Let_def
      using step t m(2) by (auto simp: trapped_unlink trapped_upd_size split: if_splits)
  qed
  then show ?thesis using assms by (cases "coalesce_inner s c n ch") auto
qed

lemma unlink_detached:
  assumes "pv s b = None"
  shows "nx (unlink_block b s) = nx s" "free_pool_list (unlink_block b s) = free_pool_list s"
    "fb_va (free_pool (unlink_block b s) a) = fb_va (free_pool s a)" "fb_size (free_pool (unlink_block b s) a) = fb_size (free_pool s a)"
    "pv (unlink_block b s) a = (if nx s b = Some a then None else pv s a)"
  using assms by (auto simp: unlink_block_def Let_def split: option.split)

text \<open>
  An unused block \<open>p\<close> meets the unused blocks \<open>qs\<close> behind it: all of them have address and size 0, so each
  looks like a neighbour of \<open>p\<close> and is put on the pool a second time.
\<close>

definition zero_run :: "nat set \<Rightarrow> nat \<Rightarrow> va_space \<Rightarrow> nat list \<Rightarrow> bool" where
  "zero_run S p s qs \<longleftrightarrow> p \<in> S \<and> set qs \<subseteq> S \<and> distinct (p # qs) \<and> (\<forall>a \<in> S. pv s a = None) \<and>
     (\<forall>a \<in> S - set qs. nx s a \<in> Some ` S) \<and> free_pool_list s \<in> Some ` S \<and> (\<forall>a \<in> set (p # qs). range_of s a = (0, 0))"

lemma zero_run_step:
  assumes z: "zero_run S p s (q # qs)" and c: "chain (nx s) n (q # qs) None"
  obtains s' where "coalesce_inner s p n ch = coalesce_inner s' p (nx s q) True" "zero_run S p s' qs" "chain (nx s') (nx s q) qs None"
proof -
  have n: "n = Some q" and pq: "p \<noteq> q" using z c by (auto simp: zero_run_def)
  define s1 where "s1 = unlink_block p (upd_block p (fb_size_update (\<lambda>z. z + fb_size (free_pool s q))) s)"
  define s2 where "s2 = unlink_block q s1"
  define s' where "s' = free_block q s2"
  have pv0: "pv s a = None" if "a \<in> S" for a using z that by (simp add: zero_run_def)
  have pq': "p \<in> S" "q \<in> S" "range_of s p = (0, 0)" "range_of s q = (0, 0)" using z by (auto simp: zero_run_def)
  have pp: "pv (upd_block p (fb_size_update (\<lambda>z. z + fb_size (free_pool s q))) s) p = None" using pv0 pq' by simp
  have s1: "nx s1 = nx s" "free_pool_list s1 = free_pool_list s" "\<And>a. range_of s1 a = range_of s a" "\<And>a. a \<in> S \<Longrightarrow> pv s1 a = None"
    using unlink_detached [OF pp] pq' pv0 by (auto simp: s1_def)
  have s2: "nx s2 = nx s" "free_pool_list s2 = free_pool_list s" "\<And>a. range_of s2 a = range_of s a" "\<And>a. a \<in> S \<Longrightarrow> pv s2 a = None"
    using unlink_detached [OF s1(4) [OF pq'(2)]] s1 by (auto simp: s2_def)
  have s': "nx s' = (nx s)(q := free_pool_list s)" "\<And>a. range_of s' a = range_of s a" "\<And>a. a \<in> S \<Longrightarrow> pv s' a = None"
    "free_pool_list s' = Some q"
    using s2 fun_cong [OF s2(1)] by (auto simp: s'_def free_block_def fun_eq_iff)
  have "coalesce_inner s p n ch = coalesce_inner s' p (nx s q) True"
    using pq' fun_cong [OF s2(1), of q] unfolding n by (subst coalesce_inner.simps) (simp add: s1_def s2_def s'_def Let_def)
  moreover have "zero_run S p s' qs"
    using z s'(2-4) fun_cong [OF s'(1)] by (auto simp: zero_run_def)
  moreover have "chain (nx s') (nx s q) qs None" using c z unfolding s'(1) by (simp add: zero_run_def)
  ultimately show thesis using that by blast
qed

lemma zero_run_trapped:
  "zero_run S p s qs \<Longrightarrow> chain (nx s) n qs None \<Longrightarrow> \<exists>s' ch'. coalesce_inner s p n ch = Some (s', p, ch') \<and> trapped S s'"
proof (induction qs arbitrary: s n ch)
  case Nil
  then show ?case by (auto simp: coalesce_inner.simps zero_run_def trapped_def)
next
  case (Cons q qs)
  obtain s' where "coalesce_inner s p n ch = coalesce_inner s' p (nx s q) True" "zero_run S p s' qs" "chain (nx s') (nx s q) qs None"
    using zero_run_step [OF Cons.prems] by metis
  then show ?case using Cons.IH by metis
qed

text \<open>The first block ends where the second one starts.\<close>

lemma coalesce_hangs:
  assumes ok: "va_ok s [b, c] (p # q # ps)" and i: "pool_initialized s"
    and m: "fb_va (free_pool s b) + fb_size (free_pool s b) = fb_va (free_pool s c)"
    and c0: "fb_va (free_pool s c) \<noteq> 0" "fb_va (free_pool s c) + fb_size (free_pool s c) \<noteq> 0"
    and z: "\<forall>a \<in> set (p # q # ps). range_of s a = (0, 0) \<and> pv s a = None"
  shows "coalesce_free_list s = None"
proof -
  note d = dll_two [OF ok]
  have ch: "chain (nx s) (free_pool_list s) (p # q # ps) None" and dis: "distinct ([b, c] @ p # q # ps)"
    using ok i by (auto simp: va_ok_def)
  define s1 where "s1 = unlink_block b (upd_block b (fb_size_update (\<lambda>z. z + fb_size (free_pool s c))) s)"
  define s2 where "s2 = unlink_block c s1"
  define s3 where "s3 = free_block c s2"
  have pb: "pv (upd_block b (fb_size_update (\<lambda>z. z + fb_size (free_pool s c))) s) b = None" using d by simp
  have s1: "nx s1 = nx s" "free_pool_list s1 = free_pool_list s" "\<And>a. a \<noteq> b \<Longrightarrow> range_of s1 a = range_of s a" "pv s1 c = None"
    "\<And>a. pv s a = None \<Longrightarrow> pv s1 a = None"
    using unlink_detached [OF pb] d by (auto simp: s1_def)
  have s2: "nx s2 = nx s" "free_pool_list s2 = free_pool_list s" "\<And>a. a \<noteq> b \<Longrightarrow> range_of s2 a = range_of s a" "pv s2 c = None"
    "\<And>a. pv s a = None \<Longrightarrow> pv s2 a = None"
    using unlink_detached [OF s1(4)] s1 by (auto simp: s2_def)
  have s3: "nx s3 = (nx s)(c := free_pool_list s)" "\<And>a. a \<noteq> b \<Longrightarrow> range_of s3 a = range_of s a" "pv s3 c = None"
    "\<And>a. pv s a = None \<Longrightarrow> pv s3 a = None" "free_pool_list s3 = Some c"
    using s2 fun_cong [OF s2(1)] by (auto simp: s3_def free_block_def fun_eq_iff)
  have bc: "nx s3 b = Some c" "nx s3 c = Some p" "nx s3 p = Some q" "nx s c = None"
    using d ch dis fun_cong [OF s3(1)] by auto
  have "coalesce_inner s b (Some c) False = coalesce_inner s3 b None True"
    using m bc(4) fun_cong [OF s2(1), of c] by (subst coalesce_inner.simps) (simp add: s1_def s2_def s3_def Let_def)
  then have one: "coalesce_inner s b (Some c) False = Some (s3, b, True)" by (simp add: coalesce_inner.simps)
  have ch3: "chain (nx s3) (Some p) (p # q # ps) None" using ch dis unfolding s3(1) by auto
  have z3: "range_of s3 a = (0, 0)" "pv s3 a = None" if "a \<in> set (p # q # ps)" for a
  proof -
    have "a \<noteq> b" using that dis by auto
    then show "range_of s3 a = (0, 0)" "pv s3 a = None" using bspec [OF z that] s3(2,4) [of a] by auto
  qed
  have "range_of s3 c = range_of s c" using s3(2) d by metis
  then have two: "coalesce_inner s3 c (Some p) True = Some (s3, c, True)"
    using c0 z3(1) by (intro coalesce_inner_quiet [OF ch3] ballI) (simp del: Product_Type.prod.inject add: touch_def)
  have nxS: "\<forall>a \<in> {c, p}. nx s3 a \<in> Some ` set (c # p # q # ps)" using bc by auto
  have zr: "zero_run (set (c # p # q # ps)) p s3 (q # ps)"
    using z3 dis s3(3,5) nxS unfolding zero_run_def by auto
  obtain s4 ch' where s4: "coalesce_inner s3 p (Some q) True = Some (s4, p, ch')" "trapped (set (c # p # q # ps)) s4"
    using zero_run_trapped [OF zr, of "Some q" True] ch3 bc(3) by auto
  obtain x where x: "nx s4 p = Some x" "x \<in> set (c # p # q # ps)" using trapped_next [OF s4(2), of p] by auto
  have "coalesce_inner s4 x (nx s4 x) ch' = None"
    using trapped_inner [OF s4(2) x(2)] trapped_next [OF s4(2) x(2)] by (metis imageI)
  then have "coalesce_scan s (free_list s) False = None"
    using one two s4(1) bc x(1) d by (simp add: coalesce_scan.simps)
  then show ?thesis using d by (simp add: coalesce_free_list_def coalesce_loop.simps)
qed

lemma stats_loop_sums:
  "chain (\<lambda>b. fb_next (h b)) p bs None \<Longrightarrow>
   stats_loop h p t n = Some (t + sum_list (map (\<lambda>b. fb_size (h b)) bs), n + int (length bs))"
  by (induction bs arbitrary: p t n) (simp_all add: stats_loop.simps ac_simps)

lemma merge_breaks:
  assumes "va_ok s [] ps" "3 < length ps" "\<forall>b \<in> set ps. free_pool s b = \<lparr>fb_va = 0, fb_size = 0, fb_next = nx s b, fb_prev = None\<rparr>"
    and "a \<noteq> 0" "a + n \<noteq> 0" "a + n + m \<noteq> 0" "a + n + m \<noteq> a"
  shows "\<exists>s1 s2. add_free_space a n s = Some s1 \<and> add_free_space (a + n) m s1 = Some s2 \<and> free_list s2 = None"
    "\<exists>s1. add_free_space (a + n) m s = Some s1 \<and> add_free_space a n s1 = None"
proof -
  obtain b c p q qs where ps: "ps = b # c # p # q # qs" using assms(2) by (auto simp: numeral_3_eq_3 less_eq_Suc_le Suc_le_length_iff)
  have z: "\<forall>x \<in> set ps. range_of s x = (0, 0) \<and> pv s x = None" using assms(3) by (metis free_block_t.simps(1,2,4))
  have d: "distinct ps" using assms(1) by (simp add: va_ok_def)
  have ok: "va_ok s [] (b # c # p # q # qs)" using assms(1) ps by simp
  have push: "\<exists>s1. add_free_space x k s = Some s1 \<and> va_ok s1 [b] (c # p # q # qs) \<and> ranges s1 [b] = [(x, k)] \<and>
      (\<forall>y \<in> set (c # p # q # qs). range_of s1 y = (0, 0) \<and> pv s1 y = None)" for x k
  proof (rule add_free_space_push [OF ok, of x k])
    fix s1
    assume h: "add_free_space x k s = coalesce_free_list s1" "va_ok s1 [b] (c # p # q # qs)" "ranges s1 [b] = (x, k) # ranges s []"
      "\<And>y. y \<noteq> b \<Longrightarrow> range_of s1 y = range_of s y" "\<And>y. y \<notin> set [b] \<Longrightarrow> pv s1 y = pv s y"
    have "coalesce_free_list s1 = Some s1"
      by (rule coalesce_quiet [of _ "[b]"]) (use h(2) in \<open>auto simp: va_ok_def ranges_def\<close>)
    moreover have "range_of s1 y = (0, 0) \<and> pv s1 y = None" if "y \<in> set (c # p # q # qs)" for y
    proof -
      have "y \<noteq> b" "y \<in> set ps" using that d ps by auto
      then show ?thesis using h(4,5) [of y] bspec [OF z, of y] by auto
    qed
    ultimately show ?thesis using h(1-3) by (metis (no_types, lifting) list.simps(8) ranges_def)
  qed
  obtain s1 where s1: "add_free_space a n s = Some s1" "va_ok s1 [b] (c # p # q # qs)" "ranges s1 [b] = [(a, n)]"
    using push by blast
  show "\<exists>s1 s2. add_free_space a n s = Some s1 \<and> add_free_space (a + n) m s1 = Some s2 \<and> free_list s2 = None"
  proof (rule add_free_space_push [OF s1(2), of "a + n" m])
    fix s2
    assume h: "add_free_space (a + n) m s1 = coalesce_free_list s2" "va_ok s2 [c, b] (p # q # qs)"
      "ranges s2 [c, b] = (a + n, m) # ranges s1 [b]"
    show ?thesis using coalesce_loses [OF h(2)] h(1,3) s1 assms(7) by (auto simp: ranges_def)
  qed
  obtain s1 where s1: "add_free_space (a + n) m s = Some s1" "va_ok s1 [b] (c # p # q # qs)" "ranges s1 [b] = [(a + n, m)]"
    "\<forall>y \<in> set (c # p # q # qs). range_of s1 y = (0, 0) \<and> pv s1 y = None"
    using push by blast
  show "\<exists>s1. add_free_space (a + n) m s = Some s1 \<and> add_free_space a n s1 = None"
  proof (rule add_free_space_push [OF s1(2), of a n])
    fix s2
    assume h: "add_free_space a n s1 = coalesce_free_list s2" "va_ok s2 [c, b] (p # q # qs)" "pool_initialized s2"
      "ranges s2 [c, b] = (a, n) # ranges s1 [b]" "\<And>y. y \<noteq> c \<Longrightarrow> range_of s2 y = range_of s1 y"
      "\<And>y. y \<notin> set [c, b] \<Longrightarrow> pv s2 y = pv s1 y"
    have "range_of s2 y = (0, 0) \<and> pv s2 y = None" if "y \<in> set (p # q # qs)" for y
    proof -
      have "y \<noteq> b" "y \<noteq> c" "y \<in> set (c # p # q # qs)" using that d ps by auto
      then show ?thesis using h(5,6) [of y] bspec [OF s1(4), of y] by auto
    qed
    then show ?thesis using coalesce_hangs [OF h(2,3)] h(1,4) s1 assms(5,6) by (auto simp: ranges_def)
  qed
qed

section \<open>Properties\<close>

text \<open>The state at start-up.\<close>

definition va_boot :: va_space where
  "va_boot = \<lparr>free_list = None, vmalloc_next = VMALLOC_START,
     free_pool = (\<lambda>_. \<lparr>fb_va = 0, fb_size = 0, fb_next = None, fb_prev = None\<rparr>),
     free_pool_list = None, pool_initialized = False\<rparr>"

lemma va_boot_ok: "va_ok va_boot [] (rev [0..<512])"
  by (simp add: va_ok_def va_boot_def)


lemma va_boot_parts: "va_parts [] (vmalloc_next va_boot)"
  by (simp add: va_parts_def va_boot_def VMALLOC_START_def VMALLOC_END_def)


text \<open>
  C17 \<open>add_free_space\<close> of a range that touches no free range, when these do not touch each other, puts it
  in front of the list and ends; with no block left in the pool of 512 the range is dropped and
  nothing changes. The range goes from the live to the free ones.
\<close>

theorem add_free_space_front:
  assumes "va_ok s bs ps" "sorted_wrt (\<lambda>r q. \<not> touch r q) ((va, sz) # ranges s bs)"
    "va_parts (ranges s bs @ (va, sz) # A) (vmalloc_next s)"
  shows "\<exists>s' bs' ps'. add_free_space va sz s = Some s' \<and> va_ok s' bs' ps' \<and> vmalloc_next s' = vmalloc_next s \<and>
    ranges s' bs' = (if ps = [] then ranges s bs else (va, sz) # ranges s bs) \<and>
    length ps' = length ps - 1 \<and> va_parts (ranges s' bs' @ A) (vmalloc_next s')"
proof (cases ps)
  case Nil
  then show ?thesis using assms(1,3) add_free_space_full [of s bs] by (auto simp: va_parts_def sorted_wrt_append)
next
  case (Cons b ps')
  obtain s' where s': "add_free_space va sz s = Some s'" "va_ok s' (b # bs) ps'"
    "ranges s' (b # bs) = (va, sz) # ranges s bs" "vmalloc_next s' = vmalloc_next s"
    using add_free_space_quiet [OF assms(1) [unfolded Cons] assms(2)] by metis
  have "va_parts (((va, sz) # ranges s bs) @ A) (vmalloc_next s)"
    using assms(3) by (auto simp: va_parts_def sorted_wrt_append intro: apart_sym)
  then show ?thesis using s' Cons by (metis diff_Suc_1 length_Cons list.distinct(1))
qed

theorem add_free_space_front_witness:
  "\<exists>s' bs' ps'. add_free_space VMALLOC_START 8192 (va_boot\<lparr>vmalloc_next := VMALLOC_START + 8192\<rparr>) = Some s' \<and>
     va_ok s' bs' ps' \<and> ranges s' bs' = [(VMALLOC_START, 8192)]"
proof -
  let ?s = "va_boot\<lparr>vmalloc_next := VMALLOC_START + 8192\<rparr>"
  have "va_ok ?s [] (rev [0..<512])" using va_boot_ok by (simp add: va_ok_def)
  moreover have "va_parts (ranges ?s [] @ [(VMALLOC_START, 8192)]) (vmalloc_next ?s)"
    by (simp add: va_parts_def ranges_def VMALLOC_START_def VMALLOC_END_def)
  ultimately show ?thesis
    using add_free_space_front [of ?s "[]" "rev [0..<512]" VMALLOC_START 8192 "[]"] by (fastforce simp: ranges_def [of ?s])
qed

text \<open>
  C18 Merging is wrong in both directions. Two neighbouring ranges that are returned in ascending order
  are both lost: the free list is empty afterwards. Returned in descending order the second call
  never ends (with the lock held): the scan runs from the merged block into the unused blocks of
  the pool, which all look like neighbours of each other, and ties them into cycles.
\<close>

theorem coalesce_breaks:
  assumes "va_ok s [] ps" "3 < length ps" "\<forall>b \<in> set ps. free_pool s b = \<lparr>fb_va = 0, fb_size = 0, fb_next = nx s b, fb_prev = None\<rparr>"
    and "a \<noteq> 0" "a + n \<noteq> 0" "a + n + m \<noteq> 0" "a + n + m \<noteq> a"
  shows "(\<exists>s1 s2. add_free_space a n s = Some s1 \<and> add_free_space (a + n) m s1 = Some s2 \<and> free_list s2 = None) \<and>
    (\<exists>s1. add_free_space (a + n) m s = Some s1 \<and> add_free_space a n s1 = None)"
  using merge_breaks [OF assms] by blast

theorem coalesce_breaks_witness:
  "\<exists>s1. add_free_space (VMALLOC_START + 12288) 12288 va_boot = Some s1 \<and> add_free_space VMALLOC_START 12288 s1 = None"
proof -
  have "\<forall>b \<in> set (rev [0..<512]). free_pool va_boot b = \<lparr>fb_va = 0, fb_size = 0, fb_next = nx va_boot b, fb_prev = None\<rparr>"
    by (simp add: va_boot_def)
  then show ?thesis using coalesce_breaks [OF va_boot_ok, of VMALLOC_START 12288 12288] by (simp add: VMALLOC_START_def)
qed

text \<open>
  \<open>vmalloc_stats\<close> ends and prints what lies below the bump pointer, the sum of the free sizes, and
  their number.
\<close>

theorem vmalloc_stats_counts:
  assumes "va_ok s bs ps"
  shows "vmalloc_stats s = Some ((vmalloc_next s - VMALLOC_START) div 1024, sum_list (map snd (ranges s bs)) div 1024,
    int (length bs))"
proof -
  have "chain (nx s) (free_list s) bs None" using assms by (auto simp: va_ok_def intro: dll_chain)
  then show ?thesis using stats_loop_sums [of "free_pool s" "free_list s" bs 0 0]
    by (simp add: vmalloc_stats_def ranges_def comp_def Let_def)
qed

theorem vmalloc_stats_counts_witness: "vmalloc_stats va_boot = Some (0, 0, 0)"
  using vmalloc_stats_counts [OF va_boot_ok] by (simp add: va_boot_def ranges_def)

text \<open>
  The check of the bump pointer wraps: a range of 1 TiB is handed out although the address space of
  \<open>vmalloc\<close> has 1 GiB, and the pointer ends below its start.
\<close>

lemma bump_pointer_wraps:
  "find_free_space 0x10000000000 va_boot =
     Some (VMALLOC_START, va_boot\<lparr>vmalloc_next := VMALLOC_START + 0x10000000000\<rparr>)"
  "VMALLOC_START + 0x10000000000 < VMALLOC_START"
  by (simp_all add: find_free_space_def va_boot_def VMALLOC_START_def VMALLOC_END_def)

end
