(* ===== verification/Vmalloc.thy ===== *)
theory Vmalloc
  imports Vmm Vmalloc_List
begin

text \<open>
  \<open>vmalloc\<close> and \<open>vfree\<close>, \<open>src/mm/vmalloc.c\<close> lines 184-269: a range of virtual addresses from the free list
  (\<open>Vmalloc_List\<close>), a physical page for each of its pages (\<open>Pmm\<close>) and an area for each of them (\<open>Vmm\<close>),
  with a guard page on both sides. Answers of \<open>vmm_map\<close> and \<open>vmm_unmap\<close> are not looked at, as in the code.
  A null pointer is the address 0; the loop counters run below \<open>pages\<close>, at most 2 ^ 52, and are \<open>nat\<close>.
\<close>

section \<open>Definitions\<close>

definition VMM_ATTR_R :: u32 where "VMM_ATTR_R = push_bit 0 1"
definition VMM_ATTR_NORMAL :: u32 where "VMM_ATTR_NORMAL = push_bit 4 1"

record kvm =
  kv_va :: va_space
  kv_vmm :: vmm_state

subsection \<open>The calls into the other parts\<close>

definition kv_pmm :: "kvm \<Rightarrow> pmm_state" where
  "kv_pmm s = mmu_pmm (vmm_mmu (kv_vmm s))"

definition kv_pmm_update :: "pmm_state \<Rightarrow> kvm \<Rightarrow> kvm" where
  "kv_pmm_update p s = s\<lparr>kv_vmm := (kv_vmm s)\<lparr>vmm_mmu := (vmm_mmu (kv_vmm s))\<lparr>mmu_pmm := p\<rparr>\<rparr>\<rparr>"

definition kv_alloc_page :: "kvm \<Rightarrow> (u64 \<times> kvm) option" where
  "kv_alloc_page s = do { (a, p) \<leftarrow> pmm_alloc_page (kv_pmm s); Some (a, kv_pmm_update p s) }"

definition kv_free_page :: "u64 \<Rightarrow> kvm \<Rightarrow> kvm option" where
  "kv_free_page a s = do { p \<leftarrow> pmm_free_page a (kv_pmm s); Some (kv_pmm_update p s) }"

definition kv_map :: "u64 \<Rightarrow> u64 \<Rightarrow> u64 \<Rightarrow> u32 \<Rightarrow> kvm \<Rightarrow> kvm option" where
  "kv_map va pa sz attrs s = do { (r, v) \<leftarrow> vmm_map va pa sz attrs (kv_vmm s); Some (s\<lparr>kv_vmm := v\<rparr>) }"

definition kv_unmap :: "u64 \<Rightarrow> u64 \<Rightarrow> kvm \<Rightarrow> kvm option" where
  "kv_unmap va sz s = do { (r, v) \<leftarrow> vmm_unmap va sz (kv_vmm s); Some (s\<lparr>kv_vmm := v\<rparr>) }"

definition kv_add_free :: "u64 \<Rightarrow> u64 \<Rightarrow> kvm \<Rightarrow> kvm option" where
  "kv_add_free va sz s = do { v \<leftarrow> add_free_space va sz (kv_va s); Some (s\<lparr>kv_va := v\<rparr>) }"

subsection \<open>vmalloc\<close>

text \<open>Lines 208-211 and 225-228: take back one data page. An address that is not stored would be undefined.\<close>

definition release_page :: "u64 \<Rightarrow> kvm \<Rightarrow> kvm option" where
  "release_page va s = do {
     (r, out) \<leftarrow> vmm_virt_to_phys va True (kv_vmm s);
     pa \<leftarrow> out;
     s \<leftarrow> kv_unmap va 4096 s;
     kv_free_page pa s }"

text \<open>Lines 207-215 and 224-232: undo everything after a page could not be had.\<close>

definition vmalloc_undo :: "u64 \<Rightarrow> u64 \<Rightarrow> u64 \<Rightarrow> u64 \<Rightarrow> nat \<Rightarrow> kvm \<Rightarrow> kvm option" where
  "vmalloc_undo base_va total_size guard1 data_va n s = do {
     s \<leftarrow> for_upto 0 n (\<lambda>j s. release_page (data_va + of_nat j * 4096) s) s;
     s \<leftarrow> kv_unmap base_va GUARD_SIZE s;
     s \<leftarrow> kv_free_page guard1 s;
     kv_add_free base_va total_size s }"

text \<open>One round of the loop of lines 204-220; \<open>Inl\<close> is \<open>return NULL\<close>.\<close>

definition vmalloc_page :: "u64 \<Rightarrow> u64 \<Rightarrow> u64 \<Rightarrow> u64 \<Rightarrow> nat \<Rightarrow> kvm \<Rightarrow> (u64 \<times> kvm + kvm) option" where
  "vmalloc_page base_va total_size guard1 data_va i s = do {
     (page, s) \<leftarrow> kv_alloc_page s;
     if page = 0 then do {
       s \<leftarrow> vmalloc_undo base_va total_size guard1 data_va i s;
       Some (Inl (0, s))
     } else do {
       s \<leftarrow> kv_map (data_va + of_nat i * 4096) page 4096
         (VMM_ATTR_R OR VMM_ATTR_W OR VMM_ATTR_NORMAL OR VMM_ATTR_PXN) s;
       Some (Inr s) } }"

definition vmalloc :: "u64 \<Rightarrow> kvm \<Rightarrow> (u64 \<times> kvm) option" where
  "vmalloc sz s =
     (if sz = 0 then Some (0, s)
      else do {
        let pages = (sz + 4095) div 4096;
        let data_size = pages * 4096;
        let total_size = data_size + 2 * GUARD_SIZE;
        (base_va, v) \<leftarrow> find_free_space total_size (kv_va s);
        let s = s\<lparr>kv_va := v\<rparr>;
        if base_va = 0 then Some (0, s)
        else do {
          (guard1, s) \<leftarrow> kv_alloc_page s;
          if guard1 = 0 then do {
            s \<leftarrow> kv_add_free base_va total_size s;
            Some (0, s)
          } else do {
            s \<leftarrow> kv_map base_va guard1 GUARD_SIZE VMM_ATTR_PXN s;
            let data_va = base_va + GUARD_SIZE;
            r \<leftarrow> for_ret 0 (unat pages) (vmalloc_page base_va total_size guard1 data_va) s;
            case r of Inl res \<Rightarrow> Some res
            | Inr s \<Rightarrow> do {
                (guard2, s) \<leftarrow> kv_alloc_page s;
                if guard2 = 0 then do {
                  s \<leftarrow> vmalloc_undo base_va total_size guard1 data_va (unat pages) s;
                  Some (0, s)
                } else do {
                  s \<leftarrow> kv_map (data_va + data_size) guard2 GUARD_SIZE VMM_ATTR_PXN s;
                  Some (data_va, s) } } } } })"

subsection \<open>vfree\<close>

text \<open>Lines 251-255, 259-262 and 263-266: take back one page when the translation answers 0.\<close>

definition vfree_page :: "u64 \<Rightarrow> u64 \<Rightarrow> kvm \<Rightarrow> kvm option" where
  "vfree_page va sz s = do {
     (r, out) \<leftarrow> vmm_virt_to_phys va True (kv_vmm s);
     if r = 0 then do {
       pa \<leftarrow> out;
       s \<leftarrow> kv_unmap va sz s;
       kv_free_page pa s
     } else Some s }"

definition vfree :: "u64 \<Rightarrow> u64 \<Rightarrow> kvm \<Rightarrow> kvm option" where
  "vfree addr sz s =
     (if addr = 0 \<or> sz = 0 then Some s
      else do {
        let pages = (sz + 4095) div 4096;
        let data_size = pages * 4096;
        let data_va = addr;
        let base_va = data_va - GUARD_SIZE;
        let total_size = data_size + 2 * GUARD_SIZE;
        s \<leftarrow> for_upto 0 (unat pages) (\<lambda>i s. vfree_page (data_va + of_nat i * 4096) 4096 s) s;
        s \<leftarrow> vfree_page base_va GUARD_SIZE s;
        s \<leftarrow> vfree_page (data_va + data_size) GUARD_SIZE s;
        kv_add_free base_va total_size s })"

section \<open>One page\<close>

abbreviation kv_pgd :: "kvm \<Rightarrow> u64" where
  "kv_pgd s \<equiv> ttbr1_el1 (vmm_mmu (kv_vmm s))"

abbreviation kv_live :: "kvm \<Rightarrow> u64 set" where
  "kv_live s \<equiv> pmm_live (kv_pmm s)"

abbreviation kv_free :: "kvm \<Rightarrow> nat" where
  "kv_free s \<equiv> pmm_pages_free (kv_pmm s)"

abbreviation kv_tables :: "kvm \<Rightarrow> u64 set" where
  "kv_tables s \<equiv> tables (mmu_mem (vmm_mmu (kv_vmm s))) (kv_pgd s)"

text \<open>The areas are \<open>as\<close>, the kernel page table is set and well formed, and so is the page allocator.\<close>

definition kv_inv :: "kvm \<Rightarrow> area list \<Rightarrow> bool" where
  "kv_inv s as \<longleftrightarrow> vmm_areas (kv_vmm s) as \<and> kv_pgd s \<noteq> 0 \<and> mmu_inv (kv_pgd s) (vmm_mmu (kv_vmm s))"

definition page_area :: "u64 \<times> u64 \<times> u32 \<Rightarrow> area" where
  "page_area = (\<lambda>(v, p, at). \<lparr>a_va = v, a_pa = p, a_size = 4096, a_attrs = at\<rparr>)"

lemma kv_inv_D:
  assumes "kv_inv s as"
  shows "vmm_areas (kv_vmm s) as" "ttbr1_ok (vmm_mmu (kv_vmm s))" "pmm_inv (kv_pmm s) \<and> pmm_nonnull (kv_pmm s)"
    "kv_tables s \<subseteq> kv_live s" "areas_ok as"
  using assms by (auto simp: kv_inv_def ttbr1_ok_def mmu_inv_def kv_pmm_def tables_def dest: pt_wf_D(1) simp: vmm_areas_def vma_inv_def)

lemma kv_pmm_update_simps [simp]:
  "kv_va (kv_pmm_update p s) = kv_va s" "kv_pgd (kv_pmm_update p s) = kv_pgd s" "kv_pmm (kv_pmm_update p s) = p"
  "kv_tables (kv_pmm_update p s) = kv_tables s" "kv_pmm_update (kv_pmm s) s = s"
  "vmas (kv_vmm (kv_pmm_update p s)) = vmas (kv_vmm s)" "mmu_mem (vmm_mmu (kv_vmm (kv_pmm_update p s))) = mmu_mem (vmm_mmu (kv_vmm s))"
  by (simp_all add: kv_pmm_update_def kv_pmm_def)

lemma kv_inv_pmm:
  assumes "kv_inv s as" "pmm_inv p \<and> pmm_nonnull p" "kv_tables s \<subseteq> pmm_live p"
  shows "kv_inv (kv_pmm_update p s) as"
proof -
  have "pt_wf (kv_live s) (mmu_mem (vmm_mmu (kv_vmm s))) (kv_pgd s)" using assms(1) by (simp add: kv_inv_def mmu_inv_def kv_pmm_def)
  then have "pt_wf (pmm_live p) (mmu_mem (vmm_mmu (kv_vmm s))) (kv_pgd s)"
    using assms(3) by (auto simp: pt_wf_def tables_def)
  then show ?thesis using assms(1,2) by (auto simp: kv_inv_def mmu_inv_def vmm_areas_def kv_pmm_update_def)
qed

lemma kv_alloc_page_ok:
  assumes inv: "kv_inv s as"
  obtains a s' where "kv_alloc_page s = Some (a, s')" "kv_inv s' as" "kv_va s' = kv_va s" "kv_pgd s' = kv_pgd s"
    "kv_tables s' = kv_tables s"
    "a = 0 \<and> s' = s \<and> kv_free s = 0 \<or> a \<noteq> 0 \<and> page_aligned a \<and> a \<notin> kv_live s \<and> kv_live s' = insert a (kv_live s)"
    "kv_free s \<le> Suc (kv_free s')"
proof -
  obtain a p where p: "pmm_alloc_page (kv_pmm s) = Some (a, p)" "pmm_inv p \<and> pmm_nonnull p"
    "a = 0 \<and> p = kv_pmm s \<or> a \<noteq> 0 \<and> page_aligned a \<and> a \<notin> kv_live s \<and> pmm_live p = insert a (kv_live s)"
    using pages.alloc [OF kv_inv_D(3) [OF inv]] by blast
  note c = pmm_alloc_page_count(1,3) [OF _ _ p(1)]
  have "kv_inv (kv_pmm_update p s) as" by (rule kv_inv_pmm [OF inv p(2)]) (use p(3) kv_inv_D(4) [OF inv] in auto)
  then show thesis using that [of a "kv_pmm_update p s"] p c kv_inv_D(3) [OF inv] by (auto simp: kv_alloc_page_def)
qed

lemma kv_free_page_ok:
  assumes inv: "kv_inv s as" and a: "a \<in> kv_live s" "a \<noteq> 0" "a \<notin> kv_tables s"
  obtains s' where "kv_free_page a s = Some s'" "kv_inv s' as" "kv_va s' = kv_va s" "kv_pgd s' = kv_pgd s"
    "kv_tables s' = kv_tables s" "kv_live s' = kv_live s - {a}"
proof -
  obtain p where p: "pmm_free_page a (kv_pmm s) = Some p" "pmm_inv p \<and> pmm_nonnull p" "pmm_live p = kv_live s - {a}"
    using pages.free [OF kv_inv_D(3) [OF inv] a(1,2)] by blast
  have "kv_inv (kv_pmm_update p s) as" by (rule kv_inv_pmm [OF inv p(2)]) (use p(3) kv_inv_D(4) [OF inv] a(3) in auto)
  then show thesis using that [of "kv_pmm_update p s"] p by (auto simp: kv_free_page_def)
qed

declare grows_emit [simp]

text \<open>The page loops of \<open>vmm_map\<close> and \<open>vmm_unmap\<close> leave other pages alone.\<close>

lemma vmm_unmap_pages_grows:
  assumes ok: "ttbr1_ok m" "ttbr1_el1 m \<noteq> 0" and al: "page_aligned va" "page_aligned sz" "unat va + unat sz < 2 ^ 64"
    and r: "vmm_unmap_pages va sz m = Some m'"
  shows "grows (ttbr1_el1 m) m m'"
proof -
  have inv: "mmu_inv (ttbr1_el1 m) m" using ok by (simp add: ttbr1_ok_def)
  from unmap_loop [OF inv, of "unat sz div 4096" va] obtain m1 where
    m1: "for_upto 0 (unat sz div 4096) (\<lambda>i m'. Some (snd (mmu_unmap_page (ttbr1_el1 m) (va + of_nat i * 4096) m'))) m = Some m1"
      "grows (ttbr1_el1 m) m m1" by blast
  then show ?thesis using r ok(2) tlb_flush_range_spec [OF al, of m1]
    by (auto simp: vmm_unmap_pages_def mmu_get_ttbr1_def vmm_loop [OF al(2) refl])
qed

lemma kv_grows:
  assumes "grows (kv_pgd s) (vmm_mmu (kv_vmm s)) (vmm_mmu v)" "ttbr1_ok (vmm_mmu v)" "vmm_areas v as" "kv_pgd s \<noteq> 0"
  shows "kv_inv (s\<lparr>kv_vmm := v\<rparr>) as" "kv_pgd (s\<lparr>kv_vmm := v\<rparr>) = kv_pgd s" "kv_live s \<subseteq> kv_live (s\<lparr>kv_vmm := v\<rparr>)"
    "kv_tables (s\<lparr>kv_vmm := v\<rparr>) \<subseteq> kv_tables s \<union> - kv_live s" "kv_tables s \<subseteq> kv_tables (s\<lparr>kv_vmm := v\<rparr>)"
    "kv_live (s\<lparr>kv_vmm := v\<rparr>) \<subseteq> kv_live s \<union> kv_tables (s\<lparr>kv_vmm := v\<rparr>)"
proof -
  show p: "kv_pgd (s\<lparr>kv_vmm := v\<rparr>) = kv_pgd s" using grows_ttbr1 [OF assms(1)] by simp
  show "kv_inv (s\<lparr>kv_vmm := v\<rparr>) as" using assms p by (auto simp: kv_inv_def ttbr1_ok_def)
  show "kv_live s \<subseteq> kv_live (s\<lparr>kv_vmm := v\<rparr>)" "kv_tables (s\<lparr>kv_vmm := v\<rparr>) \<subseteq> kv_tables s \<union> - kv_live s"
    "kv_tables s \<subseteq> kv_tables (s\<lparr>kv_vmm := v\<rparr>)" "kv_live (s\<lparr>kv_vmm := v\<rparr>) \<subseteq> kv_live s \<union> kv_tables (s\<lparr>kv_vmm := v\<rparr>)"
    using assms(1) unfolding p by (simp_all add: grows_def kv_pmm_def)
qed

lemma areas_distinct: "areas_ok as \<Longrightarrow> distinct as"
proof (induction as)
  case (Cons a as)
  have "0 < unat (a_size a)" using Cons.prems by (simp add: areas_ok_def unat_gt_0)
  then show ?case using Cons by (auto simp: areas_ok_def a_end_def)
qed simp

lemma areas_distinct_va:
  assumes "areas_ok as" "a \<in> set as" "b \<in> set as" "a_va a = a_va b"
  shows "a = b"
proof -
  have "sorted_wrt (\<lambda>a b. a_end a \<le> unat (a_va b)) as" "0 < unat (a_size a)" "0 < unat (a_size b)"
    using assms by (auto simp: areas_ok_def unat_gt_0)
  then show ?thesis using assms(2-4) by (induction as) (auto simp: a_end_def)
qed

lemma kv_map_ok:
  assumes inv: "kv_inv s as" and al: "page_aligned v" "page_aligned p" "unat v + 4096 < 2 ^ 64"
    and free: "\<forall>a \<in> set as. \<not> a_meets v 4096 a" and room: "length as < VMA_POOL_CAP"
  obtains s' as' where "kv_map v p 4096 at s = Some s'" "kv_inv s' as'" "set as' = insert (page_area (v, p, at)) (set as)"
    "kv_va s' = kv_va s" "kv_pgd s' = kv_pgd s" "kv_live s \<subseteq> kv_live s'" "kv_tables s' \<subseteq> kv_tables s \<union> - kv_live s"
    "kv_tables s \<subseteq> kv_tables s'" "kv_live s' \<subseteq> kv_live s \<union> kv_tables s'" "kv_free s \<le> kv_free s' + 3"
proof -
  note d = kv_inv_D [OF inv]
  have z: "unat v + unat (4096 :: u64) < 2 ^ 64" "unat (4096 :: u64) \<le> 2 ^ 48" "page_aligned (4096 :: u64)" using al by simp_all
  obtain r m as' where r: "vmm_map v p 4096 at (kv_vmm s) = Some (r, m)" "spec_map v p 4096 at as = (r, as')"
    "vmm_areas m as'" "ttbr1_ok (vmm_mmu m)" "if r = 0 then vmm_map_pages v p 4096 at (vmm_mmu (kv_vmm s)) = Some (vmm_mmu m) else m = kv_vmm s"
    using vmm_map_refines [OF d(1,2) room z(1,2), of p at] by blast
  have r0: "r = 0" "as' = filter (\<lambda>a. a_va a < v) as @ page_area (v, p, at) # filter (\<lambda>a. v < a_va a) as"
    using r(2) al z(3) free room by (auto simp: spec_map_def page_area_def split: if_splits)
  have "a_va a < v \<or> v < a_va a" if "a \<in> set as" for a
    using areas_fit(3) [OF d(5) _ _ that, of v 4096] free by auto
  then have set: "set as' = insert (page_area (v, p, at)) (set as)" by (auto simp: r0(2))
  obtain m1 ops where "run_tried (kv_pgd s) v p (vmm_pte_attrs at) (vmm_mmu (kv_vmm s)) (unat (4096 :: u64) div 4096) m1"
    "vmm_mmu m = emit ops m1"
    using vmm_map_pages_spec [OF d(2) al(1) z(3,1,2), of p at] r(5) r0(1) inv by (auto simp: kv_inv_def)
  then have t: "grows (kv_pgd s) (vmm_mmu (kv_vmm s)) (vmm_mmu m)" "kv_free s \<le> kv_free (s\<lparr>kv_vmm := m\<rparr>) + 3"
    by (simp_all add: run_tried_def kv_pmm_def)
  note g = kv_grows [OF t(1) r(4,3)]
  show thesis by (rule that [of "s\<lparr>kv_vmm := m\<rparr>" as']) (use g t(2) r(1) set inv in \<open>auto simp: kv_map_def kv_inv_def\<close>)
qed

lemma kv_unmap_ok:
  assumes inv: "kv_inv s as" and a: "page_area (v, p, at) \<in> set as" "page_aligned v"
  obtains s' as' where "kv_unmap v 4096 s = Some s'" "kv_inv s' as'" "set as' = set as - {page_area (v, p, at)}"
    "kv_va s' = kv_va s" "kv_pgd s' = kv_pgd s" "kv_live s \<subseteq> kv_live s'" "kv_tables s' \<subseteq> kv_tables s \<union> - kv_live s"
    "kv_tables s \<subseteq> kv_tables s'" "kv_live s' \<subseteq> kv_live s \<union> kv_tables s'"
    "vmm_virt_to_phys v True (kv_vmm s) = Some (0, Some p)"
proof -
  note d = kv_inv_D [OF inv]
  have sel: "a_va (page_area (v, p, at)) = v" "a_size (page_area (v, p, at)) = 4096" "a_pa (page_area (v, p, at)) = p" by (simp_all add: page_area_def)
  obtain r m as' where r: "vmm_unmap v 4096 (kv_vmm s) = Some (r, m)" "spec_unmap v 4096 as = (r, as')"
    "vmm_areas m as'" "ttbr1_ok (vmm_mmu m)" "if r = 0 then vmm_unmap_pages v 4096 (vmm_mmu (kv_vmm s)) = Some (vmm_mmu m) else m = kv_vmm s"
    using vmm_unmap_refines [OF d(1,2), of v 4096] by blast
  have z: "page_aligned (4096 :: u64)" by simp
  have r0: "r = 0" "as' = filter (\<lambda>a. a_va a \<noteq> v) as" using r(2) a z sel by (auto simp: spec_unmap_def split: if_splits)
  have set: "set as' = set as - {page_area (v, p, at)}"
    using areas_distinct_va [OF d(5) _ a(1)] sel by (auto simp: r0(2))
  have end_ok: "unat v + unat (4096 :: u64) < 2 ^ 64" using d(5) a(1) by (auto simp: areas_ok_def a_end_def page_area_def)
  have "grows (kv_pgd s) (vmm_mmu (kv_vmm s)) (vmm_mmu m)"
    by (rule vmm_unmap_pages_grows [OF d(2) _ a(2) z end_ok]) (use inv r(5) r0(1) in \<open>auto simp: kv_inv_def\<close>)
  note g = kv_grows [OF this r(4,3)]
  obtain xs ys where as: "as = xs @ page_area (v, p, at) # ys" using a(1) by (meson split_list)
  have "spec_translate v as = p" using spec_translate_new [of xs "page_area (v, p, at)" ys 0] d(5) sel by (simp add: as)
  then have "vmm_virt_to_phys v True (kv_vmm s) = Some (0, Some p)" using vmm_translate_refines [OF d(1)] by simp
  then show thesis by (intro that [of "s\<lparr>kv_vmm := m\<rparr>" as']) (use g r(1) set inv in \<open>auto simp: kv_unmap_def kv_inv_def\<close>)
qed

section \<open>Several pages\<close>

text \<open>
  From \<open>s0\<close>, whose areas are \<open>as0\<close>, to \<open>s\<close> exactly the pages \<open>M\<close> (virtual, physical, attributes) have been
  added: the physical ones were free, are in use, and none of them is a page table; every other page
  that is in use now was in use or is a page table.
\<close>

definition kv_extends :: "kvm \<Rightarrow> area list \<Rightarrow> kvm \<Rightarrow> (u64 \<times> u64 \<times> u32) set \<Rightarrow> bool" where
  "kv_extends s0 as0 s M \<longleftrightarrow> (\<exists>as. kv_inv s as \<and> set as = set as0 \<union> page_area ` M) \<and>
     kv_pgd s = kv_pgd s0 \<and> kv_va s = kv_va s0 \<and> kv_live s0 \<subseteq> kv_live s \<and> kv_tables s \<subseteq> kv_tables s0 \<union> - kv_live s0 \<and>
     kv_tables s0 \<subseteq> kv_tables s \<and> kv_live s \<subseteq> kv_live s0 \<union> fst ` snd ` M \<union> kv_tables s \<and> finite M \<and> inj_on fst M \<and> inj_on (\<lambda>m. fst (snd m)) M \<and>
     (\<forall>(v, p, at) \<in> M. page_aligned v \<and> p \<noteq> 0 \<and> p \<notin> kv_live s0 \<and> p \<in> kv_live s \<and> p \<notin> kv_tables s \<and>
        page_area (v, p, at) \<notin> set as0)"

lemma page_area_inj [simp]: "page_area m = page_area m' \<longleftrightarrow> m = m'"
  by (cases m; cases m') (simp add: page_area_def)

lemma page_area_apart:
  assumes "page_aligned v" "page_aligned w" "v \<noteq> w"
  shows "\<not> a_meets v 4096 (page_area (w, p, at))"
proof -
  obtain i j where "unat v = 4096 * i" "unat w = 4096 * j" using assms by (auto simp: page_aligned_unat mod_eq_0_iff_dvd elim!: dvdE)
  moreover have "i \<noteq> j" using assms(3) calculation by (metis unsigned_word_eqI)
  ultimately show ?thesis by (auto simp: a_meets_def a_end_def page_area_def)
qed

lemma kv_extends_refl: "kv_inv s as \<Longrightarrow> kv_extends s as s {}"
  by (auto simp: kv_extends_def)

lemma kv_extends_add:
  assumes e: "kv_extends s0 as0 s M" and v: "page_aligned v" "unat v + 4096 < 2 ^ 64" "\<forall>a \<in> set as0. \<not> a_meets v 4096 a"
    and M: "v \<notin> fst ` M" "length as0 + card M < VMA_POOL_CAP"
  obtains a s1 where "kv_alloc_page s = Some (a, s1)"
    "a = 0 \<and> s1 = s \<and> kv_free s = 0 \<or> a \<noteq> 0 \<and> (\<exists>s2. kv_map v a 4096 at s1 = Some s2 \<and>
       kv_extends s0 as0 s2 (insert (v, a, at) M) \<and> kv_free s \<le> kv_free s2 + 4)"
proof -
  obtain as where as: "kv_inv s as" "set as = set as0 \<union> page_area ` M" using e by (auto simp: kv_extends_def)
  have MM: "page_aligned w \<and> p \<noteq> 0 \<and> p \<notin> kv_live s0 \<and> p \<in> kv_live s \<and> p \<notin> kv_tables s \<and> page_area (w, p, t) \<notin> set as0"
    if "(w, p, t) \<in> M" for w p t using e that by (auto simp: kv_extends_def)
  obtain a s1 where s1: "kv_alloc_page s = Some (a, s1)" "kv_inv s1 as" "kv_va s1 = kv_va s" "kv_pgd s1 = kv_pgd s" "kv_tables s1 = kv_tables s"
    and a: "a = 0 \<and> s1 = s \<and> kv_free s = 0 \<or> a \<noteq> 0 \<and> page_aligned a \<and> a \<notin> kv_live s \<and> kv_live s1 = insert a (kv_live s)"
      "kv_free s \<le> Suc (kv_free s1)"
    by (rule kv_alloc_page_ok [OF as(1)])
  show thesis
  proof (cases "a = 0")
    case True
    then show thesis using that [OF s1(1)] a by blast
  next
    case False
    have a: "page_aligned a" "a \<notin> kv_live s" "kv_live s1 = insert a (kv_live s)" "kv_free s \<le> Suc (kv_free s1)" using a False by auto
    have free: "\<forall>x \<in> set as. \<not> a_meets v 4096 x"
      using v M(1) MM page_area_apart [OF v(1)] unfolding as(2) by (force simp: image_iff)
    have "length as = card (set as)" using distinct_card [OF areas_distinct [OF kv_inv_D(5) [OF as(1)]]] by simp
    also have "\<dots> \<le> length as0 + card M"
      using card_Un_le [of "set as0" "page_area ` M"] card_length [of as0] card_image_le [of M page_area] e
      unfolding as(2) by (auto simp: kv_extends_def)
    finally have room: "length as < VMA_POOL_CAP" using M(2) by simp
    obtain s2 as2 where s2: "kv_map v a 4096 at s1 = Some s2" "kv_inv s2 as2" "set as2 = insert (page_area (v, a, at)) (set as)"
      "kv_va s2 = kv_va s1" "kv_pgd s2 = kv_pgd s1" "kv_live s1 \<subseteq> kv_live s2" "kv_tables s2 \<subseteq> kv_tables s1 \<union> - kv_live s1"
        "kv_tables s1 \<subseteq> kv_tables s2" "kv_live s2 \<subseteq> kv_live s1 \<union> kv_tables s2" "kv_free s1 \<le> kv_free s2 + 3"
      by (rule kv_map_ok [OF s1(2) v(1) a(1) v(2) free room])
    have new: "page_area (v, a, at) \<notin> set as0" using v(3) by (auto simp: a_meets_def a_end_def page_area_def)
    have sub: "kv_live s0 \<subseteq> kv_live s" "kv_tables s \<subseteq> kv_tables s0 \<union> - kv_live s0" "kv_pgd s = kv_pgd s0" "kv_va s = kv_va s0"
      "finite M" "inj_on fst M" "inj_on (\<lambda>m. fst (snd m)) M" "kv_tables s0 \<subseteq> kv_tables s"
      "kv_live s \<subseteq> kv_live s0 \<union> fst ` snd ` M \<union> kv_tables s"
      using e by (auto simp: kv_extends_def)
    have "a \<notin> fst ` snd ` M" using MM a(2) by force
    then have inj: "inj_on fst (insert (v, a, at) M)" "inj_on (\<lambda>m. fst (snd m)) (insert (v, a, at) M)"
      using sub(6,7) M(1) by (auto simp: inj_on_insert image_iff)
    have old: "page_aligned w \<and> p \<noteq> 0 \<and> p \<notin> kv_live s0 \<and> p \<in> kv_live s2 \<and> p \<notin> kv_tables s2 \<and> page_area (w, p, t) \<notin> set as0"
      if "(w, p, t) \<in> M" for w p t using MM [OF that] s2(6,7) s1(5) a(3) by auto
    have fresh: "page_aligned v \<and> a \<noteq> 0 \<and> a \<notin> kv_live s0 \<and> a \<in> kv_live s2 \<and> a \<notin> kv_tables s2"
      using v(1) False a s2(6,7) s1(5) sub(1) kv_inv_D(4) [OF as(1)] by auto
    have "kv_extends s0 as0 s2 (insert (v, a, at) M)" unfolding kv_extends_def
    proof (intro conjI)
      show "\<exists>as. kv_inv s2 as \<and> set as = set as0 \<union> page_area ` insert (v, a, at) M" using s2(2,3) as(2) by auto
      show "\<forall>(w, p, t) \<in> insert (v, a, at) M. page_aligned w \<and> p \<noteq> 0 \<and> p \<notin> kv_live s0 \<and> p \<in> kv_live s2 \<and> p \<notin> kv_tables s2 \<and>
        page_area (w, p, t) \<notin> set as0" using old fresh new by auto
      show "kv_live s2 \<subseteq> kv_live s0 \<union> fst ` snd ` insert (v, a, at) M \<union> kv_tables s2"
        using s2(8,9) s1(5) a(3) sub(9) by (simp only: image_insert fst_conv snd_conv) blast
      show "kv_live s0 \<subseteq> kv_live s2" "kv_tables s2 \<subseteq> kv_tables s0 \<union> - kv_live s0" "kv_tables s0 \<subseteq> kv_tables s2"
        using sub(1,2,8) s2(6-8) s1(5) a(3) by blast+
    qed (use sub(3-5) s2(4,5) s1(3,4) inj in simp_all)
    moreover have "kv_free s \<le> kv_free s2 + 4" using a(4) s2(10) by simp
    ultimately show thesis using that [OF s1(1)] s2(1) False by blast
  qed
qed

lemma account_sets:
  "A \<subseteq> B \<union> C \<union> D \<Longrightarrow> C \<subseteq> insert p C' \<Longrightarrow> A - {p} \<subseteq> B \<union> C' \<union> D"
  "A \<subseteq> B \<Longrightarrow> B \<subseteq> C \<Longrightarrow> p \<notin> A \<Longrightarrow> A \<subseteq> C - {p}"
  "U \<subseteq> T \<union> - B \<Longrightarrow> T \<subseteq> V \<union> - A \<Longrightarrow> A \<subseteq> B \<Longrightarrow> U \<subseteq> V \<union> - A"
  by blast+

lemma kv_extends_remove:
  assumes e: "kv_extends s0 as0 s M" and m: "(v, p, at) \<in> M"
  obtains s1 s2 where "kv_unmap v 4096 s = Some s1" "kv_free_page p s1 = Some s2" "kv_extends s0 as0 s2 (M - {(v, p, at)})"
    "p \<notin> kv_live s2" "vmm_virt_to_phys v True (kv_vmm s) = Some (0, Some p)"
proof -
  obtain as where as: "kv_inv s as" "set as = set as0 \<union> page_area ` M" using e by (auto simp: kv_extends_def)
  have MM: "page_aligned w \<and> q \<noteq> 0 \<and> q \<notin> kv_live s0 \<and> q \<in> kv_live s \<and> q \<notin> kv_tables s \<and> page_area (w, q, t) \<notin> set as0"
    if "(w, q, t) \<in> M" for w q t using e that by (auto simp: kv_extends_def)
  have pm: "page_area (v, p, at) \<in> set as" "page_aligned v" using m MM [OF m] by (auto simp: as(2))
  obtain s1 as1 where s1: "kv_unmap v 4096 s = Some s1" "kv_inv s1 as1" "set as1 = set as - {page_area (v, p, at)}"
    "kv_va s1 = kv_va s" "kv_pgd s1 = kv_pgd s" "kv_live s \<subseteq> kv_live s1" "kv_tables s1 \<subseteq> kv_tables s \<union> - kv_live s"
    "kv_tables s \<subseteq> kv_tables s1" "kv_live s1 \<subseteq> kv_live s \<union> kv_tables s1" "vmm_virt_to_phys v True (kv_vmm s) = Some (0, Some p)"
    by (rule kv_unmap_ok [OF as(1) pm])
  have p: "p \<in> kv_live s1" "p \<noteq> 0" "p \<notin> kv_tables s1" using MM [OF m] s1(6,7) by auto
  obtain s2 where s2: "kv_free_page p s1 = Some s2" "kv_inv s2 as1" "kv_va s2 = kv_va s1" "kv_pgd s2 = kv_pgd s1"
    "kv_tables s2 = kv_tables s1" "kv_live s2 = kv_live s1 - {p}"
    by (rule kv_free_page_ok [OF s1(2) p])
  have sub: "kv_live s0 \<subseteq> kv_live s" "kv_tables s \<subseteq> kv_tables s0 \<union> - kv_live s0" "kv_pgd s = kv_pgd s0" "kv_va s = kv_va s0"
    "finite M" "inj_on fst M" "inj_on (\<lambda>m. fst (snd m)) M" "kv_tables s0 \<subseteq> kv_tables s"
    "kv_live s \<subseteq> kv_live s0 \<union> fst ` snd ` M \<union> kv_tables s"
    using e by (auto simp: kv_extends_def)
  have old: "page_aligned w \<and> q \<noteq> 0 \<and> q \<notin> kv_live s0 \<and> q \<in> kv_live s2 \<and> q \<notin> kv_tables s2 \<and> page_area (w, q, t) \<notin> set as0"
    if "(w, q, t) \<in> M - {(v, p, at)}" for w q t
  proof -
    have "q \<noteq> p" using inj_onD [OF sub(7), of "(w, q, t)" "(v, p, at)"] that m by auto
    moreover have "(w, q, t) \<in> M" using that by blast
    note MM [OF this]
    ultimately show ?thesis using s1(6,7) unfolding s2(5,6) by blast
  qed
  have "kv_extends s0 as0 s2 (M - {(v, p, at)})" unfolding kv_extends_def
  proof (intro conjI)
    have "page_area (v, p, at) \<notin> set as0" using MM [OF m] by blast
    then have "set as1 = set as0 \<union> page_area ` (M - {(v, p, at)})" unfolding s1(3) as(2) by auto
    then show "\<exists>as. kv_inv s2 as \<and> set as = set as0 \<union> page_area ` (M - {(v, p, at)})" using s2(2) by blast
    show "\<forall>(w, q, t) \<in> M - {(v, p, at)}. page_aligned w \<and> q \<noteq> 0 \<and> q \<notin> kv_live s0 \<and> q \<in> kv_live s2 \<and> q \<notin> kv_tables s2 \<and>
        page_area (w, q, t) \<notin> set as0" using old by blast
    have "M \<subseteq> insert (v, p, at) (M - {(v, p, at)})" by blast
    then have "fst ` snd ` M \<subseteq> fst ` snd ` insert (v, p, at) (M - {(v, p, at)})" by (intro image_mono)
    then have F: "fst ` snd ` M \<subseteq> insert p (fst ` snd ` (M - {(v, p, at)}))" unfolding image_insert fst_conv snd_conv .
    have "kv_live s1 \<subseteq> kv_live s0 \<union> fst ` snd ` M \<union> kv_tables s1" using s1(8,9) sub(9) by blast
    then show "kv_live s2 \<subseteq> kv_live s0 \<union> fst ` snd ` (M - {(v, p, at)}) \<union> kv_tables s2"
      unfolding s2(5,6) by (rule account_sets(1) [OF _ F])
    have p0: "p \<notin> kv_live s0" using MM [OF m] by blast
    show "kv_live s0 \<subseteq> kv_live s2" "kv_tables s2 \<subseteq> kv_tables s0 \<union> - kv_live s0" "kv_tables s0 \<subseteq> kv_tables s2"
      unfolding s2(5,6) by (rule account_sets(2) [OF sub(1) s1(6) p0] account_sets(3) [OF s1(7) sub(2,1)] order_trans [OF sub(8) s1(8)])+
    show "inj_on fst (M - {(v, p, at)})" "inj_on (\<lambda>m. fst (snd m)) (M - {(v, p, at)})"
      using sub(6,7) by (auto intro: inj_on_subset)
  qed (use sub(3-5) s1(4,5) s2(3,4) in simp_all)
  then show thesis using that [OF s1(1) s2(1)] s1(10) s2(6) by simp
qed

lemma areas_by_va:
  assumes "areas_ok as" shows "sorted (map a_va as)" "distinct (map a_va as)" "inj_on a_va (set as)"
proof -
  have le: "a_va a \<le> a_va b" if "a_end a \<le> unat (a_va b)" for a b :: area
    using that by (simp add: a_end_def word_le_nat_alt)
  show "sorted (map a_va as)" unfolding sorted_map
    by (rule sorted_wrt_mono_rel [of _ "\<lambda>a b. a_end a \<le> unat (a_va b)"]) (use assms le in \<open>auto simp: areas_ok_def\<close>)
  show "inj_on a_va (set as)" using areas_distinct_va [OF assms] by (auto intro: inj_onI)
  then show "distinct (map a_va as)" using areas_distinct [OF assms] by (simp add: distinct_map)
qed

lemma kv_extends_none:
  assumes "kv_extends s0 as0 s {}" "kv_inv s0 as0"
  shows "kv_inv s as0"
proof -
  obtain as where as: "kv_inv s as" "set as = set as0" using assms(1) by (auto simp: kv_extends_def)
  have "as = as0"
    using areas_by_va [OF kv_inv_D(5) [OF as(1)]] areas_by_va [OF kv_inv_D(5) [OF assms(2)]] as(2)
    by (intro map_sorted_distinct_set_unique [of a_va]) auto
  then show ?thesis using as by simp
qed

section \<open>Whole blocks\<close>

definition VMALLOC_RW :: u32 where
  "VMALLOC_RW = VMM_ATTR_R OR VMM_ATTR_W OR VMM_ATTR_NORMAL OR VMM_ATTR_PXN"

text \<open>
  Page \<open>k\<close> of a block of \<open>n\<close> data pages at \<open>base\<close>, on the physical page \<open>pas k\<close>: the first and the last are
  guards.
\<close>

definition block_page :: "u64 \<Rightarrow> nat \<Rightarrow> (nat \<Rightarrow> u64) \<Rightarrow> nat \<Rightarrow> u64 \<times> u64 \<times> u32" where
  "block_page base n pas k = (base + of_nat k * 4096, pas k, if k = 0 \<or> k = Suc n then VMM_ATTR_PXN else VMALLOC_RW)"

text \<open>There is room for the block: the range does not wrap, no area meets it, and the pool has the nodes.\<close>

definition block_fits :: "area list \<Rightarrow> u64 \<Rightarrow> nat \<Rightarrow> bool" where
  "block_fits as base n \<longleftrightarrow> page_aligned base \<and> unat base + (n + 2) * 4096 < 2 ^ 64 \<and>
     (\<forall>a \<in> set as. unat base + (n + 2) * 4096 \<le> unat (a_va a) \<or> a_end a \<le> unat base) \<and> length as + n + 2 \<le> VMA_POOL_CAP"

lemma block_va:
  assumes "block_fits as base n" "k < n + 2"
  shows "unat (base + of_nat k * 4096) = unat base + k * 4096" "page_aligned (base + of_nat k * 4096)"
proof -
  have b: "unat base + k * 4096 < 2 ^ 64"
    using assms by (auto simp: block_fits_def)
  then have "unat (of_nat (k * 4096) :: u64) = k * 4096" by (simp add: unat_of_nat del: of_nat_mult)
  then have k: "unat (of_nat k * 4096 :: u64) = k * 4096" by simp
  show u: "unat (base + of_nat k * 4096) = unat base + k * 4096"
    using b k by (simp add: unat_add_nowrap)
  have "unat base mod 4096 = 0" using assms(1) by (simp add: block_fits_def page_aligned_unat)
  then show "page_aligned (base + of_nat k * 4096)" by (simp add: page_aligned_unat u)
qed

lemma block_va_inj:
  assumes "block_fits as base n" "j < n + 2" "k < n + 2" "base + of_nat j * 4096 = base + of_nat k * 4096"
  shows "j = k"
proof -
  have "unat base + j * 4096 = unat base + k * 4096"
    unfolding block_va(1) [OF assms(1,2), symmetric] block_va(1) [OF assms(1,3), symmetric] assms(4) ..
  then show ?thesis by simp
qed

lemma block_add:
  assumes e: "kv_extends s0 as0 s (block_page base n pas ` {..<k})" and fits: "block_fits as0 base n" and k: "k < n + 2"
    and at: "at = (if k = 0 \<or> k = Suc n then VMM_ATTR_PXN else VMALLOC_RW)"
  shows "\<exists>a s1. kv_alloc_page s = Some (a, s1) \<and>
    (a = 0 \<and> s1 = s \<and> kv_free s = 0 \<or> a \<noteq> 0 \<and> (\<exists>s2. kv_map (base + of_nat k * 4096) a 4096 at s1 = Some s2 \<and>
       kv_extends s0 as0 s2 (block_page base n (pas(k := a)) ` {..<Suc k}) \<and> kv_free s \<le> kv_free s2 + 4))"
proof -
  let ?v = "base + of_nat k * 4096"
  note v = block_va [OF fits k]
  have 1: "unat ?v + 4096 < 2 ^ 64" using fits k v(1) by (auto simp: block_fits_def)
  have 2: "\<forall>a \<in> set as0. \<not> a_meets ?v 4096 a" using fits k v(1) by (fastforce simp: block_fits_def a_meets_def)
  have 3: "?v \<notin> fst ` block_page base n pas ` {..<k}"
  proof
    assume "?v \<in> fst ` block_page base n pas ` {..<k}"
    then obtain j where "j < k" "?v = base + of_nat j * 4096" by (auto simp del: add_left_cancel simp: block_page_def)
    then show False using block_va_inj [OF fits k, of j] k by simp
  qed
  have "card (block_page base n pas ` {..<k}) \<le> k" using card_image_le [of "{..<k}" "block_page base n pas"] by simp
  then have 4: "length as0 + card (block_page base n pas ` {..<k}) < VMA_POOL_CAP" using fits k by (auto simp: block_fits_def)
  have 5: "insert (?v, a, at) (block_page base n pas ` {..<k}) = block_page base n (pas(k := a)) ` {..<Suc k}" for a
    by (auto simp: block_page_def at lessThan_Suc image_iff)
  show ?thesis by (rule kv_extends_add [OF e v(2) 1 2 3 4, of at], unfold 5) blast
qed

lemma block_release:
  assumes e: "kv_extends s0 as0 s (block_page base n pas ` J)" and fits: "block_fits as0 base n" and J: "J \<subseteq> {..<n + 2}" "k \<in> J"
  obtains s1 s2 where "kv_unmap (base + of_nat k * 4096) 4096 s = Some s1" "kv_free_page (pas k) s1 = Some s2"
    "release_page (base + of_nat k * 4096) s = Some s2" "vfree_page (base + of_nat k * 4096) 4096 s = Some s2"
    "kv_extends s0 as0 s2 (block_page base n pas ` (J - {k}))" "pas k \<notin> kv_live s2"
proof -
  obtain at where m: "block_page base n pas k = (base + of_nat k * 4096, pas k, at)" by (simp add: block_page_def)
  have mem: "(base + of_nat k * 4096, pas k, at) \<in> block_page base n pas ` J" using J(2) m by (metis imageI)
  have "block_page base n pas j \<noteq> block_page base n pas k" if "j \<in> J" "j \<noteq> k" for j
  proof
    assume "block_page base n pas j = block_page base n pas k"
    then have "fst (block_page base n pas j) = fst (block_page base n pas k)" by simp
    then have "base + of_nat j * 4096 = base + of_nat k * 4096" unfolding block_page_def fst_conv .
    then show False using block_va_inj [OF fits, of j k] that J by auto
  qed
  then have d: "block_page base n pas ` J - {(base + of_nat k * 4096, pas k, at)} = block_page base n pas ` (J - {k})"
    unfolding m [symmetric] by (auto simp: image_iff) metis
  obtain s1 s2 where h: "kv_unmap (base + of_nat k * 4096) 4096 s = Some s1" "kv_free_page (pas k) s1 = Some s2"
    "kv_extends s0 as0 s2 (block_page base n pas ` (J - {k}))" "pas k \<notin> kv_live s2"
    "vmm_virt_to_phys (base + of_nat k * 4096) True (kv_vmm s) = Some (0, Some (pas k))"
    using kv_extends_remove [OF e mem] unfolding d by metis
  then show thesis by (intro that [OF h(1,2) _ _ h(3,4)]) (simp_all add: release_page_def vfree_page_def)
qed

text \<open>The same for a body whose answer may be missing.\<close>

lemma for_ret_inv_option:
  assumes "i \<le> n" and "P i s"
    and "\<And>k t. i \<le> k \<Longrightarrow> k < n \<Longrightarrow> P k t \<Longrightarrow>
      (\<exists>x. f k t = map_option Inl x \<and> Q x) \<or> (\<exists>t'. f k t = Some (Inr t') \<and> P (Suc k) t')"
  shows "(\<exists>x. for_ret i n f s = map_option Inl x \<and> Q x) \<or> (\<exists>t. for_ret i n f s = Some (Inr t) \<and> P n t)"
  using assms
proof (induction "n - i" arbitrary: i s)
  case 0
  then show ?case by simp
next
  case (Suc d)
  have i: "i < n" using Suc(2) by simp
  from Suc.prems(3) [OF order.refl i Suc.prems(2)] consider
    (ret) x where "f i s = map_option Inl x" "Q x" | (go) s' where "f i s = Some (Inr s')" "P (Suc i) s'" by blast
  then show ?case
  proof cases
    case ret
    then have "for_ret i n f s = map_option Inl x" using i by (cases x) (simp_all add: for_ret_step)
    then show ?thesis using ret by blast
  next
    case go
    have "(\<exists>x. for_ret (Suc i) n f s' = map_option Inl x \<and> Q x) \<or> (\<exists>t. for_ret (Suc i) n f s' = Some (Inr t) \<and> P n t)"
      using Suc(1) [of "Suc i" s'] Suc(2) i go(2) Suc.prems(3) by (simp add: Suc_leI)
    then show ?thesis using i go(1) by (simp add: for_ret_step)
  qed
qed

lemma data_va: "base + GUARD_SIZE + of_nat i * 4096 = base + of_nat (Suc i) * 4096"
  by (simp add: GUARD_SIZE_def algebra_simps)

text \<open>Undoing gives back the guard and the first \<open>i\<close> data pages; then the range goes back to the free list.\<close>

lemma vmalloc_undo_ok:
  assumes e: "kv_extends s0 as0 s (block_page base n pas ` {..<Suc i})" and fits: "block_fits as0 base n" and i: "i \<le> n"
  obtains s1 where "vmalloc_undo base total_size (pas 0) (base + GUARD_SIZE) i s = kv_add_free base total_size s1"
    "kv_extends s0 as0 s1 {}"
proof -
  have "\<exists>t. for_upto 0 i (\<lambda>j s. release_page (base + GUARD_SIZE + of_nat j * 4096) s) s = Some t \<and>
      kv_extends s0 as0 t (block_page base n pas ` ({..<Suc i} - {0<..<Suc i}))"
  proof (rule for_upto_inv [where P = "\<lambda>j t. kv_extends s0 as0 t (block_page base n pas ` ({..<Suc i} - {0<..<Suc j}))"])
    have "{0<..<Suc 0} = {}" by auto
    then show "kv_extends s0 as0 s (block_page base n pas ` ({..<Suc i} - {0<..<Suc 0}))" using e by simp
  next
    fix j t
    assume j: "j < i" and t: "kv_extends s0 as0 t (block_page base n pas ` ({..<Suc i} - {0<..<Suc j}))"
    have "{..<Suc i} - {0<..<Suc j} \<subseteq> {..<n + 2}" "Suc j \<in> {..<Suc i} - {0<..<Suc j}" using j i by auto
    from block_release [OF t fits this] obtain t' where t': "release_page (base + of_nat (Suc j) * 4096) t = Some t'"
      "kv_extends s0 as0 t' (block_page base n pas ` ({..<Suc i} - {0<..<Suc j} - {Suc j}))" by metis
    moreover have "{..<Suc i} - {0<..<Suc j} - {Suc j} = {..<Suc i} - {0<..<Suc (Suc j)}" by auto
    ultimately show "\<exists>t'. release_page (base + GUARD_SIZE + of_nat j * 4096) t = Some t' \<and>
      kv_extends s0 as0 t' (block_page base n pas ` ({..<Suc i} - {0<..<Suc (Suc j)}))" unfolding data_va by auto
  qed simp
  then obtain t where t: "for_upto 0 i (\<lambda>j s. release_page (base + GUARD_SIZE + of_nat j * 4096) s) s = Some t"
    "kv_extends s0 as0 t (block_page base n pas ` {0})"
    by (auto simp: set_diff_eq lessThan_def greaterThanLessThan_def greaterThan_def cong: conj_cong)
  obtain s1 s2 where "kv_unmap base GUARD_SIZE t = Some s1" "kv_free_page (pas 0) s1 = Some s2" "kv_extends s0 as0 s2 {}"
    using block_release [OF t(2) fits, of 0] by (simp add: GUARD_SIZE_def) metis
  then show thesis using that [of s2] t(1) by (simp add: vmalloc_undo_def)
qed

text \<open>The outcome when a page could not be had: nothing is left, and the range is returned.\<close>

definition undone :: "kvm \<Rightarrow> area list \<Rightarrow> u64 \<Rightarrow> u64 \<Rightarrow> (u64 \<times> kvm) option \<Rightarrow> bool" where
  "undone s0 as0 base ttl r \<longleftrightarrow> (\<exists>s'. r = map_option (\<lambda>t. (0, t)) (kv_add_free base ttl s') \<and> kv_extends s0 as0 s' {})"

lemma undone_undo:
  assumes "kv_extends s0 as0 t (block_page base n pas ` {..<Suc i})" "block_fits as0 base n" "i \<le> n"
  shows "undone s0 as0 base ttl (map_option (\<lambda>t. (0, t)) (vmalloc_undo base ttl (pas 0) (base + GUARD_SIZE) i t))"
  by (rule vmalloc_undo_ok [OF assms, of ttl], unfold undone_def) metis

lemma vmalloc_page_ok:
  assumes e: "kv_extends s0 as0 t (block_page base n pas ` {..<Suc k})" and fits: "block_fits as0 base n" and k: "k < n"
  shows "(\<exists>x. vmalloc_page base ttl (pas 0) (base + GUARD_SIZE) k t = map_option Inl x \<and> undone s0 as0 base ttl x \<and> kv_free t = 0) \<or>
    (\<exists>t' a. vmalloc_page base ttl (pas 0) (base + GUARD_SIZE) k t = Some (Inr t') \<and>
       kv_extends s0 as0 t' (block_page base n (pas(Suc k := a)) ` {..<Suc (Suc k)}) \<and> kv_free t \<le> kv_free t' + 4)"
proof -
  have c: "Suc k < n + 2" "VMALLOC_RW = (if Suc k = 0 \<or> Suc k = Suc n then VMM_ATTR_PXN else VMALLOC_RW)" using k by simp_all
  obtain a t1 where a: "kv_alloc_page t = Some (a, t1)"
    "a = 0 \<and> t1 = t \<and> kv_free t = 0 \<or> a \<noteq> 0 \<and> (\<exists>t2. kv_map (base + of_nat (Suc k) * 4096) a 4096 VMALLOC_RW t1 = Some t2 \<and>
       kv_extends s0 as0 t2 (block_page base n (pas(Suc k := a)) ` {..<Suc (Suc k)}) \<and> kv_free t \<le> kv_free t2 + 4)"
    using block_add [OF e fits c] by blast
  show ?thesis
  proof (cases "a = 0")
    case True
    have "vmalloc_page base ttl (pas 0) (base + GUARD_SIZE) k t =
        map_option Inl (map_option (\<lambda>t. (0, t)) (vmalloc_undo base ttl (pas 0) (base + GUARD_SIZE) k t))"
      using a True by (simp add: vmalloc_page_def option.map_comp comp_def bind_Some_map)
    then show ?thesis using undone_undo [OF e fits] k a(2) True by auto
  next
    case False
    then obtain t2 where t2: "kv_map (base + of_nat (Suc k) * 4096) a 4096 VMALLOC_RW t1 = Some t2"
      "kv_extends s0 as0 t2 (block_page base n (pas(Suc k := a)) ` {..<Suc (Suc k)})" "kv_free t \<le> kv_free t2 + 4" using a(2) by blast
    then have "vmalloc_page base ttl (pas 0) (base + GUARD_SIZE) k t = Some (Inr t2)"
      using a(1) False by (simp add: vmalloc_page_def data_va VMALLOC_RW_def del: of_nat_Suc)
    then show ?thesis using t2(2,3) by blast
  qed
qed

lemma vmalloc_pages_ok:
  assumes e: "kv_extends s0 as0 s (block_page base n pas ` {..<Suc 0})" and fits: "block_fits as0 base n"
    and free: "f \<le> kv_free s + 4"
  shows "(\<exists>x. for_ret 0 n (vmalloc_page base ttl (pas 0) (base + GUARD_SIZE)) s = map_option Inl x \<and> undone s0 as0 base ttl x \<and>
      f < 4 * (n + 2)) \<or>
    (\<exists>t. for_ret 0 n (vmalloc_page base ttl (pas 0) (base + GUARD_SIZE)) s = Some (Inr t) \<and>
       (\<exists>pas'. pas' 0 = pas 0 \<and> kv_extends s0 as0 t (block_page base n pas' ` {..<Suc n})) \<and> f \<le> kv_free t + 4 * Suc n)"
proof (rule for_ret_inv_option [where P = "\<lambda>i t. (\<exists>pas'. pas' 0 = pas 0 \<and>
    kv_extends s0 as0 t (block_page base n pas' ` {..<Suc i})) \<and> f \<le> kv_free t + 4 * Suc i"])
  have "\<exists>pas'. pas' 0 = pas 0 \<and> kv_extends s0 as0 s (block_page base n pas' ` {..<Suc 0})"
    by (rule exI [of _ pas], rule conjI [OF refl e])
  with free show "(\<exists>pas'. pas' 0 = pas 0 \<and> kv_extends s0 as0 s (block_page base n pas' ` {..<Suc 0})) \<and> f \<le> kv_free s + 4 * Suc 0"
    by simp
next
  fix k t
  assume k: "k < n" and "(\<exists>pas'. pas' 0 = pas 0 \<and> kv_extends s0 as0 t (block_page base n pas' ` {..<Suc k})) \<and> f \<le> kv_free t + 4 * Suc k"
  then obtain pas' where pas': "pas' 0 = pas 0" "kv_extends s0 as0 t (block_page base n pas' ` {..<Suc k})" "f \<le> kv_free t + 4 * Suc k" by blast
  have z: "(pas'(Suc k := a)) 0 = pas 0" for a using pas'(1) by simp
  from vmalloc_page_ok [OF pas'(2) fits k, of ttl, unfolded pas'(1)] show "(\<exists>x. vmalloc_page base ttl (pas 0) (base + GUARD_SIZE) k t = map_option Inl x \<and> undone s0 as0 base ttl x \<and> f < 4 * (n + 2)) \<or>
    (\<exists>t'. vmalloc_page base ttl (pas 0) (base + GUARD_SIZE) k t = Some (Inr t') \<and>
       (\<exists>pas'. pas' 0 = pas 0 \<and> kv_extends s0 as0 t' (block_page base n pas' ` {..<Suc (Suc k)})) \<and> f \<le> kv_free t' + 4 * Suc (Suc k))"
  proof (elim disjE exE conjE)
    fix x assume x: "vmalloc_page base ttl (pas 0) (base + GUARD_SIZE) k t = map_option Inl x" "undone s0 as0 base ttl x" "kv_free t = 0"
    then have "f < 4 * (n + 2)" using pas'(3) k by simp
    with x show ?thesis by blast
  next
    fix t' a assume t': "vmalloc_page base ttl (pas 0) (base + GUARD_SIZE) k t = Some (Inr t')"
      "kv_extends s0 as0 t' (block_page base n (pas'(Suc k := a)) ` {..<Suc (Suc k)})" "kv_free t \<le> kv_free t' + 4"
    then have "f \<le> kv_free t' + 4 * Suc (Suc k)" using pas'(3) by simp
    with t' z [of a] show ?thesis by blast
  qed
qed simp

text \<open>\<open>vmalloc\<close> once the range is found: all pages, or none and the range is returned.\<close>

lemma vmalloc_block:
  assumes inv: "kv_inv s as" and sz: "sz \<noteq> 0" and find: "find_free_space ttl (kv_va s) = Some (base, v)" "base \<noteq> 0"
    and n: "(sz + 4095) div 4096 = of_nat n" "unat ((sz + 4095) div 4096) = n" "ttl = of_nat n * 4096 + 2 * GUARD_SIZE"
    and fits: "block_fits as base n"
  defines "s0 \<equiv> s\<lparr>kv_va := v\<rparr>"
  shows "(\<exists>s' pas. vmalloc sz s = Some (base + 4096, s') \<and> kv_extends s0 as s' (block_page base n pas ` {..<n + 2}) \<and>
      kv_free s \<le> kv_free s' + 4 * (n + 2)) \<or>
    kv_free s < 4 * (n + 2) \<and> undone s0 as base ttl (vmalloc sz s)"
proof -
  let ?loop = "\<lambda>g1. for_ret 0 n (vmalloc_page base ttl g1 (base + GUARD_SIZE))"
  define rest where "rest g1 r = (case r of Inl res \<Rightarrow> Some res
    | Inr s \<Rightarrow> do {
        (guard2, s) \<leftarrow> kv_alloc_page s;
        if guard2 = 0 then do {
          s \<leftarrow> vmalloc_undo base ttl g1 (base + GUARD_SIZE) n s;
          Some (0, s)
        } else do {
          s \<leftarrow> kv_map (base + GUARD_SIZE + of_nat n * 4096) guard2 GUARD_SIZE VMM_ATTR_PXN s;
          Some (base + GUARD_SIZE, s) } })" for g1 r
  have main: "vmalloc sz s = do {
      (guard1, s) \<leftarrow> kv_alloc_page s0;
      if guard1 = 0 then do { s \<leftarrow> kv_add_free base ttl s; Some (0, s) }
      else do {
        s \<leftarrow> kv_map base guard1 GUARD_SIZE VMM_ATTR_PXN s;
        r \<leftarrow> ?loop guard1 s;
        rest guard1 r } }"
    using sz find unfolding vmalloc_def rest_def s0_def Let_def n(2) unfolding n(1) unfolding n(3) [symmetric] by simp
  have "kv_inv s0 as" using inv by (simp add: kv_inv_def s0_def)
  then have e0: "kv_extends s0 as s0 (block_page base n (\<lambda>_. 0) ` {..<0})" using kv_extends_refl by simp
  have c: "0 < n + 2" "VMM_ATTR_PXN = (if 0 = (0 :: nat) \<or> 0 = Suc n then VMM_ATTR_PXN else VMALLOC_RW)" by simp_all
  have z: "base + of_nat 0 * 4096 = base" by simp
  obtain g1 s1 where g1: "kv_alloc_page s0 = Some (g1, s1)"
    "g1 = 0 \<and> s1 = s0 \<and> kv_free s0 = 0 \<or> g1 \<noteq> 0 \<and> (\<exists>s2. kv_map base g1 4096 VMM_ATTR_PXN s1 = Some s2 \<and>
       kv_extends s0 as s2 (block_page base n ((\<lambda>_. 0)(0 := g1)) ` {..<Suc 0}) \<and> kv_free s0 \<le> kv_free s2 + 4)"
    using block_add [OF e0 fits c, unfolded z] by (elim exE conjE)
  have f0: "kv_free s0 = kv_free s" by (simp add: s0_def kv_pmm_def)
  show ?thesis
  proof (cases "g1 = 0")
    case True
    have "vmalloc sz s = map_option (\<lambda>t. (0, t)) (kv_add_free base ttl s0)"
      using True g1 by (simp add: main bind_Some_map)
    then show ?thesis using e0 True g1(2) f0 by (auto simp: undone_def)
  next
    case False
    obtain s2 where s2: "kv_map base g1 4096 VMM_ATTR_PXN s1 = Some s2"
      "kv_extends s0 as s2 (block_page base n ((\<lambda>_. 0)(0 := g1)) ` {..<Suc 0})" "kv_free s \<le> kv_free s2 + 4" using g1(2) False f0 by auto
    have m2: "vmalloc sz s = Option.bind (?loop g1 s2) (rest g1)" using g1(1) False s2(1) by (simp add: main GUARD_SIZE_def)
    have "((\<lambda>_. 0)(0 := g1)) (0 :: nat) = g1" by simp
    note loop = vmalloc_pages_ok [OF s2(2) fits s2(3), of ttl, unfolded this]
    from loop show ?thesis
    proof (elim disjE exE conjE)
      fix x
      assume x: "?loop g1 s2 = map_option Inl x" "undone s0 as base ttl x" "kv_free s < 4 * (n + 2)"
      have "vmalloc sz s = x" unfolding m2 x(1) rest_def by (cases x) simp_all
      then show ?thesis using x(2,3) by blast
    next
      fix t pas
      assume t: "?loop g1 s2 = Some (Inr t)" "kv_free s \<le> kv_free t + 4 * Suc n" "pas 0 = g1" "kv_extends s0 as t (block_page base n pas ` {..<Suc n})"
      have c: "Suc n < n + 2" "VMM_ATTR_PXN = (if Suc n = 0 \<or> Suc n = Suc n then VMM_ATTR_PXN else VMALLOC_RW)" by simp_all
      obtain a t1 where a: "kv_alloc_page t = Some (a, t1)"
        "a = 0 \<and> t1 = t \<and> kv_free t = 0 \<or> a \<noteq> 0 \<and> (\<exists>t2. kv_map (base + of_nat (Suc n) * 4096) a 4096 VMM_ATTR_PXN t1 = Some t2 \<and>
           kv_extends s0 as t2 (block_page base n (pas(Suc n := a)) ` {..<Suc (Suc n)}) \<and> kv_free t \<le> kv_free t2 + 4)"
        using block_add [OF t(4) fits c] by blast
      show ?thesis
      proof (cases "a = 0")
        case True
        have "vmalloc sz s = map_option (\<lambda>t. (0, t)) (vmalloc_undo base ttl (pas 0) (base + GUARD_SIZE) n t)"
          using a True t(1,3) by (simp add: m2 rest_def bind_Some_map)
        then show ?thesis using undone_undo [OF t(4) fits, of ttl] a(2) True t(2) by simp
      next
        case False
        then obtain t2 where t2: "kv_map (base + of_nat (Suc n) * 4096) a 4096 VMM_ATTR_PXN t1 = Some t2"
          and e2: "kv_extends s0 as t2 (block_page base n (pas(Suc n := a)) ` {..<Suc (Suc n)})" "kv_free t \<le> kv_free t2 + 4" using a(2) by blast
        then have "vmalloc sz s = Some (base + GUARD_SIZE, t2)"
          using a(1) False t(1) t2 unfolding m2 rest_def data_va by (simp add: GUARD_SIZE_def del: of_nat_Suc)
        moreover have "kv_free s \<le> kv_free t2 + 4 * (n + 2)" using e2(2) t(2) by simp
        ultimately show ?thesis using e2(1) by (auto simp: GUARD_SIZE_def)
      qed
    qed
  qed
qed

text \<open>\<open>vfree\<close> of a block gives back all its pages.\<close>

lemma vfree_block:
  assumes e: "kv_extends s0 as0 s (block_page base n pas ` {..<n + 2})" and fits: "block_fits as0 base n"
    and sz: "sz \<noteq> 0" "(sz + 4095) div 4096 = of_nat n" "unat ((sz + 4095) div 4096) = n" and base: "base + 4096 \<noteq> 0"
  shows "\<exists>s1. vfree (base + 4096) sz s = kv_add_free base (of_nat n * 4096 + 2 * GUARD_SIZE) s1 \<and> kv_extends s0 as0 s1 {}"
proof -
  have "\<exists>t. for_upto 0 n (\<lambda>i s. vfree_page (base + GUARD_SIZE + of_nat i * 4096) 4096 s) s = Some t \<and>
      kv_extends s0 as0 t (block_page base n pas ` ({..<n + 2} - {0<..<Suc n}))"
  proof (rule for_upto_inv [where P = "\<lambda>j t. kv_extends s0 as0 t (block_page base n pas ` ({..<n + 2} - {0<..<Suc j}))"])
    have "{0<..<Suc 0} = {}" by auto
    then show "kv_extends s0 as0 s (block_page base n pas ` ({..<n + 2} - {0<..<Suc 0}))" using e by simp
  next
    fix j t
    assume j: "j < n" and t: "kv_extends s0 as0 t (block_page base n pas ` ({..<n + 2} - {0<..<Suc j}))"
    have "{..<n + 2} - {0<..<Suc j} \<subseteq> {..<n + 2}" "Suc j \<in> {..<n + 2} - {0<..<Suc j}" using j by auto
    from block_release [OF t fits this] obtain t' where t': "vfree_page (base + of_nat (Suc j) * 4096) 4096 t = Some t'"
      "kv_extends s0 as0 t' (block_page base n pas ` ({..<n + 2} - {0<..<Suc j} - {Suc j}))" by metis
    moreover have "{..<n + 2} - {0<..<Suc j} - {Suc j} = {..<n + 2} - {0<..<Suc (Suc j)}" by auto
    ultimately show "\<exists>t'. vfree_page (base + GUARD_SIZE + of_nat j * 4096) 4096 t = Some t' \<and>
      kv_extends s0 as0 t' (block_page base n pas ` ({..<n + 2} - {0<..<Suc (Suc j)}))" unfolding data_va by auto
  qed simp
  moreover have "{..<n + 2} - {0<..<Suc n} = {0, Suc n}" by auto
  ultimately obtain t where t: "for_upto 0 n (\<lambda>i s. vfree_page (base + GUARD_SIZE + of_nat i * 4096) 4096 s) s = Some t"
    "kv_extends s0 as0 t (block_page base n pas ` {0, Suc n})" by auto
  obtain t1 where t1: "vfree_page (base + of_nat 0 * 4096) 4096 t = Some t1"
    "kv_extends s0 as0 t1 (block_page base n pas ` ({0, Suc n} - {0}))"
    by (rule block_release [OF t(2) fits, of 0]) auto
  have J: "{0, Suc n} - {0} = {Suc n}" "{Suc n} \<subseteq> {..<n + 2}" "Suc n \<in> {Suc n}" by auto
  obtain t2 where t2: "vfree_page (base + of_nat (Suc n) * 4096) 4096 t1 = Some t2"
    "kv_extends s0 as0 t2 (block_page base n pas ` ({Suc n} - {Suc n}))"
    by (rule block_release [OF t1(2) [unfolded J(1)] fits J(2,3)])
  have b: "base + GUARD_SIZE - GUARD_SIZE = base + of_nat 0 * 4096" "base + of_nat 0 * 4096 = base" by simp_all
  have "vfree (base + GUARD_SIZE) sz s = kv_add_free base (of_nat n * 4096 + 2 * GUARD_SIZE) t2"
    using sz base t(1) t1(1) t2(1) unfolding vfree_def Let_def sz(3) unfolding sz(2) data_va
    unfolding b(1) by (simp add: GUARD_SIZE_def [symmetric] data_va del: of_nat_Suc)
  moreover have "kv_extends s0 as0 t2 {}" using t2(2) by simp
  ultimately show ?thesis by (auto simp: GUARD_SIZE_def)
qed

section \<open>The invariant of the allocator\<close>

definition va_aligned :: "(u64 \<times> u64) list \<Rightarrow> u64 \<Rightarrow> bool" where
  "va_aligned L nxt \<longleftrightarrow> page_aligned nxt \<and> (\<forall>r \<in> set L. page_aligned (fst r) \<and> page_aligned (snd r))"

text \<open>An area that reaches into the address range of \<open>vmalloc\<close> lies in one of the live ranges \<open>A\<close>.\<close>

definition areas_in :: "area list \<Rightarrow> (u64 \<times> u64) list \<Rightarrow> bool" where
  "areas_in as A \<longleftrightarrow> (\<forall>a \<in> set as. a_end a \<le> unat VMALLOC_START \<or> unat VMALLOC_END \<le> unat (a_va a) \<or>
     (\<exists>r \<in> set A. unat (fst r) \<le> unat (a_va a) \<and> a_end a \<le> unat (fst r) + unat (snd r)))"

definition vmalloc_inv :: "kvm \<Rightarrow> area list \<Rightarrow> (u64 \<times> u64) list \<Rightarrow> bool" where
  "vmalloc_inv s as A \<longleftrightarrow> kv_inv s as \<and> areas_in as A \<and>
     (\<exists>bs ps. va_ok (kv_va s) bs ps \<and> va_parts (ranges (kv_va s) bs @ A) (vmalloc_next (kv_va s)) \<and>
        va_aligned (ranges (kv_va s) bs) (vmalloc_next (kv_va s)))"

lemma page_aligned_diff:
  assumes "page_aligned a" "page_aligned b" "b \<le> a" shows "page_aligned (a - b)"
  using assms by (simp add: page_aligned_unat unat_sub mod_eq_0_iff_dvd)

lemma va_take_aligned:
  assumes "va_aligned L nxt" "page_aligned sz" "va_take sz L nxt = (va, L', nxt')" "va_parts (L @ A) nxt"
  shows "page_aligned va \<and> va_aligned L' nxt'"
proof (cases "best_fit sz L")
  case None
  moreover have "page_aligned 0" by (simp add: page_aligned_def)
  ultimately show ?thesis using assms by (auto simp: va_take_def va_aligned_def page_aligned_add split: if_splits)
next
  case (Some r)
  obtain v z where r: "best_fit sz L = Some (v, z)" using Some by (cases r) auto
  note f = best_fit_Some [OF r]
  have al: "page_aligned v" "page_aligned z" using assms(1) f(1) by (auto simp: va_aligned_def)
  have n: "page_aligned (v + sz)" "page_aligned (z - sz)" using al assms(2) f(2) by (auto intro: page_aligned_add page_aligned_diff)
  have t: "va = v" "nxt' = nxt"
    "L' = concat (map (\<lambda>r. if r = (v, z) then if z = sz then [] else [(v + sz, z - sz)] else [r]) L)"
    using assms(3) r by (auto simp: va_take_def)
  show ?thesis using assms(1) al n unfolding t va_aligned_def by (auto split: if_splits)
qed

lemma find_free_space_zero:
  assumes ok: "va_ok v bs ps" and p: "va_parts (ranges v bs @ A) (vmalloc_next v)" and f: "find_free_space sz v = Some (0, v')"
  shows "v' = v"
proof -
  have "chain (nx v) (free_list v) bs None" using ok by (auto simp: va_ok_def intro: dll_chain)
  then obtain best where best: "find_best (free_pool v) sz None (free_list v) None = Some best" "best_among (free_pool v) sz bs best"
    using find_best_finds [of "free_pool v" "free_list v" bs sz "[]" None] by (auto simp: best_among_def)
  have start: "fb_va (free_pool v b) \<noteq> 0" if "b \<in> set bs" for b
  proof -
    have "range_of v b \<in> set (ranges v bs @ A)" using that by (simp add: ranges_def)
    then have "VMALLOC_START \<le> fb_va (free_pool v b)" using p unfolding va_parts_def by (metis fst_conv)
    then show ?thesis by (auto simp: VMALLOC_START_def)
  qed
  have "vmalloc_next v \<noteq> 0" using p by (auto simp: va_parts_def VMALLOC_START_def)
  then show ?thesis using f best start
    by (cases best) (auto simp: find_free_space_def best_among_def Let_def split: if_splits)
qed

text \<open>The range that was found has room for the block.\<close>

lemma block_fits_new:
  assumes inv: "areas_in as A" and p: "va_parts (L @ (base, ttl) # A) nxt" and al: "page_aligned base"
    and ttl: "unat ttl = (n + 2) * 4096" and room: "length as + n + 2 \<le> VMA_POOL_CAP"
  shows "block_fits as base n"
proof -
  have b: "VMALLOC_START \<le> base" "unat base + unat ttl \<le> unat nxt" "nxt \<le> VMALLOC_END" "\<forall>r \<in> set A. apart (base, ttl) r"
    using p by (auto simp: va_parts_def sorted_wrt_append)
  have e: "unat base + (n + 2) * 4096 \<le> unat VMALLOC_END" using b(2,3) ttl by (simp add: word_le_nat_alt)
  have "unat base + (n + 2) * 4096 \<le> unat (a_va a) \<or> a_end a \<le> unat base" if mem: "a \<in> set as" for a
  proof -
    consider "a_end a \<le> unat VMALLOC_START" | "unat VMALLOC_END \<le> unat (a_va a)" |
      r where "r \<in> set A" "unat (fst r) \<le> unat (a_va a)" "a_end a \<le> unat (fst r) + unat (snd r)"
      using bspec [OF inv [unfolded areas_in_def] mem] by blast
    then show ?thesis
    proof cases
      case 1
      then show ?thesis using b(1) by (simp add: word_le_nat_alt)
    next
      case 2
      then show ?thesis using e by simp
    next
      case 3
      then show ?thesis using b(4) ttl by (auto simp: apart_def)
    qed
  qed
  moreover have "unat VMALLOC_END < 2 ^ 64" by (simp add: VMALLOC_END_def)
  ultimately show ?thesis using e al room by (auto simp: block_fits_def)
qed

text \<open>With the pages of the block among them, the areas still lie in the live ranges.\<close>

lemma areas_in_block:
  assumes "areas_in as A" "set as' = set as \<union> page_area ` block_page base n pas ` {..<n + 2}" "block_fits as base n"
    "unat ttl = (n + 2) * 4096"
  shows "areas_in as' ((base, ttl) # A)"
proof -
  have "unat base \<le> unat (base + of_nat k * 4096) \<and> unat (base + of_nat k * 4096) + 4096 \<le> unat base + unat ttl" if "k < n + 2" for k
    using block_va(1) [OF assms(3) that] that assms(4) by auto
  then show ?thesis using assms(1,2) by (auto simp: areas_in_def a_end_def page_area_def block_page_def)
qed

lemma block_size:
  assumes "n + 2 \<le> VMA_POOL_CAP"
  shows "unat (of_nat n * 4096 + 2 * GUARD_SIZE) = (n + 2) * 4096" "page_aligned (of_nat n * 4096 + 2 * GUARD_SIZE)"
    "0 < (of_nat n * 4096 + 2 * GUARD_SIZE :: u64)"
proof -
  have e: "(of_nat n * 4096 + 2 * GUARD_SIZE :: u64) = of_nat ((n + 2) * 4096)" by (simp add: GUARD_SIZE_def)
  have lt: "(n + 2) * 4096 < 2 ^ 64" using assms by (simp add: VMA_POOL_CAP_def)
  show u: "unat (of_nat n * 4096 + 2 * GUARD_SIZE :: u64) = (n + 2) * 4096"
    unfolding e using lt by (simp add: unat_of_nat del: of_nat_mult of_nat_add)
  show "page_aligned (of_nat n * 4096 + 2 * GUARD_SIZE)" unfolding page_aligned_unat u by simp
  show "0 < (of_nat n * 4096 + 2 * GUARD_SIZE :: u64)" unfolding word_less_nat_alt u by simp
qed

section \<open>Properties\<close>

text \<open>Areas and pages are as before, but for pages that became page tables.\<close>

definition restored :: "kvm \<Rightarrow> area list \<Rightarrow> kvm \<Rightarrow> bool" where
  "restored s as s' \<longleftrightarrow> kv_inv s' as \<and> kv_live s \<subseteq> kv_live s' \<and> kv_live s' \<subseteq> kv_live s \<union> kv_tables s'"

lemma kv_extends_translate:
  assumes e: "kv_extends s0 as0 s M" and m: "(v, p, at) \<in> M"
  shows "vmm_virt_to_phys v True (kv_vmm s) = Some (0, Some p)"
  by (rule kv_extends_remove [OF assms])

lemma restored_extends:
  assumes "kv_extends (s\<lparr>kv_va := v\<rparr>) as s' {}" "kv_inv s as"
  shows "restored s as s'" "kv_va s' = v"
proof -
  have "kv_inv (s\<lparr>kv_va := v\<rparr>) as" using assms(2) by (simp add: kv_inv_def)
  from kv_extends_none [OF assms(1) this] show "restored s as s'" "kv_va s' = v"
    using assms(1) by (auto simp: restored_def kv_extends_def kv_pmm_def)
qed

text \<open>The range \<open>vmalloc\<close> gets, when there is one, has room for the block.\<close>

lemma vmalloc_range:
  assumes inv: "vmalloc_inv s as A" and room: "length as + n + 2 \<le> VMA_POOL_CAP" and ttl: "ttl = of_nat n * 4096 + 2 * GUARD_SIZE"
  obtains base v bs ps where "find_free_space ttl (kv_va s) = Some (base, v)" "va_ok v bs ps" "base = 0 \<Longrightarrow> v = kv_va s"
    "base \<noteq> 0 \<Longrightarrow> va_parts (ranges v bs @ (base, ttl) # A) (vmalloc_next v) \<and> va_aligned (ranges v bs) (vmalloc_next v) \<and>
       block_fits as base n"
    "va_ok (kv_va s) [] qs \<Longrightarrow> base \<noteq> 0 \<Longrightarrow> ranges v bs = [] \<and> unat (vmalloc_next v) = unat (vmalloc_next (kv_va s)) + unat ttl"
    "base = 0 \<Longrightarrow> unat VMALLOC_END < unat (vmalloc_next (kv_va s)) + unat ttl"
proof -
  obtain bs ps where va: "va_ok (kv_va s) bs ps" "va_parts (ranges (kv_va s) bs @ A) (vmalloc_next (kv_va s))"
    "va_aligned (ranges (kv_va s) bs) (vmalloc_next (kv_va s))" and kv: "kv_inv s as" "areas_in as A"
    using inv by (auto simp: vmalloc_inv_def)
  have "n + 2 \<le> VMA_POOL_CAP" using room by simp
  note t = block_size [OF this, folded ttl]
  have "vmalloc_next (kv_va s) \<le> VMALLOC_END" using va(2) by (simp add: va_parts_def)
  then have nowrap: "unat (vmalloc_next (kv_va s)) + unat ttl < 2 ^ 64"
    using room unfolding t(1) by (simp add: word_le_nat_alt VMALLOC_END_def VMA_POOL_CAP_def)
  have "distinct (ranges (kv_va s) bs)" using va_parts_distinct [OF va(2)] by simp
  then obtain base v bs' ps' where f: "find_free_space ttl (kv_va s) = Some (base, v)" "va_ok v bs' ps'"
    "(base, ranges v bs', vmalloc_next v) = va_take ttl (ranges (kv_va s) bs) (vmalloc_next (kv_va s))"
    using find_free_space_take [OF va(1)] by blast
  have "v = kv_va s" if "base = 0" using find_free_space_zero [OF va(1,2)] f(1) that by simp
  moreover have "va_parts (ranges v bs' @ (base, ttl) # A) (vmalloc_next v)" if "base \<noteq> 0"
    using va_take_parts [OF va(2) t(3) nowrap f(3) [symmetric]] that by blast
  moreover have "page_aligned base" "va_aligned (ranges v bs') (vmalloc_next v)"
    using va_take_aligned [OF va(3) t(2) f(3) [symmetric] va(2)] by auto
  moreover note c = calculation
  have u: "unat (vmalloc_next (kv_va s) + ttl) = unat (vmalloc_next (kv_va s)) + unat ttl" by (rule unat_add_nowrap [OF nowrap])
  have "ranges v bs' = [] \<and> unat (vmalloc_next v) = unat (vmalloc_next (kv_va s)) + unat ttl" if "va_ok (kv_va s) [] qs" "base \<noteq> 0"
  proof -
    have "bs = []" using va(1) that(1) by (cases bs) (auto simp: va_ok_def)
    then show ?thesis using f(3) u that(2) by (auto simp: ranges_def va_take_def best_fit_def split: if_splits)
  qed
  moreover have "unat VMALLOC_END < unat (vmalloc_next (kv_va s)) + unat ttl" if "base = 0"
  proof (cases "best_fit ttl (ranges (kv_va s) bs)")
    case None
    have "vmalloc_next (kv_va s) \<noteq> 0" using va(2) by (auto simp: va_parts_def VMALLOC_START_def)
    then show ?thesis using None f(3) that u by (auto simp: va_take_def word_less_nat_alt split: if_splits)
  next
    case (Some r)
    then have "fst r = 0" using f(3) that by (auto simp: va_take_def split: prod.splits)
    moreover have "r \<in> set (ranges (kv_va s) bs @ A)" using best_fit_Some(1) [of ttl _ "fst r" "snd r"] Some by simp
    then have "VMALLOC_START \<le> fst r" using va(2) by (cases r) (auto simp: va_parts_def)
    ultimately show ?thesis by (simp add: VMALLOC_START_def)
  qed
  ultimately show thesis using that [OF f(1,2)] block_fits_new [OF kv(2) _ _ t(1) room] c by blast
qed

lemma vmalloc_cases:
  assumes inv: "vmalloc_inv s as A" and sz: "sz \<noteq> 0" and n: "n = unat ((sz + 4095) div 4096)"
    and room: "length as + n + 2 \<le> VMA_POOL_CAP" and ttl: "ttl = of_nat n * 4096 + 2 * GUARD_SIZE"
  shows "\<exists>base v. find_free_space ttl (kv_va s) = Some (base, v) \<and>
    (base = 0 \<longrightarrow> vmalloc sz s = Some (0, s) \<and> unat VMALLOC_END < unat (vmalloc_next (kv_va s)) + unat ttl) \<and>
    (base \<noteq> 0 \<longrightarrow> (\<forall>r \<in> set A. apart (base, ttl) r) \<and>
     ((\<exists>s' as' pas. vmalloc sz s = Some (base + 4096, s') \<and> kv_va s' = v \<and> vmalloc_inv s' as' ((base, ttl) # A) \<and>
        set as' = set as \<union> page_area ` block_page base n pas ` {..<n + 2} \<and>
        kv_extends (s\<lparr>kv_va := v\<rparr>) as s' (block_page base n pas ` {..<n + 2}) \<and>
        (\<forall>k < n + 2. vmm_virt_to_phys (base + of_nat k * 4096) True (kv_vmm s') = Some (0, Some (pas k))) \<and>
        kv_free s \<le> kv_free s' + 4 * (n + 2)) \<or>
      kv_free s < 4 * (n + 2) \<and>
      (\<exists>s'. vmalloc sz s = map_option (\<lambda>t. (0, t)) (kv_add_free base ttl s') \<and> restored s as s' \<and> kv_va s' = v)))"
proof -
  have kv: "kv_inv s as" "areas_in as A" using inv by (auto simp: vmalloc_inv_def)
  have t: "unat ttl = (n + 2) * 4096" using block_size(1) [of n] room by (simp add: ttl)
  have pages: "(sz + 4095) div 4096 = of_nat n" by (simp add: n)
  obtain base v bs ps where f: "find_free_space ttl (kv_va s) = Some (base, v)" "va_ok v bs ps" "base = 0 \<Longrightarrow> v = kv_va s"
    and r: "base \<noteq> 0 \<Longrightarrow> va_parts (ranges v bs @ (base, ttl) # A) (vmalloc_next v) \<and> va_aligned (ranges v bs) (vmalloc_next v) \<and>
       block_fits as base n" "base = 0 \<Longrightarrow> unat VMALLOC_END < unat (vmalloc_next (kv_va s)) + unat ttl"
    using vmalloc_range [OF inv room ttl] by metis
  show ?thesis
  proof (cases "base = 0")
    case True
    then have "vmalloc sz s = Some (0, s)" using f(1,3) sz by (simp add: vmalloc_def Let_def pages flip: ttl)
    then show ?thesis using True f(1) r(2) by auto
  next
    case False
    note r = r(1) [OF False]
    then have fits: "block_fits as base n" and new: "\<forall>r \<in> set A. apart (base, ttl) r" by (auto simp: va_parts_def sorted_wrt_append)
    from vmalloc_block [OF kv(1) sz f(1) False pages n [symmetric] ttl fits] show ?thesis
    proof (elim disjE exE conjE)
      fix s' pas
      assume m: "vmalloc sz s = Some (base + 4096, s')" "kv_extends (s\<lparr>kv_va := v\<rparr>) as s' (block_page base n pas ` {..<n + 2})"
        "kv_free s \<le> kv_free s' + 4 * (n + 2)"
      obtain as' where as': "kv_inv s' as'" "set as' = set as \<union> page_area ` block_page base n pas ` {..<n + 2}" and v: "kv_va s' = v"
        using m(2) by (auto simp: kv_extends_def)
      have "vmalloc_inv s' as' ((base, ttl) # A)" unfolding vmalloc_inv_def v
        using as'(1) areas_in_block [OF kv(2) as'(2) fits t] f(2) r by blast
      moreover have "vmm_virt_to_phys (base + of_nat k * 4096) True (kv_vmm s') = Some (0, Some (pas k))" if "k < n + 2" for k
      proof -
        have "block_page base n pas k \<in> block_page base n pas ` {..<n + 2}" using that by blast
        then show ?thesis using kv_extends_translate [OF m(2)] unfolding block_page_def [of base n pas k] by blast
      qed
      ultimately show ?thesis using m v f(1) False new as'(2) by blast
    next
      assume low: "kv_free s < 4 * (n + 2)" and "undone (s\<lparr>kv_va := v\<rparr>) as base ttl (vmalloc sz s)"
      then obtain s' where s': "vmalloc sz s = map_option (\<lambda>t. (0, t)) (kv_add_free base ttl s')" "kv_extends (s\<lparr>kv_va := v\<rparr>) as s' {}"
        by (auto simp: undone_def)
      then show ?thesis using restored_extends [OF s'(2) kv(1)] f(1) False new low by blast
    qed
  qed
qed

lemma kv_add_free_first:
  assumes "va_ok (kv_va s) [] ps"
  shows "\<exists>v. kv_add_free base ttl s = Some (s\<lparr>kv_va := v\<rparr>)"
proof (cases ps)
  case Nil
  then have "kv_add_free base ttl s = Some (s\<lparr>kv_va := kv_va s\<rparr>)"
    using add_free_space_full [of "kv_va s" "[]"] assms by (simp add: kv_add_free_def)
  then show ?thesis ..
next
  case (Cons b ps')
  have "sorted_wrt (\<lambda>r q. \<not> touch r q) ((base, ttl) # ranges (kv_va s) [])" by (simp add: ranges_def)
  then obtain v where "add_free_space base ttl (kv_va s) = Some v" by (rule add_free_space_quiet [OF assms [unfolded Cons]])
  then have "kv_add_free base ttl s = Some (s\<lparr>kv_va := v\<rparr>)" by (simp add: kv_add_free_def)
  then show ?thesis ..
qed

lemma restored_va [simp]: "restored s as (s'\<lparr>kv_va := v\<rparr>) = restored s as s'"
  by (simp add: restored_def kv_inv_def kv_pmm_def)

lemma block_length:
  assumes "vmalloc_inv s' as' B" "set as' = set as \<union> page_area ` block_page base n pas ` {..<n + 2}"
  shows "length as' \<le> length as + n + 2"
proof -
  have "areas_ok as'" using assms(1) kv_inv_D(5) by (auto simp: vmalloc_inv_def)
  then have "length as' = card (set as')" using distinct_card areas_distinct by metis
  also have "\<dots> \<le> card (set as) + card (page_area ` block_page base n pas ` {..<n + 2})" unfolding assms(2) by (rule card_Un_le)
  also have "\<dots> \<le> length as + (n + 2)"
  proof (rule add_mono [OF card_length])
    have "card (page_area ` block_page base n pas ` {..<n + 2}) \<le> card (block_page base n pas ` {..<n + 2})" by (rule card_image_le) simp
    also have "\<dots> \<le> card {..<n + 2}" by (rule card_image_le) simp
    finally show "card (page_area ` block_page base n pas ` {..<n + 2}) \<le> n + 2" by simp
  qed
  finally show ?thesis by simp
qed

text \<open>
  While no range has been freed, \<open>vmalloc\<close> answers: null when pages or addresses are short, otherwise a block that
  \<open>vfree\<close> takes back.
\<close>

lemma vmalloc_first:
  assumes inv: "vmalloc_inv s as A" "va_ok (kv_va s) [] ps" and sz: "sz \<noteq> 0" and n: "n = unat ((sz + 4095) div 4096)"
    and room: "length as + n + 2 \<le> VMA_POOL_CAP" and ttl: "ttl = of_nat n * 4096 + 2 * GUARD_SIZE"
  shows "(kv_free s < 4 * (n + 2) \<or> unat VMALLOC_END < unat (vmalloc_next (kv_va s)) + unat ttl) \<and>
      (\<exists>s'. vmalloc sz s = Some (0, s') \<and> restored s as s') \<or>
    (\<exists>base s' as' ps'. vmalloc sz s = Some (base + 4096, s') \<and> base + 4096 \<noteq> 0 \<and>
      page_aligned base \<and> unat base + unat ttl < 2 ^ 64 \<and> (\<forall>r \<in> set A. apart (base, ttl) r) \<and>
      vmalloc_inv s' as' ((base, ttl) # A) \<and> va_ok (kv_va s') [] ps' \<and> length as' \<le> length as + n + 2 \<and>
      kv_free s \<le> kv_free s' + 4 * (n + 2) \<and> unat (vmalloc_next (kv_va s')) = unat (vmalloc_next (kv_va s)) + unat ttl \<and>
      (\<exists>s''. vfree (base + 4096) sz s' = Some s'' \<and> restored s as s''))"
proof -
  have kv: "kv_inv s as" using inv(1) by (simp add: vmalloc_inv_def)
  have pages: "(sz + 4095) div 4096 = of_nat n" by (simp add: n)
  obtain base v bs qs where f: "find_free_space ttl (kv_va s) = Some (base, v)" "va_ok v bs qs"
    and r: "base \<noteq> 0 \<Longrightarrow> va_parts (ranges v bs @ (base, ttl) # A) (vmalloc_next v) \<and> va_aligned (ranges v bs) (vmalloc_next v) \<and>
       block_fits as base n"
      "base \<noteq> 0 \<Longrightarrow> ranges v bs = [] \<and> unat (vmalloc_next v) = unat (vmalloc_next (kv_va s)) + unat ttl"
    using vmalloc_range [OF inv(1) room ttl] inv(2) by metis
  have v: "va_ok v [] qs" if "base \<noteq> 0" using f(2) r(2) [OF that] by (simp add: ranges_def)
  have returned: "\<exists>t. kv_add_free base ttl s1 = Some t \<and> restored s as t" if "restored s as s1" "kv_va s1 = v" "base \<noteq> 0" for s1
    using kv_add_free_first [of s1 qs base ttl] v that by auto
  let ?done = "\<lambda>s' as' pas. vmalloc sz s = Some (base + 4096, s') \<and> kv_va s' = v \<and> vmalloc_inv s' as' ((base, ttl) # A) \<and>
        set as' = set as \<union> page_area ` block_page base n pas ` {..<n + 2} \<and>
        kv_extends (s\<lparr>kv_va := v\<rparr>) as s' (block_page base n pas ` {..<n + 2}) \<and>
        (\<forall>k < n + 2. vmm_virt_to_phys (base + of_nat k * 4096) True (kv_vmm s') = Some (0, Some (pas k))) \<and>
        kv_free s \<le> kv_free s' + 4 * (n + 2)"
  let ?undone = "\<lambda>s'. vmalloc sz s = map_option (\<lambda>t. (0, t)) (kv_add_free base ttl s') \<and> restored s as s' \<and> kv_va s' = v"
  from vmalloc_cases [OF inv(1) sz n room ttl] have c:
    "(base = 0 \<longrightarrow> vmalloc sz s = Some (0, s) \<and> unat VMALLOC_END < unat (vmalloc_next (kv_va s)) + unat ttl) \<and>
     (base \<noteq> 0 \<longrightarrow> (\<forall>r \<in> set A. apart (base, ttl) r) \<and>
       ((\<exists>s' as' pas. ?done s' as' pas) \<or> kv_free s < 4 * (n + 2) \<and> (\<exists>s'. ?undone s')))"
    unfolding f(1) by (elim exE conjE) (simp only: option.inject prod.inject)
  show ?thesis
  proof (cases "base = 0")
    case True
    then show ?thesis using c kv by (auto simp: restored_def)
  next
    case False
    have fits: "block_fits as base n" using r(1) [OF False] by blast
    have t: "unat ttl = (n + 2) * 4096" using block_size(1) [of n] room by (simp add: ttl)
    have u: "page_aligned base" "unat base + unat ttl < 2 ^ 64" using fits t by (auto simp: block_fits_def)
    have "unat (base + 4096) = unat base + 4096" using block_va(1) [OF fits, of 1] by simp
    then have p: "base + 4096 \<noteq> 0" by (metis add_eq_0_iff_both_eq_0 unat_0 zero_neq_numeral)
    note c = mp [OF conjunct2 [OF c] False]
    note apart = conjunct1 [OF c]
    from conjunct2 [OF c] show ?thesis
    proof (elim disjE exE conjE)
      fix s' as' pas
      assume m: "vmalloc sz s = Some (base + 4096, s')" "kv_va s' = v" "vmalloc_inv s' as' ((base, ttl) # A)"
        "set as' = set as \<union> page_area ` block_page base n pas ` {..<n + 2}"
        "kv_extends (s\<lparr>kv_va := v\<rparr>) as s' (block_page base n pas ` {..<n + 2})" "kv_free s \<le> kv_free s' + 4 * (n + 2)"
      obtain s1 where s1: "vfree (base + 4096) sz s' = kv_add_free base ttl s1" "kv_extends (s\<lparr>kv_va := v\<rparr>) as s1 {}"
        using vfree_block [OF m(5) fits sz pages n [symmetric] p] unfolding ttl by blast
      then have "\<exists>s''. vfree (base + 4096) sz s' = Some s'' \<and> restored s as s''"
        using returned [OF restored_extends [OF s1(2) kv] False] by auto
      moreover have "length as' \<le> length as + n + 2" by (rule block_length [OF m(3,4)])
      ultimately show ?thesis using m(1,2,3,6) p u apart v [OF False] r(2) [OF False] by blast
    next
      fix s'
      assume m: "kv_free s < 4 * (n + 2)" "vmalloc sz s = map_option (\<lambda>t. (0, t)) (kv_add_free base ttl s')"
        "restored s as s'" "kv_va s' = v"
      then show ?thesis using returned [OF m(3,4) False] by auto
    qed
  qed
qed


text \<open>The state after \<open>vmm_init\<close>, before the first \<open>vmalloc\<close>.\<close>

definition kvm_boot :: kvm where
  "kvm_boot = \<lparr>kv_va = va_boot, kv_vmm = snd (vmm_init vmm_boot)\<rparr>"

lemma kvm_boot_inv: "vmalloc_inv kvm_boot [] []"
proof -
  obtain s where s: "vmm_init vmm_boot = (0, s)" "vmm_areas s []" "ttbr1_ok (vmm_mmu s)" "ttbr1_el1 (vmm_mmu s) = 0x40000000"
    using vmm_boot_init by blast
  have "kv_inv kvm_boot []" using s by (simp add: kv_inv_def kvm_boot_def ttbr1_ok_def)
  moreover have "va_aligned (ranges va_boot []) (vmalloc_next va_boot)"
    by (simp add: va_aligned_def ranges_def va_boot_def VMALLOC_START_def page_aligned_def)
  moreover have "va_parts (ranges va_boot [] @ []) (vmalloc_next va_boot)" using va_boot_parts by (simp add: ranges_def)
  moreover have "areas_in [] []" "kv_va kvm_boot = va_boot" by (simp_all add: areas_in_def kvm_boot_def)
  ultimately show ?thesis using va_boot_ok unfolding vmalloc_inv_def by metis
qed

lemma kvm_boot_room:
  "kv_free kvm_boot = 8188" "va_ok (kv_va kvm_boot) [] (rev [0..<512])" "vmalloc_next (kv_va kvm_boot) = VMALLOC_START"
proof -
  obtain s where s: "vmm_init vmm_boot = (0, s)" "vmm_mmu s = vmm_mmu vmm_boot" using vmm_init_areas [OF vmm_boot_ok(1)] by blast
  then show "kv_free kvm_boot = 8188" by (simp add: kvm_boot_def kv_pmm_def vmm_boot_def mmu_demo_def)
  show "va_ok (kv_va kvm_boot) [] (rev [0..<512])" "vmalloc_next (kv_va kvm_boot) = VMALLOC_START"
    using va_boot_ok by (simp_all add: kvm_boot_def va_boot_def)
qed


text \<open>
  C15 While no range has been freed and the pool of areas has room for the block, \<open>vmalloc\<close> ends. It answers null
  only when fewer than \<open>4 * (n + 2)\<close> pages are free or the address range is used up, and then every area and
  every page it took is given back; otherwise \<open>vfree\<close> of the block ends too and leaves the same areas and the
  same pages in use as before the \<open>vmalloc\<close>, but for pages that became page tables.
\<close>

theorem vmalloc_vfree_restores:
  assumes inv: "vmalloc_inv s as A" "va_ok (kv_va s) [] ps" and sz: "sz \<noteq> 0" and n: "n = unat ((sz + 4095) div 4096)"
    and room: "length as + n + 2 \<le> VMA_POOL_CAP"
  shows "\<exists>p s'. vmalloc sz s = Some (p, s') \<and>
    (p = 0 \<and> restored s as s' \<and>
       (pmm_pages_free (kv_pmm s) < 4 * (n + 2) \<or> unat VMALLOC_END < unat (vmalloc_next (kv_va s)) + 4096 * (n + 2)) \<or>
     p \<noteq> 0 \<and> (\<exists>s''. vfree p sz s' = Some s'' \<and> restored s as s''))"
proof -
  have "unat (of_nat n * 4096 + 2 * GUARD_SIZE :: u64) = 4096 * (n + 2)" using block_size(1) [of n] room by simp
  with vmalloc_first [OF inv sz n room refl] show ?thesis by (elim disjE exE conjE) auto
qed

theorem vmalloc_vfree_restores_witness:
  "\<exists>p s' s''. vmalloc 10000 kvm_boot = Some (p, s') \<and> p \<noteq> 0 \<and> vfree p 10000 s' = Some s'' \<and> restored kvm_boot [] s''"
proof -
  have "(3 :: nat) = unat (((10000 :: u64) + 4095) div 4096)" "length ([] :: area list) + 3 + 2 \<le> VMA_POOL_CAP"
    by (simp_all add: VMA_POOL_CAP_def)
  from vmalloc_vfree_restores [OF kvm_boot_inv kvm_boot_room(2) _ this] show ?thesis
    unfolding kvm_boot_room by (auto simp: VMALLOC_START_def VMALLOC_END_def)
qed

text \<open>The rounding of the size wraps: for a request of almost 2 ^ 64 bytes only the guard pages are mapped.\<close>

lemma vmalloc_size_wraps:
  assumes "2 ^ 64 - 4095 \<le> unat sz"
  shows "(sz + 4095) div 4096 = (0 :: u64)"
proof -
  have unat_lt: "unat sz < 2 ^ 64" using unsigned_less [of sz] by simp
  have "unat (sz + 4095) = (unat sz + 4095) mod 2 ^ 64" by (simp add: unat_word_ariths)
  also have "\<dots> = (unat sz + 4095 - 2 ^ 64) mod 2 ^ 64" using assms by (intro le_mod_geq) simp
  also have "\<dots> \<le> unat sz + 4095 - 2 ^ 64" by simp
  also have "\<dots> < 4096" using unat_lt by simp
  finally have "unat ((sz + 4095) div 4096) = 0" by (simp add: unat_div)
  then show ?thesis by (simp add: unat_eq_0)
qed

end
