(* ===== verification/Task.thy ===== *)
theory Task
  imports Sched Vmalloc
begin

text \<open>
  Creating tasks, \<open>src/kernel/sched/task.c\<close> lines 25-108: \<open>task_create\<close> takes memory for the task structure and
  the stack from \<open>vmalloc\<close> and a PID, fills the structure and adds it to the run queue and to the task
  list; \<open>task_init\<close> makes the idle task. The state is that of the scheduler and of the memory manager;
  a task structure is named by the address \<open>vmalloc\<close> gave it. Addresses of functions are symbols of the
  linker and a parameter. A loop that does not end, and what C leaves undefined, is \<open>None\<close>.
\<close>

section \<open>Definitions\<close>

definition KERNEL_STACK_SIZE :: u64 where "KERNEL_STACK_SIZE = 16384"

text \<open>\<open>sizeof(task_t)\<close>: 16 bytes for the three \<open>int\<close>s, 16 for the times, 272 for the registers, 32 for the pointers.\<close>

definition sizeof_task :: u64 where "sizeof_task = 336"

record task_args =
  args_argc :: int
  args_argv :: u64
  args_envp :: u64

record code_syms =
  sym_idle_task_entry :: u64
  sym_task_entry_wrapper :: u64
  sym_task_exit :: u64

record kern =
  k_sched :: sched_state
  k_vm :: kvm

text \<open>\<open>memset(task, 0, sizeof(task_t))\<close>; the state 0 is \<open>TASK_RUNNING\<close>.\<close>

definition zero_context :: cpu_context where
  "zero_context = \<lparr>ctx_x = (\<lambda>_. 0), ctx_sp = 0, ctx_pc = 0, ctx_pstate = 0\<rparr>"

definition zero_task :: task where
  "zero_task = \<lparr>t_pid = 0, t_state = TASK_RUNNING, t_priority = 0, t_time_slice = 0, t_vruntime = 0,
     t_context = zero_context, t_kernel_stack = 0, t_pgd = 0, t_next = None, t_prev = None\<rparr>"

definition clamp_nice :: "int \<Rightarrow> int" where
  "clamp_nice priority =
     (if priority < EEVDF_MIN_NICE then EEVDF_MIN_NICE
      else if priority > EEVDF_MAX_NICE then EEVDF_MAX_NICE else priority)"

definition initial_context :: "code_syms \<Rightarrow> u64 \<Rightarrow> task_args option \<Rightarrow> u64 \<Rightarrow> cpu_context" where
  "initial_context cs entry args kernel_stack =
     (let stack_top = (kernel_stack + KERNEL_STACK_SIZE) AND NOT 15
      in \<lparr>ctx_x = (\<lambda>_. 0)(19 := entry,
             20 := (case args of None \<Rightarrow> 0 | Some a \<Rightarrow> of_int (args_argc a)),
             21 := (case args of None \<Rightarrow> 0 | Some a \<Rightarrow> args_argv a),
             22 := (case args of None \<Rightarrow> 0 | Some a \<Rightarrow> args_envp a),
             23 := 0, 29 := 0, 30 := sym_task_exit cs),
          ctx_sp = stack_top, ctx_pc = sym_task_entry_wrapper cs, ctx_pstate = 0x345\<rparr>)"

text \<open>Lines 83-99: the registers and the run queue, when there is something to run.\<close>

definition task_start ::
  "code_syms \<Rightarrow> u64 \<Rightarrow> task_args option \<Rightarrow> u64 \<Rightarrow> sched_state \<Rightarrow> sched_state option" where
  "task_start cs entry args task s =
     (if entry \<noteq> 0 then do {
        let s = set_task task (t_context_update (\<lambda>_. initial_context cs entry args (t_kernel_stack (tk s task)))) s;
        rq \<leftarrow> eevdf_enqueue (Some task) (rqs s);
        Some (s\<lparr>rqs := rq\<rparr>)
      } else Some s)"

text \<open>Lines 101-105.\<close>

definition task_link :: "u64 \<Rightarrow> sched_state \<Rightarrow> sched_state" where
  "task_link task s =
     (let s = set_task task (t_next_update (\<lambda>_. task_list s)) s;
          s = (case task_list s of None \<Rightarrow> s | Some h \<Rightarrow> set_task h (t_prev_update (\<lambda>_. Some task)) s)
      in s\<lparr>task_list := Some task\<rparr>)"

text \<open>Lines 58-71, with the PID that was handed out.\<close>

definition task_fill :: "u64 \<Rightarrow> int \<Rightarrow> int \<Rightarrow> sched_state \<Rightarrow> sched_state" where
  "task_fill task pid priority s =
     set_task task (\<lambda>t. zero_task\<lparr>t_pid := pid, t_state := TASK_READY, t_priority := clamp_nice priority,
       t_time_slice := EEVDF_TIME_SLICE_NS, t_vruntime := 0\<rparr>) s"

definition task_create ::
  "code_syms \<Rightarrow> u64 \<Rightarrow> int \<Rightarrow> task_args option \<Rightarrow> kern \<Rightarrow> (task_ptr \<times> kern) option" where
  "task_create cs entry priority args s = do {
     (task, vm) \<leftarrow> vmalloc sizeof_task (k_vm s);
     let s = s\<lparr>k_vm := vm\<rparr>;
     if task = 0 then Some (None, s)
     else do {
       let sc = set_task task (\<lambda>_. zero_task) (k_sched s);
       (pid, b) \<leftarrow> pid_alloc (pids sc);
       let sc = set_task task (t_pid_update (\<lambda>_. pid)) (sc\<lparr>pids := b\<rparr>);
       if pid < 0 then do {
         vm \<leftarrow> vfree task sizeof_task (k_vm s);
         Some (None, s\<lparr>k_sched := sc, k_vm := vm\<rparr>)
       } else do {
         let sc = task_fill task pid priority sc;
         (kernel_stack, vm) \<leftarrow> vmalloc KERNEL_STACK_SIZE (k_vm s);
         let s = s\<lparr>k_vm := vm\<rparr>;
         let sc = set_task task (t_kernel_stack_update (\<lambda>_. kernel_stack)) sc;
         if kernel_stack = 0 then do {
           b \<leftarrow> pid_free pid (pids sc);
           vm \<leftarrow> vfree task sizeof_task (k_vm s);
           Some (None, s\<lparr>k_sched := sc\<lparr>pids := b\<rparr>, k_vm := vm\<rparr>)
         } else do {
           let sc = set_task task (t_pgd_update (\<lambda>_. mmu_get_ttbr1 (vmm_mmu (kv_vmm (k_vm s))))) sc;
           sc \<leftarrow> task_start cs entry args task sc;
           Some (Some task, s\<lparr>k_sched := task_link task sc\<rparr>) } } } }"

text \<open>\<open>Inl\<close> is the panic when there is no memory for the idle task.\<close>

definition task_init :: "code_syms \<Rightarrow> kern \<Rightarrow> (unit + kern) option" where
  "task_init cs s = do {
     let sc = k_sched s;
     let sc = sc\<lparr>pids := pid_init\<rparr>;
     let sc = sc\<lparr>rqs := eevdf_init (rqs sc)\<rparr>;
     (idle, s) \<leftarrow> task_create cs (sym_idle_task_entry cs) 0 None (s\<lparr>k_sched := sc\<rparr>);
     case idle of None \<Rightarrow> Some (Inl ())
     | Some idle \<Rightarrow> do {
         let sc = set_task idle (t_pid_update (\<lambda>_. 0)) (k_sched s);
         rq \<leftarrow> eevdf_dequeue (Some idle) (rqs sc);
         let sc = set_task idle (t_state_update (\<lambda>_. TASK_RUNNING)) (sc\<lparr>rqs := rq\<rparr>);
         Some (Inr (s\<lparr>k_sched := sc\<lparr>current_task := Some idle\<rparr>\<rparr>)) } }"

text \<open>The call that \<open>task_entry_wrapper\<close> makes: function, \<open>argc\<close>, \<open>argv\<close>, \<open>envp\<close>; a null current task is undefined.\<close>

definition task_entry_wrapper :: "sched_state \<Rightarrow> (u64 \<times> int \<times> u64 \<times> u64) option" where
  "task_entry_wrapper s = do {
     task \<leftarrow> task_current s;
     let c = t_context (tk s task);
     Some (ctx_x c 19, sint (ucast (ctx_x c 20) :: u32), ctx_x c 21, ctx_x c 22) }"

section \<open>Lemmas\<close>

subsection \<open>The scheduler's part\<close>

lemma clamp_nice_weight: "weight_of (clamp_nice p) \<noteq> None"
  by (auto simp: clamp_nice_def weight_of_def EEVDF_MIN_NICE_def EEVDF_MAX_NICE_def eevdf_nice_to_weight_def)

lemma task_link_simps [simp]:
  "current_task (task_link t s) = current_task s" "pids (task_link t s) = pids s" "task_list (task_link t s) = Some t"
  by (auto simp: task_link_def Let_def split: option.split)

text \<open>Only links change.\<close>

lemma task_link_fields:
  "rqs (task_link t s) = (rqs s)\<lparr>tasks := tk (task_link t s)\<rparr>"
  "t_pid (tk (task_link t s) x) = t_pid (tk s x)" "t_state (tk (task_link t s) x) = t_state (tk s x)"
  "t_priority (tk (task_link t s) x) = t_priority (tk s x)" "t_vruntime (tk (task_link t s) x) = t_vruntime (tk s x)"
  "t_context (tk (task_link t s) x) = t_context (tk s x)" "t_kernel_stack (tk (task_link t s) x) = t_kernel_stack (tk s x)"
  by (auto simp: task_link_def Let_def split: option.split)

lemma dlist_link:
  assumes "dlist (tk s) None (task_list s) ts" "distinct ts" "t \<notin> set ts" "t_prev (tk s t) = None"
  shows "dlist (tk (task_link t s)) None (Some t) (t # ts)"
proof (cases ts)
  case Nil
  then show ?thesis using assms by (auto simp: task_link_def)
next
  case (Cons h ts')
  then have "task_list s = Some h" "h \<noteq> t" "h \<notin> set ts'" "t \<notin> set ts'" using assms by auto
  then show ?thesis using assms Cons by (auto simp: task_link_def)
qed

text \<open>A new task joins queue and list.\<close>

lemma sched_inv_new:
  assumes inv: "sched_inv s q ts r" and t: "t \<notin> set ts" and x: "t_state x = TASK_READY" "weight_of (t_priority x) \<noteq> None"
      "t_pid x \<noteq> 0" "t_prev x = None"
    and room: "length q + (case r of None \<Rightarrow> 0 | Some c \<Rightarrow> if t_pid (tk s c) = 0 then 0 else 1) < 64"
  defines "s0 \<equiv> set_task t (\<lambda>_. x) s"
  shows "\<exists>rq. eevdf_enqueue (Some t) (rqs s0) = Some rq \<and>
    sched_inv (task_link t (s0\<lparr>rqs := rq\<rparr>)) (queue_add (vr rq) t q) (t # ts) r \<and>
    tasks rq = (tk s)(t := x\<lparr>t_vruntime := max (t_vruntime x) (rq_min_vruntime (rqs s))\<rparr>)"
proof -
  have tq: "t \<notin> set q" using sched_inv_mem(1) [OF inv, of t] t by blast
  have q0: "rq_queue (rqs s0) q" unfolding s0_def set_task_simps
    by (rule rq_queue_cong [OF sched_inv_mem(3) [OF inv]]) (use tq in auto)
  have "length q < 64" using room by simp
  from enqueue_spec [OF q0 tq _ _ this] obtain rq where rq: "eevdf_enqueue (Some t) (rqs s0) = Some rq"
    "rq_queue rq (queue_add (vr rq) t q)" "tasks rq = (tk s)(t := x\<lparr>t_vruntime := max (t_vruntime x) (rq_min_vruntime (rqs s))\<rparr>)"
    using x by (auto simp: s0_def)
  define s1 where "s1 = s0\<lparr>rqs := rq\<rparr>"
  define s2 where "s2 = task_link t s1"
  have tk1: "tk s1 = (tk s)(t := x\<lparr>t_vruntime := max (t_vruntime x) (rq_min_vruntime (rqs s))\<rparr>)" by (simp add: s1_def rq(3))
  note f = task_link_fields [of t s1, folded s2_def]
  have "rqs s1 = rq" by (simp add: s1_def)
  note e = f(1) [unfolded this]
  have "rq_queue (rq\<lparr>tasks := tk s2\<rparr>) (queue_add (vr rq) t q)"
    by (rule rq_queue_cong [OF rq(2)]) (use f(4,5) in \<open>simp add: s1_def\<close>)
  then have q2: "rq_queue (rqs s2) (queue_add (vr rq) t q)" unfolding e [symmetric] .
  have "dlist (tk s1) None (task_list s1) ts"
    using inv t unfolding tk1 by (simp add: s1_def s0_def sched_inv_defs)
  then have l: "dlist (tk s2) None (task_list s2) (t # ts)"
    unfolding s2_def task_link_simps by (rule dlist_link) (use inv t x in \<open>auto simp: sched_inv_defs tk1\<close>)
  have r: "r \<noteq> Some t" using inv t by (auto simp: sched_inv_defs)
  have idle: "{p \<in> set (t # ts). t_pid (tk s2 p) = 0} = {p \<in> set ts. t_pid (tk s p) = 0}" using t x(3) by (auto simp: f(2-7) tk1)
  have "sched_inv s2 (queue_add (vr rq) t q) (t # ts) r"
    unfolding sched_inv_defs idle
  proof (intro conjI)
    show "set (queue_add (vr rq) t q) = {p \<in> set (t # ts). t_state (tk s2 p) = TASK_READY \<and> t_pid (tk s2 p) \<noteq> 0}"
      using sched_inv_mem(1) [OF inv] t x by (auto simp: f(2-7) tk1)
    show "\<forall>p \<in> set (t # ts). weight_of (t_priority (tk s2 p)) \<noteq> None \<and> (t_state (tk s2 p) = TASK_RUNNING) = (r = Some p)"
      using inv t x r by (auto simp: f(2-7) tk1 sched_inv_defs)
    show "length (queue_add (vr rq) t q) + (case r of None \<Rightarrow> 0 | Some c \<Rightarrow> if t_pid (tk s2 c) = 0 then 0 else 1) \<le> 64"
      using room r by (auto simp: f(2-7) tk1 split: option.splits)
  qed (use q2 l inv t in \<open>auto simp: sched_inv_defs\<close>)
  then show ?thesis using rq by (auto simp: s2_def s1_def)
qed

subsection \<open>The memory's part\<close>

text \<open>Every task structure lies in a live range.\<close>

definition tasks_in :: "u64 list \<Rightarrow> (u64 \<times> u64) list \<Rightarrow> bool" where
  "tasks_in ts A \<longleftrightarrow> (\<forall>p \<in> set ts. \<exists>r \<in> set A. unat (fst r) \<le> unat p \<and> unat p < unat (fst r) + unat (snd r))"

lemma tasks_in_mono: "tasks_in ts A \<Longrightarrow> tasks_in ts (r # A)"
  by (auto simp: tasks_in_def)

lemma tasks_in_new:
  assumes "tasks_in ts A" "\<forall>r \<in> set A. apart (base, ttl) r" "unat base \<le> unat t" "unat t < unat base + unat ttl"
  shows "t \<notin> set ts" "tasks_in (t # ts) ((base, ttl) # A)"
proof -
  show "t \<notin> set ts"
  proof
    assume "t \<in> set ts"
    then obtain r where "r \<in> set A" "unat (fst r) \<le> unat t" "unat t < unat (fst r) + unat (snd r)"
      using assms(1) by (auto simp: tasks_in_def)
    then show False using assms(2-4) by (auto simp: apart_def)
  qed
  show "tasks_in (t # ts) ((base, ttl) # A)" using assms by (auto simp: tasks_in_def)
qed

text \<open>A block from \<open>vmalloc\<close>, for the two sizes that tasks need, when pages and addresses suffice.\<close>

lemma vmalloc_task_block:
  assumes inv: "vmalloc_inv s as A" "va_ok (kv_va s) [] ps" and sz: "sz = sizeof_task \<and> n = 1 \<or> sz = KERNEL_STACK_SIZE \<and> n = 4"
    and room: "length as + n + 2 \<le> VMA_POOL_CAP"
    and mem: "4 * (n + 2) \<le> kv_free s" "unat (vmalloc_next (kv_va s)) + (n + 2) * 4096 \<le> unat VMALLOC_END"
  shows "\<exists>p s' as' ps' base. vmalloc sz s = Some (p, s') \<and> p \<noteq> 0 \<and>
    page_aligned p \<and> unat p = unat base + 4096 \<and> unat p + n * 4096 + 4096 < 2 ^ 64 \<and>
    (\<forall>r \<in> set A. apart (base, of_nat ((n + 2) * 4096)) r) \<and> vmalloc_inv s' as' ((base, of_nat ((n + 2) * 4096)) # A) \<and>
    va_ok (kv_va s') [] ps' \<and> length as' \<le> length as + n + 2 \<and> kv_free s \<le> kv_free s' + 4 * (n + 2) \<and>
    unat (vmalloc_next (kv_va s')) = unat (vmalloc_next (kv_va s)) + (n + 2) * 4096 \<and>
    (\<exists>s''. vfree p sz s' = Some s'' \<and> restored s as s'')"
proof -
  have n: "n = unat ((sz + 4095) div 4096)" "sz \<noteq> 0" using sz by (auto simp: sizeof_task_def KERNEL_STACK_SIZE_def)
  have ttl: "(of_nat ((n + 2) * 4096) :: u64) = of_nat n * 4096 + 2 * GUARD_SIZE" by (simp add: GUARD_SIZE_def)
  have u: "unat (of_nat ((n + 2) * 4096) :: u64) = (n + 2) * 4096" using sz by auto
  have no: "\<not> kv_free s < 4 * (n + 2)" "\<not> unat VMALLOC_END < unat (vmalloc_next (kv_va s)) + unat (of_nat ((n + 2) * 4096) :: u64)"
    unfolding u using mem by linarith+
  from vmalloc_first [OF inv n(2,1) room ttl] show ?thesis
  proof (elim disjE exE conjE)
    fix base s' as' ps' s''
    assume m: "vmalloc sz s = Some (base + 4096, s')" "base + 4096 \<noteq> 0" "page_aligned base"
      "unat base + unat (of_nat ((n + 2) * 4096) :: u64) < 2 ^ 64" "\<forall>r \<in> set A. apart (base, of_nat ((n + 2) * 4096)) r"
      "vmalloc_inv s' as' ((base, of_nat ((n + 2) * 4096)) # A)" "va_ok (kv_va s') [] ps'" "length as' \<le> length as + n + 2"
      "kv_free s \<le> kv_free s' + 4 * (n + 2)"
      "unat (vmalloc_next (kv_va s')) = unat (vmalloc_next (kv_va s)) + unat (of_nat ((n + 2) * 4096) :: u64)"
      "vfree (base + 4096) sz s' = Some s''" "restored s as s''"
    have p: "unat (base + 4096) = unat base + 4096" using m(4) unfolding u by (simp add: unat_add_nowrap)
    have "page_aligned (base + 4096)" using m(3) by (intro page_aligned_add) (simp_all add: page_aligned_def)
    then show ?thesis using m(1,2,5-9,11,12) m(4,10) [unfolded u] p
      by (intro exI [of _ "base + 4096"] exI [of _ s'] exI [of _ as'] exI [of _ ps'] exI [of _ base] exI [of _ s'']) auto
  qed (use no in blast)+
qed

subsection \<open>Creating a task\<close>

text \<open>The structure of a new task, before it is queued.\<close>

definition new_task :: "code_syms \<Rightarrow> u64 \<Rightarrow> int \<Rightarrow> task_args option \<Rightarrow> int \<Rightarrow> u64 \<Rightarrow> u64 \<Rightarrow> task" where
  "new_task cs entry priority args pid stack pgd =
     zero_task\<lparr>t_pid := pid, t_state := TASK_READY, t_priority := clamp_nice priority, t_time_slice := EEVDF_TIME_SLICE_NS,
       t_kernel_stack := stack, t_pgd := pgd, t_context := initial_context cs entry args stack\<rparr>"

lemma pid_alloc_free:
  assumes "\<not> pid_taken b i" "0 < i" "i < MAX_PID"
  shows "\<exists>k b'. pid_alloc b = Some (int k, b') \<and> 0 < k \<and> k < MAX_PID \<and> \<not> pid_taken b k \<and>
    (\<forall>j. 0 < j \<and> j < k \<longrightarrow> pid_taken b j) \<and> pid_taken b' = (pid_taken b)(k := True)"
  using pb.first_clear [of 1 MAX_PID int b] assms by (fastforce simp: pid_alloc_def MAX_PID_def Suc_le_eq)

lemma pid_alloc_none:
  assumes "\<forall>j. 0 < j \<and> j < MAX_PID \<longrightarrow> pid_taken b j"
  shows "pid_alloc b = Some (-1, b)"
  using pb.first_clear [of 1 MAX_PID int b] assms by (fastforce simp: pid_alloc_def MAX_PID_def Suc_le_eq)

text \<open>\<open>task_create\<close> when there is memory and a PID.\<close>

lemma task_create_runs:
  assumes v: "vmalloc sizeof_task (k_vm s) = Some (t, vm1)" "t \<noteq> 0" "vmalloc KERNEL_STACK_SIZE vm1 = Some (stack, vm2)" "stack \<noteq> 0"
    and p: "pid_alloc (pids (k_sched s)) = Some (int k, b)" and entry: "entry \<noteq> 0"
    and x: "x = new_task cs entry priority args (int k) stack (ttbr1_el1 (vmm_mmu (kv_vmm vm2)))"
    and e: "eevdf_enqueue (Some t) (rqs (set_task t (\<lambda>_. x) ((k_sched s)\<lparr>pids := b\<rparr>))) = Some rq"
  shows "task_create cs entry priority args s = Some (Some t,
    s\<lparr>k_vm := vm2, k_sched := task_link t ((set_task t (\<lambda>_. x) ((k_sched s)\<lparr>pids := b\<rparr>))\<lparr>rqs := rq\<rparr>)\<rparr>)"
proof -
  have eq: "set_task t f (set_task t g sc) = set_task t (f \<circ> g) sc" for f g sc by (simp add: set_task_def)
  have sw: "(set_task t g sc)\<lparr>pids := b\<rparr> = set_task t g (sc\<lparr>pids := b\<rparr>)" for g sc by (simp add: set_task_def)
  have tf: "task_fill t pid pr sc = set_task t (\<lambda>_. zero_task\<lparr>t_pid := pid, t_state := TASK_READY, t_priority := clamp_nice pr,
       t_time_slice := EEVDF_TIME_SLICE_NS, t_vruntime := 0\<rparr>) sc" for pid pr sc by (simp add: task_fill_def)
  have x': "x = zero_task\<lparr>t_pid := int k, t_state := TASK_READY, t_priority := clamp_nice priority, t_time_slice := EEVDF_TIME_SLICE_NS,
      t_vruntime := 0, t_kernel_stack := stack, t_pgd := ttbr1_el1 (vmm_mmu (kv_vmm vm2)),
      t_context := initial_context cs entry args stack\<rparr>"
    by (simp add: x new_task_def zero_task_def)
  show ?thesis
    using v p entry e unfolding x'
    by (simp add: task_create_def Let_def tf eq sw task_start_def comp_def mmu_get_ttbr1_def)
qed


text \<open>A state of scheduler and memory that \<open>task_create\<close> may start from.\<close>

definition kern_ok :: "kern \<Rightarrow> u64 list \<Rightarrow> u64 list \<Rightarrow> area list \<Rightarrow> (u64 \<times> u64) list \<Rightarrow> bool" where
  "kern_ok s q ts as A \<longleftrightarrow> sched_ok (k_sched s) q ts \<and> vmalloc_inv (k_vm s) as A \<and>
     (\<exists>ps. va_ok (kv_va (k_vm s)) [] ps) \<and> tasks_in ts A"

text \<open>The registers a new task starts with: the top of the stack needs no rounding.\<close>

lemma initial_context_sp:
  assumes "page_aligned stack"
  shows "ctx_sp (initial_context syms entry args stack) = stack + 16384"
proof -
  have "page_aligned (stack + 16384)" using assms by (intro page_aligned_add) (simp_all add: page_aligned_def)
  then have b: "\<not> bit (stack + 16384) i" if "i < 12" for i using that by (simp add: page_aligned_bits)
  have m: "(15 :: u64) = mask 4" by (simp add: mask_eq_exp_minus_1)
  have "(stack + 16384) AND NOT 15 = stack + 16384"
    unfolding m by (rule bit_word_eqI) (use b in \<open>auto simp: bit_simps\<close>)
  then show ?thesis by (simp add: initial_context_def Let_def KERNEL_STACK_SIZE_def)
qed

text \<open>Memory for a task: a structure and a stack, in 36 pages at most.\<close>

lemma task_memory:
  assumes inv: "vmalloc_inv vm as A" "va_ok (kv_va vm) [] ps" and room: "length as + 9 \<le> VMA_POOL_CAP"
    and mem: "36 \<le> kv_free vm" "unat (vmalloc_next (kv_va vm)) + 36864 \<le> unat VMALLOC_END"
  shows "\<exists>t vm1 vm0 stack vm2 as' ps' b1 b2. vmalloc sizeof_task vm = Some (t, vm1) \<and> t \<noteq> 0 \<and> vmalloc KERNEL_STACK_SIZE vm1 = Some (stack, vm2) \<and>
      stack \<noteq> 0 \<and> page_aligned stack \<and> unat t = unat b1 + 4096 \<and> unat stack = unat b2 + 4096 \<and>
      (\<forall>r \<in> set A. apart (b1, 12288) r) \<and> vmalloc_inv vm2 as' ((b2, 24576) # (b1, 12288) # A) \<and> va_ok (kv_va vm2) [] ps' \<and>
      length as' \<le> length as + 9 \<and> vfree t sizeof_task vm1 = Some vm0 \<and> restored vm as vm0"
proof -
  have "length as + 1 + 2 \<le> VMA_POOL_CAP" "4 * (1 + 2) \<le> kv_free vm" "unat (vmalloc_next (kv_va vm)) + (1 + 2) * 4096 \<le> unat VMALLOC_END"
    using room mem by simp_all
  from vmalloc_task_block [OF inv disjI1 [OF conjI [OF refl refl]] this]
  obtain t vm1 as1 ps1 b1 vm0 where 1: "vmalloc sizeof_task vm = Some (t, vm1)" "t \<noteq> 0" "unat t = unat b1 + 4096" "\<forall>r \<in> set A. apart (b1, 12288) r"
      "vmalloc_inv vm1 as1 ((b1, 12288) # A)" "va_ok (kv_va vm1) [] ps1" "length as1 \<le> length as + 3" "kv_free vm \<le> kv_free vm1 + 12"
      "unat (vmalloc_next (kv_va vm1)) = unat (vmalloc_next (kv_va vm)) + 12288" "vfree t sizeof_task vm1 = Some vm0" "restored vm as vm0" by auto
  have "length as1 + 4 + 2 \<le> VMA_POOL_CAP" "4 * (4 + 2) \<le> kv_free vm1" "unat (vmalloc_next (kv_va vm1)) + (4 + 2) * 4096 \<le> unat VMALLOC_END"
    using room mem 1(7-9) by simp_all
  from vmalloc_task_block [OF 1(5,6) disjI2 [OF conjI [OF refl refl]] this]
  obtain stack vm2 as2 ps2 b2 where "vmalloc KERNEL_STACK_SIZE vm1 = Some (stack, vm2)" "stack \<noteq> 0" "page_aligned stack" "unat stack = unat b2 + 4096"
        "vmalloc_inv vm2 as2 ((b2, 24576) # (b1, 12288) # A)" "va_ok (kv_va vm2) [] ps2" "length as2 \<le> length as + 9"
    using 1(7) by auto
  with 1(1-4,10,11) show ?thesis by blast
qed

lemma sched_inv_pids: "sched_inv (s\<lparr>pids := b\<rparr>) q ts r = sched_inv s q ts r"
  by (cases r) (simp_all add: sched_inv_defs)



text \<open>One idle task, in a block of its own.\<close>

definition demo_kern :: kern where
  "demo_kern = \<lparr>k_sched = \<lparr>rqs = demo_rq\<lparr>tasks := (\<lambda>_. demo_task\<lparr>t_pid := 0, t_state := TASK_RUNNING\<rparr>)\<rparr>,
       current_task = Some (VMALLOC_START + 4096), task_list = Some (VMALLOC_START + 4096), pids = pid_init\<rparr>,
     k_vm = kvm_boot\<lparr>kv_va := va_boot\<lparr>vmalloc_next := VMALLOC_START + 12288\<rparr>\<rparr>\<rparr>"

definition demo_syms :: code_syms where
  "demo_syms = \<lparr>sym_idle_task_entry = 4, sym_task_entry_wrapper = 8, sym_task_exit = 12\<rparr>"

lemma demo_kern_ok: "kern_ok demo_kern [] [VMALLOC_START + 4096] [] [(VMALLOC_START, 12288)]"
proof -
  let ?va = "va_boot\<lparr>vmalloc_next := VMALLOC_START + 12288\<rparr>"
  have va: "va_ok ?va [] (rev [0..<512])" using va_boot_ok by (simp add: va_ok_def)
  have parts: "va_parts (ranges ?va [] @ [(VMALLOC_START, 12288)]) (vmalloc_next ?va)"
    by (simp add: va_parts_def ranges_def VMALLOC_START_def VMALLOC_END_def)
  have al: "va_aligned (ranges ?va []) (vmalloc_next ?va)" by (simp add: va_aligned_def ranges_def VMALLOC_START_def page_aligned_def)
  have "kv_inv kvm_boot []" using kvm_boot_inv by (simp add: vmalloc_inv_def)
  then have "kv_inv (kvm_boot\<lparr>kv_va := ?va\<rparr>) []" by (simp add: kv_inv_def)
  then have "vmalloc_inv (kvm_boot\<lparr>kv_va := ?va\<rparr>) [] [(VMALLOC_START, 12288)]"
    unfolding vmalloc_inv_def using va parts al by (auto simp: areas_in_def)
  moreover have "rq_queue (rqs (k_sched demo_kern)) []"
    unfolding demo_kern_def by simp (rule rq_queue_cong [OF demo_rq_queue(1)], simp)
  then have "sched_ok (k_sched demo_kern) [] [VMALLOC_START + 4096]"
    by (auto simp: sched_ok_def sched_inv_defs demo_kern_def demo_task_def demo_rq_queue(3))
  moreover have "tasks_in [VMALLOC_START + 4096] [(VMALLOC_START, 12288)]" by (simp add: tasks_in_def VMALLOC_START_def)
  ultimately show ?thesis using va by (auto simp: kern_ok_def demo_kern_def)
qed


subsection \<open>The first task\<close>

lemma pid_alloc_boot: "\<exists>b. pid_alloc pid_init = Some (int 1, b) \<and> pid_taken b = (pid_taken pid_init)(1 := True)"
proof -
  obtain k b where k: "pid_alloc pid_init = Some (int k, b)" "0 < k" "\<forall>j. 0 < j \<and> j < k \<longrightarrow> pid_taken pid_init j"
    "pid_taken b = (pid_taken pid_init)(k := True)"
    using pid_alloc_free [of pid_init 1] by (auto simp: pid_taken_init MAX_PID_def)
  have "\<not> 1 < k" using k(3) pid_taken_init [of 1] by fastforce
  then have "k = 1" using k(2) by simp
  then show ?thesis using k by blast
qed

text \<open>The idle task joins an empty scheduler and leaves the queue again.\<close>

lemma idle_starts:
  fixes t :: u64
  assumes l: "task_list s = None" and q: "rq_queue (rqs s) []" and x: "t_state x = TASK_READY" "weight_of (t_priority x) \<noteq> None" "t_prev x = None"
  defines "s0 \<equiv> set_task t (\<lambda>_. x) s"
  shows "\<exists>rq rq'. eevdf_enqueue (Some t) (rqs s0) = Some rq \<and>
    eevdf_dequeue (Some t) (rqs (set_task t (t_pid_update (\<lambda>_. 0)) (task_link t (s0\<lparr>rqs := rq\<rparr>)))) = Some rq' \<and>
    sched_ok (set_task t (t_state_update (\<lambda>_. TASK_RUNNING)) ((set_task t (t_pid_update (\<lambda>_. 0)) (task_link t (s0\<lparr>rqs := rq\<rparr>)))\<lparr>rqs := rq'\<rparr>)
      \<lparr>current_task := Some t\<rparr>) [] [t] \<and>
    tasks rq' = tk (set_task t (t_pid_update (\<lambda>_. 0)) (task_link t (s0\<lparr>rqs := rq\<rparr>))) \<and> t_kernel_stack (tasks rq t) = t_kernel_stack x"
proof -
  have q0: "rq_queue (rqs s0) []" unfolding s0_def set_task_simps by (rule rq_queue_cong [OF q]) simp
  from enqueue_spec [OF q0, of t] obtain rq where rq: "eevdf_enqueue (Some t) (rqs s0) = Some rq" "rq_queue rq [t]"
    "tasks rq = (tk s)(t := x\<lparr>t_vruntime := max (t_vruntime x) (rq_min_vruntime (rqs s))\<rparr>)"
    using x by (auto simp: s0_def queue_add_def)
  define s1 where "s1 = set_task t (t_pid_update (\<lambda>_. 0)) (task_link t (s0\<lparr>rqs := rq\<rparr>))"
  have s1: "rqs s1 = rq\<lparr>tasks := tk s1\<rparr>" "task_list s1 = Some t"
    "tk s1 t = x\<lparr>t_pid := 0, t_next := None, t_vruntime := max (t_vruntime x) (rq_min_vruntime (rqs s))\<rparr>"
    using l by (auto simp: s1_def s0_def task_link_def rq(3))
  have "rq_queue (rq\<lparr>tasks := tk s1\<rparr>) [t]" by (rule rq_queue_cong [OF rq(2)]) (simp add: s1(3) rq(3))
  then have "rq_queue (rqs s1) [t]" unfolding s1(1) [symmetric] .
  from dequeue_spec [OF this, of t] obtain rq' where rq': "eevdf_dequeue (Some t) (rqs s1) = Some rq'" "rq_queue rq' []" "tasks rq' = tk s1"
    by auto
  define s2 where "s2 = (set_task t (t_state_update (\<lambda>_. TASK_RUNNING)) (s1\<lparr>rqs := rq'\<rparr>))\<lparr>current_task := Some t\<rparr>"
  have s2: "rqs s2 = rq'\<lparr>tasks := tk s2\<rparr>" "current_task s2 = Some t" "task_list s2 = Some t" "tk s2 t = (tk s1 t)\<lparr>t_state := TASK_RUNNING\<rparr>"
    by (simp_all add: s2_def s1(2) rq'(3))
  have "rq_queue (rq'\<lparr>tasks := tk s2\<rparr>) []" by (rule rq_queue_cong [OF rq'(2)]) simp
  then have "rq_queue (rqs s2) []" unfolding s2(1) [symmetric] .
  then have "sched_ok s2 [] [t]" using x s1(3) s2(2-4) by (auto simp: sched_ok_def sched_inv_defs)
  then show ?thesis using rq(1) rq'(1,3) rq(3) unfolding s2_def s1_def by (intro exI [of _ rq] exI [of _ rq']) simp
qed

text \<open>
  C11 \<open>task_init\<close> at boot, with no task yet. When \<open>vmalloc\<close> has no memory for the idle task it panics. With 36 free
  pages, 36 KiB of addresses and nine areas it ends without a panic: there is one task afterwards, running
  and with PID 0, in a block of its own and with a stack in another one; the queue is empty and the invariants of
  scheduler and memory hold. PID 1, which \<open>task_create\<close> took for the idle task, stays taken although no task
  has it.
\<close>

theorem task_init_ok:
  assumes l: "task_list (k_sched s) = None" and vm: "vmalloc_inv (k_vm s) as A" "va_ok (kv_va (k_vm s)) [] ps"
    and room: "length as + 9 \<le> VMA_POOL_CAP" and entry: "sym_idle_task_entry syms \<noteq> 0"
  shows "(\<forall>vm. vmalloc sizeof_task (k_vm s) = Some (0, vm) \<longrightarrow> task_init syms s = Some (Inl ())) \<and>
    (36 \<le> pmm_pages_free (kv_pmm (k_vm s)) \<and> unat (vmalloc_next (kv_va (k_vm s))) + 36864 \<le> unat VMALLOC_END \<longrightarrow>
      (\<exists>t s' as' b1 b2. task_init syms s = Some (Inr s') \<and> kern_ok s' [] [t] as' ((b2, 24576) # (b1, 12288) # A) \<and>
        current_task (k_sched s') = Some t \<and> t_pid (tk (k_sched s') t) = 0 \<and> unat t = unat b1 + 4096 \<and>
        unat (t_kernel_stack (tk (k_sched s') t)) = unat b2 + 4096 \<and> (\<forall>j. pid_taken (pids (k_sched s')) j \<longleftrightarrow> j \<le> 1)))"
proof -
  define sc where "sc = (k_sched s)\<lparr>pids := pid_init, rqs := eevdf_init (rqs (k_sched s))\<rparr>"
  define s0 where "s0 = s\<lparr>k_sched := sc\<rparr>"
  have init: "task_init syms s = (task_create syms (sym_idle_task_entry syms) 0 None s0 \<bind> (\<lambda>(idle, s). case idle of None \<Rightarrow> Some (Inl ())
     | Some idle \<Rightarrow> do {
         let sc = set_task idle (t_pid_update (\<lambda>_. 0)) (k_sched s);
         rq \<leftarrow> eevdf_dequeue (Some idle) (rqs sc);
         let sc = set_task idle (t_state_update (\<lambda>_. TASK_RUNNING)) (sc\<lparr>rqs := rq\<rparr>);
         Some (Inr (s\<lparr>k_sched := sc\<lparr>current_task := Some idle\<rparr>\<rparr>)) }))"
    by (simp add: task_init_def s0_def sc_def Let_def)
  have s0: "k_vm s0 = k_vm s" "k_sched s0 = sc" by (simp_all add: s0_def)
  show ?thesis
  proof (intro conjI allI impI)
    fix vm1 assume "vmalloc sizeof_task (k_vm s) = Some (0, vm1)"
    then have "task_create syms (sym_idle_task_entry syms) 0 None s0 = Some (None, s0\<lparr>k_vm := vm1\<rparr>)" by (simp add: task_create_def s0)
    then show "task_init syms s = Some (Inl ())" unfolding init by simp
  next
    assume mm: "36 \<le> kv_free (k_vm s) \<and> unat (vmalloc_next (kv_va (k_vm s))) + 36864 \<le> unat VMALLOC_END"
    from task_memory [OF vm room] mm obtain t vm1 stack vm2 as' ps' b1 b2 where
      mem: "vmalloc sizeof_task (k_vm s0) = Some (t, vm1)" "t \<noteq> 0" "vmalloc KERNEL_STACK_SIZE vm1 = Some (stack, vm2)"
        "stack \<noteq> 0" "unat t = unat b1 + 4096" "unat stack = unat b2 + 4096"
        "vmalloc_inv vm2 as' ((b2, 24576) # (b1, 12288) # A)" "va_ok (kv_va vm2) [] ps'"
      unfolding s0(1) by blast
    obtain b where b: "pid_alloc pid_init = Some (int 1, b)" "pid_taken b = (pid_taken pid_init)(1 := True)" using pid_alloc_boot by blast
    have pid: "pid_alloc (pids (k_sched s0)) = Some (int 1, b)" using b(1) by (simp add: s0 sc_def)
    define x where "x = new_task syms (sym_idle_task_entry syms) 0 None (int 1) stack (ttbr1_el1 (vmm_mmu (kv_vmm vm2)))"
    have xf: "t_state x = TASK_READY" "weight_of (t_priority x) \<noteq> None" "t_prev x = None" "t_kernel_stack x = stack"
      using clamp_nice_weight [of 0] by (simp_all add: x_def new_task_def zero_task_def)
    define s1 where "s1 = set_task t (\<lambda>_. x) ((k_sched s0)\<lparr>pids := b\<rparr>)"
    have "task_list ((k_sched s0)\<lparr>pids := b\<rparr>) = None" "rq_queue (rqs ((k_sched s0)\<lparr>pids := b\<rparr>)) []"
      using l eevdf_init_queue by (simp_all add: s0 sc_def)
    from idle_starts [OF this xf(1-3), of t, folded s1_def] obtain rq rq' where rq: "eevdf_enqueue (Some t) (rqs s1) = Some rq"
      "eevdf_dequeue (Some t) (rqs (set_task t (t_pid_update (\<lambda>_. 0)) (task_link t (s1\<lparr>rqs := rq\<rparr>)))) = Some rq'"
      "sched_ok (set_task t (t_state_update (\<lambda>_. TASK_RUNNING)) ((set_task t (t_pid_update (\<lambda>_. 0)) (task_link t (s1\<lparr>rqs := rq\<rparr>)))\<lparr>rqs := rq'\<rparr>)
        \<lparr>current_task := Some t\<rparr>) [] [t]"
      "tasks rq' = tk (set_task t (t_pid_update (\<lambda>_. 0)) (task_link t (s1\<lparr>rqs := rq\<rparr>)))" "t_kernel_stack (tasks rq t) = t_kernel_stack x" by blast
    note run = task_create_runs [OF mem(1-4) pid entry x_def rq(1) [unfolded s1_def], folded s1_def]
    define s2 where "s2 = (set_task t (t_pid_update (\<lambda>_. 0)) (task_link t (s1\<lparr>rqs := rq\<rparr>)))\<lparr>rqs := rq'\<rparr>"
    define s3 where "s3 = (set_task t (t_state_update (\<lambda>_. TASK_RUNNING)) s2)\<lparr>current_task := Some t\<rparr>"
    have tm: "tasks rq' = tk (set_task t (t_pid_update (\<lambda>_. 0)) (task_link t (s1\<lparr>rqs := rq\<rparr>)))" using rq(4) .
    have s3: "current_task s3 = Some t" "pids s3 = b" "t_pid (tk s3 t) = 0" "t_kernel_stack (tk s3 t) = stack"
      using xf(4) rq(5) by (simp_all add: s3_def s2_def s1_def tm task_link_fields(2-7))
    have "task_init syms s = Some (Inr (s0\<lparr>k_vm := vm2, k_sched := s3\<rparr>))"
      unfolding init run using rq(2) by (simp add: s3_def s2_def)
    moreover have "kern_ok (s0\<lparr>k_vm := vm2, k_sched := s3\<rparr>) [] [t] as' ((b2, 24576) # (b1, 12288) # A)"
      using rq(3) mem(5-8) by (auto simp: kern_ok_def s3_def s2_def tasks_in_def)
    moreover have "pid_taken b j \<longleftrightarrow> j \<le> 1" for j using b(2) by (auto simp: pid_taken_init)
    ultimately show "\<exists>t s' as' b1 b2. task_init syms s = Some (Inr s') \<and> kern_ok s' [] [t] as' ((b2, 24576) # (b1, 12288) # A) \<and>
        current_task (k_sched s') = Some t \<and> t_pid (tk (k_sched s') t) = 0 \<and> unat t = unat b1 + 4096 \<and>
        unat (t_kernel_stack (tk (k_sched s') t)) = unat b2 + 4096 \<and> (\<forall>j. pid_taken (pids (k_sched s')) j \<longleftrightarrow> j \<le> 1)" using s3 mem(5,6)
      by (intro exI [of _ t] exI [of _ "s0\<lparr>k_vm := vm2, k_sched := s3\<rparr>"] exI [of _ as'] exI [of _ b1] exI [of _ b2]) simp
  qed
qed

text \<open>The state at boot, all of it zero but the memory manager.\<close>

definition kern_boot :: kern where
  "kern_boot = \<lparr>k_sched = \<lparr>rqs = demo_rq, current_task = None, task_list = None, pids = pid_init\<rparr>, k_vm = kvm_boot\<rparr>"

theorem task_init_ok_witness:
  "\<exists>t s' as' b1 b2. task_init demo_syms kern_boot = Some (Inr s') \<and> kern_ok s' [] [t] as' [(b2, 24576), (b1, 12288)] \<and>
     current_task (k_sched s') = Some t"
proof -
  have w: "task_list (k_sched kern_boot) = None" "vmalloc_inv (k_vm kern_boot) [] []" "va_ok (kv_va (k_vm kern_boot)) [] (rev [0..<512])"
    "length ([] :: area list) + 9 \<le> VMA_POOL_CAP" "sym_idle_task_entry demo_syms \<noteq> 0"
    using kvm_boot_inv kvm_boot_room(2) by (simp_all add: kern_boot_def VMA_POOL_CAP_def demo_syms_def)
  have "36 \<le> kv_free (k_vm kern_boot) \<and> unat (vmalloc_next (kv_va (k_vm kern_boot))) + 36864 \<le> unat VMALLOC_END"
    by (simp add: kern_boot_def kvm_boot_room VMALLOC_START_def VMALLOC_END_def)
  from mp [OF conjunct2 [OF task_init_ok [OF w]] this] show ?thesis by blast
qed

subsection \<open>The arguments of a task\<close>

text \<open>
  The first switch to a task that was created with \<open>args\<close> calls its function with just these arguments.
\<close>

lemma task_entry_args:
  assumes "current_task s = Some t" "t_context (tk s t) = initial_context syms entry (Some a) stack" "- (2 ^ 31) \<le> args_argc a" "args_argc a < 2 ^ 31"
  shows "task_entry_wrapper s = Some (entry, args_argc a, args_argv a, args_envp a)"
proof -
  have w: "(ucast (of_int (args_argc a) :: u64) :: u32) = of_int (args_argc a)"
    by (rule bit_word_eqI) (simp add: bit_simps)
  have "sint (ucast (of_int (args_argc a) :: u64) :: u32) = args_argc a"
    using assms(3,4) unfolding w by (simp add: sint_sbintrunc' signed_take_bit_int_eq_self)
  then show ?thesis using assms(1,2) by (simp add: task_entry_wrapper_def task_current_def initial_context_def Let_def)
qed

end
