(* ===== verification/CString.thy ===== *)
theory CString
  imports Prelude "HOL-Library.List_Lexorder"
begin

text \<open>
  \<open>src/lib/string.c\<close>, the functions that only read: comparison, length and search. Memory is a
  partial function from addresses to bytes (an address without a byte cannot be accessed); what a
  pointer \<open>p\<close> points to is the reader \<open>at m p\<close>, and a string literal is a reader of its own.
  \<open>cs r s\<close> says that reader \<open>r\<close> holds the C string \<open>s\<close> with its null byte. Each function is shown to
  compute the operation on the list of bytes that its name promises, without reading past the end.
\<close>

section \<open>Definitions\<close>

subsection \<open>Memory\<close>

type_synonym cmem = "u64 \<Rightarrow> u8 option"
type_synonym reader = "nat \<Rightarrow> u8 option"

definition at :: "cmem \<Rightarrow> u64 \<Rightarrow> reader" where
  "at m p i = m (p + of_nat i)"

definition lit :: "u8 list \<Rightarrow> reader" where
  "lit s i = (if i < length s then Some (s ! i) else if i = length s then Some 0 else None)"

fun cs_from :: "reader \<Rightarrow> nat \<Rightarrow> u8 list \<Rightarrow> bool" where
  "cs_from r i [] \<longleftrightarrow> r i = Some 0"
| "cs_from r i (c # s) \<longleftrightarrow> c \<noteq> 0 \<and> r i = Some c \<and> cs_from r (Suc i) s"

definition cs :: "reader \<Rightarrow> u8 list \<Rightarrow> bool" where
  "cs r s \<longleftrightarrow> cs_from r 0 s"

subsection \<open>Comparison\<close>

text \<open>\<open>(unsigned char)x - (unsigned char)y\<close>\<close>

definition byte_diff :: "u8 \<Rightarrow> u8 \<Rightarrow> int" where
  "byte_diff x y = uint x - uint y"

definition strncmp :: "reader \<Rightarrow> reader \<Rightarrow> nat \<Rightarrow> int option" where
  "strncmp a b n = do {
     r \<leftarrow> for_ret 0 n (\<lambda>i (_ :: unit). do {
       x \<leftarrow> a i;
       y \<leftarrow> b i;
       Some (if x \<noteq> y then Inl (byte_diff x y) else if x = 0 then Inl 0 else Inr ()) }) ();
     Some (case r of Inl d \<Rightarrow> d | Inr _ \<Rightarrow> 0) }"

partial_function (option) strcmp_from :: "reader \<Rightarrow> reader \<Rightarrow> nat \<Rightarrow> int option" where
  "strcmp_from a b i = Option.bind (a i) (\<lambda>x. Option.bind (b i) (\<lambda>y.
     if x \<noteq> 0 \<and> x = y then strcmp_from a b (Suc i) else Some (byte_diff x y)))"

definition strcmp :: "reader \<Rightarrow> reader \<Rightarrow> int option" where
  "strcmp a b = strcmp_from a b 0"

definition memcmp :: "reader \<Rightarrow> reader \<Rightarrow> nat \<Rightarrow> int option" where
  "memcmp a b n = do {
     r \<leftarrow> for_ret 0 n (\<lambda>i (_ :: unit). do {
       x \<leftarrow> a i;
       y \<leftarrow> b i;
       Some (if x \<noteq> y then Inl (byte_diff x y) else Inr ()) }) ();
     Some (case r of Inl d \<Rightarrow> d | Inr _ \<Rightarrow> 0) }"

subsection \<open>Length and search\<close>

text \<open>The counter is a C \<open>int\<close>: counting past its range is undefined.\<close>

partial_function (option) strlen_from :: "reader \<Rightarrow> nat \<Rightarrow> nat option" where
  "strlen_from r len = Option.bind (r len) (\<lambda>c.
     if c \<noteq> 0 then (if Suc len < 2 ^ 31 then strlen_from r (Suc len) else None) else Some len)"

definition strlen :: "reader option \<Rightarrow> nat option" where
  "strlen str = (case str of None \<Rightarrow> Some 0 | Some r \<Rightarrow> strlen_from r 0)"

function strnlen_from :: "reader \<Rightarrow> nat \<Rightarrow> nat \<Rightarrow> nat option" where
  "strnlen_from r mx len =
     (if len < mx then Option.bind (r len) (\<lambda>c. if c \<noteq> 0 then strnlen_from r mx (Suc len) else Some len)
      else Some len)"
  by pat_completeness auto
termination by (relation "measure (\<lambda>(r, mx, len). mx - len)") auto

declare strnlen_from.simps [simp del]

text \<open>The \<open>size_t\<close> count is returned as an \<open>int\<close>.\<close>

definition strnlen :: "reader \<Rightarrow> nat \<Rightarrow> int option" where
  "strnlen r mx = do { len \<leftarrow> strnlen_from r mx 0; Some (sint (of_nat len :: u32)) }"

text \<open>A pointer into the string is its offset; \<open>None\<close> is \<open>NULL\<close>.\<close>

partial_function (option) strchr_from :: "reader \<Rightarrow> u8 \<Rightarrow> nat \<Rightarrow> nat option option" where
  "strchr_from r target i = Option.bind (r i) (\<lambda>c.
     if c \<noteq> 0 then (if c = target then Some (Some i) else strchr_from r target (Suc i))
     else Some (if target = 0 then Some i else None))"

definition strchr :: "reader \<Rightarrow> int \<Rightarrow> nat option option" where
  "strchr r c = strchr_from r (word_of_int c) 0"

text \<open>\<open>for (a = accept; *a != '\0'; ++a) if (c == *a) break;\<close> and whether it broke off\<close>

partial_function (option) char_in_from :: "u8 \<Rightarrow> reader \<Rightarrow> nat \<Rightarrow> bool option" where
  "char_in_from c r i = Option.bind (r i) (\<lambda>x.
     if x \<noteq> 0 then (if c = x then Some True else char_in_from c r (Suc i)) else Some False)"

partial_function (option) strspn_from :: "reader \<Rightarrow> reader \<Rightarrow> nat \<Rightarrow> nat option" where
  "strspn_from s accept i = Option.bind (s i) (\<lambda>c.
     if c \<noteq> 0 then Option.bind (char_in_from c accept 0) (\<lambda>found.
       if found then strspn_from s accept (Suc i) else Some i)
     else Some i)"

definition strspn :: "reader \<Rightarrow> reader \<Rightarrow> nat option" where
  "strspn s accept = strspn_from s accept 0"

partial_function (option) strpbrk_from :: "reader \<Rightarrow> reader \<Rightarrow> nat \<Rightarrow> nat option option" where
  "strpbrk_from s ct i = Option.bind (s i) (\<lambda>c.
     if c \<noteq> 0 then Option.bind (char_in_from c ct 0) (\<lambda>found.
       if found then Some (Some i) else strpbrk_from s ct (Suc i))
     else Some None)"

definition strpbrk :: "reader \<Rightarrow> reader \<Rightarrow> nat option option" where
  "strpbrk s ct = strpbrk_from s ct 0"

subsection \<open>Specification\<close>

text \<open>The difference of two strings at the first byte where they differ, the end counting as 0.\<close>

fun str_diff :: "u8 list \<Rightarrow> u8 list \<Rightarrow> int" where
  "str_diff [] [] = 0"
| "str_diff [] (y # ys) = byte_diff 0 y"
| "str_diff (x # xs) [] = byte_diff x 0"
| "str_diff (x # xs) (y # ys) = (if x = y then str_diff xs ys else byte_diff x y)"

fun index_of :: "('a \<Rightarrow> bool) \<Rightarrow> 'a list \<Rightarrow> nat option" where
  "index_of P [] = None"
| "index_of P (x # xs) = (if P x then Some 0 else map_option Suc (index_of P xs))"

section \<open>Lemmas\<close>

lemma cs_from_iff:
  "cs_from r i s \<longleftrightarrow> 0 \<notin> set s \<and> (\<forall>j<length s. r (i + j) = Some (s ! j)) \<and> r (i + length s) = Some 0"
  by (induction s arbitrary: i) (auto simp: All_less_Suc2)

lemma cs_iff: "cs r s \<longleftrightarrow> 0 \<notin> set s \<and> (\<forall>i<length s. r i = Some (s ! i)) \<and> r (length s) = Some 0"
  by (simp add: cs_def cs_from_iff)

lemma cs_lit [simp]: "cs (lit s) s \<longleftrightarrow> 0 \<notin> set s"
  by (auto simp: cs_iff lit_def)

lemma cs_nonzero: "cs_from r i s \<Longrightarrow> 0 \<notin> set s"
  by (simp add: cs_from_iff)

lemma byte_diff_0: "byte_diff x y = 0 \<longleftrightarrow> x = y"
  by (auto simp: byte_diff_def word_uint_eq_iff)

lemma byte_diff_neg: "byte_diff x y < 0 \<longleftrightarrow> x < y"
  by (auto simp: byte_diff_def word_less_def)

lemma str_diff_0: "0 \<notin> set xs \<Longrightarrow> 0 \<notin> set ys \<Longrightarrow> str_diff xs ys = 0 \<longleftrightarrow> xs = ys"
  by (induction xs ys rule: str_diff.induct) (auto simp: byte_diff_0)

lemma str_diff_neg: "0 \<notin> set xs \<Longrightarrow> 0 \<notin> set ys \<Longrightarrow> str_diff xs ys < 0 \<longleftrightarrow> xs < ys"
  by (induction xs ys rule: str_diff.induct) (auto simp: byte_diff_neg word_neq_0_conv)

text \<open>Each loop, from a position where the rest of the strings is known.\<close>

lemma strcmp_from_spec:
  "cs_from a i s \<Longrightarrow> cs_from b i t \<Longrightarrow> strcmp_from a b i = Some (str_diff s t)"
  by (induction s t arbitrary: i rule: str_diff.induct)
     (subst strcmp_from.simps, auto simp: byte_diff_def)+

lemma strncmp_loop:
  "cs_from a i s \<Longrightarrow> cs_from b i t \<Longrightarrow>
   \<exists>r. for_ret i (i + n) (\<lambda>i (_ :: unit). do { x \<leftarrow> a i; y \<leftarrow> b i;
       Some (if x \<noteq> y then Inl (byte_diff x y) else if x = 0 then Inl 0 else Inr ()) }) () = Some r \<and>
     (case r of Inl d \<Rightarrow> d | Inr _ \<Rightarrow> 0) = str_diff (take n s) (take n t)"
proof (induction s t arbitrary: i n rule: str_diff.induct)
  case 1
  then show ?case by (cases n) (auto simp: for_ret_step)
next
  case (2 y ys)
  then show ?case by (cases n) (auto simp: for_ret_step)
next
  case (3 x xs)
  then show ?case by (cases n) (auto simp: for_ret_step)
next
  case (4 x xs y ys)
  show ?case
  proof (cases n)
    case (Suc k)
    then have "i < i + n" "i + n = Suc i + k" by simp_all
    with 4(1) [of "Suc i" k] 4(2,3) Suc show ?thesis by (cases "x = y") (auto simp: for_ret_step)
  qed simp
qed

lemma strncmp_spec: "cs a s \<Longrightarrow> cs b t \<Longrightarrow> strncmp a b n = Some (str_diff (take n s) (take n t))"
  using strncmp_loop [of a 0 s b t n] by (auto simp: strncmp_def cs_def)

lemma strlen_from_spec: "cs_from r i s \<Longrightarrow> i + length s < 2 ^ 31 \<Longrightarrow> strlen_from r i = Some (i + length s)"
  by (induction s arbitrary: i) (subst strlen_from.simps, auto)+

lemma strnlen_from_spec: "cs_from r i s \<Longrightarrow> strnlen_from r (i + n) i = Some (i + min n (length s))"
proof (induction s arbitrary: i n)
  case (Cons c s)
  show ?case
  proof (cases n)
    case (Suc k)
    with Cons.IH [of "Suc i" k] Cons.prems show ?thesis by (subst strnlen_from.simps) auto
  qed (simp add: strnlen_from.simps)
qed (simp add: strnlen_from.simps)

lemma strchr_from_spec:
  "cs_from r i s \<Longrightarrow> strchr_from r c i = Some (if c = 0 then Some (i + length s) else map_option (\<lambda>k. k + i) (index_of ((=) c) s))"
  by (induction s arbitrary: i) (subst strchr_from.simps, auto simp: option.map_comp comp_def)+

lemma char_in_from_spec: "cs_from r i s \<Longrightarrow> char_in_from c r i = Some (c \<in> set s)"
  by (induction s arbitrary: i) (subst char_in_from.simps, auto)+

lemma strspn_from_spec:
  "cs_from r i s \<Longrightarrow> cs a t \<Longrightarrow> strspn_from r a i = Some (i + length (takeWhile (\<lambda>c. c \<in> set t) s))"
  by (induction s arbitrary: i) (subst strspn_from.simps, auto simp: cs_def char_in_from_spec)+

lemma strpbrk_from_spec:
  "cs_from r i s \<Longrightarrow> cs a t \<Longrightarrow> strpbrk_from r a i = Some (map_option (\<lambda>k. k + i) (index_of (\<lambda>c. c \<in> set t) s))"
  by (induction s arbitrary: i)
     (subst strpbrk_from.simps, auto simp: cs_def char_in_from_spec option.map_comp comp_def)+

lemma memcmp_loop:
  "length s = length t \<Longrightarrow> (\<And>j. j < length s \<Longrightarrow> a (i + j) = Some (s ! j)) \<Longrightarrow>
   (\<And>j. j < length t \<Longrightarrow> b (i + j) = Some (t ! j)) \<Longrightarrow>
   \<exists>r. for_ret i (i + length s) (\<lambda>i (_ :: unit). do { x \<leftarrow> a i; y \<leftarrow> b i;
       Some (if x \<noteq> y then Inl (byte_diff x y) else Inr ()) }) () = Some r \<and>
     (case r of Inl d \<Rightarrow> d | Inr _ \<Rightarrow> 0) = str_diff s t"
proof (induction s t arbitrary: i rule: list_induct2)
  case (Cons x xs y ys)
  have "a i = Some x" "b i = Some y" using Cons.prems(1) [of 0] Cons.prems(2) [of 0] by auto
  moreover have "a (Suc i + j) = Some (xs ! j)" "b (Suc i + j) = Some (ys ! j)" if "j < length xs" for j
    using Cons.prems(1) [of "Suc j"] Cons.prems(2) [of "Suc j"] that Cons.hyps by auto
  ultimately show ?case using Cons.IH [of "Suc i"] Cons.hyps by (auto simp: for_ret_step)
qed simp

section \<open>Properties\<close>

text \<open>
  On two C strings \<open>strcmp\<close> ends without reading past either, answers 0 exactly when they are equal,
  and its sign is their order as lists of unsigned bytes.
\<close>

theorem strcmp_orders:
  assumes "cs a s" "cs b t"
  shows "\<exists>d. strcmp a b = Some d \<and> (d = 0 \<longleftrightarrow> s = t) \<and> (d < 0 \<longleftrightarrow> s < t) \<and> (0 < d \<longleftrightarrow> t < s)"
proof -
  have "0 \<notin> set s" "0 \<notin> set t" using assms by (simp_all add: cs_iff)
  moreover have "strcmp a b = Some (str_diff s t)" using assms by (simp add: strcmp_def cs_def strcmp_from_spec)
  ultimately show ?thesis
    using str_diff_0 [of s t] str_diff_neg [of s t] by (auto simp: linorder_neq_iff)
qed

theorem strcmp_orders_witness:
  "\<exists>d. strcmp (lit [97, 98]) (lit [97, 200]) = Some d \<and> d < 0"
  using strcmp_orders [of "lit [97, 98]" "[97, 98]" "lit [97, 200]" "[97, 200]"] by auto

text \<open>
  \<open>strncmp\<close> compares the first \<open>n\<close> bytes: it answers 0 exactly when the strings agree on them, and a
  string that is shorter is read no further than its null byte.
\<close>

theorem strncmp_prefix:
  assumes "cs a s" "cs b t"
  shows "\<exists>d. strncmp a b n = Some d \<and> (d = 0 \<longleftrightarrow> take n s = take n t) \<and> (d < 0 \<longleftrightarrow> take n s < take n t)"
proof -
  have "0 \<notin> set (take n s)" "0 \<notin> set (take n t)" using assms by (auto simp: cs_iff dest: in_set_takeD)
  then show ?thesis using strncmp_spec [OF assms, of n] str_diff_0 str_diff_neg by auto
qed

theorem strncmp_prefix_witness:
  "\<exists>d. strncmp (lit [109, 101, 109, 64]) (lit [109, 101, 109]) 3 = Some d \<and> d = 0"
  using strncmp_prefix [of "lit [109, 101, 109, 64]" "[109, 101, 109, 64]" "lit [109, 101, 109]" "[109, 101, 109]" 3] by auto

text \<open>
  The length and the searches on a C string: \<open>strlen\<close> is its length, \<open>strnlen\<close> the smaller of that and
  the bound (while it fits an \<open>int\<close>), \<open>strchr\<close> points to the first such byte (the null byte at the
  end), \<open>strspn\<close> is the length of the longest prefix over the accepted bytes and \<open>strpbrk\<close> points to the
  first byte of a set.
\<close>

theorem string_searches:
  assumes "cs r s" "cs a t" "length s < 2 ^ 31"
  shows "strlen (Some r) = Some (length s) \<and>
    strnlen r n = Some (int (min n (length s))) \<and>
    strchr r c = Some (if word_of_int c = (0::u8) then Some (length s) else index_of (\<lambda>x. x = word_of_int c) s) \<and>
    strspn r a = Some (length (takeWhile (\<lambda>c. c \<in> set t) s)) \<and>
    strpbrk r a = Some (index_of (\<lambda>c. c \<in> set t) s)"
proof -
  have "sint (of_nat k :: u32) = int k" if "k < 2 ^ 31" for k
    using that by (simp add: sint_uint signed_take_bit_int_eq_self unsigned_of_nat take_bit_nat_eq_self)
  from this [of "min n (length s)"] have n: "sint (of_nat (min n (length s)) :: u32) = int (min n (length s))"
    using assms(3) by simp
  have eq: "(=) (word_of_int c) = (\<lambda>x. x = (word_of_int c :: u8))" by (auto simp: fun_eq_iff)
  have c: "cs_from r 0 s" using assms(1) by (simp add: cs_def)
  show ?thesis
  proof (intro conjI)
    show "strlen (Some r) = Some (length s)" using strlen_from_spec [OF c] assms(3) by (simp add: strlen_def)
    show "strnlen r n = Some (int (min n (length s)))" using strnlen_from_spec [OF c, of n] n by (simp add: strnlen_def)
    show "strchr r c = Some (if word_of_int c = (0::u8) then Some (length s) else index_of (\<lambda>x. x = word_of_int c) s)"
      using strchr_from_spec [OF c, of "word_of_int c"] unfolding strchr_def eq by (simp add: option.map_ident)
    show "strspn r a = Some (length (takeWhile (\<lambda>c. c \<in> set t) s))"
      using strspn_from_spec [OF c assms(2)] by (simp add: strspn_def)
    show "strpbrk r a = Some (index_of (\<lambda>c. c \<in> set t) s)"
      using strpbrk_from_spec [OF c assms(2)] by (simp add: strpbrk_def option.map_ident)
  qed
qed

theorem string_searches_witness:
  "strlen (Some (lit [97, 98, 97])) = Some 3 \<and> strchr (lit [97, 98, 97]) 98 = Some (Some 1)"
  using string_searches [of "lit [97, 98, 97]" "[97, 98, 97]" "lit []" "[]" 0 98] by auto

end
