(* ===== verification/CString_Copy.thy ===== *)
theory CString_Copy
  imports CString
begin

text \<open>
  \<open>src/lib/string.c\<close>, the functions that write memory: \<open>memset\<close>, \<open>memcpy\<close>, \<open>memmove\<close>, the string copies
  (with the word-at-a-time loop of \<open>strcpy\<close>), number to text and \<open>strsep\<close>. Every write goes to an
  address that has a byte, and the effect of each function is one block of bytes put at the
  destination, \<open>mem_put\<close>: nothing else in memory changes.
\<close>

section \<open>Definitions\<close>

definition st8 :: "cmem \<Rightarrow> u64 \<Rightarrow> u8 \<Rightarrow> cmem option" where
  "st8 m a v = (if m a = None then None else Some (m(a \<mapsto> v)))"

text \<open>Eight bytes, the lowest address holding the lowest byte.\<close>

primrec le_word :: "u8 list \<Rightarrow> 'a::len word" where
  "le_word [] = 0"
| "le_word (b # bs) = ucast b OR push_bit 8 (le_word bs)"

definition le_bytes :: "u64 \<Rightarrow> u8 list" where
  "le_bytes v = map (\<lambda>i. ucast (drop_bit (8 * i) v)) [0..<8]"

primrec ld_n :: "cmem \<Rightarrow> u64 \<Rightarrow> nat \<Rightarrow> u8 list option" where
  "ld_n m a 0 = Some []"
| "ld_n m a (Suc n) = do { x \<leftarrow> m a; xs \<leftarrow> ld_n m (a + 1) n; Some (x # xs) }"

primrec st_n :: "cmem \<Rightarrow> u64 \<Rightarrow> u8 list \<Rightarrow> cmem option" where
  "st_n m a [] = Some m"
| "st_n m a (b # bs) = do { m \<leftarrow> st8 m a b; st_n m (a + 1) bs }"

definition ld64 :: "cmem \<Rightarrow> u64 \<Rightarrow> u64 option" where
  "ld64 m a = do { bs \<leftarrow> ld_n m a 8; Some (le_word bs) }"

definition st64 :: "cmem \<Rightarrow> u64 \<Rightarrow> u64 \<Rightarrow> cmem option" where
  "st64 m a v = st_n m a (le_bytes v)"

subsection \<open>Blocks\<close>

definition memset :: "u64 \<Rightarrow> int \<Rightarrow> nat \<Rightarrow> cmem \<Rightarrow> cmem option" where
  "memset s c n m = for_upto 0 n (\<lambda>i m. st8 m (s + of_nat i) (word_of_int c)) m"

definition memcpy :: "u64 \<Rightarrow> u64 \<Rightarrow> nat \<Rightarrow> cmem \<Rightarrow> cmem option" where
  "memcpy dest src n m = for_upto 0 n (\<lambda>i m. do {
     c \<leftarrow> m (src + of_nat i); st8 m (dest + of_nat i) c }) m"

text \<open>The loop that counts down from \<open>n\<close> copies index \<open>n - 1 - i\<close> in round \<open>i\<close>.\<close>

definition memmove :: "u64 \<Rightarrow> u64 \<Rightarrow> nat \<Rightarrow> cmem \<Rightarrow> cmem option" where
  "memmove dest src n m =
     (if dest < src then
        for_upto 0 n (\<lambda>i m. do { c \<leftarrow> m (src + of_nat i); st8 m (dest + of_nat i) c }) m
      else if dest > src then
        for_upto 0 n (\<lambda>i m. do { c \<leftarrow> m (src + of_nat (n - 1 - i)); st8 m (dest + of_nat (n - 1 - i)) c }) m
      else Some m)"

subsection \<open>Strings\<close>

function strncpy_loop :: "u64 \<Rightarrow> u64 \<Rightarrow> nat \<Rightarrow> nat \<Rightarrow> cmem \<Rightarrow> (nat \<times> cmem) option" where
  "strncpy_loop dest src max_len i m =
     (if i + 1 < max_len then
        Option.bind (m (src + of_nat i)) (\<lambda>c.
          if c \<noteq> 0 then Option.bind (st8 m (dest + of_nat i) c) (strncpy_loop dest src max_len (Suc i))
          else Some (i, m))
      else Some (i, m))"
  by pat_completeness auto
termination by (relation "measure (\<lambda>(d, s, mx, i, m). mx - i)") auto

declare strncpy_loop.simps [simp del]

definition strncpy :: "u64 \<Rightarrow> u64 \<Rightarrow> nat \<Rightarrow> cmem \<Rightarrow> cmem option" where
  "strncpy dest src max_len m =
     (if dest = 0 \<or> src = 0 then Some m
      else do {
        (i, m) \<leftarrow> strncpy_loop dest src max_len 0 m;
        st8 m (dest + of_nat i) 0 })"

text \<open>\<open>while ((*d++ = *s++));\<close>\<close>

partial_function (option) strcpy_bytes :: "u64 \<Rightarrow> u64 \<Rightarrow> cmem \<Rightarrow> cmem option" where
  "strcpy_bytes d s m = Option.bind (m s) (\<lambda>c. Option.bind (st8 m d c) (\<lambda>m.
     if c \<noteq> 0 then strcpy_bytes (d + 1) (s + 1) m else Some m))"

definition has_zero_byte :: "u64 \<Rightarrow> bool" where
  "has_zero_byte val \<longleftrightarrow>
     val AND 0xFF00000000000000 = 0 \<or> val AND 0x00FF000000000000 = 0 \<or>
     val AND 0x0000FF0000000000 = 0 \<or> val AND 0x000000FF00000000 = 0 \<or>
     val AND 0x00000000FF000000 = 0 \<or> val AND 0x0000000000FF0000 = 0 \<or>
     val AND 0x000000000000FF00 = 0 \<or> val AND 0x00000000000000FF = 0"

partial_function (option) strcpy_words :: "u64 \<Rightarrow> u64 \<Rightarrow> cmem \<Rightarrow> cmem option" where
  "strcpy_words d s m = Option.bind (ld64 m s) (\<lambda>val.
     if val \<noteq> 0 then
       (if has_zero_byte val then strcpy_bytes d s m
        else Option.bind (st64 m d val) (strcpy_words (d + 8) (s + 8)))
     else st8 m d 0)"

definition strcpy :: "u64 \<Rightarrow> u64 \<Rightarrow> cmem \<Rightarrow> cmem option" where
  "strcpy dest src m =
     (if dest = 0 \<or> src = 0 then Some m
      else if dest AND 7 = 0 \<and> src AND 7 = 0 then strcpy_words dest src m
      else strcpy_bytes dest src m)"

partial_function (option) find_nul :: "cmem \<Rightarrow> u64 \<Rightarrow> u64 option" where
  "find_nul m d = Option.bind (m d) (\<lambda>c. if c \<noteq> 0 then find_nul m (d + 1) else Some d)"

definition strcat :: "u64 \<Rightarrow> u64 \<Rightarrow> cmem \<Rightarrow> cmem option" where
  "strcat dest src m =
     (if dest = 0 \<or> src = 0 then Some m
      else do { dest \<leftarrow> find_nul m dest; strcpy dest src m })"

text \<open>\<open>*s\<close> is passed and returned; the first component of the result is the token.\<close>

definition strsep :: "u64 \<Rightarrow> reader \<Rightarrow> cmem \<Rightarrow> (u64 \<times> u64 \<times> cmem) option" where
  "strsep s ct m =
     (if s = 0 then Some (0, s, m)
      else do {
        e \<leftarrow> strpbrk (at m s) ct;
        case e of None \<Rightarrow> Some (s, 0, m)
        | Some i \<Rightarrow> do {
            m \<leftarrow> st8 m (s + of_nat i) 0;
            Some (s, s + of_nat i + 1, m) } })"

subsection \<open>Numbers\<close>

definition hex_chars :: "u8 list" where
  "hex_chars = [48, 49, 50, 51, 52, 53, 54, 55, 56, 57, 65, 66, 67, 68, 69, 70]"

definition hex_at :: "u64 \<Rightarrow> nat \<Rightarrow> u8" where
  "hex_at n k = hex_chars ! unat (drop_bit k n AND 0xF)"

text \<open>The bytes written to \<open>buffer[0]\<close> to \<open>buffer[18]\<close>, in order.\<close>

definition htoa :: "u64 \<Rightarrow> u64 \<Rightarrow> cmem \<Rightarrow> cmem option" where
  "htoa n buffer m =
     (if buffer = 0 then Some m
      else st_n m buffer [48, 120, hex_at n 60, hex_at n 56, hex_at n 52, hex_at n 48, hex_at n 44, hex_at n 40,
        hex_at n 36, hex_at n 32, hex_at n 28, hex_at n 24, hex_at n 20, hex_at n 16, hex_at n 12, hex_at n 8,
        hex_at n 4, hex_at n 0, 0])"

text \<open>The digits put in front of \<open>acc\<close>, least significant first, in the local buffer of 21 bytes.\<close>

function itoa_digits :: "u64 \<Rightarrow> u8 list \<Rightarrow> u8 list" where
  "itoa_digits n acc =
     (if n \<ge> 10 then let q = n div 10 in itoa_digits q ((48 + ucast (n - q * 10)) # acc)
      else (48 + ucast n) # acc)"
  by pat_completeness auto
termination
proof (relation "measure (\<lambda>(n, acc). unat n)", goal_cases)
  case (2 n acc q)
  then have "10 \<le> unat n" by (simp add: word_le_nat_alt)
  with 2 show ?case by (simp add: unat_div)
qed simp

declare itoa_digits.simps [simp del]

text \<open>
  The digits are built in a local array that lies outside the memory of the caller, so \<open>strcpy\<close> from it
  to the buffer is the write of its bytes; \<open>None\<close> when the array would be too small.
\<close>

definition itoa :: "u64 \<Rightarrow> u64 \<Rightarrow> cmem \<Rightarrow> cmem option" where
  "itoa n buffer m =
     (if n = 0 then st_n m buffer [48, 0]
      else let ds = itoa_digits n [] in
        if length ds \<le> 20 then (if buffer = 0 then Some m else st_n m buffer (ds @ [0])) else None)"

subsection \<open>Specification\<close>

definition mem_put :: "cmem \<Rightarrow> u64 \<Rightarrow> u8 list \<Rightarrow> cmem" where
  "mem_put m a bs x = (if unat (x - a) < length bs then Some (bs ! unat (x - a)) else m x)"

definition writable :: "cmem \<Rightarrow> u64 \<Rightarrow> nat \<Rightarrow> bool" where
  "writable m a n \<longleftrightarrow> (\<forall>i<n. m (a + of_nat i) \<noteq> None)"

definition holds :: "cmem \<Rightarrow> u64 \<Rightarrow> u8 list \<Rightarrow> bool" where
  "holds m a bs \<longleftrightarrow> (\<forall>i<length bs. m (a + of_nat i) = Some (bs ! i))"

text \<open>No byte of the \<open>k\<close> from \<open>s\<close> lies in the block of \<open>n\<close> at \<open>d\<close>.\<close>

definition apart :: "u64 \<Rightarrow> nat \<Rightarrow> u64 \<Rightarrow> nat \<Rightarrow> bool" where
  "apart d n s k \<longleftrightarrow> (\<forall>i<k. n \<le> unat (s + of_nat i - d))"

definition digits_value :: "u8 list \<Rightarrow> nat" where
  "digits_value ds = fold (\<lambda>d v. 10 * v + (unat d - 48)) ds 0"

definition hex_val :: "u8 \<Rightarrow> nat" where
  "hex_val c = (if c \<le> 57 then unat c - 48 else unat c - 55)"

text \<open>A small memory: 64 bytes from address 4096, all zero but a string at 4096.\<close>

definition mem_demo :: cmem where
  "mem_demo = mem_put (\<lambda>x. if unat (x - 4096) < 64 then Some 0 else None) 4096 [72, 105, 33]"

section \<open>Lemmas\<close>

lemma st8_Some: "m a \<noteq> None \<Longrightarrow> st8 m a v = Some (m(a \<mapsto> v))"
  by (simp add: st8_def)

lemma mem_put_Nil [simp]: "mem_put m a [] = m"
  by (simp add: mem_put_def fun_eq_iff)

lemma offset_iff:
  assumes "n < 2 ^ 64"
  shows "x = a + of_nat n \<longleftrightarrow> unat (x - a :: u64) = n"
proof
  assume "x = a + of_nat n"
  then show "unat (x - a) = n" using assms by (simp add: unat_of_nat)
next
  assume "unat (x - a) = n"
  then have "of_nat n = x - a" by auto
  then show "x = a + of_nat n" by simp
qed

lemma mem_put_snoc:
  assumes "length bs < 2 ^ 64"
  shows "(mem_put m a bs)(a + of_nat (length bs) \<mapsto> b) = mem_put m a (bs @ [b])"
proof
  fix x
  show "((mem_put m a bs)(a + of_nat (length bs) \<mapsto> b)) x = mem_put m a (bs @ [b]) x"
    using offset_iff [OF assms, of x a] by (auto simp: mem_put_def nth_append less_Suc_eq)
qed

lemma unat_minus_1 [simp]: "unat (- 1 :: u64) = 18446744073709551615"
  by (simp add: unsigned_minus_1_eq_mask mask_eq_exp_minus_1)

lemma mem_put_Cons:
  assumes "length bs < 2 ^ 64"
  shows "mem_put (m(a \<mapsto> b)) (a + 1) bs = mem_put m a (b # bs)"
proof
  fix x
  show "mem_put (m(a \<mapsto> b)) (a + 1) bs x = mem_put m a (b # bs) x"
  proof (cases "x = a")
    case True
    with True assms show ?thesis by (simp add: mem_put_def)
  next
    case False
    then have "x - a \<noteq> 0" by simp
    then have "unat (x - a - 1) = unat (x - a) - 1" "unat (x - a) \<noteq> 0"
      by (simp_all add: unat_minus_one unat_eq_0)
    then show ?thesis using False by (auto simp: mem_put_def diff_diff_eq nth_Cons' simp del: unat_eq_0)
  qed
qed

lemma mem_put_below:
  assumes "length bs < 2 ^ 64"
  shows "(mem_put m (a + 1) bs)(a \<mapsto> b) = mem_put m a (b # bs)"
proof
  fix x
  have "mem_put (m(a \<mapsto> b)) (a + 1) bs x = (if x = a then Some b else mem_put m (a + 1) bs x)"
    using assms by (auto simp: mem_put_def)
  with mem_put_Cons [OF assms, of m a b] show "((mem_put m (a + 1) bs)(a \<mapsto> b)) x = mem_put m a (b # bs) x"
    by (auto dest: fun_cong [where x = x])
qed

lemma mem_put_other: "length bs \<le> unat (x - a) \<Longrightarrow> mem_put m a bs x = m x"
  by (simp add: mem_put_def)

lemma mem_put_dom: "m x \<noteq> None \<Longrightarrow> mem_put m a bs x \<noteq> None"
  by (simp add: mem_put_def)

lemma holds_Nil [simp]: "holds m a []"
  by (simp add: holds_def)

lemma holds_Cons: "holds m a (b # bs) \<longleftrightarrow> m a = Some b \<and> holds m (a + 1) bs"
  by (auto simp: holds_def All_less_Suc2 add.assoc add.commute [of 1])

lemma writable_Suc: "writable m a (Suc n) \<longleftrightarrow> m a \<noteq> None \<and> writable m (a + 1) n"
  by (auto simp: writable_def All_less_Suc2 add.assoc add.commute [of 1])

lemma writable_0 [simp]: "writable m a 0"
  by (simp add: writable_def)

lemma writable_mono: "writable m a n \<Longrightarrow> k \<le> n \<Longrightarrow> writable m a k"
  by (auto simp: writable_def)

lemma writable_put: "writable m a n \<Longrightarrow> writable (mem_put m b bs) a n"
  by (simp add: writable_def mem_put_dom)

lemma holds_put:
  assumes "holds m s bs" "apart d (length ds) s (length bs)"
  shows "holds (mem_put m d ds) s bs"
  using assms by (auto simp: holds_def apart_def mem_put_other)

subsection \<open>Loads and stores of several bytes\<close>

lemma ld_n_iff: "ld_n m a n = Some bs \<longleftrightarrow> length bs = n \<and> holds m a bs"
  by (induction n arbitrary: a bs) (auto simp: bind_eq_Some_conv holds_Cons length_Suc_conv)

lemma st_n_put:
  "writable m a (length bs) \<Longrightarrow> length bs \<le> 2 ^ 64 \<Longrightarrow> st_n m a bs = Some (mem_put m a bs)"
proof (induction bs arbitrary: m a)
  case (Cons b bs)
  then have w: "m a \<noteq> None" "writable m (a + 1) (length bs)" by (simp_all add: writable_Suc)
  have "writable (m(a \<mapsto> b)) (a + 1) (length bs)" using w(2) by (auto simp: writable_def)
  with Cons.IH [of "m(a \<mapsto> b)" "a + 1"] Cons.prems(2) have "st_n (m(a \<mapsto> b)) (a + 1) bs = Some (mem_put (m(a \<mapsto> b)) (a + 1) bs)" by (simp add: fun_upd_def)
  moreover have "mem_put (m(a \<mapsto> b)) (a + 1) bs = mem_put m a (b # bs)" by (rule mem_put_Cons) (use Cons.prems in simp)
  ultimately show ?case by (simp only: st_n.simps st8_Some [of m a, OF w(1)] bind.bind_lunit)
qed simp

lemma for_upto_put:
  assumes "writable m a n" "n \<le> 2 ^ 64"
    and step: "\<And>i m'. i < n \<Longrightarrow> m' = mem_put m a (map f [0..<i]) \<Longrightarrow> g i m' = st8 m' (a + of_nat i) (f i)"
  shows "for_upto 0 n g m = Some (mem_put m a (map f [0..<n]))"
proof -
  have "\<exists>m'. for_upto 0 n g m = Some m' \<and> m' = mem_put m a (map f [0..<n])"
  proof (rule for_upto_inv [where P = "\<lambda>i m'. m' = mem_put m a (map f [0..<i])"], goal_cases)
    case (3 k t)
    have "m (a + of_nat k) \<noteq> None" using assms(1) 3 by (simp add: writable_def)
    then have "t (a + of_nat k) \<noteq> None" using 3 by (simp add: mem_put_dom)
    with step [OF 3(2,3)] have "g k t = Some (t(a + of_nat k \<mapsto> f k))" by (simp add: st8_Some)
    moreover have "t(a + of_nat k \<mapsto> f k) = mem_put m a (map f [0..<Suc k])"
      using mem_put_snoc [of "map f [0..<k]" m a "f k"] 3 assms(2) by simp
    ultimately show ?case by blast
  qed simp_all
  then show ?thesis by blast
qed

subsection \<open>Blocks\<close>

lemma apart_at: "apart d n s k \<Longrightarrow> i < k \<Longrightarrow> n \<le> unat (s + of_nat i - d)"
  by (simp add: apart_def)

lemma memcpy_spec:
  assumes "holds m src bs" "writable m dest (length bs)" "length bs \<le> 2 ^ 64" "apart dest (length bs) src (length bs)"
  shows "memcpy dest src (length bs) m = Some (mem_put m dest bs)"
proof -
  have "memcpy dest src (length bs) m = Some (mem_put m dest (map ((!) bs) [0..<length bs]))"
    unfolding memcpy_def
  proof (rule for_upto_put [OF assms(2,3)])
    fix i m' assume i: "i < length bs" "m' = mem_put m dest (map ((!) bs) [0..<i])"
    have "i \<le> unat (src + of_nat i - dest)" using apart_at [OF assms(4) i(1)] i(1) by simp
    then have "m' (src + of_nat i) = Some (bs ! i)"
      using assms(1) i by (simp add: mem_put_other holds_def)
    then show "do { c \<leftarrow> m' (src + of_nat i); st8 m' (dest + of_nat i) c } = st8 m' (dest + of_nat i) (bs ! i)" by simp
  qed
  then show ?thesis by (simp add: map_nth)
qed

text \<open>Copying down: the bytes not yet read lie above the block written so far.\<close>

lemma memmove_down:
  assumes "holds m src bs" "writable m dest (length bs)" "dest < src" "unat src + length bs \<le> 2 ^ 64"
  shows "memmove dest src (length bs) m = Some (mem_put m dest bs)"
proof -
  have "memmove dest src (length bs) m = Some (mem_put m dest (map ((!) bs) [0..<length bs]))"
    unfolding memmove_def if_P [OF assms(3)]
  proof (rule for_upto_put [OF assms(2)])
    show "length bs \<le> 2 ^ 64" using assms(4) by linarith
    fix i m' assume i: "i < length bs" "m' = mem_put m dest (map ((!) bs) [0..<i])"
    have "unat (src + of_nat i) = unat src + i"
      using i(1) assms(4) by (simp add: unat_word_ariths unat_of_nat)
    then have "i \<le> unat (src + of_nat i - dest)"
      using assms(3) by (simp add: unat_sub word_le_nat_alt word_less_nat_alt)
    then have "m' (src + of_nat i) = Some (bs ! i)"
      using assms(1) i by (simp add: mem_put_other holds_def)
    then show "do { c \<leftarrow> m' (src + of_nat i); st8 m' (dest + of_nat i) c } = st8 m' (dest + of_nat i) (bs ! i)" by simp
  qed
  then show ?thesis by (simp add: map_nth)
qed

text \<open>Copying up goes from the last byte to the first: the block written so far lies above.\<close>

lemma memmove_up:
  assumes "holds m src bs" "writable m dest (length bs)" "src < dest" "unat dest + length bs \<le> 2 ^ 64"
  shows "memmove dest src (length bs) m = Some (mem_put m dest bs)"
proof -
  let ?n = "length bs"
  have "\<exists>m'. for_upto 0 ?n (\<lambda>i m. do { c \<leftarrow> m (src + of_nat (?n - 1 - i)); st8 m (dest + of_nat (?n - 1 - i)) c }) m = Some m' \<and>
      m' = mem_put m (dest + of_nat (?n - ?n)) (drop (?n - ?n) bs)"
  proof (rule for_upto_inv [where P = "\<lambda>i m'. m' = mem_put m (dest + of_nat (?n - i)) (drop (?n - i) bs)"], goal_cases)
    case (3 i t)
    let ?k = "?n - 1 - i"
    have k: "?n - i = Suc ?k" "?k < ?n" using 3 by auto
    have t: "t = mem_put m (dest + of_nat ?k + 1) (drop (Suc ?k) bs)" using 3 k by (simp add: add.assoc add.commute [of 1])
    have e: "src + of_nat ?k - (dest + of_nat ?k + 1) = - 1 - (dest - src)" by simp
    have "unat (- 1 - (dest - src)) = 2 ^ 64 - 1 - unat (dest - src)" by (subst unat_sub) simp_all
    moreover have "unat (dest - src) \<le> unat dest" using assms(3) by (simp add: unat_sub word_le_nat_alt word_less_nat_alt)
    moreover have "length (drop (Suc ?k) bs) \<le> ?n - 1" by simp
    ultimately have "length (drop (Suc ?k) bs) \<le> unat (- 1 - (dest - src))" using assms(4) k(2) by linarith
    then have "length (drop (Suc ?k) bs) \<le> unat (src + of_nat ?k - (dest + of_nat ?k + 1))" unfolding e .
    then have "t (src + of_nat ?k) = Some (bs ! ?k)"
      using assms(1) k(2) unfolding t by (simp add: mem_put_other holds_def)
    moreover have "m (dest + of_nat ?k) \<noteq> None" using assms(2) k(2) by (simp add: writable_def)
    then have "t (dest + of_nat ?k) \<noteq> None" unfolding t by (rule mem_put_dom)
    moreover have "t(dest + of_nat ?k \<mapsto> bs ! ?k) = mem_put m (dest + of_nat ?k) (bs ! ?k # drop (Suc ?k) bs)"
      unfolding t by (rule mem_put_below) (use assms(4) in simp)
    moreover have "bs ! ?k # drop (Suc ?k) bs = drop ?k bs" using k(2) by (rule Cons_nth_drop_Suc)
    ultimately show ?case by (simp add: st8_Some)
  qed simp_all
  with assms(3) show ?thesis by (auto simp: memmove_def)
qed

subsection \<open>Strings\<close>

lemma mem_put_append:
  assumes "length xs + length ys \<le> 2 ^ 64"
  shows "mem_put (mem_put m a xs) (a + of_nat (length xs)) ys = mem_put m a (xs @ ys)"
  using assms
proof (induction ys rule: rev_induct)
  case (snoc y ys)
  have "mem_put (mem_put m a xs) (a + of_nat (length xs)) (ys @ [y])
      = (mem_put (mem_put m a xs) (a + of_nat (length xs)) ys)(a + of_nat (length xs) + of_nat (length ys) \<mapsto> y)"
    by (rule mem_put_snoc [symmetric]) (use snoc.prems in simp)
  also have "\<dots> = (mem_put m a (xs @ ys))(a + of_nat (length (xs @ ys)) \<mapsto> y)"
    using snoc by (simp add: add.assoc)
  also have "\<dots> = mem_put m a ((xs @ ys) @ [y])"
    by (rule mem_put_snoc) (use snoc.prems in simp)
  finally show ?case by simp
qed simp

lemma holds_append: "holds m a (xs @ ys) \<longleftrightarrow> holds m a xs \<and> holds m (a + of_nat (length xs)) ys"
  by (induction xs arbitrary: a) (auto simp: holds_Cons add.assoc add.commute [of 1])

lemma apart_mono: "apart d n s k \<Longrightarrow> n' \<le> n \<Longrightarrow> k' \<le> k \<Longrightarrow> apart d n' s k'"
  by (auto simp: apart_def intro: order_trans)

lemma apart_shift:
  assumes "apart d (j + n) s (j + k)"
  shows "apart (d + of_nat j) n (s + of_nat j) k"
  unfolding apart_def
proof (intro allI impI)
  fix i assume "i < k"
  then have "i < j + k" by simp
  from apart_at [OF assms this] have "n \<le> unat (s + of_nat i - d)" by simp
  then show "n \<le> unat (s + of_nat j + of_nat i - (d + of_nat j))" by (simp add: algebra_simps)
qed

lemma strcpy_bytes_spec:
  assumes "holds m s (str @ [0])" "0 \<notin> set str" "writable m d (Suc (length str))" "length str < 2 ^ 64"
    and "apart d (Suc (length str)) s (Suc (length str))"
  shows "strcpy_bytes d s m = Some (mem_put m d (str @ [0]))"
  using assms
proof (induction str arbitrary: m d s)
  case Nil
  then have "m s = Some 0" "m d \<noteq> None" by (auto simp: holds_Cons writable_Suc)
  then show ?case using mem_put_snoc [of "[]" m d 0] by (subst strcpy_bytes.simps) (simp add: st8_Some)
next
  case (Cons c str)
  let ?m = "m(d \<mapsto> c)"
  have c: "m s = Some c" "m d \<noteq> None" "c \<noteq> 0" using Cons.prems by (auto simp: holds_Cons writable_Suc)
  have m1: "?m = mem_put m d [c]" using mem_put_snoc [of "[]" m d c] by simp
  have h1: "holds m (s + 1) (str @ [0])" "writable m (d + 1) (Suc (length str))"
    using Cons.prems(1,3) by (simp_all add: holds_Cons writable_Suc)
  have ap: "apart d (1 + Suc (length str)) s (1 + Suc (length str))" using Cons.prems(5) by simp
  have "apart d 1 (s + 1) (Suc (length str))"
    unfolding apart_def
  proof (intro allI impI)
    fix i assume "i < Suc (length str)"
    then have "1 + i < 1 + Suc (length str)" by simp
    from apart_at [OF ap this] show "1 \<le> unat (s + 1 + of_nat i - d)" by (simp add: add.assoc)
  qed
  then have "holds ?m (s + 1) (str @ [0])" using h1(1) unfolding m1 by (intro holds_put) simp_all
  moreover have "writable ?m (d + 1) (Suc (length str))" unfolding m1 by (rule writable_put [OF h1(2)])
  moreover have "apart (d + 1) (Suc (length str)) (s + 1) (Suc (length str))" using apart_shift [OF ap] by simp
  ultimately have "strcpy_bytes (d + 1) (s + 1) ?m = Some (mem_put ?m (d + 1) (str @ [0]))"
    using Cons.IH [of ?m "s + 1" "d + 1"] Cons.prems(2,4) by (simp add: fun_upd_def)
  moreover have "mem_put ?m (d + 1) (str @ [0]) = mem_put m d (c # str @ [0])"
    by (rule mem_put_Cons) (use Cons.prems(4) in simp)
  ultimately show ?case using c by (subst strcpy_bytes.simps) (simp add: st8_Some)
qed

lemma bit_le_word:
  "bit (le_word bs :: 'a::len word) n \<longleftrightarrow> n < LENGTH('a) \<and> n div 8 < length bs \<and> bit (bs ! (n div 8)) (n mod 8)"
proof (induction bs arbitrary: n)
  case (Cons b bs)
  show ?case
  proof (cases "n < 8")
    case True
    then show ?thesis by (auto simp: bit_simps)
  next
    case False
    then have "n div 8 = Suc ((n - 8) div 8)" "(n - 8) mod 8 = n mod 8" by (simp_all add: le_div_geq le_mod_geq)
    moreover have "\<not> bit b n" using False by (simp add: bit_word_iff_drop_bit_and)
    ultimately show ?thesis using False Cons.IH [of "n - 8"] by (auto simp: bit_simps)
  qed
qed simp

lemma le_bytes_word: "length bs = 8 \<Longrightarrow> le_bytes (le_word bs) = bs"
proof (rule nth_equalityI)
  fix i assume len: "length bs = 8" and "i < length (le_bytes (le_word bs))"
  then have i: "i < 8" by (simp add: le_bytes_def)
  have "(8 * i + n) div 8 = i" "(8 * i + n) mod 8 = n" if "n < 8" for n using that by simp_all
  with i len have "ucast (drop_bit (8 * i) (le_word bs :: u64)) = bs ! i"
    by (intro bit_word_eqI) (auto simp: bit_simps bit_le_word)
  then show "le_bytes (le_word bs) ! i = bs ! i" using i by (simp add: le_bytes_def)
qed (simp add: le_bytes_def)

lemma byte_mask:
  assumes "length bs = 8" "i < 8"
  shows "le_word bs AND push_bit (8 * i) (0xFF :: u64) = 0 \<longleftrightarrow> bs ! i = 0"
proof
  have m: "(0xFF :: u64) = mask 8" by (simp add: mask_eq_exp_minus_1)
  assume z: "le_word bs AND push_bit (8 * i) (0xFF :: u64) = 0"
  show "bs ! i = 0"
  proof (rule bit_word_eqI)
    fix n assume n: "n < LENGTH(8)"
    have "\<not> bit (le_word bs AND push_bit (8 * i) (0xFF :: u64)) (8 * i + n)" using z by simp
    then show "bit (bs ! i) n = bit (0 :: u8) n" using n assms by (simp add: m bit_simps bit_le_word)
  qed
next
  have m: "(0xFF :: u64) = mask 8" by (simp add: mask_eq_exp_minus_1)
  assume z: "bs ! i = 0"
  show "le_word bs AND push_bit (8 * i) (0xFF :: u64) = 0"
  proof (rule bit_word_eqI)
    fix n
    have "n div 8 = i" if "8 * i \<le> n" "n - 8 * i < 8" using that by simp
    then show "bit (le_word bs AND push_bit (8 * i) (0xFF :: u64)) n = bit (0 :: u64) n"
      using z by (auto simp: m bit_simps bit_le_word)
  qed
qed

lemma has_zero_byte_iff:
  assumes "length bs = 8"
  shows "has_zero_byte (le_word bs) \<longleftrightarrow> 0 \<in> set bs"
proof -
  note b = byte_mask [OF assms]
  have "has_zero_byte (le_word bs) \<longleftrightarrow> bs ! 7 = 0 \<or> bs ! 6 = 0 \<or> bs ! 5 = 0 \<or> bs ! 4 = 0 \<or> bs ! 3 = 0 \<or> bs ! 2 = 0 \<or> bs ! 1 = 0 \<or> bs ! 0 = 0"
    using b [of 0] b [of 1] b [of 2] b [of 3] b [of 4] b [of 5] b [of 6] b [of 7] by (simp add: has_zero_byte_def)
  also have "\<dots> \<longleftrightarrow> (\<exists>i<8. bs ! i = 0)" by (auto simp: eval_nat_numeral less_Suc_eq)
  also have "\<dots> \<longleftrightarrow> 0 \<in> set bs" using assms by (auto simp: in_set_conv_nth)
  finally show ?thesis .
qed

text \<open>
  The word loop: the string and its null byte, padded to whole words, can be read; only the string is
  written.
\<close>

lemma strcpy_words_spec:
  assumes "holds m s (str @ 0 # pad)" "0 \<notin> set str" "writable m d (Suc (length str))"
    and "length str + 1 + length pad \<le> 2 ^ 64" "(length str + 1 + length pad) mod 8 = 0"
    and "apart d (Suc (length str)) s (length str + 1 + length pad)"
  shows "strcpy_words d s m = Some (mem_put m d (str @ [0]))"
  using assms
proof (induction "length str" arbitrary: str m d s rule: less_induct)
  case less
  let ?all = "str @ 0 # pad"
  define bs where "bs = take 8 ?all"
  have "8 \<le> length ?all" using less.prems(5) by (cases "length ?all < 8") auto
  then have len: "length bs = 8" by (simp add: bs_def)
  have split: "?all = bs @ drop 8 ?all" unfolding bs_def by (rule append_take_drop_id [symmetric])
  have "holds m s bs" using less.prems(1) by (subst (asm) split) (simp only: holds_append)
  then have ld: "ld64 m s = Some (le_word bs)" using len by (simp add: ld64_def ld_n_iff [THEN iffD2])
  show ?case
  proof (cases "length str < 8")
    case True
    have "bs ! length str = 0" using True by (simp add: bs_def nth_append)
    then have z: "0 \<in> set bs" using True len nth_mem [of "length str" bs] by simp
    show ?thesis
    proof (cases "le_word bs = (0 :: u64)")
      case zero: True
      have "le_bytes (0 :: u64) = replicate 8 0" by (simp add: le_bytes_def map_replicate_const)
      then have "bs = replicate 8 0" using le_bytes_word [OF len] zero by simp
      then have "bs ! 0 = 0" by simp
      then have str: "str = []" using less.prems(2) by (cases str) (auto simp: bs_def)
      with ld zero less.prems(3) mem_put_snoc [of "[]" m d 0] show ?thesis
        by (subst strcpy_words.simps) (simp add: st8_Some writable_Suc)
    next
      case False
      have "holds m s (str @ [0])" using less.prems(1) holds_append [of m s "str @ [0]" pad] by simp
      moreover have "apart d (Suc (length str)) s (Suc (length str))" by (rule apart_mono [OF less.prems(6)]) simp_all
      ultimately have "strcpy_bytes d s m = Some (mem_put m d (str @ [0]))"
        using less.prems(2-4) True by (intro strcpy_bytes_spec) simp_all
      with ld False z has_zero_byte_iff [OF len] show ?thesis by (subst strcpy_words.simps) simp
    qed
  next
    case False
    let ?str = "drop 8 str"
    have bs: "bs = take 8 str" using False by (simp add: bs_def)
    then have str: "str = bs @ ?str" and nz: "0 \<notin> set bs" using less.prems(2) by (auto dest: in_set_takeD)
    have len': "length str = 8 + length ?str" using False by simp
    have "le_bytes (0 :: u64) = replicate 8 0" by (simp add: le_bytes_def map_replicate_const)
    then have "le_word bs \<noteq> (0 :: u64)" using le_bytes_word [OF len] nz by (metis in_set_replicate zero_neq_numeral)
    moreover have "writable m d (length bs)" by (rule writable_mono [OF less.prems(3)]) (use len False in simp)
    then have "st64 m d (le_word bs) = Some (mem_put m d bs)"
      unfolding st64_def le_bytes_word [OF len] by (rule st_n_put) (simp add: len)
    moreover have "strcpy_words (d + 8) (s + 8) (mem_put m d bs) = Some (mem_put (mem_put m d bs) (d + 8) (?str @ [0]))"
    proof (rule less.hyps)
      have ap: "apart d (8 + Suc (length ?str)) s (8 + (length ?str + 1 + length pad))"
        by (rule apart_mono [OF less.prems(6)]) (use len' in simp_all)
      have "holds m (s + 8) (?str @ 0 # pad)"
      proof -
        have "holds m s (bs @ ?str @ 0 # pad)" using less.prems(1) str by (metis append_assoc)
        then show ?thesis unfolding holds_append [of m s bs] using len by simp
      qed
      moreover have "apart d 8 (s + 8) (length ?str + 1 + length pad)" unfolding apart_def
      proof (intro allI impI)
        fix i assume "i < length ?str + 1 + length pad"
        then have "8 + i < 8 + (length ?str + 1 + length pad)" by simp
        from apart_at [OF ap this] show "8 \<le> unat (s + 8 + of_nat i - d)" by (simp add: add.assoc)
      qed
      ultimately show "holds (mem_put m d bs) (s + 8) (?str @ 0 # pad)" using len by (intro holds_put) simp_all
      show "writable (mem_put m d bs) (d + 8) (Suc (length ?str))"
      proof (rule writable_put)
        have "m (d + of_nat (8 + i)) \<noteq> None" if "i < Suc (length ?str)" for i
        proof -
          have "8 + i < Suc (length str)" using that False by simp
          with less.prems(3) show ?thesis unfolding writable_def by blast
        qed
        then show "writable m (d + 8) (Suc (length ?str))" by (simp add: writable_def add.assoc)
      qed
      show "apart (d + 8) (Suc (length ?str)) (s + 8) (length ?str + 1 + length pad)" using apart_shift [OF ap] by simp
      show "0 \<notin> set ?str" using less.prems(2) by (auto dest: in_set_dropD)
      show "length ?str + 1 + length pad \<le> 2 ^ 64" "(length ?str + 1 + length pad) mod 8 = 0" "length ?str < length str"
      proof -
        have "length str + 1 + length pad = 8 + (length ?str + 1 + length pad)" using False by simp
        with less.prems(4,5) show "length ?str + 1 + length pad \<le> 2 ^ 64" "(length ?str + 1 + length pad) mod 8 = 0"
          by (simp_all only: mod_add_self1)
        show "length ?str < length str" using False by simp
      qed
    qed
    moreover have "mem_put (mem_put m d bs) (d + 8) (?str @ [0]) = mem_put m d (str @ [0])"
    proof -
      have "mem_put (mem_put m d bs) (d + of_nat (length bs)) (?str @ [0]) = mem_put m d (bs @ ?str @ [0])"
        by (rule mem_put_append) (use len False less.prems(4) in simp)
      moreover have "bs @ ?str @ [0] = str @ [0]" using str by (metis append_assoc)
      ultimately show ?thesis using len by simp
    qed
    ultimately show ?thesis using ld nz has_zero_byte_iff [OF len] by (subst strcpy_words.simps) simp
  qed
qed

lemma strncpy_loop_spec:
  assumes h: "holds m src (str @ [0])" "0 \<notin> set str" and w: "writable m dest mx" "mx \<le> 2 ^ 64"
    and ap: "apart dest mx src (Suc (length str))"
  shows "i \<le> length str \<Longrightarrow> i < mx \<Longrightarrow>
    strncpy_loop dest src mx i (mem_put m dest (take i str)) =
      Some (min (length str) (mx - 1), mem_put m dest (take (mx - 1) str))"
proof (induction "mx - i" arbitrary: i)
  case (Suc k)
  let ?m = "mem_put m dest (take i str)"
  have "i < Suc (length str)" using Suc.prems(1) by simp
  from apart_at [OF ap this] have "length (take i str) \<le> unat (src + of_nat i - dest)" using Suc.prems by simp
  then have "?m (src + of_nat i) = m (src + of_nat i)" by (rule mem_put_other)
  also have "m (src + of_nat i) = Some ((str @ [0]) ! i)" using h(1) Suc.prems(1) by (simp add: holds_def)
  finally have c: "?m (src + of_nat i) = Some ((str @ [0]) ! i)" .
  show ?case
  proof (cases "i + 1 < mx \<and> i < length str")
    case True
    then have ci: "(str @ [0]) ! i = str ! i" "str ! i \<noteq> 0" using h(2) by (auto simp: nth_append dest: nth_mem)
    have "m (dest + of_nat i) \<noteq> None" using w(1) Suc.prems(2) by (simp add: writable_def)
    then have "st8 ?m (dest + of_nat i) (str ! i) = Some (?m(dest + of_nat i \<mapsto> str ! i))" by (intro st8_Some mem_put_dom)
    also have "?m(dest + of_nat i \<mapsto> str ! i) = mem_put m dest (take (Suc i) str)"
      using mem_put_snoc [of "take i str" m dest "str ! i"] True w(2) by (simp add: take_Suc_conv_app_nth min_def)
    finally have "st8 ?m (dest + of_nat i) (str ! i) = Some (mem_put m dest (take (Suc i) str))" .
    with True c ci Suc.hyps(1) [of "Suc i"] Suc.hyps(2) show ?thesis by (subst strncpy_loop.simps) auto
  next
    case False
    then have "mx = Suc i \<or> i = length str" using Suc.prems by linarith
    with c Suc.prems show ?thesis by (subst strncpy_loop.simps) (auto simp: nth_append)
  qed
qed simp

lemma digit_byte:
  assumes "unat (r :: u64) < 10"
  shows "unat (48 + ucast r :: u8) = 48 + unat r"
proof -
  have "unat (ucast r :: u8) = unat r" using assms by (simp add: unsigned_ucast_eq take_bit_nat_eq_self)
  then show ?thesis using assms by (simp add: unat_word_ariths)
qed

lemma unat_mod_10: "unat (n - n div 10 * 10 :: u64) = unat n mod 10" "unat (n div 10 :: u64) = unat n div 10"
  by (simp_all add: minus_div_mult_eq_mod unat_mod unat_div)

lemma itoa_digits_spec:
  shows "fold (\<lambda>d v. 10 * v + (unat d - 48)) (itoa_digits n acc) 0 = fold (\<lambda>d v. 10 * v + (unat d - 48)) acc (unat n)"
    and "unat n < 10 ^ Suc k \<Longrightarrow> length (itoa_digits n acc) \<le> Suc k + length acc"
    and "\<forall>d\<in>set (itoa_digits n acc). d \<in> set acc \<or> 48 \<le> unat d \<and> unat d \<le> 57"
    and "n \<noteq> 0 \<Longrightarrow> itoa_digits n acc \<noteq> [] \<and> hd (itoa_digits n acc) \<noteq> 48"
proof (induction n acc arbitrary: k rule: itoa_digits.induct)
  case (1 n acc)
  let ?d = "48 + ucast (n - n div 10 * 10) :: u8"
  have d: "unat ?d = 48 + unat n mod 10" using digit_byte [of "n - n div 10 * 10"] by (simp add: unat_mod_10)
  {
    case 1
    show ?case
    proof (cases "n \<ge> 10")
      case True
      have "10 * (unat n div 10) + unat n mod 10 = unat n" by simp
      with "1.IH"(1) [OF True refl] True d show ?thesis
        by (simp add: itoa_digits.simps [of n] Let_def unat_mod_10)
    next
      case False
      then have "unat n < 10" by (simp add: word_le_nat_alt)
      with digit_byte [of n] False show ?thesis by (simp add: itoa_digits.simps [of n])
    qed
  next
    case 2
    show ?case
    proof (cases "n \<ge> 10")
      case True
      then have "10 \<le> unat n" by (simp add: word_le_nat_alt)
      then obtain j where "k = Suc j" using 2 by (cases k) auto
      then have "unat (n div 10) < 10 ^ Suc j" using 2 by (simp add: unat_mod_10 less_mult_imp_div_less mult.commute)
      from "1.IH"(2) [OF True refl this] True \<open>k = Suc j\<close> show ?thesis by (simp add: itoa_digits.simps [of n] Let_def)
    qed (simp add: itoa_digits.simps [of n])
  next
    case 3
    show ?case
    proof (cases "n \<ge> 10")
      case True
      with "1.IH"(3) [OF True refl] d show ?thesis by (auto simp: itoa_digits.simps [of n] Let_def)
    next
      case False
      then have "unat n < 10" by (simp add: word_le_nat_alt)
      with digit_byte [of n] False show ?thesis by (auto simp: itoa_digits.simps [of n])
    qed
  next
    case 4
    show ?case
    proof (cases "n \<ge> 10")
      case True
      then have "unat (n div 10) \<noteq> 0" by (simp add: unat_mod_10 word_le_nat_alt div_eq_0_iff)
      then have "n div 10 \<noteq> 0" by auto
      from "1.IH"(4) [OF True refl this] True show ?thesis by (simp add: itoa_digits.simps [of n] Let_def)
    next
      case False
      then have "unat n < 10" by (simp add: word_le_nat_alt)
      with digit_byte [of n] have "unat (48 + ucast n :: u8) \<noteq> unat (48 :: u8)" using 4 by (simp add: unat_eq_0)
      then show ?thesis using False by (auto simp: itoa_digits.simps [of n])
    qed
  }
qed

lemma hex_step: "unat (drop_bit k n :: u64) = 16 * unat (drop_bit (k + 4) n) + unat (drop_bit k n AND 0xF)"
proof -
  have "drop_bit (k + 4) n = drop_bit 4 (drop_bit k n)" by (simp add: drop_bit_drop_bit add.commute)
  then have "unat (drop_bit (k + 4) n) = unat (drop_bit k n) div 16" by (simp only: unat_drop_bit_eq drop_bit_nat_def) simp
  moreover have "(0xF :: u64) = mask 4" by (simp add: mask_eq_exp_minus_1)
  then have "drop_bit k n AND 0xF = take_bit 4 (drop_bit k n)" by (simp only: take_bit_eq_mask)
  then have "unat (drop_bit k n AND 0xF) = unat (drop_bit k n) mod 16" by (simp only: unsigned_take_bit_eq take_bit_nat_def) simp
  ultimately show ?thesis by simp
qed

lemma hex_val_at: "hex_val (hex_at n k) = unat (drop_bit k n AND 0xF)"
proof -
  have "(0xF :: u64) = mask 4" by (simp add: mask_eq_exp_minus_1)
  then have "drop_bit k n AND 0xF = take_bit 4 (drop_bit k n)" by (simp only: take_bit_eq_mask)
  then have "unat (drop_bit k n AND 0xF) < 16" by (simp only: unsigned_take_bit_eq take_bit_nat_def) simp
  moreover have "hex_val (hex_chars ! i) = i" if "i < 16" for i
  proof -
    have "map hex_val hex_chars = [0, 1, 2, 3, 4, 5, 6, 7, 8, 9, 10, 11, 12, 13, 14, 15]"
      by (simp add: hex_val_def hex_chars_def)
    also have "\<dots> = [0..<16]" by (simp add: upt_rec)
    finally have "map hex_val hex_chars ! i = i" using that by simp
    moreover have "i < length hex_chars" using that by (simp add: hex_chars_def)
    ultimately show ?thesis by (simp only: nth_map)
  qed
  ultimately show ?thesis by (simp add: hex_at_def)
qed

lemma find_nul_spec:
  "holds m d (str @ [0]) \<Longrightarrow> 0 \<notin> set str \<Longrightarrow> find_nul m d = Some (d + of_nat (length str))"
  by (induction str arbitrary: d) (subst find_nul.simps, auto simp: holds_Cons add.assoc)+

lemma strcpy_spec:
  assumes "holds m src (str @ 0 # pad)" "0 \<notin> set str" "writable m dest (Suc (length str))"
    and "length str + 1 + length pad \<le> 2 ^ 64" "(length str + 1 + length pad) mod 8 = 0"
    and "apart dest (Suc (length str)) src (length str + 1 + length pad)" "dest \<noteq> 0" "src \<noteq> 0"
  shows "strcpy dest src m = Some (mem_put m dest (str @ [0]))" "strcpy_bytes dest src m = Some (mem_put m dest (str @ [0]))"
proof -
  have "holds m src (str @ [0])" using assms(1) holds_append [of m src "str @ [0]" pad] by simp
  moreover have "apart dest (Suc (length str)) src (Suc (length str))" by (rule apart_mono [OF assms(6)]) simp_all
  ultimately show b: "strcpy_bytes dest src m = Some (mem_put m dest (str @ [0]))"
    using assms(2-4) by (intro strcpy_bytes_spec) simp_all
  show "strcpy dest src m = Some (mem_put m dest (str @ [0]))"
    using b strcpy_words_spec [OF assms(1-6)] assms(7,8) by (simp add: strcpy_def)
qed

lemma mem_demo_ok: "holds mem_demo 4096 [72, 105, 33, 0, 0, 0, 0, 0]" "writable mem_demo 4128 8"
proof -
  have "unat (4096 + of_nat i - 4096 :: u64) = i" if "i < 8" for i using that by (simp add: unat_of_nat)
  then show "holds mem_demo 4096 [72, 105, 33, 0, 0, 0, 0, 0]"
    by (auto simp: holds_def mem_demo_def mem_put_def nth_Cons' numeral_eq_Suc)
  have "unat (4128 + of_nat i - 4096 :: u64) = 32 + i" if "i < 8" for i
  proof -
    have "(4128 + of_nat i - 4096 :: u64) = of_nat (32 + i)" by simp
    then show ?thesis using that by (simp only: unat_of_nat) simp
  qed
  then show "writable mem_demo 4128 8" by (auto simp: writable_def mem_demo_def mem_put_def)
qed

lemma demo_apart: "n \<le> 8 \<Longrightarrow> apart 4128 n 4096 8"
  unfolding apart_def
proof (intro allI impI)
  fix i :: nat assume "n \<le> 8" "i < 8"
  then have "unat (4096 + of_nat i :: u64) = 4096 + i" by (simp add: unat_word_ariths unat_of_nat)
  with \<open>n \<le> 8\<close> \<open>i < 8\<close> show "n \<le> unat (4096 + of_nat i - 4128 :: u64)"
    by (simp only: unat_sub_if_size) (simp add: word_size)
qed

lemma memset_spec:
  assumes "writable m s n" "n \<le> 2 ^ 64"
  shows "memset s c n m = Some (mem_put m s (replicate n (word_of_int c)))"
  using for_upto_put [OF assms, of "\<lambda>_. word_of_int c"] by (simp add: memset_def map_replicate_const)

lemma strcat_spec:
  assumes "holds m dest (old @ [0])" "0 \<notin> set old" "holds m src (str @ 0 # pad)" "0 \<notin> set str"
    and "writable m (dest + of_nat (length old)) (Suc (length str))"
    and "length str + 1 + length pad \<le> 2 ^ 64" "(length str + 1 + length pad) mod 8 = 0"
    and "apart (dest + of_nat (length old)) (Suc (length str)) src (length str + 1 + length pad)"
    and "dest \<noteq> 0" "src \<noteq> 0" "dest + of_nat (length old) \<noteq> 0"
  shows "strcat dest src m = Some (mem_put m (dest + of_nat (length old)) (str @ [0]))"
  using find_nul_spec [OF assms(1,2)] strcpy_spec(1) [OF assms(3-8,11,10)] assms(9,10) by (simp add: strcat_def)

lemma index_of_Some:
  "index_of P xs = Some i \<Longrightarrow> i < length xs \<and> P (xs ! i) \<and> (\<forall>j<i. \<not> P (xs ! j))"
  by (induction xs arbitrary: i) (auto split: if_splits simp: less_Suc_eq_0_disj)

section \<open>Properties\<close>

text \<open>
  C39 \<open>memmove\<close> puts a copy of the source block at the destination whether or not the two overlap, and
  changes nothing else; the blocks may not wrap round the address space.
\<close>

theorem memmove_copies:
  assumes "holds m src bs" "writable m dest (length bs)"
    and "unat src + length bs \<le> 2 ^ 64" "unat dest + length bs \<le> 2 ^ 64"
  shows "memmove dest src (length bs) m = Some (mem_put m dest bs)"
proof -
  consider "dest < src" | "src < dest" | "dest = src" by fastforce
  then show ?thesis
  proof cases
    case 3
    have "mem_put m src bs = m"
    proof
      fix x
      have "m x = Some (bs ! unat (x - src))" if "unat (x - src) < length bs"
        using assms(1) that unfolding holds_def by fastforce
      then show "mem_put m src bs x = m x" by (simp add: mem_put_def)
    qed
    with 3 show ?thesis by (simp add: memmove_def)
  qed (use memmove_down [OF assms(1,2) _ assms(3)] memmove_up [OF assms(1,2) _ assms(4)] in auto)
qed

theorem memmove_copies_witness:
  "memmove 4097 4096 3 mem_demo = Some (mem_put mem_demo 4097 [72, 105, 33])"
proof -
  have h: "holds mem_demo 4096 [72, 105, 33]" using mem_demo_ok(1) by (auto simp: holds_def nth_Cons' numeral_eq_Suc)
  have "writable mem_demo 4097 3" using mem_demo_ok(1) by (auto simp: holds_Cons writable_Suc numeral_3_eq_3)
  from memmove_copies [of mem_demo 4096 "[72, 105, 33]" 4097] h this show ?thesis by (simp add: numeral_3_eq_3)
qed

text \<open>
  C40 \<open>strcpy\<close> copies the string and its null byte and writes nothing else, and the word-at-a-time loop it
  runs on aligned pointers gives the same memory as the byte loop. The source is readable up to the
  end of the word that holds the null byte, and no byte read lies in the destination.
\<close>

theorem strcpy_words_equal_bytes:
  assumes "holds m src (str @ 0 # pad)" "0 \<notin> set str" "writable m dest (Suc (length str))"
    and "length str + 1 + length pad \<le> 2 ^ 64" "(length str + 1 + length pad) mod 8 = 0"
    and "apart dest (Suc (length str)) src (length str + 1 + length pad)" "dest \<noteq> 0" "src \<noteq> 0"
  shows "strcpy dest src m = strcpy_bytes dest src m \<and> strcpy dest src m = Some (mem_put m dest (str @ [0]))"
  using strcpy_spec [OF assms] by simp

theorem strcpy_words_equal_bytes_witness:
  "(4128 :: u64) AND 7 = 0 \<and> (4096 :: u64) AND 7 = 0 \<and> strcpy 4128 4096 mem_demo = Some (mem_put mem_demo 4128 [72, 105, 33, 0])"
proof -
  let ?str = "[72, 105, 33] :: u8 list" and ?pad = "[0, 0, 0, 0] :: u8 list"
  have "holds mem_demo 4096 (?str @ 0 # ?pad)" "0 \<notin> set ?str" using mem_demo_ok(1) by simp_all
  moreover have "writable mem_demo 4128 (Suc (length ?str))" by (rule writable_mono [OF mem_demo_ok(2)]) simp
  moreover have "apart 4128 (Suc (length ?str)) 4096 (length ?str + 1 + length ?pad)"
    by (rule apart_mono [OF demo_apart [of 4]]) simp_all
  ultimately have "strcpy 4128 4096 mem_demo = Some (mem_put mem_demo 4128 (?str @ [0]))"
    by (intro strcpy_words_equal_bytes [of mem_demo 4096 ?str ?pad 4128, THEN conjunct2]) simp_all
  then show ?thesis by simp
qed

text \<open>
  \<open>strncpy\<close> with a bound of at least one byte writes the longest prefix of the string that leaves room
  for the null byte, then the null byte, and nothing else: the destination is always terminated and
  never written past the bound.
\<close>

theorem strncpy_terminates_string:
  assumes "holds m src (str @ [0])" "0 \<notin> set str" "writable m dest mx" "mx \<le> 2 ^ 64" "0 < mx"
    and "apart dest mx src (Suc (length str))" "dest \<noteq> 0" "src \<noteq> 0"
  shows "strncpy dest src mx m = Some (mem_put m dest (take (mx - 1) str @ [0]))"
proof -
  let ?t = "take (mx - 1) str"
  have loop: "strncpy_loop dest src mx 0 m = Some (min (length str) (mx - 1), mem_put m dest ?t)"
    using strncpy_loop_spec [OF assms(1-4,6), of 0] assms(5) by simp
  have "length ?t < mx" using assms(5) by auto
  then have "m (dest + of_nat (length ?t)) \<noteq> None" using assms(3) by (simp add: writable_def)
  then have "st8 (mem_put m dest ?t) (dest + of_nat (length ?t)) 0 = Some ((mem_put m dest ?t)(dest + of_nat (length ?t) \<mapsto> 0))"
    by (intro st8_Some mem_put_dom)
  moreover have "(mem_put m dest ?t)(dest + of_nat (length ?t) \<mapsto> 0) = mem_put m dest (?t @ [0])"
    by (rule mem_put_snoc) (use \<open>length ?t < mx\<close> assms(4) in linarith)
  ultimately show ?thesis using loop assms(7,8) by (simp add: strncpy_def)
qed

theorem strncpy_terminates_string_witness:
  "strncpy 4128 4096 3 mem_demo = Some (mem_put mem_demo 4128 [72, 105, 0])"
proof -
  have "holds mem_demo 4096 ([72, 105, 33] @ [0])" using mem_demo_ok(1) by (simp add: holds_Cons)
  moreover have "apart 4128 3 4096 (Suc (length ([72, 105, 33] :: u8 list)))"
    by (rule apart_mono [OF demo_apart [of 3]]) simp_all
  moreover have "writable mem_demo 4128 3" by (rule writable_mono [OF mem_demo_ok(2)]) simp
  ultimately have "strncpy 4128 4096 3 mem_demo = Some (mem_put mem_demo 4128 (take (3 - 1) [72, 105, 33] @ [0]))"
    by (intro strncpy_terminates_string) simp_all
  then show ?thesis by (simp add: take_Cons')
qed

text \<open>
  \<open>itoa\<close> writes the decimal digits of the number, without leading zeros, and a null byte: reading the
  digits back gives the number, they are at most 20, so the local buffer of 21 bytes is large enough.
\<close>

theorem itoa_roundtrip:
  assumes "writable m buffer 21" "buffer \<noteq> 0"
  shows "\<exists>ds. itoa n buffer m = Some (mem_put m buffer (ds @ [0])) \<and> digits_value ds = unat n \<and>
    0 < length ds \<and> length ds \<le> 20 \<and> (\<forall>d\<in>set ds. 48 \<le> unat d \<and> unat d \<le> 57) \<and> (hd ds = 48 \<longrightarrow> n = 0)"
proof (cases "n = 0")
  case True
  have "st_n m buffer ([48] @ [0]) = Some (mem_put m buffer ([48] @ [0]))"
    by (rule st_n_put) (use writable_mono [OF assms(1)] in simp_all)
  with True show ?thesis by (intro exI [of _ "[48]"]) (simp add: itoa_def digits_value_def)
next
  case False
  let ?ds = "itoa_digits n []"
  have "unat n < 10 ^ Suc 19" using unat_lt64 [of n] by simp
  from itoa_digits_spec(2) [OF this, of "[]"] have len: "length ?ds \<le> 20" by simp
  have "st_n m buffer (?ds @ [0]) = Some (mem_put m buffer (?ds @ [0]))"
    by (rule st_n_put) (use writable_mono [OF assms(1)] len in simp_all)
  with False assms(2) len have "itoa n buffer m = Some (mem_put m buffer (?ds @ [0]))" by (simp add: itoa_def)
  with len itoa_digits_spec(1,3) [of n "[]"] itoa_digits_spec(4) [OF False, of "[]"] show ?thesis
    by (intro exI [of _ ?ds]) (auto simp: digits_value_def)
qed

theorem itoa_roundtrip_witness:
  "\<exists>m ds. itoa 1234 4096 m = Some (mem_put m 4096 (ds @ [0])) \<and> digits_value ds = 1234"
  using itoa_roundtrip [of "\<lambda>_. Some 0" 4096 1234] by (auto simp: writable_def)

text \<open>
  \<open>htoa\<close> writes 0x, sixteen hexadecimal digits and a null byte; the digits read back give the number.
\<close>

theorem htoa_roundtrip:
  assumes "writable m buffer 19" "buffer \<noteq> 0"
  shows "\<exists>ds. htoa n buffer m = Some (mem_put m buffer ([48, 120] @ ds @ [0])) \<and> length ds = 16 \<and>
    fold (\<lambda>c v. 16 * v + hex_val c) ds 0 = unat n"
proof -
  let ?ds = "[hex_at n 60, hex_at n 56, hex_at n 52, hex_at n 48, hex_at n 44, hex_at n 40,
        hex_at n 36, hex_at n 32, hex_at n 28, hex_at n 24, hex_at n 20, hex_at n 16, hex_at n 12, hex_at n 8,
        hex_at n 4, hex_at n 0]"
  have "drop_bit 64 n = 0" by (rule bit_word_eqI) (simp add: bit_simps)
  with hex_step [of 60 n] have "hex_val (hex_at n 60) = unat (drop_bit 60 n)" by (simp add: hex_val_at)
  then have "fold (\<lambda>c v. 16 * v + hex_val c) ?ds 0 = unat n"
    using hex_step [of 56 n] hex_step [of 52 n] hex_step [of 48 n] hex_step [of 44 n] hex_step [of 40 n]
      hex_step [of 36 n] hex_step [of 32 n] hex_step [of 28 n] hex_step [of 24 n] hex_step [of 20 n]
      hex_step [of 16 n] hex_step [of 12 n] hex_step [of 8 n] hex_step [of 4 n] hex_step [of 0 n]
    by (simp add: hex_val_at)
  moreover have "htoa n buffer m = Some (mem_put m buffer ([48, 120] @ ?ds @ [0]))"
  proof -
    have "writable m buffer (length ([48, 120] @ ?ds @ [0]))" by (rule writable_mono [OF assms(1)]) simp
    then have "st_n m buffer ([48, 120] @ ?ds @ [0]) = Some (mem_put m buffer ([48, 120] @ ?ds @ [0]))"
      by (rule st_n_put) simp
    then show ?thesis using assms(2) unfolding htoa_def append_Cons append_Nil by (simp only: if_False)
  qed
  ultimately show ?thesis by (intro exI [of _ ?ds]) simp
qed

theorem htoa_roundtrip_witness:
  "\<exists>m ds. htoa 0xBEEF 4096 m = Some (mem_put m 4096 ([48, 120] @ ds @ [0])) \<and> fold (\<lambda>c v. 16 * v + hex_val c) ds 0 = 0xBEEF"
  using htoa_roundtrip [of "\<lambda>_. Some 0" 4096 "0xBEEF"] by (auto simp: writable_def)

text \<open>
  \<open>strsep\<close> splits a string at the first byte of the set: the token is the string before it, now
  terminated, and \<open>*s\<close> points to the rest; without such a byte the token is the whole string and
  \<open>*s\<close> becomes null.
\<close>

theorem strsep_splits:
  assumes "cs (at m s) str" "cs ct t" "s \<noteq> 0" "length str < 2 ^ 64"
  shows "case index_of (\<lambda>c. c \<in> set t) str of
      None \<Rightarrow> strsep s ct m = Some (s, 0, m)
    | Some i \<Rightarrow> \<exists>m'. strsep s ct m = Some (s, s + of_nat i + 1, m') \<and> m' = m(s + of_nat i \<mapsto> 0) \<and>
        cs (at m' s) (take i str) \<and> cs (at m' (s + of_nat i + 1)) (drop (Suc i) str)"
proof (cases "index_of (\<lambda>c. c \<in> set t) str")
  case None
  then show ?thesis
    using strpbrk_from_spec [of "at m s" 0 str ct t] assms(1-3) by (simp add: strsep_def strpbrk_def cs_def)
next
  case (Some i)
  let ?m = "m(s + of_nat i \<mapsto> 0)"
  have i: "i < length str" using index_of_Some [OF Some] by simp
  have str: "\<And>j. j < length str \<Longrightarrow> m (s + of_nat j) = Some (str ! j)" "m (s + of_nat (length str)) = Some 0" "0 \<notin> set str"
    using assms(1) by (simp_all add: cs_iff at_def)
  have other: "?m (s + of_nat j) = m (s + of_nat j)" if "j \<le> length str" "j \<noteq> i" for j
  proof -
    have "j < 2 ^ 64" "i < 2 ^ 64" using that i assms(4) by auto
    then have "(of_nat j :: u64) \<noteq> of_nat i" using that(2) offset_iff [of i "of_nat j" 0] by (simp add: unat_of_nat)
    then show ?thesis by simp
  qed
  have "strsep s ct m = Some (s, s + of_nat i + 1, ?m)"
    using strpbrk_from_spec [of "at m s" 0 str ct t] assms(1-3) Some str(1) [OF i]
    by (simp add: strsep_def strpbrk_def cs_def st8_def)
  moreover have "cs (at ?m s) (take i str)"
    using other str i by (auto simp: cs_iff at_def dest: in_set_takeD)
  moreover have "cs (at ?m (s + of_nat i + 1)) (drop (Suc i) str)"
  proof -
    have "at ?m (s + of_nat i + 1) j = m (s + of_nat (Suc i + j))" if "Suc i + j \<le> length str" for j
      using other [of "Suc i + j"] that by (simp add: at_def algebra_simps)
    moreover have "Suc i + (length str - Suc i) = length str" using i by simp
    ultimately show ?thesis using str i by (auto simp: cs_iff dest: in_set_dropD simp del: of_nat_Suc)
  qed
  ultimately show ?thesis using Some by simp
qed

theorem strsep_splits_witness:
  "\<exists>m'. strsep 4096 (lit [105]) mem_demo = Some (4096, 4098, m') \<and> cs (at m' 4096) [72] \<and> cs (at m' 4098) [33]"
proof -
  have "cs (at mem_demo 4096) [72, 105, 33]" using mem_demo_ok(1) by (simp add: holds_Cons cs_def at_def)
  from strsep_splits [OF this, of "lit [105]" "[105]"] show ?thesis by simp
qed

end
