(* ===== verification/Fdt.thy ===== *)
theory Fdt
  imports CString_Copy
begin

text \<open>
  The flattened device tree as the kernel reads it (\<open>src/include/dtb.h\<close> and the helpers both parsers
  share): big-endian words in memory, the header, names and alignment. A blob that is well formed
  holds a stream of tokens; \<open>toks_at\<close> says which, and an encoder shows that every stream can be held.
  The parsers of \<open>src/mm/pmm.c\<close> and \<open>src/drivers/dtb.c\<close> are shown to compute functions of the stream.
\<close>

section \<open>Definitions\<close>

definition DTB_BEGIN_NODE :: u32 where "DTB_BEGIN_NODE = 1"
definition DTB_END_NODE :: u32 where "DTB_END_NODE = 2"
definition DTB_PROP :: u32 where "DTB_PROP = 3"
definition DTB_NOP :: u32 where "DTB_NOP = 4"
definition DTB_END :: u32 where "DTB_END = 9"

text \<open>A 32-bit load on the little-endian machine and the byte swap of \<open>be32_to_cpu\<close>.\<close>

definition ld32 :: "cmem \<Rightarrow> u64 \<Rightarrow> u32 option" where
  "ld32 m a = do { bs \<leftarrow> ld_n m a 4; Some (le_word bs) }"

definition be32_to_cpu :: "u32 \<Rightarrow> u32" where
  "be32_to_cpu val = push_bit 24 (val AND 0xFF) OR push_bit 8 (val AND 0xFF00) OR
     drop_bit 8 (val AND 0xFF0000) OR drop_bit 24 (val AND 0xFF000000)"

definition ld_be32 :: "cmem \<Rightarrow> u64 \<Rightarrow> u32 option" where
  "ld_be32 m a = do { v \<leftarrow> ld32 m a; Some (be32_to_cpu v) }"

text \<open>The fields of \<open>struct dtb_header\<close>, by their offsets.\<close>

definition hdr_magic :: "cmem \<Rightarrow> u64 \<Rightarrow> u32 option" where "hdr_magic m fdt = ld_be32 m fdt"
definition hdr_totalsize :: "cmem \<Rightarrow> u64 \<Rightarrow> u32 option" where "hdr_totalsize m fdt = ld_be32 m (fdt + 4)"
definition hdr_off_struct :: "cmem \<Rightarrow> u64 \<Rightarrow> u32 option" where "hdr_off_struct m fdt = ld_be32 m (fdt + 8)"
definition hdr_off_strings :: "cmem \<Rightarrow> u64 \<Rightarrow> u32 option" where "hdr_off_strings m fdt = ld_be32 m (fdt + 12)"

text \<open>The word at offset \<open>p\<close> of the blob.\<close>

definition rd_tok :: "cmem \<Rightarrow> u64 \<Rightarrow> u32 \<Rightarrow> u32 option" where
  "rd_tok m fdt p = ld_be32 m (fdt + ucast p)"

definition align4 :: "u32 \<Rightarrow> u32" where
  "align4 x = (x + 3) AND NOT 3"

text \<open>\<open>size_t n = 0; while (name[n] != '\0') n++;\<close>\<close>

partial_function (option) name_len_from :: "reader \<Rightarrow> nat \<Rightarrow> nat option" where
  "name_len_from r n = Option.bind (r n) (\<lambda>c. if c \<noteq> 0 then name_len_from r (Suc n) else Some n)"

subsection \<open>Token streams\<close>

datatype tok = Begin_node "u8 list" | End_node | Prop "u8 list" "u8 list" | Nop

text \<open>
  The stream held from offset \<open>p\<close> on, up to \<open>DTB_END\<close>. Property names are strings of the block at
  \<open>strings\<close>; names and data are followed by padding to the next multiple of four.
\<close>

definition tok_size :: "tok \<Rightarrow> nat" where
  "tok_size t = (case t of Begin_node nm \<Rightarrow> 4 + (length nm + 4) div 4 * 4 | End_node \<Rightarrow> 4
     | Prop nm data \<Rightarrow> 12 + (length data + 3) div 4 * 4 | Nop \<Rightarrow> 4)"

definition tok_at :: "cmem \<Rightarrow> u64 \<Rightarrow> u64 \<Rightarrow> u32 \<Rightarrow> tok \<Rightarrow> bool" where
  "tok_at m fdt strings p t = (case t of
     Begin_node nm \<Rightarrow> rd_tok m fdt p = Some DTB_BEGIN_NODE \<and> cs (at m (fdt + ucast (p + 4))) nm
   | End_node \<Rightarrow> rd_tok m fdt p = Some DTB_END_NODE
   | Prop nm data \<Rightarrow> rd_tok m fdt p = Some DTB_PROP \<and> rd_tok m fdt (p + 4) = Some (of_nat (length data)) \<and>
       (\<exists>nameoff. rd_tok m fdt (p + 8) = Some nameoff \<and> cs (at m (strings + ucast nameoff)) nm) \<and>
       holds m (fdt + ucast (p + 12)) data
   | Nop \<Rightarrow> rd_tok m fdt p = Some DTB_NOP)"

fun toks_at :: "cmem \<Rightarrow> u64 \<Rightarrow> u64 \<Rightarrow> u32 \<Rightarrow> tok list \<Rightarrow> bool" where
  "toks_at m fdt strings p [] \<longleftrightarrow> rd_tok m fdt p = Some DTB_END"
| "toks_at m fdt strings p (t # ts) \<longleftrightarrow> tok_at m fdt strings p t \<and> tok_size t < 2 ^ 31 \<and>
     toks_at m fdt strings (p + of_nat (tok_size t)) ts"

text \<open>A blob at \<open>fdt\<close>, not null, with the right magic number and a stream of tokens.\<close>

definition fdt_holds :: "cmem \<Rightarrow> u64 \<Rightarrow> tok list \<Rightarrow> bool" where
  "fdt_holds m fdt ts \<longleftrightarrow> fdt \<noteq> 0 \<and> hdr_magic m fdt = Some 0xd00dfeed \<and>
     (\<exists>s str. hdr_off_struct m fdt = Some s \<and> hdr_off_strings m fdt = Some str \<and>
       toks_at m fdt (fdt + ucast str) s ts)"

text \<open>An encoder: the structure block and the strings block, whose part before \<open>off\<close> is already there.\<close>

definition be_enc :: "u32 \<Rightarrow> u8 list" where
  "be_enc v = [ucast (drop_bit 24 v), ucast (drop_bit 16 v), ucast (drop_bit 8 v), ucast v]"

definition padded :: "nat \<Rightarrow> u8 list \<Rightarrow> u8 list" where
  "padded n bs = bs @ replicate (n - length bs) 0"

definition enc_tok :: "nat \<Rightarrow> tok \<Rightarrow> u8 list" where
  "enc_tok off t = (case t of
     Begin_node nm \<Rightarrow> be_enc DTB_BEGIN_NODE @ padded ((length nm + 4) div 4 * 4) nm
   | End_node \<Rightarrow> be_enc DTB_END_NODE
   | Prop nm data \<Rightarrow> be_enc DTB_PROP @ be_enc (of_nat (length data)) @ be_enc (of_nat off) @
       padded ((length data + 3) div 4 * 4) data
   | Nop \<Rightarrow> be_enc DTB_NOP)"

definition enc_name :: "tok \<Rightarrow> u8 list" where
  "enc_name t = (case t of Prop nm data \<Rightarrow> nm @ [0] | _ \<Rightarrow> [])"

fun fdt_enc :: "nat \<Rightarrow> tok list \<Rightarrow> u8 list \<times> u8 list" where
  "fdt_enc off [] = (be_enc DTB_END, [])"
| "fdt_enc off (t # ts) = (let (b, s) = fdt_enc (off + length (enc_name t)) ts in (enc_tok off t @ b, enc_name t @ s))"

definition fdt_blob :: "tok list \<Rightarrow> u8 list" where
  "fdt_blob ts = (let (b, s) = fdt_enc 0 ts in
     be_enc 0xd00dfeed @ be_enc (of_nat (16 + length b + length s)) @ be_enc 16 @ be_enc (of_nat (16 + length b)) @ b @ s)"

text \<open>Names hold no null byte.\<close>

definition tok_names_ok :: "tok \<Rightarrow> bool" where
  "tok_names_ok t = (case t of Begin_node nm \<Rightarrow> 0 \<notin> set nm | Prop nm data \<Rightarrow> 0 \<notin> set nm | _ \<Rightarrow> True)"

text \<open>A memory that holds these bytes from an address on and nothing else.\<close>

definition mem_of :: "u64 \<Rightarrow> u8 list \<Rightarrow> cmem" where
  "mem_of a bs = mem_put (\<lambda>_. None) a bs"

text \<open>The number whose big-endian bytes these are.\<close>

definition be_nat :: "u8 list \<Rightarrow> nat" where
  "be_nat bs = fold (\<lambda>b v. 256 * v + unat b) bs 0"

text \<open>The 32-bit cells of a property and the number that a group of them makes.\<close>

fun data_cells :: "u8 list \<Rightarrow> u32 list" where
  "data_cells (a # b # c # d # r) = le_word [d, c, b, a] # data_cells r"
| "data_cells _ = []"

definition cells_value :: "u32 list \<Rightarrow> u64" where
  "cells_value xs = fold (\<lambda>c acc. push_bit 32 acc OR ucast c) xs 0"

section \<open>Lemmas\<close>

lemma bit_u8: "8 \<le> n \<Longrightarrow> \<not> bit (a :: u8) n"
  using bit_imp_le_length [of a n] by auto

lemma unat_lt32: "unat (x :: u32) < 2 ^ 32"
proof -
  have "unat x < 2 ^ LENGTH(32)" by (rule unsigned_less)
  then show ?thesis by simp
qed

lemma be32_bytes: "be32_to_cpu (le_word [a, b, c, d]) = le_word [d, c, b, a]"
proof (rule bit_word_eqI)
  have k: "(0xFF :: u32) = mask 8" "(0xFF00 :: u32) = push_bit 8 (mask 8)" "(0xFF0000 :: u32) = push_bit 16 (mask 8)"
    "(0xFF000000 :: u32) = push_bit 24 (mask 8)" by (simp_all add: mask_eq_exp_minus_1)
  fix n assume n: "n < LENGTH(32)"
  define q r where "q = n div 8" and "r = n mod 8"
  have nqr: "n = 8 * q + r" "r < 8" "q < 4" using n by (simp_all add: q_def r_def)
  then consider "q = 0" | "q = 1" | "q = 2" | "q = 3" by linarith
  then show "bit (be32_to_cpu (le_word [a, b, c, d])) n = bit (le_word [d, c, b, a] :: u32) n"
    using nqr by cases (auto simp: be32_to_cpu_def k bit_simps bit_le_word bit_u8)
qed

lemma ld_be32_bytes: "holds m x [a, b, c, d] \<Longrightarrow> ld_be32 m x = Some (le_word [d, c, b, a])"
proof -
  assume "holds m x [a, b, c, d]"
  then have "ld_n m x 4 = Some [a, b, c, d]" by (simp add: ld_n_iff)
  then show ?thesis by (simp only: ld_be32_def ld32_def bind.bind_lunit be32_bytes)
qed

lemma le_word_4: "unat (le_word [d, c, b, a] :: u32) = be_nat [a, b, c, d]"
proof -
  have or_add: "unat (ucast x OR push_bit 8 y :: u32) = unat (x :: u8) + 256 * unat y" if "unat y < 2 ^ 24" for x y
  proof -
    have "ucast x OR push_bit 8 y = (ucast x + push_bit 8 y :: u32)"
      by (rule disjunctive_add [symmetric]) (auto simp: bit_simps bit_u8)
    moreover have "unat (push_bit 8 y) = 256 * unat y" using that by (simp add: push_bit_eq_mult unat_word_ariths)
    moreover have x: "unat x < 2 ^ 8" using unsigned_less [of x] by simp
    then have "unat (ucast x :: u32) = unat x" by (simp add: unsigned_ucast_eq take_bit_nat_eq_self)
    ultimately show ?thesis using that x by (simp add: unat_word_ariths)
  qed
  have lt: "unat x < 256" for x :: u8 using unsigned_less [of x] by simp
  have 1: "unat (le_word [a] :: u32) = unat a" using or_add [of 0 a] by simp
  have 2: "unat (le_word [b, a] :: u32) = unat b + 256 * unat a"
    using or_add [of "le_word [a]" b] 1 lt [of a] by (simp del: push_bit_0_id)
  have 3: "unat (le_word [c, b, a] :: u32) = unat c + 256 * (unat b + 256 * unat a)"
    using or_add [of "le_word [b, a]" c] 2 lt [of a] lt [of b] by simp
  show ?thesis
    using or_add [of "le_word [c, b, a]" d] 3 lt [of a] lt [of b] lt [of c] by (simp add: be_nat_def)
qed

lemma ld_be32_unat:
  assumes "holds m x bs" "length bs = 4"
  shows "\<exists>v. ld_be32 m x = Some v \<and> unat v = be_nat bs"
proof -
  from assms(2) obtain a b c d where "bs = [a, b, c, d]" by (auto simp: length_Suc_conv numeral_eq_Suc)
  with ld_be32_bytes [of m x a b c d] le_word_4 [of d c b a] assms(1) show ?thesis by simp
qed

lemma name_len_spec: "cs_from r i s \<Longrightarrow> name_len_from r i = Some (i + length s)"
  by (induction s arbitrary: i) (subst name_len_from.simps, auto)+

text \<open>Both ways the code rounds a length up to a multiple of four.\<close>

lemma and_not_3: "unat (x AND NOT 3 :: u32) = unat x div 4 * 4"
proof -
  have m: "(3 :: u32) = mask 2" by (simp add: mask_eq_exp_minus_1)
  have "x AND NOT 3 = push_bit 2 (drop_bit 2 x)" unfolding m by (rule and_not_mask_push_drop)
  moreover have "unat (drop_bit 2 x) = unat x div 4" by (simp add: unat_drop_bit_eq drop_bit_nat_def)
  moreover have "unat x div 4 * 4 < 2 ^ 32"
    using unat_lt32 [of x] div_times_less_eq_dividend [of "unat x" 4] by linarith
  ultimately show ?thesis by (simp add: push_bit_eq_mult unat_word_ariths)
qed

lemma align4_unat: "n + 3 < 2 ^ 32 \<Longrightarrow> align4 (of_nat n) = of_nat ((n + 3) div 4 * 4)"
proof -
  assume n: "n + 3 < 2 ^ 32"
  have "(of_nat n + 3 :: u32) = of_nat (n + 3)" by simp
  then have "unat (align4 (of_nat n)) = (n + 3) div 4 * 4"
    using n unfolding align4_def and_not_3 by (simp only: unat_of_nat) simp
  then have "of_nat (unat (align4 (of_nat n))) = (of_nat ((n + 3) div 4 * 4) :: u32)" by (rule arg_cong)
  then show ?thesis by simp
qed

lemma unat_ucast64: "unat (ucast (x :: u32) :: u64) = unat x"
  using unat_lt32 [of x] by (simp add: unsigned_ucast_eq take_bit_nat_eq_self)

lemma tok_consts [simp]:
  "DTB_BEGIN_NODE \<noteq> DTB_PROP" "DTB_END_NODE \<noteq> DTB_BEGIN_NODE" "DTB_END_NODE \<noteq> DTB_PROP" "DTB_NOP \<noteq> DTB_BEGIN_NODE"
  "DTB_NOP \<noteq> DTB_PROP" "DTB_NOP \<noteq> DTB_END_NODE" "DTB_END \<noteq> DTB_BEGIN_NODE" "DTB_END \<noteq> DTB_PROP" "DTB_END \<noteq> DTB_END_NODE"
  "DTB_BEGIN_NODE \<noteq> DTB_END_NODE" "DTB_BEGIN_NODE \<noteq> DTB_NOP" "DTB_BEGIN_NODE \<noteq> DTB_END" "DTB_END \<noteq> DTB_NOP" "DTB_PROP \<noteq> DTB_BEGIN_NODE" "DTB_PROP \<noteq> DTB_END_NODE" "DTB_PROP \<noteq> DTB_NOP"
  by (simp_all add: DTB_BEGIN_NODE_def DTB_END_NODE_def DTB_PROP_def DTB_NOP_def DTB_END_def)

lemma strcmp_eq: "cs a s \<Longrightarrow> 0 \<notin> set t \<Longrightarrow> \<exists>d. strcmp a (lit t) = Some d \<and> (d = 0 \<longleftrightarrow> s = t)"
  using strcmp_from_spec [of a 0 s "lit t" t] str_diff_0 [of s t] cs_nonzero [of a 0 s] cs_lit [of t]
  by (auto simp: strcmp_def cs_def)

lemma strncmp_eq: "cs a s \<Longrightarrow> 0 \<notin> set t \<Longrightarrow> \<exists>d. strncmp a (lit t) n = Some d \<and> (d = 0 \<longleftrightarrow> take n s = take n t)"
  using strncmp_spec [of a s "lit t" t n] str_diff_0 [of "take n s" "take n t"] cs_nonzero [of a 0 s] cs_lit [of t]
  by (auto simp: cs_def dest: in_set_takeD)

text \<open>Where the next token is.\<close>

lemma tok_next:
  "tok_size (Begin_node nm) < 2 ^ 31 \<Longrightarrow> p + 4 + align4 (of_nat (length nm) + 1) = p + of_nat (tok_size (Begin_node nm))"
  "tok_size (Prop nm data) < 2 ^ 31 \<Longrightarrow> p + 12 + align4 (of_nat (length data)) = p + of_nat (tok_size (Prop nm data))"
proof -
  have up: "k \<le> (k + 3) div 4 * 4" for k :: nat
    using div_mult_mod_eq [of "k + 3" 4] mod_less_divisor [of 4 "k + 3"] by linarith
  {
    assume "tok_size (Begin_node nm) < 2 ^ 31"
    with up [of "length nm + 1"] have "length nm + 1 + 3 < 2 ^ 32" by (simp add: tok_size_def)
    then show "p + 4 + align4 (of_nat (length nm) + 1) = p + of_nat (tok_size (Begin_node nm))"
      using align4_unat [of "length nm + 1"] by (simp add: tok_size_def add.commute)
  }
  assume "tok_size (Prop nm data) < 2 ^ 31"
  with up [of "length data"] have "length data + 3 < 2 ^ 32" by (simp add: tok_size_def)
  then show "p + 12 + align4 (of_nat (length data)) = p + of_nat (tok_size (Prop nm data))"
    using align4_unat [of "length data"] by (simp add: tok_size_def)
qed

lemma prop_len: "tok_size (Prop nm data) < 2 ^ 31 \<Longrightarrow> length data < 2 ^ 31"
  using div_mult_mod_eq [of "length data + 3" 4] mod_less_divisor [of 4 "length data + 3"]
  by (simp add: tok_size_def)

subsection \<open>Cells\<close>

lemma length_data_cells: "length (data_cells data) = length data div 4"
  by (induction data rule: data_cells.induct) auto

lemma ld_first_cell: "holds m q data \<Longrightarrow> length data \<ge> 4 \<Longrightarrow>
  ld_be32 m q = Some (data_cells data ! 0) \<and> holds m (q + 4) (drop 4 data) \<and>
  data_cells data = data_cells data ! 0 # data_cells (drop 4 data)"
proof -
  assume "holds m q data" "length data \<ge> 4"
  then show ?thesis
    using holds_append [of m q "take 4 data" "drop 4 data"]
    by (cases data rule: data_cells.cases) (auto simp: ld_be32_bytes numeral_eq_Suc)
qed

lemma data_cells_short: "length data < 4 \<Longrightarrow> data_cells data = []"
  using length_data_cells [of data] by simp

subsection \<open>Every stream can be held\<close>

lemma be_enc_le: "le_word [ucast v, ucast (drop_bit 8 v), ucast (drop_bit 16 v), ucast (drop_bit 24 v)] = (v :: u32)"
proof (rule bit_word_eqI)
  fix n assume n: "n < LENGTH(32)"
  define q r where "q = n div 8" and "r = n mod 8"
  have nqr: "n = 8 * q + r" "r < 8" "q < 4" using n by (simp_all add: q_def r_def)
  then consider "q = 0" | "q = 1" | "q = 2" | "q = 3" by linarith
  then show "bit (le_word [ucast v, ucast (drop_bit 8 v), ucast (drop_bit 16 v), ucast (drop_bit 24 v)] :: u32) n = bit v n"
    using nqr by cases (auto simp: bit_simps bit_le_word)
qed

lemma ld_be_enc: "holds m x (be_enc v) \<Longrightarrow> ld_be32 m x = Some v"
  using ld_be32_bytes [of m x "ucast (drop_bit 24 v)" "ucast (drop_bit 16 v)" "ucast (drop_bit 8 v)" "ucast v"]
  by (simp only: be_enc_def be_enc_le)

lemma length_be_enc [simp]: "length (be_enc v) = 4"
  by (simp add: be_enc_def)

lemma ucast_add_nowrap:
  assumes "unat p + n < 2 ^ 32"
  shows "(ucast (p + of_nat n :: u32) :: u64) = ucast p + of_nat n"
proof -
  have "unat (of_nat n :: u32) = n" using assms by (simp add: unat_of_nat)
  then have "unat (p + of_nat n) = unat p + n" using assms by (simp add: unat_word_ariths)
  then have "(of_nat (unat (p + of_nat n)) :: u64) = of_nat (unat p) + of_nat n" by simp
  then show ?thesis by simp
qed

lemma holds_cs:
  assumes "holds m a (nm @ [0])" "0 \<notin> set nm"
  shows "cs (at m a) nm"
proof -
  have "m (a + of_nat i) = Some ((nm @ [0]) ! i)" if "i \<le> length nm" for i
    using assms(1) that by (simp add: holds_def)
  then show ?thesis using assms(2) by (auto simp: cs_iff at_def nth_append)
qed

lemma length_padded:
  "length (padded ((length nm + 4) div 4 * 4) nm) = (length nm + 4) div 4 * 4"
  "length (padded ((length d + 3) div 4 * 4) d) = (length d + 3) div 4 * 4"
proof -
  have "k \<le> (k + 4) div 4 * 4" "k \<le> (k + 3) div 4 * 4" for k :: nat
    using div_mult_mod_eq [of "k + 4" 4] mod_less_divisor [of 4 "k + 4"] div_mult_mod_eq [of "k + 3" 4] mod_less_divisor [of 4 "k + 3"]
    by linarith+
  then show "length (padded ((length nm + 4) div 4 * 4) nm) = (length nm + 4) div 4 * 4"
    "length (padded ((length d + 3) div 4 * 4) d) = (length d + 3) div 4 * 4"
    by (simp_all add: padded_def)
qed

lemma length_enc_tok [simp]: "length (enc_tok off t) = tok_size t"
  using length_padded by (cases t) (auto simp: tok_size_def enc_tok_def)

lemma padded_nul: "\<exists>zs. padded ((length nm + 4) div 4 * 4) nm = (nm @ [0]) @ zs"
proof -
  have "length nm < (length nm + 4) div 4 * 4"
    using div_mult_mod_eq [of "length nm + 4" 4] mod_less_divisor [of 4 "length nm + 4"] by linarith
  then obtain k where "(length nm + 4) div 4 * 4 - length nm = Suc k" by (metis Suc_diff_Suc)
  then show ?thesis by (simp add: padded_def)
qed

lemma enc_tok_at:
  assumes h: "holds m (fdt + ucast p) (enc_tok off t)" and n: "holds m (strings + of_nat off) (enc_name t)"
    and fit: "unat p + tok_size t < 2 ^ 31" "off < 2 ^ 31" and ok: "tok_names_ok t"
  shows "tok_at m fdt strings p t"
proof -
  have p: "ucast (p + of_nat k) = (ucast p + of_nat k :: u64)" if "k \<le> tok_size t" for k
    by (rule ucast_add_nowrap) (use that fit(1) in simp)
  show ?thesis
  proof (cases t)
    case (Begin_node nm)
    obtain zs where zs: "padded ((length nm + 4) div 4 * 4) nm = (nm @ [0]) @ zs" using padded_nul by blast
    have "holds m (fdt + ucast p) (be_enc DTB_BEGIN_NODE)" "holds m (fdt + ucast p + 4) (nm @ [0])"
      using h unfolding Begin_node enc_tok_def tok.case zs by (simp_all add: holds_append holds_Cons)
    with ok p [of 4] Begin_node holds_cs [of m "fdt + ucast p + 4" nm] show ?thesis
      by (simp add: tok_at_def tok_names_ok_def rd_tok_def ld_be_enc tok_size_def add.assoc)
  next
    case (Prop nm data)
    have "holds m (fdt + ucast p) (be_enc DTB_PROP)" "holds m (fdt + ucast p + 4) (be_enc (of_nat (length data)))"
      "holds m (fdt + ucast p + 8) (be_enc (of_nat off))" "holds m (fdt + ucast p + 12) data"
      using h unfolding Prop enc_tok_def tok.case padded_def by (simp_all add: holds_append add.assoc)
    moreover have "(ucast (of_nat off :: u32) :: u64) = of_nat off"
      using ucast_add_nowrap [of 0 off] fit(2) by simp
    moreover have "cs (at m (strings + of_nat off)) nm"
      using n ok unfolding Prop by (intro holds_cs) (simp_all add: enc_name_def tok_names_ok_def)
    ultimately show ?thesis using p [of 4] p [of 8] p [of 12] Prop
      by (simp add: tok_at_def rd_tok_def ld_be_enc tok_size_def add.assoc)
  qed (use h in \<open>simp_all add: enc_tok_def tok_at_def rd_tok_def ld_be_enc\<close>)
qed

lemma fdt_enc_toks:
  assumes "holds m (fdt + ucast p) (fst (fdt_enc off ts))" "holds m (strings + of_nat off) (snd (fdt_enc off ts))"
    and "unat p + length (fst (fdt_enc off ts)) < 2 ^ 31" "off + length (snd (fdt_enc off ts)) < 2 ^ 31"
    and "\<forall>t\<in>set ts. tok_names_ok t"
  shows "toks_at m fdt strings p ts"
  using assms
proof (induction ts arbitrary: off p)
  case Nil
  then show ?case by (simp add: rd_tok_def ld_be_enc)
next
  case (Cons t ts)
  obtain b s where bs: "fdt_enc (off + length (enc_name t)) ts = (b, s)" by fastforce
  have fit: "unat p + tok_size t + length b < 2 ^ 31" "off + length (enc_name t) + length s < 2 ^ 31"
    using Cons.prems(3,4) bs by (simp_all add: add.assoc)
  have p: "ucast (p + of_nat (tok_size t)) = (ucast p + of_nat (tok_size t) :: u64)"
    by (rule ucast_add_nowrap) (use fit(1) in simp)
  have "unat (p + of_nat (tok_size t)) = unat p + tok_size t"
    using fit(1) by (simp add: unat_word_ariths unat_of_nat)
  moreover have "holds m (fdt + ucast (p + of_nat (tok_size t))) b" "holds m (strings + of_nat (off + length (enc_name t))) s"
    using Cons.prems(1,2) bs p by (simp_all add: holds_append add.assoc)
  ultimately have "toks_at m fdt strings (p + of_nat (tok_size t)) ts"
    using Cons.IH [of "p + of_nat (tok_size t)" "off + length (enc_name t)"] fit Cons.prems(5) bs by simp
  moreover have "tok_at m fdt strings p t"
    using Cons.prems(1,2,5) bs fit by (intro enc_tok_at [of _ _ _ off]) (simp_all add: holds_append)
  ultimately show ?case using fit(1) by simp
qed

lemma fdt_blob_holds:
  assumes "length (fdt_blob ts) < 2 ^ 31" "\<forall>t\<in>set ts. tok_names_ok t" "a \<noteq> 0"
  shows "fdt_holds (mem_of a (fdt_blob ts)) a ts"
proof -
  let ?m = "mem_of a (fdt_blob ts)"
  obtain b s where bs: "fdt_enc 0 ts = (b, s)" by fastforce
  have all: "holds ?m a (fdt_blob ts)"
    using assms(1) by (simp add: holds_def mem_of_def mem_put_def unat_of_nat)
  have blob: "fdt_blob ts = be_enc 0xd00dfeed @ be_enc (of_nat (16 + length b + length s)) @ be_enc 16 @
      be_enc (of_nat (16 + length b)) @ b @ s" using bs by (simp add: fdt_blob_def)
  have len: "16 + length b + length s < 2 ^ 31" using assms(1) unfolding blob by simp
  have h: "holds ?m a (be_enc 0xd00dfeed)" "holds ?m (a + 8) (be_enc 16)" "holds ?m (a + 12) (be_enc (of_nat (16 + length b)))"
    "holds ?m (a + 16) b" "holds ?m (a + 16 + of_nat (length b)) s"
    using all unfolding blob by (simp_all add: holds_append add.assoc)
  have str: "(ucast (of_nat (16 + length b) :: u32) :: u64) = 16 + of_nat (length b)"
    using ucast_add_nowrap [of 0 "16 + length b"] len by simp
  have "toks_at ?m a (a + (16 + of_nat (length b))) 16 ts"
    by (rule fdt_enc_toks [where off = 0]) (use h bs len assms(2) in \<open>simp_all add: add.assoc\<close>)
  then show ?thesis using h(1-3) assms(3) str
    unfolding fdt_holds_def hdr_magic_def hdr_off_struct_def hdr_off_strings_def by (simp add: ld_be_enc)
qed

lemma length_fdt_enc:
  "length (fst (fdt_enc off ts)) = 4 + sum_list (map tok_size ts) \<and> length (snd (fdt_enc off ts)) = sum_list (map (\<lambda>t. length (enc_name t)) ts)"
  by (induction ts arbitrary: off) (auto simp: split_beta)

lemma length_fdt_blob: "length (fdt_blob ts) = 20 + sum_list (map tok_size ts) + sum_list (map (\<lambda>t. length (enc_name t)) ts)"
  using length_fdt_enc [of 0 ts] by (simp add: fdt_blob_def split_beta)

lemma fdt_blob_totalsize:
  assumes "length (fdt_blob ts) < 2 ^ 31"
  shows "hdr_totalsize (mem_of a (fdt_blob ts)) a = Some (of_nat (length (fdt_blob ts)))"
proof -
  obtain b s where bs: "fdt_enc 0 ts = (b, s)" by fastforce
  have "holds (mem_of a (fdt_blob ts)) a (fdt_blob ts)"
    using assms by (simp add: holds_def mem_of_def mem_put_def unat_of_nat)
  then have "holds (mem_of a (fdt_blob ts)) a (be_enc 0xd00dfeed @ be_enc (of_nat (length (fdt_blob ts))) @
      be_enc 16 @ be_enc (of_nat (16 + length b)) @ b @ s)"
    using bs by (simp add: fdt_blob_def add.assoc)
  then show ?thesis by (simp add: hdr_totalsize_def holds_append ld_be_enc)
qed

text \<open>These evaluate the hypotheses of \<open>fdt_blob_holds\<close> on a given stream.\<close>

lemmas blob_simps = length_fdt_blob tok_size_def enc_name_def tok_names_ok_def

end
