(* ===== verification/Dtb.thy ===== *)
theory Dtb
  imports Fdt
begin

text \<open>
  The device tree driver, \<open>src/drivers/dtb.c\<close>: finding the blob, the path helpers, and
  \<open>dtb_get_stdout_uart_base\<close>, which walks the blob twice (first for \<open>stdout-path\<close> and the aliases,
  then for the node with the resolved path). The fixed-size local arrays are bounds-checked arrays,
  so running out of one is \<open>None\<close>. The walk is shown to follow the token stream.
\<close>

section \<open>Definitions\<close>

subsection \<open>Paths\<close>

partial_function (option) path_equals_from :: "reader \<Rightarrow> reader \<Rightarrow> nat \<Rightarrow> bool option" where
  "path_equals_from a b i = Option.bind (a i) (\<lambda>x. Option.bind (b i) (\<lambda>y.
     if x \<noteq> 0 \<and> y \<noteq> 0 then (if x \<noteq> y then Some False else path_equals_from a b (Suc i))
     else Some (x = 0 \<and> y = 0)))"

definition path_equals :: "reader \<Rightarrow> reader \<Rightarrow> bool option" where
  "path_equals a b = path_equals_from a b 0"

text \<open>The length of the token before an option such as \<open>:115200n8\<close> or \<open>,keep\<close>.\<close>

function extract_len :: "reader \<Rightarrow> nat \<Rightarrow> nat \<Rightarrow> nat option" where
  "extract_len r len l =
     (if l < len then Option.bind (r l) (\<lambda>c.
        if c \<noteq> 0 \<and> c \<noteq> 58 \<and> c \<noteq> 44 then extract_len r len (Suc l) else Some l)
      else Some l)"
  by pat_completeness auto
termination by (relation "measure (\<lambda>(r, len, l). len - l)") auto

declare extract_len.simps [simp del]

definition extract_path_token :: "reader \<Rightarrow> u32 \<Rightarrow> u32 option" where
  "extract_path_token val len = do { l \<leftarrow> extract_len val (unat len) 0; Some (of_nat l) }"

subsection \<open>Finding the blob\<close>

definition dtb_locations :: "u64 list" where
  "dtb_locations = [0x48000000, 0x7ff00000, 0x44000000, 0x50000000]"

fun dtb_try :: "cmem \<Rightarrow> u64 list \<Rightarrow> u64 option option" where
  "dtb_try m [] = Some None"
| "dtb_try m (a # as) = do {
     v \<leftarrow> ld_be32 m a;
     if v = 0xd00dfeed then Some (Some a) else dtb_try m as }"

text \<open>\<open>_kernel_end\<close> is the address the linker gives.\<close>

definition dtb_search :: "u64 \<Rightarrow> cmem \<Rightarrow> u64 option" where
  "dtb_search kend m = do {
     r \<leftarrow> dtb_try m dtb_locations;
     case r of Some a \<Rightarrow> Some a
     | None \<Rightarrow> do {
         let start = (kend + 0xfffff) AND NOT 0xfffff;
         r \<leftarrow> while_ret_u64 start 0x50000000 0x1000 (\<lambda>addr (_ :: unit). do {
           v \<leftarrow> ld_be32 m addr;
           Some (if v = 0xd00dfeed then Inl addr else Inr ()) }) ();
         Some (case r of Inl addr \<Rightarrow> addr | Inr _ \<Rightarrow> 0) } }"

text \<open>The new value of \<open>dtb_ptr\<close>.\<close>

definition dtb_init :: "u64 \<Rightarrow> u64 \<Rightarrow> u64 \<Rightarrow> cmem \<Rightarrow> u64 option" where
  "dtb_init kend boot_x0 dtb_ptr m = do {
     let dtb_addr = (if dtb_ptr \<noteq> 0 then dtb_ptr else boot_x0);
     dtb_addr \<leftarrow> (if dtb_addr = 0 then dtb_search kend m else Some dtb_addr);
     if dtb_addr = 0 then Some dtb_ptr
     else do {
       magic \<leftarrow> hdr_magic m dtb_addr;
       Some dtb_addr } }"

definition dtb_get :: "u64 \<Rightarrow> u64" where
  "dtb_get dtb_ptr = dtb_ptr"

subsection \<open>The console device: first pass\<close>

definition str_chosen :: "u8 list" where "str_chosen = [99, 104, 111, 115, 101, 110]"
definition str_aliases :: "u8 list" where "str_aliases = [97, 108, 105, 97, 115, 101, 115]"
definition str_stdout_path :: "u8 list" where "str_stdout_path = [115, 116, 100, 111, 117, 116, 45, 112, 97, 116, 104]"
definition str_stdout :: "u8 list" where "str_stdout = [115, 116, 100, 111, 117, 116]"
definition str_reg :: "u8 list" where "str_reg = [114, 101, 103]"

text \<open>\<open>stdout_token\<close> and its length, the alias table (names and paths are pointers) and the position.\<close>

record pass1 =
  p1_p :: u32
  p1_depth :: int
  p1_token :: "(u64 \<times> u32) option"
  p1_aliases :: "(u64 \<times> u64) list"

text \<open>Whether an inner loop over properties goes on, returns to the outer loop, or ends the pass.\<close>

datatype 's after_props = Next_prop 's | Leave_node 's | Pass_done 's

text \<open>One property of a node that is \<open>/chosen\<close> or \<open>/aliases\<close>.\<close>

definition pass1_prop :: "cmem \<Rightarrow> u64 \<Rightarrow> u64 \<Rightarrow> bool \<Rightarrow> bool \<Rightarrow> pass1 \<Rightarrow> pass1 option" where
  "pass1_prop m fdt strings in_chosen in_aliases st = do {
     len \<leftarrow> rd_tok m fdt (p1_p st);
     nameoff \<leftarrow> rd_tok m fdt (p1_p st + 4);
     let p = p1_p st + 8;
     let pname = strings + ucast nameoff;
     let pdata = fdt + ucast p;
     is_stdout \<leftarrow> (if in_chosen then do {
         d \<leftarrow> strncmp (at m pname) (lit str_stdout_path) 11;
         if d = 0 then Some True
         else do { d \<leftarrow> strncmp (at m pname) (lit str_stdout) 6; Some (d = 0) } }
       else Some False);
     st \<leftarrow> (if is_stdout then do {
         l \<leftarrow> extract_path_token (at m pdata) len;
         Some (st\<lparr>p1_token := Some (pdata, l)\<rparr>) }
       else if in_aliases \<and> length (p1_aliases st) < 16
       then Some (st\<lparr>p1_aliases := p1_aliases st @ [(pname, pdata)]\<rparr>)
       else Some st);
     Some (st\<lparr>p1_p := p + align4 len\<rparr>) }"

definition pass1_inner :: "cmem \<Rightarrow> u64 \<Rightarrow> u64 \<Rightarrow> bool \<Rightarrow> bool \<Rightarrow> pass1 \<Rightarrow> pass1 after_props option" where
  "pass1_inner m fdt strings in_chosen in_aliases st = do {
     ptok \<leftarrow> rd_tok m fdt (p1_p st);
     let st = st\<lparr>p1_p := p1_p st + 4\<rparr>;
     if ptok = DTB_PROP then do {
       st \<leftarrow> pass1_prop m fdt strings in_chosen in_aliases st;
       Some (Next_prop st) }
     else if ptok = DTB_END_NODE then Some (Leave_node (st\<lparr>p1_depth := p1_depth st - 1\<rparr>))
     else if ptok = DTB_NOP then Some (Next_prop st)
     else if ptok = DTB_END then Some (Pass_done st)
     else if ptok = DTB_BEGIN_NODE then Some (Leave_node (st\<lparr>p1_p := p1_p st - 4\<rparr>))
     else Some (Pass_done st) }"

partial_function (option) pass1_props :: "cmem \<Rightarrow> u64 \<Rightarrow> u64 \<Rightarrow> bool \<Rightarrow> bool \<Rightarrow> pass1 \<Rightarrow> (pass1 + pass1) option" where
  "pass1_props m fdt strings in_chosen in_aliases st =
     Option.bind (pass1_inner m fdt strings in_chosen in_aliases st) (\<lambda>r. case r of
       Next_prop st \<Rightarrow> pass1_props m fdt strings in_chosen in_aliases st
     | Leave_node st \<Rightarrow> Some (Inr st)
     | Pass_done st \<Rightarrow> Some (Inl st))"

text \<open>
  One round of the outer loop: \<open>Inl\<close> when the pass is done. The names on the path are put on a local
  stack of 16 that is never read; only its bound matters.
\<close>

definition pass1_step :: "cmem \<Rightarrow> u64 \<Rightarrow> u64 \<Rightarrow> pass1 \<Rightarrow> (pass1 + pass1) option" where
  "pass1_step m fdt strings st = do {
     token \<leftarrow> rd_tok m fdt (p1_p st);
     let st = st\<lparr>p1_p := p1_p st + 4\<rparr>;
     if token = DTB_BEGIN_NODE then do {
       let name = fdt + ucast (p1_p st);
       name_len \<leftarrow> name_len_from (at m name) 0;
       let st = st\<lparr>p1_p := p1_p st + align4 (of_nat (name_len + 1))\<rparr>;
       st \<leftarrow> (if p1_depth st < 16
             then if p1_depth st < 0 then None else Some (st\<lparr>p1_depth := p1_depth st + 1\<rparr>)
             else Some st);
       (in_chosen, in_aliases) \<leftarrow> (if p1_depth st = 2 then do {
           a \<leftarrow> strncmp (at m name) (lit str_chosen) 6;
           b \<leftarrow> strncmp (at m name) (lit str_aliases) 7;
           Some (a = 0, b = 0) }
         else Some (False, False));
       pass1_props m fdt strings in_chosen in_aliases st }
     else if token = DTB_END_NODE then
       Some (Inr (if p1_depth st > 0 then st\<lparr>p1_depth := p1_depth st - 1\<rparr> else st))
     else if token = DTB_PROP then do {
       len \<leftarrow> rd_tok m fdt (p1_p st);
       Some (Inr (st\<lparr>p1_p := p1_p st + 8 + align4 len\<rparr>)) }
     else if token = DTB_NOP then Some (Inr st)
     else Some (Inl st) }"

partial_function (option) pass1_loop :: "cmem \<Rightarrow> u64 \<Rightarrow> u64 \<Rightarrow> pass1 \<Rightarrow> pass1 option" where
  "pass1_loop m fdt strings st = Option.bind (pass1_step m fdt strings st) (\<lambda>r. case r of
     Inl st \<Rightarrow> Some st | Inr st \<Rightarrow> pass1_loop m fdt strings st)"

subsection \<open>Resolving the path\<close>

text \<open>\<open>resolved_path_buf\<close> holds at most 255 bytes before its null byte.\<close>

fun copy_token :: "reader \<Rightarrow> nat \<Rightarrow> nat \<Rightarrow> u8 list option" where
  "copy_token r i 0 = Some []"
| "copy_token r i (Suc n) = do { c \<leftarrow> r i; cs \<leftarrow> copy_token r (Suc i) n; Some (c # cs) }"

fun copy_path :: "reader \<Rightarrow> nat \<Rightarrow> nat \<Rightarrow> u8 list option" where
  "copy_path r k 0 = do { c \<leftarrow> r k; Some [] }"
| "copy_path r k (Suc n) = do { c \<leftarrow> r k; if c \<noteq> 0 then do { cs \<leftarrow> copy_path r (Suc k) n; Some (c # cs) } else Some [] }"

text \<open>How far the alias name and the token agree.\<close>

function match_len :: "reader \<Rightarrow> reader \<Rightarrow> nat \<Rightarrow> nat \<Rightarrow> nat option" where
  "match_len an tk len j = Option.bind (an j) (\<lambda>x.
     if x \<noteq> 0 then Option.bind (tk j) (\<lambda>y.
       if y \<noteq> 0 \<and> j < len \<and> x = y then match_len an tk len (Suc j) else Some j)
     else Some j)"
  by pat_completeness auto
termination by (relation "measure (\<lambda>(an, tk, len, j). len - j)") auto

declare match_len.simps [simp del]

fun find_alias :: "cmem \<Rightarrow> reader \<Rightarrow> nat \<Rightarrow> (u64 \<times> u64) list \<Rightarrow> u8 list option option" where
  "find_alias m tk len [] = Some None"
| "find_alias m tk len ((an, ap) # as) = do {
     j \<leftarrow> match_len (at m an) tk len 0;
     c \<leftarrow> (if j = len then at m an j else Some 1);
     if j = len \<and> c = 0 then do { path \<leftarrow> copy_path (at m ap) 0 255; Some (Some path) }
     else find_alias m tk len as }"

definition resolve_path :: "cmem \<Rightarrow> u64 \<times> u32 \<Rightarrow> (u64 \<times> u64) list \<Rightarrow> u8 list option option" where
  "resolve_path m tok as = do {
     let tk = at m (fst tok);
     c \<leftarrow> tk 0;
     if c = 47 then do {
       path \<leftarrow> copy_token tk 0 (if unat (snd tok) < 255 then unat (snd tok) else 255);
       Some (Some path) }
     else find_alias m tk (unat (snd tok)) as }"

subsection \<open>The console device: second pass\<close>

text \<open>\<open>current_path\<close> is a local array of 256 characters.\<close>

record pass2 =
  p2_p :: u32
  p2_depth :: int
  p2_path :: "nat \<Rightarrow> u8"

definition path_rd :: "(nat \<Rightarrow> u8) \<Rightarrow> reader" where
  "path_rd a i = arr_get 256 a i"

fun path_append :: "reader \<Rightarrow> nat \<Rightarrow> nat \<Rightarrow> nat \<Rightarrow> (nat \<Rightarrow> u8) \<Rightarrow> (nat \<times> (nat \<Rightarrow> u8)) option" where
  "path_append name i 0 cur_len a = Some (cur_len, a)"
| "path_append name i (Suc n) cur_len a =
     (if cur_len < 255 then do {
        c \<leftarrow> name i;
        a \<leftarrow> arr_set 256 a cur_len c;
        path_append name (Suc i) n (Suc cur_len) a }
      else Some (cur_len, a))"

definition path_push :: "reader \<Rightarrow> nat \<Rightarrow> (nat \<Rightarrow> u8) \<Rightarrow> (nat \<Rightarrow> u8) option" where
  "path_push name name_len a = do {
     cur_len \<leftarrow> name_len_from (path_rd a) 0;
     (cur_len, a) \<leftarrow> (if cur_len > 1 then do { a \<leftarrow> arr_set 256 a cur_len 47; Some (cur_len + 1, a) } else Some (cur_len, a));
     (cur_len, a) \<leftarrow> path_append name 0 name_len cur_len a;
     arr_set 256 a cur_len 0 }"

fun path_cut :: "(nat \<Rightarrow> u8) \<Rightarrow> nat \<Rightarrow> nat" where
  "path_cut a 0 = 0"
| "path_cut a (Suc n) = (if n > 0 \<and> a n \<noteq> 47 then path_cut a n else Suc n)"

definition path_pop :: "(nat \<Rightarrow> u8) \<Rightarrow> (nat \<Rightarrow> u8) option" where
  "path_pop a = do {
     cur_len \<leftarrow> name_len_from (path_rd a) 0;
     let cur_len = path_cut a cur_len;
     if cur_len > 1 then arr_set 256 a (cur_len - 1) 0 else arr_set 256 a 1 0 }"

text \<open>A property of a node; \<open>Inl\<close> is the answer of the function.\<close>

definition pass2_prop :: "cmem \<Rightarrow> u64 \<Rightarrow> u64 \<Rightarrow> bool \<Rightarrow> pass2 \<Rightarrow> ((int \<times> u64 option) + pass2) option" where
  "pass2_prop m fdt strings at_target st = do {
     len \<leftarrow> rd_tok m fdt (p2_p st);
     nameoff \<leftarrow> rd_tok m fdt (p2_p st + 4);
     let p = p2_p st + 8;
     let pname = strings + ucast nameoff;
     let pdata = fdt + ucast p;
     is_reg \<leftarrow> (if at_target then do { d \<leftarrow> strncmp (at m pname) (lit str_reg) 3; Some (d = 0) } else Some False);
     if is_reg then
       if len \<ge> 8 then do {
         hi \<leftarrow> ld_be32 m pdata;
         lo \<leftarrow> ld_be32 m (pdata + 4);
         Some (Inl (0, Some (push_bit 32 (ucast hi) OR ucast lo))) }
       else if len \<ge> 4 then do {
         v \<leftarrow> ld_be32 m pdata;
         Some (Inl (0, Some (ucast v))) }
       else Some (Inl (-1, None))
     else Some (Inr (st\<lparr>p2_p := p + align4 len\<rparr>)) }"

definition pass2_inner :: "cmem \<Rightarrow> u64 \<Rightarrow> u64 \<Rightarrow> bool \<Rightarrow> pass2 \<Rightarrow> ((int \<times> u64 option) + pass2 after_props) option" where
  "pass2_inner m fdt strings at_target st = do {
     ptok \<leftarrow> rd_tok m fdt (p2_p st);
     let st = st\<lparr>p2_p := p2_p st + 4\<rparr>;
     if ptok = DTB_PROP then do {
       r \<leftarrow> pass2_prop m fdt strings at_target st;
       Some (case r of Inl a \<Rightarrow> Inl a | Inr st \<Rightarrow> Inr (Next_prop st)) }
     else if ptok = DTB_END_NODE then do {
       a \<leftarrow> path_pop (p2_path st);
       Some (Inr (Leave_node (st\<lparr>p2_path := a, p2_depth := p2_depth st - 1\<rparr>))) }
     else if ptok = DTB_NOP then Some (Inr (Next_prop st))
     else if ptok = DTB_BEGIN_NODE then Some (Inr (Leave_node (st\<lparr>p2_p := p2_p st - 4\<rparr>)))
     else Some (Inl (-1, None)) }"

partial_function (option) pass2_props :: "cmem \<Rightarrow> u64 \<Rightarrow> u64 \<Rightarrow> bool \<Rightarrow> pass2 \<Rightarrow> ((int \<times> u64 option) + pass2) option" where
  "pass2_props m fdt strings at_target st =
     Option.bind (pass2_inner m fdt strings at_target st) (\<lambda>r. case r of
       Inl a \<Rightarrow> Some (Inl a)
     | Inr q \<Rightarrow> (case q of Next_prop st \<Rightarrow> pass2_props m fdt strings at_target st
         | Leave_node st \<Rightarrow> Some (Inr st) | Pass_done st \<Rightarrow> Some (Inr st)))"

definition pass2_step :: "cmem \<Rightarrow> u64 \<Rightarrow> u64 \<Rightarrow> u8 list \<Rightarrow> pass2 \<Rightarrow> ((int \<times> u64 option) + pass2) option" where
  "pass2_step m fdt strings target st = do {
     token \<leftarrow> rd_tok m fdt (p2_p st);
     let st = st\<lparr>p2_p := p2_p st + 4\<rparr>;
     if token = DTB_BEGIN_NODE then do {
       let name = at m (fdt + ucast (p2_p st));
       name_len \<leftarrow> name_len_from name 0;
       let st = st\<lparr>p2_p := p2_p st + align4 (of_nat (name_len + 1))\<rparr>;
       st \<leftarrow> (if \<not> (p2_depth st = 0 \<and> name_len = 0)
             then do { a \<leftarrow> path_push name name_len (p2_path st); Some (st\<lparr>p2_path := a\<rparr>) }
             else Some st);
       let st = st\<lparr>p2_depth := p2_depth st + 1\<rparr>;
       at_target \<leftarrow> path_equals (path_rd (p2_path st)) (lit target);
       pass2_props m fdt strings at_target st }
     else if token = DTB_PROP then do {
       len \<leftarrow> rd_tok m fdt (p2_p st);
       Some (Inr (st\<lparr>p2_p := p2_p st + 8 + align4 len\<rparr>)) }
     else if token = DTB_END_NODE then Some (Inr st)
     else if token = DTB_NOP then Some (Inr st)
     else Some (Inl (-1, None)) }"

partial_function (option) pass2_loop :: "cmem \<Rightarrow> u64 \<Rightarrow> u64 \<Rightarrow> u8 list \<Rightarrow> pass2 \<Rightarrow> (int \<times> u64 option) option" where
  "pass2_loop m fdt strings target st = Option.bind (pass2_step m fdt strings target st) (\<lambda>r. case r of
     Inl a \<Rightarrow> Some a | Inr st \<Rightarrow> pass2_loop m fdt strings target st)"

text \<open>The answer and what is written to \<open>out_base\<close>; \<open>out\<close> says whether the caller passed a pointer.\<close>

definition dtb_get_stdout_uart_base :: "u64 \<Rightarrow> bool \<Rightarrow> cmem \<Rightarrow> (int \<times> u64 option) option" where
  "dtb_get_stdout_uart_base dtb_ptr out m =
     (if dtb_ptr = 0 \<or> \<not> out then Some (-1, None)
      else do {
        magic \<leftarrow> hdr_magic m dtb_ptr;
        if magic \<noteq> 0xd00dfeed then Some (-1, None)
        else do {
          off_struct \<leftarrow> hdr_off_struct m dtb_ptr;
          off_strings \<leftarrow> hdr_off_strings m dtb_ptr;
          let strings = dtb_ptr + ucast off_strings;
          r \<leftarrow> pass1_loop m dtb_ptr strings \<lparr>p1_p = off_struct, p1_depth = 0, p1_token = None, p1_aliases = []\<rparr>;
          case p1_token r of None \<Rightarrow> Some (-1, None)
          | Some tok \<Rightarrow>
              if snd tok = 0 then Some (-1, None)
              else do {
                target \<leftarrow> resolve_path m tok (p1_aliases r);
                case target of None \<Rightarrow> Some (-1, None)
                | Some target \<Rightarrow> pass2_loop m dtb_ptr strings target
                    \<lparr>p2_p = off_struct, p2_depth = 0, p2_path = (\<lambda>_. 0)(0 := 47, 1 := 0)\<rparr> } } })"

subsection \<open>What the walks compute\<close>

text \<open>The console token and the aliases that the first pass collects from a stream.\<close>

fun console_scan :: "bool \<Rightarrow> bool \<Rightarrow> bool \<Rightarrow> int \<Rightarrow> u8 list option \<Rightarrow> (u8 list \<times> u8 list) list \<Rightarrow> tok list \<Rightarrow>
    u8 list option \<times> (u8 list \<times> u8 list) list" where
  "console_scan inner ch al depth tk as [] = (tk, as)"
| "console_scan inner ch al depth tk as (Begin_node nm # ts) =
     (let depth = (if depth < 16 then depth + 1 else depth)
      in console_scan True (depth = 2 \<and> take 6 nm = str_chosen) (depth = 2 \<and> take 7 nm = str_aliases) depth tk as ts)"
| "console_scan inner ch al depth tk as (End_node # ts) =
     console_scan False False False (if inner \<or> depth > 0 then depth - 1 else depth) tk as ts"
| "console_scan inner ch al depth tk as (Nop # ts) = console_scan inner ch al depth tk as ts"
| "console_scan inner ch al depth tk as (Prop nm data # ts) =
     (if inner \<and> ch \<and> take 6 nm = str_stdout then console_scan inner ch al depth (Some data) as ts
      else if inner \<and> al \<and> length as < 16 then console_scan inner ch al depth tk (as @ [(nm, data)]) ts
      else console_scan inner ch al depth tk as ts)"

definition console_name :: "u8 list \<Rightarrow> u8 list" where
  "console_name data = takeWhile (\<lambda>c. c \<noteq> 0 \<and> c \<noteq> 58 \<and> c \<noteq> 44) data"

fun alias_path :: "u8 list \<Rightarrow> (u8 list \<times> u8 list) list \<Rightarrow> u8 list option" where
  "alias_path name [] = None"
| "alias_path name ((an, ad) # as) = (if an = name then Some (take 255 (takeWhile (\<lambda>c. c \<noteq> 0) ad)) else alias_path name as)"

definition console_path :: "u8 list \<Rightarrow> (u8 list \<times> u8 list) list \<Rightarrow> u8 list option" where
  "console_path name as = (if name ! 0 = 47 then Some (take 255 name) else alias_path name as)"

text \<open>
  The path after entering and leaving a node. Entering a node when 255 characters are in use writes
  behind the array.
\<close>

definition enter_path :: "u8 list \<Rightarrow> u8 list \<Rightarrow> u8 list option" where
  "enter_path path nm = (let path = (if length path > 1 then path @ [47] else path)
     in if length path < 256 then Some (path @ take (255 - length path) nm) else None)"

fun cut_path :: "u8 list \<Rightarrow> nat \<Rightarrow> nat" where
  "cut_path path 0 = 0"
| "cut_path path (Suc n) = (if n > 0 \<and> path ! n \<noteq> 47 then cut_path path n else Suc n)"

definition leave_path :: "u8 list \<Rightarrow> u8 list" where
  "leave_path path = (let c = cut_path path (length path) in take (if c > 1 then c - 1 else 1) path)"

definition reg_value :: "u8 list \<Rightarrow> int \<times> u64 option" where
  "reg_value data = (if length data \<ge> 4 then (0, Some (cells_value (take 2 (data_cells data)))) else (-1, None))"

text \<open>
  The second pass. \<open>inner\<close> says that no child node of the current node has been seen yet: only then
  are properties looked at and the path is cut back at the end of the node.
\<close>

fun uart_walk :: "u8 list \<Rightarrow> bool \<Rightarrow> bool \<Rightarrow> int \<Rightarrow> u8 list \<Rightarrow> tok list \<Rightarrow> (int \<times> u64 option) option" where
  "uart_walk target inner at_target depth path [] = Some (-1, None)"
| "uart_walk target inner at_target depth path (Begin_node nm # ts) =
     Option.bind (if depth = 0 \<and> nm = [] then Some path else enter_path path nm)
       (\<lambda>path. uart_walk target True (path = target) (depth + 1) path ts)"
| "uart_walk target inner at_target depth path (End_node # ts) =
     (if inner then uart_walk target False False (depth - 1) (leave_path path) ts
      else uart_walk target False False depth path ts)"
| "uart_walk target inner at_target depth path (Nop # ts) = uart_walk target inner at_target depth path ts"
| "uart_walk target inner at_target depth path (Prop nm data # ts) =
     (if inner \<and> at_target \<and> take 3 nm = str_reg then Some (reg_value data)
      else uart_walk target inner at_target depth path ts)"

definition uart_answer :: "tok list \<Rightarrow> (int \<times> u64 option) option" where
  "uart_answer ts = (case console_scan False False False 0 None [] ts of
     (None, as) \<Rightarrow> Some (-1, None)
   | (Some data, as) \<Rightarrow>
       if console_name data = [] then Some (-1, None)
       else case console_path (console_name data) as of None \<Rightarrow> Some (-1, None)
         | Some target \<Rightarrow> uart_walk target False False 0 [47] ts)"

text \<open>The console property and the aliases are terminated strings.\<close>

definition console_strings_ok :: "tok list \<Rightarrow> bool" where
  "console_strings_ok ts \<longleftrightarrow> (case console_scan False False False 0 None [] ts of (tk, as) \<Rightarrow>
     (case tk of None \<Rightarrow> True | Some data \<Rightarrow> 0 \<in> set data) \<and> (\<forall>a\<in>set as. 0 \<in> set (snd a)))"

subsection \<open>Trees\<close>

text \<open>A device tree and its stream of tokens.\<close>

datatype dtree = DNode "u8 list" "(u8 list \<times> u8 list) list" "dtree list"

definition prop_toks :: "(u8 list \<times> u8 list) list \<Rightarrow> tok list" where
  "prop_toks ps = map (\<lambda>(nm, data). Prop nm data) ps"

fun dtree_toks :: "dtree \<Rightarrow> tok list" where
  "dtree_toks (DNode nm ps kids) = Begin_node nm # prop_toks ps @ concat (map dtree_toks kids) @ [End_node]"

definition is_leaf :: "dtree \<Rightarrow> bool" where
  "is_leaf t = (case t of DNode nm ps kids \<Rightarrow> kids = [])"

definition node_name :: "dtree \<Rightarrow> u8 list" where
  "node_name t = (case t of DNode nm ps kids \<Rightarrow> nm)"

text \<open>
  The properties of the node with this path below a list of nodes, where every node that comes before
  it or before one of its parents is a leaf.
\<close>

fun find_node :: "u8 list list \<Rightarrow> dtree list \<Rightarrow> (u8 list \<times> u8 list) list option" where
  "find_node [] kids = None"
| "find_node (n # ns) [] = None"
| "find_node (n # ns) (DNode nm ps ds # kids) =
     (if nm = n then (if ns = [] then Some ps else find_node ns ds)
      else if ds = [] then find_node (n # ns) kids else None)"

definition name_ok :: "u8 list \<Rightarrow> bool" where
  "name_ok nm \<longleftrightarrow> nm \<noteq> [] \<and> 47 \<notin> set nm \<and> 0 \<notin> set nm"

fun names_ok :: "dtree \<Rightarrow> bool" where
  "names_ok (DNode nm ps kids) \<longleftrightarrow> name_ok nm \<and> list_all names_ok kids"

definition path_string :: "u8 list list \<Rightarrow> u8 list" where
  "path_string ns = concat (map (\<lambda>n. 47 # n) ns)"

definition node_path :: "u8 list list \<Rightarrow> u8 list" where
  "node_path ns = (if ns = [] then [47] else path_string ns)"

text \<open>The console of a tree is the node with this path.\<close>

definition console_at :: "dtree \<Rightarrow> u8 list list \<Rightarrow> bool" where
  "console_at t names \<longleftrightarrow> (case console_scan False False False 0 None [] (dtree_toks t) of
     (None, as) \<Rightarrow> False
   | (Some data, as) \<Rightarrow> console_name data \<noteq> [] \<and> console_path (console_name data) as = Some (path_string names))"

text \<open>The characters that the names of all nodes take in a path that is never cut back.\<close>

fun names_len :: "tok list \<Rightarrow> nat" where
  "names_len [] = 0"
| "names_len (Begin_node nm # ts) = Suc (length nm) + names_len ts"
| "names_len (t # ts) = names_len ts"

text \<open>Small trees: a console at \<open>/u\<close>, one behind a node with a child, and one named through an alias.\<close>

definition uart_demo :: "dtree list" where
  "uart_demo = [DNode str_chosen [(str_stdout_path, [47, 117, 0])] [], DNode [117] [(str_reg, [0, 0, 0, 0, 9, 0, 0, 0])] []]"

definition uart_alias_demo :: dtree where
  "uart_alias_demo = DNode [] []
     [DNode str_aliases [([115], [47, 97, 47, 117, 0])] [], DNode str_chosen [(str_stdout_path, [115, 58, 49, 0])] [],
      DNode [97] [] [DNode [117] [(str_reg, [9, 0, 0, 0])] []]]"

subsection \<open>Used in the proofs\<close>

text \<open>The array starts with these characters.\<close>

definition arr_starts :: "(nat \<Rightarrow> u8) \<Rightarrow> u8 list \<Rightarrow> bool" where
  "arr_starts a P \<longleftrightarrow> (\<forall>j<length P. a j = P ! j)"

text \<open>The rest of the pass from inside the loop over the properties of a node.\<close>

definition pass2_rest :: "cmem \<Rightarrow> u64 \<Rightarrow> u64 \<Rightarrow> u8 list \<Rightarrow> bool \<Rightarrow> pass2 \<Rightarrow> (int \<times> u64 option) option" where
  "pass2_rest m fdt strings target at_target st = Option.bind (pass2_props m fdt strings at_target st)
     (\<lambda>r. case r of Inl a \<Rightarrow> Some a | Inr st \<Rightarrow> pass2_loop m fdt strings target st)"

text \<open>What the pass has collected, as pointers and as strings.\<close>

definition token_rel :: "cmem \<Rightarrow> (u64 \<times> u32) option \<Rightarrow> u8 list option \<Rightarrow> bool" where
  "token_rel m = rel_option (\<lambda>(a, l) data. holds m a data \<and> length data < 2 ^ 31 \<and> l = of_nat (length (console_name data)))"

definition alias_rel :: "cmem \<Rightarrow> u64 \<times> u64 \<Rightarrow> u8 list \<times> u8 list \<Rightarrow> bool" where
  "alias_rel m = (\<lambda>(an, ap) (nm, data). cs (at m an) nm \<and> holds m ap data)"

definition scan_rel :: "cmem \<Rightarrow> int \<Rightarrow> u8 list option \<Rightarrow> (u8 list \<times> u8 list) list \<Rightarrow> pass1 \<Rightarrow> bool" where
  "scan_rel m depth tk as st \<longleftrightarrow> p1_depth st = depth \<and> token_rel m (p1_token st) tk \<and> list_all2 (alias_rel m) (p1_aliases st) as"

text \<open>The rest of the pass from inside the loop over the properties of a node.\<close>

definition pass1_rest :: "cmem \<Rightarrow> u64 \<Rightarrow> u64 \<Rightarrow> bool \<Rightarrow> bool \<Rightarrow> pass1 \<Rightarrow> pass1 option" where
  "pass1_rest m fdt strings ch al st = Option.bind (pass1_props m fdt strings ch al st)
     (\<lambda>r. case r of Inl st \<Rightarrow> Some st | Inr st \<Rightarrow> pass1_loop m fdt strings st)"

definition scan_res :: "cmem \<Rightarrow> u8 list option \<times> (u8 list \<times> u8 list) list \<Rightarrow> pass1 \<Rightarrow> bool" where
  "scan_res m c r \<longleftrightarrow> token_rel m (p1_token r) (fst c) \<and> list_all2 (alias_rel m) (p1_aliases r) (snd c)"

section \<open>Lemmas\<close>

lemma path_equals_from_spec: "cs_from a i s \<Longrightarrow> cs_from b i t \<Longrightarrow> path_equals_from a b i = Some (s = t)"
proof (induction s arbitrary: i t)
  case Nil
  then show ?case by (cases t; subst path_equals_from.simps) auto
next
  case (Cons x s)
  then show ?case by (cases t; subst path_equals_from.simps) auto
qed

lemma path_equals_spec: "cs a s \<Longrightarrow> cs b t \<Longrightarrow> path_equals a b = Some (s = t)"
  by (simp add: path_equals_def cs_def path_equals_from_spec)

lemma arr_starts_snoc: "arr_starts a P \<Longrightarrow> arr_starts (a(length P := c)) (P @ [c])"
  by (auto simp: arr_starts_def nth_append less_Suc_eq)

lemma path_cs: "cs (path_rd a) path \<longleftrightarrow> 0 \<notin> set path \<and> arr_starts a path \<and> length path < 256 \<and> a (length path) = 0"
proof (cases "length path < 256")
  case True
  then have "path_rd a i = Some (a i)" if "i \<le> length path" for i using that by (simp add: path_rd_def)
  then show ?thesis using True by (auto simp: cs_iff arr_starts_def)
qed (simp add: cs_iff path_rd_def)

lemma path_append_spec:
  "cs_from name i nm \<Longrightarrow> arr_starts a P \<Longrightarrow>
   \<exists>a'. path_append name i (length nm) (length P) a = Some (length P + min (255 - length P) (length nm), a') \<and>
     arr_starts a' (P @ take (255 - length P) nm)"
proof (induction nm arbitrary: i a P)
  case (Cons c nm)
  show ?case
  proof (cases "length P < 255")
    case True
    obtain k where k: "255 - length P = Suc k" using True by (metis Suc_diff_Suc)
    then have "255 - length (P @ [c]) = k" by simp
    with Cons.IH [of "Suc i" "a(length P := c)" "P @ [c]"] Cons.prems arr_starts_snoc k True show ?thesis by fastforce
  qed (use Cons.prems in simp)
qed simp

lemma path_push_spec:
  assumes "cs (path_rd a) path" "cs name nm"
  shows "case enter_path path nm of None \<Rightarrow> path_push name (length nm) a = None
    | Some path' \<Rightarrow> \<exists>a'. path_push name (length nm) a = Some a' \<and> cs (path_rd a') path'"
proof -
  let ?P = "if length path > 1 then path @ [47] else path"
  have path: "0 \<notin> set path" "arr_starts a path" "length path < 256" using assms(1) by (simp_all add: path_cs)
  have nm: "0 \<notin> set nm" using assms(2) by (simp add: cs_iff)
  have len: "name_len_from (path_rd a) 0 = Some (length path)"
    using assms(1) name_len_spec [of _ 0 path] by (simp add: cs_def)
  have slash: "(if length path > 1 then do { a \<leftarrow> arr_set 256 a (length path) 47; Some (length path + 1, a) } else Some (length path, a)) =
      Some (length ?P, if length path > 1 then a(length path := 47) else a)" using path(3) by simp
  have starts: "arr_starts (if length path > 1 then a(length path := 47) else a) ?P" using path(2) arr_starts_snoc by auto
  obtain a' where a': "path_append name 0 (length nm) (length ?P) (if length path > 1 then a(length path := 47) else a) =
      Some (length (?P @ take (255 - length ?P) nm), a')" "arr_starts a' (?P @ take (255 - length ?P) nm)"
    using path_append_spec [OF assms(2) [unfolded cs_def] starts] by (auto simp: min.commute)
  let ?Q = "?P @ take (255 - length ?P) nm"
  have push: "path_push name (length nm) a = arr_set 256 a' (length ?Q) 0"
    unfolding path_push_def len bind.bind_lunit slash prod.case a'(1) ..
  show ?thesis
  proof (cases "length ?P < 256")
    case True
    have "length (Q @ take (255 - length Q) nm) < 256" if "length Q < 256" for Q using that by auto
    with True have "length ?Q < 256" by blast
    moreover have "arr_starts (a'(length ?Q := 0)) ?Q" using a'(2) by (auto simp: arr_starts_def)
    moreover have "0 \<notin> set ?Q" using path(1) nm by (auto dest: in_set_takeD)
    ultimately have "cs (path_rd (a'(length ?Q := 0))) ?Q" by (simp add: path_cs)
    moreover have "enter_path path nm = Some ?Q" using True by (simp add: enter_path_def Let_def)
    ultimately show ?thesis using push \<open>length ?Q < 256\<close> by simp
  next
    case False
    then show ?thesis using push by (simp add: enter_path_def Let_def)
  qed
qed

lemma path_cut_spec: "arr_starts a path \<Longrightarrow> n \<le> length path \<Longrightarrow> path_cut a n = cut_path path n"
  by (induction n) (auto simp: arr_starts_def)

lemma cut_path_le: "cut_path path n \<le> n"
  by (induction n) (auto intro: le_SucI)

lemma path_pop_spec:
  assumes "cs (path_rd a) path" "path \<noteq> []"
  shows "\<exists>a'. path_pop a = Some a' \<and> cs (path_rd a') (leave_path path)"
proof -
  have path: "0 \<notin> set path" "arr_starts a path" "length path < 256" using assms(1) by (simp_all add: path_cs)
  let ?c = "cut_path path (length path)" and ?k = "if cut_path path (length path) > 1 then cut_path path (length path) - 1 else 1"
  have "name_len_from (path_rd a) 0 = Some (length path)"
    using assms(1) name_len_spec [of _ 0 path] by (simp add: cs_def)
  moreover have k: "?k \<le> length path" using cut_path_le [of path "length path"] assms(2) by (cases path) auto
  ultimately have "path_pop a = Some (a(?k := 0))"
    using path(2,3) by (auto simp: path_pop_def path_cut_spec Let_def)
  moreover have "cs (path_rd (a(?k := 0))) (take ?k path)"
    using path k by (auto simp: path_cs arr_starts_def min_absorb2 dest: in_set_takeD)
  ultimately show ?thesis by (auto simp: leave_path_def Let_def)
qed

subsection \<open>The second pass follows the stream\<close>

lemma leave_path_nonempty: "path \<noteq> [] \<Longrightarrow> leave_path path \<noteq> []"
  by (auto simp: leave_path_def Let_def)

lemma enter_path_nonempty: "enter_path path nm = Some path' \<Longrightarrow> path \<noteq> [] \<Longrightarrow> path' \<noteq> []"
  by (auto simp: enter_path_def Let_def split: if_splits)

lemma first_cells:
  assumes "holds m q data" "length data \<ge> 4"
  shows "ld_be32 m q = Some (data_cells data ! 0)"
    "length data \<ge> 8 \<Longrightarrow> ld_be32 m (q + 4) = Some (data_cells data ! 1) \<and>
       cells_value (take 2 (data_cells data)) = push_bit 32 (ucast (data_cells data ! 0)) OR ucast (data_cells data ! 1)"
    "length data < 8 \<Longrightarrow> cells_value (take 2 (data_cells data)) = ucast (data_cells data ! 0)"
proof -
  have 1: "ld_be32 m q = Some (data_cells data ! 0)" "holds m (q + 4) (drop 4 data)"
    "data_cells data = data_cells data ! 0 # data_cells (drop 4 data)"
    using ld_first_cell [OF assms] by auto
  show "ld_be32 m q = Some (data_cells data ! 0)" by (rule 1(1))
  show "cells_value (take 2 (data_cells data)) = ucast (data_cells data ! 0)" if "length data < 8"
    using data_cells_short [of "drop 4 data"] that by (subst 1(3)) (simp add: cells_value_def)
  assume "length data \<ge> 8"
  then have 2: "ld_be32 m (q + 4) = Some (data_cells (drop 4 data) ! 0)"
    "data_cells (drop 4 data) = data_cells (drop 4 data) ! 0 # data_cells (drop 4 (drop 4 data))"
    using ld_first_cell [OF 1(2)] by auto
  obtain x y zs where "data_cells data = x # y # zs" "data_cells (drop 4 data) = y # zs" using 1(3) 2(2) by metis
  with 2(1) show "ld_be32 m (q + 4) = Some (data_cells data ! 1) \<and>
      cells_value (take 2 (data_cells data)) = push_bit 32 (ucast (data_cells data ! 0)) OR ucast (data_cells data ! 1)"
    by (simp add: cells_value_def)
qed

lemma pass2_prop_spec:
  assumes t: "tok_at m fdt strings p (Prop nm data)" "tok_size (Prop nm data) < 2 ^ 31" and st: "p2_p st = p + 4"
  shows "pass2_prop m fdt strings at_target st =
    Some (if at_target \<and> take 3 nm = str_reg then Inl (reg_value data) else Inr (st\<lparr>p2_p := p + of_nat (tok_size (Prop nm data))\<rparr>))"
proof -
  obtain off where r: "rd_tok m fdt (p + 4) = Some (of_nat (length data))" "rd_tok m fdt (p + 8) = Some off"
    "cs (at m (strings + ucast off)) nm" "holds m (fdt + ucast (p + 12)) data"
    using t(1) by (auto simp: tok_at_def)
  have len: "unat (of_nat (length data) :: u32) = length data" using prop_len [OF t(2)] by (simp add: unat_of_nat)
  obtain d where d: "strncmp (at m (strings + ucast off)) (lit str_reg) 3 = Some d" "d = 0 \<longleftrightarrow> take 3 nm = str_reg"
    using strncmp_eq [OF r(3), of str_reg 3] by (auto simp: str_reg_def)
  have p: "p2_p st + 4 = p + 8" "p2_p st + 8 = p + 12" using st by simp_all
  have "(8 :: u32) \<le> of_nat (length data) \<longleftrightarrow> 8 \<le> length data" "(4 :: u32) \<le> of_nat (length data) \<longleftrightarrow> 4 \<le> length data"
    using len by (simp_all add: word_le_nat_alt)
  then show ?thesis
    using first_cells [OF r(4)] d tok_next(2) [OF t(2), of p]
    unfolding pass2_prop_def p unfolding st r(1,2) bind.bind_lunit Let_def
    by (auto simp: reg_value_def)
qed

lemma pass2_begin:
  assumes t: "tok_at m fdt strings p (Begin_node nm)" "tok_size (Begin_node nm) < 2 ^ 31" and st: "p2_p st = p"
    and path: "cs (path_rd (p2_path st)) path" and target: "0 \<notin> set target"
  shows "case (if p2_depth st = 0 \<and> nm = [] then Some path else enter_path path nm) of
      None \<Rightarrow> pass2_step m fdt strings target st = None
    | Some path' \<Rightarrow> \<exists>st'. pass2_step m fdt strings target st = pass2_props m fdt strings (path' = target) st' \<and>
        p2_p st' = p + of_nat (tok_size (Begin_node nm)) \<and> p2_depth st' = p2_depth st + 1 \<and> cs (path_rd (p2_path st')) path'"
proof -
  have r: "rd_tok m fdt p = Some DTB_BEGIN_NODE" "cs (at m (fdt + ucast (p + 4))) nm"
    using t(1) by (simp_all add: tok_at_def)
  have nl: "name_len_from (at m (fdt + ucast (p + 4))) 0 = Some (length nm)"
    using name_len_spec [of _ 0 nm] r(2) by (simp add: cs_def)
  have eq: "path_equals (path_rd a) (lit target) = Some (q = target)" if "cs (path_rd a) q" for a q
    using path_equals_spec [OF that] target by simp
  show ?thesis
    using path_push_spec [OF path r(2)] path tok_next(1) [OF t(2), of p]
    by (auto simp: pass2_step_def st r(1) nl eq Let_def add.commute [of 1] split: option.splits)
qed

lemma pass2_rest_inner:
  "pass2_rest m fdt strings target at_target st = Option.bind (pass2_inner m fdt strings at_target st) (\<lambda>r. case r of
     Inl a \<Rightarrow> Some a
   | Inr (Next_prop st) \<Rightarrow> pass2_rest m fdt strings target at_target st
   | Inr (Leave_node st) \<Rightarrow> pass2_loop m fdt strings target st
   | Inr (Pass_done st) \<Rightarrow> pass2_loop m fdt strings target st)"
  unfolding pass2_rest_def
  by (subst pass2_props.simps, cases "pass2_inner m fdt strings at_target st") (auto split: sum.splits after_props.splits)

lemma pass2_spec:
  assumes "toks_at m fdt strings p ts" "0 \<notin> set target" "p2_p st = p" "cs (path_rd (p2_path st)) path" "path \<noteq> []"
  shows "pass2_loop m fdt strings target st = uart_walk target False False (p2_depth st) path ts \<and>
    pass2_rest m fdt strings target at_target st = uart_walk target True at_target (p2_depth st) path ts"
  using assms(1,3-)
proof (induction ts arbitrary: p st path at_target)
  case Nil
  then show ?case
    by (subst pass2_loop.simps, subst pass2_rest_inner) (simp add: pass2_step_def pass2_inner_def Let_def)
next
  case (Cons t ts)
  have t: "tok_at m fdt strings p t" "tok_size t < 2 ^ 31" "toks_at m fdt strings (p + of_nat (tok_size t)) ts"
    using Cons.prems(1) by simp_all
  note st = Cons.prems(2) and path = Cons.prems(3,4)
  note outer = Cons.IH [OF t(3), THEN conjunct1] and inner = Cons.IH [OF t(3), THEN conjunct2]
  show ?case
  proof (cases t)
    case (Begin_node nm)
    let ?q = "if p2_depth st = 0 \<and> nm = [] then Some path else enter_path path nm"
    have ne: "q \<noteq> []" if "?q = Some q" for q using that path(2) enter_path_nonempty by (auto split: if_splits)
    have loop: "pass2_loop m fdt strings target st = uart_walk target False False (p2_depth st) path (t # ts)"
    proof (cases ?q)
      case None
      with pass2_begin [OF t(1,2) [unfolded Begin_node] st path(1) assms(2)] show ?thesis
        by (subst pass2_loop.simps) (simp add: Begin_node)
    next
      case (Some q)
      with pass2_begin [OF t(1,2) [unfolded Begin_node] st path(1) assms(2)]
      obtain st' where st': "pass2_step m fdt strings target st = pass2_props m fdt strings (q = target) st'"
        "p2_p st' = p + of_nat (tok_size t)" "p2_depth st' = p2_depth st + 1" "cs (path_rd (p2_path st')) q"
        by (auto simp: Begin_node)
      have "pass2_loop m fdt strings target st = pass2_rest m fdt strings target (q = target) st'"
        by (subst pass2_loop.simps) (simp add: st'(1) pass2_rest_def)
      then show ?thesis using inner [OF st'(2,4) ne [OF Some]] Some st'(3) by (simp add: Begin_node)
    qed
    moreover have "st\<lparr>p2_p := p\<rparr> = st" using st by simp
    with t(1) st have "pass2_inner m fdt strings at_target st = Some (Inr (Leave_node st))"
      by (simp add: pass2_inner_def tok_at_def Begin_node Let_def)
    ultimately show ?thesis by (subst pass2_rest_inner) (simp add: Begin_node)
  next
    case (Prop nm data)
    have "pass2_step m fdt strings target st = Some (Inr (st\<lparr>p2_p := p + of_nat (tok_size t)\<rparr>))"
      using t(1) st tok_next(2) [OF t(2) [unfolded Prop], of p] by (auto simp: pass2_step_def tok_at_def Prop Let_def add.assoc)
    moreover have "pass2_inner m fdt strings at_target st = Some (if at_target \<and> take 3 nm = str_reg then Inl (reg_value data)
        else Inr (Next_prop (st\<lparr>p2_p := p + of_nat (tok_size t)\<rparr>)))"
      using t(1) st pass2_prop_spec [OF t(1,2) [unfolded Prop], of "st\<lparr>p2_p := p + 4\<rparr>" at_target]
      by (simp add: pass2_inner_def tok_at_def Prop Let_def)
    ultimately show ?thesis
      using outer inner path by (subst pass2_loop.simps, subst pass2_rest_inner) (simp add: Prop)
  next
    case End_node
    obtain a where a: "path_pop (p2_path st) = Some a" "cs (path_rd a) (leave_path path)" using path_pop_spec [OF path] by blast
    then show ?thesis using t(1) st outer path leave_path_nonempty [OF path(2)]
      by (subst pass2_loop.simps, subst pass2_rest_inner)
         (simp add: pass2_step_def pass2_inner_def tok_at_def End_node tok_size_def Let_def)
  next
    case Nop
    then show ?thesis using t(1) st outer inner path
      by (subst pass2_loop.simps, subst pass2_rest_inner)
         (simp add: pass2_step_def pass2_inner_def tok_at_def tok_size_def Let_def)
  qed
qed

subsection \<open>The first pass follows the stream\<close>

lemma extract_len_spec:
  "\<forall>i<length ds. r (l + i) = Some (ds ! i) \<Longrightarrow> extract_len r (l + length ds) l = Some (l + length (console_name ds))"
proof (induction ds arbitrary: l)
  case Nil
  then show ?case by (subst extract_len.simps) (simp add: console_name_def)
next
  case (Cons d ds)
  have "r l = Some d" "\<forall>i<length ds. r (Suc l + i) = Some (ds ! i)" using Cons.prems by (auto simp: All_less_Suc2)
  with Cons.IH [of "Suc l"] show ?case by (subst extract_len.simps) (simp add: console_name_def)
qed

lemma extract_path_token_spec:
  "holds m a data \<Longrightarrow> length data < 2 ^ 31 \<Longrightarrow>
   extract_path_token (at m a) (of_nat (length data)) = Some (of_nat (length (console_name data)))"
  using extract_len_spec [of data "at m a" 0] by (simp add: extract_path_token_def holds_def at_def unat_of_nat)

lemma scan_rel_upd [simp]:
  "scan_rel m depth tk as (st\<lparr>p1_p := q\<rparr>) \<longleftrightarrow> scan_rel m depth tk as st"
  "scan_rel m depth tk as (st\<lparr>p1_p := q, p1_depth := d\<rparr>) \<longleftrightarrow> scan_rel m depth tk as (st\<lparr>p1_depth := d\<rparr>)"
  by (simp_all add: scan_rel_def)

lemma scan_rel_depth: "scan_rel m depth tk as st \<Longrightarrow> scan_rel m d tk as (st\<lparr>p1_depth := d\<rparr>)"
  by (simp add: scan_rel_def)

lemma pass1_prop_spec:
  assumes t: "tok_at m fdt strings p (Prop nm data)" "tok_size (Prop nm data) < 2 ^ 31" and st: "p1_p st = p + 4"
    and rel: "scan_rel m depth tk as st"
  shows "\<exists>st'. pass1_prop m fdt strings ch al st = Some st' \<and> p1_p st' = p + of_nat (tok_size (Prop nm data)) \<and>
    scan_rel m depth (if ch \<and> take 6 nm = str_stdout then Some data else tk)
      (if \<not> (ch \<and> take 6 nm = str_stdout) \<and> al \<and> length as < 16 then as @ [(nm, data)] else as) st'"
proof -
  obtain off where r: "rd_tok m fdt (p + 4) = Some (of_nat (length data))" "rd_tok m fdt (p + 8) = Some off"
    "cs (at m (strings + ucast off)) nm" "holds m (fdt + ucast (p + 12)) data"
    using t(1) by (auto simp: tok_at_def)
  have p: "p1_p st + 4 = p + 8" "p1_p st + 8 = p + 12" using st by simp_all
  obtain d e where d: "strncmp (at m (strings + ucast off)) (lit str_stdout_path) 11 = Some d" "d = 0 \<longleftrightarrow> take 11 nm = str_stdout_path"
    "strncmp (at m (strings + ucast off)) (lit str_stdout) 6 = Some e" "e = 0 \<longleftrightarrow> take 6 nm = str_stdout"
    using strncmp_eq [OF r(3), of str_stdout_path 11] strncmp_eq [OF r(3), of str_stdout 6] by (auto simp: str_stdout_path_def str_stdout_def)
  have "take 6 nm = str_stdout" if "take 11 nm = str_stdout_path"
    using arg_cong [OF that, of "take 6"] by (simp add: str_stdout_path_def str_stdout_def)
  with d have is_stdout: "(if ch then do { d \<leftarrow> strncmp (at m (strings + ucast off)) (lit str_stdout_path) 11;
       if d = 0 then Some True else do { d \<leftarrow> strncmp (at m (strings + ucast off)) (lit str_stdout) 6; Some (d = 0) } }
     else Some False) = Some (ch \<and> take 6 nm = str_stdout)" by auto
  have len: "length (p1_aliases st) = length as" using rel by (auto simp: scan_rel_def dest: list_all2_lengthD)
  have next_p: "p + 12 + align4 (of_nat (length data)) = p + of_nat (tok_size (Prop nm data))" by (rule tok_next(2) [OF t(2)])
  show ?thesis
    using rel r(3,4) prop_len [OF t(2)] extract_path_token_spec [OF r(4) prop_len [OF t(2)]] len
    unfolding pass1_prop_def p unfolding st r(1,2) bind.bind_lunit Let_def is_stdout next_p
    by (auto simp: scan_rel_def token_rel_def alias_rel_def list_all2_appendI)
qed

lemma pass1_rest_inner:
  "pass1_rest m fdt strings ch al st = Option.bind (pass1_inner m fdt strings ch al st) (\<lambda>r. case r of
     Next_prop st \<Rightarrow> pass1_rest m fdt strings ch al st
   | Leave_node st \<Rightarrow> pass1_loop m fdt strings st
   | Pass_done st \<Rightarrow> Some st)"
  unfolding pass1_rest_def
  by (subst pass1_props.simps, cases "pass1_inner m fdt strings ch al st") (auto split: after_props.splits)

lemma pass1_begin:
  assumes t: "tok_at m fdt strings p (Begin_node nm)" "tok_size (Begin_node nm) < 2 ^ 31" and st: "p1_p st = p"
    and rel: "scan_rel m depth tk as st" "0 \<le> depth"
  shows "\<exists>st'. let depth' = (if depth < 16 then depth + 1 else depth) in
    pass1_step m fdt strings st =
      pass1_props m fdt strings (depth' = 2 \<and> take 6 nm = str_chosen) (depth' = 2 \<and> take 7 nm = str_aliases) st' \<and>
    p1_p st' = p + of_nat (tok_size (Begin_node nm)) \<and> scan_rel m depth' tk as st'"
proof -
  have r: "rd_tok m fdt p = Some DTB_BEGIN_NODE" "cs (at m (fdt + ucast (p + 4))) nm"
    using t(1) by (simp_all add: tok_at_def)
  have nl: "name_len_from (at m (fdt + ucast (p + 4))) 0 = Some (length nm)"
    using name_len_spec [of _ 0 nm] r(2) by (simp add: cs_def)
  obtain d e where d: "strncmp (at m (fdt + ucast (p + 4))) (lit str_chosen) 6 = Some d" "d = 0 \<longleftrightarrow> take 6 nm = str_chosen"
    "strncmp (at m (fdt + ucast (p + 4))) (lit str_aliases) 7 = Some e" "e = 0 \<longleftrightarrow> take 7 nm = str_aliases"
    using strncmp_eq [OF r(2), of str_chosen 6] strncmp_eq [OF r(2), of str_aliases 7] by (auto simp: str_chosen_def str_aliases_def)
  have depth: "p1_depth st = depth" using rel(1) by (simp add: scan_rel_def)
  let ?st = "st\<lparr>p1_p := p + of_nat (tok_size (Begin_node nm)), p1_depth := (if depth < 16 then depth + 1 else depth)\<rparr>"
  have "pass1_step m fdt strings st = pass1_props m fdt strings (p1_depth ?st = 2 \<and> take 6 nm = str_chosen)
      (p1_depth ?st = 2 \<and> take 7 nm = str_aliases) ?st"
  proof -
    have next_p: "p + 4 + align4 (1 + of_nat (length nm)) = p + of_nat (tok_size (Begin_node nm))"
      using tok_next(1) [OF t(2), of p] by (simp only: add.commute)
    show ?thesis
      unfolding pass1_step_def st r(1) bind.bind_lunit Let_def using d depth rel(2) by (auto simp: nl next_p)
  qed
  then show ?thesis using scan_rel_depth [OF rel(1)] by (intro exI [of _ ?st]) (simp add: Let_def)
qed

lemma pass1_spec:
  assumes "toks_at m fdt strings p ts" "p1_p st = p" "scan_rel m depth tk as st" "0 \<le> depth"
  shows "(\<exists>r. pass1_loop m fdt strings st = Some r \<and> scan_res m (console_scan False False False depth tk as ts) r) \<and>
    (1 \<le> depth \<longrightarrow> (\<exists>r. pass1_rest m fdt strings ch al st = Some r \<and> scan_res m (console_scan True ch al depth tk as ts) r))"
  using assms
proof (induction ts arbitrary: p st depth tk as ch al)
  case Nil
  then show ?case
    by (subst pass1_loop.simps, subst pass1_rest_inner) (simp add: pass1_step_def pass1_inner_def scan_rel_def scan_res_def Let_def)
next
  case (Cons t ts)
  have t: "tok_at m fdt strings p t" "tok_size t < 2 ^ 31" "toks_at m fdt strings (p + of_nat (tok_size t)) ts"
    using Cons.prems(1) by simp_all
  note st = Cons.prems(2) and rel = Cons.prems(3,4)
  have depth: "p1_depth st = depth" using rel(1) by (simp add: scan_rel_def)
  note outer = Cons.IH [OF t(3), THEN conjunct1] and inner = Cons.IH [OF t(3), THEN conjunct2, rule_format]
  show ?case
  proof (cases t)
    case (Begin_node nm)
    let ?d = "if depth < 16 then depth + 1 else depth"
    obtain st' where st': "pass1_step m fdt strings st =
        pass1_props m fdt strings (?d = 2 \<and> take 6 nm = str_chosen) (?d = 2 \<and> take 7 nm = str_aliases) st'"
      "p1_p st' = p + of_nat (tok_size t)" "scan_rel m ?d tk as st'"
      using pass1_begin [OF t(1,2) [unfolded Begin_node] st rel] by (auto simp: Begin_node Let_def)
    have "pass1_loop m fdt strings st =
        pass1_rest m fdt strings (?d = 2 \<and> take 6 nm = str_chosen) (?d = 2 \<and> take 7 nm = str_aliases) st'"
      by (subst pass1_loop.simps) (simp only: st'(1) pass1_rest_def)
    moreover have "0 \<le> ?d" "1 \<le> ?d" using rel(2) by auto
    ultimately have loop: "\<exists>r. pass1_loop m fdt strings st = Some r \<and> scan_res m (console_scan False False False depth tk as (t # ts)) r"
      using inner [OF st'(2,3)] by (simp add: Begin_node Let_def)
    have "st\<lparr>p1_p := p\<rparr> = st" using st by simp
    with t(1) st have "pass1_inner m fdt strings ch al st = Some (Leave_node st)"
      by (simp add: pass1_inner_def tok_at_def Begin_node Let_def)
    with loop show ?thesis by (subst pass1_rest_inner) (simp add: Begin_node Let_def)
  next
    case (Prop nm data)
    have step: "pass1_step m fdt strings st = Some (Inr (st\<lparr>p1_p := p + of_nat (tok_size t)\<rparr>))"
      using t(1) st tok_next(2) [OF t(2) [unfolded Prop], of p] by (auto simp: pass1_step_def tok_at_def Prop Let_def add.assoc)
    have "scan_rel m depth tk as (st\<lparr>p1_p := p + 4\<rparr>)" using rel(1) by simp
    from pass1_prop_spec [OF t(1,2) [unfolded Prop] _ this, of ch al]
    obtain st' where st': "pass1_prop m fdt strings ch al (st\<lparr>p1_p := p + 4\<rparr>) = Some st'" "p1_p st' = p + of_nat (tok_size t)"
      "scan_rel m depth (if ch \<and> take 6 nm = str_stdout then Some data else tk)
        (if \<not> (ch \<and> take 6 nm = str_stdout) \<and> al \<and> length as < 16 then as @ [(nm, data)] else as) st'"
      by (auto simp: Prop)
    then have "pass1_inner m fdt strings ch al st = Some (Next_prop st')"
      using t(1) st by (simp add: pass1_inner_def tok_at_def Prop Let_def)
    then show ?thesis
      using step outer [of "st\<lparr>p1_p := p + of_nat (tok_size t)\<rparr>" depth tk as] inner [OF st'(2,3) rel(2)] rel
      by (subst pass1_loop.simps, subst pass1_rest_inner) (auto simp: Prop)
  next
    case End_node
    then show ?thesis
      using t(1) st rel depth outer [of "st\<lparr>p1_p := p + 4, p1_depth := depth - 1\<rparr>" "depth - 1" tk as]
        outer [of "st\<lparr>p1_p := p + 4\<rparr>" depth tk as] scan_rel_depth [OF rel(1), of "depth - 1"]
      by (subst pass1_loop.simps, subst pass1_rest_inner)
         (auto simp: pass1_step_def pass1_inner_def tok_at_def tok_size_def Let_def)
  next
    case Nop
    then show ?thesis
      using t(1) st rel outer [of "st\<lparr>p1_p := p + 4\<rparr>" depth tk as] inner [of "st\<lparr>p1_p := p + 4\<rparr>" depth tk as]
      by (subst pass1_loop.simps, subst pass1_rest_inner)
         (auto simp: pass1_step_def pass1_inner_def tok_at_def tok_size_def Let_def)
  qed
qed

subsection \<open>Resolving the path\<close>

lemma copy_token_spec:
  "\<forall>j<n. r (i + j) = Some (ds ! j) \<Longrightarrow> n \<le> length ds \<Longrightarrow> copy_token r i n = Some (take n ds)"
proof (induction n arbitrary: i ds)
  case (Suc n)
  then obtain d ds' where "ds = d # ds'" by (cases ds) auto
  with Suc.IH [of "Suc i" ds'] Suc.prems show ?case by (auto simp: All_less_Suc2)
qed simp

lemma copy_path_spec:
  "\<forall>j<length ds. r (k + j) = Some (ds ! j) \<Longrightarrow> 0 \<in> set ds \<Longrightarrow> copy_path r k n = Some (take n (takeWhile (\<lambda>c. c \<noteq> 0) ds))"
proof (induction n arbitrary: k ds)
  case 0
  then show ?case by (cases ds) auto
next
  case (Suc n)
  then obtain d ds' where "ds = d # ds'" by (cases ds) auto
  with Suc.IH [of ds' "Suc k"] Suc.prems show ?case by (auto simp: All_less_Suc2)
qed

lemma match_len_spec:
  "cs_from an j s \<Longrightarrow> \<forall>i<length t. tk (j + i) = Some (t ! i) \<Longrightarrow> tk (j + length t) \<noteq> None \<Longrightarrow> 0 \<notin> set t \<Longrightarrow>
   \<exists>k. match_len an tk (j + length t) j = Some k \<and> (k = j + length t \<longrightarrow> an k \<noteq> None) \<and>
     (k = j + length t \<and> an k = Some 0 \<longleftrightarrow> s = t)"
proof (induction s arbitrary: j t)
  case Nil
  then show ?case by (subst match_len.simps) auto
next
  case (Cons x s)
  show ?case
  proof (cases t)
    case Nil
    with Cons.prems show ?thesis by (subst match_len.simps) auto
  next
    case (Cons y t')
    have "tk j = Some y" "\<forall>i<length t'. tk (Suc j + i) = Some (t' ! i)" "tk (Suc j + length t') \<noteq> None" "y \<noteq> 0" "0 \<notin> set t'"
      using Cons.prems(2-4) Cons by (auto simp: All_less_Suc2)
    with Cons.IH [of "Suc j" t'] Cons.prems(1) Cons show ?thesis by (subst match_len.simps) auto
  qed
qed

lemma find_alias_spec:
  assumes tk: "\<forall>i<length name. tk i = Some (name ! i)" "tk (length name) \<noteq> None" "0 \<notin> set name"
  shows "list_all2 (alias_rel m) as bs \<Longrightarrow> \<forall>b\<in>set bs. 0 \<in> set (snd b) \<Longrightarrow>
    find_alias m tk (length name) as = Some (alias_path name bs)"
proof (induction as bs rule: list_all2_induct)
  case (Cons a as b bs)
  obtain an ap nm data where ab: "a = (an, ap)" "b = (nm, data)" "cs (at m an) nm" "holds m ap data" "0 \<in> set data"
    using Cons by (auto simp: alias_rel_def split: prod.splits)
  obtain k where k: "match_len (at m an) tk (length name) 0 = Some k" "k = length name \<longrightarrow> at m an k \<noteq> None"
    "k = length name \<and> at m an k = Some 0 \<longleftrightarrow> nm = name"
    using match_len_spec [of "at m an" 0 nm name tk] tk ab(3) by (auto simp: cs_def)
  have "copy_path (at m ap) 0 255 = Some (take 255 (takeWhile (\<lambda>c. c \<noteq> 0) data))"
    using ab(4,5) by (intro copy_path_spec) (auto simp: holds_def at_def)
  then show ?case using Cons k ab(1,2) by auto
qed simp

lemma console_name_props:
  "0 \<notin> set (console_name data)" "i < length (console_name data) \<Longrightarrow> console_name data ! i = data ! i"
  "0 \<in> set data \<Longrightarrow> length (console_name data) < length data" "length (console_name data) \<le> length data"
proof -
  show "0 \<notin> set (console_name data)" by (auto simp: console_name_def dest: set_takeWhileD)
  show "i < length (console_name data) \<Longrightarrow> console_name data ! i = data ! i" by (simp add: console_name_def takeWhile_nth)
  show le: "length (console_name data) \<le> length data" by (simp add: console_name_def length_takeWhile_le)
  assume "0 \<in> set data"
  then have "console_name data \<noteq> data" using \<open>0 \<notin> set (console_name data)\<close> by auto
  moreover have "console_name data = take (length (console_name data)) data"
    unfolding console_name_def by (rule takeWhile_eq_take)
  ultimately have "length (console_name data) \<noteq> length data" by auto
  with le show "length (console_name data) < length data" by simp
qed

lemma resolve_path_spec:
  assumes h: "holds m a data" "length data < 2 ^ 31" "0 \<in> set data" and ne: "console_name data \<noteq> []"
    and as: "list_all2 (alias_rel m) as bs" "\<forall>b\<in>set bs. 0 \<in> set (snd b)"
  shows "resolve_path m (a, of_nat (length (console_name data))) as = Some (console_path (console_name data) bs)"
proof -
  let ?n = "console_name data"
  have lt: "length ?n < length data" using console_name_props(3) [OF h(3)] .
  have rd: "at m a i = Some (data ! i)" if "i < length data" for i using h(1) that by (simp add: holds_def at_def)
  then have tk: "\<forall>i<length ?n. at m a i = Some (?n ! i)" "at m a (length ?n) \<noteq> None"
    using lt console_name_props(2) [of _ data] by auto
  have l: "unat (of_nat (length ?n) :: u32) = length ?n" using lt h(2) by (simp add: unat_of_nat)
  have cut: "(if length ?n < 255 then length ?n else 255) = min (length ?n) 255" by simp
  have "at m a 0 = Some (?n ! 0)" using tk(1) ne by auto
  moreover have "copy_token (at m a) 0 (min (length ?n) 255) = Some (take 255 ?n)"
    using copy_token_spec [of "min (length ?n) 255" "at m a" 0 ?n] tk(1) by (simp add: min_def)
  ultimately show ?thesis
    using find_alias_spec [OF tk console_name_props(1) as] by (auto simp: resolve_path_def console_path_def l min_def split: if_splits)
qed

lemma console_path_nonzero: "console_path (console_name data) bs = Some target \<Longrightarrow> 0 \<notin> set target"
proof -
  have "0 \<notin> set target" if "alias_path name bs = Some target" for name
    using that by (induction bs) (auto split: if_splits dest!: in_set_takeD set_takeWhileD)
  then show "console_path (console_name data) bs = Some target \<Longrightarrow> 0 \<notin> set target"
    using console_name_props(1) [of data] by (auto simp: console_path_def split: if_splits dest!: in_set_takeD)
qed

lemma uart_base_spec:
  assumes "fdt_holds m fdt ts" "console_strings_ok ts"
  shows "dtb_get_stdout_uart_base fdt True m = uart_answer ts"
proof -
  obtain s str where f: "hdr_off_struct m fdt = Some s" "hdr_off_strings m fdt = Some str" "toks_at m fdt (fdt + ucast str) s ts"
    "fdt \<noteq> 0" "hdr_magic m fdt = Some 0xd00dfeed"
    using assms(1) by (auto simp: fdt_holds_def)
  obtain tk bs where scan: "console_scan False False False 0 None [] ts = (tk, bs)" by fastforce
  have ok: "\<forall>data. tk = Some data \<longrightarrow> 0 \<in> set data" "\<forall>b\<in>set bs. 0 \<in> set (snd b)"
    using assms(2) by (auto simp: console_strings_ok_def scan split: option.splits)
  let ?st = "\<lparr>p1_p = s, p1_depth = 0, p1_token = None, p1_aliases = []\<rparr>"
  have "scan_rel m 0 None [] ?st" by (simp add: scan_rel_def token_rel_def)
  from pass1_spec [OF f(3) _ this] obtain r where r: "pass1_loop m fdt (fdt + ucast str) ?st = Some r"
    "token_rel m (p1_token r) tk" "list_all2 (alias_rel m) (p1_aliases r) bs"
    by (auto simp: scan scan_res_def)
  let ?st2 = "\<lparr>p2_p = s, p2_depth = 0, p2_path = (\<lambda>_. 0)(0 := 47, 1 := 0)\<rparr>"
  have path: "cs (path_rd (p2_path ?st2)) [47]" by (simp add: path_cs arr_starts_def)
  show ?thesis
  proof (cases tk)
    case None
    with r(2) have "p1_token r = None" by (simp add: token_rel_def)
    with None show ?thesis
      by (simp add: dtb_get_stdout_uart_base_def uart_answer_def f r(1) scan Let_def)
  next
    case (Some data)
    then obtain a where a: "p1_token r = Some (a, of_nat (length (console_name data)))" "holds m a data" "length data < 2 ^ 31"
      using r(2) by (auto simp: token_rel_def option_rel_Some2)
    have zero: "(of_nat (length (console_name data)) :: u32) = 0 \<longleftrightarrow> console_name data = []"
    proof -
      have l: "length (console_name data) = unat (of_nat (length (console_name data)) :: u32)"
        using a(3) console_name_props(4) [of data] by (simp add: unat_of_nat)
      have "length (console_name data) = 0" if "(of_nat (length (console_name data)) :: u32) = 0"
        by (subst l, subst that) simp
      then show ?thesis by auto
    qed
    show ?thesis
    proof (cases "console_name data = []")
      case True
      then show ?thesis by (simp add: dtb_get_stdout_uart_base_def uart_answer_def f r(1) scan a(1) Some Let_def)
    next
      case False
      have "pass2_loop m fdt (fdt + ucast str) target ?st2 = uart_walk target False False 0 [47] ts"
        if "console_path (console_name data) bs = Some target" for target
        using pass2_spec [OF f(3) console_path_nonzero [OF that] _ path] by simp
      then show ?thesis
        using resolve_path_spec [OF a(2,3) _ False r(3) ok(2)] ok(1) zero False
        by (auto simp: dtb_get_stdout_uart_base_def uart_answer_def f r(1) scan a(1) Some Let_def split: option.splits)
    qed
  qed
qed

subsection \<open>Finding a node by its path\<close>

lemma path_string_snoc: "path_string (ns @ [n]) = path_string ns @ 47 # n"
  by (simp add: path_string_def)

lemma take_child:
  assumes "length (path_string ns) \<le> 254"
  shows "take 255 (path_string (ns @ [nm])) = path_string ns @ 47 # take (254 - length (path_string ns)) nm"
proof -
  have "255 - length (path_string ns) = Suc (254 - length (path_string ns))" using assms by simp
  then show ?thesis using assms by (simp add: path_string_snoc)
qed

lemma path_string_length: "\<forall>n\<in>set ns. name_ok n \<Longrightarrow> ns \<noteq> [] \<Longrightarrow> 1 < length (path_string ns)"
  by (cases ns) (auto simp: path_string_def name_ok_def)

lemma enter_path_names:
  assumes "\<forall>n\<in>set ns. name_ok n" "length (path_string ns) \<le> 254"
  shows "enter_path (node_path ns) nm = Some (take 255 (path_string (ns @ [nm])))"
proof (cases "ns = []")
  case True
  then show ?thesis by (simp add: enter_path_def node_path_def path_string_def)
next
  case False
  with path_string_length [OF assms(1)] assms(2) show ?thesis
    unfolding take_child [OF assms(2)] by (simp add: enter_path_def node_path_def Let_def)
qed

lemma cut_path_back:
  "47 \<notin> set nm \<Longrightarrow> k \<le> length nm \<Longrightarrow> cut_path (P @ 47 # nm) (length P + 1 + k) = length P + 1"
proof (induction k)
  case (Suc k)
  then have "nm ! k \<in> set nm" by (intro nth_mem) simp
  with Suc.prems(1) have "nm ! k \<noteq> 47" by metis
  then have "(P @ 47 # nm) ! (length P + 1 + k) \<noteq> 47" by (simp add: nth_append)
  with Suc show ?case by simp
qed (simp add: nth_append)

lemma leave_path_names:
  assumes "47 \<notin> set nm" "length (path_string ns) \<le> 254"
  shows "leave_path (take 255 (path_string (ns @ [nm]))) = node_path ns"
proof -
  let ?q = "path_string ns @ 47 # take (254 - length (path_string ns)) nm"
  have "47 \<notin> set (take (254 - length (path_string ns)) nm)" using assms(1) by (auto dest: in_set_takeD)
  from cut_path_back [OF this order.refl, of "path_string ns"]
  have c: "cut_path ?q (length ?q) = length (path_string ns) + 1" by (simp del: length_take)
  have "ns = []" if "path_string ns = []" using that by (cases ns) (auto simp: path_string_def)
  moreover have "leave_path ?q = take (if length (path_string ns) + 1 > 1 then length (path_string ns) else 1) ?q"
    unfolding leave_path_def Let_def c by simp
  ultimately show ?thesis unfolding take_child [OF assms(2)] by (cases "ns = []") (auto simp: node_path_def path_string_def)
qed

lemma walk_props: "uart_walk target inner False d P (prop_toks ps @ ts) = uart_walk target inner False d P ts"
  by (induction ps) (auto simp: prop_toks_def)

lemma walk_reg:
  "find (\<lambda>(nm, data). take 3 nm = str_reg) ps = Some (n, data) \<Longrightarrow>
   uart_walk target True True d P (prop_toks ps @ ts) = Some (reg_value data)"
  by (induction ps) (auto simp: prop_toks_def split: if_splits)

lemma other_path:
  assumes "lnm \<noteq> n" "47 \<notin> set lnm" "length (path_string (ns @ n # rest)) \<le> 254"
  shows "take 255 (path_string (ns @ [lnm])) \<noteq> path_string (ns @ n # rest)"
proof
  assume eq: "take 255 (path_string (ns @ [lnm])) = path_string (ns @ n # rest)"
  have "min (length (path_string (ns @ [lnm]))) 255 \<le> 254"
    using assms(3) arg_cong [OF eq, of length] by simp
  then have "length (path_string (ns @ [lnm])) < 255" by simp
  with eq have "lnm = n @ path_string rest" by (simp add: path_string_def)
  with assms(1,2) show False by (cases rest) (auto simp: path_string_def)
qed

lemma walk_leaf:
  assumes "name_ok nm" "\<forall>n\<in>set up. name_ok n" "length (path_string up) \<le> 254" "d > 0"
    and "take 255 (path_string (up @ [nm])) \<noteq> target"
  shows "uart_walk target inner at_target d (node_path up) (dtree_toks (DNode nm ps []) @ ts) =
    uart_walk target False False d (node_path up) ts"
  using assms enter_path_names [OF assms(2,3)] leave_path_names [of nm up]
  by (simp add: walk_props name_ok_def)

lemma walk_finds:
  "find_node names kids = Some ps \<Longrightarrow> find (\<lambda>(nm, data). take 3 nm = str_reg) ps = Some (rn, data) \<Longrightarrow>
   list_all names_ok kids \<Longrightarrow> \<forall>n\<in>set up. name_ok n \<Longrightarrow> length (path_string (up @ names)) \<le> 254 \<Longrightarrow> d > 0 \<Longrightarrow>
   uart_walk (path_string (up @ names)) inner at_target d (node_path up) (concat (map dtree_toks kids) @ ts) = Some (reg_value data)"
proof (induction names kids arbitrary: up d inner at_target ts rule: find_node.induct)
  case (3 n ns nm ps' ds kids)
  let ?target = "path_string (up @ n # ns)"
  have up: "length (path_string up) \<le> 254" "length (path_string (up @ [n])) \<le> 254"
    using "3.prems"(5) by (auto simp: path_string_def)
  have nm: "name_ok nm" "list_all names_ok ds" "list_all names_ok kids" using "3.prems"(3) by auto
  show ?case
  proof (cases "nm = n")
    case True
    have enter: "uart_walk ?target inner at_target d (node_path up) (concat (map dtree_toks (DNode nm ps' ds # kids)) @ ts) =
        uart_walk ?target True (path_string (up @ [n]) = ?target) (d + 1) (path_string (up @ [n]))
          (prop_toks ps' @ concat (map dtree_toks ds) @ (End_node # concat (map dtree_toks kids) @ ts))"
      using enter_path_names [OF "3.prems"(4) up(1), of nm] up(2) "3.prems"(6) True by simp
    show ?thesis
    proof (cases "ns = []")
      case t: True
      with "3.prems"(1,2) True show ?thesis using enter by (simp add: walk_reg)
    next
      case False
      have ne: "path_string (up @ [n]) \<noteq> ?target" using False by (cases ns) (auto simp: path_string_def)
      have "\<forall>k\<in>set (up @ [n]). name_ok k" using "3.prems"(4) nm(1) True by auto
      moreover have "node_path (up @ [n]) = path_string (up @ [n])" by (simp add: node_path_def)
      ultimately show ?thesis
        unfolding enter using "3.IH"(1) [OF True False, of "up @ [n]" "d + 1" True False "End_node # concat (map dtree_toks kids) @ ts"]
          "3.prems" True False nm(2) ne by (simp add: walk_props)
    qed
  next
    case False
    with "3.prems"(1) have leaf: "ds = []" "find_node (n # ns) kids = Some ps" by (auto split: if_splits)
    have "47 \<notin> set nm" using nm(1) by (simp add: name_ok_def)
    from walk_leaf [OF nm(1) "3.prems"(4) up(1) "3.prems"(6) other_path [OF False this "3.prems"(5)]]
    show ?thesis using "3.IH"(2) [OF False leaf(1,2) "3.prems"(2) nm(3) "3.prems"(4-6)] leaf(1) by simp
  qed
qed simp_all

lemma walk_root:
  "target \<noteq> [47] \<Longrightarrow> uart_walk target False False 0 [47] (dtree_toks (DNode [] ps kids)) =
    uart_walk target True False 1 (node_path []) (concat (map dtree_toks kids) @ [End_node])"
  by (simp add: walk_props node_path_def)

lemma path_string_root: "\<forall>n\<in>set ns. name_ok n \<Longrightarrow> ns \<noteq> [] \<Longrightarrow> path_string ns \<noteq> [47]"
  using path_string_length [of ns] by auto

lemma find_node_names: "find_node names kids = Some ps \<Longrightarrow> list_all names_ok kids \<Longrightarrow> names \<noteq> [] \<and> (\<forall>n\<in>set names. name_ok n)"
  by (induction names kids rule: find_node.induct) (auto split: if_splits)

lemma walk_leaves:
  assumes "\<forall>n\<in>set up. name_ok n" "length (path_string up) \<le> 254" "d > 0"
    and "\<forall>(nm, ps)\<in>set ls. name_ok nm \<and> take 255 (path_string (up @ [nm])) \<noteq> target"
  shows "\<exists>i. uart_walk target inner False d (node_path up) (concat (map (\<lambda>(nm, ps). dtree_toks (DNode nm ps [])) ls) @ ts) =
    uart_walk target i False d (node_path up) ts"
  using assms(4)
proof (induction ls arbitrary: inner)
  case (Cons l ls)
  obtain nm ps where "l = (nm, ps)" by fastforce
  with Cons walk_leaf [OF _ assms(1-3), of nm target inner False ps] show ?case by auto
qed auto

text \<open>A node that follows a node with children is taken to be below that node.\<close>

lemma walk_lost:
  assumes ok: "name_ok n1" "name_ok n2" "name_ok x" "\<forall>(nm, ps)\<in>set ls. name_ok nm"
    and ne: "n1 \<noteq> x" "\<forall>(nm, ps)\<in>set ls. nm \<noteq> x" and len: "length n1 + length x \<le> 250"
  shows "uart_walk (path_string [x]) True False 1 (node_path [])
    (concat (map dtree_toks (map (\<lambda>(nm, ps). DNode nm ps []) ls @ [DNode n1 ps1 [DNode n2 ps2 []], DNode x ps3 []])) @ [End_node]) =
    Some (-1, None)"
proof -
  let ?t = "path_string [x]"
    and ?ts = "dtree_toks (DNode n1 ps1 [DNode n2 ps2 []]) @ dtree_toks (DNode x ps3 []) @ [End_node]"
  have slash: "47 \<notin> set n1" "47 \<notin> set n2" "47 \<notin> set x" using ok by (simp_all add: name_ok_def)
  have l1: "length (path_string [n1]) \<le> 254" "length (path_string []) \<le> 254" "length ?t \<le> 254"
    using len by (simp_all add: path_string_def)
  have t1: "take 255 (path_string ([] @ [nm])) \<noteq> ?t" if "nm \<noteq> x" "47 \<notin> set nm" for nm
    using other_path [of nm x "[]" "[]"] that l1(3) by simp
  have deep: "take 255 (path_string ([n1] @ [nm])) \<noteq> ?t" for nm
  proof
    assume "take 255 (path_string ([n1] @ [nm])) = ?t"
    moreover have "take 255 (path_string ([n1] @ [nm])) = path_string [n1] @ 47 # take (254 - length (path_string [n1])) nm"
      by (rule take_child [OF l1(1)])
    ultimately have "47 \<in> set x" by (auto simp: path_string_def dest: arg_cong [of _ _ set])
    with slash(3) show False by simp
  qed
  have "\<forall>(nm, ps)\<in>set ls. name_ok nm \<and> take 255 (path_string ([] @ [nm])) \<noteq> ?t"
    using ok(4) ne(2) t1 by (fastforce simp: name_ok_def)
  from walk_leaves [OF _ l1(2) _ this, of 1 True ?ts] obtain i where
    i: "uart_walk ?t True False 1 (node_path []) (concat (map (\<lambda>(nm, ps). dtree_toks (DNode nm ps [])) ls) @ ?ts) =
      uart_walk ?t i False 1 (node_path []) ?ts" by auto
  have ok1: "\<forall>n\<in>set [n1]. name_ok n" using ok(1) by simp
  have p1: "take 255 (path_string ([] @ [n1])) = node_path [n1]" using l1(1) by (simp add: node_path_def)
  have "path_string [n1] \<noteq> ?t" using ne(1) by (simp add: path_string_def)
  then have "uart_walk ?t i False 1 (node_path []) ?ts = uart_walk ?t True False 2 (node_path [n1])
      (dtree_toks (DNode n2 ps2 []) @ (End_node # dtree_toks (DNode x ps3 []) @ [End_node]))"
    using enter_path_names [of "[]" n1] l1(2) p1 by (simp add: walk_props node_path_def)
  also have "\<dots> = uart_walk ?t False False 2 (node_path [n1]) (dtree_toks (DNode x ps3 []) @ [End_node])"
    using walk_leaf [OF ok(2) ok1 l1(1) _ deep, of 2 True False ps2 "End_node # dtree_toks (DNode x ps3 []) @ [End_node]"]
    by (simp only: uart_walk.simps if_False)
  also have "\<dots> = Some (-1, None)"
    using walk_leaf [OF ok(3) ok1 l1(1) _ deep, of 2 False False ps3 "[End_node]"] by (simp only: uart_walk.simps if_False)
  finally show ?thesis using i by (simp add: comp_def case_prod_unfold)
qed

lemmas demo_simps = uart_demo_def uart_alias_demo_def prop_toks_def str_chosen_def str_aliases_def str_stdout_path_def str_reg_def

section \<open>Claims\<close>

text \<open>
  When the console path names a node of the tree, and every node before it and before its parents
  is a leaf, \<open>dtb_get_stdout_uart_base\<close> answers the value of that node's \<open>reg\<close> property (64 bits from
  two cells, 32 bits from one), for paths of up to 254 characters.
\<close>

theorem uart_base_finds_node:
  assumes "fdt_holds m fdt (dtree_toks (DNode [] rps kids))" "console_strings_ok (dtree_toks (DNode [] rps kids))"
    and "console_scan False False False 0 None [] (dtree_toks (DNode [] rps kids)) = (Some data, as)"
    and "console_name data \<noteq> []" "console_path (console_name data) as = Some (path_string names)"
    and "list_all names_ok kids" "length (path_string names) \<le> 254"
    and "find_node names kids = Some ps" "find (\<lambda>(nm, data). take 3 nm = str_reg) ps = Some (rn, reg)"
  shows "dtb_get_stdout_uart_base fdt True m = Some (reg_value reg)"
proof -
  have names: "names \<noteq> []" "\<forall>n\<in>set names. name_ok n" using find_node_names [OF assms(8,6)] by auto
  have "uart_walk (path_string names) False False 0 [47] (dtree_toks (DNode [] rps kids)) = Some (reg_value reg)"
    unfolding walk_root [OF path_string_root [OF names(2,1)]]
    using walk_finds [OF assms(8,9,6), of "[]" 1 True False "[End_node]"] assms(7) by simp
  then show ?thesis
    using uart_base_spec [OF assms(1,2)] assms(3-5) by (simp add: uart_answer_def)
qed

theorem uart_base_finds_node_witness:
  "dtb_get_stdout_uart_base 0x48000000 True (mem_of 0x48000000 (fdt_blob (dtree_toks (DNode [] [] uart_demo)))) = Some (0, Some 0x9000000)"
proof -
  let ?m = "mem_of 0x48000000 (fdt_blob (dtree_toks (DNode [] [] uart_demo)))"
  have "fdt_holds ?m 0x48000000 (dtree_toks (DNode [] [] uart_demo))"
    by (rule fdt_blob_holds) (simp_all add: blob_simps demo_simps)
  then have "dtb_get_stdout_uart_base 0x48000000 True ?m = Some (reg_value [0, 0, 0, 0, 9, 0, 0, 0])"
    by (rule uart_base_finds_node [where data = "[47, 117, 0]" and as = "[]" and names = "[[117]]" and rn = str_reg
          and ps = "[(str_reg, [0, 0, 0, 0, 9, 0, 0, 0])]"]) code_simp+
  moreover have "reg_value [0, 0, 0, 0, 9, 0, 0, 0] = (0, Some 0x9000000)" by code_simp
  ultimately show ?thesis by simp
qed

text \<open>
  The end of a node that has children does not cut the path back, so a node that follows one with
  children is looked up under a wrong path: whatever leaves come first, a console at \<open>/x\<close> behind a
  node that has a child is not found and the answer is -1, although the tree holds it.
\<close>

theorem uart_base_misses_node:
  assumes "kids = map (\<lambda>(nm, ps). DNode nm ps []) ls @ [DNode n1 ps1 [DNode n2 ps2 []], DNode x ps3 []]"
    and "fdt_holds m fdt (dtree_toks (DNode [] rps kids))" "console_strings_ok (dtree_toks (DNode [] rps kids))"
    and "console_scan False False False 0 None [] (dtree_toks (DNode [] rps kids)) = (Some data, as)"
    and "console_name data \<noteq> []" "console_path (console_name data) as = Some (path_string [x])"
    and "list_all names_ok kids" "n1 \<noteq> x" "\<forall>(nm, ps)\<in>set ls. nm \<noteq> x" "length n1 + length x \<le> 250"
  shows "dtb_get_stdout_uart_base fdt True m = Some (-1, None)"
proof -
  have ok: "name_ok n1" "name_ok n2" "name_ok x" "\<forall>(nm, ps)\<in>set ls. name_ok nm"
    using assms(7) unfolding assms(1) by (auto simp: list_all_iff)
  have "path_string [x] \<noteq> [47]" using ok(3) by (simp add: path_string_def name_ok_def)
  from walk_root [OF this, of rps kids] have "uart_walk (path_string [x]) False False 0 [47] (dtree_toks (DNode [] rps kids)) = Some (-1, None)"
    using walk_lost [OF ok assms(8-10), of ps1 ps2 ps3] unfolding assms(1) by simp
  then show ?thesis
    using uart_base_spec [OF assms(2,3)] assms(4-6) by (simp add: uart_answer_def)
qed

theorem uart_base_misses_node_witness:
  "\<exists>kids. last kids = DNode [117] [(str_reg, [9, 0, 0, 0])] [] \<and>
     dtb_get_stdout_uart_base 0x48000000 True (mem_of 0x48000000 (fdt_blob (dtree_toks (DNode [] [] kids)))) = Some (-1, None)"
proof -
  let ?kids = "[DNode str_chosen [(str_stdout_path, [47, 117, 0])] [], DNode [97] [] [DNode [98] [] []], DNode [117] [(str_reg, [9, 0, 0, 0])] []]"
  let ?m = "mem_of 0x48000000 (fdt_blob (dtree_toks (DNode [] [] ?kids)))"
  have "fdt_holds ?m 0x48000000 (dtree_toks (DNode [] [] ?kids))"
    by (rule fdt_blob_holds) (simp_all add: blob_simps demo_simps)
  then have "dtb_get_stdout_uart_base 0x48000000 True ?m = Some (-1, None)"
    by (rule uart_base_misses_node [of ?kids "[(str_chosen, [(str_stdout_path, [47, 117, 0])])]" "[97]" "[]" "[98]" "[]" "[117]"
        "[(str_reg, [9, 0, 0, 0])]", where data = "[47, 117, 0]" and as = "[]", rotated]) code_simp+
  then show ?thesis by (intro exI [of _ ?kids]) simp
qed

lemma leave_path_length: "0 < length path \<Longrightarrow> length (leave_path path) \<le> length path"
  by (auto simp: leave_path_def Let_def)

lemma leave_path_pos: "0 < length path \<Longrightarrow> 0 < length (leave_path path)"
  by (auto simp: leave_path_def Let_def)

text \<open>With so few characters the path stays inside its array, and both walks end.\<close>

lemma uart_walk_ends:
  "0 < length path \<Longrightarrow> length path + names_len ts \<le> 255 \<Longrightarrow> \<exists>r. uart_walk target inner at_target depth path ts = Some r"
proof (induction target inner at_target depth path ts rule: uart_walk.induct)
  case (2 target inner at_target depth path nm ts)
  show ?case
  proof (cases "depth = 0 \<and> nm = []")
    case True
    then show ?thesis using 2 by auto
  next
    case False
    define p0 where "p0 = (if length path > 1 then path @ [47] else path)"
    define path' where "path' = p0 @ take (255 - length p0) nm"
    have l: "0 < length p0" "length p0 \<le> Suc (length path)" using 2(2) by (auto simp: p0_def)
    then have p: "enter_path path nm = Some path'" "0 < length path'" "length path' \<le> Suc (length path + length nm)"
      unfolding enter_path_def p0_def [symmetric] path'_def Let_def using 2(3) by simp_all
    then have "\<exists>r. uart_walk target True (path' = target) (depth + 1) path' ts = Some r"
      using 2(1) [of path'] 2(3) False by auto
    then show ?thesis using p(1) False by auto
  qed
next
  case (3 target inner at_target depth path ts)
  then show ?case using leave_path_length [of path] leave_path_pos [of path] by auto
qed auto

text \<open>
  C31 \<open>dtb_get_stdout_uart_base\<close> on a well-formed blob of a tree whose console and alias strings are terminated.
  When the names of all nodes fit into the path of 256 characters it ends and stays inside that array; with more it may
  write behind it, because the path is not cut back after a node with children (\<open>dtb.c\<close> lines 314 and 382). When
  \<open>/chosen\<close> names the console by its path or by an alias, the node is in the tree and every node before it and before its
  parents is a leaf, the answer is the value of that node's first property whose name starts with \<open>reg\<close>
  (line 335; 64 bits from two cells, 32 bits from one). But a console at the top level that follows a node with a
  child is not found: the answer is -1 although the tree holds it.
\<close>

theorem uart_base_of_console:
  assumes holds: "fdt_holds m fdt (dtree_toks (DNode [] rps kids))" and strings: "console_strings_ok (dtree_toks (DNode [] rps kids))"
    and names: "list_all names_ok kids"
  shows "(names_len (dtree_toks (DNode [] rps kids)) \<le> 254 \<longrightarrow> (\<exists>r. dtb_get_stdout_uart_base fdt True m = Some r)) \<and>
    (\<forall>path ps rn reg. console_at (DNode [] rps kids) path \<and> length (path_string path) \<le> 254 \<and> find_node path kids = Some ps \<and>
       find (\<lambda>(nm, data). take 3 nm = str_reg) ps = Some (rn, reg) \<longrightarrow> dtb_get_stdout_uart_base fdt True m = Some (reg_value reg)) \<and>
    (\<forall>ls n1 ps1 n2 ps2 x ps3. kids = map (\<lambda>(nm, ps). DNode nm ps []) ls @ [DNode n1 ps1 [DNode n2 ps2 []], DNode x ps3 []] \<and>
       console_at (DNode [] rps kids) [x] \<and> n1 \<noteq> x \<and> (\<forall>(nm, ps)\<in>set ls. nm \<noteq> x) \<and> length n1 + length x \<le> 250 \<longrightarrow>
       dtb_get_stdout_uart_base fdt True m = Some (-1, None))"
proof (intro conjI allI impI)
  assume "names_len (dtree_toks (DNode [] rps kids)) \<le> 254"
  then have "\<exists>r. uart_walk target False False 0 [47] (dtree_toks (DNode [] rps kids)) = Some r" for target
    by (intro uart_walk_ends) simp_all
  then show "\<exists>r. dtb_get_stdout_uart_base fdt True m = Some r"
    unfolding uart_base_spec [OF holds strings] by (auto simp: uart_answer_def simp del: dtree_toks.simps split: prod.splits option.splits)
next
  fix path ps rn reg
  assume a: "console_at (DNode [] rps kids) path \<and> length (path_string path) \<le> 254 \<and> find_node path kids = Some ps \<and>
       find (\<lambda>(nm, data). take 3 nm = str_reg) ps = Some (rn, reg)"
  then obtain data as where "console_scan False False False 0 None [] (dtree_toks (DNode [] rps kids)) = (Some data, as)"
    "console_name data \<noteq> []" "console_path (console_name data) as = Some (path_string path)"
    by (auto simp: console_at_def simp del: dtree_toks.simps split: prod.splits option.splits)
  from uart_base_finds_node [OF holds strings this names] a show "dtb_get_stdout_uart_base fdt True m = Some (reg_value reg)" by blast
next
  fix ls n1 ps1 n2 ps2 x ps3
  assume a: "kids = map (\<lambda>(nm, ps). DNode nm ps []) ls @ [DNode n1 ps1 [DNode n2 ps2 []], DNode x ps3 []] \<and>
       console_at (DNode [] rps kids) [x] \<and> n1 \<noteq> x \<and> (\<forall>(nm, ps)\<in>set ls. nm \<noteq> x) \<and> length n1 + length x \<le> 250"
  then obtain data as where "console_scan False False False 0 None [] (dtree_toks (DNode [] rps kids)) = (Some data, as)"
    "console_name data \<noteq> []" "console_path (console_name data) as = Some (path_string [x])"
    by (auto simp: console_at_def simp del: dtree_toks.simps split: prod.splits option.splits)
  with uart_base_misses_node [of kids ls n1 ps1 n2 ps2 x ps3, OF _ holds strings this names] a
  show "dtb_get_stdout_uart_base fdt True m = Some (-1, None)" by blast
qed

theorem uart_base_of_console_witness:
  "dtb_get_stdout_uart_base 0x48000000 True (mem_of 0x48000000 (fdt_blob (dtree_toks uart_alias_demo))) = Some (0, Some 0x9000000)"
proof -
  let ?kids = "[DNode str_aliases [([115], [47, 97, 47, 117, 0])] [], DNode str_chosen [(str_stdout_path, [115, 58, 49, 0])] [],
      DNode [97] [] [DNode [117] [(str_reg, [9, 0, 0, 0])] []]]"
  have t: "uart_alias_demo = DNode [] [] ?kids" by (simp add: uart_alias_demo_def)
  have h: "fdt_holds (mem_of 0x48000000 (fdt_blob (dtree_toks uart_alias_demo))) 0x48000000 (dtree_toks uart_alias_demo)"
    by (rule fdt_blob_holds) (simp_all add: blob_simps demo_simps)
  have c: "console_strings_ok (dtree_toks uart_alias_demo)" "list_all names_ok ?kids" by code_simp+
  have "console_at (DNode [] [] ?kids) [[97], [117]] \<and> length (path_string [[97], [117]]) \<le> 254 \<and>
      find_node [[97], [117]] ?kids = Some [(str_reg, [9, 0, 0, 0])] \<and>
      find (\<lambda>(nm, data). take 3 nm = str_reg) [(str_reg, [9, 0, 0, 0])] = Some (str_reg, [9, 0, 0, 0] :: u8 list)" by code_simp
  with conjunct1 [OF conjunct2 [OF uart_base_of_console [OF h [unfolded t] c(1) [unfolded t] c(2)]]]
  have "dtb_get_stdout_uart_base 0x48000000 True (mem_of 0x48000000 (fdt_blob (dtree_toks uart_alias_demo))) = Some (reg_value [9, 0, 0, 0])"
    unfolding t by blast
  moreover have "reg_value [9, 0, 0, 0] = (0, Some 0x9000000)" by code_simp
  ultimately show ?thesis by simp
qed

end
