(* ===== verification/Pmm_Init.thy ===== *)
theory Pmm_Init
  imports Pmm Mmu Dtb
begin

text \<open>
  Start-up of the physical memory manager, the rest of \<open>src/mm/pmm.c\<close>: the walk over the device tree
  for the memory node, the walk for \<open>/reserved-memory\<close>, and \<open>pmm_init_from_dtb\<close>. Both walks are shown
  to end on every well-formed blob and to be functions of its token stream.
\<close>

section \<open>Definitions\<close>

definition be32_to_cpu_u32 :: "u32 \<Rightarrow> u32" where
  "be32_to_cpu_u32 v = push_bit 24 (v AND 0xFF) OR push_bit 8 (v AND 0xFF00) OR
     drop_bit 8 (v AND 0xFF0000) OR drop_bit 24 (v AND 0xFF000000)"

definition ld_cell :: "cmem \<Rightarrow> u64 \<Rightarrow> u32 option" where
  "ld_cell m a = do { v \<leftarrow> ld32 m a; Some (be32_to_cpu_u32 v) }"

definition str_memory :: "u8 list" where "str_memory = [109, 101, 109, 111, 114, 121]"
definition str_device_type :: "u8 list" where
  "str_device_type = [100, 101, 118, 105, 99, 101, 95, 116, 121, 112, 101]"
definition str_address_cells :: "u8 list" where
  "str_address_cells = [35, 97, 100, 100, 114, 101, 115, 115, 45, 99, 101, 108, 108, 115]"
definition str_size_cells :: "u8 list" where
  "str_size_cells = [35, 115, 105, 122, 101, 45, 99, 101, 108, 108, 115]"
definition str_reserved_memory :: "u8 list" where
  "str_reserved_memory = [114, 101, 115, 101, 114, 118, 101, 100, 45, 109, 101, 109, 111, 114, 121]"

text \<open>\<open>pname[0] == 'r' && pname[1] == 'e' && ... && pname[n] == '\0'\<close>\<close>

fun name_is :: "reader \<Rightarrow> nat \<Rightarrow> u8 list \<Rightarrow> bool option" where
  "name_is r i [] = do { c \<leftarrow> r i; Some (c = 0) }"
| "name_is r i (x # xs) = do { c \<leftarrow> r i; if c = x then name_is r (Suc i) xs else Some False }"

text \<open>\<open>(name_len + 4) & ~3u\<close>, added to a 32-bit position\<close>

definition name_skip :: "nat \<Rightarrow> u32" where
  "name_skip n = ucast ((of_nat n + 4) AND (0xFFFFFFFC :: u64))"

subsection \<open>The memory node\<close>

text \<open>\<open>for (int c = 0; c < n && (q + 4) <= end; ++c) { acc = (acc << 32) | cell; q += 4; }\<close>\<close>

fun read_cells :: "cmem \<Rightarrow> nat \<Rightarrow> u64 \<Rightarrow> u64 \<Rightarrow> u64 \<Rightarrow> (u64 \<times> u64) option" where
  "read_cells m 0 q lim acc = Some (acc, q)"
| "read_cells m (Suc n) q lim acc =
     (if q + 4 \<le> lim then do {
        cell \<leftarrow> ld_cell m q;
        read_cells m n (q + 4) lim (push_bit 32 acc OR ucast cell) }
      else Some (acc, q))"

record mem_walk =
  mw_p :: u32
  mw_depth :: int
  mw_in_memory :: bool
  mw_device_type :: bool
  mw_addr_cells :: int
  mw_size_cells :: int

definition mem_cells :: "cmem \<Rightarrow> u64 \<Rightarrow> u64 \<Rightarrow> u32 \<Rightarrow> mem_walk \<Rightarrow> mem_walk option" where
  "mem_cells m pname pdata len st =
     (if mw_depth st = 1 then do {
        d \<leftarrow> strcmp (at m pname) (lit str_address_cells);
        if d = 0 \<and> len \<ge> 4 then do {
          v \<leftarrow> ld_cell m pdata;
          Some (st\<lparr>mw_addr_cells := sint v\<rparr>) }
        else do {
          d \<leftarrow> strcmp (at m pname) (lit str_size_cells);
          if d = 0 \<and> len \<ge> 4 then do {
            v \<leftarrow> ld_cell m pdata;
            Some (st\<lparr>mw_size_cells := sint v\<rparr>) }
          else Some st } }
      else Some st)"

definition mem_device_type :: "cmem \<Rightarrow> u64 \<Rightarrow> u64 \<Rightarrow> u32 \<Rightarrow> mem_walk \<Rightarrow> mem_walk option" where
  "mem_device_type m pname pdata len st = do {
     dt \<leftarrow> (if mw_in_memory st then name_is (at m pname) 0 str_device_type else Some False);
     if dt \<and> len \<ge> 6 then do {
       d \<leftarrow> strncmp (at m pdata) (lit str_memory) 6;
       Some (if d = 0 then st\<lparr>mw_device_type := True\<rparr> else st) }
     else Some st }"

text \<open>The property at the position; \<open>Inl\<close> is the region found.\<close>

definition mem_prop :: "cmem \<Rightarrow> u64 \<Rightarrow> u64 \<Rightarrow> mem_walk \<Rightarrow> ((u64 \<times> u64) + mem_walk) option" where
  "mem_prop m fdt strings st = do {
     len \<leftarrow> ld_cell m (fdt + ucast (mw_p st));
     nameoff \<leftarrow> ld_cell m (fdt + ucast (mw_p st + 4));
     let p = mw_p st + 8;
     let pname = strings + ucast nameoff;
     let pdata = fdt + ucast p;
     st \<leftarrow> mem_device_type m pname pdata len st;
     st \<leftarrow> mem_cells m pname pdata len st;
     is_reg \<leftarrow> (if mw_in_memory st then name_is (at m pname) 0 str_reg else Some False);
     if is_reg then do {
       let ac = (if mw_addr_cells st > 0 then mw_addr_cells st else 2);
       let sc = (if mw_size_cells st > 0 then mw_size_cells st else 2);
       (base, q) \<leftarrow> read_cells m (nat ac) pdata (pdata + ucast len) 0;
       (sz, q) \<leftarrow> read_cells m (nat sc) q (pdata + ucast len) 0;
       if mw_in_memory st \<or> mw_device_type st then Some (Inl (base, sz))
       else Some (Inr (st\<lparr>mw_p := p + ((len + 3) AND NOT 3)\<rparr>)) }
     else Some (Inr (st\<lparr>mw_p := p + ((len + 3) AND NOT 3)\<rparr>)) }"

text \<open>One round of the loop; \<open>Inl None\<close> is the answer -1.\<close>

definition mem_step :: "cmem \<Rightarrow> u64 \<Rightarrow> u64 \<Rightarrow> mem_walk \<Rightarrow> ((u64 \<times> u64) option + mem_walk) option" where
  "mem_step m fdt strings st = do {
     token \<leftarrow> ld_cell m (fdt + ucast (mw_p st));
     let st = st\<lparr>mw_p := mw_p st + 4\<rparr>;
     if token = DTB_BEGIN_NODE then do {
       let name = at m (fdt + ucast (mw_p st));
       name_len \<leftarrow> name_len_from name 0;
       let st = st\<lparr>mw_p := mw_p st + name_skip name_len, mw_depth := mw_depth st + 1\<rparr>;
       im \<leftarrow> (if name_len \<ge> 6 then do { d \<leftarrow> strncmp name (lit str_memory) 6; Some (d = 0) } else Some False);
       Some (Inr (st\<lparr>mw_in_memory := im, mw_device_type := False\<rparr>)) }
     else if token = DTB_PROP then do {
       r \<leftarrow> mem_prop m fdt strings st;
       Some (case r of Inl a \<Rightarrow> Inl (Some a) | Inr st \<Rightarrow> Inr st) }
     else if token = DTB_END_NODE then
       Some (Inr ((if mw_depth st > 0 then st\<lparr>mw_depth := mw_depth st - 1\<rparr> else st)\<lparr>mw_in_memory := False, mw_device_type := False\<rparr>))
     else if token = DTB_NOP then Some (Inr st)
     else Some (Inl None) }"

partial_function (option) mem_loop :: "cmem \<Rightarrow> u64 \<Rightarrow> u64 \<Rightarrow> mem_walk \<Rightarrow> (u64 \<times> u64) option option" where
  "mem_loop m fdt strings st = Option.bind (mem_step m fdt strings st) (\<lambda>r. case r of
     Inl a \<Rightarrow> Some a | Inr st \<Rightarrow> mem_loop m fdt strings st)"

text \<open>\<open>None\<close> inside is the answer -1, with nothing written; a region is the answer 0.\<close>

definition dtb_find_memory_region :: "u64 \<Rightarrow> cmem \<Rightarrow> (u64 \<times> u64) option option" where
  "dtb_find_memory_region dtb_ptr m =
     (if dtb_get dtb_ptr = 0 then Some None
      else do {
        magic \<leftarrow> ld_cell m dtb_ptr;
        if magic \<noteq> 0xd00dfeed then Some None
        else do {
          off_struct \<leftarrow> ld_cell m (dtb_ptr + 8);
          off_strings \<leftarrow> ld_cell m (dtb_ptr + 12);
          mem_loop m dtb_ptr (dtb_ptr + ucast off_strings)
            \<lparr>mw_p = off_struct, mw_depth = 0, mw_in_memory = False, mw_device_type = False,
              mw_addr_cells = 2, mw_size_cells = 2\<rparr> } })"

subsection \<open>Reserved memory\<close>

record res_walk =
  rw_p :: u32
  rw_depth :: int
  rw_in_reserved :: int
  rw_addr_cells :: int
  rw_size_cells :: int
  rw_pmm :: pmm_state

text \<open>\<open>for (int c = 0; c < n; ++c) { acc = (acc << 32) | cell; q += 4; }\<close>\<close>

fun take_cells :: "cmem \<Rightarrow> nat \<Rightarrow> u64 \<Rightarrow> u64 \<Rightarrow> (u64 \<times> u64) option" where
  "take_cells m 0 q acc = Some (acc, q)"
| "take_cells m (Suc n) q acc = do {
     cell \<leftarrow> ld_cell m q;
     take_cells m n (q + 4) (push_bit 32 acc OR ucast cell) }"

fun reserve_tuples :: "cmem \<Rightarrow> nat \<Rightarrow> int \<Rightarrow> int \<Rightarrow> u64 \<Rightarrow> pmm_state \<Rightarrow> pmm_state option" where
  "reserve_tuples m 0 ac sc q s = Some s"
| "reserve_tuples m (Suc n) ac sc q s = do {
     (base, q) \<leftarrow> take_cells m (nat ac) q 0;
     (sz, q) \<leftarrow> take_cells m (nat sc) q 0;
     s \<leftarrow> (if sz \<noteq> 0 then
        let aligned_base = base AND NOT (PMM_PAGE_SIZE - 1);
            aligned_end = (base + sz + PMM_PAGE_SIZE - 1) AND NOT (PMM_PAGE_SIZE - 1)
        in reserve_range aligned_base (if aligned_end > aligned_base then aligned_end - aligned_base else 0) s
      else Some s);
     reserve_tuples m n ac sc q s }"

text \<open>
  A property inside \<open>/reserved-memory\<close>. The second branch, which is the one that reserves, is taken
  only when \<open>in_reserved\<close> is 0 and 2 at once.
\<close>

definition res_prop :: "cmem \<Rightarrow> u64 \<Rightarrow> u64 \<Rightarrow> u32 \<Rightarrow> res_walk \<Rightarrow> res_walk option" where
  "res_prop m pname pdata len st =
     (if rw_in_reserved st \<noteq> 0 then do {
        d \<leftarrow> strcmp (at m pname) (lit str_address_cells);
        if d = 0 \<and> len \<ge> 4 then do { v \<leftarrow> ld_cell m pdata; Some (st\<lparr>rw_addr_cells := sint v\<rparr>) }
        else do {
          d \<leftarrow> strcmp (at m pname) (lit str_size_cells);
          if d = 0 \<and> len \<ge> 4 then do { v \<leftarrow> ld_cell m pdata; Some (st\<lparr>rw_size_cells := sint v\<rparr>) }
          else do { d \<leftarrow> strcmp (at m pname) (lit str_reg); Some st } } }
      else if rw_in_reserved st = 2 then do {
        d \<leftarrow> strcmp (at m pname) (lit str_reg);
        if d = 0 then do {
          let tuple_cells = rw_addr_cells st + rw_size_cells st;
          let tuple_cells = (if tuple_cells \<le> 0 then 4 else tuple_cells);
          let tuples = sint len div (4 * tuple_cells);
          s \<leftarrow> reserve_tuples m (nat tuples) (rw_addr_cells st) (rw_size_cells st) pdata (rw_pmm st);
          Some (st\<lparr>rw_pmm := s\<rparr>) }
        else Some st }
      else Some st)"

definition res_step :: "cmem \<Rightarrow> u64 \<Rightarrow> u64 \<Rightarrow> res_walk \<Rightarrow> (pmm_state + res_walk) option" where
  "res_step m fdt strings st = do {
     token \<leftarrow> ld_cell m (fdt + ucast (rw_p st));
     let st = st\<lparr>rw_p := rw_p st + 4\<rparr>;
     r \<leftarrow> (if token = DTB_BEGIN_NODE then do {
         let name = at m (fdt + ucast (rw_p st));
         name_len \<leftarrow> name_len_from name 0;
         let st = st\<lparr>rw_p := rw_p st + name_skip name_len, rw_depth := rw_depth st + 1\<rparr>;
         if rw_depth st = 2 then do {
           d \<leftarrow> strncmp name (lit str_reserved_memory) 15;
           Some (Inr (if d = 0 then st\<lparr>rw_in_reserved := 1, rw_addr_cells := 2, rw_size_cells := 2\<rparr> else st)) }
         else Some (Inr st) }
       else if token = DTB_PROP then do {
         len \<leftarrow> ld_cell m (fdt + ucast (rw_p st));
         nameoff \<leftarrow> ld_cell m (fdt + ucast (rw_p st + 4));
         let p = rw_p st + 8;
         st \<leftarrow> res_prop m (strings + ucast nameoff) (fdt + ucast p) len st;
         Some (Inr (st\<lparr>rw_p := p + ((len + 3) AND NOT 3)\<rparr>)) }
       else if token = DTB_END_NODE then do {
         let st = (if rw_in_reserved st = 2 then st\<lparr>rw_in_reserved := 1\<rparr>
                   else if rw_in_reserved st = 1 then st\<lparr>rw_in_reserved := 0\<rparr> else st);
         Some (Inr (if rw_depth st > 0 then st\<lparr>rw_depth := rw_depth st - 1\<rparr> else st)) }
       else if token = DTB_NOP then Some (Inr st)
       else Some (Inl (rw_pmm st)));
     Some (case r of Inl s \<Rightarrow> Inl s
       | Inr st \<Rightarrow> Inr (if token = DTB_BEGIN_NODE \<and> rw_in_reserved st = 1 \<and> rw_depth st \<ge> 3
                        then st\<lparr>rw_in_reserved := 2\<rparr> else st)) }"

partial_function (option) res_loop :: "cmem \<Rightarrow> u64 \<Rightarrow> u64 \<Rightarrow> res_walk \<Rightarrow> pmm_state option" where
  "res_loop m fdt strings st = Option.bind (res_step m fdt strings st) (\<lambda>r. case r of
     Inl a \<Rightarrow> Some a | Inr st \<Rightarrow> res_loop m fdt strings st)"

definition reserve_reserved_memory :: "u64 \<Rightarrow> cmem \<Rightarrow> pmm_state \<Rightarrow> pmm_state option" where
  "reserve_reserved_memory dtb_ptr m s =
     (if dtb_get dtb_ptr = 0 then Some s
      else do {
        magic \<leftarrow> ld_cell m dtb_ptr;
        if magic \<noteq> 0xd00dfeed then Some s
        else do {
          off_struct \<leftarrow> ld_cell m (dtb_ptr + 8);
          off_strings \<leftarrow> ld_cell m (dtb_ptr + 12);
          res_loop m dtb_ptr (dtb_ptr + ucast off_strings)
            \<lparr>rw_p = off_struct, rw_depth = 0, rw_in_reserved = 0, rw_addr_cells = 2, rw_size_cells = 2, rw_pmm = s\<rparr> } })"

definition reserve_dtb_blob :: "u64 \<Rightarrow> cmem \<Rightarrow> pmm_state \<Rightarrow> pmm_state option" where
  "reserve_dtb_blob dtb_ptr m s =
     (if dtb_get dtb_ptr = 0 then Some s
      else do {
        totalsize \<leftarrow> ld_cell m (dtb_ptr + 4);
        reserve_range dtb_ptr (ucast totalsize) s })"

subsection \<open>Start-up\<close>

text \<open>The managed range, aligned to pages, with every page of it free.\<close>

definition pmm_set_range :: "u64 \<Rightarrow> u64 \<Rightarrow> pmm_state \<Rightarrow> pmm_state option" where
  "pmm_set_range base sz s = do {
     let aligned_base = (base + PMM_PAGE_SIZE - 1) AND NOT (PMM_PAGE_SIZE - 1);
     let aligned_end = (base + sz) AND NOT (PMM_PAGE_SIZE - 1);
     let (aligned_base, aligned_end) =
       (if aligned_end \<le> aligned_base then (0x40000000, 0x40000000 + 0x40000000) else (aligned_base, aligned_end));
     let s = s\<lparr>pmm_mem_base := aligned_base, pmm_mem_size := aligned_end - aligned_base\<rparr>;
     let total = unat (pmm_mem_size s div PMM_PAGE_SIZE);
     let total = (if total > PMM_MAX_PAGES then PMM_MAX_PAGES else total);
     let s = s\<lparr>pmm_pages_total := total\<rparr>;
     bm \<leftarrow> for_upto 0 total (\<lambda>i bm. pmm_clear_bit bm i) (pmm_bitmap s);
     Some (s\<lparr>pmm_bitmap := bm, pmm_pages_free := total\<rparr>) }"

definition pmm_init_from_dtb :: "link_syms \<Rightarrow> u64 \<Rightarrow> cmem \<Rightarrow> pmm_state \<Rightarrow> pmm_state option" where
  "pmm_init_from_dtb ld dtb_ptr m s = do {
     bm \<leftarrow> for_upto 0 (PMM_MAX_PAGES div 8) (\<lambda>i bm. arr_set (PMM_MAX_PAGES div 8) bm i 0xFF) (pmm_bitmap s);
     let s = s\<lparr>pmm_bitmap := bm\<rparr>;
     region \<leftarrow> dtb_find_memory_region dtb_ptr m;
     let (base, sz) = (case region of Some (base, sz) \<Rightarrow> if sz = 0 then (0x40000000, 0x40000000) else (base, sz)
                       | None \<Rightarrow> (0x40000000, 0x40000000));
     s \<leftarrow> pmm_set_range base sz s;
     s \<leftarrow> reserve_range (kernel_start ld) (kernel_end ld - kernel_start ld) s;
     s \<leftarrow> reserve_range (stack_bottom ld) (stack_top ld - stack_bottom ld) s;
     s \<leftarrow> reserve_dtb_blob dtb_ptr m s;
     s \<leftarrow> reserve_reserved_memory dtb_ptr m s;
     uart \<leftarrow> dtb_get_stdout_uart_base dtb_ptr True m;
     s \<leftarrow> (case uart of (r, base) \<Rightarrow>
        if r = 0 \<and> base \<noteq> None \<and> base \<noteq> Some 0
        then reserve_range (the base AND NOT (PMM_PAGE_SIZE - 1)) PMM_PAGE_SIZE s
        else Some s);
     if pmm_mem_base s < pmm_mem_base s + pmm_mem_size s
     then reserve_range (pmm_mem_base s) 0x100000 s else Some s }"

subsection \<open>What the walks compute\<close>

text \<open>A cell count as the root node gives it, 2 unless it is positive.\<close>

definition cell_count :: "int \<Rightarrow> nat" where
  "cell_count n = (if n > 0 then nat n else 2)"

text \<open>
  The first \<open>reg\<close> property of a node whose name starts with \<open>memory\<close>, read with the cell counts the
  root node has given so far.
\<close>

fun memory_region :: "int \<Rightarrow> bool \<Rightarrow> int \<Rightarrow> int \<Rightarrow> tok list \<Rightarrow> (u64 \<times> u64) option" where
  "memory_region depth im ac sc [] = None"
| "memory_region depth im ac sc (Begin_node nm # ts) = memory_region (depth + 1) (take 6 nm = str_memory) ac sc ts"
| "memory_region depth im ac sc (End_node # ts) = memory_region (if depth > 0 then depth - 1 else depth) False ac sc ts"
| "memory_region depth im ac sc (Nop # ts) = memory_region depth im ac sc ts"
| "memory_region depth im ac sc (Prop nm data # ts) =
     (let cell = sint (data_cells data ! 0);
          ac = (if depth = 1 \<and> nm = str_address_cells \<and> length data \<ge> 4 then cell else ac);
          sc = (if depth = 1 \<and> nm = str_size_cells \<and> length data \<ge> 4 then cell else sc)
      in if im \<and> nm = str_reg
         then Some (cells_value (take (cell_count ac) (data_cells data)),
                    cells_value (take (cell_count sc) (drop (cell_count ac) (data_cells data))))
         else memory_region depth im ac sc ts)"

subsection \<open>Used in the proofs\<close>

text \<open>The walk at a token is at the state that the stream gives.\<close>

definition mem_at :: "u32 \<Rightarrow> int \<Rightarrow> bool \<Rightarrow> int \<Rightarrow> int \<Rightarrow> mem_walk \<Rightarrow> bool" where
  "mem_at p depth im ac sc st \<longleftrightarrow> mw_p st = p \<and> mw_depth st = depth \<and> mw_in_memory st = im \<and>
     mw_addr_cells st = ac \<and> mw_size_cells st = sc"

text \<open>What the range after alignment is.\<close>

definition ram_range :: "u64 \<Rightarrow> u64 \<Rightarrow> u64 \<times> u64" where
  "ram_range base sz = (
     let b = (base + PMM_PAGE_SIZE - 1) AND NOT (PMM_PAGE_SIZE - 1);
         e = (base + sz) AND NOT (PMM_PAGE_SIZE - 1)
     in if e \<le> b then (0x40000000, 0x80000000) else (b, e))"

text \<open>
  The managed range is \<open>[b, b + n)\<close> and the pages in use are those that meet one of the regions.
\<close>

definition boot_state :: "u64 \<Rightarrow> u64 \<Rightarrow> (u64 \<times> u64) list \<Rightarrow> pmm_state \<Rightarrow> bool" where
  "boot_state b n rs s \<longleftrightarrow> pmm_inv s \<and> pmm_mem_base s = b \<and> pmm_mem_size s = n \<and>
     (\<forall>i < pmm_pages_total s. pmm_used s i \<longleftrightarrow> (\<exists>(a, k)\<in>set rs. page_meets s a k i))"

text \<open>The range the memory node gives, or the fallback.\<close>

definition ram_found :: "tok list \<Rightarrow> u64 \<times> u64" where
  "ram_found ts = (case memory_region 0 False 2 2 ts of
     Some (base, sz) \<Rightarrow> if sz = 0 then (0x40000000, 0x40000000) else (base, sz)
   | None \<Rightarrow> (0x40000000, 0x40000000))"

definition uart_page :: "int \<times> u64 option \<Rightarrow> (u64 \<times> u64) list" where
  "uart_page u = (case u of (r, base) \<Rightarrow>
     if r = 0 \<and> base \<noteq> None \<and> base \<noteq> Some 0 then [(the base AND NOT (PMM_PAGE_SIZE - 1), PMM_PAGE_SIZE)] else [])"

text \<open>Everything that must not be handed out: image, stack, blob, the page of the UART, the first MiB.\<close>

definition boot_regions :: "link_syms \<Rightarrow> u64 \<Rightarrow> u32 \<Rightarrow> int \<times> u64 option \<Rightarrow> u64 \<Rightarrow> (u64 \<times> u64) list" where
  "boot_regions ld fdt totalsize uart b =
     [(kernel_start ld, kernel_end ld - kernel_start ld), (stack_bottom ld, stack_top ld - stack_bottom ld),
      (fdt, ucast totalsize)] @ uart_page uart @ [(b, 0x100000)]"

text \<open>A blob with a memory node, a reserved range and no console, and the addresses of an image.\<close>

definition boot_demo :: dtree where
  "boot_demo = DNode [] [(str_address_cells, [0, 0, 0, 1]), (str_size_cells, [0, 0, 0, 1])]
     [DNode str_memory [(str_reg, [0x40, 0, 0, 0, 0x10, 0, 0, 0])] [],
      DNode str_reserved_memory [] [DNode [97] [(str_reg, [0x41, 0, 0, 0, 0, 0x10, 0, 0])] []]]"

definition boot_syms :: link_syms where
  "boot_syms = \<lparr>kernel_start = 0x40080000, kernel_end = 0x40200000, stack_bottom = 0x40200000, stack_top = 0x40204000\<rparr>"

section \<open>Lemmas\<close>

lemma ld_cell_eq: "ld_cell = ld_be32"
  by (simp add: fun_eq_iff ld_cell_def ld_be32_def be32_to_cpu_u32_def be32_to_cpu_def)

lemma name_is_spec: "cs_from r i s \<Longrightarrow> 0 \<notin> set xs \<Longrightarrow> name_is r i xs = Some (s = xs)"
  by (induction xs arbitrary: i s) (case_tac s; auto)+

lemma name_skip_align4: "name_skip n = align4 (of_nat (n + 1))"
proof -
  have trunc: "(ucast (of_nat k :: u64) :: u32) = of_nat k" for k
    by (rule bit_word_eqI) (simp add: bit_ucast_iff bit_of_nat_iff)
  have "(of_nat n + 4 :: u64) = of_nat (n + 4)" "(of_nat (n + 1) + 3 :: u32) = of_nat (n + 4)" by simp_all
  moreover have "(ucast (0xFFFFFFFC :: u64) :: u32) = NOT 3" by simp
  ultimately show ?thesis by (simp only: name_skip_def align4_def unsigned_and_eq trunc)
qed

lemma read_cells_spec:
  "holds m q data \<Longrightarrow> unat q + length data + 4 < 2 ^ 64 \<Longrightarrow>
   \<exists>q' rest. read_cells m n q (q + of_nat (length data)) acc =
     Some (fold (\<lambda>c acc. push_bit 32 acc OR ucast c) (take n (data_cells data)) acc, q') \<and>
     holds m q' rest \<and> data_cells rest = drop n (data_cells data) \<and>
     q + of_nat (length data) = q' + of_nat (length rest) \<and> unat q' + length rest + 4 < 2 ^ 64"
proof (induction n arbitrary: q data acc)
  case 0
  then show ?case by auto
next
  case (Suc n)
  have lim: "unat (q + of_nat (length data)) = unat q + length data" "unat (q + 4) = unat q + 4"
    using Suc.prems(2) by (simp_all add: unat_word_ariths unat_of_nat)
  show ?case
  proof (cases "length data \<ge> 4")
    case True
    with lim have le: "q + 4 \<le> q + of_nat (length data)" by (simp add: word_le_nat_alt)
    have eq: "q + of_nat (length data) = (q + 4) + of_nat (length (drop 4 data))"
      using True by (simp add: of_nat_diff)
    obtain c where c: "ld_be32 m q = Some c" "data_cells data = c # data_cells (drop 4 data)" "holds m (q + 4) (drop 4 data)"
      using ld_first_cell [OF Suc.prems(1) True] by blast
    have "unat (q + 4) + length (drop 4 data) + 4 < 2 ^ 64" using lim(2) Suc.prems(2) True by simp
    then show ?thesis
      using Suc.IH [of "q + 4" "drop 4 data" "push_bit 32 acc OR ucast c"] c le unfolding eq
      by (simp only: read_cells.simps ld_cell_eq if_True bind.bind_lunit take_Suc_Cons drop_Suc_Cons fold_Cons o_apply)
  next
    case False
    then have "\<not> q + 4 \<le> q + of_nat (length data)" using lim by (simp add: word_le_nat_alt)
    with False Suc.prems show ?thesis by (auto simp: data_cells_short)
  qed
qed

lemma region_read:
  assumes "holds m q data" "unat q + length data + 4 < 2 ^ 64"
  shows "Option.bind (read_cells m a q (q + of_nat (length data)) 0) (\<lambda>(base, q').
    Option.bind (read_cells m b q' (q + of_nat (length data)) 0) (\<lambda>(sz, _). f base sz)) =
    f (cells_value (take a (data_cells data))) (cells_value (take b (drop a (data_cells data))))"
proof -
  obtain q' rest where 1: "read_cells m a q (q + of_nat (length data)) 0 = Some (cells_value (take a (data_cells data)), q')"
    "holds m q' rest" "data_cells rest = drop a (data_cells data)"
    "q + of_nat (length data) = q' + of_nat (length rest)" "unat q' + length rest + 4 < 2 ^ 64"
    using read_cells_spec [OF assms, of a 0] unfolding cells_value_def by blast
  with read_cells_spec [OF 1(2,5), of b 0] show ?thesis by (auto simp: cells_value_def)
qed

text \<open>A comparison never reads past its bound.\<close>

lemma strncmp_reads: "(\<And>i. i < n \<Longrightarrow> a i \<noteq> None) \<Longrightarrow> cs b t \<Longrightarrow> n \<le> length t \<Longrightarrow> \<exists>d. strncmp a b n = Some d"
proof -
  assume a: "\<And>i. i < n \<Longrightarrow> a i \<noteq> None" and b: "cs b t" "n \<le> length t"
  let ?f = "\<lambda>i (_ :: unit). do { x \<leftarrow> a i; y \<leftarrow> b i;
       Some (if x \<noteq> y then Inl (byte_diff x y) else if x = 0 then Inl 0 else Inr ()) }"
  have "(\<exists>r. ?f k u = Some (Inl r) \<and> True) \<or> (\<exists>t'. ?f k u = Some (Inr t') \<and> True)" if kn: "k < n" for k u
  proof -
    obtain x where "a k = Some x" using a [OF kn] by blast
    moreover obtain y where "b k = Some y"
      using b kn by (cases "k = length t") (auto simp: cs_iff)
    ultimately show ?thesis by auto
  qed
  then have "(\<exists>r. for_ret 0 n ?f () = Some (Inl r) \<and> True) \<or> (\<exists>t. for_ret 0 n ?f () = Some (Inr t) \<and> True)"
    by (intro for_ret_inv) auto
  then show ?thesis by (auto simp: strncmp_def)
qed

lemma name_next:
  "tok_size (Begin_node nm) < 2 ^ 31 \<Longrightarrow> p + 4 + name_skip (length nm) = p + of_nat (tok_size (Begin_node nm))"
  using tok_next(1) [of nm p] by (simp add: name_skip_align4 add.commute)

subsection \<open>The memory node\<close>

lemmas str_defs = str_memory_def str_device_type_def str_address_cells_def str_size_cells_def
  str_reserved_memory_def str_reg_def

lemma ld_rd_tok: "ld_cell m (fdt + ucast p) = rd_tok m fdt p"
  by (simp add: ld_cell_eq rd_tok_def)

lemma mem_device_type_ok:
  assumes "cs (at m pname) nm" "holds m pdata data" "length data < 2 ^ 31"
  shows "\<exists>st'. mem_device_type m pname pdata (of_nat (length data)) st = Some st' \<and>
    mem_at (mw_p st) (mw_depth st) (mw_in_memory st) (mw_addr_cells st) (mw_size_cells st) st'"
proof -
  have len: "unat (of_nat (length data) :: u32) = length data" using assms(3) by (simp add: unat_of_nat)
  have "name_is (at m pname) 0 str_device_type = Some (nm = str_device_type)"
    using assms(1) by (intro name_is_spec) (simp_all add: cs_def str_defs)
  moreover have "\<exists>d. strncmp (at m pdata) (lit str_memory) 6 = Some d" if "length data \<ge> 6"
    using assms(2) that by (intro strncmp_reads [of _ _ _ str_memory]) (auto simp: at_def holds_def str_defs)
  ultimately show ?thesis
    using len by (auto simp: mem_device_type_def mem_at_def word_le_nat_alt)
qed

lemma mem_cells_ok:
  assumes "cs (at m pname) nm" "holds m pdata data" "length data < 2 ^ 31"
  shows "mem_cells m pname pdata (of_nat (length data)) st = Some (st\<lparr>
    mw_addr_cells := (if mw_depth st = 1 \<and> nm = str_address_cells \<and> length data \<ge> 4 then sint (data_cells data ! 0) else mw_addr_cells st),
    mw_size_cells := (if mw_depth st = 1 \<and> nm = str_size_cells \<and> length data \<ge> 4 then sint (data_cells data ! 0) else mw_size_cells st)\<rparr>)"
proof -
  have len: "unat (of_nat (length data) :: u32) = length data" using assms(3) by (simp add: unat_of_nat)
  obtain d e where "strcmp (at m pname) (lit str_address_cells) = Some d" "d = 0 \<longleftrightarrow> nm = str_address_cells"
    "strcmp (at m pname) (lit str_size_cells) = Some e" "e = 0 \<longleftrightarrow> nm = str_size_cells"
    using strcmp_eq [OF assms(1), of str_address_cells] strcmp_eq [OF assms(1), of str_size_cells] by (auto simp: str_defs)
  moreover have "ld_cell m pdata = Some (data_cells data ! 0)" if "length data \<ge> 4"
    using ld_first_cell [OF assms(2) that] by (simp add: ld_cell_eq)
  moreover have "str_address_cells \<noteq> str_size_cells" by (simp add: str_defs)
  ultimately show ?thesis using len by (auto simp: mem_cells_def word_le_nat_alt)
qed

lemma mem_prop_ok:
  assumes t: "tok_at m fdt strings p (Prop nm data)" "tok_size (Prop nm data) < 2 ^ 31" and fdt: "unat fdt < 2 ^ 63"
    and st: "mem_at (p + 4) depth im ac sc st"
  shows "let cell = sint (data_cells data ! 0);
      ac' = (if depth = 1 \<and> nm = str_address_cells \<and> length data \<ge> 4 then cell else ac);
      sc' = (if depth = 1 \<and> nm = str_size_cells \<and> length data \<ge> 4 then cell else sc)
    in if im \<and> nm = str_reg
       then mem_prop m fdt strings st = Some (Inl (cells_value (take (cell_count ac') (data_cells data)),
              cells_value (take (cell_count sc') (drop (cell_count ac') (data_cells data)))))
       else \<exists>st'. mem_prop m fdt strings st = Some (Inr st') \<and>
              mem_at (p + of_nat (tok_size (Prop nm data))) depth im ac' sc' st'"
proof -
  obtain off where r: "rd_tok m fdt (p + 4) = Some (of_nat (length data))" "rd_tok m fdt (p + 8) = Some off"
    "cs (at m (strings + ucast off)) nm" "holds m (fdt + ucast (p + 12)) data"
    using t(1) by (auto simp: tok_at_def)
  let ?q = "fdt + ucast (p + 12)"
  have len: "length data < 2 ^ 31" using t(2) by (rule prop_len)
  then have len32: "(ucast (of_nat (length data) :: u32) :: u64) = of_nat (length data)"
    using ucast_add_nowrap [of 0 "length data"] by simp
  have "unat (ucast (p + 12) :: u64) < 2 ^ 32" using unat_lt32 [of "p + 12"] by (simp only: unat_ucast64)
  with fdt have "unat ?q = unat fdt + unat (ucast (p + 12) :: u64)" by (intro unat_add_nowrap) simp
  with fdt len \<open>unat (ucast (p + 12) :: u64) < 2 ^ 32\<close> have q: "unat ?q + length data + 4 < 2 ^ 64" by simp
  have reg: "name_is (at m (strings + ucast off)) 0 str_reg = Some (nm = str_reg)"
    using r(3) by (intro name_is_spec) (simp_all add: cs_def str_defs)
  have next_p: "p + 12 + ((of_nat (length data) + 3) AND NOT 3) = p + of_nat (tok_size (Prop nm data))"
    using tok_next(2) [OF t(2)] by (simp add: align4_def)
  have p: "mw_p st = p + 4" "p + 4 + 4 = p + 8" "p + 4 + 8 = p + 12" using st by (simp_all add: mem_at_def)
  obtain st1 where st1: "mem_device_type m (strings + ucast off) ?q (of_nat (length data)) st = Some st1"
    "mem_at (p + 4) depth im ac sc st1"
    using mem_device_type_ok [OF r(3,4) len, of st] st by (auto simp: mem_at_def)
  have count: "nat (if n > 0 then n else 2) = cell_count n" for n by (simp add: cell_count_def)
  show ?thesis
    using st1(2) unfolding mem_prop_def ld_rd_tok p r(1,2) Let_def bind.bind_lunit st1(1) mem_cells_ok [OF r(3,4) len] len32
    by (simp only: reg if_True if_False bind.bind_lunit region_read [OF r(4) q] count next_p)
       (simp add: mem_at_def reg region_read [OF r(4) q] count)
qed

lemma mem_begin_ok:
  assumes "tok_at m fdt strings p (Begin_node nm)" "tok_size (Begin_node nm) < 2 ^ 31" "mem_at p depth im ac sc st"
  shows "\<exists>st'. mem_step m fdt strings st = Some (Inr st') \<and>
    mem_at (p + of_nat (tok_size (Begin_node nm))) (depth + 1) (take 6 nm = str_memory) ac sc st'"
proof -
  have r: "rd_tok m fdt p = Some DTB_BEGIN_NODE" "cs (at m (fdt + ucast (p + 4))) nm" "mw_p st = p"
    using assms by (simp_all add: tok_at_def mem_at_def)
  then have "name_len_from (at m (fdt + ucast (p + 4))) 0 = Some (length nm)"
    using name_len_spec [of _ 0 nm] by (simp add: cs_def)
  moreover obtain d where "strncmp (at m (fdt + ucast (p + 4))) (lit str_memory) 6 = Some d"
    "d = 0 \<longleftrightarrow> take 6 nm = str_memory"
    using strncmp_eq [OF r(2), of str_memory 6] by (auto simp: str_defs)
  moreover have "length nm \<ge> 6" if "take 6 nm = str_memory"
    using arg_cong [OF that, of length] by (simp add: str_defs)
  ultimately show ?thesis
    using assms(3) name_next [OF assms(2), of p]
    by (auto simp: mem_step_def ld_rd_tok r mem_at_def)
qed

lemma mem_loop_spec:
  "toks_at m fdt strings p ts \<Longrightarrow> unat fdt < 2 ^ 63 \<Longrightarrow> mem_at p depth im ac sc st \<Longrightarrow>
   mem_loop m fdt strings st = Some (memory_region depth im ac sc ts)"
proof (induction ts arbitrary: p depth im ac sc st)
  case Nil
  then show ?case by (subst mem_loop.simps) (simp add: mem_step_def ld_rd_tok mem_at_def)
next
  case (Cons t ts)
  have t: "tok_at m fdt strings p t" "tok_size t < 2 ^ 31" "toks_at m fdt strings (p + of_nat (tok_size t)) ts"
    using Cons.prems(1) by simp_all
  note go = Cons.IH [OF t(3) Cons.prems(2)]
  have go': "mem_loop m fdt strings u = Some (memory_region (mw_depth u) (mw_in_memory u) (mw_addr_cells u) (mw_size_cells u) ts)"
    if "mw_p u = p + of_nat (tok_size t)" for u using that by (intro go) (simp add: mem_at_def)
  have st: "mw_p st = p" "mw_depth st = depth" "mw_in_memory st = im" "mw_addr_cells st = ac" "mw_size_cells st = sc"
    using Cons.prems(3) by (simp_all add: mem_at_def)
  show ?case
  proof (cases t)
    case (Begin_node nm)
    from mem_begin_ok [OF t(1,2) [unfolded Begin_node] Cons.prems(3)] go [unfolded Begin_node] show ?thesis
      by (subst mem_loop.simps) (auto simp: Begin_node)
  next
    case (Prop nm data)
    have "mem_at (p + 4) depth im ac sc (st\<lparr>mw_p := p + 4\<rparr>)" using Cons.prems(3) by (simp add: mem_at_def)
    from mem_prop_ok [OF t(1,2) [unfolded Prop] Cons.prems(2) this] go [unfolded Prop] t(1) show ?thesis
      by (subst mem_loop.simps) (auto simp: Prop Let_def mem_step_def ld_rd_tok st tok_at_def split: if_splits)
  next
    case End_node
    with t(1) show ?thesis
      by (subst mem_loop.simps) (auto simp: mem_step_def ld_rd_tok st tok_at_def tok_size_def go')
  next
    case Nop
    with t(1) show ?thesis
      by (subst mem_loop.simps) (auto simp: mem_step_def ld_rd_tok st tok_at_def tok_size_def go')
  qed
qed

lemma dtb_find_memory_region_toks:
  assumes "fdt_holds m fdt ts" "unat fdt < 2 ^ 63"
  shows "dtb_find_memory_region fdt m = Some (memory_region 0 False 2 2 ts)"
proof -
  obtain s str where "hdr_off_struct m fdt = Some s" "hdr_off_strings m fdt = Some str" "toks_at m fdt (fdt + ucast str) s ts"
    using assms(1) by (auto simp: fdt_holds_def)
  then show ?thesis
    using assms mem_loop_spec [OF _ assms(2)]
    by (simp add: dtb_find_memory_region_def dtb_get_def fdt_holds_def hdr_magic_def hdr_off_struct_def hdr_off_strings_def ld_cell_eq mem_at_def)
qed

subsection \<open>Reserved memory\<close>

lemma res_prop_ok:
  assumes "cs (at m pname) nm" "holds m pdata data" "length data < 2 ^ 31" "rw_in_reserved st \<noteq> 0 \<or> \<not> rw_in_reserved st = 2"
  shows "\<exists>st'. res_prop m pname pdata (of_nat (length data)) st = Some st' \<and> rw_p st' = rw_p st \<and> rw_pmm st' = rw_pmm st"
proof -
  have len: "unat (of_nat (length data) :: u32) = length data" using assms(3) by (simp add: unat_of_nat)
  obtain d e f where "strcmp (at m pname) (lit str_address_cells) = Some d" "strcmp (at m pname) (lit str_size_cells) = Some e"
    "strcmp (at m pname) (lit str_reg) = Some f"
    using strcmp_eq [OF assms(1), of str_address_cells] strcmp_eq [OF assms(1), of str_size_cells] strcmp_eq [OF assms(1), of str_reg]
    by (auto simp: str_defs)
  moreover have "ld_cell m pdata = Some (data_cells data ! 0)" if "length data \<ge> 4"
    using ld_first_cell [OF assms(2) that] by (simp add: ld_cell_eq)
  ultimately show ?thesis using len assms(4) by (auto simp: res_prop_def word_le_nat_alt)
qed

lemma res_step_ok:
  assumes t: "tok_at m fdt strings p t" "tok_size t < 2 ^ 31" and st: "rw_p st = p"
  shows "\<exists>st'. res_step m fdt strings st = Some (Inr st') \<and> rw_p st' = p + of_nat (tok_size t) \<and> rw_pmm st' = rw_pmm st"
proof (cases t)
  case (Begin_node nm)
  have r: "rd_tok m fdt p = Some DTB_BEGIN_NODE" "cs (at m (fdt + ucast (p + 4))) nm"
    using t(1) by (simp_all add: tok_at_def Begin_node)
  then have "name_len_from (at m (fdt + ucast (p + 4))) 0 = Some (length nm)"
    using name_len_spec [of _ 0 nm] by (simp add: cs_def)
  moreover obtain d where "strncmp (at m (fdt + ucast (p + 4))) (lit str_reserved_memory) 15 = Some d"
    using strncmp_eq [OF r(2), of str_reserved_memory 15] by (auto simp: str_defs)
  ultimately show ?thesis
    using name_next [OF t(2) [unfolded Begin_node], of p] by (auto simp: res_step_def ld_rd_tok r st Begin_node Let_def)
next
  case (Prop nm data)
  obtain off where r: "rd_tok m fdt p = Some DTB_PROP" "rd_tok m fdt (p + 4) = Some (of_nat (length data))"
    "rd_tok m fdt (p + 8) = Some off" "cs (at m (strings + ucast off)) nm" "holds m (fdt + ucast (p + 12)) data"
    using t(1) by (auto simp: tok_at_def Prop)
  from t(2) have "\<exists>st'. res_prop m (strings + ucast off) (fdt + ucast (p + 12)) (of_nat (length data)) (st\<lparr>rw_p := p + 4\<rparr>) = Some st' \<and>
      rw_p st' = p + 4 \<and> rw_pmm st' = rw_pmm st"
    using res_prop_ok [OF r(4,5) prop_len, of nm "st\<lparr>rw_p := p + 4\<rparr>"] by (auto simp: Prop)
  then show ?thesis
    using tok_next(2) [OF t(2) [unfolded Prop], of p]
    by (auto simp: res_step_def ld_rd_tok r st Prop Let_def align4_def add.assoc)
qed (use t in \<open>auto simp: res_step_def ld_rd_tok tok_at_def tok_size_def st Let_def\<close>)

lemma res_loop_ok: "toks_at m fdt strings p ts \<Longrightarrow> rw_p st = p \<Longrightarrow> res_loop m fdt strings st = Some (rw_pmm st)"
proof (induction ts arbitrary: p st)
  case Nil
  then show ?case by (subst res_loop.simps) (simp add: res_step_def ld_rd_tok Let_def)
next
  case (Cons t ts)
  with res_step_ok [of m fdt strings p t st] show ?case by (subst res_loop.simps) auto
qed

lemma reserve_reserved_memory_skip:
  assumes "fdt_holds m fdt ts"
  shows "reserve_reserved_memory fdt m s = Some s"
proof -
  obtain q str where "hdr_off_struct m fdt = Some q" "hdr_off_strings m fdt = Some str" "toks_at m fdt (fdt + ucast str) q ts"
    using assms(1) by (auto simp: fdt_holds_def)
  then show ?thesis
    using assms res_loop_ok [of m fdt "fdt + ucast str" q ts]
    by (simp add: reserve_reserved_memory_def dtb_get_def fdt_holds_def hdr_magic_def hdr_off_struct_def hdr_off_strings_def ld_cell_eq)
qed

subsection \<open>Start-up\<close>

lemma page_down_aligned: "page_aligned ((x :: u64) AND NOT (PMM_PAGE_SIZE - 1))"
proof -
  have "PMM_PAGE_SIZE - 1 = 4095" by (simp add: PMM_PAGE_SIZE_def)
  then show ?thesis by (simp only: page_aligned_unat unat_and_not_4095 minus_mod_eq_div_mult mod_mult_self2_is_0)
qed

lemma ram_range_ok: "ram_range base sz = (b, e) \<Longrightarrow> b < e \<and> page_aligned b \<and> page_aligned e"
  by (auto simp: ram_range_def Let_def page_down_aligned not_le split: if_splits)
     (simp_all add: page_aligned_unat)

lemma pmm_set_range_ok:
  assumes "ram_range base sz = (b, e)"
  shows "\<exists>t. pmm_set_range base sz s = Some t \<and> pmm_inv t \<and> pmm_mem_base t = b \<and> pmm_mem_size t = e - b \<and>
    (\<forall>i < pmm_pages_total t. \<not> pmm_used t i)"
proof -
  let ?n = "min (unat (e - b) div 4096) PMM_MAX_PAGES"
  have be: "b < e" "page_aligned b" "page_aligned e" using ram_range_ok [OF assms] by auto
  have n: "(if unat ((e - b) div PMM_PAGE_SIZE) > PMM_MAX_PAGES then PMM_MAX_PAGES else unat ((e - b) div PMM_PAGE_SIZE)) = ?n"
    by (simp add: unat_div PMM_PAGE_SIZE_def)
  obtain bm where cl: "for_upto 0 ?n (\<lambda>i bm. pmm_clear_bit bm i) (pmm_bitmap s) = Some bm"
    "arr_bit bm = (\<lambda>i. arr_bit (pmm_bitmap s) i \<and> ?n \<le> i)"
    using pm.cl_upto [of ?n "pmm_bitmap s"] by auto
  then have bm: "\<not> arr_bit bm j" if "j < ?n" for j using that cl(2) by (simp only: not_le [symmetric]) simp
  let ?t = "s\<lparr>pmm_mem_base := b, pmm_mem_size := e - b, pmm_pages_total := ?n, pmm_bitmap := bm, pmm_pages_free := ?n\<rparr>"
  have run: "pmm_set_range base sz s = Some ?t"
    using assms cl(1) n unfolding pmm_set_range_def ram_range_def Let_def by (simp split: if_splits)
  have sz: "unat (e - b) = unat e - unat b" using be(1) by (simp add: unat_sub_if_size word_size word_less_nat_alt)
  then have "unat b + unat (e - b) < 2 ^ 64" using be(1) unat_lt64 [of e] by (simp add: word_less_nat_alt)
  moreover have "page_aligned (e - b)" using be(2,3) sz by (auto simp: page_aligned_unat mod_eq_0_iff_dvd)
  moreover have "?n = clear_count (arr_bit bm) ?n" by (intro clear_count_all [symmetric] bm)
  ultimately have "pmm_inv ?t" using be(2) by (simp add: pmm_inv_def pmm_range_ok_def pmm_used_def)
  with run bm show ?thesis by (auto simp: pmm_used_def)
qed

lemma reserve_more:
  assumes "boot_state b n rs s" "unat a + unat k < 2 ^ 64"
  shows "\<exists>t. reserve_range a k s = Some t \<and> boot_state b n (rs @ [(a, k)]) t"
proof -
  obtain t where t: "reserve_range a k s = Some t" "same_range s t" "pmm_inv t"
    "pmm_used t = (\<lambda>i. pmm_used s i \<or> page_meets s a k i)"
    using reserve_range_spec [of s a k] assms by (auto simp: boot_state_def)
  have "page_meets t = page_meets s" using t(2) by (simp add: fun_eq_iff page_meets_def same_range_def)
  with t assms(1) show ?thesis by (auto simp: boot_state_def same_range_def)
qed

lemma fill_ok: "\<exists>bm'. for_upto 0 n (\<lambda>i bm. arr_set n bm i v) bm = Some bm'"
proof -
  have "\<exists>bm'. for_upto 0 n (\<lambda>i bm. arr_set n bm i v) bm = Some bm' \<and> True"
    by (rule for_upto_inv [where P = "\<lambda>_ _. True"]) auto
  then show ?thesis by simp
qed

lemma nowrap_diff: "(a :: u64) \<le> b \<Longrightarrow> unat a + unat (b - a) < 2 ^ 64"
  using unat_lt64 [of b] by (simp add: unat_sub_if_size word_size word_le_nat_alt)

lemma reserve_uart:
  assumes "boot_state b n rs s" "\<forall>a. snd u = Some a \<longrightarrow> unat a < 2 ^ 63"
  shows "\<exists>t. (case u of (r, base) \<Rightarrow> if r = 0 \<and> base \<noteq> None \<and> base \<noteq> Some 0
       then reserve_range (the base AND NOT (PMM_PAGE_SIZE - 1)) PMM_PAGE_SIZE s else Some s) = Some t \<and>
    boot_state b n (rs @ uart_page u) t"
proof (cases "uart_page u = []")
  case True
  with assms(1) show ?thesis by (auto simp: uart_page_def split: prod.splits if_splits)
next
  case False
  then obtain a where a: "u = (0, Some a)" "a \<noteq> 0" by (auto simp: uart_page_def split: prod.splits if_splits)
  have "PMM_PAGE_SIZE - 1 = 4095" by (simp add: PMM_PAGE_SIZE_def)
  then have "unat (a AND NOT (PMM_PAGE_SIZE - 1)) \<le> unat a" by (simp only: unat_and_not_4095 diff_le_self)
  then have "unat (a AND NOT (PMM_PAGE_SIZE - 1)) + unat PMM_PAGE_SIZE < 2 ^ 64"
    using assms(2) a(1) by (simp add: PMM_PAGE_SIZE_def)
  from reserve_more [OF assms(1) this] a show ?thesis by (simp add: uart_page_def)
qed

lemma reserve_image:
  assumes "boot_state b n [] s" "kernel_start ld \<le> kernel_end ld" "stack_bottom ld \<le> stack_top ld"
  shows "\<exists>s1 t. reserve_range (kernel_start ld) (kernel_end ld - kernel_start ld) s = Some s1 \<and>
    reserve_range (stack_bottom ld) (stack_top ld - stack_bottom ld) s1 = Some t \<and>
    boot_state b n [(kernel_start ld, kernel_end ld - kernel_start ld), (stack_bottom ld, stack_top ld - stack_bottom ld)] t"
proof -
  obtain s1 where "reserve_range (kernel_start ld) (kernel_end ld - kernel_start ld) s = Some s1"
    "boot_state b n [(kernel_start ld, kernel_end ld - kernel_start ld)] s1"
    using reserve_more [OF assms(1) nowrap_diff [OF assms(2)]] by auto
  then show ?thesis using reserve_more [OF _ nowrap_diff [OF assms(3)]] by fastforce
qed

lemma pmm_init_spec:
  assumes blob: "fdt_holds m fdt ts" "unat fdt < 2 ^ 63" "hdr_totalsize m fdt = Some totalsize"
    and ld: "kernel_start ld \<le> kernel_end ld" "stack_bottom ld \<le> stack_top ld"
    and uart: "dtb_get_stdout_uart_base fdt True m = Some u" "\<forall>a. snd u = Some a \<longrightarrow> unat a < 2 ^ 63"
    and ram: "ram_found ts = (base, sz)" "ram_range base sz = (b, e)" "unat b < 2 ^ 63"
  shows "\<exists>t. pmm_init_from_dtb ld fdt m s = Some t \<and> boot_state b (e - b) (boot_regions ld fdt totalsize u b) t"
proof -
  obtain bm where bm: "for_upto 0 (PMM_MAX_PAGES div 8) (\<lambda>i bm. arr_set (PMM_MAX_PAGES div 8) bm i 0xFF) (pmm_bitmap s) = Some bm"
    using fill_ok [where n = "PMM_MAX_PAGES div 8" and bm = "pmm_bitmap s"] by blast
  obtain s0 where s0: "pmm_set_range base sz (s\<lparr>pmm_bitmap := bm\<rparr>) = Some s0" "boot_state b (e - b) [] s0"
    using pmm_set_range_ok [OF ram(2)] by (fastforce simp: boot_state_def)
  obtain s1 s2 where s2: "reserve_range (kernel_start ld) (kernel_end ld - kernel_start ld) s0 = Some s1"
    "reserve_range (stack_bottom ld) (stack_top ld - stack_bottom ld) s1 = Some s2"
    "boot_state b (e - b) [(kernel_start ld, kernel_end ld - kernel_start ld), (stack_bottom ld, stack_top ld - stack_bottom ld)] s2"
    using reserve_image [OF s0(2) ld] by blast
  have "unat fdt + unat (ucast totalsize :: u64) < 2 ^ 64"
    using blob(2) unat_lt32 [of totalsize] by (simp add: unat_ucast64)
  from reserve_more [OF s2(3) this] obtain s3 where s3: "reserve_dtb_blob fdt m s2 = Some s3"
    "boot_state b (e - b) ([(kernel_start ld, kernel_end ld - kernel_start ld), (stack_bottom ld, stack_top ld - stack_bottom ld)] @ [(fdt, ucast totalsize)]) s3"
    using blob(1,3) by (auto simp: reserve_dtb_blob_def dtb_get_def fdt_holds_def hdr_totalsize_def ld_cell_eq)
  obtain s4 where s4: "(case u of (r, base) \<Rightarrow> if r = 0 \<and> base \<noteq> None \<and> base \<noteq> Some 0
       then reserve_range (the base AND NOT (PMM_PAGE_SIZE - 1)) PMM_PAGE_SIZE s3 else Some s3) = Some s4"
    "boot_state b (e - b) (([(kernel_start ld, kernel_end ld - kernel_start ld), (stack_bottom ld, stack_top ld - stack_bottom ld)] @ [(fdt, ucast totalsize)]) @ uart_page u) s4"
    using reserve_uart [OF s3(2) uart(2)] by blast
  have "unat b + unat (0x100000 :: u64) < 2 ^ 64" using ram(3) by simp
  from reserve_more [OF s4(2) this] obtain s5 where s5: "reserve_range b 0x100000 s4 = Some s5"
    "boot_state b (e - b) (boot_regions ld fdt totalsize u b) s5" by (auto simp: boot_regions_def)
  have "b < b + (e - b)" using ram_range_ok [OF ram(2)] by simp
  moreover have "pmm_mem_base s4 = b" "pmm_mem_size s4 = e - b" using s4(2) by (auto simp: boot_state_def)
  moreover have "(case memory_region 0 False 2 2 ts of Some (base, sz) \<Rightarrow> if sz = 0 then (0x40000000, 0x40000000) else (base, sz)
      | None \<Rightarrow> (0x40000000, 0x40000000)) = (base, sz)" using ram(1) by (simp add: ram_found_def)
  ultimately show ?thesis
    using s5 reserve_reserved_memory_skip [OF blob(1)]
    by (simp add: pmm_init_from_dtb_def bm dtb_find_memory_region_toks [OF blob(1,2)] s0 s2 s3 uart(1) s4 del: not_None_eq)
qed


lemma boot_state_pages: "boot_state b n rs s \<Longrightarrow> n \<noteq> 0 \<Longrightarrow> 0 < pmm_pages_total s"
proof -
  assume s: "boot_state b n rs s" and "n \<noteq> 0"
  then have "unat n mod 4096 = 0" "0 < unat n" by (auto simp: boot_state_def pmm_inv_def pmm_range_ok_def page_aligned_unat unat_gt_0)
  then have "4096 \<le> unat n" by (metis mod_less not_le neq0_conv)
  then have "0 < unat n div 4096" by (simp add: div_greater_zero_iff)
  with s show ?thesis by (auto simp: boot_state_def pmm_inv_def pmm_range_ok_def PMM_MAX_PAGES_def)
qed

lemma boot_state_nonnull: "boot_state b n rs s \<Longrightarrow> (b, 0x100000) \<in> set rs \<Longrightarrow> 0 < pmm_pages_total s \<Longrightarrow> pmm_nonnull s"
  by (force simp: boot_state_def pmm_nonnull_def page_meets_def)

lemmas boot_simps = boot_demo_def boot_syms_def prop_toks_def str_defs

lemma boot_demo_holds: "fdt_holds (mem_of 0x48000000 (fdt_blob (dtree_toks boot_demo))) 0x48000000 (dtree_toks boot_demo)"
  by (rule fdt_blob_holds) (simp_all add: blob_simps boot_simps)

section \<open>Claims\<close>

text \<open>
  On every well-formed blob below 2 ^ 63, \<open>dtb_find_memory_region\<close> ends, reads nothing outside
  the blob and answers what the token stream says: the first \<open>reg\<close> property of a node whose name
  starts with \<open>memory\<close>, split by the cell counts that the root node gave before it, or -1.
\<close>

theorem dtb_find_memory_region_follows_stream:
  assumes "fdt_holds m fdt ts" "unat fdt < 2 ^ 63"
  shows "dtb_find_memory_region fdt m = Some (memory_region 0 False 2 2 ts)"
  using assms by (rule dtb_find_memory_region_toks)

theorem dtb_find_memory_region_follows_stream_witness:
  "dtb_find_memory_region 0x48000000 (mem_of 0x48000000 (fdt_blob (dtree_toks boot_demo))) = Some (Some (0x40000000, 0x10000000))"
proof -
  have "memory_region 0 False 2 2 (dtree_toks boot_demo) = Some (0x40000000, 0x10000000)" by code_simp
  then show ?thesis using dtb_find_memory_region_follows_stream [OF boot_demo_holds] by simp
qed

text \<open>
  On every well-formed blob \<open>reserve_reserved_memory\<close> ends without changing the allocator: the
  branch that reserves the ranges of the children of \<open>/reserved-memory\<close> can not be reached, so none
  of them is ever reserved.
\<close>

theorem reserve_reserved_memory_reserves_nothing:
  assumes "fdt_holds m fdt ts"
  shows "reserve_reserved_memory fdt m s = Some s"
  using assms by (rule reserve_reserved_memory_skip)

theorem reserve_reserved_memory_reserves_nothing_witness:
  "reserve_reserved_memory 0x48000000 (mem_of 0x48000000 (fdt_blob (dtree_toks boot_demo))) pmm_demo = Some pmm_demo \<and>
   Prop str_reg [0x41, 0, 0, 0, 0, 0x10, 0, 0] \<in> set (dtree_toks boot_demo)"
  using reserve_reserved_memory_reserves_nothing [OF boot_demo_holds] by (simp add: boot_demo_def prop_toks_def)

text \<open>
  C30 \<open>pmm_init_from_dtb\<close> ends with a consistent allocator over the RAM range of the device tree (or
  the fallback of 1 GiB), aligned to pages, in which a page is in use exactly when it meets the kernel
  image, the boot stack, the device tree blob, the page of the console UART that \<open>dtb.c\<close> answers or the first MiB of RAM.
  So none of these is ever handed out, and neither is the null address. The regions under \<open>/reserved-memory\<close>
  are not among them, although \<open>reserve_reserved_memory\<close> is called for them and its comment says that it
  reserves them (\<open>pmm.c\<close> lines 185 and 236): for every such blob the call changes nothing, whatever regions the
  tree names.
\<close>

theorem pmm_init_reserves:
  assumes "fdt_holds m fdt ts" "unat fdt < 2 ^ 63" "hdr_totalsize m fdt = Some totalsize"
    and "kernel_start ld \<le> kernel_end ld" "stack_bottom ld \<le> stack_top ld"
    and "dtb_get_stdout_uart_base fdt True m = Some u" "\<forall>a. snd u = Some a \<longrightarrow> unat a < 2 ^ 63"
    and "ram_found ts = (base, sz)" "ram_range base sz = (b, e)" "unat b < 2 ^ 63"
  shows "\<exists>t. pmm_init_from_dtb ld fdt m s = Some t \<and> pmm_inv t \<and> pmm_nonnull t \<and>
    pmm_mem_base t = b \<and> pmm_mem_size t = e - b \<and>
    (\<forall>i < pmm_pages_total t. pmm_used t i \<longleftrightarrow> (\<exists>(a, n)\<in>set (boot_regions ld fdt totalsize u b). page_meets t a n i)) \<and>
    (\<forall>s1. reserve_reserved_memory fdt m s1 = Some s1)"
proof -
  from pmm_init_spec [OF assms] obtain t where
    t: "pmm_init_from_dtb ld fdt m s = Some t" "boot_state b (e - b) (boot_regions ld fdt totalsize u b) t" by blast
  have "0 < pmm_pages_total t" by (rule boot_state_pages [OF t(2)]) (use ram_range_ok [OF assms(9)] in auto)
  with t show ?thesis using boot_state_nonnull [OF t(2)] reserve_reserved_memory_skip [OF assms(1)]
    by (auto simp: boot_state_def boot_regions_def)
qed

text \<open>The tree of the witness reserves 1 MiB at \<open>0x41000000\<close>, page \<open>0x1000\<close>; that page is free.\<close>

theorem pmm_init_reserves_witness:
  "\<exists>t. pmm_init_from_dtb boot_syms 0x48000000 (mem_of 0x48000000 (fdt_blob (dtree_toks boot_demo))) pmm_demo = Some t \<and>
     pmm_inv t \<and> pmm_used t 0x80 \<and> \<not> pmm_used t 0x1000"
proof -
  let ?ts = "dtree_toks boot_demo"
  let ?m = "mem_of 0x48000000 (fdt_blob ?ts)"
  have len: "length (fdt_blob ?ts) < 2 ^ 31" by (simp add: blob_simps boot_simps)
  have u: "console_strings_ok ?ts" "uart_answer ?ts = Some (-1, None)" "ram_found ?ts = (0x40000000, 0x10000000)" by code_simp+
  then have d: "dtb_get_stdout_uart_base 0x48000000 True ?m = Some (-1, None)" using uart_base_spec [OF boot_demo_holds] by simp
  have r: "ram_range 0x40000000 0x10000000 = (0x40000000, 0x50000000)" by code_simp
  obtain t where t: "pmm_init_from_dtb boot_syms 0x48000000 ?m pmm_demo = Some t" "pmm_inv t"
    "pmm_mem_base t = 0x40000000" "pmm_mem_size t = 0x10000000"
    "\<forall>i < pmm_pages_total t. pmm_used t i \<longleftrightarrow>
      (\<exists>(a, n)\<in>set (boot_regions boot_syms 0x48000000 (of_nat (length (fdt_blob ?ts))) (-1, None) 0x40000000). page_meets t a n i)"
    using pmm_init_reserves [OF boot_demo_holds _ fdt_blob_totalsize [OF len] _ _ d _ u(3) r, of boot_syms pmm_demo]
    by (auto simp: boot_syms_def)
  have "pmm_pages_total t = 0x10000"
    using t(2,4) by (simp add: pmm_inv_def pmm_range_ok_def PMM_MAX_PAGES_def)
  moreover have "unat (ucast (of_nat (length (fdt_blob ?ts)) :: u32) :: u64) < 0x1000" by (simp add: blob_simps boot_simps)
  ultimately show ?thesis
    using t by (auto simp: boot_regions_def uart_page_def page_meets_def boot_syms_def)
qed

end
