(* ===== verification/Klog.thy ===== *)
theory Klog
  imports Prelude
begin

text \<open>
  The kernel log, \<open>src/kernel/log.c\<close>: a ring of bytes that holds records (a packed three-byte header,
  then the message), written by \<open>log_write_str\<close> and read by \<open>log_read\<close>, and the console output with
  its own level. The specification is a bounded queue of records; the code refines it: the bytes
  between tail and head are the records of the queue one after the other, wherever the ring wraps.
\<close>

section \<open>Definitions\<close>

definition KLOG_RING_SIZE :: u32 where "KLOG_RING_SIZE = 4096"
definition KLOG_INFO :: int where "KLOG_INFO = 6"

text \<open>\<open>klog_hdr_t\<close> is packed: the level, then the length with its low byte first.\<close>

record klog_hdr =
  hdr_level :: u8
  hdr_len :: u16

definition hdr_size :: nat where "hdr_size = 3"

definition hdr_bytes :: "klog_hdr \<Rightarrow> u8 list" where
  "hdr_bytes hr = [hdr_level hr, ucast (hdr_len hr), ucast (drop_bit 8 (hdr_len hr))]"

definition hdr_of :: "u8 list \<Rightarrow> klog_hdr" where
  "hdr_of bs = \<lparr>hdr_level = bs ! 0, hdr_len = ucast (bs ! 1) OR push_bit 8 (ucast (bs ! 2))\<rparr>"

text \<open>A console sink is a pointer to a function of one character; what each was called with is recorded.\<close>

datatype sink = Serial_putc | Other_sink nat

record klog_state =
  klog_ring :: "nat \<Rightarrow> u8"
  klog_head :: u32
  klog_tail :: u32
  klog_level :: int
  klog_console_level :: int
  klog_console_sink :: "sink option"
  klog_inited :: bool
  console :: "(sink \<times> u8) list"

definition rb_space :: "klog_state \<Rightarrow> u32" where
  "rb_space s = (if klog_head s \<ge> klog_tail s
     then KLOG_RING_SIZE - (klog_head s - klog_tail s) - 1
     else klog_tail s - klog_head s - 1)"

definition rb_advance :: "u32 \<Rightarrow> u32 \<Rightarrow> u32" where
  "rb_advance p n = (p + n) mod KLOG_RING_SIZE"

text \<open>\<open>memcpy\<close> out of and into the ring: \<open>n\<close> bytes from index \<open>i\<close>, all of them inside the array.\<close>

definition ring_get :: "(nat \<Rightarrow> u8) \<Rightarrow> u32 \<Rightarrow> nat \<Rightarrow> u8 list option" where
  "ring_get r i n = (if unat i + n \<le> unat KLOG_RING_SIZE then Some (map r [unat i..<unat i + n]) else None)"

definition ring_put :: "(nat \<Rightarrow> u8) \<Rightarrow> u32 \<Rightarrow> u8 list \<Rightarrow> (nat \<Rightarrow> u8) option" where
  "ring_put r i bs = (if unat i + length bs \<le> unat KLOG_RING_SIZE
     then Some (\<lambda>j. if unat i \<le> j \<and> j < unat i + length bs then bs ! (j - unat i) else r j) else None)"

text \<open>Reading the header at the tail, which may wrap.\<close>

definition rd_hdr :: "klog_state \<Rightarrow> klog_hdr option" where
  "rd_hdr s =
     (if unat (KLOG_RING_SIZE - klog_tail s) \<ge> hdr_size then do {
        bs \<leftarrow> ring_get (klog_ring s) (klog_tail s) hdr_size;
        Some (hdr_of bs)
      } else do {
        let first = KLOG_RING_SIZE - klog_tail s;
        tmp \<leftarrow> ring_get (klog_ring s) (klog_tail s) (unat first);
        tmp2 \<leftarrow> ring_get (klog_ring s) 0 (hdr_size - unat first);
        Some (hdr_of (tmp @ tmp2)) })"

partial_function (option) rb_drop_oldest :: "u32 \<Rightarrow> klog_state \<Rightarrow> klog_state option" where
  "rb_drop_oldest need s =
     (if rb_space s < need then
        Option.bind (rd_hdr s) (\<lambda>hr.
          rb_drop_oldest need (s\<lparr>klog_tail := rb_advance (klog_tail s) (of_nat hdr_size + ucast (hdr_len hr))\<rparr>))
      else Some s)"

definition log_init :: "klog_state \<Rightarrow> klog_state" where
  "log_init s = s\<lparr>klog_head := 0, klog_tail := 0, klog_level := KLOG_INFO, klog_console_level := KLOG_INFO,
     klog_console_sink := Some Serial_putc, klog_inited := True\<rparr>"

definition log_set_level :: "int \<Rightarrow> klog_state \<Rightarrow> klog_state" where
  "log_set_level level s = s\<lparr>klog_level := level\<rparr>"

definition log_get_level :: "klog_state \<Rightarrow> int" where
  "log_get_level s = klog_level s"

definition log_set_console_sink :: "sink option \<Rightarrow> klog_state \<Rightarrow> klog_state" where
  "log_set_console_sink sk s = s\<lparr>klog_console_sink := sk\<rparr>"

definition log_set_console_level :: "int \<Rightarrow> klog_state \<Rightarrow> klog_state" where
  "log_set_console_level level s = s\<lparr>klog_console_level := level\<rparr>"

definition log_get_console_level :: "klog_state \<Rightarrow> int" where
  "log_get_console_level s = klog_console_level s"

text \<open>\<open>while (*p) klog_console_sink(*p++);\<close> for a non-null sink\<close>

definition sink_puts :: "sink \<Rightarrow> u8 list \<Rightarrow> klog_state \<Rightarrow> klog_state" where
  "sink_puts sk bs s = s\<lparr>console := console s @ map (Pair sk) bs\<rparr>"

definition console_prefix :: "int \<Rightarrow> u8 list" where
  "console_prefix level =
     [60, (if level = 0 then 48 else if level = 1 then 49 else if level = 2 then 50 else if level = 3 then 51
           else if level = 4 then 52 else if level = 5 then 53 else if level = 6 then 54
           else if level = 7 then 55 else 54), 62]"

definition console_emit_prefix :: "int \<Rightarrow> klog_state \<Rightarrow> klog_state" where
  "console_emit_prefix level s = (case klog_console_sink s of None \<Rightarrow> s
   | Some sk \<Rightarrow> sink_puts sk (console_prefix level) s)"

text \<open>Writing the header and the message at the head, each of which may wrap.\<close>

definition wr_hdr :: "klog_hdr \<Rightarrow> klog_state \<Rightarrow> klog_state option" where
  "wr_hdr hr s =
     (if unat (KLOG_RING_SIZE - klog_head s) \<ge> hdr_size then do {
        r \<leftarrow> ring_put (klog_ring s) (klog_head s) (hdr_bytes hr);
        Some (s\<lparr>klog_ring := r, klog_head := rb_advance (klog_head s) (of_nat hdr_size)\<rparr>)
      } else do {
        let first = unat (KLOG_RING_SIZE - klog_head s);
        r \<leftarrow> ring_put (klog_ring s) (klog_head s) (take first (hdr_bytes hr));
        r \<leftarrow> ring_put r 0 (drop first (hdr_bytes hr));
        Some (s\<lparr>klog_ring := r, klog_head := rb_advance (klog_head s) (of_nat hdr_size)\<rparr>) })"

definition wr_payload :: "u8 list \<Rightarrow> nat \<Rightarrow> klog_state \<Rightarrow> klog_state option" where
  "wr_payload msg len s =
     (if KLOG_RING_SIZE - klog_head s \<ge> of_nat len then do {
        r \<leftarrow> ring_put (klog_ring s) (klog_head s) (take len msg);
        Some (s\<lparr>klog_ring := r, klog_head := rb_advance (klog_head s) (of_nat len)\<rparr>)
      } else do {
        let first = unat (KLOG_RING_SIZE - klog_head s);
        r \<leftarrow> ring_put (klog_ring s) (klog_head s) (take first msg);
        r \<leftarrow> ring_put r 0 (take (len - first) (drop first msg));
        Some (s\<lparr>klog_ring := r, klog_head := rb_advance (klog_head s) (of_nat len)\<rparr>) })"

text \<open>
  A message is the bytes of a C string before its null byte, or a null pointer. The answer is the
  number of bytes stored.
\<close>

definition log_write_str :: "int \<Rightarrow> u8 list option \<Rightarrow> klog_state \<Rightarrow> (nat \<times> klog_state) option" where
  "log_write_str level msg s = (case msg of None \<Rightarrow> Some (0, s)
   | Some msg \<Rightarrow>
       let s = (case klog_console_sink s of None \<Rightarrow> s
                | Some sk \<Rightarrow> if level \<le> klog_console_level s
                            then sink_puts sk msg (console_emit_prefix level s) else s)
       in if \<not> klog_inited s then Some (0, s)
          else if level > klog_level s then Some (0, s)
          else do {
            let len = length msg;
            let max_payload = unat KLOG_RING_SIZE - hdr_size - 1;
            let len = (if len > max_payload then max_payload else len);
            let need = of_nat hdr_size + of_nat len;
            s \<leftarrow> (if rb_space s < need then rb_drop_oldest need s else Some s);
            s \<leftarrow> wr_hdr \<lparr>hdr_level = word_of_int level, hdr_len = of_nat len\<rparr> s;
            s \<leftarrow> wr_payload msg len s;
            Some (len, s) })"

definition rd_payload :: "nat \<Rightarrow> klog_state \<Rightarrow> u8 list option" where
  "rd_payload to_copy s =
     (if KLOG_RING_SIZE - klog_tail s \<ge> of_nat to_copy
      then ring_get (klog_ring s) (klog_tail s) to_copy
      else do {
        let first = unat (KLOG_RING_SIZE - klog_tail s);
        let first = (if first > to_copy then to_copy else first);
        a \<leftarrow> ring_get (klog_ring s) (klog_tail s) first;
        b \<leftarrow> (if to_copy > first then ring_get (klog_ring s) 0 (to_copy - first) else Some []);
        Some (a @ b) })"

text \<open>
  The answer, what is written to \<open>out_buf\<close> from its start (with the null byte) and to \<open>out_level\<close>
  (\<open>None\<close> where nothing is written), and the new state. \<open>out_buf_len\<close> is a C \<open>int\<close>.
\<close>

definition log_read :: "bool \<Rightarrow> int \<Rightarrow> bool \<Rightarrow> klog_state \<Rightarrow> (nat \<times> u8 list option \<times> int option \<times> klog_state) option" where
  "log_read out_buf out_buf_len out_level s =
     (if \<not> out_buf \<or> out_buf_len \<le> 0 then Some (0, None, None, s)
      else if \<not> klog_inited s then Some (0, None, None, s)
      else if klog_head s = klog_tail s then Some (0, None, None, s)
      else do {
        hr \<leftarrow> rd_hdr s;
        let s = s\<lparr>klog_tail := rb_advance (klog_tail s) (of_nat hdr_size)\<rparr>;
        let to_copy = unat (hdr_len hr);
        let to_copy = (if int to_copy > out_buf_len - 1 then nat (out_buf_len - 1) else to_copy);
        bs \<leftarrow> rd_payload to_copy s;
        let s = s\<lparr>klog_tail := rb_advance (klog_tail s) (ucast (hdr_len hr))\<rparr>;
        Some (to_copy, Some (bs @ [0]), (if out_level then Some (uint (hdr_level hr)) else None), s) })"

subsection \<open>Specification: a bounded queue of records\<close>

type_synonym klog_rec = "u8 \<times> u8 list"

definition rec_bytes :: "klog_rec \<Rightarrow> u8 list" where
  "rec_bytes r = hdr_bytes \<lparr>hdr_level = fst r, hdr_len = of_nat (length (snd r))\<rparr> @ snd r"

definition queue_bytes :: "klog_rec list \<Rightarrow> u8 list" where
  "queue_bytes q = concat (map rec_bytes q)"

definition queue_size :: "klog_rec list \<Rightarrow> nat" where
  "queue_size q = (\<Sum>r\<leftarrow>q. 3 + length (snd r))"

fun queue_drop :: "nat \<Rightarrow> klog_rec list \<Rightarrow> klog_rec list" where
  "queue_drop need [] = []"
| "queue_drop need (r # q) = (if 4095 < queue_size (r # q) + need then queue_drop need q else r # q)"

definition spec_write :: "u8 \<Rightarrow> u8 list \<Rightarrow> klog_rec list \<Rightarrow> klog_rec list" where
  "spec_write level msg q = (let p = take 4092 msg in queue_drop (3 + length p) q @ [(level, p)])"

definition console_write :: "int \<Rightarrow> u8 list \<Rightarrow> klog_state \<Rightarrow> klog_state" where
  "console_write level msg s = (case klog_console_sink s of None \<Rightarrow> s
   | Some sk \<Rightarrow> if level \<le> klog_console_level s
       then s\<lparr>console := console s @ map (Pair sk) (console_prefix level @ msg)\<rparr> else s)"

text \<open>\<open>n\<close> bytes of the ring from index \<open>t\<close>, going round.\<close>

definition ring_bytes :: "(nat \<Rightarrow> u8) \<Rightarrow> nat \<Rightarrow> nat \<Rightarrow> u8 list" where
  "ring_bytes r t n = map (\<lambda>i. r ((t + i) mod 4096)) [0..<n]"

definition klog_inv :: "klog_state \<Rightarrow> klog_rec list \<Rightarrow> bool" where
  "klog_inv s q \<longleftrightarrow> unat (klog_tail s) < 4096 \<and> queue_size q \<le> 4095 \<and>
     unat (klog_head s) = (unat (klog_tail s) + queue_size q) mod 4096 \<and>
     ring_bytes (klog_ring s) (unat (klog_tail s)) (queue_size q) = queue_bytes q"

text \<open>Several messages written, and several records read into a buffer of one size.\<close>

fun log_writes :: "(int \<times> u8 list) list \<Rightarrow> klog_state \<Rightarrow> klog_state option" where
  "log_writes [] s = Some s"
| "log_writes (m # ms) s = do { (n, s) \<leftarrow> log_write_str (fst m) (Some (snd m)) s; log_writes ms s }"

fun log_reads :: "nat \<Rightarrow> int \<Rightarrow> klog_state \<Rightarrow> (u8 list option \<times> int option) list option" where
  "log_reads 0 buf s = Some []"
| "log_reads (Suc k) buf s = do {
     (n, out, lv, s) \<leftarrow> log_read True buf True s;
     rest \<leftarrow> log_reads k buf s;
     Some ((out, lv) # rest) }"

text \<open>The static data before \<open>log_init\<close>.\<close>

definition klog_boot :: klog_state where
  "klog_boot = \<lparr>klog_ring = (\<lambda>_. 0), klog_head = 0, klog_tail = 0, klog_level = KLOG_INFO, klog_console_level = KLOG_INFO,
     klog_console_sink = Some Serial_putc, klog_inited = False, console = []\<rparr>"

section \<open>Lemmas\<close>

subsection \<open>Headers and records\<close>

lemma hdr_roundtrip: "hdr_of (hdr_bytes hr) = hr"
proof -
  have "(ucast (ucast (l :: u16) :: u8) :: u16) OR push_bit 8 (ucast (ucast (drop_bit 8 l) :: u8)) = l" for l
    by (rule bit_word_eqI) (auto simp: bit_simps)
  then show ?thesis by (simp add: hdr_of_def hdr_bytes_def)
qed

lemma hdr_of_append: "hdr_of (hdr_bytes hr @ bs) = hdr_of (hdr_bytes hr)"
  by (simp add: hdr_of_def hdr_bytes_def)

lemma length_hdr_bytes [simp]: "length (hdr_bytes hr) = 3"
  by (simp add: hdr_bytes_def)

lemma length_rec_bytes [simp]: "length (rec_bytes r) = 3 + length (snd r)"
  by (simp add: rec_bytes_def)

lemma queue_simps [simp]:
  "queue_bytes [] = []" "queue_bytes (r # q) = rec_bytes r @ queue_bytes q"
  "queue_bytes (p @ q) = queue_bytes p @ queue_bytes q"
  "queue_size [] = 0" "queue_size (r # q) = 3 + length (snd r) + queue_size q"
  "queue_size (p @ q) = queue_size p + queue_size q"
  by (simp_all add: queue_bytes_def queue_size_def)

lemma length_queue_bytes [simp]: "length (queue_bytes q) = queue_size q"
  by (induction q) auto

subsection \<open>The ring\<close>

lemma length_ring_bytes [simp]: "length (ring_bytes r t n) = n"
  by (simp add: ring_bytes_def)

lemma ring_bytes_add: "ring_bytes r t (m + n) = ring_bytes r t m @ ring_bytes r ((t + m) mod 4096) n"
  by (rule nth_equalityI) (auto simp: ring_bytes_def nth_append mod_simps algebra_simps)

lemma ring_bytes_straight: "t + n \<le> 4096 \<Longrightarrow> ring_bytes r t n = map r [t..<t + n]"
  by (rule nth_equalityI) (auto simp: ring_bytes_def)

lemma ring_size: "unat KLOG_RING_SIZE = 4096"
  by (simp add: KLOG_RING_SIZE_def)

lemma unat_to_end: "unat p < 4096 \<Longrightarrow> unat (KLOG_RING_SIZE - p) = 4096 - unat p"
  by (simp add: KLOG_RING_SIZE_def unat_sub word_le_nat_alt)

lemma unat_u32: "n < 2 ^ 32 \<Longrightarrow> unat (of_nat n :: u32) = n"
  by (simp add: unat_of_nat)

lemma rb_advance_unat:
  assumes "unat p < 4096" "n < 2 ^ 31"
  shows "unat (rb_advance p (of_nat n)) = (unat p + n) mod 4096"
proof -
  have "unat (of_nat n :: u32) = n" using assms(2) by (simp add: unat_of_nat take_bit_nat_eq_self)
  moreover from this have "unat (p + of_nat n) = unat p + n" using assms by (simp add: unat_plus_if_size word_size)
  ultimately show ?thesis by (simp add: rb_advance_def unat_mod KLOG_RING_SIZE_def)
qed

text \<open>A read that is split where the ring ends reads the bytes going round.\<close>

lemma ring_get_split:
  assumes "unat p < 4096" "n \<le> 4096"
  shows "(if n \<le> 4096 - unat p then ring_get r p n
          else do { a \<leftarrow> ring_get r p (4096 - unat p); b \<leftarrow> ring_get r 0 (n - (4096 - unat p)); Some (a @ b) })
         = Some (ring_bytes r (unat p) n)"
proof (cases "n \<le> 4096 - unat p")
  case True
  then show ?thesis using assms by (simp add: ring_get_def ring_size ring_bytes_straight)
next
  case False
  then have n: "n = (4096 - unat p) + (n - (4096 - unat p))" by simp
  have "ring_bytes r (unat p) n = ring_bytes r (unat p) (4096 - unat p) @ ring_bytes r 0 (n - (4096 - unat p))"
    using ring_bytes_add [of r "unat p" "4096 - unat p" "n - (4096 - unat p)", folded n] assms by simp
  with False assms show ?thesis by (simp add: ring_get_def ring_size ring_bytes_straight)
qed

text \<open>A write that is split there puts the bytes going round and leaves the rest alone.\<close>

lemma ring_put_split:
  assumes "unat p < 4096" "length bs \<le> 4095"
  shows "\<exists>r'. (if length bs \<le> 4096 - unat p then ring_put r p bs
      else do { r \<leftarrow> ring_put r p (take (4096 - unat p) bs); ring_put r 0 (drop (4096 - unat p) bs) }) = Some r' \<and>
    ring_bytes r' (unat p) (length bs) = bs \<and>
    (\<forall>t n. t < 4096 \<longrightarrow> unat p = (t + n) mod 4096 \<longrightarrow> n + length bs \<le> 4096 \<longrightarrow> ring_bytes r' t n = ring_bytes r t n)"
proof -
  let ?k = "\<lambda>j. (j + 4096 - unat p) mod 4096"
  let ?r = "\<lambda>j. if j < 4096 \<and> ?k j < length bs then bs ! ?k j else r j"
  have k: "?k j = (if unat p \<le> j then j - unat p else j + 4096 - unat p)" if "j < 4096" for j
    using assms(1) that by (auto simp: mod_if)
  have put: "(if length bs \<le> 4096 - unat p then ring_put r p bs
      else do { r \<leftarrow> ring_put r p (take (4096 - unat p) bs); ring_put r 0 (drop (4096 - unat p) bs) }) = Some ?r"
  proof (cases "length bs \<le> 4096 - unat p")
    case True
    with assms have "ring_put r p bs = Some (\<lambda>j. if unat p \<le> j \<and> j < unat p + length bs then bs ! (j - unat p) else r j)"
      by (simp add: ring_put_def ring_size)
    also have "\<dots> = Some ?r" using True assms(1) by (auto simp: fun_eq_iff k)
    finally show ?thesis using True by simp
  next
    case False
    let ?f = "4096 - unat p"
    have "ring_put r p (take ?f bs) = Some (\<lambda>j. if unat p \<le> j \<and> j < 4096 then take ?f bs ! (j - unat p) else r j)"
      using False assms by (auto simp: ring_put_def ring_size min_def)
    moreover have "ring_put r' 0 (drop ?f bs) = Some (\<lambda>j. if j < length bs - ?f then drop ?f bs ! j else r' j)" for r'
      using False assms by (auto simp: ring_put_def ring_size)
    moreover have "(\<lambda>j. if j < length bs - ?f then drop ?f bs ! j else
        if unat p \<le> j \<and> j < 4096 then take ?f bs ! (j - unat p) else r j) = ?r"
      using False assms by (auto simp: fun_eq_iff k add.commute)
    ultimately show ?thesis using False by simp
  qed
  have self: "ring_bytes ?r (unat p) (length bs) = bs"
  proof (rule nth_equalityI)
    fix i assume "i < length (ring_bytes ?r (unat p) (length bs))"
    then have i: "i < length bs" by simp
    have "?k ((unat p + i) mod 4096) = i" using k [of "(unat p + i) mod 4096"] assms i by (auto simp: mod_if)
    with i show "ring_bytes ?r (unat p) (length bs) ! i = bs ! i" by (simp add: ring_bytes_def)
  qed simp
  have other: "ring_bytes ?r t n = ring_bytes r t n"
    if t: "t < 4096" "unat p = (t + n) mod 4096" "n + length bs \<le> 4096" for t n
  proof (rule nth_equalityI)
    fix i assume "i < length (ring_bytes ?r t n)"
    then have i: "i < n" by simp
    have "length bs \<le> ?k ((t + i) mod 4096)"
      using k [of "(t + i) mod 4096"] t i by (auto simp: mod_if split: if_splits)
    with i show "ring_bytes ?r t n ! i = ring_bytes r t n ! i" by (simp add: ring_bytes_def)
  qed simp
  from put self other show ?thesis by blast
qed

subsection \<open>The code on the ring\<close>

lemma rb_space_unat:
  assumes "klog_inv s q"
  shows "unat (rb_space s) = 4095 - queue_size q"
proof -
  let ?h = "unat (klog_head s)" and ?t = "unat (klog_tail s)"
  have h: "?h = (if ?t + queue_size q < 4096 then ?t + queue_size q else ?t + queue_size q - 4096)" "?t < 4096" "queue_size q \<le> 4095"
    using assms by (auto simp: klog_inv_def mod_if)
  show ?thesis
  proof (cases "?t \<le> ?h")
    case True
    then have "unat (klog_head s - klog_tail s) = queue_size q" using h by (auto simp: unat_sub word_le_nat_alt split: if_splits)
    moreover from this have "unat (KLOG_RING_SIZE - (klog_head s - klog_tail s)) = 4096 - queue_size q"
      using h by (simp add: KLOG_RING_SIZE_def unat_sub word_le_nat_alt)
    ultimately show ?thesis using True h by (simp add: rb_space_def word_le_nat_alt unat_sub)
  next
    case False
    then have "unat (klog_tail s - klog_head s) = 4096 - queue_size q" using h
      by (auto simp: unat_sub word_le_nat_alt split: if_splits)
    with False h show ?thesis by (simp add: rb_space_def word_le_nat_alt unat_sub)
  qed
qed

lemma rd_hdr_spec:
  assumes "unat (klog_tail s) < 4096"
  shows "rd_hdr s = Some (hdr_of (ring_bytes (klog_ring s) (unat (klog_tail s)) 3))"
  using ring_get_split [OF assms, of 3 "klog_ring s"] assms
  by (auto simp: rd_hdr_def hdr_size_def unat_to_end Let_def bind_eq_Some_conv split: if_splits)

text \<open>Taking the oldest record off the queue is moving the tail over it.\<close>

lemma klog_inv_pop:
  assumes inv: "klog_inv s (r # q)" and ring: "klog_ring s' = klog_ring s" "klog_head s' = klog_head s"
    and tail: "unat (klog_tail s') = (unat (klog_tail s) + (3 + length (snd r))) mod 4096"
  shows "klog_inv s' q"
proof -
  have "ring_bytes (klog_ring s) (unat (klog_tail s)) (3 + length (snd r) + queue_size q) = rec_bytes r @ queue_bytes q"
    using inv by (simp add: klog_inv_def)
  then have "ring_bytes (klog_ring s) (unat (klog_tail s')) (queue_size q) = queue_bytes q"
    unfolding ring_bytes_add [of _ _ "3 + length (snd r)"] tail by simp
  moreover have "unat (klog_head s') = (unat (klog_tail s') + queue_size q) mod 4096"
    using inv tail ring by (simp add: klog_inv_def mod_simps add.assoc)
  ultimately show ?thesis using inv ring tail by (simp add: klog_inv_def)
qed

lemma klog_inv_hdr:
  assumes "klog_inv s (r # q)"
  shows "rd_hdr s = Some \<lparr>hdr_level = fst r, hdr_len = of_nat (length (snd r))\<rparr>"
    "unat (of_nat (length (snd r)) :: u16) = length (snd r)"
    "ring_bytes (klog_ring s) ((unat (klog_tail s) + 3) mod 4096) (length (snd r)) = snd r"
proof -
  let ?hr = "\<lparr>hdr_level = fst r, hdr_len = of_nat (length (snd r))\<rparr> :: klog_hdr"
  have "ring_bytes (klog_ring s) (unat (klog_tail s)) (3 + (length (snd r) + queue_size q)) = hdr_bytes ?hr @ snd r @ queue_bytes q"
    using assms by (simp add: klog_inv_def rec_bytes_def add.assoc)
  then have b: "ring_bytes (klog_ring s) (unat (klog_tail s)) 3 = hdr_bytes ?hr"
    "ring_bytes (klog_ring s) ((unat (klog_tail s) + 3) mod 4096) (length (snd r)) = snd r"
    unfolding ring_bytes_add by simp_all
  from b(1) show "rd_hdr s = Some ?hr"
    using rd_hdr_spec [of s] hdr_roundtrip [of ?hr] assms by (simp add: klog_inv_def)
  from b(2) show "ring_bytes (klog_ring s) ((unat (klog_tail s) + 3) mod 4096) (length (snd r)) = snd r" .
  show "unat (of_nat (length (snd r)) :: u16) = length (snd r)"
    using assms by (simp add: klog_inv_def unat_of_nat take_bit_nat_eq_self)
qed

text \<open>\<open>rb_drop_oldest\<close> ends: it drops records from the front until there is room.\<close>

lemma rb_drop_oldest_spec:
  assumes "klog_inv s q" "unat need \<le> 4095"
  shows "\<exists>t. rb_drop_oldest need s = Some (s\<lparr>klog_tail := t\<rparr>) \<and> klog_inv (s\<lparr>klog_tail := t\<rparr>) (queue_drop (unat need) q) \<and>
    queue_size (queue_drop (unat need) q) + unat need \<le> 4095"
  using assms
proof (induction q arbitrary: s)
  case Nil
  have "\<not> rb_space s < need" using rb_space_unat [OF Nil(1)] Nil(2) by (simp add: word_less_nat_alt)
  then show ?case using Nil by (subst rb_drop_oldest.simps) (auto intro!: exI [of _ "klog_tail s"])
next
  case (Cons r q)
  have sp: "rb_space s < need \<longleftrightarrow> 4095 < queue_size (r # q) + unat need"
    using rb_space_unat [OF Cons.prems(1)] Cons.prems(1) by (auto simp: word_less_nat_alt klog_inv_def)
  show ?case
  proof (cases "rb_space s < need")
    case False
    then show ?thesis using Cons.prems sp by (subst rb_drop_oldest.simps) (auto intro!: exI [of _ "klog_tail s"])
  next
    case True
    let ?n = "of_nat hdr_size + ucast (of_nat (length (snd r)) :: u16) :: u32"
    let ?s = "s\<lparr>klog_tail := rb_advance (klog_tail s) ?n\<rparr>"
    note h = klog_inv_hdr [OF Cons.prems(1)]
    have "(ucast (of_nat (length (snd r)) :: u16) :: u32) = of_nat (unat (of_nat (length (snd r)) :: u16))" by simp
    then have "?n = of_nat (3 + length (snd r))" unfolding h(2) by (simp add: hdr_size_def)
    then have "unat (klog_tail ?s) = (unat (klog_tail s) + (3 + length (snd r))) mod 4096"
      using Cons.prems(1) rb_advance_unat [of "klog_tail s" "3 + length (snd r)"] by (simp add: klog_inv_def)
    then have "klog_inv ?s q" by (intro klog_inv_pop [OF Cons.prems(1)]) simp_all
    from Cons.IH [OF this Cons.prems(2)] True sp h(1) show ?thesis
      by (subst rb_drop_oldest.simps) auto
  qed
qed

text \<open>Bytes appended at the head.\<close>

lemma ring_append:
  assumes "t < 4096" "unat p = (t + n) mod 4096" "n + length bs \<le> 4095"
  shows "\<exists>r'. (if length bs \<le> 4096 - unat p then ring_put r p bs
      else do { r \<leftarrow> ring_put r p (take (4096 - unat p) bs); ring_put r 0 (drop (4096 - unat p) bs) }) = Some r' \<and>
    ring_bytes r' t (n + length bs) = ring_bytes r t n @ bs"
proof -
  have "unat p < 4096" "length bs \<le> 4095" using assms by auto
  from ring_put_split [OF this, of r] obtain r' where
    r': "(if length bs \<le> 4096 - unat p then ring_put r p bs
      else do { r \<leftarrow> ring_put r p (take (4096 - unat p) bs); ring_put r 0 (drop (4096 - unat p) bs) }) = Some r'"
      "ring_bytes r' (unat p) (length bs) = bs" "ring_bytes r' t n = ring_bytes r t n"
    using assms by fastforce
  then have "ring_bytes r' t (n + length bs) = ring_bytes r t n @ bs"
    unfolding ring_bytes_add assms(2) [symmetric] by simp
  with r'(1) show ?thesis by blast
qed

lemma wr_hdr_spec:
  assumes "t < 4096" "unat (klog_head s) = (t + n) mod 4096" "n + 3 \<le> 4095"
  shows "\<exists>r'. wr_hdr hr s = Some (s\<lparr>klog_ring := r', klog_head := rb_advance (klog_head s) 3\<rparr>) \<and>
    ring_bytes r' t (n + 3) = ring_bytes (klog_ring s) t n @ hdr_bytes hr"
proof -
  have "unat (klog_head s) < 4096" using assms(2) by simp
  moreover from ring_append [of t "klog_head s" n "hdr_bytes hr" "klog_ring s"] assms obtain r' where
    "(if 3 \<le> 4096 - unat (klog_head s) then ring_put (klog_ring s) (klog_head s) (hdr_bytes hr)
      else do { r \<leftarrow> ring_put (klog_ring s) (klog_head s) (take (4096 - unat (klog_head s)) (hdr_bytes hr));
        ring_put r 0 (drop (4096 - unat (klog_head s)) (hdr_bytes hr)) }) = Some r'"
    "ring_bytes r' t (n + 3) = ring_bytes (klog_ring s) t n @ hdr_bytes hr" by auto
  ultimately show ?thesis
    by (intro exI [of _ r']) (auto simp: wr_hdr_def hdr_size_def unat_to_end Let_def bind_eq_Some_conv split: if_splits)
qed

lemma wr_payload_spec:
  assumes "t < 4096" "unat (klog_head s) = (t + n) mod 4096" "n + len \<le> 4095" "len \<le> length msg"
  shows "\<exists>r'. wr_payload msg len s = Some (s\<lparr>klog_ring := r', klog_head := rb_advance (klog_head s) (of_nat len)\<rparr>) \<and>
    ring_bytes r' t (n + len) = ring_bytes (klog_ring s) t n @ take len msg"
proof -
  have h: "unat (klog_head s) < 4096" using assms(2) by simp
  have l: "length (take len msg) = len" using assms(4) by simp
  have cmp: "KLOG_RING_SIZE - klog_head s \<ge> of_nat len \<longleftrightarrow> len \<le> 4096 - unat (klog_head s)"
    using assms(3) h by (simp add: word_le_nat_alt unat_to_end unat_of_nat take_bit_nat_eq_self)
  from ring_append [of t "klog_head s" n "take len msg" "klog_ring s"] assms l obtain r' where
    r': "(if len \<le> 4096 - unat (klog_head s) then ring_put (klog_ring s) (klog_head s) (take len msg)
      else do { r \<leftarrow> ring_put (klog_ring s) (klog_head s) (take (4096 - unat (klog_head s)) (take len msg));
        ring_put r 0 (drop (4096 - unat (klog_head s)) (take len msg)) }) = Some r'"
    "ring_bytes r' t (n + len) = ring_bytes (klog_ring s) t n @ take len msg" by auto
  show ?thesis
  proof (intro exI conjI)
    show "wr_payload msg len s = Some (s\<lparr>klog_ring := r', klog_head := rb_advance (klog_head s) (of_nat len)\<rparr>)"
      using r'(1) h by (auto simp: wr_payload_def cmp unat_to_end Let_def bind_eq_Some_conv drop_take min_def split: if_splits)
  qed (rule r'(2))
qed

lemma console_part:
  "(case klog_console_sink s of None \<Rightarrow> s
    | Some sk \<Rightarrow> if level \<le> klog_console_level s then sink_puts sk msg (console_emit_prefix level s) else s)
   = console_write level msg s"
  by (simp add: console_write_def console_emit_prefix_def sink_puts_def split: option.split)

lemma console_write_sel [simp]:
  "klog_ring (console_write level msg s) = klog_ring s" "klog_head (console_write level msg s) = klog_head s"
  "klog_tail (console_write level msg s) = klog_tail s" "klog_level (console_write level msg s) = klog_level s"
  "klog_inited (console_write level msg s) = klog_inited s"
  by (simp_all add: console_write_def split: option.split)

lemma klog_inv_console [simp]: "klog_inv (console_write level msg s) q = klog_inv s q"
  by (simp add: klog_inv_def)

text \<open>The part of \<open>log_write_str\<close> under the lock.\<close>

lemma log_store:
  assumes inv: "klog_inv s q" and q: "queue_size q + (3 + len) \<le> 4095" and len: "len \<le> length msg"
  shows "\<exists>r h. do { s \<leftarrow> wr_hdr \<lparr>hdr_level = level, hdr_len = of_nat len\<rparr> s; wr_payload msg len s }
      = Some (s\<lparr>klog_ring := r, klog_head := h\<rparr>) \<and>
    klog_inv (s\<lparr>klog_ring := r, klog_head := h\<rparr>) (q @ [(level, take len msg)])"
proof -
  let ?t = "unat (klog_tail s)" and ?n = "queue_size q"
  let ?hr = "\<lparr>hdr_level = level, hdr_len = of_nat len\<rparr> :: klog_hdr"
  have i: "?t < 4096" "unat (klog_head s) = (?t + ?n) mod 4096" "ring_bytes (klog_ring s) ?t ?n = queue_bytes q"
    using inv by (simp_all add: klog_inv_def)
  from wr_hdr_spec [OF i(1,2), of ?hr] q obtain r1 where
    r1: "wr_hdr ?hr s = Some (s\<lparr>klog_ring := r1, klog_head := rb_advance (klog_head s) 3\<rparr>)"
      "ring_bytes r1 ?t (?n + 3) = queue_bytes q @ hdr_bytes ?hr" using i(3) by auto
  define s1 where "s1 = s\<lparr>klog_ring := r1, klog_head := rb_advance (klog_head s) 3\<rparr>"
  have "unat (klog_head s) < 4096" using i(2) by simp
  from rb_advance_unat [OF this, of 3] have h1: "unat (klog_head s1) = (?t + (?n + 3)) mod 4096"
    using i(2) by (simp add: s1_def mod_simps add.assoc)
  from wr_payload_spec [OF i(1) h1 _ len] q r1(2) obtain r2 where
    r2: "wr_payload msg len s1 = Some (s1\<lparr>klog_ring := r2, klog_head := rb_advance (klog_head s1) (of_nat len)\<rparr>)"
      "ring_bytes r2 ?t (?n + 3 + len) = queue_bytes q @ hdr_bytes ?hr @ take len msg"
    by (auto simp: s1_def)
  let ?s = "s\<lparr>klog_ring := r2, klog_head := rb_advance (klog_head s1) (of_nat len)\<rparr>"
  have "unat (klog_head s1) < 4096" using h1 by simp
  from rb_advance_unat [OF this, of len] have "unat (klog_head ?s) = (?t + (?n + (3 + len))) mod 4096"
    using h1 q by (simp add: mod_simps add.assoc)
  moreover have "ring_bytes r2 ?t (?n + (3 + len)) = queue_bytes (q @ [(level, take len msg)])"
    using r2(2) len by (simp add: rec_bytes_def add.assoc)
  ultimately have "klog_inv ?s (q @ [(level, take len msg)])"
    using i(1) q len by (simp add: klog_inv_def)
  moreover have "do { s \<leftarrow> wr_hdr ?hr s; wr_payload msg len s } = Some ?s"
    using r1(1) r2(1) by (simp add: s1_def)
  ultimately show ?thesis by blast
qed

lemma log_write_stored:
  assumes inv: "klog_inv s q" and on: "klog_inited s" "level \<le> klog_level s"
  shows "\<exists>s'. log_write_str level (Some msg) s = Some (min (length msg) 4092, s') \<and>
    klog_inv s' (spec_write (word_of_int level) msg q) \<and> console s' = console (console_write level msg s) \<and>
    klog_inited s' \<and> klog_level s' = klog_level s"
proof -
  let ?c = "console_write level msg s" and ?len = "min (length msg) 4092"
  have need: "unat (of_nat hdr_size + of_nat ?len :: u32) = 3 + ?len"
  proof -
    have "(of_nat hdr_size + of_nat ?len :: u32) = of_nat (3 + ?len)" by (simp add: hdr_size_def)
    moreover have "3 + ?len < 2 ^ 32" by simp
    ultimately show ?thesis by (simp only: unat_u32)
  qed
  have "\<exists>t. (if rb_space ?c < of_nat hdr_size + of_nat ?len then rb_drop_oldest (of_nat hdr_size + of_nat ?len) ?c else Some ?c)
      = Some (?c\<lparr>klog_tail := t\<rparr>) \<and> klog_inv (?c\<lparr>klog_tail := t\<rparr>) (queue_drop (3 + ?len) q) \<and>
      queue_size (queue_drop (3 + ?len) q) + (3 + ?len) \<le> 4095"
  proof -
    from rb_drop_oldest_spec [of ?c q "of_nat hdr_size + of_nat ?len"] inv need obtain t where
      "rb_drop_oldest (of_nat hdr_size + of_nat ?len) ?c = Some (?c\<lparr>klog_tail := t\<rparr>) \<and>
       klog_inv (?c\<lparr>klog_tail := t\<rparr>) (queue_drop (3 + ?len) q) \<and> queue_size (queue_drop (3 + ?len) q) + (3 + ?len) \<le> 4095"
      by auto
    moreover have "rb_drop_oldest n c = Some c" if "\<not> rb_space c < n" for n c
      using that by (subst rb_drop_oldest.simps) simp
    ultimately show ?thesis by (intro exI [of _ t]) (metis (no_types, lifting))
  qed
  then obtain t where t: "(if rb_space ?c < of_nat hdr_size + of_nat ?len then rb_drop_oldest (of_nat hdr_size + of_nat ?len) ?c else Some ?c)
      = Some (?c\<lparr>klog_tail := t\<rparr>)" "klog_inv (?c\<lparr>klog_tail := t\<rparr>) (queue_drop (3 + ?len) q)"
      "queue_size (queue_drop (3 + ?len) q) + (3 + ?len) \<le> 4095" by blast
  from log_store [OF t(2,3), of msg "word_of_int level"] obtain r h where
    w: "do { s \<leftarrow> wr_hdr \<lparr>hdr_level = word_of_int level, hdr_len = of_nat ?len\<rparr> (?c\<lparr>klog_tail := t\<rparr>); wr_payload msg ?len s }
      = Some (?c\<lparr>klog_tail := t, klog_ring := r, klog_head := h\<rparr>)"
    "klog_inv (?c\<lparr>klog_tail := t, klog_ring := r, klog_head := h\<rparr>) (queue_drop (3 + ?len) q @ [(word_of_int level, take ?len msg)])"
    by auto
  let ?s = "?c\<lparr>klog_tail := t, klog_ring := r, klog_head := h\<rparr>"
  have len: "(if length msg > unat KLOG_RING_SIZE - hdr_size - 1 then unat KLOG_RING_SIZE - hdr_size - 1 else length msg) = ?len"
    by (simp add: ring_size hdr_size_def)
  have "log_write_str level (Some msg) s = Some (?len, ?s)"
  proof -
    from w(1) obtain s1 where "wr_hdr \<lparr>hdr_level = word_of_int level, hdr_len = of_nat ?len\<rparr> (?c\<lparr>klog_tail := t\<rparr>) = Some s1"
      "wr_payload msg ?len s1 = Some ?s" by (auto simp: bind_eq_Some_conv)
    then show ?thesis using on t(1) unfolding log_write_str_def option.case console_part Let_def len by simp
  qed
  moreover have "spec_write (word_of_int level) msg q = queue_drop (3 + ?len) q @ [(word_of_int level, take ?len msg)]"
    by (simp add: spec_write_def Let_def min_def)
  ultimately show ?thesis using w(2) on by (intro exI [of _ ?s]) simp
qed

lemma rd_payload_spec:
  assumes "unat (klog_tail s) < 4096" "n \<le> 4095"
  shows "rd_payload n s = Some (ring_bytes (klog_ring s) (unat (klog_tail s)) n)"
proof -
  have cmp: "KLOG_RING_SIZE - klog_tail s \<ge> of_nat n \<longleftrightarrow> n \<le> 4096 - unat (klog_tail s)"
    using assms by (simp add: word_le_nat_alt unat_to_end unat_u32)
  show ?thesis
    using ring_get_split [OF assms(1), of n "klog_ring s"] assms
    by (auto simp: rd_payload_def cmp unat_to_end Let_def bind_eq_Some_conv split: if_splits)
qed

lemma log_read_empty:
  "klog_inv s [] \<Longrightarrow> log_read out_buf buf out_level s = Some (0, None, None, s)"
  by (simp add: log_read_def klog_inv_def word_unat_eq_iff)

lemma log_read_pops:
  assumes inv: "klog_inv s (r # q)" and on: "klog_inited s" "0 < buf"
  defines "n \<equiv> min (length (snd r)) (nat (buf - 1))"
  shows "\<exists>s'. log_read True buf out_level s =
      Some (n, Some (take n (snd r) @ [0]), if out_level then Some (uint (fst r)) else None, s') \<and>
    klog_inv s' q \<and> s' = s\<lparr>klog_tail := klog_tail s'\<rparr>"
proof -
  let ?l = "length (snd r)"
  note h = klog_inv_hdr [OF inv]
  have i: "unat (klog_tail s) < 4096" "?l + 3 + queue_size q \<le> 4095" using inv by (auto simp: klog_inv_def)
  have ne: "klog_head s \<noteq> klog_tail s"
  proof
    assume "klog_head s = klog_tail s"
    then have "(unat (klog_tail s) + (3 + ?l + queue_size q)) mod 4096 = unat (klog_tail s)"
      using inv by (simp add: klog_inv_def)
    then show False using i by (auto simp: mod_if split: if_splits)
  qed
  define s1 where "s1 = s\<lparr>klog_tail := rb_advance (klog_tail s) (of_nat hdr_size)\<rparr>"
  have t1: "unat (klog_tail s1) = (unat (klog_tail s) + 3) mod 4096"
    using rb_advance_unat [OF i(1), of 3] by (simp add: s1_def hdr_size_def)
  have n: "(if int ?l > buf - 1 then nat (buf - 1) else ?l) = n" using on(2) by (auto simp: n_def min_def)
  have nl: "n \<le> ?l" by (simp add: n_def)
  have "rd_payload n s1 = Some (ring_bytes (klog_ring s) (unat (klog_tail s1)) n)"
    using rd_payload_spec [of s1 n] t1 i(2) nl by (simp add: s1_def)
  also have "ring_bytes (klog_ring s) (unat (klog_tail s1)) n = take n (snd r)"
  proof -
    have "ring_bytes (klog_ring s) (unat (klog_tail s1)) (n + (?l - n)) = snd r" using h(3) t1 nl by simp
    then have "take n (snd r) = take n (ring_bytes (klog_ring s) (unat (klog_tail s1)) (n + (?l - n)))" by simp
    then show ?thesis unfolding ring_bytes_add by simp
  qed
  finally have pl: "rd_payload n s1 = Some (take n (snd r))" .
  let ?s = "s\<lparr>klog_tail := rb_advance (klog_tail s1) (of_nat ?l)\<rparr>"
  have len: "(ucast (of_nat ?l :: u16) :: u32) = of_nat ?l"
    using h(2) by (metis of_nat_unat)
  have "unat (klog_tail s1) < 4096" using t1 by simp
  from rb_advance_unat [OF this, of ?l] have "unat (klog_tail ?s) = (unat (klog_tail s) + (3 + ?l)) mod 4096"
    using t1 i(2) by (simp add: mod_simps add.assoc)
  then have "klog_inv ?s q" by (intro klog_inv_pop [OF inv]) simp_all
  moreover have "log_read True buf out_level s =
      Some (n, Some (take n (snd r) @ [0]), if out_level then Some (uint (fst r)) else None, ?s)"
    unfolding log_read_def h(1) bind.bind_lunit Let_def klog_hdr.select_convs h(2) n len s1_def [symmetric] pl
    using on ne by (simp add: s1_def)
  ultimately show ?thesis by (intro exI [of _ ?s]) simp
qed

lemma queue_drop_suffix:
  "\<exists>d. q = d @ queue_drop need q \<and> (d \<noteq> [] \<longrightarrow> 4095 < queue_size (last d # queue_drop need q) + need)"
proof (induction q)
  case (Cons r q)
  show ?case
  proof (cases "4095 < queue_size (r # q) + need")
    case True
    from Cons.IH obtain d where d: "q = d @ queue_drop need q"
      "d \<noteq> [] \<longrightarrow> 4095 < queue_size (last d # queue_drop need q) + need" by blast
    from d have "r # q = (r # d) @ queue_drop need (r # q)" using True by simp
    moreover have "4095 < queue_size (last (r # d) # queue_drop need (r # q)) + need"
      using d True by (cases "d = []") auto
    ultimately show ?thesis by blast
  qed simp
qed simp

lemma queue_drop_fits: "queue_size q + need \<le> 4095 \<Longrightarrow> queue_drop need q = q"
  by (cases q) auto

lemma log_init_inv: "klog_inv (log_init s) []" "klog_inited (log_init s)" "klog_level (log_init s) = KLOG_INFO"
  by (simp_all add: log_init_def klog_inv_def ring_bytes_def)

lemma log_writes_store:
  assumes "klog_inv s q" "klog_inited s" "\<forall>m\<in>set ms. fst m \<le> klog_level s"
    and "queue_size q + (\<Sum>m\<leftarrow>ms. 3 + length (snd m)) \<le> 4095"
  shows "\<exists>s'. log_writes ms s = Some s' \<and> klog_inited s' \<and> klog_inv s' (q @ map (\<lambda>m. (word_of_int (fst m), snd m)) ms)"
  using assms
proof (induction ms arbitrary: s q)
  case (Cons m ms)
  have "fst m \<le> klog_level s" using Cons.prems(3) by simp
  from log_write_stored [OF Cons.prems(1,2) this, of "snd m"] obtain s1 where
    s1: "log_write_str (fst m) (Some (snd m)) s = Some (min (length (snd m)) 4092, s1)"
      "klog_inv s1 (spec_write (word_of_int (fst m)) (snd m) q)" "klog_inited s1" "klog_level s1 = klog_level s" by blast
  have "spec_write (word_of_int (fst m)) (snd m) q = q @ [(word_of_int (fst m), snd m)]"
    using Cons.prems(4) by (simp add: spec_write_def Let_def queue_drop_fits)
  with Cons.IH [of s1 "q @ [(word_of_int (fst m), snd m)]"] s1 Cons.prems show ?case by auto
qed auto

lemma log_reads_all:
  assumes "klog_inv s q" "klog_inited s" "\<forall>r\<in>set q. int (length (snd r)) < buf"
  shows "log_reads (length q) buf s = Some (map (\<lambda>r. (Some (snd r @ [0]), Some (uint (fst r)))) q)"
  using assms
proof (induction q arbitrary: s)
  case (Cons r q)
  have l: "int (length (snd r)) < buf" using Cons.prems(3) by simp
  then have "0 < buf" by linarith
  from log_read_pops [OF Cons.prems(1,2) this, of True] l obtain s' where
    s': "log_read True buf True s = Some (length (snd r), Some (snd r @ [0]), Some (uint (fst r)), s')"
      "klog_inv s' q" "s' = s\<lparr>klog_tail := klog_tail s'\<rparr>" by auto
  from s'(3) have "klog_inited s'" using Cons.prems(2) by (metis klog_state.select_convs(7) klog_state.surjective klog_state.update_convs(3))
  with s' Cons.IH [of s'] Cons.prems(3) show ?case by simp
qed simp

section \<open>Properties\<close>

text \<open>
  C37 A stored message: \<open>log_write_str\<close> leaves no array, ends, answers the number of bytes kept (at most
  4092), and the log then holds a suffix of its old records followed by the new one. Only as many of
  the oldest records are dropped as the new one needs room for.
\<close>

theorem log_write_str_queue:
  assumes "klog_inv s q" "klog_inited s" "level \<le> klog_level s"
  shows "\<exists>s' dropped kept. log_write_str level (Some msg) s = Some (min (length msg) 4092, s') \<and>
    q = dropped @ kept \<and> klog_inv s' (kept @ [(word_of_int level, take 4092 msg)]) \<and>
    (dropped \<noteq> [] \<longrightarrow> 4095 < queue_size (last dropped # kept) + (3 + min (length msg) 4092))"
proof -
  let ?n = "3 + min (length msg) 4092"
  from queue_drop_suffix [of q ?n] obtain d where
    "q = d @ queue_drop ?n q" "d \<noteq> [] \<longrightarrow> 4095 < queue_size (last d # queue_drop ?n q) + ?n" by blast
  moreover have "spec_write (word_of_int level) msg q = queue_drop ?n q @ [(word_of_int level, take 4092 msg)]"
    by (simp add: spec_write_def Let_def)
  ultimately show ?thesis using log_write_stored [OF assms, of msg] by metis
qed

theorem log_write_str_queue_witness:
  "\<exists>s'. log_write_str 3 (Some [72, 105]) (log_init klog_boot) = Some (2, s') \<and> klog_inv s' [(3, [72, 105])]"
proof -
  have "(3::int) \<le> klog_level (log_init klog_boot)" by (simp add: log_init_def KLOG_INFO_def)
  from log_write_str_queue [OF log_init_inv(1,2) this, of "[72, 105]"] show ?thesis by auto
qed

text \<open>
  \<open>log_read\<close> takes the oldest record off the log: it writes to the buffer as much of the message as
  fits before a null byte, never more than the buffer holds, answers that length and the level, and
  leaves the other records as they were.
\<close>

theorem log_read_queue:
  assumes "klog_inv s (r # q)" "klog_inited s" "0 < buf"
  shows "\<exists>n out s'. log_read True buf True s = Some (n, Some (out @ [0]), Some (uint (fst r)), s') \<and>
    out = take n (snd r) \<and> n = min (length (snd r)) (nat (buf - 1)) \<and> int (length (out @ [0])) \<le> buf \<and> klog_inv s' q"
  using log_read_pops [OF assms, of True] assms(3) by auto

theorem log_read_queue_witness:
  "\<exists>s n out s'. klog_inv s [(3, [72, 105])] \<and> log_read True 2 True s = Some (n, Some (out @ [0]), Some 3, s') \<and>
    out = [72] \<and> klog_inv s' []"
proof -
  have "(3::int) \<le> klog_level (log_init klog_boot)" by (simp add: log_init_def KLOG_INFO_def)
  from log_write_stored [OF log_init_inv(1,2) this, of "[72, 105]"] obtain s where
    s: "klog_inv s [(3, [72, 105])]" "klog_inited s" by (auto simp: spec_write_def)
  from log_read_queue [OF s, of 2] s(1) show ?thesis by auto
qed

text \<open>
  C38 Messages that fit in the ring together come back in the order they were written, whole and with
  their levels, each with its null byte.
\<close>

theorem log_fifo:
  assumes "\<forall>m\<in>set ms. 0 \<le> fst m \<and> fst m \<le> KLOG_INFO \<and> int (length (snd m)) < buf"
    and "(\<Sum>m\<leftarrow>ms. 3 + length (snd m)) \<le> 4095"
  shows "\<exists>s'. log_writes ms (log_init s) = Some s' \<and>
    log_reads (length ms) buf s' = Some (map (\<lambda>m. (Some (snd m @ [0]), Some (fst m))) ms)"
proof -
  let ?q = "map (\<lambda>m. (word_of_int (fst m), snd m)) ms :: klog_rec list"
  have "\<forall>m\<in>set ms. fst m \<le> klog_level (log_init s)" using assms(1) log_init_inv(3) by simp
  from log_writes_store [OF log_init_inv(1,2) this] assms(2) obtain s' where
    s': "log_writes ms (log_init s) = Some s'" "klog_inited s'" "klog_inv s' ?q" by auto
  have "uint (word_of_int (fst m) :: u8) = fst m" if "m \<in> set ms" for m
  proof -
    have "0 \<le> fst m" "fst m < 2 ^ 8" using assms(1) that by (auto simp: KLOG_INFO_def)
    then show ?thesis by (simp add: uint_word_of_int)
  qed
  then have "map (\<lambda>r. (Some (snd r @ [0]), Some (uint (fst r)))) ?q = map (\<lambda>m. (Some (snd m @ [0]), Some (fst m))) ms"
    by simp
  with log_reads_all [OF s'(3,2), of buf] assms(1) s'(1) show ?thesis by auto
qed

theorem log_fifo_witness:
  "\<exists>s'. log_writes [(3, [72, 105]), (6, [])] (log_init klog_boot) = Some s' \<and>
    log_reads 2 16 s' = Some [(Some [72, 105, 0], Some 3), (Some [0], Some 6)]"
  using log_fifo [of "[(3, [72, 105]), (6, [])]" 16 klog_boot] by (simp add: KLOG_INFO_def numeral_2_eq_2)

text \<open>
  The console and the ring are filtered apart: a message reaches the sink, after its level prefix,
  exactly when there is a sink and the level passes the console level; before \<open>log_init\<close>, or when the
  level does not pass the ring's level, nothing else changes and the answer is 0.
\<close>

theorem log_write_str_console_only:
  assumes "\<not> klog_inited s \<or> klog_level s < level"
  shows "log_write_str level (Some msg) s = Some (0, case klog_console_sink s of None \<Rightarrow> s
    | Some sk \<Rightarrow> if level \<le> klog_console_level s
        then s\<lparr>console := console s @ map (Pair sk) (console_prefix level @ msg)\<rparr> else s)"
  unfolding log_write_str_def option.case console_part Let_def console_write_def [symmetric]
  using assms by auto

theorem log_write_str_console_only_witness:
  "log_write_str 3 (Some [72]) klog_boot =
     Some (0, klog_boot\<lparr>console := [(Serial_putc, 60), (Serial_putc, 51), (Serial_putc, 62), (Serial_putc, 72)]\<rparr>)"
proof -
  have "\<not> klog_inited klog_boot \<or> klog_level klog_boot < 3" by (simp add: klog_boot_def)
  from log_write_str_console_only [OF this, of "[72]"] show ?thesis
    by (simp add: klog_boot_def console_prefix_def KLOG_INFO_def)
qed

end
