(* ===== verification/Printk.thy ===== *)
theory Printk
  imports Klog CString
begin

text \<open>
  \<open>src/kernel/printk.c\<close>: the formatter \<open>do_printf\<close>, the buffer of 512 bytes it writes to, and the functions that hand
  the buffer to the log. The arguments behind the format are a list; taking one that is not there or
  not of the type that is asked for is undefined, as is an overflow of an \<open>int\<close> and an access outside an array:
  all of this is \<open>None\<close>. The specification is a function from the format string and the arguments to a
  text; the code logs the first 511 bytes of this text and answers its length.
\<close>

section \<open>Definitions\<close>

definition STDOUT_FD :: int where "STDOUT_FD = 1"
definition STDERR_FD :: int where "STDERR_FD = 2"
definition KLOG_ERR :: int where "KLOG_ERR = 3"

text \<open>An argument: \<open>int\<close> or \<open>unsigned int\<close>, \<open>int64_t\<close> or \<open>uint64_t\<close>, or a pointer.\<close>

datatype va = Va_int u32 | Va_long u64 | Va_ptr u64

fun va_int :: "va list \<Rightarrow> (u32 \<times> va list) option" where
  "va_int (Va_int v # as) = Some (v, as)"
| "va_int _ = None"

fun va_long :: "va list \<Rightarrow> (u64 \<times> va list) option" where
  "va_long (Va_long v # as) = Some (v, as)"
| "va_long _ = None"

fun va_ptr :: "va list \<Rightarrow> (u64 \<times> va list) option" where
  "va_ptr (Va_ptr p # as) = Some (p, as)"
| "va_ptr _ = None"

subsection \<open>The buffer\<close>

definition PRINTK_BUF_SIZE :: nat where "PRINTK_BUF_SIZE = 512"

text \<open>\<open>printk_buf_ptr\<close> as an index.\<close>

record pk_buf =
  printk_buf :: "nat \<Rightarrow> u8"
  printk_buf_ptr :: nat
  printk_buf_rem :: int

definition buf_store :: "nat \<Rightarrow> u8 \<Rightarrow> pk_buf \<Rightarrow> pk_buf option" where
  "buf_store i c b = (if i < PRINTK_BUF_SIZE then Some (b\<lparr>printk_buf := (printk_buf b)(i := c)\<rparr>) else None)"

definition buf_putc :: "u8 \<Rightarrow> pk_buf \<Rightarrow> pk_buf option" where
  "buf_putc c b =
     (if printk_buf_rem b > 1 then do {
        b \<leftarrow> buf_store (printk_buf_ptr b) c b;
        Some (b\<lparr>printk_buf_ptr := printk_buf_ptr b + 1, printk_buf_rem := printk_buf_rem b - 1\<rparr>)
      } else Some b)"

subsection \<open>The formatter\<close>

text \<open>\<open>output(c); count++;\<close> on the count and the state of the output.\<close>

type_synonym 's out = "u8 \<Rightarrow> 's \<Rightarrow> 's option"

definition add_count :: "nat \<Rightarrow> nat \<Rightarrow> nat option" where
  "add_count k count = (if count + k < 2 ^ 31 then Some (count + k) else None)"

definition put :: "'s out \<Rightarrow> u8 \<Rightarrow> nat \<times> 's \<Rightarrow> (nat \<times> 's) option" where
  "put output c st = do {
     s \<leftarrow> output c (snd st);
     count \<leftarrow> add_count 1 (fst st);
     Some (count, s) }"

text \<open>\<open>output(c); output(d); count += 2;\<close>\<close>

definition put2 :: "'s out \<Rightarrow> u8 \<Rightarrow> u8 \<Rightarrow> nat \<times> 's \<Rightarrow> (nat \<times> 's) option" where
  "put2 output c d st = do {
     s \<leftarrow> output c (snd st);
     s \<leftarrow> output d s;
     count \<leftarrow> add_count 2 (fst st);
     Some (count, s) }"

text \<open>\<open>while (i > 0) { output(buf[--i]); count++; }\<close>, for the bytes \<open>buf\<close> of the local array from the last on\<close>

fun put_rev :: "'s out \<Rightarrow> u8 list \<Rightarrow> nat \<times> 's \<Rightarrow> (nat \<times> 's) option" where
  "put_rev output [] st = Some st"
| "put_rev output (c # buf) st = Option.bind (put output c st) (put_rev output buf)"

text \<open>The loops that fill the array \<open>buf\<close> of \<open>cap\<close> bytes; the newest byte is the first of the list.\<close>

definition push :: "nat \<Rightarrow> u8 \<Rightarrow> u8 list \<Rightarrow> u8 list option" where
  "push cap c buf = (if length buf < cap then Some (c # buf) else None)"

fun dec_fill :: "nat \<Rightarrow> nat \<Rightarrow> u8 list \<Rightarrow> u8 list option" where
  "dec_fill cap val buf =
     (if val > 0 then Option.bind (push cap (48 + of_nat (val mod 10)) buf) (dec_fill cap (val div 10))
      else Some buf)"

fun hex_fill :: "nat \<Rightarrow> nat \<Rightarrow> u8 list \<Rightarrow> u8 list option" where
  "hex_fill cap val buf =
     (if val > 0 then
        let digit = val mod 16
        in Option.bind (push cap (if digit < 10 then 48 + of_nat digit else 97 + of_nat digit - 10) buf) (hex_fill cap (val div 16))
      else Some buf)"

declare dec_fill.simps [simp del] hex_fill.simps [simp del]

definition put_dec :: "'s out \<Rightarrow> nat \<Rightarrow> nat \<Rightarrow> nat \<times> 's \<Rightarrow> (nat \<times> 's) option" where
  "put_dec output cap val st = do {
     buf \<leftarrow> (if val = 0 then push cap 48 [] else dec_fill cap val []);
     put_rev output buf st }"

definition put_hex :: "'s out \<Rightarrow> nat \<Rightarrow> nat \<Rightarrow> nat \<times> 's \<Rightarrow> (nat \<times> 's) option" where
  "put_hex output cap val st = do {
     buf \<leftarrow> (if val = 0 then push cap 48 [] else hex_fill cap val []);
     put_rev output buf st }"

text \<open>A signed number of \<open>w\<close> bits; the negative of the least one is not a number of this type.\<close>

definition put_signed :: "'s out \<Rightarrow> nat \<Rightarrow> nat \<Rightarrow> int \<Rightarrow> nat \<times> 's \<Rightarrow> (nat \<times> 's) option" where
  "put_signed output w cap val st =
     (if val < 0 then do {
        st \<leftarrow> put output 45 st;
        if - val < 2 ^ (w - 1) then put_dec output cap (nat (- val)) st else None
      } else put_dec output cap (nat val) st)"

text \<open>\<open>while (*str) { output(*str++); count++; }\<close>\<close>

partial_function (option) put_str :: "'s out \<Rightarrow> reader \<Rightarrow> nat \<Rightarrow> nat \<times> 's \<Rightarrow> (nat \<times> 's) option" where
  "put_str output str i st = Option.bind (str i) (\<lambda>c.
     if c \<noteq> 0 then Option.bind (put output c st) (put_str output str (Suc i)) else Some st)"

text \<open>"(null)"\<close>

definition null_str :: "u8 list" where
  "null_str = [40, 110, 117, 108, 108, 41]"

text \<open>The cases of the \<open>switch\<close>; \<open>i\<close> is the index of the conversion character \<open>c\<close>, the answer has the index of the
  last character that was used.\<close>

definition conv_l ::
  "'s out \<Rightarrow> reader \<Rightarrow> nat \<Rightarrow> va list \<Rightarrow> nat \<times> 's \<Rightarrow> (nat \<times> va list \<times> nat \<times> 's) option" where
  "conv_l output fmt i args st = do {
     a \<leftarrow> fmt (i + 1);
     if a = 108 then do {
       b \<leftarrow> fmt (i + 2);
       if b = 117 then do {
         (val, args) \<leftarrow> va_long args;
         st \<leftarrow> put_dec output 24 (unat val) st;
         Some (i + 2, args, st)
       } else if b = 100 then do {
         (val, args) \<leftarrow> va_long args;
         st \<leftarrow> put_signed output 64 24 (sint val) st;
         Some (i + 2, args, st)
       } else Some (i, args, st)
     } else Some (i, args, st) }"

definition conv ::
  "'s out \<Rightarrow> cmem \<Rightarrow> reader \<Rightarrow> nat \<Rightarrow> u8 \<Rightarrow> va list \<Rightarrow> nat \<times> 's \<Rightarrow> (nat \<times> va list \<times> nat \<times> 's) option" where
  "conv output m fmt i c args st =
     (if c = 117 then do {
        (val, args) \<leftarrow> va_int args;
        st \<leftarrow> put_dec output 12 (unat val) st;
        Some (i, args, st)
      } else if c = 100 then do {
        (val, args) \<leftarrow> va_int args;
        st \<leftarrow> put_signed output 32 12 (sint val) st;
        Some (i, args, st)
      } else if c = 108 then conv_l output fmt i args st
      else if c = 120 then do {
        (val, args) \<leftarrow> va_int args;
        st \<leftarrow> put_hex output 9 (unat val) st;
        Some (i, args, st)
      } else if c = 112 then do {
        (p, args) \<leftarrow> va_ptr args;
        st \<leftarrow> put2 output 48 120 st;
        st \<leftarrow> put_hex output 17 (unat p) st;
        Some (i, args, st)
      } else if c = 115 then do {
        (p, args) \<leftarrow> va_ptr args;
        st \<leftarrow> put_str output (if p = 0 then lit null_str else at m p) 0 st;
        Some (i, args, st)
      } else if c = 99 then do {
        (val, args) \<leftarrow> va_int args;
        st \<leftarrow> put output (ucast val) st;
        Some (i, args, st)
      } else if c = 37 then do {
        st \<leftarrow> put output 37 st;
        Some (i, args, st)
      } else do {
        st \<leftarrow> put2 output 37 c st;
        Some (i, args, st) })"

text \<open>One round of \<open>while (*fmt)\<close> for \<open>*fmt = c\<close>: \<open>*fmt == '%' && *(fmt + 1)\<close> reads the next character only after
  a percent sign.\<close>

definition fmt_step ::
  "'s out \<Rightarrow> cmem \<Rightarrow> reader \<Rightarrow> nat \<Rightarrow> u8 \<Rightarrow> va list \<Rightarrow> nat \<times> 's \<Rightarrow> (nat \<times> va list \<times> nat \<times> 's) option" where
  "fmt_step output m fmt i c args st = do {
     d \<leftarrow> (if c = 37 then fmt (i + 1) else Some 0);
     if d \<noteq> 0 then conv output m fmt (i + 1) d args st
     else do {
       st \<leftarrow> put output c st;
       Some (i, args, st) } }"

partial_function (option) printf_loop ::
  "'s out \<Rightarrow> cmem \<Rightarrow> reader \<Rightarrow> nat \<Rightarrow> va list \<Rightarrow> nat \<times> 's \<Rightarrow> (nat \<times> 's) option" where
  "printf_loop output m fmt i args st = Option.bind (fmt i) (\<lambda>c.
     if c \<noteq> 0 then Option.bind (fmt_step output m fmt i c args st) (\<lambda>r.
       printf_loop output m fmt (fst r + 1) (fst (snd r)) (snd (snd r)))
     else Some st)"

text \<open>Both pointers may be null; the answer is then -1.\<close>

definition do_printf :: "'s out option \<Rightarrow> cmem \<Rightarrow> reader option \<Rightarrow> va list \<Rightarrow> 's \<Rightarrow> (int \<times> 's) option" where
  "do_printf output m fmt args s = (case (output, fmt) of
     (Some output, Some fmt) \<Rightarrow> do {
       (count, s) \<leftarrow> printf_loop output m fmt 0 args (0, s);
       Some (int count, s) }
   | _ \<Rightarrow> Some (-1, s))"

subsection \<open>The functions that print\<close>

record pk_state =
  pk_buf :: pk_buf
  pk_log :: klog_state

text \<open>The C string at the start of the buffer.\<close>

definition buf_string :: "pk_buf \<Rightarrow> u8 list" where
  "buf_string b = takeWhile (\<lambda>c. c \<noteq> 0) (map (printk_buf b) [0..<PRINTK_BUF_SIZE])"

definition printk_vroute :: "int \<Rightarrow> cmem \<Rightarrow> reader option \<Rightarrow> va list \<Rightarrow> pk_state \<Rightarrow> (int \<times> pk_state) option" where
  "printk_vroute level m fmt args s = do {
     let b = (pk_buf s)\<lparr>printk_buf_ptr := 0, printk_buf_rem := int PRINTK_BUF_SIZE\<rparr>;
     (cnt, b) \<leftarrow> do_printf (Some buf_putc) m fmt args b;
     b \<leftarrow> buf_store (printk_buf_ptr b) 0 b;
     (_, l) \<leftarrow> log_write_str level (Some (buf_string b)) (pk_log s);
     Some (cnt, \<lparr>pk_buf = b, pk_log = l\<rparr>) }"

definition vfprintk :: "int \<Rightarrow> cmem \<Rightarrow> reader option \<Rightarrow> va list \<Rightarrow> pk_state \<Rightarrow> (int \<times> pk_state) option" where
  "vfprintk fd m fmt args s =
     (if fmt = None then Some (-1, s)
      else let level = (if fd = STDERR_FD then KLOG_ERR else KLOG_INFO)
           in printk_vroute level m fmt args s)"

definition vprintk :: "cmem \<Rightarrow> reader option \<Rightarrow> va list \<Rightarrow> pk_state \<Rightarrow> (int \<times> pk_state) option" where
  "vprintk m fmt args s = vfprintk STDOUT_FD m fmt args s"

text \<open>The variadic functions collect their arguments and pass them on.\<close>

definition fprintk :: "int \<Rightarrow> cmem \<Rightarrow> reader option \<Rightarrow> va list \<Rightarrow> pk_state \<Rightarrow> (int \<times> pk_state) option" where
  "fprintk fd m fmt args s = vfprintk fd m fmt args s"

definition printk :: "cmem \<Rightarrow> reader option \<Rightarrow> va list \<Rightarrow> pk_state \<Rightarrow> (int \<times> pk_state) option" where
  "printk m fmt args s = vprintk m fmt args s"

text \<open>\<open>while (*fmt) serial_putc(*fmt++);\<close>\<close>

partial_function (option) serial_puts_from :: "reader \<Rightarrow> nat \<Rightarrow> klog_state \<Rightarrow> klog_state option" where
  "serial_puts_from fmt i l = Option.bind (fmt i) (\<lambda>c.
     if c \<noteq> 0 then serial_puts_from fmt (Suc i) (sink_puts Serial_putc [c] l) else Some l)"

definition printk_simple :: "reader option \<Rightarrow> pk_state \<Rightarrow> (int \<times> pk_state) option" where
  "printk_simple fmt s = (case fmt of None \<Rightarrow> Some (-1, s)
   | Some fmt \<Rightarrow> do {
       l \<leftarrow> serial_puts_from fmt 0 (pk_log s);
       Some (0, s\<lparr>pk_log := l\<rparr>) })"

definition printk_init :: "pk_state \<Rightarrow> pk_state" where
  "printk_init s = s\<lparr>pk_log := log_init (pk_log s)\<rparr>"


subsection \<open>Specification\<close>

text \<open>Decimal and hexadecimal notation.\<close>

fun dec_text :: "nat \<Rightarrow> u8 list" where
  "dec_text n = (if n < 10 then [48 + of_nat n] else dec_text (n div 10) @ [48 + of_nat (n mod 10)])"

definition hex_digit :: "nat \<Rightarrow> u8" where
  "hex_digit d = (if d < 10 then 48 + of_nat d else 97 + of_nat d - 10)"

fun hex_text :: "nat \<Rightarrow> u8 list" where
  "hex_text n = (if n < 16 then [hex_digit n] else hex_text (n div 16) @ [hex_digit (n mod 16)])"

declare dec_text.simps [simp del] hex_text.simps [simp del]

definition int_text :: "int \<Rightarrow> u8 list" where
  "int_text v = (if v < 0 then 45 # dec_text (nat (- v)) else dec_text (nat v))"

text \<open>The parts of a format string.\<close>

datatype item = Text "u8 list" | Unsigned | Signed | Long_unsigned | Long_signed | Hex | Pointer | String | Char

definition conv_item :: "u8 \<Rightarrow> item" where
  "conv_item d = (if d = 117 then Unsigned else if d = 100 then Signed else if d = 120 then Hex
     else if d = 112 then Pointer else if d = 115 then String else if d = 99 then Char
     else if d = 37 then Text [37] else Text [37, d])"

function items :: "u8 list \<Rightarrow> item list" where
  "items [] = []"
| "items [c] = [Text [c]]"
| "items (c # d # f) =
     (if c \<noteq> 37 then Text [c] # items (d # f)
      else if d \<noteq> 108 then conv_item d # items f
      else if take 2 f = [108, 117] then Long_unsigned # items (drop 2 f)
      else if take 2 f = [108, 100] then Long_signed # items (drop 2 f) else items f)"
  by pat_completeness auto
termination by (relation "measure length") auto

text \<open>What a part prints, and the arguments that are left; \<open>strs\<close> are the strings in memory.\<close>

fun item_text :: "(u64 \<Rightarrow> u8 list option) \<Rightarrow> item \<Rightarrow> va list \<Rightarrow> (u8 list \<times> va list) option" where
  "item_text strs (Text t) as = Some (t, as)"
| "item_text strs Unsigned (Va_int v # as) = Some (dec_text (unat v), as)"
| "item_text strs Signed (Va_int v # as) = (if sint v = - (2 ^ 31) then None else Some (int_text (sint v), as))"
| "item_text strs Long_unsigned (Va_long v # as) = Some (dec_text (unat v), as)"
| "item_text strs Long_signed (Va_long v # as) = (if sint v = - (2 ^ 63) then None else Some (int_text (sint v), as))"
| "item_text strs Hex (Va_int v # as) = Some (hex_text (unat v), as)"
| "item_text strs Pointer (Va_ptr p # as) = Some (48 # 120 # hex_text (unat p), as)"
| "item_text strs String (Va_ptr p # as) = map_option (\<lambda>t. (t, as)) (if p = 0 then Some null_str else strs p)"
| "item_text strs Char (Va_int v # as) = Some ([ucast v], as)"
| "item_text strs _ _ = None"

fun items_text :: "(u64 \<Rightarrow> u8 list option) \<Rightarrow> item list \<Rightarrow> va list \<Rightarrow> u8 list option" where
  "items_text strs [] as = Some []"
| "items_text strs (x # xs) as = do {
     (t, as) \<leftarrow> item_text strs x as;
     u \<leftarrow> items_text strs xs as;
     Some (t @ u) }"

fun_cases item_textE [elim!]: "item_text strs Unsigned as = Some y" "item_text strs Signed as = Some y"
  "item_text strs Long_unsigned as = Some y" "item_text strs Long_signed as = Some y" "item_text strs Hex as = Some y"
  "item_text strs Pointer as = Some y" "item_text strs String as = Some y" "item_text strs Char as = Some y"

section \<open>Lemmas\<close>

subsection \<open>Numbers\<close>

lemma push_room [simp]: "length buf < cap \<Longrightarrow> push cap c buf = Some (c # buf)"
  by (simp add: push_def)

lemma dec_text_ne [simp]: "dec_text n \<noteq> []" "hex_text n \<noteq> []"
  by (simp_all add: dec_text.simps [of n] hex_text.simps [of n])

lemma dec_fill_text:
  "0 < n \<Longrightarrow> length (dec_text n) + length buf \<le> cap \<Longrightarrow> dec_fill cap n buf = Some (dec_text n @ buf)"
proof (induction n arbitrary: buf rule: dec_text.induct)
  case (1 n)
  show ?case
  proof (cases "n < 10")
    case True
    then have "dec_text n = [48 + of_nat n]" "n div 10 = 0" "n mod 10 = n" by (simp_all add: dec_text.simps [of n])
    then show ?thesis using "1.prems" by (simp add: dec_fill.simps [of cap n] dec_fill.simps [of cap 0])
  next
    case False
    then have t: "dec_text n = dec_text (n div 10) @ [48 + of_nat (n mod 10)]" "0 < n div 10" by (simp_all add: dec_text.simps [of n])
    with "1.prems" show ?thesis by (simp add: dec_fill.simps [of cap n] "1.IH" [OF False])
  qed
qed

lemma hex_fill_text:
  "0 < n \<Longrightarrow> length (hex_text n) + length buf \<le> cap \<Longrightarrow> hex_fill cap n buf = Some (hex_text n @ buf)"
proof (induction n arbitrary: buf rule: hex_text.induct)
  case (1 n)
  show ?case
  proof (cases "n < 16")
    case True
    then have "hex_text n = [hex_digit n]" "n div 16 = 0" "n mod 16 = n" by (simp_all add: hex_text.simps [of n])
    then show ?thesis using "1.prems" by (simp add: hex_fill.simps [of cap n] hex_fill.simps [of cap 0] hex_digit_def)
  next
    case False
    then have t: "hex_text n = hex_text (n div 16) @ [hex_digit (n mod 16)]" "0 < n div 16" by (simp_all add: hex_text.simps [of n])
    with "1.prems" show ?thesis by (simp add: hex_fill.simps [of cap n] "1.IH" [OF False] Let_def hex_digit_def [symmetric])
  qed
qed

lemma dec_text_length: "n < 10 ^ Suc k \<Longrightarrow> length (dec_text n) \<le> Suc k"
proof (induction k arbitrary: n)
  case (Suc k)
  then have "n div 10 < 10 ^ Suc k" by (simp add: div_less_iff_less_mult mult.commute)
  with Suc.IH show ?case by (simp add: dec_text.simps [of n])
qed (subst dec_text.simps, simp)

lemma hex_text_length: "n < 16 ^ Suc k \<Longrightarrow> length (hex_text n) \<le> Suc k"
proof (induction k arbitrary: n)
  case (Suc k)
  then have "n div 16 < 16 ^ Suc k" by (simp add: div_less_iff_less_mult mult.commute)
  with Suc.IH show ?case by (simp add: hex_text.simps [of n])
qed (subst hex_text.simps, simp)

text \<open>The arrays are large enough.\<close>

lemma sint_range: "\<bar>sint (x :: u32)\<bar> \<le> 2 ^ 31" "\<bar>sint (y :: u64)\<bar> \<le> 2 ^ 63"
  using sint_greater_eq [of x] sint_less [of x] sint_greater_eq [of y] sint_less [of y] by (simp_all add: abs_le_iff)

lemma number_lengths:
  "length (dec_text (unat (x :: u32))) \<le> 12" "length (dec_text (unat (y :: u64))) \<le> 24"
  "length (hex_text (unat x)) \<le> 9" "length (hex_text (unat y)) \<le> 17"
  "length (dec_text (nat \<bar>sint x\<bar>)) \<le> 12" "length (dec_text (nat \<bar>sint y\<bar>)) \<le> 24"
proof -
  have x: "unat x < 2 ^ 32" "unat y < 2 ^ 64" using unsigned_less [of x] unsigned_less [of y] by simp_all
  have y: "nat \<bar>sint x\<bar> \<le> 2 ^ 31" "nat \<bar>sint y\<bar> \<le> 2 ^ 63" using sint_range(1) [of x] sint_range(2) [of y] by (simp_all add: nat_le_iff)
  show "length (dec_text (unat x)) \<le> 12" "length (dec_text (unat y)) \<le> 24" "length (hex_text (unat x)) \<le> 9" "length (hex_text (unat y)) \<le> 17"
    "length (dec_text (nat \<bar>sint x\<bar>)) \<le> 12" "length (dec_text (nat \<bar>sint y\<bar>)) \<le> 24"
    using dec_text_length [of "unat x" 11] dec_text_length [of "unat y" 23] hex_text_length [of "unat x" 8] hex_text_length [of "unat y" 16]
      dec_text_length [of "nat \<bar>sint x\<bar>" 11] dec_text_length [of "nat \<bar>sint y\<bar>" 23] x y by simp_all
qed

text \<open>The digits read back.\<close>

definition dec_value :: "u8 list \<Rightarrow> nat" where
  "dec_value ds = fold (\<lambda>d v. 10 * v + (unat d - 48)) ds 0"

lemma unat_digit: "d < 10 \<Longrightarrow> unat (48 + of_nat d :: u8) = 48 + d"
  by (simp add: unat_word_ariths unat_of_nat)

lemma dec_text_value: "dec_value (dec_text n) = n" "\<forall>d \<in> set (dec_text n). 48 \<le> unat d \<and> unat d \<le> 57"
proof (induction n rule: dec_text.induct)
  case (1 n)
  have d: "unat (48 + of_nat (n mod 10) :: u8) = 48 + n mod 10" by (simp add: unat_digit)
  case 1
  show ?case
  proof (cases "n < 10")
    case True
    then show ?thesis by (simp add: dec_text.simps [of n] dec_value_def unat_digit)
  next
    case False
    with "1.IH" show ?thesis by (simp add: dec_text.simps [of n] dec_value_def d)
  qed
  case 2
  then show ?case using "1.IH" d by (auto simp: dec_text.simps [of n] unat_digit)
qed


subsection \<open>The contract of an output\<close>

text \<open>
  All the formatter needs of its output function: it takes every character, and what was put out
  grows by this character. \<open>emits F u\<close> says that \<open>F\<close> puts out \<open>u\<close> and counts it, as long as the count is an \<open>int\<close>.
\<close>

locale char_output =
  fixes outp :: "u8 \<Rightarrow> 's \<Rightarrow> 's option" and holds :: "'s \<Rightarrow> u8 list \<Rightarrow> bool"
  assumes takes: "holds s t \<Longrightarrow> \<exists>s'. outp c s = Some s' \<and> holds s' (t @ [c])"
begin

definition emits :: "(nat \<times> 's \<Rightarrow> (nat \<times> 's) option) \<Rightarrow> u8 list \<Rightarrow> bool" where
  "emits F u \<longleftrightarrow> (\<forall>s t. holds s t \<and> length t + length u < 2 ^ 31 \<longrightarrow>
     (\<exists>s'. F (length t, s) = Some (length t + length u, s') \<and> holds s' (t @ u)))"

lemma emits_nothing: "emits Some []"
  by (simp add: emits_def)

lemma emits_then:
  assumes "emits F u" "emits G v" "w = u @ v"
  shows "emits (\<lambda>st. Option.bind (F st) G) w"
  unfolding emits_def
proof (intro allI impI)
  fix s t
  assume t: "holds s t \<and> length t + length w < 2 ^ 31"
  then obtain s1 where s1: "F (length t, s) = Some (length t + length u, s1)" "holds s1 (t @ u)"
    using assms(1,3) by (force simp: emits_def)
  moreover have "length (t @ u) + length v < 2 ^ 31" using t assms(3) by simp
  ultimately obtain s2 where "G (length (t @ u), s1) = Some (length (t @ u) + length v, s2)" "holds s2 ((t @ u) @ v)"
    using assms(2) by (force simp: emits_def)
  then show "\<exists>s'. Option.bind (F (length t, s)) G = Some (length t + length w, s') \<and> holds s' (t @ w)"
    using s1 assms(3) by (simp add: add.assoc)
qed

lemma emits_put: "emits (put outp c) [c]"
  unfolding emits_def
proof (intro allI impI)
  fix s t
  assume t: "holds s t \<and> length t + length [c] < 2 ^ 31"
  then obtain s' where "outp c s = Some s'" "holds s' (t @ [c])" using takes [of s t c] by blast
  then show "\<exists>s'. put outp c (length t, s) = Some (length t + length [c], s') \<and> holds s' (t @ [c])"
    using t by (simp add: put_def add_count_def)
qed

lemma emits_put2: "emits (put2 outp c d) [c, d]"
  unfolding emits_def
proof (intro allI impI)
  fix s t
  assume t: "holds s t \<and> length t + length [c, d] < 2 ^ 31"
  then obtain s1 where s1: "outp c s = Some s1" "holds s1 (t @ [c])" using takes [of s t c] by blast
  then obtain s2 where "outp d s1 = Some s2" "holds s2 ((t @ [c]) @ [d])" using takes [of s1 "t @ [c]" d] by blast
  then show "\<exists>s'. put2 outp c d (length t, s) = Some (length t + length [c, d], s') \<and> holds s' (t @ [c, d])"
    using t s1 by (simp add: put2_def add_count_def)
qed

lemma emits_put_rev: "emits (put_rev outp u) u"
proof (induction u)
  case Nil
  have "put_rev outp [] = Some" by (rule ext) simp
  then show ?case using emits_nothing by simp
next
  case (Cons c u)
  have "put_rev outp (c # u) = (\<lambda>st. Option.bind (put outp c st) (put_rev outp u))" by (rule ext) simp
  then show ?case using emits_then [OF emits_put Cons.IH, of "c # u" c] by simp
qed

lemma emits_dec: "length (dec_text n) \<le> cap \<Longrightarrow> emits (put_dec outp cap n) (dec_text n)"
proof -
  assume l: "length (dec_text n) \<le> cap"
  then have "0 < cap" using dec_text_ne(1) [of n] by (metis le_zero_eq length_0_conv not_gr_zero)
  then have "(if n = 0 then push cap 48 [] else dec_fill cap n []) = Some (dec_text n)"
    using l dec_fill_text [of n "[]" cap] by (simp add: dec_text.simps [of 0])
  then have "put_dec outp cap n = put_rev outp (dec_text n)" by (intro ext) (simp add: put_dec_def)
  then show ?thesis using emits_put_rev by simp
qed

lemma emits_hex: "length (hex_text n) \<le> cap \<Longrightarrow> emits (put_hex outp cap n) (hex_text n)"
proof -
  assume l: "length (hex_text n) \<le> cap"
  then have "0 < cap" using dec_text_ne(2) [of n] by (metis le_zero_eq length_0_conv not_gr_zero)
  then have "(if n = 0 then push cap 48 [] else hex_fill cap n []) = Some (hex_text n)"
    using l hex_fill_text [of n "[]" cap] by (simp add: hex_text.simps [of 0] hex_digit_def)
  then have "put_hex outp cap n = put_rev outp (hex_text n)" by (intro ext) (simp add: put_hex_def)
  then show ?thesis using emits_put_rev by simp
qed

lemma emits_signed:
  assumes "length (dec_text (nat \<bar>v\<bar>)) \<le> cap" "- v < 2 ^ (w - 1)"
  shows "emits (put_signed outp w cap v) (int_text v)"
proof (cases "v < 0")
  case True
  then have "put_signed outp w cap v = (\<lambda>st. Option.bind (put outp 45 st) (put_dec outp cap (nat (- v))))"
    using assms(2) by (intro ext) (simp add: put_signed_def)
  then show ?thesis using emits_then [OF emits_put emits_dec [of "nat (- v)" cap], of "int_text v" 45] assms(1) True
    by (simp add: int_text_def)
next
  case False
  then have "put_signed outp w cap v = put_dec outp cap (nat v)" by (intro ext) (simp add: put_signed_def)
  then show ?thesis using emits_dec [of "nat v" cap] assms(1) False by (simp add: int_text_def)
qed

lemma emits_str: "cs_from str i u \<Longrightarrow> emits (put_str outp str i) u"
proof (induction u arbitrary: i)
  case Nil
  then have "put_str outp str i = Some" by (intro ext) (subst put_str.simps, simp)
  then show ?case using emits_nothing by simp
next
  case (Cons c u)
  then have "put_str outp str i = (\<lambda>st. Option.bind (put outp c st) (put_str outp str (Suc i)))"
    by (intro ext) (subst put_str.simps, simp)
  then show ?case using emits_then [OF emits_put Cons.IH, of "Suc i" "c # u" c] Cons.prems by simp
qed

text \<open>A conversion of one character; only the strings in memory that the arguments point to matter.\<close>

lemma conv_emits:
  assumes "d \<noteq> 108" "item_text strs (conv_item d) as = Some (v, as')" "\<And>p t. strs p = Some t \<Longrightarrow> cs_from (at m p) 0 t"
  shows "\<exists>F. emits F v \<and> (\<forall>st. conv outp m fmt i d as st = map_option (\<lambda>st. (i, as', st)) (F st))"
proof -
  consider "d = 117" | "d = 100" | "d = 120" | "d = 112" | "d = 115" | "d = 99" | "d = 37"
    | "d \<notin> {117, 100, 120, 112, 115, 99, 37}" by blast
  then show ?thesis
  proof cases
    case 1
    with assms(2) obtain x where "as = Va_int x # as'" "v = dec_text (unat x)" by (auto simp: conv_item_def)
    then show ?thesis using 1 emits_dec [OF number_lengths(1)]
      by (intro exI [of _ "put_dec outp 12 (unat x)"]) (simp add: conv_def bind_Some_map)
  next
    case 2
    with assms(2) obtain x where "as = Va_int x # as'" "v = int_text (sint x)" "sint x \<noteq> - (2 ^ 31)" by (auto simp: conv_item_def split: if_splits)
    moreover have "- sint x < 2 ^ (32 - 1)" using sint_range(1) [of x] \<open>sint x \<noteq> - (2 ^ 31)\<close> by simp
    ultimately show ?thesis using 2 emits_signed [OF number_lengths(5)]
      by (intro exI [of _ "put_signed outp 32 12 (sint x)"]) (simp add: conv_def bind_Some_map)
  next
    case 3
    with assms(2) obtain x where "as = Va_int x # as'" "v = hex_text (unat x)" by (auto simp: conv_item_def)
    then show ?thesis using 3 emits_hex [OF number_lengths(3)]
      by (intro exI [of _ "put_hex outp 9 (unat x)"]) (simp add: conv_def bind_Some_map)
  next
    case 4
    with assms(2) obtain p where "as = Va_ptr p # as'" "v = [48, 120] @ hex_text (unat p)" by (auto simp: conv_item_def)
    then show ?thesis using 4 emits_then [OF emits_put2 emits_hex [OF number_lengths(4)], of v]
      by (intro exI [of _ "\<lambda>st. Option.bind (put2 outp 48 120 st) (put_hex outp 17 (unat p))"])
        (simp add: conv_def bind_Some_map map_option_bind comp_def)
  next
    case 5
    with assms(2) obtain p where p: "as = Va_ptr p # as'" "(if p = 0 then Some null_str else strs p) = Some v"
      by (auto simp: conv_item_def dest!: sym [of "Some _"] split: if_splits)
    have "cs_from (if p = 0 then lit null_str else at m p) 0 v"
      using p(2) assms(3) [of p v] by (auto simp: lit_def null_str_def split: if_splits)
    then show ?thesis using p(1) 5 emits_str
      by (intro exI [of _ "put_str outp (if p = 0 then lit null_str else at m p) 0"]) (simp add: conv_def bind_Some_map)
  next
    case 6
    with assms(2) obtain x where "as = Va_int x # as'" "v = [ucast x]" by (auto simp: conv_item_def)
    then show ?thesis using 6 emits_put by (intro exI [of _ "put outp (ucast x)"]) (simp add: conv_def bind_Some_map)
  next
    case 7
    with assms(2) have "as = as'" "v = [37]" by (auto simp: conv_item_def)
    then show ?thesis using 7 emits_put by (intro exI [of _ "put outp 37"]) (simp add: conv_def bind_Some_map)
  next
    case 8
    with assms(2) have "as = as'" "v = [37, d]" by (auto simp: conv_item_def)
    then show ?thesis using 8 emits_put2 assms(1) by (intro exI [of _ "put2 outp 37 d"]) (simp add: conv_def bind_Some_map)
  qed
qed

lemma conv_l_emits:
  assumes "cs_from fmt (Suc i) f" "items_text strs (items (37 # 108 # f)) as = Some u"
  obtains i' as' f' v w F where "u = v @ w" "items_text strs (items f') as' = Some w" "cs_from fmt (Suc i') f'" "length f' \<le> length f"
    "emits F v" "\<And>st. conv_l outp fmt i as st = map_option (\<lambda>st. (i', as', st)) (F st)"
proof -
  consider g where "f = 108 # 117 # g" | g where "f = 108 # 100 # g" | "take 2 f \<noteq> [108, 117]" "take 2 f \<noteq> [108, 100]"
    by (cases f; cases "tl f") auto
  then show ?thesis
  proof cases
    case 1
    then obtain v as' w where x: "item_text strs Long_unsigned as = Some (v, as')" "items_text strs (items g) as' = Some w" "u = v @ w"
      using assms(2) by (auto split: bind_splits)
    then obtain x where "as = Va_long x # as'" "v = dec_text (unat x)" by auto
    then show ?thesis
      using that [OF x(3,2), of "i + 2" "put_dec outp 24 (unat x)"] 1 assms(1) emits_dec [OF number_lengths(2)]
      by (simp add: conv_l_def bind_Some_map)
  next
    case 2
    then obtain v as' w where x: "item_text strs Long_signed as = Some (v, as')" "items_text strs (items g) as' = Some w" "u = v @ w"
      using assms(2) by (auto split: bind_splits)
    then obtain x where v: "as = Va_long x # as'" "v = int_text (sint x)" "sint x \<noteq> - (2 ^ 63)" by (auto split: if_splits)
    then have "- sint x < 2 ^ (64 - 1)" using sint_range(2) [of x] by simp
    then show ?thesis
      using that [OF x(3,2), of "i + 2" "put_signed outp 64 24 (sint x)"] 2 v assms(1) emits_signed [OF number_lengths(6)]
      by (simp add: conv_l_def bind_Some_map)
  next
    case 3
    have "conv_l outp fmt i as st = Some (i, as, st)" for st
    proof (cases f)
      case Nil
      then show ?thesis using assms(1) by (simp add: conv_l_def)
    next
      case (Cons a g)
      then show ?thesis using assms(1) 3 by (cases g) (auto simp: conv_l_def)
    qed
    then show ?thesis using that [of "[]" u f as i Some] assms 3 emits_nothing by simp
  qed
qed

lemma fmt_step_emits:
  assumes "cs_from fmt i (c # f)" "items_text strs (items (c # f)) as = Some u" "\<And>p t. strs p = Some t \<Longrightarrow> cs_from (at m p) 0 t"
  obtains i' as' f' v w F where "u = v @ w" "items_text strs (items f') as' = Some w" "cs_from fmt (Suc i') f'" "length f' \<le> length f"
    "emits F v" "\<And>st. fmt_step outp m fmt i c as st = map_option (\<lambda>st. (i', as', st)) (F st)"
proof (cases "c = 37 \<and> f \<noteq> []")
  case False
  then have "items (c # f) = Text [c] # items f" "(if c = 37 then fmt (i + 1) else Some 0) = Some 0" using assms(1) by (cases f; auto)+
  then show ?thesis using that [of "[c]" "tl u" f as i "put outp c"] assms(1,2) emits_put
    by (auto simp: fmt_step_def bind_Some_map split: bind_splits)
next
  case True
  then obtain d g where f: "f = d # g" "c = 37" by (cases f) auto
  have step: "fmt_step outp m fmt i c as st = conv outp m fmt (Suc i) d as st" for st using f assms(1) by (simp add: fmt_step_def)
  show ?thesis
  proof (cases "d = 108")
    case True
    obtain i' as' f' v w F where "u = v @ w" "items_text strs (items f') as' = Some w" "cs_from fmt (Suc i') f'" "length f' \<le> length g"
      "emits F v" "\<And>st. conv_l outp fmt (Suc i) as st = map_option (\<lambda>st. (i', as', st)) (F st)"
      by (rule conv_l_emits [of fmt "Suc i" g strs as u]) (use assms(1,2) f True in auto)
    then show ?thesis using that [of v w f' as' i' F] step f True by (simp add: conv_def)
  next
    case False
    then obtain v as' w where x: "item_text strs (conv_item d) as = Some (v, as')" "items_text strs (items g) as' = Some w" "u = v @ w"
      using assms(2) f by (auto split: bind_splits)
    from conv_emits [OF False x(1) assms(3), where fmt = fmt and i = "Suc i"] obtain F where
      "emits F v" "\<And>st. conv outp m fmt (Suc i) d as st = map_option (\<lambda>st. (Suc i, as', st)) (F st)" by blast
    then show ?thesis using that [OF x(3,2), of "Suc i" F] step f assms(1) by simp
  qed
qed

text \<open>The whole format: the text of its parts is put out.\<close>

lemma printf_loop_emits:
  assumes "\<And>p t. strs p = Some t \<Longrightarrow> cs_from (at m p) 0 t"
  shows "cs_from fmt i f \<Longrightarrow> items_text strs (items f) as = Some u \<Longrightarrow> emits (printf_loop outp m fmt i as) u"
proof (induction f arbitrary: i as u rule: length_induct)
  case (1 f)
  show ?case
  proof (cases f)
    case Nil
    then have "printf_loop outp m fmt i as = Some" "u = []" using 1 by (auto intro!: ext simp: printf_loop.simps [of outp m fmt i])
    then show ?thesis using emits_nothing by simp
  next
    case (Cons c g)
    with 1 have cg: "cs_from fmt i (c # g)" "items_text strs (items (c # g)) as = Some u" by auto
    obtain i' as' f' v w F where s: "u = v @ w" "items_text strs (items f') as' = Some w" "cs_from fmt (Suc i') f'" "length f' \<le> length g"
      "emits F v" "\<And>st. fmt_step outp m fmt i c as st = map_option (\<lambda>st. (i', as', st)) (F st)"
      by (rule fmt_step_emits [OF cg assms]) (assumption, rule that)
    have "emits (printf_loop outp m fmt (Suc i') as') w" using "1.IH" [rule_format, of f' "Suc i'" as' w] s(2-4) Cons by simp
    moreover have "printf_loop outp m fmt i as = (\<lambda>st. Option.bind (F st) (printf_loop outp m fmt (Suc i') as'))"
      using cg(1) by (intro ext) (simp add: printf_loop.simps [of outp m fmt i] s(6) bind_map_option comp_def)
    ultimately show ?thesis using emits_then [OF s(5)] s(1) by simp
  qed
qed

end


subsection \<open>The buffer\<close>

text \<open>The buffer after the text \<open>t\<close> was put out: its first 511 bytes are kept.\<close>

definition buf_holds :: "pk_buf \<Rightarrow> u8 list \<Rightarrow> bool" where
  "buf_holds b t \<longleftrightarrow> printk_buf_ptr b = min (length t) 511 \<and> printk_buf_rem b = 512 - int (min (length t) 511) \<and>
     map (printk_buf b) [0..<min (length t) 511] = take 511 t"

interpretation pb_out: char_output buf_putc buf_holds
proof
  fix b t c
  assume b: "buf_holds b t"
  show "\<exists>b'. buf_putc c b = Some b' \<and> buf_holds b' (t @ [c])"
  proof (cases "length t < 511")
    case True
    have "map ((printk_buf b)(length t := c)) [0..<length t] = map (printk_buf b) [0..<length t]" by simp
    then show ?thesis using b True by (simp add: buf_holds_def buf_putc_def buf_store_def PRINTK_BUF_SIZE_def)
  next
    case False
    then show ?thesis using b by (simp add: buf_holds_def buf_putc_def)
  qed
qed

lemma buf_string_holds:
  assumes "buf_holds b t"
  shows "\<exists>b'. buf_store (printk_buf_ptr b) 0 b = Some b' \<and> buf_string b' = takeWhile (\<lambda>c. c \<noteq> 0) (take 511 t)"
proof -
  let ?n = "min (length t) 511" and ?r = "(printk_buf b)(min (length t) 511 := 0)"
  have "[0..<512] = [0..<?n] @ [?n..<512]" using upt_add_eq_append [of 0 ?n "512 - ?n"] by simp
  moreover have "[?n..<512] = ?n # [Suc ?n..<512]" by (rule upt_conv_Cons) simp
  ultimately have "map ?r [0..<512] = map (printk_buf b) [0..<?n] @ 0 # map ?r [Suc ?n..<512]" by simp
  then have "takeWhile (\<lambda>c. c \<noteq> 0) (map ?r [0..<512]) = takeWhile (\<lambda>c. c \<noteq> 0) (take 511 t)"
    using assms by (simp add: takeWhile_tail buf_holds_def)
  then show ?thesis using assms by (simp add: buf_holds_def buf_store_def buf_string_def PRINTK_BUF_SIZE_def)
qed

text \<open>\<open>vfprintk\<close> formats, cuts and logs.\<close>

lemma vfprintk_logs:
  assumes "cs fmt f" "\<And>p t. strs p = Some t \<Longrightarrow> cs (at m p) t" "items_text strs (items f) as = Some u" "length u < 2 ^ 31"
  shows "\<exists>b'. vfprintk fd m (Some fmt) as s = map_option (\<lambda>(_, l). (int (length u), \<lparr>pk_buf = b', pk_log = l\<rparr>))
    (log_write_str (if fd = 2 then 3 else 6) (Some (takeWhile (\<lambda>c. c \<noteq> 0) (take 511 u))) (pk_log s))"
proof -
  let ?b = "(pk_buf s)\<lparr>printk_buf_ptr := 0, printk_buf_rem := int PRINTK_BUF_SIZE\<rparr>"
  have "buf_holds ?b []" by (simp add: buf_holds_def PRINTK_BUF_SIZE_def)
  moreover have "pb_out.emits (printf_loop buf_putc m fmt 0 as) u"
    by (rule pb_out.printf_loop_emits) (use assms in \<open>auto simp: cs_def\<close>)
  ultimately obtain b where b: "printf_loop buf_putc m fmt 0 as (0, ?b) = Some (length u, b)" "buf_holds b u"
    using assms(4) unfolding pb_out.emits_def by (auto dest!: spec [of _ ?b] spec [of _ "[]"])
  from buf_string_holds [OF b(2)] obtain b' where "buf_store (printk_buf_ptr b) 0 b = Some b'"
    "buf_string b' = takeWhile (\<lambda>c. c \<noteq> 0) (take 511 u)" by blast
  with b(1) show ?thesis
    by (intro exI [of _ b']) (auto simp: vfprintk_def printk_vroute_def do_printf_def STDERR_FD_def KLOG_ERR_def KLOG_INFO_def Let_def
      map_option_case split: option.splits bind_splits)
qed


section \<open>Properties\<close>

text \<open>
  C12 Formatted output: when the format and the strings it prints are C strings and the arguments are there
  and of the types that the format asks for, \<open>fprintk\<close> ends, answers the length of the formatted text and
  leaves the log with a record that holds the first 511 bytes of the text, up to its first null byte, at the
  level of the file descriptor; no array is left, and only as many of the oldest records are dropped as
  the new one needs room for.
\<close>

theorem fprintk_logs_text:
  assumes "cs fmt f" "\<And>p t. strs p = Some t \<Longrightarrow> cs (at m p) t" "items_text strs (items f) as = Some u" "length u < 2 ^ 31"
    "klog_inv (pk_log s) q" "klog_inited (pk_log s)" "(if fd = 2 then 3 else 6) \<le> klog_level (pk_log s)"
    "msg = takeWhile (\<lambda>c. c \<noteq> 0) (take 511 u)"
  shows "\<exists>s' dropped kept. fprintk fd m (Some fmt) as s = Some (int (length u), s') \<and> q = dropped @ kept \<and>
    klog_inv (pk_log s') (kept @ [(if fd = 2 then 3 else 6, msg)]) \<and>
    (dropped \<noteq> [] \<longrightarrow> 4095 < queue_size (last dropped # kept) + (3 + length msg))"
proof -
  have len: "length msg \<le> 511" using length_takeWhile_le [of "\<lambda>c. c \<noteq> 0" "take 511 u"] assms(8) by simp
  obtain d where d: "q = d @ queue_drop (3 + length msg) q"
    "d \<noteq> [] \<longrightarrow> 4095 < queue_size (last d # queue_drop (3 + length msg) q) + (3 + length msg)"
    using queue_drop_suffix [of q "3 + length msg"] by blast
  have lv: "(word_of_int (if fd = 2 then 3 else 6) :: u8) = (if fd = 2 then 3 else 6)" by simp
  from log_write_stored [OF assms(5-7), of msg] obtain l where
    "log_write_str (if fd = 2 then 3 else 6) (Some msg) (pk_log s) = Some (min (length msg) 4092, l)"
    "klog_inv l (spec_write (word_of_int (if fd = 2 then 3 else 6)) msg q)" by blast
  moreover have "spec_write (word_of_int (if fd = 2 then 3 else 6)) msg q = queue_drop (3 + length msg) q @ [(if fd = 2 then 3 else 6, msg)]"
    using len by (simp add: spec_write_def Let_def)
  moreover obtain b' where "vfprintk fd m (Some fmt) as s = map_option (\<lambda>(_, l). (int (length u), \<lparr>pk_buf = b', pk_log = l\<rparr>))
    (log_write_str (if fd = 2 then 3 else 6) (Some msg) (pk_log s))"
    using vfprintk_logs [OF assms(1-4)] assms(8) by blast
  ultimately show ?thesis using d unfolding fprintk_def by (intro exI [of _ "\<lparr>pk_buf = b', pk_log = l\<rparr>"] exI [of _ d] exI) simp
qed

text \<open>"n=%d %s" with 42 and a null pointer.\<close>

definition pk_boot :: pk_state where
  "pk_boot = \<lparr>pk_buf = \<lparr>printk_buf = (\<lambda>_. 0), printk_buf_ptr = 0, printk_buf_rem = 0\<rparr>, pk_log = log_init klog_boot\<rparr>"

theorem fprintk_logs_text_witness:
  "\<exists>s'. fprintk 2 (\<lambda>_. None) (Some (lit [110, 61, 37, 100, 32, 37, 115])) [Va_int 42, Va_ptr 0] pk_boot = Some (11, s') \<and>
     klog_inv (pk_log s') [(3, [110, 61, 52, 50, 32, 40, 110, 117, 108, 108, 41])]"
proof -
  have t: "dec_text 42 = [52, 50]" by (simp add: dec_text.simps [of 42] dec_text.simps [of 4])
  have "cs (lit [110, 61, 37, 100, 32, 37, 115]) [110, 61, 37, 100, 32, 37, 115]" by (simp add: cs_def lit_def)
  moreover have "items_text (\<lambda>_. None) (items [110, 61, 37, 100, 32, 37, 115]) [Va_int 42, Va_ptr 0]
      = Some [110, 61, 52, 50, 32, 40, 110, 117, 108, 108, 41]"
    by (simp add: conv_item_def int_text_def t null_str_def)
  ultimately show ?thesis
    using fprintk_logs_text [of "lit [110, 61, 37, 100, 32, 37, 115]" "[110, 61, 37, 100, 32, 37, 115]" "\<lambda>_. None" "\<lambda>_. None"
      "[Va_int 42, Va_ptr 0]" "[110, 61, 52, 50, 32, 40, 110, 117, 108, 108, 41]" pk_boot "[]" 2 "[110, 61, 52, 50, 32, 40, 110, 117, 108, 108, 41]"]
      log_init_inv(1,2)
    by (simp add: pk_boot_def log_init_def KLOG_INFO_def)
qed

text \<open>A number as a reader takes it.\<close>

definition int_value :: "u8 list \<Rightarrow> int" where
  "int_value t = (case t of [] \<Rightarrow> 0 | c # ds \<Rightarrow> if c = 45 then - int (dec_value ds) else int (dec_value t))"

lemma int_text_value: "int_value (int_text v) = v"
proof (cases "v < 0")
  case True
  then show ?thesis by (simp add: int_text_def int_value_def dec_text_value)
next
  case False
  obtain c ds where c: "dec_text (nat v) = c # ds" using dec_text_ne(1) [of "nat v"] by (cases "dec_text (nat v)") auto
  then have "48 \<le> unat c" using dec_text_value(2) [of "nat v"] by simp
  then have "c \<noteq> 45" by auto
  then show ?thesis using False dec_text_value(1) [of "nat v"] by (simp add: int_text_def int_value_def c)
qed

lemma int_text_nonzero: "0 \<notin> set (int_text v)"
proof -
  have "0 \<notin> set (dec_text n)" for n using dec_text_value(2) [of n] by (metis not_numeral_le_zero unat_0)
  then show ?thesis by (simp add: int_text_def)
qed

lemma int_text_length: "\<bar>v\<bar> < 2 ^ 31 \<Longrightarrow> length (int_text v) \<le> 13"
  using dec_text_length [of "nat \<bar>v\<bar>" 11] by (auto simp: int_text_def nat_less_iff)

text \<open>
  C13 Numbers are not damaged on the way to the log: the record that \<open>printk("%d", v)\<close> leaves reads back as \<open>v\<close>, for
  every \<open>int\<close> but the least one, whose negation overflows.
\<close>

theorem printk_number_roundtrip:
  assumes v: "- (2 ^ 31) < v" "v < 2 ^ 31" and inv: "klog_inv (pk_log s) q" "klog_inited (pk_log s)" "6 \<le> klog_level (pk_log s)"
  shows "\<exists>s' kept txt. printk m (Some (lit [37, 100])) [Va_int (of_int v)] s = Some (int (length txt), s') \<and>
    klog_inv (pk_log s') (kept @ [(6, txt)]) \<and> int_value txt = v"
proof -
  let ?t = "int_text v"
  have sv: "sint (of_int v :: u32) = v" using v by (simp add: sint_sbintrunc' signed_take_bit_int_eq_self)
  have "cs (lit [37, 100]) [37, 100]" by (simp add: cs_def lit_def)
  moreover have "items_text (\<lambda>_. None) (items [37, 100]) [Va_int (of_int v)] = Some ?t" using v by (simp add: conv_item_def sv)
  moreover have l: "length ?t \<le> 13" using v by (intro int_text_length) (simp add: abs_less_iff)
  then have "takeWhile (\<lambda>c. c \<noteq> 0) (take 511 ?t) = ?t" using int_text_nonzero [of v] by (auto simp: takeWhile_eq_all_conv)
  note w = this
  ultimately obtain b' where p: "vfprintk 1 m (Some (lit [37, 100])) [Va_int (of_int v)] s =
      map_option (\<lambda>(_, l). (int (length ?t), \<lparr>pk_buf = b', pk_log = l\<rparr>)) (log_write_str 6 (Some ?t) (pk_log s))"
    using vfprintk_logs [of "lit [37, 100]" "[37, 100]" "\<lambda>_. None" m "[Va_int (of_int v)]" ?t 1 s, unfolded w] l by force
  from log_write_stored [OF inv, of ?t] obtain lg where "log_write_str 6 (Some ?t) (pk_log s) = Some (min (length ?t) 4092, lg)"
    "klog_inv lg (spec_write (word_of_int 6) ?t q)" by blast
  then show ?thesis using p l int_text_value [of v] by (force simp: printk_def vprintk_def STDOUT_FD_def spec_write_def Let_def)
qed

theorem printk_number_roundtrip_witness:
  "\<exists>s' kept txt. printk (\<lambda>_. None) (Some (lit [37, 100])) [Va_int (of_int (- 7))] pk_boot = Some (int (length txt), s') \<and>
     klog_inv (pk_log s') (kept @ [(6, txt)]) \<and> int_value txt = - 7"
  by (rule printk_number_roundtrip) (use log_init_inv(1,2) in \<open>auto simp: pk_boot_def log_init_def KLOG_INFO_def\<close>)

text \<open>The least \<open>int\<close> cannot be printed: its negation is undefined.\<close>

lemma printk_least_int: "printk m (Some (lit [37, 100])) [Va_int 0x80000000] s = None"
proof -
  have "sint (0x80000000 :: u32) = - (2 ^ 31)" by simp
  then have "put_signed buf_putc 32 12 (sint (0x80000000 :: u32)) st = None" for st
    by (simp add: put_signed_def split: bind_splits)
  then show ?thesis by (simp add: printk_def vprintk_def vfprintk_def printk_vroute_def do_printf_def Let_def
    printf_loop.simps [of _ _ _ 0] lit_def fmt_step_def conv_def)
qed

text \<open>"%ld" is not a conversion: the argument is not taken, and the text is the letter d.\<close>

lemma printk_long_ignored: "items [37, 108, 100] = [Text [100]]"
  by simp

end
