(* ===== verification/Gic.thy ===== *)
theory Gic
  imports Pmm_Init Printk
begin

text \<open>
  The interrupt controller, \<open>src/drivers/gic.c\<close>: which version the device tree announces, the start-up
  sequence, enabling and disabling, acknowledging and ending an interrupt. The accesses to the device
  are a trace; what a register read answers is an argument. The device itself is not part of the
  program: the theorem on enabling has its set-enable and clear-enable registers as a parameter.
\<close>

section \<open>Definitions\<close>

text \<open>The bytes of a string literal.\<close>

definition ascii :: "string \<Rightarrow> u8 list" where
  "ascii s = map (\<lambda>c. of_nat (of_char c)) s"

definition GICD_CTLR :: u32 where "GICD_CTLR = 0"
definition GICD_ISENABLER :: u32 where "GICD_ISENABLER = 0x100"
definition GICD_ICENABLER :: u32 where "GICD_ICENABLER = 0x180"
definition GICC_CTLR :: u32 where "GICC_CTLR = 0"
definition GICC_PMR :: u32 where "GICC_PMR = 4"
definition GICC_IAR :: u32 where "GICC_IAR = 0xC"
definition GICC_EOIR :: u32 where "GICC_EOIR = 0x10"

datatype gic_io = Gic_write u64 u32 | Gic_read u64 | Read_icc_iar1 | Write_icc_eoir1 u64 | Write_icc_pmr u64
  | Write_icc_igrpen1 u64 | Write_daifclr nat

record gic_state =
  gicd_base :: u64
  gicc_base :: u64
  gic_version :: int
  gic_io :: "gic_io list"

definition gic_do :: "gic_io \<Rightarrow> gic_state \<Rightarrow> gic_state" where
  "gic_do e s = s\<lparr>gic_io := gic_io s @ [e]\<rparr>"

text \<open>The address of \<open>base[offset / 4]\<close>; a null base is undefined.\<close>

definition gicd_write :: "u32 \<Rightarrow> u32 \<Rightarrow> gic_state \<Rightarrow> gic_state option" where
  "gicd_write offset val s =
     (if gicd_base s = 0 then None else Some (gic_do (Gic_write (gicd_base s + 4 * ucast (offset div 4)) val) s))"

definition gicc_write :: "u32 \<Rightarrow> u32 \<Rightarrow> gic_state \<Rightarrow> gic_state option" where
  "gicc_write offset val s =
     (if gicc_base s = 0 then None else Some (gic_do (Gic_write (gicc_base s + 4 * ucast (offset div 4)) val) s))"

text \<open>\<open>v\<close> is what the device answers.\<close>

definition gicc_read :: "u32 \<Rightarrow> u32 \<Rightarrow> gic_state \<Rightarrow> (u32 \<times> gic_state) option" where
  "gicc_read offset v s =
     (if gicc_base s = 0 then None else Some (v, gic_do (Gic_read (gicc_base s + 4 * ucast (offset div 4))) s))"

definition gicv3_read_icc_iar1 :: "u64 \<Rightarrow> gic_state \<Rightarrow> u32 \<times> gic_state" where
  "gicv3_read_icc_iar1 v s = (ucast v, gic_do Read_icc_iar1 s)"

definition gicv3_write_icc_eoir1 :: "u32 \<Rightarrow> gic_state \<Rightarrow> gic_state" where
  "gicv3_write_icc_eoir1 val s = gic_do (Write_icc_eoir1 (ucast val)) s"

definition gicv3_write_icc_pmr :: "u32 \<Rightarrow> gic_state \<Rightarrow> gic_state" where
  "gicv3_write_icc_pmr val s = gic_do (Write_icc_pmr (ucast val)) s"

definition gicv3_write_icc_igrpen1 :: "u32 \<Rightarrow> gic_state \<Rightarrow> gic_state" where
  "gicv3_write_icc_igrpen1 val s = gic_do (Write_icc_igrpen1 (ucast val)) s"

subsection \<open>Which version\<close>

definition str_compatible :: "u8 list" where "str_compatible = ascii ''compatible''"
definition str_gic_v3 :: "u8 list" where "str_gic_v3 = ascii ''arm,gic-v3''"

text \<open>\<open>compat[0] == 'a' && compat[1] == 'r' && ...\<close>\<close>

fun prefix_is :: "reader \<Rightarrow> nat \<Rightarrow> u8 list \<Rightarrow> bool option" where
  "prefix_is r i [] = Some True"
| "prefix_is r i (x # xs) = do { c \<leftarrow> r i; if c = x then prefix_is r (Suc i) xs else Some False }"

text \<open>One round of \<open>while (1)\<close>: \<open>Inl\<close> is the answer of the function, \<open>Inr\<close> the next position.\<close>

definition gic_step :: "cmem \<Rightarrow> u64 \<Rightarrow> u64 \<Rightarrow> u32 \<Rightarrow> (int + u32) option" where
  "gic_step m fdt strings p = do {
     token \<leftarrow> rd_tok m fdt p;
     let p = p + 4;
     if token = 1 then do {
       n \<leftarrow> name_len_from (at m (fdt + ucast p)) 0;
       Some (Inr (ucast ((ucast p + of_nat n + 4 :: u64) AND NOT 3)))
     } else if token = 3 then do {
       len \<leftarrow> rd_tok m fdt p;
       let p = p + 4;
       nameoff \<leftarrow> rd_tok m fdt p;
       let p = p + 4;
       c \<leftarrow> name_is (at m (strings + ucast nameoff)) 0 str_compatible;
       v3 \<leftarrow> (if c then prefix_is (at m (fdt + ucast p)) 0 str_gic_v3 else Some False);
       Some (if v3 then Inl 3 else Inr ((p + len + 3) AND NOT 3))
     } else if token = 2 then Some (Inr p)
     else Some (Inl 2) }"

partial_function (option) gic_loop :: "cmem \<Rightarrow> u64 \<Rightarrow> u64 \<Rightarrow> u32 \<Rightarrow> int option" where
  "gic_loop m fdt strings p = Option.bind (gic_step m fdt strings p) (\<lambda>r.
     case r of Inl v \<Rightarrow> Some v | Inr p \<Rightarrow> gic_loop m fdt strings p)"

definition gic_detect_version :: "cmem \<Rightarrow> u64 \<Rightarrow> int option" where
  "gic_detect_version m dtb_ptr =
     (if dtb_ptr = 0 then Some 2
      else do {
        off_struct \<leftarrow> hdr_off_struct m dtb_ptr;
        off_strings \<leftarrow> hdr_off_strings m dtb_ptr;
        gic_loop m dtb_ptr (dtb_ptr + ucast off_strings) off_struct })"

subsection \<open>Start-up\<close>

text \<open>\<open>printk\<close> of a literal without arguments.\<close>

definition print_lit :: "cmem \<Rightarrow> string \<Rightarrow> pk_state \<Rightarrow> pk_state option" where
  "print_lit m t pk = do { (_, pk) \<leftarrow> printk m (Some (lit (ascii t))) [] pk; Some pk }"

definition gic_init_v3 :: "gic_state \<Rightarrow> gic_state option" where
  "gic_init_v3 s = do {
     let s = s\<lparr>gicd_base := 0x08000000\<rparr>;
     s \<leftarrow> gicd_write GICD_CTLR 0 s;
     s \<leftarrow> gicd_write GICD_CTLR 0x37 s;
     let s = gicv3_write_icc_pmr 0xFF s;
     let s = gicv3_write_icc_igrpen1 1 s;
     Some (gic_do (Write_daifclr 2) s) }"

definition gic_init_v2 :: "gic_state \<Rightarrow> gic_state option" where
  "gic_init_v2 s = do {
     let s = s\<lparr>gicd_base := 0x08000000, gicc_base := 0x08010000\<rparr>;
     s \<leftarrow> gicd_write GICD_CTLR 0 s;
     s \<leftarrow> for_upto 0 32 (\<lambda>i. gicd_write (GICD_ICENABLER + of_nat i * 4) 0xFFFFFFFF) s;
     s \<leftarrow> gicd_write GICD_CTLR 1 s;
     s \<leftarrow> gicc_write GICC_PMR 0xFF s;
     s \<leftarrow> gicc_write GICC_CTLR 1 s;
     Some (gic_do (Write_daifclr 2) s) }"

definition gic_init :: "cmem \<Rightarrow> u64 \<Rightarrow> gic_state \<times> pk_state \<Rightarrow> (gic_state \<times> pk_state) option" where
  "gic_init m dtb_ptr st = do {
     let (s, pk) = st;
     v \<leftarrow> gic_detect_version m dtb_ptr;
     let s = s\<lparr>gic_version := v\<rparr>;
     (s, pk) \<leftarrow> (if gic_version s = 3 then do {
         pk \<leftarrow> print_lit m ''GIC: Detected GICv3\<newline>'' pk;
         s \<leftarrow> gic_init_v3 s;
         Some (s, pk)
       } else do {
         pk \<leftarrow> print_lit m ''GIC: Detected GICv2\<newline>'' pk;
         s \<leftarrow> gic_init_v2 s;
         Some (s, pk) });
     pk \<leftarrow> print_lit m ''GIC: initialized\<newline>'' pk;
     Some (s, pk) }"

subsection \<open>Interrupts\<close>

definition gic_enable_irq :: "int \<Rightarrow> gic_state \<Rightarrow> gic_state option" where
  "gic_enable_irq irq s =
     (if irq < 0 \<or> irq \<ge> 1020 then Some s
      else let reg = of_int (irq div 32) :: u32; bt = nat (irq mod 32)
           in gicd_write (GICD_ISENABLER + reg * 4) (push_bit bt 1) s)"

definition gic_disable_irq :: "int \<Rightarrow> gic_state \<Rightarrow> gic_state option" where
  "gic_disable_irq irq s =
     (if irq < 0 \<or> irq \<ge> 1020 then Some s
      else let reg = of_int (irq div 32) :: u32; bt = nat (irq mod 32)
           in gicd_write (GICD_ICENABLER + reg * 4) (push_bit bt 1) s)"

text \<open>\<open>v\<close> is what the device answers.\<close>

definition gic_ack_irq :: "u64 \<Rightarrow> gic_state \<Rightarrow> (u32 \<times> gic_state) option" where
  "gic_ack_irq v s =
     (if gic_version s = 3 then Some (gicv3_read_icc_iar1 v s) else gicc_read GICC_IAR (ucast v) s)"

definition gic_eoi_irq :: "u32 \<Rightarrow> gic_state \<Rightarrow> gic_state option" where
  "gic_eoi_irq irq s =
     (if gic_version s = 3 then Some (gicv3_write_icc_eoir1 irq s) else gicc_write GICC_EOIR irq s)"

subsection \<open>Specification\<close>

text \<open>The stream is searched up to a NOP token.\<close>

fun gic_version_of :: "tok list \<Rightarrow> int" where
  "gic_version_of [] = 2"
| "gic_version_of (Nop # ts) = 2"
| "gic_version_of (Prop nm data # ts) =
     (if nm = str_compatible \<and> take 10 data = str_gic_v3 then 3 else gic_version_of ts)"
| "gic_version_of (t # ts) = gic_version_of ts"

text \<open>The values of \<open>compatible\<close> are strings, which a null byte ends.\<close>

definition compat_ok :: "tok \<Rightarrow> bool" where
  "compat_ok t = (case t of Prop nm data \<Rightarrow> nm = str_compatible \<longrightarrow> 0 \<in> set data | _ \<Rightarrow> True)"

text \<open>The writes of a trace in the order the device sees them.\<close>

definition device_after :: "(u64 \<Rightarrow> u32 \<Rightarrow> 'd \<Rightarrow> 'd) \<Rightarrow> gic_io list \<Rightarrow> 'd \<Rightarrow> 'd" where
  "device_after dw es d = fold (\<lambda>e d. case e of Gic_write a v \<Rightarrow> dw a v d | _ \<Rightarrow> d) es d"


section \<open>Lemmas\<close>

subsection \<open>The device tree\<close>

lemma str_gic_bytes: "str_compatible = [99, 111, 109, 112, 97, 116, 105, 98, 108, 101]" "str_gic_v3 = [97, 114, 109, 44, 103, 105, 99, 45, 118, 51]"
  by (simp_all add: str_compatible_def str_gic_v3_def ascii_def)

lemma prefix_is_spec:
  "holds m (a + of_nat i) data \<Longrightarrow> 0 \<in> set data \<Longrightarrow> 0 \<notin> set xs \<Longrightarrow> prefix_is (at m a) i xs = Some (take (length xs) data = xs)"
proof (induction xs arbitrary: i data)
  case (Cons x xs)
  then obtain d data' where d: "data = d # data'" by (cases data) auto
  with Cons.prems(1) have h: "m (a + of_nat i) = Some d" "holds m (a + of_nat (Suc i)) data'" by (simp_all add: holds_Cons add.assoc add.commute [of 1])
  show ?case
  proof (cases "d = x")
    case True
    with Cons.prems d have "0 \<in> set data'" by auto
    with Cons.IH [OF h(2)] Cons.prems(3) h(1) d True show ?thesis by (simp add: at_def)
  next
    case False
    with h(1) d show ?thesis by (simp add: at_def)
  qed
qed simp

lemma aligned_and_not_3: "unat y mod 4 = 0 \<Longrightarrow> (y + x) AND NOT 3 = y + (x AND NOT 3 :: u32)"
proof -
  assume y: "unat y mod 4 = 0"
  have n: "unat (y + (x AND NOT 3)) = (unat y + unat x div 4 * 4) mod 2 ^ 32" by (simp only: unat_word_ariths and_not_3) simp
  have "unat ((y + x) AND NOT 3) = (unat y + unat x) mod 2 ^ 32 div 4 * 4" by (simp only: unat_word_ariths and_not_3) simp
  also have "\<dots> = (unat y + unat x div 4 * 4) mod 2 ^ 32" 
  proof -
    obtain k where k: "unat y = 4 * k" using y by (auto elim: dvdE)
    have "(4 * k + unat x) mod (4 * 2 ^ 30) div 4 = (k + unat x div 4) mod 2 ^ 30"
      unfolding mod_mult2_eq by simp
    moreover have "(4 * k + unat x div 4 * 4) mod (4 * 2 ^ 30) = 4 * ((k + unat x div 4) mod 2 ^ 30)"
      unfolding mult.commute [of _ 4] distrib_left [symmetric] by (rule mult_mod_right [symmetric])
    ultimately show ?thesis unfolding k by simp
  qed
  finally have "unat ((y + x) AND NOT 3) = unat (y + (x AND NOT 3))" using n by (simp only:)
  then show ?thesis by (simp only: unsigned_word_eqI)
qed


lemma tok_size_aligned: "tok_size t mod 4 = 0"
  by (cases t) (simp_all add: tok_size_def mod_add_left_eq [symmetric] numeral_eq_Suc [symmetric])

lemma next_aligned: "unat (p :: u32) mod 4 = 0 \<Longrightarrow> unat (p + of_nat (tok_size t)) mod 4 = 0"
proof -
  assume p: "unat p mod 4 = 0"
  have d: "(4 :: nat) dvd 2 ^ 32" by simp
  have "(unat p + tok_size t) mod 4 = 0" using p tok_size_aligned [of t] by presburger
  then have "(unat p + tok_size t) mod 2 ^ 32 mod 4 = 0" by (simp only: mod_mod_cancel [OF d])
  moreover have "unat (p + of_nat (tok_size t)) = (unat p + tok_size t) mod 2 ^ 32" by (simp add: unat_word_ariths unat_of_nat mod_add_right_eq)
  ultimately show ?thesis by simp
qed

text \<open>The walk moves to the next token, because the structure block is aligned.\<close>

lemma gic_next:
  assumes p: "unat p mod 4 = 0"
  shows "tok_size (Begin_node nm) < 2 ^ 31 \<Longrightarrow>
      (ucast ((ucast (p + 4) + of_nat (length nm) + 4 :: u64) AND NOT 3) :: u32) = p + of_nat (tok_size (Begin_node nm))"
    "tok_size (Prop nm data) < 2 ^ 31 \<Longrightarrow> (p + 12 + of_nat (length data) + 3) AND NOT 3 = p + of_nat (tok_size (Prop nm data))"
proof -
  have a: "unat (p + 4) mod 4 = 0" "unat (p + 12) mod 4 = 0"
    using next_aligned [OF p, of End_node] next_aligned [OF p, of "Prop [] []"] by (simp_all add: tok_size_def)
  {
    assume t: "tok_size (Begin_node nm) < 2 ^ 31"
    have n: "(ucast (NOT 3 :: u64) :: u32) = NOT 3" by simp
    have c: "(ucast (ucast (p + 4) + of_nat (length nm) + 4 :: u64) :: u32) = (p + 4) + (of_nat (length nm) + 1 + 3)"
    proof -
      have trunc: "(ucast (of_nat k :: u64) :: u32) = of_nat k" for k by (rule bit_word_eqI) (simp add: bit_ucast_iff bit_of_nat_iff)
      have "(ucast (p + 4) + of_nat (length nm) + 4 :: u64) = of_nat (unat (p + 4) + length nm + 4)" by simp
      then show ?thesis unfolding trunc by (simp only: trunc) (simp add: add.assoc)
    qed
    have "(ucast ((ucast (p + 4) + of_nat (length nm) + 4 :: u64) AND NOT 3) :: u32) = ((p + 4) + (of_nat (length nm) + 1 + 3)) AND NOT 3"
      by (simp only: unsigned_and_eq n c)
    also have "\<dots> = p + 4 + align4 (of_nat (length nm) + 1)" unfolding align4_def by (rule aligned_and_not_3 [OF a(1)])
    finally show "(ucast ((ucast (p + 4) + of_nat (length nm) + 4 :: u64) AND NOT 3) :: u32) = p + of_nat (tok_size (Begin_node nm))"
      using tok_next(1) [OF t, of p] by (simp only:)
  }
  assume t: "tok_size (Prop nm data) < 2 ^ 31"
  have "((p + 12) + (of_nat (length data) + 3)) AND NOT 3 = p + 12 + align4 (of_nat (length data))"
    unfolding align4_def by (rule aligned_and_not_3 [OF a(2)])
  then show "(p + 12 + of_nat (length data) + 3) AND NOT 3 = p + of_nat (tok_size (Prop nm data))"
    using tok_next(2) [OF t, of p] by (simp only: add.assoc)
qed

lemma gic_loop_spec:
  "toks_at m fdt strings p ts \<Longrightarrow> unat p mod 4 = 0 \<Longrightarrow> \<forall>t \<in> set ts. compat_ok t \<Longrightarrow>
   gic_loop m fdt strings p = Some (gic_version_of ts)"
proof (induction ts arbitrary: p)
  case Nil
  then show ?case by (subst gic_loop.simps) (simp add: gic_step_def DTB_END_def)
next
  case (Cons t ts)
  then have t: "tok_at m fdt strings p t" "tok_size t < 2 ^ 31"
    and next_loop: "gic_loop m fdt strings (p + of_nat (tok_size t)) = Some (gic_version_of ts)"
    using Cons.IH [of "p + of_nat (tok_size t)"] next_aligned [of p t] by simp_all
  show ?case
  proof (cases t)
    case (Begin_node nm)
    then have r: "rd_tok m fdt p = Some 1" "name_len_from (at m (fdt + ucast (p + 4))) 0 = Some (length nm)"
      using t(1) name_len_spec [of _ 0 nm] by (simp_all add: tok_at_def DTB_BEGIN_NODE_def cs_def)
    have "gic_step m fdt strings p = Some (Inr (p + of_nat (tok_size t)))"
      using r gic_next(1) [OF Cons.prems(2), of nm] t(2) Begin_node unfolding gic_step_def by (simp only: Let_def bind.simps if_True refl)
    then show ?thesis using next_loop Begin_node by (subst gic_loop.simps) simp
  next
    case (Prop nm data)
    then obtain off where r: "rd_tok m fdt p = Some 3" "rd_tok m fdt (p + 4) = Some (of_nat (length data))" "rd_tok m fdt (p + 8) = Some off"
      "cs (at m (strings + ucast off)) nm" "holds m (fdt + ucast (p + 12)) data" using t(1) by (auto simp: tok_at_def DTB_PROP_def)
    have nm: "name_is (at m (strings + ucast off)) 0 str_compatible = Some (nm = str_compatible)"
      using r(4) by (intro name_is_spec) (simp_all add: cs_def str_gic_bytes)
    have v3_ok: "length str_gic_v3 = 10" "0 \<notin> set str_gic_v3" by (simp_all add: str_gic_bytes)
    have v3: "prefix_is (at m (fdt + ucast (p + 12))) 0 str_gic_v3 = Some (take 10 data = str_gic_v3)" if "nm = str_compatible"
      using prefix_is_spec [of m "fdt + ucast (p + 12)" 0 data str_gic_v3] r(5) Cons.prems(3) that Prop v3_ok
      by (simp add: compat_ok_def)
    have "gic_step m fdt strings p = Some (if nm = str_compatible \<and> take 10 data = str_gic_v3 then Inl 3
        else Inr ((p + 12 + of_nat (length data) + 3) AND NOT 3))"
      using r(1-3) nm v3 by (simp add: gic_step_def Let_def add.assoc)
    then have "gic_step m fdt strings p = Some (if nm = str_compatible \<and> take 10 data = str_gic_v3 then Inl 3 else Inr (p + of_nat (tok_size t)))"
      using gic_next(2) [OF Cons.prems(2), of nm data] t(2) Prop by (simp only:)
    then show ?thesis using next_loop Prop by (subst gic_loop.simps) simp
  next
    case End_node
    then show ?thesis using next_loop t(1) by (subst gic_loop.simps) (simp add: gic_step_def tok_at_def DTB_END_NODE_def tok_size_def)
  next
    case Nop
    then show ?thesis using t(1) by (subst gic_loop.simps) (simp add: gic_step_def tok_at_def DTB_NOP_def)
  qed
qed


subsection \<open>The set of enabled interrupts\<close>

text \<open>
  What the distributor does on a write, with \<open>en d i\<close> for "interrupt \<open>i\<close> is enabled in state \<open>d\<close>" and \<open>L\<close> for the
  lines whose enable bits software can program. The GICv2 architecture leaves it to the implementation whether
  the bits of the software-generated interrupts 0 to 15 can be written, and reads the bits of lines that do not exist as
  zero and ignores writes to them, so nothing is assumed of an interrupt outside of \<open>L\<close>. For a line of \<open>L\<close>, a one
  written to a set-enable register enables the interrupt of this bit, a one written to a clear-enable register disables
  it, a zero has no effect, and no other address changes whether it is enabled.
\<close>

definition gicd_device :: "nat set \<Rightarrow> (u64 \<Rightarrow> u32 \<Rightarrow> 'd \<Rightarrow> 'd) \<Rightarrow> ('d \<Rightarrow> nat \<Rightarrow> bool) \<Rightarrow> u64 \<Rightarrow> bool" where
  "gicd_device L dw en b \<longleftrightarrow>
     (\<forall>reg < 32. \<forall>v d. \<forall>i \<in> L. en (dw (b + 0x100 + 4 * of_nat reg) v d) i = (en d i \<or> i div 32 = reg \<and> bit v (i mod 32))) \<and>
     (\<forall>reg < 32. \<forall>v d. \<forall>i \<in> L. en (dw (b + 0x180 + 4 * of_nat reg) v d) i = (en d i \<and> \<not> (i div 32 = reg \<and> bit v (i mod 32)))) \<and>
     (\<forall>a v d. unat a < unat b + 0x100 \<or> unat b + 0x200 \<le> unat a \<longrightarrow> (\<forall>i \<in> L. en (dw a v d) i = en d i))"

text \<open>A sequence of calls of \<open>gic_enable_irq\<close> (\<open>True\<close>) and \<open>gic_disable_irq\<close>, and the set it stands for.\<close>

fun gic_calls :: "(bool \<times> int) list \<Rightarrow> gic_state \<Rightarrow> gic_state option" where
  "gic_calls [] s = Some s"
| "gic_calls ((on, irq) # ops) s = Option.bind (if on then gic_enable_irq irq s else gic_disable_irq irq s) (gic_calls ops)"

fun enabled_set :: "(bool \<times> int) list \<Rightarrow> int set \<Rightarrow> int set" where
  "enabled_set [] A = A"
| "enabled_set ((on, irq) # ops) A =
     enabled_set ops (if irq < 0 \<or> irq \<ge> 1020 then A else if on then insert irq A else A - {irq})"

lemma device_after_append [simp]: "device_after dw (xs @ ys) d = device_after dw ys (device_after dw xs d)"
  by (simp add: device_after_def)

lemma device_after_one [simp]: "device_after dw [Gic_write a v] d = dw a v d" "device_after dw [] d = d"
  by (simp_all add: device_after_def)

lemma irq_register:
  assumes "0 \<le> irq" "irq < 1020" "ofs = 0x100 \<or> ofs = 0x180"
  shows "4 * ucast ((ofs + of_int (irq div 32) * 4 :: u32) div 4) = (ucast ofs + 4 * of_nat (nat irq div 32) :: u64)" "nat irq div 32 < 32"
proof -
  have r: "nat irq div 32 < 32" using assms by simp
  then show "nat irq div 32 < 32" .
  have i: "(of_int (irq div 32) :: u32) = of_nat (nat irq div 32)" using assms(1) by (simp add: nat_div_distrib of_nat_nat [symmetric] flip: of_nat_nat)
  have e: "unat (ofs + of_nat (nat irq div 32) * 4) = unat ofs + nat irq div 32 * 4"
    using r assms(3) by (auto simp: unat_word_ariths unat_of_nat)
  have "unat ((ofs + of_nat (nat irq div 32) * 4) div 4) = unat ofs div 4 + nat irq div 32" unfolding unat_div e using assms(3) by auto
  then have "(ucast ((ofs + of_nat (nat irq div 32) * 4) div 4) :: u64) = of_nat (unat ofs div 4 + nat irq div 32)"
    by (metis of_nat_unat)
  then show "4 * ucast ((ofs + of_int (irq div 32) * 4 :: u32) div 4) = (ucast ofs + 4 * of_nat (nat irq div 32) :: u64)"
    unfolding i using assms(3) by auto
qed


text \<open>One call changes the state of one interrupt.\<close>

lemma gic_call_device:
  assumes dev: "gicd_device L dw en (gicd_base s)" and b: "gicd_base s \<noteq> 0"
  shows "\<exists>s'. (if on then gic_enable_irq irq s else gic_disable_irq irq s) = Some s' \<and> gicd_base s' = gicd_base s \<and>
    (\<forall>i \<in> L. en (device_after dw (gic_io s') d) i =
      (if 0 \<le> irq \<and> irq < 1020 \<and> i = nat irq then on else en (device_after dw (gic_io s) d) i))"
proof (cases "irq < 0 \<or> irq \<ge> 1020")
  case True
  then show ?thesis by (auto simp: gic_enable_irq_def gic_disable_irq_def)
next
  case False
  define reg where "reg = nat irq div 32"
  have reg: "reg < 32" "4 * ucast ((GICD_ISENABLER + of_int (irq div 32) * 4 :: u32) div 4) = (0x100 + 4 * of_nat reg :: u64)"
    "4 * ucast ((GICD_ICENABLER + of_int (irq div 32) * 4 :: u32) div 4) = (0x180 + 4 * of_nat reg :: u64)"
    using irq_register(1) [of irq 256] irq_register(1) [of irq 384] irq_register(2) [of irq 256] False
    by (simp_all add: GICD_ISENABLER_def GICD_ICENABLER_def reg_def)
  have m: "nat (irq mod 32) = nat irq mod 32" using False by (simp add: nat_mod_distrib)
  have bt: "i div 32 = reg \<and> bit (push_bit (nat (irq mod 32)) 1 :: u32) (i mod 32) \<longleftrightarrow> i = nat irq" for i
    unfolding m reg_def by (auto simp: bit_simps bit_1_iff) (metis div_mult_mod_eq)
  let ?v = "push_bit (nat (irq mod 32)) 1 :: u32"
  have "en (dw (gicd_base s + 0x100 + 4 * of_nat reg) ?v e) i = (i = nat irq \<or> en e i)"
    "en (dw (gicd_base s + 0x180 + 4 * of_nat reg) ?v e) i = (i \<noteq> nat irq \<and> en e i)" if "i \<in> L" for e i
    using dev reg(1) that unfolding gicd_device_def bt [symmetric] by blast+
  then show ?thesis using False b
    by (simp add: gic_enable_irq_def gic_disable_irq_def gicd_write_def gic_do_def reg(2,3) Let_def add.assoc)
qed

text \<open>After start-up of a GICv2 nothing is enabled.\<close>

lemma gic_init_v2_device:
  assumes dev: "gicd_device L dw en 0x08000000" and empty: "gic_io s = []"
  shows "\<exists>s'. gic_init_v2 s = Some s' \<and> gicd_base s' = 0x08000000 \<and> (\<forall>i \<in> L. i < 1024 \<longrightarrow> \<not> en (device_after dw (gic_io s') d) i)"
proof -
  define P where "P k t \<longleftrightarrow> gicd_base t = 0x08000000 \<and> gicc_base t = 0x08010000 \<and> (\<forall>i \<in> L. i < k * 32 \<longrightarrow> \<not> en (device_after dw (gic_io t) d) i)" for k and t :: gic_state
  define s0 where "s0 = s\<lparr>gicd_base := 0x08000000, gicc_base := 0x08010000, gic_io := [Gic_write 0x08000000 0]\<rparr>"
  have out: "en (dw a v e) i = en e i" if "unat a < 0x08000100 \<or> 0x08000200 \<le> unat a" "i \<in> L" for a v e i
    using dev that by (auto simp: gicd_device_def)
  have clear: "\<exists>t'. gicd_write (GICD_ICENABLER + of_nat k * 4) 0xFFFFFFFF t = Some t' \<and> P (Suc k) t'" if "P k t" "k < 32" for k t
  proof -
    have "4 * ucast ((GICD_ICENABLER + of_nat k * 4 :: u32) div 4) = (0x180 + 4 * of_nat k :: u64)"
      using irq_register(1) [of "32 * int k" 384] that(2) by (simp add: GICD_ICENABLER_def nat_mult_distrib)
    moreover have "\<not> en (dw (0x08000000 + 0x180 + 4 * of_nat k) 0xFFFFFFFF e) i" if "i < k * 32 \<longrightarrow> \<not> en e i" "i < Suc k * 32" "i \<in> L" for e i
    proof -
      have "en (dw (0x08000000 + 0x180 + 4 * of_nat k) 0xFFFFFFFF e) i = (en e i \<and> \<not> (i div 32 = k \<and> bit (0xFFFFFFFF :: u32) (i mod 32)))"
        using dev \<open>k < 32\<close> that(3) unfolding gicd_device_def by blast
      moreover have "bit (0xFFFFFFFF :: u32) (i mod 32)"
      proof -
        have m: "(0xFFFFFFFF :: u32) = mask 32" by (simp add: mask_eq_exp_minus_1)
        show ?thesis unfolding m by (simp only: bit_mask_iff) simp
      qed
      moreover have "i < k * 32 \<or> i div 32 = k" using that(2) by auto
      ultimately show ?thesis using that(1) by blast
    qed
    ultimately show ?thesis using that(1) by (simp add: P_def gicd_write_def gic_do_def add.assoc)
  qed
  have "P 0 s0" by (simp add: P_def s0_def)
  then obtain t where t: "for_upto 0 32 (\<lambda>i. gicd_write (GICD_ICENABLER + of_nat i * 4) 0xFFFFFFFF) s0 = Some t" "P 32 t"
    using for_upto_inv [of 0 32 P s0 "\<lambda>i. gicd_write (GICD_ICENABLER + of_nat i * 4) 0xFFFFFFFF"] clear by auto
  have start: "gicd_write GICD_CTLR 0 (s\<lparr>gicd_base := 0x08000000, gicc_base := 0x08010000\<rparr>) = Some s0"
    using empty by (simp add: gicd_write_def gic_do_def GICD_CTLR_def s0_def)
  have run: "gic_init_v2 s = do {
     s \<leftarrow> gicd_write GICD_CTLR 1 t;
     s \<leftarrow> gicc_write GICC_PMR 0xFF s;
     s \<leftarrow> gicc_write GICC_CTLR 1 s;
     Some (gic_do (Write_daifclr 2) s) }" by (simp add: gic_init_v2_def start t(1))
  have "(4 :: u32) div 4 = 1" by simp
  then show ?thesis using t(2) unfolding run
    by (simp add: P_def gicd_write_def gicc_write_def gic_do_def GICD_CTLR_def GICC_PMR_def GICC_CTLR_def)
      (simp add: device_after_def out)
qed


subsection \<open>Messages\<close>

text \<open>The log is in order and switched on.\<close>

definition log_ok :: "klog_state \<Rightarrow> bool" where
  "log_ok l \<longleftrightarrow> (\<exists>q. klog_inv l q) \<and> klog_inited l"

lemma log_write_ok:
  assumes "log_ok l"
  shows "\<exists>n l'. log_write_str level (Some msg) l = Some (n, l') \<and> log_ok l'"
proof (cases "level \<le> klog_level l")
  case True
  with assms log_write_stored [of l _ level msg] show ?thesis by (fastforce simp: log_ok_def)
next
  case False
  then have "log_write_str level (Some msg) l = Some (0, console_write level msg l)"
    using assms by (simp add: log_write_str_def console_part Let_def log_ok_def)
  then show ?thesis using assms by (auto simp: log_ok_def)
qed

lemma printk_ok:
  assumes "cs fmt f" "items_text (\<lambda>_. None) (items f) as = Some u" "length u < 2 ^ 31" "log_ok (pk_log s)"
  shows "\<exists>s'. printk m (Some fmt) as s = Some (int (length u), s') \<and> log_ok (pk_log s')"
proof -
  obtain b' where p: "vfprintk 1 m (Some fmt) as s = map_option (\<lambda>(_, l). (int (length u), \<lparr>pk_buf = b', pk_log = l\<rparr>))
    (log_write_str 6 (Some (takeWhile (\<lambda>c. c \<noteq> 0) (take 511 u))) (pk_log s))"
    using vfprintk_logs [OF assms(1) _ assms(2,3), of m 1 s] by auto
  from log_write_ok [OF assms(4)] obtain n l' where
    "log_write_str 6 (Some (takeWhile (\<lambda>c. c \<noteq> 0) (take 511 u))) (pk_log s) = Some (n, l')" "log_ok l'" by blast
  then show ?thesis using p by (simp add: printk_def vprintk_def STDOUT_FD_def)
qed

lemma items_plain: "37 \<notin> set f \<Longrightarrow> items_text strs (items f) as = Some f"
  by (induction f rule: items.induct) auto

lemma print_lit_ok:
  assumes "37 \<notin> set (ascii t)" "0 \<notin> set (ascii t)" "length t < 2 ^ 31" "log_ok (pk_log pk)"
  shows "\<exists>pk'. print_lit m t pk = Some pk' \<and> log_ok (pk_log pk')"
proof -
  have "cs (lit (ascii t)) (ascii t)" using cs_lit assms(2) by blast
  from printk_ok [OF this items_plain [OF assms(1)] _ assms(4), where as = "[]" and m = m] assms(3) obtain pk' where
    "printk m (Some (lit (ascii t))) [] pk = Some (int (length (ascii t)), pk')" "log_ok (pk_log pk')" by (auto simp: ascii_def)
  then show ?thesis by (simp add: print_lit_def)
qed


lemma gic_calls_device:
  assumes "gicd_device L dw en (gicd_base s)" "gicd_base s \<noteq> 0"
    "\<And>i. i \<in> L \<Longrightarrow> i < 1020 \<Longrightarrow> en (device_after dw (gic_io s) d) i \<longleftrightarrow> int i \<in> A"
  shows "\<exists>s'. gic_calls ops s = Some s' \<and> (\<forall>i \<in> L. i < 1020 \<longrightarrow> (en (device_after dw (gic_io s') d) i \<longleftrightarrow> int i \<in> enabled_set ops A))"
  using assms
proof (induction ops arbitrary: s A)
  case (Cons c ops)
  obtain on irq where c: "c = (on, irq)" by (cases c) auto
  from gic_call_device [OF Cons.prems(1,2), of on irq d] obtain s1 where
    s1: "(if on then gic_enable_irq irq s else gic_disable_irq irq s) = Some s1" "gicd_base s1 = gicd_base s"
      "\<forall>i \<in> L. en (device_after dw (gic_io s1) d) i =
        (if 0 \<le> irq \<and> irq < 1020 \<and> i = nat irq then on else en (device_after dw (gic_io s) d) i)" by blast
  define A1 where "A1 = (if irq < 0 \<or> irq \<ge> 1020 then A else if on then insert irq A else A - {irq})"
  have "en (device_after dw (gic_io s1) d) i \<longleftrightarrow> int i \<in> A1" if "i \<in> L" "i < 1020" for i
    using Cons.prems(3) [OF that] s1(3) that by (auto simp: A1_def)
  from Cons.IH [of s1 A1, OF _ _ this] Cons.prems(1,2) s1(1,2) show ?case by (simp add: c A1_def)
qed simp

section \<open>Properties\<close>

text \<open>
  C33 For every set \<open>L\<close> of lines whose enable bits the distributor lets software program, as the GICv2 architecture describes
  these bits: after \<open>gic_init\<close> on a GICv2 and any sequence of calls of \<open>gic_enable_irq\<close> and \<open>gic_disable_irq\<close>, a line
  of \<open>L\<close> below 1020 is enabled exactly when the last call for it enabled it, whatever was enabled before; a call for a number that is
  not an interrupt, or for a line outside of \<open>L\<close>, changes no line of \<open>L\<close>. No call is undefined. Nothing is said of the
  lines outside of \<open>L\<close>: the software-generated interrupts where their bits are fixed, and lines that do not exist.
\<close>

theorem gic_enables_exactly:
  assumes "gicd_device L dw en 0x08000000" "gic_io s = []" "gic_detect_version m fdt = Some 2" "log_ok (pk_log pk)"
  shows "\<exists>s0 pk' s1. gic_init m fdt (s, pk) = Some (s0, pk') \<and> log_ok (pk_log pk') \<and> gic_calls ops s0 = Some s1 \<and>
    (\<forall>i \<in> L. i < 1020 \<longrightarrow> (en (device_after dw (gic_io s1) d) i \<longleftrightarrow> int i \<in> enabled_set ops {}))"
proof -
  from gic_init_v2_device [OF assms(1), of "s\<lparr>gic_version := 2\<rparr>" d] assms(2) obtain s0 where
    s0: "gic_init_v2 (s\<lparr>gic_version := 2\<rparr>) = Some s0" "gicd_base s0 = 0x08000000" "\<forall>i \<in> L. i < 1024 \<longrightarrow> \<not> en (device_after dw (gic_io s0) d) i" by auto
  from print_lit_ok [of "''GIC: Detected GICv2\<newline>''" pk m] assms(4) obtain pk1 where
    "print_lit m ''GIC: Detected GICv2\<newline>'' pk = Some pk1" "log_ok (pk_log pk1)" by (auto simp: ascii_def)
  moreover from this(2) print_lit_ok [of "''GIC: initialized\<newline>''" pk1 m] obtain pk2 where
    "print_lit m ''GIC: initialized\<newline>'' pk1 = Some pk2" "log_ok (pk_log pk2)" by (auto simp: ascii_def)
  ultimately have "gic_init m fdt (s, pk) = Some (s0, pk2) \<and> log_ok (pk_log pk2)" using assms(3) s0(1) by (simp add: gic_init_def)
  moreover from gic_calls_device [of L dw en s0 d "{}" ops] assms(1) s0 obtain s1 where
    "gic_calls ops s0 = Some s1" "\<forall>i \<in> L. i < 1020 \<longrightarrow> (en (device_after dw (gic_io s1) d) i \<longleftrightarrow> int i \<in> enabled_set ops {})" by auto
  ultimately show ?thesis by blast
qed

text \<open>
  A distributor with lines 0 to 95 whose software-generated interrupts are always enabled, in the way of common
  implementations: the other bits are stored, and writes for lines from 96 on are ignored.
\<close>

definition demo_gicd :: "u64 \<Rightarrow> u32 \<Rightarrow> (nat \<Rightarrow> bool) \<Rightarrow> nat \<Rightarrow> bool" where
  "demo_gicd a v d i =
     (if i < 16 then True
      else if 96 \<le> i then False
      else if unat a = 0x08000100 + 4 * (i div 32) then d i \<or> bit v (i mod 32)
      else if unat a = 0x08000180 + 4 * (i div 32) then d i \<and> \<not> bit v (i mod 32) else d i)"

lemma demo_gicd_device: "gicd_device {16..<96} demo_gicd (\<lambda>d. d) 0x08000000"
proof -
  have a: "unat (0x08000000 + 0x100 + 4 * of_nat reg :: u64) = 0x08000100 + 4 * reg"
    "unat (0x08000000 + 0x180 + 4 * of_nat reg :: u64) = 0x08000180 + 4 * reg" if "reg < 32" for reg
    using that by (simp_all add: unat_word_ariths unat_of_nat)
  show ?thesis unfolding gicd_device_def
  proof (intro conjI allI ballI impI)
    fix reg v and d :: "nat \<Rightarrow> bool" and i :: nat
    assume reg: "(reg :: nat) < 32" and i: "i \<in> {16..<96}"
    then show "demo_gicd (0x08000000 + 0x100 + 4 * of_nat reg) v d i = (d i \<or> i div 32 = reg \<and> bit v (i mod 32))"
      "demo_gicd (0x08000000 + 0x180 + 4 * of_nat reg) v d i = (d i \<and> \<not> (i div 32 = reg \<and> bit v (i mod 32)))"
      using a [OF reg] reg by (auto simp: demo_gicd_def simp del: unat_0)
  next
    fix a :: u64 and v and d :: "nat \<Rightarrow> bool" and i :: nat
    assume "unat a < unat (0x08000000 :: u64) + 0x100 \<or> unat (0x08000000 :: u64) + 0x200 \<le> unat a" "i \<in> {16..<96}"
    then show "demo_gicd a v d i = d i" by (auto simp: demo_gicd_def)
  qed
qed

definition gic_boot :: gic_state where
  "gic_boot = \<lparr>gicd_base = 0, gicc_base = 0, gic_version = 0, gic_io = []\<rparr>"

lemma pk_boot_ok: "log_ok (pk_log pk_boot)"
  using log_init_inv(1,2) by (auto simp: pk_boot_def log_ok_def)

theorem gic_enables_exactly_witness:
  "\<exists>s0 pk' s1. gic_init (\<lambda>_. None) 0 (gic_boot, pk_boot) = Some (s0, pk') \<and>
     gic_calls [(True, 30), (True, 33), (False, 33)] s0 = Some s1 \<and>
     (\<forall>i \<in> {16..<96}. device_after demo_gicd (gic_io s1) (\<lambda>_. True) i \<longleftrightarrow> i = 30)"
proof -
  have "gic_io gic_boot = []" "gic_detect_version (\<lambda>_. None) 0 = Some 2" by (simp_all add: gic_boot_def gic_detect_version_def)
  from gic_enables_exactly [OF demo_gicd_device this pk_boot_ok, of "[(True, 30), (True, 33), (False, 33)]" "\<lambda>_. True"] show ?thesis by auto
qed

lemma gic_version_of_3:
  "gic_version_of ts = 3 \<longleftrightarrow> (\<exists>data. Prop str_compatible data \<in> set (takeWhile (\<lambda>t. t \<noteq> Nop) ts) \<and> take 10 data = str_gic_v3)"
  by (induction ts rule: gic_version_of.induct) auto

lemma gic_version_of_range: "gic_version_of ts = 2 \<or> gic_version_of ts = 3"
  by (induction ts rule: gic_version_of.induct) auto

text \<open>
  The search for the version ends on every well-formed device tree, reads nothing outside of it, and answers 3 exactly
  when some property \<open>compatible\<close> starts with arm,gic-v3, as long as no NOP token stands before it: the code stops at
  a NOP.
\<close>

theorem gic_detect_version_scan:
  assumes "fdt_holds m fdt ts" "hdr_off_struct m fdt = Some off_struct" "unat off_struct mod 4 = 0" "\<forall>t \<in> set ts. compat_ok t"
  shows "gic_detect_version m fdt =
    Some (if \<exists>data. Prop str_compatible data \<in> set (takeWhile (\<lambda>t. t \<noteq> Nop) ts) \<and> take 10 data = str_gic_v3 then 3 else 2)"
proof -
  from assms(1,2) obtain str where f: "fdt \<noteq> 0" "hdr_off_strings m fdt = Some str" "toks_at m fdt (fdt + ucast str) off_struct ts"
    by (auto simp: fdt_holds_def)
  from gic_loop_spec [OF f(3) assms(3,4)] have "gic_detect_version m fdt = Some (gic_version_of ts)"
    by (simp add: gic_detect_version_def f(1,2) assms(2))
  then show ?thesis using gic_version_of_3 [of ts] gic_version_of_range [of ts] by auto
qed

lemma fdt_blob_off_struct:
  assumes "length (fdt_blob ts) < 2 ^ 31"
  shows "hdr_off_struct (mem_of a (fdt_blob ts)) a = Some 16"
proof -
  obtain b s where bs: "fdt_enc 0 ts = (b, s)" by fastforce
  have "holds (mem_of a (fdt_blob ts)) a (fdt_blob ts)"
    using assms by (simp add: holds_def mem_of_def mem_put_def unat_of_nat)
  then have "holds (mem_of a (fdt_blob ts)) (a + 8) (be_enc 16)"
    using bs by (simp add: fdt_blob_def holds_append add.assoc)
  then show ?thesis by (simp add: hdr_off_struct_def ld_be_enc)
qed

definition demo_gic_tree :: "tok list" where
  "demo_gic_tree = [Begin_node [], Begin_node [105], Prop str_compatible (str_gic_v3 @ [0]), End_node, End_node]"

theorem gic_detect_version_scan_witness:
  "gic_detect_version (mem_of 4096 (fdt_blob demo_gic_tree)) 4096 = Some 3"
proof -
  have len: "length (fdt_blob demo_gic_tree) < 2 ^ 31"
    by (simp add: demo_gic_tree_def fdt_blob_def enc_tok_def enc_name_def be_enc_def padded_def str_gic_bytes)
  have "fdt_holds (mem_of 4096 (fdt_blob demo_gic_tree)) 4096 demo_gic_tree"
    by (rule fdt_blob_holds [OF len]) (simp_all add: demo_gic_tree_def tok_names_ok_def str_gic_bytes)
  moreover have "hdr_off_struct (mem_of 4096 (fdt_blob demo_gic_tree)) 4096 = Some 16" by (rule fdt_blob_off_struct [OF len])
  moreover have "\<forall>t \<in> set demo_gic_tree. compat_ok t" by (auto simp: demo_gic_tree_def compat_ok_def)
  ultimately have "gic_detect_version (mem_of 4096 (fdt_blob demo_gic_tree)) 4096 =
    Some (if \<exists>data. Prop str_compatible data \<in> set (takeWhile (\<lambda>t. t \<noteq> Nop) demo_gic_tree) \<and> take 10 data = str_gic_v3 then 3 else 2)"
    by (intro gic_detect_version_scan [where off_struct = 16]) simp_all
  moreover have "Prop str_compatible (str_gic_v3 @ [0]) \<in> set (takeWhile (\<lambda>t. t \<noteq> Nop) demo_gic_tree) \<and> take 10 (str_gic_v3 @ [0]) = str_gic_v3"
    by (simp add: demo_gic_tree_def str_gic_bytes)
  ultimately show ?thesis by auto
qed

end
