(* ===== verification/Irq.thy ===== *)
theory Irq
  imports Gic Sched
begin

text \<open>
  Interrupts from the vector to the scheduler: the table of handlers (\<open>src/kernel/irq.c\<close>), the entry point
  (\<open>src/kernel/irq_handler.c\<close>) and the timer (\<open>src/drivers/timer.c\<close>), whose handler calls \<open>schedule_preempt\<close>. What the
  interrupt controller and the counter answer are arguments; writes to the timer registers are a trace.
\<close>

section \<open>Definitions\<close>

subsection \<open>The table of handlers\<close>

definition MAX_IRQS :: int where "MAX_IRQS = 1024"

text \<open>A pointer to a function: the handler of the timer, or another one by its address.\<close>

datatype handler = Timer_irq_handler | Other_handler u64

record irq_desc =
  desc_handler :: "handler option"
  desc_dev :: u64

type_synonym irq_table = "nat \<Rightarrow> irq_desc"

definition irq_init :: irq_table where
  "irq_init = (\<lambda>_. \<lparr>desc_handler = None, desc_dev = 0\<rparr>)"

definition irq_install_handler :: "int \<Rightarrow> handler option \<Rightarrow> u64 \<Rightarrow> irq_table \<Rightarrow> int \<times> irq_table" where
  "irq_install_handler irq handler dev tb =
     (if irq < 0 \<or> irq \<ge> MAX_IRQS \<or> handler = None then (-1, tb)
      else if desc_handler (tb (nat irq)) \<noteq> None then (-2, tb)
      else (0, tb(nat irq := \<lparr>desc_handler = handler, desc_dev = dev\<rparr>)))"

definition irq_uninstall_handler :: "int \<Rightarrow> irq_table \<Rightarrow> irq_table" where
  "irq_uninstall_handler irq tb =
     (if irq < 0 \<or> irq \<ge> MAX_IRQS then tb else tb(nat irq := \<lparr>desc_handler = None, desc_dev = 0\<rparr>))"

text \<open>\<open>call h irq dev\<close> is the call of handler \<open>h\<close> on the state that the handlers share.\<close>

definition irq_dispatch ::
  "(handler \<Rightarrow> int \<Rightarrow> u64 \<Rightarrow> 's \<Rightarrow> ('e + 's) option) \<Rightarrow> irq_table \<Rightarrow> int \<Rightarrow> 's \<Rightarrow> ('e + 's) option" where
  "irq_dispatch call tb irq s =
     (if irq < 0 \<or> irq \<ge> MAX_IRQS then Some (Inr s)
      else case desc_handler (tb (nat irq)) of None \<Rightarrow> Some (Inr s)
        | Some h \<Rightarrow> call h irq (desc_dev (tb (nat irq))) s)"

definition irq_enable :: "int \<Rightarrow> gic_state \<Rightarrow> gic_state option" where
  "irq_enable irq s = gic_enable_irq irq s"

definition irq_disable :: "int \<Rightarrow> gic_state \<Rightarrow> gic_state option" where
  "irq_disable irq s = gic_disable_irq irq s"

subsection \<open>The timer\<close>

definition TIMER_IRQ :: int where "TIMER_IRQ = 30"

datatype timer_io = Cntp_tval u64 | Cntp_ctl u64

record timer_state =
  jiffies :: u64
  timer_freq :: u32
  timer_io :: "timer_io list"

text \<open>The state that an interrupt works on; \<open>m_regs\<close> are the registers of the interrupted code, which the return
  from the interrupt loads.\<close>

record machine =
  m_regs :: cpu_context
  m_gic :: gic_state
  m_irqs :: irq_table
  m_timer :: timer_state
  m_sched :: sched_state
  m_pk :: pk_state

text \<open>The counter and its frequency are read from the processor; a frequency of 0 is a division by zero.\<close>

definition get_ns :: "u64 \<Rightarrow> u64 \<Rightarrow> u64 option" where
  "get_ns cntpct cntfrq = (if cntfrq = 0 then None else Some (cntpct * 1000000000 div cntfrq))"

definition write_cntp_tval :: "u32 \<Rightarrow> timer_state \<Rightarrow> timer_state" where
  "write_cntp_tval val t = t\<lparr>timer_io := timer_io t @ [Cntp_tval (ucast val)]\<rparr>"

definition write_cntp_ctl :: "u32 \<Rightarrow> timer_state \<Rightarrow> timer_state" where
  "write_cntp_ctl val t = t\<lparr>timer_io := timer_io t @ [Cntp_ctl (ucast val)]\<rparr>"

text \<open>\<open>now1\<close> and \<open>now2\<close> are what \<open>get_ns\<close> answers to the two calls in \<open>schedule_preempt\<close>; \<open>mem\<close> is the memory that formats
  and strings are read from.\<close>

definition timer_irq_handler :: "cmem \<Rightarrow> u64 \<Rightarrow> u64 \<Rightarrow> machine \<Rightarrow> (sched_panic + machine) option" where
  "timer_irq_handler mem now1 now2 s =
     (let s = s\<lparr>m_timer := (m_timer s)\<lparr>jiffies := jiffies (m_timer s) + 1\<rparr>\<rparr>
      in and_then (schedule_preempt (m_regs s) now1 now2 (m_sched s)) (\<lambda>(regs, sc). do {
        let s = s\<lparr>m_regs := regs, m_sched := sc\<rparr>;
        let s = s\<lparr>m_timer := write_cntp_tval (timer_freq (m_timer s) div 100) (m_timer s)\<rparr>;
        if jiffies (m_timer s) mod 10 = 0 then do {
          pk \<leftarrow> print_lit mem ''.'' (m_pk s);
          Some (Inr (s\<lparr>m_pk := pk\<rparr>))
        } else Some (Inr s) }))"

definition timer_init :: "cmem \<Rightarrow> u32 \<Rightarrow> u64 \<Rightarrow> machine \<Rightarrow> machine option" where
  "timer_init mem freq_hz cntfrq s = do {
     let s = s\<lparr>m_timer := (m_timer s)\<lparr>timer_freq := ucast cntfrq\<rparr>\<rparr>;
     (_, pk) \<leftarrow> printk mem (Some (lit (ascii ''Timer: frequency %u Hz, target %u Hz\<newline>'')))
       [Va_int (timer_freq (m_timer s)), Va_int freq_hz] (m_pk s);
     let s = s\<lparr>m_pk := pk\<rparr>;
     let s = s\<lparr>m_irqs := snd (irq_install_handler TIMER_IRQ (Some Timer_irq_handler) 0 (m_irqs s))\<rparr>;
     if freq_hz = 0 then None else do {
       let t = write_cntp_ctl 0 (m_timer s);
       let t = write_cntp_tval (timer_freq t div freq_hz) t;
       let s = s\<lparr>m_timer := write_cntp_ctl 1 t\<rparr>;
       g \<leftarrow> irq_enable TIMER_IRQ (m_gic s);
       pk \<leftarrow> print_lit mem ''Timer: initialized\<newline>'' (m_pk s);
       Some (s\<lparr>m_gic := g, m_pk := pk\<rparr>) } }"

definition timer_get_ticks :: "timer_state \<Rightarrow> u64" where
  "timer_get_ticks t = jiffies t"

text \<open>\<open>while (read_cntpct() - start < delta) ;\<close> where \<open>cnt k\<close> is the answer to the read number \<open>k\<close>; the result is the
  number of the read that ended the loop.\<close>

partial_function (option) udelay_loop :: "(nat \<Rightarrow> u64) \<Rightarrow> u64 \<Rightarrow> u64 \<Rightarrow> nat \<Rightarrow> nat option" where
  "udelay_loop cnt start delta k = (if cnt k - start < delta then udelay_loop cnt start delta (Suc k) else Some k)"

definition timer_udelay :: "(nat \<Rightarrow> u64) \<Rightarrow> u32 \<Rightarrow> timer_state \<Rightarrow> nat option" where
  "timer_udelay cnt us t =
     (let start = cnt 0; delta = ucast us * ucast (timer_freq t) div 1000000
      in udelay_loop cnt start delta 1)"

definition delay :: "(nat \<Rightarrow> u64) \<Rightarrow> u32 \<Rightarrow> timer_state \<Rightarrow> nat option" where
  "delay cnt ms t = timer_udelay cnt (ms * 1000) t"

definition delay_sec :: "(nat \<Rightarrow> u64) \<Rightarrow> u32 \<Rightarrow> timer_state \<Rightarrow> nat option" where
  "delay_sec cnt s t = timer_udelay cnt (s * 1000000) t"

subsection \<open>The entry point\<close>

text \<open>The handlers other than that of the timer are a parameter.\<close>

definition call_handler ::
  "(u64 \<Rightarrow> int \<Rightarrow> u64 \<Rightarrow> machine \<Rightarrow> (sched_panic + machine) option) \<Rightarrow> cmem \<Rightarrow> u64 \<Rightarrow> u64 \<Rightarrow>
   handler \<Rightarrow> int \<Rightarrow> u64 \<Rightarrow> machine \<Rightarrow> (sched_panic + machine) option" where
  "call_handler others mem now1 now2 h irq dev s =
     (case h of Timer_irq_handler \<Rightarrow> timer_irq_handler mem now1 now2 s | Other_handler a \<Rightarrow> others a irq dev s)"

text \<open>\<open>iar\<close> is the answer of the interrupt controller.\<close>

definition handle_irq ::
  "(u64 \<Rightarrow> int \<Rightarrow> u64 \<Rightarrow> machine \<Rightarrow> (sched_panic + machine) option) \<Rightarrow> cmem \<Rightarrow> u64 \<Rightarrow> u64 \<Rightarrow> u64 \<Rightarrow>
   machine \<Rightarrow> (sched_panic + machine) option" where
  "handle_irq others mem now1 now2 iar s = do {
     (irq, g) \<leftarrow> gic_ack_irq iar (m_gic s);
     let s = s\<lparr>m_gic := g\<rparr>;
     and_then (if irq < 1020 then irq_dispatch (call_handler others mem now1 now2) (m_irqs s) (uint irq) s else Some (Inr s)) (\<lambda>s. do {
       g \<leftarrow> gic_eoi_irq irq (m_gic s);
       Some (Inr (s\<lparr>m_gic := g\<rparr>)) }) }"


subsection \<open>The invariant of the machine\<close>

text \<open>
  Scheduler and log are in order, a task is running, the interrupt controller can be reached, and the handler
  of the timer is the only one that is installed. (How many tasks there may be is a condition of its own.)
\<close>

definition machine_ok :: "machine \<Rightarrow> u64 list \<Rightarrow> u64 list \<Rightarrow> bool" where
  "machine_ok s q ts \<longleftrightarrow> sched_wf (m_sched s) q ts (current_task (m_sched s)) \<and> current_task (m_sched s) \<noteq> None \<and> log_ok (pk_log (m_pk s)) \<and>
     (gic_version (m_gic s) = 3 \<or> gicc_base (m_gic s) \<noteq> 0) \<and>
     (\<forall>i. desc_handler (m_irqs s i) = (if i = nat TIMER_IRQ then Some Timer_irq_handler else None))"

text \<open>
  What the timer interrupt does to the tasks, from the scheduler state \<open>sc\<close> with queue \<open>q\<close>, running task \<open>c\<close> and registers \<open>ctx\<close> to \<open>sc'\<close>, \<open>q'\<close>,
  \<open>n\<close> and \<open>ctx'\<close>.
\<close>

definition preempts ::
  "u64 \<Rightarrow> u64 \<Rightarrow> cpu_context \<Rightarrow> sched_state \<Rightarrow> u64 list \<Rightarrow> u64 \<Rightarrow> cpu_context \<Rightarrow> sched_state \<Rightarrow> u64 list \<Rightarrow> u64 \<Rightarrow> bool" where
  "preempts now1 now2 ctx sc q c ctx' sc' q' n \<longleftrightarrow> current_task sc' = Some n \<and>
     ctx' = (if n = c then ctx else set_ctx_x 23 now2 (t_context (tk sc n))) \<and>
     (n \<noteq> c \<longrightarrow> t_context (tk sc' c) = set_ctx_x 23 now1 ctx \<and> (t_pid (tk sc c) \<noteq> 0 \<longrightarrow> c \<in> set q')) \<and>
     (q = [] \<longrightarrow> n = c) \<and> (q \<noteq> [] \<and> (t_pid (tk sc c) = 0 \<or> now1 \<noteq> ctx_x23 ctx) \<longrightarrow> n = hd q)"

text \<open>Acknowledge and end, as the interrupt controller sees them.\<close>

definition ack_io :: "gic_state \<Rightarrow> gic_io" where
  "ack_io g = (if gic_version g = 3 then Read_icc_iar1 else Gic_read (gicc_base g + 0xC))"

definition eoi_io :: "u32 \<Rightarrow> gic_state \<Rightarrow> gic_io" where
  "eoi_io irq g = (if gic_version g = 3 then Write_icc_eoir1 (ucast irq) else Gic_write (gicc_base g + 0x10) irq)"

section \<open>Lemmas\<close>

lemma gic_ack_eoi:
  assumes "gic_version g = 3 \<or> gicc_base g \<noteq> 0"
  shows "gic_ack_irq iar g = Some (ucast iar, gic_do (ack_io g) g)" "gic_eoi_irq irq g = Some (gic_do (eoi_io irq g) g)"
proof -
  have d: "(0xC :: u32) div 4 = 3" "(0x10 :: u32) div 4 = 4" by simp_all
  show "gic_ack_irq iar g = Some (ucast iar, gic_do (ack_io g) g)" "gic_eoi_irq irq g = Some (gic_do (eoi_io irq g) g)"
    using assms by (auto simp: gic_ack_irq_def gic_eoi_irq_def gicv3_read_icc_iar1_def gicv3_write_icc_eoir1_def gicc_read_def gicc_write_def
      ack_io_def eoi_io_def GICC_IAR_def GICC_EOIR_def d)
qed

lemma gic_do_simps [simp]:
  "gic_version (gic_do e g) = gic_version g" "gicc_base (gic_do e g) = gicc_base g" "gicd_base (gic_do e g) = gicd_base g"
  "gic_io (gic_do e g) = gic_io g @ [e]" "ack_io (gic_do e g) = ack_io g" "eoi_io irq (gic_do e g) = eoi_io irq g"
  by (simp_all add: gic_do_def ack_io_def eoi_io_def)

text \<open>The handler of the timer.\<close>

lemma timer_irq_handler_spec:
  assumes "sched_ok (m_sched s) q ts" "current_task (m_sched s) = Some c" "log_ok (pk_log (m_pk s))"
  shows "\<exists>s' q' n. timer_irq_handler mem now1 now2 s = Some (Inr s') \<and> sched_ok (m_sched s') q' ts \<and>
    preempts now1 now2 (m_regs s) (m_sched s) q c (m_regs s') (m_sched s') q' n \<and>
    m_timer s' = \<lparr>jiffies = jiffies (m_timer s) + 1, timer_freq = timer_freq (m_timer s),
      timer_io = timer_io (m_timer s) @ [Cntp_tval (ucast (timer_freq (m_timer s) div 100))]\<rparr> \<and>
    m_gic s' = m_gic s \<and> m_irqs s' = m_irqs s \<and> log_ok (pk_log (m_pk s')) \<and>
    ((jiffies (m_timer s) + 1) mod 10 \<noteq> 0 \<longrightarrow> m_pk s' = m_pk s)"
proof -
  from schedule_preempt_choice [OF assms(1,2), of "m_regs s" now1 now2] obtain ctx n sc q' where
    p: "schedule_preempt (m_regs s) now1 now2 (m_sched s) = Some (Inr (ctx, sc))" "sched_ok sc q' ts"
      "preempts now1 now2 (m_regs s) (m_sched s) q c ctx sc q' n" unfolding preempts_def by blast
  from print_lit_ok [of "''.''" "m_pk s" mem] assms(3) obtain pk where
    pk: "print_lit mem ''.'' (m_pk s) = Some pk" "log_ok (pk_log pk)" by (auto simp: ascii_def)
  define s' where "s' = s\<lparr>m_timer := write_cntp_tval (timer_freq (m_timer s) div 100) ((m_timer s)\<lparr>jiffies := jiffies (m_timer s) + 1\<rparr>),
    m_regs := ctx, m_sched := sc, m_pk := (if (jiffies (m_timer s) + 1) mod 10 = 0 then pk else m_pk s)\<rparr>"
  have "timer_irq_handler mem now1 now2 s = Some (Inr s')"
    using p(1) pk(1) by (simp add: timer_irq_handler_def s'_def write_cntp_tval_def Let_def)
  moreover have "m_timer s' = \<lparr>jiffies = jiffies (m_timer s) + 1, timer_freq = timer_freq (m_timer s),
      timer_io = timer_io (m_timer s) @ [Cntp_tval (ucast (timer_freq (m_timer s) div 100))]\<rparr>"
    by (cases "m_timer s") (simp add: s'_def write_cntp_tval_def)
  ultimately show ?thesis using p(2,3) pk(2) assms(3)
    by (intro exI [of _ s'] exI [of _ q'] exI [of _ n]) (simp add: s'_def)
qed

lemma timer_irq_handler_full:
  assumes "sched_wf (m_sched s) q ts (Some c)" "current_task (m_sched s) = Some c" "64 < runnable (m_sched s) q (Some c)"
  shows "timer_irq_handler mem now1 now2 s = Some (Inl Ready_not_queued)"
  using schedule_preempt_full [OF assms] by (simp add: timer_irq_handler_def Let_def)

section \<open>Properties\<close>

text \<open>
  C3 Every interrupt keeps the machine in order and is acknowledged and ended exactly once, in this order. The timer
  interrupt counts a tick, sets the timer again for a hundredth of a second and preempts: when another task waits and the interrupted task is
  the idle task or has used some time, the first waiting task runs next; when nothing waits the interrupted task goes on. At a switch
  the interrupted registers are saved and those of the next task are loaded (but for \<open>x23\<close>, which holds the time in both), and the
  interrupted task is queued again. It writes to the log at every tenth tick only. Any other interrupt, spurious ones included,
  changes nothing but the trace. All of this as long as at most 64 tasks other than the idle task are ready or running: with 65 the timer
  interrupt panics.
\<close>

theorem handle_irq_keeps:
  assumes "machine_ok s q ts" "irq = ucast iar" "current_task (m_sched s) = Some c"
  shows "(runnable (m_sched s) q (Some c) \<le> 64 \<longrightarrow>
    (\<exists>s' q'. handle_irq others mem now1 now2 iar s = Some (Inr s') \<and> machine_ok s' q' ts \<and> runnable (m_sched s') q' (current_task (m_sched s')) \<le> 64 \<and>
      gic_io (m_gic s') = gic_io (m_gic s) @ [ack_io (m_gic s), eoi_io irq (m_gic s)] \<and>
      (if uint irq = TIMER_IRQ
       then (\<exists>n. preempts now1 now2 (m_regs s) (m_sched s) q c (m_regs s') (m_sched s') q' n) \<and>
         jiffies (m_timer s') = jiffies (m_timer s) + 1 \<and>
         timer_io (m_timer s') = timer_io (m_timer s) @ [Cntp_tval (ucast (timer_freq (m_timer s) div 100))] \<and>
         ((jiffies (m_timer s) + 1) mod 10 \<noteq> 0 \<longrightarrow> m_pk s' = m_pk s)
       else q' = q \<and> m_sched s' = m_sched s \<and> m_regs s' = m_regs s \<and> m_timer s' = m_timer s \<and> m_pk s' = m_pk s))) \<and>
    (64 < runnable (m_sched s) q (Some c) \<and> uint irq = TIMER_IRQ \<longrightarrow>
       handle_irq others mem now1 now2 iar s = Some (Inl Ready_not_queued))"
proof -
  define g where "g = m_gic s"
  define s0 where "s0 = s\<lparr>m_gic := gic_do (ack_io g) g\<rparr>"
  have sel: "m_regs s0 = m_regs s" "m_sched s0 = m_sched s" "m_timer s0 = m_timer s" "m_irqs s0 = m_irqs s" "m_pk s0 = m_pk s"
    "m_gic s0 = gic_do (ack_io g) g" by (simp_all add: s0_def)
  have g: "gic_version g = 3 \<or> gicc_base g \<noteq> 0" using assms(1) by (simp add: machine_ok_def g_def)
  have run: "handle_irq others mem now1 now2 iar s =
    and_then (if irq < 1020 then irq_dispatch (call_handler others mem now1 now2) (m_irqs s0) (uint irq) s0 else Some (Inr s0)) (\<lambda>s. do {
       g \<leftarrow> gic_eoi_irq irq (m_gic s);
       Some (Inr (s\<lparr>m_gic := g\<rparr>)) })"
    using gic_ack_eoi(1) [OF g] assms(2) by (simp add: handle_irq_def s0_def g_def Let_def)
  have eoi: "gic_eoi_irq irq (gic_do (ack_io g) g) = Some (gic_do (eoi_io irq g) (gic_do (ack_io g) g))"
    using gic_ack_eoi(2) [of "gic_do (ack_io g) g" irq] g by simp
  have uirq: "irq < 1020 \<longleftrightarrow> uint irq < 1020" by (simp add: word_less_def)
  have wf: "sched_wf (m_sched s0) q ts (Some c)" "current_task (m_sched s0) = Some c" "log_ok (pk_log (m_pk s0))"
    using assms(1,3) by (simp_all add: machine_ok_def s0_def)
  have timer: "irq_dispatch (call_handler others mem now1 now2) (m_irqs s0) (uint irq) s0 = timer_irq_handler mem now1 now2 s0"
    if "uint irq = TIMER_IRQ"
    using that assms(1) by (simp add: irq_dispatch_def MAX_IRQS_def TIMER_IRQ_def call_handler_def machine_ok_def s0_def)
  show ?thesis
  proof (intro conjI impI)
    assume room: "runnable (m_sched s) q (Some c) \<le> 64"
    show "\<exists>s' q'. handle_irq others mem now1 now2 iar s = Some (Inr s') \<and> machine_ok s' q' ts \<and> runnable (m_sched s') q' (current_task (m_sched s')) \<le> 64 \<and>
      gic_io (m_gic s') = gic_io (m_gic s) @ [ack_io (m_gic s), eoi_io irq (m_gic s)] \<and>
      (if uint irq = TIMER_IRQ
       then (\<exists>n. preempts now1 now2 (m_regs s) (m_sched s) q c (m_regs s') (m_sched s') q' n) \<and>
         jiffies (m_timer s') = jiffies (m_timer s) + 1 \<and>
         timer_io (m_timer s') = timer_io (m_timer s) @ [Cntp_tval (ucast (timer_freq (m_timer s) div 100))] \<and>
         ((jiffies (m_timer s) + 1) mod 10 \<noteq> 0 \<longrightarrow> m_pk s' = m_pk s)
       else q' = q \<and> m_sched s' = m_sched s \<and> m_regs s' = m_regs s \<and> m_timer s' = m_timer s \<and> m_pk s' = m_pk s)"
    proof (cases "uint irq = TIMER_IRQ")
      case True
      have "sched_ok (m_sched s0) q ts" using wf(1,2) room by (simp add: sched_ok_def sched_inv_def sel)
      from timer_irq_handler_spec [OF this wf(2,3), of mem now1 now2, unfolded sel] obtain s1 q' n where
        t: "timer_irq_handler mem now1 now2 s0 = Some (Inr s1)" "sched_ok (m_sched s1) q' ts"
          "preempts now1 now2 (m_regs s) (m_sched s) q c (m_regs s1) (m_sched s1) q' n"
          "m_timer s1 = \<lparr>jiffies = jiffies (m_timer s) + 1, timer_freq = timer_freq (m_timer s),
            timer_io = timer_io (m_timer s) @ [Cntp_tval (ucast (timer_freq (m_timer s) div 100))]\<rparr>"
          "m_gic s1 = gic_do (ack_io g) g" "m_irqs s1 = m_irqs s" "log_ok (pk_log (m_pk s1))"
          "(jiffies (m_timer s) + 1) mod 10 \<noteq> 0 \<longrightarrow> m_pk s1 = m_pk s" by (elim exE conjE) (rule that)
      have "handle_irq others mem now1 now2 iar s = Some (Inr (s1\<lparr>m_gic := gic_do (eoi_io irq g) (gic_do (ack_io g) g)\<rparr>))"
        unfolding run using True uirq eoi t(1,5) timer by (simp add: TIMER_IRQ_def)
      moreover have "current_task (m_sched s1) = Some n" using t(3) by (simp add: preempts_def)
      ultimately show ?thesis using t assms(1) True g
        by (intro exI [of _ "s1\<lparr>m_gic := gic_do (eoi_io irq g) (gic_do (ack_io g) g)\<rparr>"] exI [of _ q'])
          (auto simp: machine_ok_def g_def sched_ok_def sched_inv_def)
    next
      case False
      then have "nat (uint irq) \<noteq> nat TIMER_IRQ" unfolding TIMER_IRQ_def by (metis nat_eq_iff2 uint_ge_0 zero_le_numeral int_nat_eq)
      then have "desc_handler (m_irqs s (nat (uint irq))) = None" using assms(1) unfolding machine_ok_def by metis
      then have "irq_dispatch (call_handler others mem now1 now2) (m_irqs s0) (uint irq) s0 = Some (Inr s0)"
        by (simp add: irq_dispatch_def s0_def)
      then have "handle_irq others mem now1 now2 iar s = Some (Inr (s0\<lparr>m_gic := gic_do (eoi_io irq g) (gic_do (ack_io g) g)\<rparr>))"
        unfolding run using eoi by (simp add: s0_def)
      then show ?thesis using assms(1,3) False g room
        by (intro exI [of _ "s0\<lparr>m_gic := gic_do (eoi_io irq g) (gic_do (ack_io g) g)\<rparr>"] exI [of _ q]) (auto simp: machine_ok_def s0_def g_def)
    qed
  next
    assume full: "64 < runnable (m_sched s) q (Some c) \<and> uint irq = TIMER_IRQ"
    then have "timer_irq_handler mem now1 now2 s0 = Some (Inl Ready_not_queued)" using timer_irq_handler_full [OF wf(1,2)] by (simp add: sel)
    then show "handle_irq others mem now1 now2 iar s = Some (Inl Ready_not_queued)"
      unfolding run using full uirq timer by (simp add: TIMER_IRQ_def)
  qed
qed


text \<open>One idle task and one task that is ready; the timer is installed.\<close>

definition machine_demo :: "sched_state \<Rightarrow> machine" where
  "machine_demo sc = \<lparr>m_regs = t_context demo_task, m_gic = gic_boot\<lparr>gic_version := 3\<rparr>,
     m_irqs = irq_init(30 := \<lparr>desc_handler = Some Timer_irq_handler, desc_dev = 0\<rparr>),
     m_timer = \<lparr>jiffies = 8, timer_freq = 62500000, timer_io = []\<rparr>, m_sched = sc, m_pk = pk_boot\<rparr>"

theorem handle_irq_keeps_witness:
  "\<exists>sc s' q'. tk sc = demo_tasks \<and> handle_irq (\<lambda>_ _ _ _. None) (\<lambda>_. None) 10 11 30 (machine_demo sc) = Some (Inr s') \<and>
     machine_ok s' q' [4096, 12288, 8192] \<and> gic_io (m_gic s') = [Read_icc_iar1, Write_icc_eoir1 30] \<and>
     current_task (m_sched s') = Some 4096 \<and> jiffies (m_timer s') = 9 \<and> timer_io (m_timer s') = [Cntp_tval 625000]"
proof -
  let ?m = "machine_demo"
  from demo_sched obtain sc where sc: "sched_ok sc [4096] [4096, 12288, 8192]" "current_task sc = Some 12288" "tk sc = demo_tasks" by blast
  then have "machine_ok (?m sc) [4096] [4096, 12288, 8192]" "current_task (m_sched (?m sc)) = Some 12288" "runnable (m_sched (?m sc)) [4096] (Some 12288) \<le> 64"
    using pk_boot_ok by (simp_all add: machine_ok_def machine_demo_def irq_init_def TIMER_IRQ_def sched_ok_def sched_inv_def)
  note m = this
  from handle_irq_keeps [OF m(1) _ m(2), of 30 30 "\<lambda>_ _ _ _. None" "\<lambda>_. None" 10 11] m(3) obtain s' q' n where
    h: "handle_irq (\<lambda>_ _ _ _. None) (\<lambda>_. None) 10 11 30 (?m sc) = Some (Inr s')" "machine_ok s' q' [4096, 12288, 8192]"
    "gic_io (m_gic s') = gic_io (m_gic (?m sc)) @ [ack_io (m_gic (?m sc)), eoi_io 30 (m_gic (?m sc))]"
    "preempts 10 11 (m_regs (?m sc)) (m_sched (?m sc)) [4096] 12288 (m_regs s') (m_sched s') q' n"
    "jiffies (m_timer s') = jiffies (m_timer (?m sc)) + 1"
    "timer_io (m_timer s') = timer_io (m_timer (?m sc)) @ [Cntp_tval (ucast (timer_freq (m_timer (?m sc)) div 100))]"
    by (auto simp: TIMER_IRQ_def)
  have "current_task (m_sched s') = Some 4096" using h(4) by (simp add: preempts_def machine_demo_def demo_task_def)
  with h show ?thesis using sc(3) by (intro exI [of _ sc] exI [of _ s'] exI [of _ q']) (simp add: machine_demo_def ack_io_def eoi_io_def gic_boot_def)
qed

subsection \<open>Time\<close>

text \<open>\<open>get_ns\<close> is exact while the product does not wrap, ...\<close>

lemma get_ns_exact:
  assumes "unat c * 10 ^ 9 < 2 ^ 64" "f \<noteq> 0"
  shows "get_ns c f = Some (of_nat (unat c * 10 ^ 9 div unat f))"
proof -
  have "unat (c * 1000000000) = unat c * 10 ^ 9" using assms(1) by (simp add: unat_word_ariths)
  then have "unat (c * 1000000000 div f) = unat c * 10 ^ 9 div unat f" by (simp add: unat_div)
  then show ?thesis using assms(2) by (metis get_ns_def of_nat_unat ucast_id)
qed

text \<open>... but then it runs backwards, after 295 seconds at 62.5 MHz.\<close>

lemma get_ns_backwards: "get_ns 18446744073 62500000 = Some 295147905168" "get_ns 18446744074 62500000 = Some 4"
  by (simp_all add: get_ns_def)

lemma udelay_loop_ends:
  assumes "\<not> cnt (k + n) - start < delta" "\<forall>j < n. cnt (k + j) - start < delta"
  shows "udelay_loop cnt start delta k = Some (k + n)"
  using assms
proof (induction n arbitrary: k)
  case 0
  then show ?case by (subst udelay_loop.simps) simp
next
  case (Suc n)
  have "\<not> cnt (Suc k + n) - start < delta" using Suc.prems(1) by simp
  moreover have "\<forall>j < n. cnt (Suc k + j) - start < delta" using Suc.prems(2) by (metis Suc_less_eq add_Suc_shift)
  ultimately have "udelay_loop cnt start delta (Suc k) = Some (Suc k + n)" by (rule Suc.IH)
  moreover have "cnt k - start < delta" using Suc.prems(2) by force
  ultimately show ?case by (subst udelay_loop.simps) simp
qed

text \<open>
  C34 \<open>delay\<close> ends as soon as the counter allows: when the answers of the counter do reach the number of ticks that
  the time takes, the call returns at the first read, after the one it starts with, for which that many ticks
  have passed, neither earlier nor later. The number of ticks is exact (no product wraps) up to 4294967 ms.
\<close>

theorem delay_waits:
  assumes ms: "unat ms * 1000 < 2 ^ 32" and d: "d = unat ms * 1000 * unat (timer_freq t) div 1000000"
    and reaches: "d \<le> unat (cnt n - cnt 0)" "1 \<le> n"
  shows "\<exists>k. delay cnt ms t = Some k \<and> 1 \<le> k \<and> k \<le> n \<and> d \<le> unat (cnt k - cnt 0) \<and> (\<forall>j. 1 \<le> j \<and> j < k \<longrightarrow> unat (cnt j - cnt 0) < d)"
proof -
  define delta where "delta = (ucast (ms * 1000) * ucast (timer_freq t) div 1000000 :: u64)"
  have us: "unat (ms * 1000) = unat ms * 1000" using ms by (simp add: unat_word_ariths)
  have "unat ms * 1000 * unat (timer_freq t) < 2 ^ 32 * 2 ^ 32"
    using ms unat_lt32 [of "timer_freq t"] by (intro mult_strict_mono) simp_all
  then have "unat (ucast (ms * 1000) * ucast (timer_freq t) :: u64) = unat ms * 1000 * unat (timer_freq t)"
    using us by (simp add: unat_word_ariths unat_ucast64)
  then have delta: "unat delta = d" by (simp add: delta_def d unat_div)
  define P where "P k \<longleftrightarrow> 1 \<le> k \<and> d \<le> unat (cnt k - cnt 0)" for k
  define k where "k = (LEAST k. P k)"
  have "P n" using reaches by (simp add: P_def)
  then have k: "P k" "k \<le> n" "\<And>j. j < k \<Longrightarrow> \<not> P j" unfolding k_def by (auto intro: LeastI Least_le dest: not_less_Least)
  have "udelay_loop cnt (cnt 0) delta 1 = Some (1 + (k - 1))"
  proof (rule udelay_loop_ends)
    show "\<not> cnt (1 + (k - 1)) - cnt 0 < delta" using k(1) by (simp add: P_def word_less_nat_alt delta)
    show "\<forall>j < k - 1. cnt (1 + j) - cnt 0 < delta" using k(3) by (fastforce simp: P_def word_less_nat_alt delta not_le less_diff_conv)
  qed
  then have "delay cnt ms t = Some k" using k(1) by (simp add: delay_def timer_udelay_def Let_def delta_def P_def)
  then show ?thesis using k by (auto simp: P_def not_le)
qed

theorem delay_waits_witness:
  "\<exists>k. delay (\<lambda>i. of_nat (1000 * i)) 2 \<lparr>jiffies = 0, timer_freq = 1000000, timer_io = []\<rparr> = Some k \<and> k \<le> 2"
proof -
  have "unat (2 :: u32) * 1000 < 2 ^ 32" "2000 = unat (2 :: u32) * 1000 * unat (timer_freq \<lparr>jiffies = 0, timer_freq = 1000000, timer_io = []\<rparr>) div 1000000"
    "2000 \<le> unat (of_nat (1000 * 2) - of_nat (1000 * 0) :: u64)" "1 \<le> (2 :: nat)" by simp_all
  from delay_waits [where cnt = "\<lambda>i. of_nat (1000 * i)" and n = 2, OF this] show ?thesis by blast
qed


subsection \<open>Start-up\<close>

text \<open>
  \<open>timer_init\<close> after \<open>irq_init\<close>, with an interrupt controller that was set up and a rate that is not 0: the handler of
  the timer is the only one installed, the timer is stopped, loaded with the number of ticks of one period
  and started, its interrupt is enabled in the interrupt controller (bit 30 of the first register) and the messages
  go to the log.
\<close>

theorem timer_init_starts:
  assumes "m_irqs s = irq_init" "gicd_base (m_gic s) \<noteq> 0" "freq_hz \<noteq> 0" "log_ok (pk_log (m_pk s))"
  shows "\<exists>s'. timer_init mem freq_hz cntfrq s = Some s' \<and> log_ok (pk_log (m_pk s')) \<and>
    (\<forall>i. desc_handler (m_irqs s' i) = (if i = nat TIMER_IRQ then Some Timer_irq_handler else None)) \<and>
    m_timer s' = (m_timer s)\<lparr>timer_freq := ucast cntfrq,
      timer_io := timer_io (m_timer s) @ [Cntp_ctl 0, Cntp_tval (ucast (ucast cntfrq div freq_hz :: u32)), Cntp_ctl 1]\<rparr> \<and>
    m_gic s' = gic_do (Gic_write (gicd_base (m_gic s) + 0x100) 0x40000000) (m_gic s) \<and>
    m_sched s' = m_sched s \<and> m_regs s' = m_regs s"
proof -
  let ?f = "ascii ''Timer: frequency %u Hz, target %u Hz\<newline>''" and ?as = "[Va_int (ucast cntfrq), Va_int freq_hz]"
  have "cs (lit ?f) ?f" by (simp add: ascii_def)
  moreover have t: "items_text (\<lambda>_. None) (items ?f) ?as = Some (ascii ''Timer: frequency '' @ dec_text (unat (ucast cntfrq :: u32)) @
      ascii '' Hz, target '' @ dec_text (unat freq_hz) @ ascii '' Hz\<newline>'')" by (simp add: ascii_def conv_item_def)
  moreover have "length (ascii ''Timer: frequency '' @ dec_text (unat (ucast cntfrq :: u32)) @ ascii '' Hz, target '' @ dec_text (unat freq_hz) @
      ascii '' Hz\<newline>'') < 2 ^ 31" using number_lengths(1) [of "ucast cntfrq"] number_lengths(1) [of freq_hz] by (simp add: ascii_def)
  ultimately obtain pk1 n1 where pk1: "printk mem (Some (lit ?f)) ?as (m_pk s) = Some (n1, pk1)" "log_ok (pk_log pk1)"
    using printk_ok [OF _ _ _ assms(4)] by blast
  from print_lit_ok [of "''Timer: initialized\<newline>''" pk1 mem] pk1(2) obtain pk2 where
    pk2: "print_lit mem ''Timer: initialized\<newline>'' pk1 = Some pk2" "log_ok (pk_log pk2)" by (auto simp: ascii_def)
  have g: "irq_enable TIMER_IRQ (m_gic s) = Some (gic_do (Gic_write (gicd_base (m_gic s) + 0x100) 0x40000000) (m_gic s))"
    using irq_register(1) [of 30 256] assms(2)
    by (simp add: irq_enable_def gic_enable_irq_def TIMER_IRQ_def gicd_write_def GICD_ISENABLER_def push_bit_eq_mult)
  show ?thesis
    using pk1(1) pk2 g assms(1,3)
    by (simp add: timer_init_def irq_install_handler_def irq_init_def TIMER_IRQ_def MAX_IRQS_def write_cntp_ctl_def write_cntp_tval_def Let_def)
qed

theorem timer_init_starts_witness:
  "\<exists>s'. timer_init (\<lambda>_. None) 100 62500000 \<lparr>m_regs = t_context demo_task, m_gic = gic_boot\<lparr>gicd_base := 0x08000000\<rparr>, m_irqs = irq_init,
      m_timer = \<lparr>jiffies = 0, timer_freq = 0, timer_io = []\<rparr>, m_sched = \<lparr>rqs = demo_rq, current_task = None, task_list = None, pids = pid_init\<rparr>,
      m_pk = pk_boot\<rparr> = Some s' \<and> gic_io (m_gic s') = [Gic_write 0x08000100 0x40000000]"
  using timer_init_starts [of "\<lparr>m_regs = t_context demo_task, m_gic = gic_boot\<lparr>gicd_base := 0x08000000\<rparr>, m_irqs = irq_init,
      m_timer = \<lparr>jiffies = 0, timer_freq = 0, timer_io = []\<rparr>, m_sched = \<lparr>rqs = demo_rq, current_task = None, task_list = None, pids = pid_init\<rparr>,
      m_pk = pk_boot\<rparr>" 100 "\<lambda>_. None" 62500000] pk_boot_ok
  by (auto simp: gic_boot_def gic_do_def)

subsection \<open>The table of handlers\<close>

text \<open>
  Installing a handler on a free line makes \<open>irq_dispatch\<close> call just this handler with its device, until it is
  uninstalled; a line that is taken or does not exist is refused and the table keeps its handlers.
\<close>

lemma irq_table_laws:
  assumes irq: "0 \<le> irq" "irq < MAX_IRQS" and free: "desc_handler (tb (nat irq)) = None"
    and tb': "irq_install_handler irq (Some h) dev tb = (r, tb')"
  shows "r = 0" "irq_dispatch call tb' irq s = call h irq dev s" "irq_dispatch call (irq_uninstall_handler irq tb') irq s = Some (Inr s)"
    "irq_install_handler irq (Some h') dev' tb' = (-2, tb')" "0 \<le> j \<Longrightarrow> j \<noteq> irq \<Longrightarrow> irq_dispatch call tb' j s = irq_dispatch call tb j s"
proof -
  have e: "r = 0" "tb' = tb(nat irq := \<lparr>desc_handler = Some h, desc_dev = dev\<rparr>)" using irq free tb' by (simp_all add: irq_install_handler_def)
  then show "r = 0" by simp
  show "irq_dispatch call tb' irq s = call h irq dev s" "irq_dispatch call (irq_uninstall_handler irq tb') irq s = Some (Inr s)"
    "irq_install_handler irq (Some h') dev' tb' = (-2, tb')"
    using irq by (simp_all add: e irq_dispatch_def irq_uninstall_handler_def irq_install_handler_def)
  show "irq_dispatch call tb' j s = irq_dispatch call tb j s" if "0 \<le> j" "j \<noteq> irq"
  proof -
    have "nat j \<noteq> nat irq" using irq that by (simp add: nat_eq_iff)
    then have "tb' (nat j) = tb (nat j)" by (simp add: e)
    then show ?thesis unfolding irq_dispatch_def by (simp only:)
  qed
qed

end
