(* ===== verification/Syscall.thy ===== *)
theory Syscall
  imports Irq
begin

text \<open>
  System calls, \<open>src/kernel/syscall.c\<close>, over the scheduler and \<open>printk\<close>, and the panic report of \<open>src/kernel/panic.c\<close>. Arguments
  and answers are registers; a system call that ends in a switch to another task does not return to its caller.
\<close>

section \<open>Definitions\<close>

definition SYS_WRITE :: u64 where "SYS_WRITE = 1"
definition SYS_EXIT :: u64 where "SYS_EXIT = 60"
definition SYS_KILL :: u64 where "SYS_KILL = 129"

record sys_state =
  y_sched :: sched_state
  y_pk :: pk_state

text \<open>
  How a system call ends. The functions of the table answer an \<open>int\<close> and are called through a pointer to a function
  that answers 64 bits: only the lower half of the register is their answer.
\<close>

datatype sys_result = Ret64 u64 | Ret32 int | Gone u64

text \<open>An argument register read as an \<open>int\<close>.\<close>

definition arg_int :: "u64 \<Rightarrow> int" where
  "arg_int a = sint (ucast a :: u32)"

definition sys_kill :: "u64 \<Rightarrow> int \<Rightarrow> sys_state \<Rightarrow> (sched_panic + sys_result \<times> sys_state) option" where
  "sys_kill now pid s = do {
     task \<leftarrow> task_find_by_pid pid (y_sched s);
     case task of None \<Rightarrow> Some (Inr (Ret32 (-1), s))
     | Some p \<Rightarrow> and_then (task_kill (Some p) now (y_sched s)) (\<lambda>(k, sc).
         Some (Inr (case k of Kill_returned v \<Rightarrow> Ret32 v | Kill_switched n \<Rightarrow> Gone n, s\<lparr>y_sched := sc\<rparr>))) }"

definition sys_exit :: "u64 \<Rightarrow> sys_state \<Rightarrow> (sched_panic + sys_result \<times> sys_state) option" where
  "sys_exit now s = and_then (task_exit now (y_sched s)) (\<lambda>(e, sc).
     Some (Inr (case e of Returned \<Rightarrow> Ret32 0 | Switched _ n \<Rightarrow> Gone n, s\<lparr>y_sched := sc\<rparr>)))"

text \<open>The buffer of the caller is the format; there are no arguments.\<close>

definition sys_write :: "cmem \<Rightarrow> int \<Rightarrow> u64 \<Rightarrow> int \<Rightarrow> sys_state \<Rightarrow> (sched_panic + sys_result \<times> sys_state) option" where
  "sys_write m fd buf count s = (let fmt = (if buf = 0 then None else Some (at m buf)) in
     if fd = STDOUT_FD then do {
       (r, pk) \<leftarrow> fprintk STDOUT_FD m fmt [] (y_pk s);
       Some (Inr (Ret32 r, s\<lparr>y_pk := pk\<rparr>))
     } else if fd = STDERR_FD then do {
       (r, pk) \<leftarrow> fprintk STDERR_FD m fmt [] (y_pk s);
       Some (Inr (Ret32 r, s\<lparr>y_pk := pk\<rparr>))
     } else Some (Inr (Ret32 (-1), s)))"

text \<open>The entries of \<open>syscall_table\<close>; its length is the largest index plus one.\<close>

datatype sys_entry = Entry_kill | Entry_exit | Entry_write

definition syscall_table :: "u64 \<Rightarrow> sys_entry option" where
  "syscall_table = (\<lambda>_. None)(SYS_KILL := Some Entry_kill, SYS_EXIT := Some Entry_exit, SYS_WRITE := Some Entry_write)"

text \<open>No function of the table has more than three parameters, so \<open>arg3\<close> to \<open>arg5\<close> are not read.\<close>

definition syscall_table_size :: u64 where "syscall_table_size = SYS_KILL + 1"

definition do_syscall ::
  "cmem \<Rightarrow> u64 \<Rightarrow> u64 \<Rightarrow> u64 \<Rightarrow> u64 \<Rightarrow> u64 \<Rightarrow> sys_state \<Rightarrow> (sched_panic + sys_result \<times> sys_state) option" where
  "do_syscall m now syscall_num arg0 arg1 arg2 s =
     (if syscall_num \<ge> syscall_table_size then do {
        (_, pk) \<leftarrow> printk m (Some (lit (ascii ''Invalid syscall number: %d\<newline>''))) [Va_int (ucast syscall_num)] (y_pk s);
        Some (Inr (Ret64 (-1), s\<lparr>y_pk := pk\<rparr>))
      } else case syscall_table syscall_num of None \<Rightarrow> do {
        (_, pk) \<leftarrow> printk m (Some (lit (ascii ''Unimplemented syscall: %d\<newline>''))) [Va_int (ucast syscall_num)] (y_pk s);
        Some (Inr (Ret64 (-1), s\<lparr>y_pk := pk\<rparr>))
      } | Some Entry_kill \<Rightarrow> sys_kill now (arg_int arg0) s
        | Some Entry_exit \<Rightarrow> sys_exit now s
        | Some Entry_write \<Rightarrow> sys_write m (arg_int arg0) arg1 (arg_int arg2) s)"

subsection \<open>Panic\<close>

text \<open>\<open>fprintk(STDERR_FD, ...)\<close> of a literal with arguments\<close>

definition err_lit :: "cmem \<Rightarrow> string \<Rightarrow> va list \<Rightarrow> pk_state \<Rightarrow> pk_state option" where
  "err_lit m t as pk = do { (_, pk) \<leftarrow> fprintk STDERR_FD m (Some (lit (ascii t))) as pk; Some pk }"

text \<open>The report; afterwards the machine is switched off or waits for ever.\<close>

definition panic_report :: "cmem \<Rightarrow> u64 \<Rightarrow> u32 \<Rightarrow> u64 \<Rightarrow> reader \<Rightarrow> va list \<Rightarrow> pk_state \<Rightarrow> pk_state option" where
  "panic_report m file line func fmt args pk = do {
     pk \<leftarrow> err_lit m ''\<newline>Panic: fatal - kernel panic - not syncing\<newline>'' [] pk;
     pk \<leftarrow> err_lit m ''Location: %s:%d\<newline>'' [Va_ptr file, Va_int line] pk;
     pk \<leftarrow> err_lit m ''Function: %s\<newline>'' [Va_ptr func] pk;
     pk \<leftarrow> err_lit m ''Info: '' [] pk;
     (_, pk) \<leftarrow> vfprintk STDERR_FD m (Some fmt) args pk;
     err_lit m ''\<newline>System halted.\<newline>'' [] pk }"

subsection \<open>Exceptions\<close>

text \<open>\<open>src/arch/arm64/exception/exception.c\<close>. \<open>hi\<close> is what a function that answers an \<open>int\<close> leaves in the upper half of the register; when the
  call switches to another task nothing is written back.\<close>

definition handle_svc ::
  "cmem \<Rightarrow> u64 \<Rightarrow> u32 \<Rightarrow> cpu_context \<Rightarrow> sys_state \<Rightarrow> (sched_panic + cpu_context \<times> sys_state) option" where
  "handle_svc m now hi ctx s =
     and_then (do_syscall m now (ctx_x ctx 8) (ctx_x ctx 0) (ctx_x ctx 1) (ctx_x ctx 2) s) (\<lambda>(r, s).
       Some (Inr (case r of Ret64 v \<Rightarrow> set_ctx_x 0 v ctx
         | Ret32 v \<Rightarrow> set_ctx_x 0 (push_bit 32 (ucast hi) OR ucast (of_int v :: u32)) ctx
         | Gone _ \<Rightarrow> ctx, s)))"

definition should_reschedule :: "sched_state \<Rightarrow> int" where
  "should_reschedule s = (case task_current s of None \<Rightarrow> 0 | Some c \<Rightarrow> if t_state (tk s c) = TASK_ZOMBIE then 1 else 0)"

text \<open>\<open>file\<close>, \<open>line\<close> and \<open>func\<close> are those of the \<open>panic\<close> macro; \<open>esr\<close>, \<open>far\<close> and \<open>elr\<close> are read from the processor.\<close>

definition handle_sync_exception :: "cmem \<Rightarrow> u64 \<Rightarrow> u32 \<Rightarrow> u64 \<Rightarrow> u64 \<Rightarrow> u64 \<Rightarrow> u64 \<Rightarrow> pk_state \<Rightarrow> pk_state option" where
  "handle_sync_exception m file line func esr far elr pk =
     (let ec = ucast (drop_bit 26 esr AND 0x3F) :: u32
      in panic_report m file line func (lit (ascii ''Sync exception: EC=0x%x FAR=%p ELR=%p'')) [Va_int ec, Va_ptr far, Va_ptr elr] pk)"

definition handle_fiq :: "cmem \<Rightarrow> u64 \<Rightarrow> u32 \<Rightarrow> u64 \<Rightarrow> pk_state \<Rightarrow> pk_state option" where
  "handle_fiq m file line func pk = panic_report m file line func (lit (ascii ''Unexpected FIQ'')) [] pk"

definition handle_serror :: "cmem \<Rightarrow> u64 \<Rightarrow> u32 \<Rightarrow> u64 \<Rightarrow> pk_state \<Rightarrow> pk_state option" where
  "handle_serror m file line func pk = panic_report m file line func (lit (ascii ''SError exception'')) [] pk"

section \<open>Lemmas\<close>

lemma sint_least: "sint (v :: u32) = - (2 ^ 31) \<Longrightarrow> v = 0x80000000"
  by (rule signed_word_eqI) simp

lemma print_number_ok:
  assumes f: "0 \<notin> set f" "37 \<notin> set f" "length f < 1000" and v: "v \<noteq> 0x80000000" and l: "log_ok (pk_log pk)"
  shows "\<exists>n pk'. printk m (Some (lit (f @ [37, 100, 10]))) [Va_int v] pk = Some (n, pk') \<and> log_ok (pk_log pk')"
proof -
  have s: "sint v \<noteq> - (2 ^ 31)" using v sint_least [of v] by blast
  have it: "items (f @ [37, 100, 10]) = map (\<lambda>c. Text [c]) f @ [Signed, Text [10]]" using f(2)
  proof (induction f)
    case (Cons c f)
    then show ?case by (cases f) auto
  qed (simp add: conv_item_def)
  have "items_text (\<lambda>_. None) (map (\<lambda>c. Text [c]) f @ [Signed, Text [10]]) [Va_int v] = Some (f @ int_text (sint v) @ [10])"
    using s by (induction f) simp_all
  moreover have "length (f @ int_text (sint v) @ [10]) < 2 ^ 31"
  proof -
    have "length (int_text (sint v)) \<le> 13" using sint_range(1) [of v] number_lengths(5) [of v] by (auto simp: int_text_def)
    then show ?thesis using f(3) by simp
  qed
  moreover have "cs (lit (f @ [37, 100, 10])) (f @ [37, 100, 10])" using f(1) by simp
  ultimately show ?thesis using printk_ok [of "lit (f @ [37, 100, 10])" "f @ [37, 100, 10]" "[Va_int v]" _ pk m] l it by fastforce
qed

text \<open>Numbers without a function.\<close>

lemma do_syscall_unknown:
  assumes "num \<notin> {SYS_WRITE, SYS_EXIT, SYS_KILL}" "(ucast num :: u32) \<noteq> 0x80000000" "log_ok (pk_log (y_pk s))"
  shows "\<exists>pk. do_syscall m now num a b c s = Some (Inr (Ret64 (-1), s\<lparr>y_pk := pk\<rparr>)) \<and> log_ok (pk_log pk)"
proof -
  have a: "ascii ''Invalid syscall number: %d\<newline>'' = ascii ''Invalid syscall number: '' @ [37, 100, 10]"
    "ascii ''Unimplemented syscall: %d\<newline>'' = ascii ''Unimplemented syscall: '' @ [37, 100, 10]" by (simp_all add: ascii_def)
  from print_number_ok [of "ascii ''Invalid syscall number: ''" "ucast num" "y_pk s" m]
    print_number_ok [of "ascii ''Unimplemented syscall: ''" "ucast num" "y_pk s" m] assms(2,3)
  obtain n pk n' pk' where
    "printk m (Some (lit (ascii ''Invalid syscall number: %d\<newline>''))) [Va_int (ucast num)] (y_pk s) = Some (n, pk)" "log_ok (pk_log pk)"
    "printk m (Some (lit (ascii ''Unimplemented syscall: %d\<newline>''))) [Va_int (ucast num)] (y_pk s) = Some (n', pk')" "log_ok (pk_log pk')"
    unfolding a by (auto simp: ascii_def)
  moreover have "syscall_table num = None" using assms(1) by (simp add: syscall_table_def)
  ultimately show ?thesis by (cases "num \<ge> syscall_table_size") (auto simp: do_syscall_def)
qed

text \<open>A buffer without percent signs.\<close>

text \<open>
  What the log holds after a message of some level: the message on the console, and in the ring, behind as many of the old
  records as still fit, exactly when the level is not above the threshold.
\<close>

definition logged :: "int \<Rightarrow> u8 list \<Rightarrow> (u8 \<times> u8 list) list \<Rightarrow> klog_state \<Rightarrow> klog_state \<Rightarrow> bool" where
  "logged level msg q l l' \<longleftrightarrow> klog_inited l' \<and> console l' = console (console_write level msg l) \<and>
     (if level \<le> klog_level l
      then \<exists>dropped kept. q = dropped @ kept \<and> klog_inv l' (kept @ [(word_of_int level, take 4092 msg)]) \<and>
        (dropped \<noteq> [] \<longrightarrow> 4095 < queue_size (last dropped # kept) + (3 + min (length msg) 4092))
      else klog_inv l' q)"

lemma log_write_logged:
  assumes "klog_inv l q" "klog_inited l"
  shows "\<exists>n l'. log_write_str level (Some msg) l = Some (n, l') \<and> logged level msg q l l'"
proof (cases "level \<le> klog_level l")
  case True
  let ?n = "3 + min (length msg) 4092"
  from queue_drop_suffix [of q ?n] obtain d where
    "q = d @ queue_drop ?n q" "d \<noteq> [] \<longrightarrow> 4095 < queue_size (last d # queue_drop ?n q) + ?n" by blast
  moreover have "spec_write (word_of_int level) msg q = queue_drop ?n q @ [(word_of_int level, take 4092 msg)]"
    by (simp add: spec_write_def Let_def)
  ultimately show ?thesis using log_write_stored [OF assms True, of msg] True unfolding logged_def by (metis (no_types, lifting))
next
  case False
  then have "log_write_str level (Some msg) l = Some (0, console_write level msg l)"
    using assms by (simp add: log_write_str_def console_part Let_def)
  then show ?thesis using assms False by (simp add: logged_def)
qed

lemma fprintk_plain:
  assumes "cs (at m buf) f" "37 \<notin> set f" "length f < 2 ^ 31" "klog_inv (pk_log pk) q" "klog_inited (pk_log pk)"
  shows "\<exists>pk'. fprintk fd m (Some (at m buf)) [] pk = Some (int (length f), pk') \<and>
    logged (if fd = 2 then 3 else 6) (take 511 f) q (pk_log pk) (pk_log pk')"
proof -
  have "0 \<notin> set f" using assms(1) cs_nonzero by (auto simp: cs_def)
  then have f: "takeWhile (\<lambda>c. c \<noteq> 0) (take 511 f) = take 511 f" by (auto simp: takeWhile_eq_all_conv dest: in_set_takeD)
  obtain b' where p: "vfprintk fd m (Some (at m buf)) [] pk = map_option (\<lambda>(_, l). (int (length f), \<lparr>pk_buf = b', pk_log = l\<rparr>))
    (log_write_str (if fd = 2 then 3 else 6) (Some (take 511 f)) (pk_log pk))"
    using vfprintk_logs [OF assms(1) _ items_plain [OF assms(2), of "\<lambda>_. None"] assms(3), where fd = fd and s = pk and as = "[]" and m = m] f by auto
  from log_write_logged [OF assms(4,5)] obtain n l' where
    "log_write_str (if fd = 2 then 3 else 6) (Some (take 511 f)) (pk_log pk) = Some (n, l')"
    "logged (if fd = 2 then 3 else 6) (take 511 f) q (pk_log pk) l'" by blast
  then show ?thesis using p by (simp add: fprintk_def)
qed

section \<open>Properties\<close>



subsection \<open>Writing\<close>

text \<open>Plain characters are put out one by one, whatever comes behind them.\<close>

lemma printf_loop_plain:
  assumes "37 \<notin> set f" "cs_from fmt i (f @ g)" "buf_holds b t" "length t + length f < 2 ^ 31"
  shows "\<exists>b'. printf_loop buf_putc m fmt i as (length t, b) = printf_loop buf_putc m fmt (i + length f) as (length (t @ f), b') \<and> buf_holds b' (t @ f)"
  using assms
proof (induction f arbitrary: i t b)
  case (Cons c f)
  from pb_out.takes [OF Cons.prems(3), of c] obtain b1 where b1: "buf_putc c b = Some b1" "buf_holds b1 (t @ [c])" by blast
  have "printf_loop buf_putc m fmt i as (length t, b) = printf_loop buf_putc m fmt (Suc i) as (length (t @ [c]), b1)"
    using Cons.prems b1(1) by (subst printf_loop.simps) (simp add: fmt_step_def put_def add_count_def)
  moreover obtain b' where "printf_loop buf_putc m fmt (Suc i) as (length (t @ [c]), b1) =
      printf_loop buf_putc m fmt (Suc i + length f) as (length ((t @ [c]) @ f), b')" "buf_holds b' ((t @ [c]) @ f)"
    using Cons.IH [OF _ _ b1(2), of "Suc i"] Cons.prems by auto
  ultimately show ?case by auto
qed auto

lemma cs_from_rest: "cs_from r i (f @ g) \<Longrightarrow> cs_from r (i + length f) g"
  by (induction f arbitrary: i) (auto, metis add_Suc)

text \<open>A conversion without an argument is undefined.\<close>

lemma printf_loop_no_args:
  assumes "d \<in> {100, 117, 120, 112, 115, 99}" "cs_from fmt i (37 # d # g)"
  shows "printf_loop buf_putc m fmt i [] x = None"
  using assms by (subst printf_loop.simps) (auto simp: fmt_step_def conv_def)

lemma write_entry: "\<not> SYS_WRITE \<ge> syscall_table_size" "syscall_table SYS_WRITE = Some Entry_write"
  by (simp_all add: syscall_table_size_def syscall_table_def SYS_KILL_def SYS_EXIT_def SYS_WRITE_def word_le_nat_alt)

text \<open>
  C36 \<open>SYS_WRITE\<close> takes the buffer of the caller as a format, whatever \<open>count\<close> says. On standard output and standard error a
  buffer without percent signs is logged: its length is answered, its first 511 bytes go to the console and, when the level of
  the descriptor (3 for standard error, 6 for standard output) is not above the threshold of the log, they are the last record of
  the ring at this level, behind all old records but the oldest ones that had to make room. Nothing else changes. A
  buffer in which a percent sign is followed by a conversion character makes the kernel take an argument that nobody passed.
  For any other descriptor the answer is -1 and nothing changes.
\<close>

theorem sys_write_format:
  assumes buf: "buf \<noteq> 0" "cs (at m buf) (f @ g)" "37 \<notin> set f" "length f < 2 ^ 31"
    and l: "klog_inv (pk_log (y_pk s)) q" "klog_inited (pk_log (y_pk s))"
    and lv: "lv = (if arg_int fd = 2 then 3 else 6)" and msg: "msg = take 511 f"
  shows "if arg_int fd \<noteq> 1 \<and> arg_int fd \<noteq> 2 then do_syscall m now SYS_WRITE fd buf count s = Some (Inr (Ret32 (-1), s))
    else (g = [] \<longrightarrow> (\<exists>pk. do_syscall m now SYS_WRITE fd buf count s = Some (Inr (Ret32 (int (length f)), s\<lparr>y_pk := pk\<rparr>)) \<and>
        console (pk_log pk) = console (console_write lv msg (pk_log (y_pk s))) \<and>
        (if klog_level (pk_log (y_pk s)) < lv then klog_inv (pk_log pk) q
         else \<exists>dropped kept. q = dropped @ kept \<and> klog_inv (pk_log pk) (kept @ [(word_of_int lv, msg)]) \<and>
           (dropped \<noteq> [] \<longrightarrow> 4095 < queue_size (last dropped # kept) + (3 + length msg))))) \<and>
      (\<forall>d g'. g = 37 # d # g' \<and> d \<in> {100, 117, 120, 112, 115, 99} \<longrightarrow> do_syscall m now SYS_WRITE fd buf count s = None)"
    (is "if ?other then _ else (g = [] \<longrightarrow> ?plain) \<and> _")
proof (cases ?other)
  case True
  then show ?thesis by (simp add: do_syscall_def sys_write_def write_entry STDOUT_FD_def STDERR_FD_def)
next
  case fd: False
  have w: "do_syscall m now SYS_WRITE fd buf count s = (fprintk (arg_int fd) m (Some (at m buf)) [] (y_pk s) \<bind>
      (\<lambda>(r, pk). Some (Inr (Ret32 r, s\<lparr>y_pk := pk\<rparr>))))"
    using write_entry buf(1) fd by (auto simp: do_syscall_def sys_write_def STDOUT_FD_def STDERR_FD_def)
  have "?plain" if "g = []"
  proof -
    from that buf(2) have "cs (at m buf) f" by simp
    from fprintk_plain [OF this buf(3,4) l, of "arg_int fd"] obtain pk where
      "fprintk (arg_int fd) m (Some (at m buf)) [] (y_pk s) = Some (int (length f), pk)"
      "logged lv msg q (pk_log (y_pk s)) (pk_log pk)" unfolding lv msg by blast
    moreover have "take 4092 msg = msg" "min (length msg) 4092 = length msg" by (simp_all add: msg)
    ultimately show ?thesis by (auto simp: w logged_def)
  qed
  moreover have "do_syscall m now SYS_WRITE fd buf count s = None" if g: "g = 37 # d # g'" "d \<in> {100, 117, 120, 112, 115, 99}" for d g'
  proof -
    let ?b = "(pk_buf (y_pk s))\<lparr>printk_buf_ptr := 0, printk_buf_rem := int PRINTK_BUF_SIZE\<rparr>"
    have "buf_holds ?b []" by (simp add: buf_holds_def PRINTK_BUF_SIZE_def)
    from printf_loop_plain [OF buf(3) _ this, of "at m buf" 0 g m "[]"] buf(2,4) obtain b' where
      "printf_loop buf_putc m (at m buf) 0 [] (0, ?b) = printf_loop buf_putc m (at m buf) (length f) [] (length f, b')" by (auto simp: cs_def)
    moreover have "cs_from (at m buf) (length f) (37 # d # g')"
      using cs_from_rest [of "at m buf" 0 f g] buf(2) g(1) by (simp add: cs_def)
    then have "printf_loop buf_putc m (at m buf) (length f) [] (length f, b') = None" using printf_loop_no_args g(2) by blast
    ultimately show ?thesis by (simp add: w fprintk_def vfprintk_def printk_vroute_def do_printf_def Let_def)
  qed
  ultimately show ?thesis using fd by auto
qed

text \<open>The buffer "Hi" on standard error, as the first message of a new log.\<close>

theorem sys_write_format_witness:
  "\<exists>pk. do_syscall (\<lambda>a. if a = 4096 then Some 72 else if a = 4097 then Some 105 else Some 0) 10 SYS_WRITE 2 4096 3
     \<lparr>y_sched = \<lparr>rqs = demo_rq, current_task = None, task_list = None, pids = pid_init\<rparr>, y_pk = pk_boot\<rparr> =
       Some (Inr (Ret32 2, \<lparr>y_sched = \<lparr>rqs = demo_rq, current_task = None, task_list = None, pids = pid_init\<rparr>, y_pk = pk\<rparr>)) \<and>
     klog_inv (pk_log pk) [(3, [72, 105])]"
proof -
  let ?m = "\<lambda>a :: u64. if a = 4096 then Some 72 else if a = 4097 then Some 105 else Some (0 :: u8)"
  let ?s = "\<lparr>y_sched = \<lparr>rqs = demo_rq, current_task = None, task_list = None, pids = pid_init\<rparr>, y_pk = pk_boot\<rparr>"
  have "(4096 :: u64) \<noteq> 0" "cs (at ?m 4096) ([72, 105] @ [])" "37 \<notin> set [72, 105 :: u8]" "length [72, 105 :: u8] < 2 ^ 31"
    "klog_inv (pk_log (y_pk ?s)) []" "klog_inited (pk_log (y_pk ?s))" "(3 :: int) = (if arg_int 2 = 2 then 3 else 6)"
    "[72, 105 :: u8] = take 511 [72, 105]" "\<not> klog_level (pk_log (y_pk ?s)) < 3"
    using log_init_inv(1,2) by (simp_all add: cs_def at_def arg_int_def pk_boot_def log_init_def KLOG_INFO_def)
  from sys_write_format [OF this(1-8), of 10 3] this(9) show ?thesis by (auto simp: arg_int_def)
qed


subsection \<open>Panic\<close>

lemma err_lit_ok:
  assumes "0 \<notin> set (ascii t)" "\<And>p f. strs p = Some f \<Longrightarrow> cs (at m p) f" "items_text strs (items (ascii t)) as = Some u" "length u < 2 ^ 31"
    "log_ok (pk_log pk)"
  shows "\<exists>pk'. err_lit m t as pk = Some pk' \<and> log_ok (pk_log pk')"
proof -
  have "cs (lit (ascii t)) (ascii t)" using assms(1) by simp
  from vfprintk_logs [OF this assms(2-4), where fd = 2 and s = pk] obtain b' where
    p: "vfprintk 2 m (Some (lit (ascii t))) as pk = map_option (\<lambda>(_, l). (int (length u), \<lparr>pk_buf = b', pk_log = l\<rparr>))
      (log_write_str 3 (Some (takeWhile (\<lambda>c. c \<noteq> 0) (take 511 u))) (pk_log pk))" by auto
  from log_write_ok [OF assms(5)] obtain n l' where
    "log_write_str 3 (Some (takeWhile (\<lambda>c. c \<noteq> 0) (take 511 u))) (pk_log pk) = Some (n, l')" "log_ok l'" by blast
  then show ?thesis using p by (simp add: err_lit_def fprintk_def STDERR_FD_def)
qed

text \<open>
  A panic can always be reported: when file name, function name and message are C strings the report is
  written to the log, for every exception.
\<close>

lemma panic_report_ok:
  assumes fl: "file \<noteq> 0" "cs (at m file) fl" "length fl < 2 ^ 30" and func: "func \<noteq> 0" "cs (at m func) fn" "length fn < 2 ^ 30"
    and line: "line \<noteq> 0x80000000"
    and fmt: "cs fmt f" "\<And>p t. strs p = Some t \<Longrightarrow> cs (at m p) t" "items_text strs (items f) args = Some u" "length u < 2 ^ 31"
    and l: "log_ok (pk_log pk)"
  shows "\<exists>pk'. panic_report m file line func fmt args pk = Some pk' \<and> log_ok (pk_log pk')"
proof -
  define sf where "sf = (\<lambda>p. if p = file then Some fl else if p = func then Some fn else None)"
  have st: "sf p = Some t \<Longrightarrow> cs (at m p) t" for p t using fl(2) func(2) by (auto simp: sf_def split: if_splits)
  have fn': "\<exists>g. sf func = Some g \<and> length g < 2 ^ 30" using fl(3) func(3) by (simp add: sf_def)
  then obtain g where g: "sf func = Some g" "length g < 2 ^ 30" by blast
  have nl: "sint line \<noteq> - (2 ^ 31)"
  proof
    assume "sint line = - (2 ^ 31)"
    moreover have "sint (0x80000000 :: u32) = - (2 ^ 31)" by simp
    ultimately have "sint line = sint (0x80000000 :: u32)" by (simp only:)
    then have "line = 0x80000000" by (rule signed_word_eqI)
    then show False using line by contradiction
  qed
  have n13: "length (int_text (sint line)) \<le> 13" using number_lengths(5) [of line] by (auto simp: int_text_def)
  obtain p1 where p1: "err_lit m ''\<newline>Panic: fatal - kernel panic - not syncing\<newline>'' [] pk = Some p1" "log_ok (pk_log p1)"
    using err_lit_ok [OF _ st items_plain _ l, where t = "''\<newline>Panic: fatal - kernel panic - not syncing\<newline>''" and as = "[]"] by (auto simp: ascii_def)
  have "items_text sf (items (ascii ''Location: %s:%d\<newline>'')) [Va_ptr file, Va_int line] =
      Some (ascii ''Location: '' @ fl @ [58] @ int_text (sint line) @ [10])"
    using fl(1) nl by (simp add: ascii_def conv_item_def sf_def)
  from err_lit_ok [OF _ st this _ p1(2)] n13 fl(3) obtain p2 where
    p2: "err_lit m ''Location: %s:%d\<newline>'' [Va_ptr file, Va_int line] p1 = Some p2" "log_ok (pk_log p2)" by (auto simp: ascii_def)
  have "items_text sf (items (ascii ''Function: %s\<newline>'')) [Va_ptr func] = Some (ascii ''Function: '' @ g @ [10])"
    using func(1) g(1) by (simp add: ascii_def conv_item_def)
  from err_lit_ok [OF _ st this _ p2(2)] g(2) obtain p3 where
    p3: "err_lit m ''Function: %s\<newline>'' [Va_ptr func] p2 = Some p3" "log_ok (pk_log p3)" by (auto simp: ascii_def)
  obtain p4 where p4: "err_lit m ''Info: '' [] p3 = Some p4" "log_ok (pk_log p4)"
    using err_lit_ok [OF _ st items_plain _ p3(2), where t = "''Info: ''" and as = "[]"] by (auto simp: ascii_def)
  obtain b' where v: "vfprintk 2 m (Some fmt) args p4 = map_option (\<lambda>(_, l). (int (length u), \<lparr>pk_buf = b', pk_log = l\<rparr>))
      (log_write_str 3 (Some (takeWhile (\<lambda>c. c \<noteq> 0) (take 511 u))) (pk_log p4))"
    using vfprintk_logs [OF fmt(1,2,3,4), where fd = 2 and s = p4] by auto
  from log_write_ok [OF p4(2)] obtain n l' where
    w: "log_write_str 3 (Some (takeWhile (\<lambda>c. c \<noteq> 0) (take 511 u))) (pk_log p4) = Some (n, l')" "log_ok l'" by blast
  define p5 where "p5 = \<lparr>pk_buf = b', pk_log = l'\<rparr>"
  have p5: "vfprintk STDERR_FD m (Some fmt) args p4 = Some (int (length u), p5)" "log_ok (pk_log p5)" using v w by (simp_all add: p5_def STDERR_FD_def)
  obtain p6 where "err_lit m ''\<newline>System halted.\<newline>'' [] p5 = Some p6" "log_ok (pk_log p6)"
    using err_lit_ok [OF _ st items_plain _ p5(2), where t = "''\<newline>System halted.\<newline>''" and as = "[]"] by (auto simp: ascii_def)
  then show ?thesis using p1(1) p2(1) p3(1) p4(1) p5(1) by (simp add: panic_report_def)
qed

text \<open>The answer of a system call is what the caller finds in its register.\<close>

lemma handle_svc_answer:
  assumes "do_syscall m now (ctx_x ctx 8) (ctx_x ctx 0) (ctx_x ctx 1) (ctx_x ctx 2) s = Some (Inr (Ret32 v, s'))" "- (2 ^ 31) \<le> v" "v < 2 ^ 31"
  shows "\<exists>ctx'. handle_svc m now hi ctx s = Some (Inr (ctx', s')) \<and> arg_int (ctx_x ctx' 0) = v \<and> (\<forall>i. i \<noteq> 0 \<longrightarrow> ctx_x ctx' i = ctx_x ctx i)"
proof -
  have "(ucast (push_bit 32 (ucast hi) OR ucast (of_int v :: u32) :: u64) :: u32) = of_int v"
    by (rule bit_word_eqI) (auto simp: bit_simps)
  then have "arg_int (push_bit 32 (ucast hi) OR ucast (of_int v :: u32)) = v"
    using assms(2,3) by (simp add: arg_int_def sint_sbintrunc' signed_take_bit_int_eq_self)
  then show ?thesis using assms(1) by (simp add: handle_svc_def)
qed

end
