(* ===== verification/Serial.thy ===== *)
theory Serial
  imports Dtb Gic
begin

text \<open>
  The PL011 driver, \<open>src/drivers/serial.c\<close>. Writes to its registers and barriers are a trace; the flag register answers what
  it likes: \<open>fr k\<close> is the answer to the read number \<open>k\<close>.
\<close>

section \<open>Definitions\<close>

definition DEFAULT_UART_BASE :: u64 where "DEFAULT_UART_BASE = 0x09000000"
definition UARTFR_TXFF :: u32 where "UARTFR_TXFF = push_bit 5 1"
definition UARTCR_UARTEN :: u32 where "UARTCR_UARTEN = 1"
definition UARTCR_TXE :: u32 where "UARTCR_TXE = push_bit 8 1"
definition UARTCR_RXE :: u32 where "UARTCR_RXE = push_bit 9 1"
definition UARTLCR_H_WLEN_8 :: u32 where "UARTLCR_H_WLEN_8 = push_bit 5 3"
definition UART_SPIN_MAX :: nat where "UART_SPIN_MAX = 1000000"

datatype uart_io = Uart_write u64 u32 | Uart_mb

record uart_state =
  uart_base :: u64
  uart_reads :: nat
  uart_io :: "uart_io list"

definition UARTDR :: "uart_state \<Rightarrow> u64" where "UARTDR s = uart_base s"
definition UARTLCR_H :: "uart_state \<Rightarrow> u64" where "UARTLCR_H s = uart_base s + 0x2C"
definition UARTCR :: "uart_state \<Rightarrow> u64" where "UARTCR s = uart_base s + 0x30"

text \<open>A register write and the barrier behind it.\<close>

definition mb :: "uart_state \<Rightarrow> uart_state" where
  "mb s = s\<lparr>uart_io := uart_io s @ [Uart_mb]\<rparr>"

definition uart_store :: "u64 \<Rightarrow> u32 \<Rightarrow> uart_state \<Rightarrow> uart_state" where
  "uart_store a v s = s\<lparr>uart_io := uart_io s @ [Uart_write a v]\<rparr>"

definition serial_init :: "u64 \<Rightarrow> cmem \<Rightarrow> uart_state \<Rightarrow> uart_state option" where
  "serial_init dtb_ptr m s = do {
     (r, out) \<leftarrow> dtb_get_stdout_uart_base dtb_ptr True m;
     let dtb_uart_base = (case out of None \<Rightarrow> 0 | Some v \<Rightarrow> v);
     let s = (if r = 0 \<and> dtb_uart_base \<noteq> 0 then s\<lparr>uart_base := dtb_uart_base\<rparr> else s);
     let s = mb (uart_store (UARTCR s) 0 s);
     let s = mb (uart_store (UARTLCR_H s) UARTLCR_H_WLEN_8 s);
     Some (mb (uart_store (UARTCR s) (UARTCR_UARTEN OR UARTCR_TXE OR UARTCR_RXE) s)) }"

text \<open>\<open>while (*UARTFR() & UARTFR_TXFF) { if (++spins >= UART_SPIN_MAX) break; mb(); }\<close>\<close>

function uart_wait_tx_space :: "(nat \<Rightarrow> u32) \<Rightarrow> nat \<Rightarrow> uart_state \<Rightarrow> uart_state" where
  "uart_wait_tx_space fr spins s =
     (let v = fr (uart_reads s); s = s\<lparr>uart_reads := uart_reads s + 1\<rparr>
      in if v AND UARTFR_TXFF \<noteq> 0
         then if spins + 1 \<ge> UART_SPIN_MAX then s else uart_wait_tx_space fr (spins + 1) (mb s)
         else s)"
  by pat_completeness auto
termination by (relation "measure (\<lambda>(fr, spins, s). UART_SPIN_MAX - spins)") auto

declare uart_wait_tx_space.simps [simp del]

definition serial_putc :: "(nat \<Rightarrow> u32) \<Rightarrow> u8 \<Rightarrow> uart_state \<Rightarrow> uart_state" where
  "serial_putc fr c s =
     (let s = (if c = 10 then let s = uart_wait_tx_space fr 0 s in mb (uart_store (UARTDR s) 13 s) else s);
          s = uart_wait_tx_space fr 0 s
      in mb (uart_store (UARTDR s) (ucast c) s))"

partial_function (option) serial_puts_loop :: "(nat \<Rightarrow> u32) \<Rightarrow> reader \<Rightarrow> nat \<Rightarrow> uart_state \<Rightarrow> uart_state option" where
  "serial_puts_loop fr str i s = Option.bind (str i) (\<lambda>c.
     if c \<noteq> 0 then serial_puts_loop fr str (Suc i) (serial_putc fr c s) else Some s)"

definition serial_puts :: "(nat \<Rightarrow> u32) \<Rightarrow> reader option \<Rightarrow> uart_state \<Rightarrow> uart_state option" where
  "serial_puts fr str s = (case str of None \<Rightarrow> Some s | Some r \<Rightarrow> serial_puts_loop fr r 0 s)"

text \<open>The digits are written downwards from the end of \<open>buf[20]\<close>, whose last byte is the null byte: the loop is that of
  \<open>%x\<close> in \<open>do_printf\<close>, with room for 19.\<close>

definition serial_print_hex :: "(nat \<Rightarrow> u32) \<Rightarrow> u64 \<Rightarrow> uart_state \<Rightarrow> uart_state option" where
  "serial_print_hex fr val s =
     (if val = 0 then serial_puts fr (Some (lit (ascii ''0x0''))) s
      else do {
        digits \<leftarrow> hex_fill 19 (unat val) [];
        s \<leftarrow> serial_puts fr (Some (lit (ascii ''0x''))) s;
        serial_puts fr (Some (lit digits)) s })"

subsection \<open>Specification\<close>

text \<open>Line feeds become carriage return and line feed.\<close>

definition crlf :: "u8 list \<Rightarrow> u8 list" where
  "crlf f = concat (map (\<lambda>c. if c = 10 then [13, 10] else [c]) f)"

definition uart_writes :: "uart_io list \<Rightarrow> (u64 \<times> u32) list" where
  "uart_writes es = concat (map (\<lambda>e. case e of Uart_write a v \<Rightarrow> [(a, v)] | Uart_mb \<Rightarrow> []) es)"

section \<open>Lemmas\<close>

text \<open>Only these characters were sent since \<open>s\<close>, all of them to the data register.\<close>

definition sent :: "uart_state \<Rightarrow> u8 list \<Rightarrow> uart_state \<Rightarrow> bool" where
  "sent s f s' \<longleftrightarrow> uart_base s' = uart_base s \<and>
     uart_writes (uart_io s') = uart_writes (uart_io s) @ map (\<lambda>c. (uart_base s, ucast c)) f"

lemma sent_trans: "sent s f t \<Longrightarrow> sent t g u \<Longrightarrow> sent s (f @ g) u"
  by (simp add: sent_def)

lemma sent_wait: "sent s [] (uart_wait_tx_space fr spins s)"
proof (induction fr spins s rule: uart_wait_tx_space.induct)
  case (1 fr spins s)
  let ?s = "s\<lparr>uart_reads := uart_reads s + 1\<rparr>"
  have "sent s [] (mb ?s)" "sent s [] ?s" by (simp_all add: sent_def mb_def uart_writes_def)
  with 1 sent_trans [of s "[]" "mb ?s" "[]"] show ?case
    by (subst uart_wait_tx_space.simps) (simp add: Let_def)
qed

lemma sent_store: "sent s [c] (mb (uart_store (UARTDR s) (ucast c) s))"
  by (simp add: sent_def mb_def uart_store_def uart_writes_def UARTDR_def)

lemma sent_putc: "sent s (crlf [c]) (serial_putc fr c s)"
proof -
  have one: "sent t [d] (mb (uart_store (UARTDR (uart_wait_tx_space fr 0 t)) (ucast d) (uart_wait_tx_space fr 0 t)))" for t d
    using sent_trans [OF sent_wait sent_store] by simp
  have r: "(ucast (13 :: u8) :: u32) = 13" "(ucast (10 :: u8) :: u32) = 10" by simp_all
  show ?thesis using one [of s c] sent_trans [OF one [of s 13, unfolded r] one [of _ 10, unfolded r]] by (simp add: serial_putc_def crlf_def Let_def)
qed

lemma sent_puts_loop: "cs_from str i f \<Longrightarrow> \<exists>s'. serial_puts_loop fr str i s = Some s' \<and> sent s (crlf f) s'"
proof (induction f arbitrary: i s)
  case Nil
  then show ?case by (subst serial_puts_loop.simps) (simp add: sent_def crlf_def)
next
  case (Cons c f)
  then obtain s' where "serial_puts_loop fr str (Suc i) (serial_putc fr c s) = Some s'" "sent (serial_putc fr c s) (crlf f) s'" by fastforce
  with Cons.prems sent_trans [OF sent_putc [of s c fr]] show ?case by (subst serial_puts_loop.simps) (auto simp: crlf_def)
qed

lemma sent_puts: "cs str f \<Longrightarrow> \<exists>s'. serial_puts fr (Some str) s = Some s' \<and> sent s (crlf f) s'"
  using sent_puts_loop [of str 0 f fr s] by (simp add: serial_puts_def cs_def)

text \<open>Start-up: the UART of the device tree, or the default one, is stopped, set to eight bits and started.\<close>

lemma serial_init_writes:
  assumes "dtb_get_stdout_uart_base dtb_ptr True m = Some (r, out)"
    and "base = (if r = 0 \<and> out \<noteq> None \<and> out \<noteq> Some 0 then the out else uart_base s)"
  shows "\<exists>s'. serial_init dtb_ptr m s = Some s' \<and> uart_base s' = base \<and>
    uart_writes (uart_io s') = uart_writes (uart_io s) @ [(base + 0x30, 0), (base + 0x2C, 0x60), (base + 0x30, 0x301)]"
proof -
  have "UARTLCR_H_WLEN_8 = 0x60" "UARTCR_UARTEN OR UARTCR_TXE OR UARTCR_RXE = 0x301"
    by (simp_all add: UARTLCR_H_WLEN_8_def UARTCR_UARTEN_def UARTCR_TXE_def UARTCR_RXE_def push_bit_eq_mult)
  then show ?thesis using assms
    by (cases out) (auto simp: serial_init_def Let_def mb_def uart_store_def UARTCR_def UARTLCR_H_def uart_writes_def)
qed

lemma hex_text_chars: "c \<in> set (hex_text n) \<Longrightarrow> 48 \<le> unat c"
proof (induction n rule: hex_text.induct)
  case (1 n)
  have d: "48 \<le> unat (hex_digit k)" if "k < 16" for k
    using that by (auto simp: hex_digit_def unat_word_ariths unat_of_nat unat_sub_if_size)
  from "1.prems" "1.IH" d [of n] d [of "n mod 16"] show ?case by (auto simp: hex_text.simps [of n] split: if_splits)
qed

section \<open>Properties\<close>

text \<open>
  C35 Whatever the flag register answers, sending a C string ends and writes its characters to the data register in their
  order, with a carriage return before each line feed, and writes to no other register; a number is
  sent as 0x and its hexadecimal digits.
\<close>

theorem serial_sends:
  assumes "cs str f"
  shows "\<exists>s1 s2. serial_puts fr (Some str) s = Some s1 \<and> sent s (crlf f) s1 \<and>
    serial_print_hex fr val s1 = Some s2 \<and> sent s1 ([48, 120] @ hex_text (unat val)) s2"
proof -
  obtain s1 where s1: "serial_puts fr (Some str) s = Some s1" "sent s (crlf f) s1" using sent_puts [OF assms] by blast
  have plain: "crlf g = g" if "\<forall>c \<in> set g. 48 \<le> unat c" for g :: "u8 list"
    using that by (induction g) (auto simp: crlf_def)
  have hex: "crlf (hex_text n) = hex_text n" "0 \<notin> set (hex_text n)" for n using plain hex_text_chars by (auto dest: hex_text_chars)
  have "\<exists>s2. serial_print_hex fr val s1 = Some s2 \<and> sent s1 ([48, 120] @ hex_text (unat val)) s2"
  proof (cases "val = 0")
    case True
    have "cs (lit (ascii ''0x0'')) ([48, 120] @ hex_text 0)" "crlf ([48, 120] @ hex_text 0) = [48, 120] @ hex_text 0"
      by (simp_all add: ascii_def hex_text.simps [of 0] hex_digit_def cs_def lit_def crlf_def)
    with True sent_puts [of "lit (ascii ''0x0'')" "[48, 120] @ hex_text 0" fr s1] show ?thesis by (simp add: serial_print_hex_def)
  next
    case False
    then have "hex_fill 19 (unat val) [] = Some (hex_text (unat val))"
      using hex_fill_text [of "unat val" "[]" 19] number_lengths(4) [of val] by (simp add: unat_gt_0)
    moreover have "cs (lit (ascii ''0x'')) [48, 120]" "crlf [48, 120] = [48, 120]" by (simp_all add: ascii_def cs_def lit_def crlf_def)
    then obtain t where "serial_puts fr (Some (lit (ascii ''0x''))) s1 = Some t" "sent s1 [48, 120] t" using sent_puts by metis
    moreover obtain s2 where "serial_puts fr (Some (lit (hex_text (unat val)))) t = Some s2" "sent t (hex_text (unat val)) s2"
      using sent_puts [of "lit (hex_text (unat val))" "hex_text (unat val)" fr t] hex by auto
    ultimately show ?thesis using False sent_trans [of s1 "[48, 120]" t "hex_text (unat val)" s2] by (simp add: serial_print_hex_def)
  qed
  with s1 show ?thesis by blast
qed

theorem serial_sends_witness:
  "\<exists>s1 s2. serial_puts (\<lambda>_. 0xFFFFFFFF) (Some (lit [104, 10])) \<lparr>uart_base = DEFAULT_UART_BASE, uart_reads = 0, uart_io = []\<rparr> = Some s1 \<and>
     uart_writes (uart_io s1) = [(DEFAULT_UART_BASE, 104), (DEFAULT_UART_BASE, 13), (DEFAULT_UART_BASE, 10)] \<and>
     serial_print_hex (\<lambda>_. 0xFFFFFFFF) 255 s1 = Some s2"
  using serial_sends [of "lit [104, 10]" "[104, 10]" "\<lambda>_. 0xFFFFFFFF" "\<lparr>uart_base = DEFAULT_UART_BASE, uart_reads = 0, uart_io = []\<rparr>" 255]
  by (auto simp: sent_def crlf_def uart_writes_def cs_def lit_def)

end
