(* ===== verification/Spinlock.thy ===== *)
theory Spinlock
  imports Prelude
begin

text \<open>
  The spinlock, \<open>src/include/kernel/spinlock.h\<close>. The functions are inline assembly; each instruction is one step of one
  processor, and the steps of any number of processors interleave. \<open>ldaxr\<close> loads and arms the exclusive monitor of its
  processor, every store to the lock disarms all monitors, and \<open>stxr\<close> stores only while the monitor is armed; a
  monitor may also be disarmed at any time (by an exception, for example). The theorem shows why the rest of the
  development may take an operation that holds its lock as one step.
\<close>

section \<open>Definitions\<close>

text \<open>Where a processor is: outside, at an instruction of \<open>spinlock_lock_irqsave\<close>, in the critical section, or at an
  instruction of \<open>spinlock_unlock_irqrestore\<close>.\<close>

datatype spin_pc = Outside | At_mrs_daif | At_msr_daifset | At_ldaxr | At_cbnz_lock | At_stxr | At_cbnz_status | Inside | At_stlr | At_msr_daif

record spin_state =
  spin_lock :: u32
  spin_monitor :: "nat \<Rightarrow> bool"
  spin_pc :: "nat \<Rightarrow> spin_pc"
  spin_tmp :: "nat \<Rightarrow> u32"
  spin_daif :: "nat \<Rightarrow> u64"
  spin_flags :: "nat \<Rightarrow> u64 option"

text \<open>The bit that masks interrupts, which \<open>msr daifset, #2\<close> sets.\<close>

definition DAIF_I :: u64 where "DAIF_I = push_bit 7 1"

definition go :: "nat \<Rightarrow> spin_pc \<Rightarrow> spin_state \<Rightarrow> spin_state" where
  "go i pc s = s\<lparr>spin_pc := (spin_pc s)(i := pc)\<rparr>"

definition set_tmp :: "nat \<Rightarrow> u32 \<Rightarrow> spin_state \<Rightarrow> spin_state" where
  "set_tmp i v s = s\<lparr>spin_tmp := (spin_tmp s)(i := v)\<rparr>"

text \<open>A store to the lock.\<close>

definition store_lock :: "u32 \<Rightarrow> spin_state \<Rightarrow> spin_state" where
  "store_lock v s = s\<lparr>spin_lock := v, spin_monitor := (\<lambda>_. False)\<rparr>"

text \<open>\<open>spinlock_lock\<close> alone (without flags) or with \<open>irqsave\<close>; the flags are the local variable of the caller.\<close>

inductive spin_step :: "nat \<Rightarrow> spin_state \<Rightarrow> spin_state \<Rightarrow> bool" where
  call_lock: "spin_pc s i = Outside \<Longrightarrow> spin_step i s (go i At_ldaxr (s\<lparr>spin_flags := (spin_flags s)(i := None)\<rparr>))"
| call_irqsave: "spin_pc s i = Outside \<Longrightarrow> spin_step i s (go i At_mrs_daif s)"
| mrs_daif: "spin_pc s i = At_mrs_daif \<Longrightarrow>
    spin_step i s (go i At_msr_daifset (s\<lparr>spin_flags := (spin_flags s)(i := Some (spin_daif s i))\<rparr>))"
| msr_daifset: "spin_pc s i = At_msr_daifset \<Longrightarrow>
    spin_step i s (go i At_ldaxr (s\<lparr>spin_daif := (spin_daif s)(i := spin_daif s i OR DAIF_I)\<rparr>))"
| ldaxr: "spin_pc s i = At_ldaxr \<Longrightarrow>
    spin_step i s (go i At_cbnz_lock (set_tmp i (spin_lock s) (s\<lparr>spin_monitor := (spin_monitor s)(i := True)\<rparr>)))"
| cbnz_lock: "spin_pc s i = At_cbnz_lock \<Longrightarrow> spin_step i s (go i (if spin_tmp s i \<noteq> 0 then At_ldaxr else At_stxr) s)"
| stxr: "spin_pc s i = At_stxr \<Longrightarrow> spin_monitor s i \<Longrightarrow> spin_step i s (go i At_cbnz_status (set_tmp i 0 (store_lock 1 s)))"
| stxr_fails: "spin_pc s i = At_stxr \<Longrightarrow> \<not> spin_monitor s i \<Longrightarrow> spin_step i s (go i At_cbnz_status (set_tmp i 1 s))"
| cbnz_status: "spin_pc s i = At_cbnz_status \<Longrightarrow> spin_step i s (go i (if spin_tmp s i \<noteq> 0 then At_ldaxr else Inside) s)"
| call_unlock: "spin_pc s i = Inside \<Longrightarrow> spin_step i s (go i At_stlr s)"
| stlr: "spin_pc s i = At_stlr \<Longrightarrow> spin_step i s (go i (if spin_flags s i = None then Outside else At_msr_daif) (store_lock 0 s))"
| msr_daif: "spin_pc s i = At_msr_daif \<Longrightarrow> spin_flags s i = Some f \<Longrightarrow>
    spin_step i s (go i Outside (s\<lparr>spin_daif := (spin_daif s)(i := f)\<rparr>))"
| disarm: "spin_step i s (s\<lparr>spin_monitor := (spin_monitor s)(i := False)\<rparr>)"

text \<open>\<open>spinlock_init\<close>: nobody has the lock. \<open>daif\<close> are the masks the processors start with.\<close>

definition spinlock_init :: "(nat \<Rightarrow> u64) \<Rightarrow> spin_state" where
  "spinlock_init daif = \<lparr>spin_lock = 0, spin_monitor = (\<lambda>_. False), spin_pc = (\<lambda>_. Outside), spin_tmp = (\<lambda>_. 0),
     spin_daif = daif, spin_flags = (\<lambda>_. None)\<rparr>"

inductive spin_reach :: "(nat \<Rightarrow> u64) \<Rightarrow> spin_state \<Rightarrow> bool" for daif where
  spin_start: "spin_reach daif (spinlock_init daif)"
| spin_next: "spin_reach daif s \<Longrightarrow> spin_step i s s' \<Longrightarrow> spin_reach daif s'"

inductive_cases spin_stepE: "spin_step i s s'"

text \<open>The processor that has the lock: from the store that took it to the one that gives it back.\<close>

definition has_lock :: "spin_state \<Rightarrow> nat \<Rightarrow> bool" where
  "has_lock s i \<longleftrightarrow> spin_pc s i = Inside \<or> spin_pc s i = At_stlr \<or> spin_pc s i = At_cbnz_status \<and> spin_tmp s i = 0"

section \<open>Lemmas\<close>

lemma spin_simps [simp]:
  "spin_lock (go i pc s) = spin_lock s" "spin_monitor (go i pc s) = spin_monitor s" "spin_pc (go i pc s) = (spin_pc s)(i := pc)"
  "spin_tmp (go i pc s) = spin_tmp s" "spin_daif (go i pc s) = spin_daif s" "spin_flags (go i pc s) = spin_flags s"
  "spin_lock (set_tmp i v s) = spin_lock s" "spin_monitor (set_tmp i v s) = spin_monitor s" "spin_pc (set_tmp i v s) = spin_pc s"
  "spin_tmp (set_tmp i v s) = (spin_tmp s)(i := v)" "spin_daif (set_tmp i v s) = spin_daif s" "spin_flags (set_tmp i v s) = spin_flags s"
  "spin_lock (store_lock w s) = w" "spin_monitor (store_lock w s) = (\<lambda>_. False)" "spin_pc (store_lock w s) = spin_pc s"
  "spin_tmp (store_lock w s) = spin_tmp s" "spin_daif (store_lock w s) = spin_daif s" "spin_flags (store_lock w s) = spin_flags s"
  by (simp_all add: go_def set_tmp_def store_lock_def)

text \<open>The lock is taken exactly while a processor has it, and only one has it; a processor whose monitor is still armed and that saw the
  lock free is right.\<close>

definition armed :: "spin_state \<Rightarrow> nat \<Rightarrow> bool" where
  "armed s i \<longleftrightarrow> spin_monitor s i \<and> (spin_pc s i = At_stxr \<or> spin_pc s i = At_cbnz_lock \<and> spin_tmp s i = 0)"

definition spin_inv :: "spin_state \<Rightarrow> bool" where
  "spin_inv s \<longleftrightarrow> (spin_lock s = 0 \<longleftrightarrow> (\<forall>i. \<not> has_lock s i)) \<and> (\<forall>i j. has_lock s i \<and> has_lock s j \<longrightarrow> i = j) \<and>
     (\<forall>i. armed s i \<longrightarrow> spin_lock s = 0)"

lemma spin_inv_same:
  assumes "spin_inv s" "spin_lock s' = spin_lock s" "\<And>j. has_lock s' j = has_lock s j" "\<And>j. armed s' j \<Longrightarrow> armed s j \<or> spin_lock s = 0"
  shows "spin_inv s'"
proof -
  have "has_lock s' = has_lock s" using assms(3) by blast
  then show ?thesis using assms(1,2,4) unfolding spin_inv_def by metis
qed

lemma spin_inv_step: "spin_step i s s' \<Longrightarrow> spin_inv s \<Longrightarrow> spin_inv s'"
proof (induction rule: spin_step.induct)
  case (stxr s i)
  then have "armed s i" by (simp add: armed_def)
  then have "spin_lock s = 0" "\<And>j. \<not> has_lock s j" using stxr(3) unfolding spin_inv_def by blast+
  then have "has_lock (go i At_cbnz_status (set_tmp i 0 (store_lock 1 s))) j \<longleftrightarrow> j = i" for j by (auto simp: has_lock_def)
  then show ?case by (simp add: spin_inv_def armed_def)
next
  case (stlr s i)
  then have "has_lock s i" by (simp add: has_lock_def)
  then have "\<And>j. has_lock s j \<Longrightarrow> j = i" using stlr(2) unfolding spin_inv_def by blast
  then have "\<not> has_lock (go i (if spin_flags s i = None then Outside else At_msr_daif) (store_lock 0 s)) j" for j
    by (auto simp: has_lock_def)
  then show ?case by (simp add: spin_inv_def armed_def)
qed (erule spin_inv_same; auto simp: has_lock_def armed_def split: if_splits)+

lemma spin_reach_inv: "spin_reach daif s \<Longrightarrow> spin_inv s"
proof (induction rule: spin_reach.induct)
  case spin_start
  then show ?case by (simp add: spin_inv_def has_lock_def spinlock_init_def)
qed (rule spin_inv_step)

text \<open>The interrupt masks: saved, set and restored by each processor.\<close>

definition daif_inv :: "(nat \<Rightarrow> u64) \<Rightarrow> spin_state \<Rightarrow> bool" where
  "daif_inv daif s \<longleftrightarrow> (\<forall>i. if spin_pc s i \<in> {Outside, At_mrs_daif} then spin_daif s i = daif i
     else if spin_pc s i = At_msr_daifset then spin_daif s i = daif i \<and> spin_flags s i = Some (daif i)
     else if spin_pc s i = At_msr_daif then spin_flags s i = Some (daif i)
     else spin_flags s i = None \<and> spin_daif s i = daif i \<or> spin_flags s i = Some (daif i) \<and> spin_daif s i = daif i OR DAIF_I)"

lemma daif_inv_step: "spin_step i s s' \<Longrightarrow> daif_inv daif s \<Longrightarrow> daif_inv daif s'"
  unfolding daif_inv_def
proof (intro allI)
  fix j
  assume step: "spin_step i s s'" and inv: "\<forall>i. if spin_pc s i \<in> {Outside, At_mrs_daif} then spin_daif s i = daif i
     else if spin_pc s i = At_msr_daifset then spin_daif s i = daif i \<and> spin_flags s i = Some (daif i)
     else if spin_pc s i = At_msr_daif then spin_flags s i = Some (daif i)
     else spin_flags s i = None \<and> spin_daif s i = daif i \<or> spin_flags s i = Some (daif i) \<and> spin_daif s i = daif i OR DAIF_I"
  from step spec [OF inv, of j] spec [OF inv, of i]
  show "if spin_pc s' j \<in> {Outside, At_mrs_daif} then spin_daif s' j = daif j
     else if spin_pc s' j = At_msr_daifset then spin_daif s' j = daif j \<and> spin_flags s' j = Some (daif j)
     else if spin_pc s' j = At_msr_daif then spin_flags s' j = Some (daif j)
     else spin_flags s' j = None \<and> spin_daif s' j = daif j \<or> spin_flags s' j = Some (daif j) \<and> spin_daif s' j = daif j OR DAIF_I"
    by (cases "j = i"; cases rule: spin_step.cases) (auto split: if_splits)
qed

lemma spin_reach_daif: "spin_reach daif s \<Longrightarrow> daif_inv daif s"
proof (induction rule: spin_reach.induct)
  case spin_start
  then show ?case by (simp add: daif_inv_def spinlock_init_def)
qed (rule daif_inv_step)

text \<open>A processor that is alone takes a free lock in four steps.\<close>

lemma spin_takes_free:
  assumes "spin_pc s i = At_ldaxr" "spin_lock s = 0"
  shows "\<exists>s'. (spin_step i)\<^sup>*\<^sup>* s s' \<and> spin_pc s' i = Inside \<and> spin_lock s' = 1"
proof -
  define s1 where "s1 = go i At_cbnz_lock (set_tmp i (spin_lock s) (s\<lparr>spin_monitor := (spin_monitor s)(i := True)\<rparr>))"
  define s2 where "s2 = go i (if spin_tmp s1 i \<noteq> 0 then At_ldaxr else At_stxr) s1"
  define s3 where "s3 = go i At_cbnz_status (set_tmp i 0 (store_lock 1 s2))"
  define s4 where "s4 = go i (if spin_tmp s3 i \<noteq> 0 then At_ldaxr else Inside) s3"
  have "spin_step i s s1" unfolding s1_def using assms(1) by (rule ldaxr)
  moreover have "spin_step i s1 s2" unfolding s2_def by (rule cbnz_lock) (simp add: s1_def)
  moreover have "spin_step i s2 s3" unfolding s3_def by (rule stxr) (use assms(2) in \<open>simp_all add: s2_def s1_def\<close>)
  moreover have "spin_step i s3 s4" unfolding s4_def by (rule cbnz_status) (simp add: s3_def)
  ultimately have "(spin_step i)\<^sup>*\<^sup>* s s4" by (meson r_into_rtranclp rtranclp_trans)
  moreover have "spin_pc s4 i = Inside" "spin_lock s4 = 1" by (simp_all add: s4_def s3_def)
  ultimately show ?thesis by blast
qed

section \<open>Properties\<close>

text \<open>
  C32 However the instructions of the processors interleave: at most one processor is between the end of \<open>spinlock_lock\<close> and the store of
  \<open>spinlock_unlock\<close>; the lock is free when nobody holds or just took it; with \<open>irqsave\<close> interrupts are masked in the critical section,
  and after \<open>irqrestore\<close> the mask is what it was before. A processor that finds the lock free and is left alone gets it.
\<close>

theorem spinlock_excludes:
  assumes "spin_reach daif s"
  shows "(\<forall>i j. spin_pc s i \<in> {Inside, At_stlr} \<and> spin_pc s j \<in> {Inside, At_stlr} \<longrightarrow> i = j) \<and>
    ((\<forall>i. \<not> has_lock s i) \<longleftrightarrow> spin_lock s = 0) \<and>
    (\<forall>i. spin_pc s i = Inside \<and> spin_flags s i \<noteq> None \<longrightarrow> bit (spin_daif s i) 7) \<and>
    (\<forall>i. spin_pc s i = Outside \<longrightarrow> spin_daif s i = daif i) \<and>
    (\<forall>i. spin_pc s i = At_ldaxr \<and> spin_lock s = 0 \<longrightarrow> (\<exists>s'. (spin_step i)\<^sup>*\<^sup>* s s' \<and> spin_pc s' i = Inside))"
proof (intro conjI)
  note inv = spin_reach_inv [OF assms] and masks = spin_reach_daif [OF assms]
  show "\<forall>i j. spin_pc s i \<in> {Inside, At_stlr} \<and> spin_pc s j \<in> {Inside, At_stlr} \<longrightarrow> i = j"
    using inv unfolding spin_inv_def has_lock_def by blast
  show "(\<forall>i. \<not> has_lock s i) \<longleftrightarrow> spin_lock s = 0" using inv by (simp add: spin_inv_def)
  show "\<forall>i. spin_pc s i = Inside \<and> spin_flags s i \<noteq> None \<longrightarrow> bit (spin_daif s i) 7"
  proof (intro allI impI)
    fix i
    assume i: "spin_pc s i = Inside \<and> spin_flags s i \<noteq> None"
    with masks have "spin_daif s i = daif i OR DAIF_I" by (auto simp: daif_inv_def dest!: spec [of _ i])
    then show "bit (spin_daif s i) 7" by (simp add: DAIF_I_def bit_simps)
  qed
  show "\<forall>i. spin_pc s i = Outside \<longrightarrow> spin_daif s i = daif i" using masks by (auto simp: daif_inv_def dest: spec)
  show "\<forall>i. spin_pc s i = At_ldaxr \<and> spin_lock s = 0 \<longrightarrow> (\<exists>s'. (spin_step i)\<^sup>*\<^sup>* s s' \<and> spin_pc s' i = Inside)"
    using spin_takes_free by blast
qed

theorem spinlock_excludes_witness:
  "\<exists>s. spin_reach (\<lambda>_. 0) s \<and> spin_pc s 0 = At_ldaxr \<and> (\<exists>s'. (spin_step 0)\<^sup>*\<^sup>* s s' \<and> spin_pc s' 0 = Inside)"
proof -
  let ?s = "go 0 At_ldaxr ((spinlock_init (\<lambda>_. 0))\<lparr>spin_flags := (spin_flags (spinlock_init (\<lambda>_. 0)))(0 := None)\<rparr>)"
  have "spin_step 0 (spinlock_init (\<lambda>_. 0)) ?s" by (rule call_lock) (simp add: spinlock_init_def)
  then have r: "spin_reach (\<lambda>_. 0) ?s" using spin_start spin_next by blast
  moreover have "spin_pc ?s 0 = At_ldaxr" "spin_lock ?s = 0" by (simp_all add: spinlock_init_def)
  ultimately show ?thesis using spinlock_excludes [OF r] by blast
qed

end
