(* ===== verification/Spec2Isabelle.thy ===== *)
theory Spec2Isabelle
  imports Task Syscall Serial Spinlock Pmm_Init
begin

text \<open>
  Arcline is a small kernel for 64-bit ARM (QEMU virt). This development models its C code and proves
  what makes each part correct. File names below are relative to \<open>src/\<close>.

  \<^bold>\<open>The program.\<close> At start-up the kernel finds the flattened device tree, reads from it the UART of the
  console (\<open>drivers/dtb.c\<close>) and the RAM range (\<open>mm/pmm.c\<close>), and sets up a bitmap of physical pages.
  \<open>mm/mmu.c\<close> takes pages from that allocator for four-level page tables and builds the boot address
  spaces; \<open>mm/tlb.c\<close> does the TLB and cache maintenance. \<open>mm/vmm.c\<close> keeps the areas of kernel virtual
  memory in a red-black tree over a static pool of nodes and changes the page tables with it, and
  \<open>mm/vmalloc.c\<close> gives out blocks of that memory between guard pages.
  \<open>kernel/sched/eevdf.c\<close> keeps the tasks that are ready in a second red-black tree, ordered by virtual run
  time; \<open>kernel/sched/sched.c\<close> chooses the next task at a voluntary call and at a timer interrupt, and
  \<open>kernel/sched/task.c\<close> creates tasks on memory from \<open>vmalloc\<close> and ends them, with PIDs of \<open>kernel/pid.c\<close>. An
  interrupt enters \<open>kernel/irq_handler.c\<close>, which asks the controller (\<open>drivers/gic.c\<close>) for its number and calls
  the handler in the table of \<open>kernel/irq.c\<close>; that of the timer (\<open>drivers/timer.c\<close>) calls the scheduler. System
  calls and exceptions enter \<open>arch/arm64/exception/exception.c\<close> and \<open>kernel/syscall.c\<close>. Messages are formatted by
  \<open>kernel/printk.c\<close> into a ring of records, \<open>kernel/log.c\<close>, and sent by \<open>drivers/serial.c\<close>; \<open>lib/string.c\<close> is the C
  string library and \<open>include/kernel/spinlock.h\<close> the lock that the parts use.

  \<^bold>\<open>How C is modelled.\<close> Machine integers are words of their width and wrap around (\<open>u8\<close> to \<open>u64\<close>); \<open>int\<close>
  variables whose range is small are \<open>int\<close>. Pointers into a static array are indices, other pointers
  are addresses; a null pointer is \<open>None\<close> or the address 0. What C leaves undefined (an index outside
  an array, a null pointer that is followed, an address without a byte) is \<open>None\<close> in the option monad,
  and a loop that does not end is \<open>None\<close> too (\<open>partial_function (option)\<close>), so a theorem that an
  operation returns \<open>Some\<close> says that it is memory safe and that it ends; no fuel is used anywhere.
  \<open>panic\<close> is \<open>Inl\<close>. An operation that holds its spinlock from beginning to end is one step.

  \<^bold>\<open>Theories.\<close>
  \<^item> \<open>Prelude\<close>: machine integers, checked arrays, \<open>for\<close> loops with their invariant rules, page alignment,
    bit maps (locale \<open>bitmap\<close>) and the contract of a page allocator (locale \<open>page_allocator\<close>).
  \<^item> \<open>Pid\<close> (\<open>kernel/pid.c\<close>): the bitmap of PIDs.
  \<^item> \<open>Pmm\<close>, \<open>Pmm_Init\<close> (\<open>mm/pmm.c\<close>): the bitmap of pages with its first-fit search, and start-up from the
    device tree. The free-page counter always agrees with the bitmap, allocations are distinct, and
    after start-up exactly the pages of image, stack, blob, UART and first MiB are in use (not those of
    \<open>/reserved-memory\<close>, which the code means to reserve).
  \<^item> \<open>Mmu\<close>, \<open>Mmu_Init\<close> (\<open>mm/mmu.c\<close>, \<open>mm/tlb.c\<close>): page tables in a memory of 64-bit words; the specification is
    the walk of the hardware. \<open>mmu_map_page\<close> and \<open>mmu_unmap_page\<close> change one translation and no other. The pages that
    the tables take are counted (at most three for a page, \<open>boot_pages\<close> for all of \<open>mmu_init\<close>), so that success follows from
    a number of free pages.
  \<^item> \<open>RBTree\<close>, \<open>RBTree_Insert\<close>, \<open>RBTree_Delete\<close> (\<open>mm/vmm.c\<close>, the tree): pointer-level red-black tree; repair
    after insertion and deletion end, keep the order and restore the invariant.
  \<^item> \<open>Vma\<close>, \<open>Vmm\<close> (the rest of \<open>mm/vmm.c\<close>): the node pool, the lookups (locale \<open>area_store\<close>) and the
    handlers. Each handler refines an operation on a list of disjoint areas, with the same answer, and so does a whole
    sequence of calls after \<open>vmm_init\<close>. For \<open>vmm_map\<close> this needs a range that ends before the top of the address space and has
    at most 2 ^ 48 bytes, and a pool that is not used up; what goes wrong otherwise is stated with it.
  \<^item> \<open>DList\<close>, \<open>Vmalloc_List\<close>, \<open>Vmalloc\<close> (\<open>mm/vmalloc.c\<close>): pointer-level lists; the ranges of free addresses (best
    fit, then a bump pointer), and \<open>vmalloc\<close> and \<open>vfree\<close> over the memory manager and the page allocator, with each null
    answer tied to its cause and the 256 areas of the pool as a hypothesis, since the code does not look at them. The merge of
    neighbouring ranges is modelled as it is, and what is wrong with it is a theorem.
  \<^item> \<open>Eevdf_Tree\<close>, \<open>Eevdf\<close> (\<open>kernel/sched/eevdf.c\<close>): the second red-black tree does exactly what the first does;
    the run queue is a stable priority queue (locale \<open>run_queue\<close>).
  \<^item> \<open>Sched\<close> (\<open>kernel/sched/sched.c\<close>, \<open>kernel/sched/task.c\<close>): \<open>schedule\<close>, preemption, exit and kill, the invariant that
    the code checks by \<open>panic\<close>, and that no queued task starves. The pool of 64 nodes bounds the tasks that may be ready or
    running; nothing enforces it, and with 65 the scheduler panics.
  \<^item> \<open>Task\<close> (\<open>kernel/sched/task.c\<close>): creation of tasks and start-up of the scheduler over all of the memory management;
    the invariants of scheduler and memory hold together, and no two tasks share memory or a PID.
  \<^item> \<open>Irq\<close> (\<open>kernel/irq.c\<close>, \<open>kernel/irq_handler.c\<close>, \<open>drivers/timer.c\<close>): from the acknowledge of an interrupt through the
    handler of the timer and the scheduler to its end, as an invariant of the machine; the delays end.
  \<^item> \<open>Gic\<close> (\<open>drivers/gic.c\<close>): the set-up and the enabling of interrupts, run on a distributor that does what its
    manual says (a parameter) for the lines whose enable bits can be programmed; the search for the version is a function of the stream of tokens.
  \<^item> \<open>Syscall\<close> (\<open>kernel/syscall.c\<close>, \<open>kernel/panic.c\<close>, \<open>arch/arm64/exception/exception.c\<close>): every call on every branch, the panic
    report and the exception handlers.
  \<^item> \<open>Serial\<close> (\<open>drivers/serial.c\<close>): what is written to the registers, and that it ends whatever the device answers.
  \<^item> \<open>Spinlock\<close> (\<open>include/kernel/spinlock.h\<close>): a step for each instruction; mutual exclusion in every interleaving.
  \<^item> \<open>Klog\<close> (\<open>kernel/log.c\<close>): the ring refines a bounded queue of records.
  \<^item> \<open>Printk\<close> (\<open>kernel/printk.c\<close>): the formatter computes the text of the format and its arguments, cut to the buffer, and
    the text is one record of the log.
  \<^item> \<open>CString\<close>, \<open>CString_Copy\<close> (\<open>lib/string.c\<close>): each function computes the operation on byte lists that its name
    promises and changes nothing else.
  \<^item> \<open>Fdt\<close>, \<open>Dtb\<close> (\<open>include/dtb.h\<close>, \<open>drivers/dtb.c\<close>): the blob as a stream of tokens; the walks over it are functions
    of the stream. The console lookup finds the node that \<open>/chosen\<close> names, and where it fails to is stated too.

  \<^bold>\<open>Not modelled.\<close> Assembly (exception vectors, \<open>switch_to\<close> and the register file behind it, the jump to
  the higher half, \<open>shutdown_system\<close>), \<open>include/kernel/atomic.h\<close> (nothing calls it), \<open>init/main.c\<close> (the order of the start-up
  calls), \<open>dtb_dump_info\<close> and the sanitizer hooks, which only print, and the headers under \<open>include/fs\<close>, which have no
  implementation. What devices answer are arguments (timer and flag readings, the number of an interrupt); what is
  written to them is a trace (registers, barriers, TLB instructions).
\<close>

end
